(* ===== verification/Prelude.thy ===== *)
theory Prelude
  imports
    Main
    "HOL-Library.Word"
    "HOL-Library.Multiset"
    "HOL-Library.Sublist"
    "HOL-Library.Product_Lexorder"
    "HOL-Library.List_Lexorder"
    "HOL-Library.Option_ord"
begin

unbundle bit_operations_syntax

text \<open>
  Shared vocabulary of the development: the machine integers, the result type of fallible
  code, Rust's three-way comparison with the sorts built on it, and the list operations of the
  standard library that the linker's passes use. The lemmas here speak of no component.

  Integers: \<open>u8\<close>, \<open>u32\<close> and \<open>u64\<close> are words of that width. \<open>usize\<close> is 64 bits wide (the
  targets qld builds for); it counts elements of in-memory vectors, so it is a natural number, and
  every operation of the source that can leave the range (\<open>checked_add\<close>) has its bound written
  out.
\<close>

section \<open>Collections of facts\<close>

named_theorems unat_simps \<open>facts that read a word operation as an operation on naturals\<close>
named_theorems model_defs \<open>definitions the proofs of a component unfold together\<close>

section \<open>Machine integers\<close>

type_synonym u8 = "8 word"
type_synonym u32 = "32 word"
type_synonym u64 = "64 word"
type_synonym usize = nat

abbreviation u32_max :: nat where
  "u32_max \<equiv> 2 ^ 32 - 1"

abbreviation u64_max :: nat where
  "u64_max \<equiv> 2 ^ 64 - 1"

abbreviation usize_max :: nat where
  "usize_max \<equiv> 2 ^ 64 - 1"

definition wrapping_succ_usize :: "usize \<Rightarrow> usize" where
  "wrapping_succ_usize n = (n + 1) mod 2 ^ 64"

definition checked_add_usize :: "usize \<Rightarrow> usize \<Rightarrow> usize option" where
  "checked_add_usize a b = (if a + b \<le> usize_max then Some (a + b) else None)"

definition saturating_add_usize :: "usize \<Rightarrow> usize \<Rightarrow> usize" where
  "saturating_add_usize a b = min (a + b) usize_max"

definition saturating_mul_usize :: "usize \<Rightarrow> usize \<Rightarrow> usize" where
  "saturating_mul_usize a b = min (a * b) usize_max"

definition checked_add_u64 :: "u64 \<Rightarrow> u64 \<Rightarrow> u64 option" where
  "checked_add_u64 a b = (if unat a + unat b \<le> u64_max then Some (a + b) else None)"

definition u32_try_from :: "usize \<Rightarrow> u32 option" where
  "u32_try_from n = (if n \<le> u32_max then Some (of_nat n) else None)"

text \<open>Rust's \<open>trailing_zeros\<close> and \<open>count_ones\<close> of a \<open>u64\<close>.\<close>

definition trailing_zeros :: "u64 \<Rightarrow> nat" where
  "trailing_zeros w = length (takeWhile (\<lambda>i. \<not> bit w i) [0..<64])"

definition count_ones :: "u64 \<Rightarrow> nat" where
  "count_ones w = length (filter (bit w) [0..<64])"

definition is_power_of_two :: "u64 \<Rightarrow> bool" where
  "is_power_of_two w \<longleftrightarrow> count_ones w = 1"

section \<open>Results\<close>

datatype ('a, 'e) result = Ok 'a | Err 'e

fun bind_result :: "('a, 'e) result \<Rightarrow> ('a \<Rightarrow> ('b, 'e) result) \<Rightarrow> ('b, 'e) result" where
  "bind_result (Ok a) f = f a"
| "bind_result (Err e) f = Err e"

text \<open>The \<open>FromIterator\<close> of \<open>Result\<close>: the values, or the first error.\<close>

fun collect_results :: "('a, 'e) result list \<Rightarrow> ('a list, 'e) result" where
  "collect_results [] = Ok []"
| "collect_results (r # rs) =
     bind_result r (\<lambda>a. bind_result (collect_results rs) (\<lambda>as. Ok (a # as)))"

text \<open>The \<open>FromIterator\<close> of \<open>Option\<close>.\<close>

fun collect_options :: "'a option list \<Rightarrow> 'a list option" where
  "collect_options [] = Some []"
| "collect_options (r # rs) =
     (case r of None \<Rightarrow> None
      | Some a \<Rightarrow> (case collect_options rs of None \<Rightarrow> None | Some as \<Rightarrow> Some (a # as)))"

section \<open>Three-way comparison\<close>

datatype cmp_ordering = Less | Equal | Greater

definition cmp :: "'a::linorder \<Rightarrow> 'a \<Rightarrow> cmp_ordering" where
  "cmp a b = (if a < b then Less else if a = b then Equal else Greater)"

fun reverse_ordering :: "cmp_ordering \<Rightarrow> cmp_ordering" where
  "reverse_ordering Less = Greater"
| "reverse_ordering Equal = Equal"
| "reverse_ordering Greater = Less"

text \<open>\<open>Ordering::then\<close> (and \<open>then_with\<close>, whose closure is pure).\<close>

fun then_ordering :: "cmp_ordering \<Rightarrow> cmp_ordering \<Rightarrow> cmp_ordering" where
  "then_ordering Equal o2 = o2"
| "then_ordering o1 o2 = o1"

text \<open>
  Sorting by a comparison function. Rust's \<open>sort_by\<close> is stable; the unstable sorts of the
  source are only called with orders in which no two elements are equal, where every correct sort
  gives the same list.
\<close>

fun insort_by :: "('a \<Rightarrow> 'a \<Rightarrow> cmp_ordering) \<Rightarrow> 'a \<Rightarrow> 'a list \<Rightarrow> 'a list" where
  "insort_by c x [] = [x]"
| "insort_by c x (y # ys) = (if c x y = Greater then y # insort_by c x ys else x # y # ys)"

definition sort_by :: "('a \<Rightarrow> 'a \<Rightarrow> cmp_ordering) \<Rightarrow> 'a list \<Rightarrow> 'a list" where
  "sort_by c xs = foldr (insort_by c) xs []"

section \<open>Lists\<close>

text \<open>\<open>slice.get(i)\<close> and \<open>slice.get(a..b)\<close>: \<open>None\<close> out of range.\<close>

definition get_nth :: "'a list \<Rightarrow> nat \<Rightarrow> 'a option" where
  "get_nth xs i = (if i < length xs then Some (xs ! i) else None)"

definition sub_slice :: "'a list \<Rightarrow> nat \<Rightarrow> nat \<Rightarrow> 'a list" where
  "sub_slice xs a b = take (b - a) (drop a xs)"

definition get_range :: "'a list \<Rightarrow> nat \<Rightarrow> nat \<Rightarrow> 'a list option" where
  "get_range xs a b = (if a \<le> b \<and> b \<le> length xs then Some (sub_slice xs a b) else None)"

text \<open>\<open>slice.get(a..b).unwrap_or(&[])\<close>.\<close>

definition slice_or_empty :: "'a list \<Rightarrow> nat \<Rightarrow> nat \<Rightarrow> 'a list" where
  "slice_or_empty xs a b = (case get_range xs a b of Some ys \<Rightarrow> ys | None \<Rightarrow> [])"

text \<open>\<open>iter().position(p)\<close>.\<close>

definition position :: "('a \<Rightarrow> bool) \<Rightarrow> 'a list \<Rightarrow> nat option" where
  "position p xs = find (\<lambda>i. p (xs ! i)) [0..<length xs]"

text \<open>\<open>iter().rposition(p)\<close>.\<close>

definition rposition :: "('a \<Rightarrow> bool) \<Rightarrow> 'a list \<Rightarrow> nat option" where
  "rposition p xs = find (\<lambda>i. p (xs ! i)) (rev [0..<length xs])"

text \<open>\<open>slice.partition_point(p)\<close>, for a slice on which \<open>p\<close> holds of a prefix.\<close>

definition partition_point :: "('a \<Rightarrow> bool) \<Rightarrow> 'a list \<Rightarrow> nat" where
  "partition_point p xs = length (takeWhile p xs)"

text \<open>\<open>slice.chunks_exact(k)\<close>, also the whole chunks of \<open>as_chunks\<close>.\<close>

definition chunks_exact :: "nat \<Rightarrow> 'a list \<Rightarrow> 'a list list" where
  "chunks_exact k xs = map (\<lambda>i. sub_slice xs (i * k) (i * k + k)) [0..<length xs div k]"

text \<open>\<open>slice.windows(2).all(p)\<close>.\<close>

fun windows2_all :: "('a \<Rightarrow> 'a \<Rightarrow> bool) \<Rightarrow> 'a list \<Rightarrow> bool" where
  "windows2_all p (x # y # zs) \<longleftrightarrow> p x y \<and> windows2_all p (y # zs)"
| "windows2_all p _ \<longleftrightarrow> True"

text \<open>A filter whose predicate updates a state, as \<open>filter(|x| bits.set(x))\<close> does.\<close>

fun filter_state :: "('s \<Rightarrow> 'a \<Rightarrow> bool \<times> 's) \<Rightarrow> 's \<Rightarrow> 'a list \<Rightarrow> 'a list \<times> 's" where
  "filter_state f s [] = ([], s)"
| "filter_state f s (x # xs) =
     (let (keep, s1) = f s x; (ys, s2) = filter_state f s1 xs
      in (if keep then x # ys else ys, s2))"

section \<open>Lemmas\<close>

text \<open>
  Evaluating on small numbers: the bounds of the machine integers are too large to unfold as
  naturals, and small arguments need not reach them.
\<close>

lemma wrapping_succ_usize_code [code]:
  "wrapping_succ_usize n = (if n < 64 then n + 1 else (n + 1) mod 2 ^ 64)"
  by (simp add: wrapping_succ_usize_def)

lemma checked_add_usize_code [code]:
  "checked_add_usize a b =
     (if a < 64 \<and> b < 64 then Some (a + b) else if a + b \<le> usize_max then Some (a + b) else None)"
  by (simp add: checked_add_usize_def)

lemma saturating_add_usize_code [code]:
  "saturating_add_usize a b = (if a < 64 \<and> b < 64 then a + b else min (a + b) usize_max)"
  by (simp add: saturating_add_usize_def)

lemma saturating_mul_usize_code [code]:
  "saturating_mul_usize a b = (if a < 64 \<and> b < 64 then a * b else min (a * b) usize_max)"
proof -
  have "a * b \<le> usize_max" if "a < 64" "b < 64"
    using mult_mono [of a 64 b 64] that by simp
  then show ?thesis by (simp add: saturating_mul_usize_def)
qed

lemma u32_try_from_code [code]:
  "u32_try_from n = (if n < 64 then Some (of_nat n) else if n \<le> u32_max then Some (of_nat n) else None)"
  by (simp add: u32_try_from_def)

lemma cmp_simps [simp]:
  "cmp a b = Less \<longleftrightarrow> a < b"
  "cmp a b = Equal \<longleftrightarrow> a = b"
  "cmp a b = Greater \<longleftrightarrow> b < a"
  "cmp a a = Equal"
  by (auto simp: cmp_def)

lemma cmp_swap: "cmp b a = reverse_ordering (cmp a b)"
  by (auto simp: cmp_def)

lemma reverse_ordering_simps [simp]:
  "reverse_ordering x = Less \<longleftrightarrow> x = Greater"
  "reverse_ordering x = Equal \<longleftrightarrow> x = Equal"
  "reverse_ordering x = Greater \<longleftrightarrow> x = Less"
  "reverse_ordering (reverse_ordering x) = x"
  by (cases x; simp)+

lemma then_ordering_simps [simp]:
  "then_ordering x y = Equal \<longleftrightarrow> x = Equal \<and> y = Equal"
  "then_ordering x y = Less \<longleftrightarrow> x = Less \<or> x = Equal \<and> y = Less"
  "then_ordering x y = Greater \<longleftrightarrow> x = Greater \<or> x = Equal \<and> y = Greater"
  by (cases x; simp)+

lemma reverse_then: "reverse_ordering (then_ordering x y) =
    then_ordering (reverse_ordering x) (reverse_ordering y)"
  by (cases x; simp)

lemma bind_result_Ok [simp]: "bind_result r f = Ok b \<longleftrightarrow> (\<exists>a. r = Ok a \<and> f a = Ok b)"
  by (cases r) auto

lemma bind_result_Err: "bind_result r f = Err e \<longleftrightarrow> r = Err e \<or> (\<exists>a. r = Ok a \<and> f a = Err e)"
  by (cases r) auto

lemma collect_results_Ok: "collect_results rs = Ok as \<longleftrightarrow> rs = map Ok as"
  by (induction rs arbitrary: as) (auto simp: Cons_eq_map_conv)

lemma collect_options_Some: "collect_options rs = Some as \<longleftrightarrow> rs = map Some as"
proof (induction rs arbitrary: as)
  case Nil
  then show ?case by auto
next
  case (Cons r rs)
  then show ?case
    by (cases as; cases r; cases "collect_options rs") auto
qed

lemma get_nth_Some [simp]: "get_nth xs i = Some x \<longleftrightarrow> i < length xs \<and> xs ! i = x"
  by (simp add: get_nth_def)

lemma get_nth_None [simp]: "get_nth xs i = None \<longleftrightarrow> length xs \<le> i"
  by (simp add: get_nth_def)

lemma find_SomeD: "find P xs = Some x \<Longrightarrow> x \<in> set xs \<and> P x"
  by (auto simp: find_Some_iff)

lemma length_sub_slice [simp]: "length (sub_slice xs a b) = min (b - a) (length xs - a)"
  by (simp add: sub_slice_def)

lemma nth_sub_slice: "i < b - a \<Longrightarrow> a + i < length xs \<Longrightarrow> sub_slice xs a b ! i = xs ! (a + i)"
  by (simp add: sub_slice_def)

lemma sub_slice_append:
  assumes "a \<le> b" and "b \<le> c"
  shows "sub_slice xs a b @ sub_slice xs b c = sub_slice xs a c"
proof -
  have "take (c - a) (drop a xs) =
      take (b - a) (drop a xs) @ take (c - b) (drop (b - a) (drop a xs))"
    using assms take_add [of "b - a" "c - b" "drop a xs"] by simp
  then show ?thesis
    using assms by (simp add: sub_slice_def)
qed

lemma sub_slice_all [simp]: "sub_slice xs 0 (length xs) = xs"
  by (simp add: sub_slice_def)

lemma sub_slice_empty [simp]: "sub_slice xs a a = []"
  by (simp add: sub_slice_def)

lemma unat_ucast_u32 [simp]: "unat (ucast w :: u64) = unat w" for w :: u32
proof -
  have "unat w < 2 ^ 32" using unsigned_less [of w] by simp
  then show ?thesis by (simp add: unsigned_ucast_eq take_bit_nat_eq_self)
qed

lemma slice_or_empty_in_range: "a \<le> b \<Longrightarrow> b \<le> length xs \<Longrightarrow> slice_or_empty xs a b = sub_slice xs a b"
  by (simp add: slice_or_empty_def get_range_def)

lemma enumerate_upt: "List.enumerate 0 xs = map (\<lambda>i. (i, xs ! i)) [0..<length xs]"
  by (rule nth_equalityI) (simp_all add: nth_enumerate_eq)

lemma all_nat_split_0: "(\<forall>i. P i) \<longleftrightarrow> P 0 \<and> (\<forall>i. P (Suc i))"
  by (metis not0_implies_Suc)

lemma ex_nat_split_0: "(\<exists>i. P i) \<longleftrightarrow> P 0 \<or> (\<exists>i. P (Suc i))"
  by (metis not0_implies_Suc)

lemma windows2_all_nth:
  "windows2_all p xs \<longleftrightarrow> (\<forall>i. Suc i < length xs \<longrightarrow> p (xs ! i) (xs ! Suc i))"
proof (induction p xs rule: windows2_all.induct)
  case (1 p x y zs)
  have "(\<forall>i. Suc i < length (x # y # zs) \<longrightarrow> p ((x # y # zs) ! i) ((x # y # zs) ! Suc i)) \<longleftrightarrow>
      p x y \<and> (\<forall>i. Suc i < length (y # zs) \<longrightarrow> p ((y # zs) ! i) ((y # zs) ! Suc i))"
    by (subst all_nat_split_0) simp
  with "1.IH" show ?case by simp
qed auto

lemma windows2_le_sorted: "windows2_all (\<le>) xs \<longleftrightarrow> sorted xs"
  by (simp add: windows2_all_nth sorted_iff_nth_Suc)

lemma takeWhile_upt:
  "\<exists>k\<le>n. takeWhile P [0..<n] = [0..<k] \<and> (\<forall>j<k. P j) \<and> (k < n \<longrightarrow> \<not> P k)"
proof (induction n)
  case 0
  then show ?case by simp
next
  case (Suc n)
  then obtain k where k: "k \<le> n" "takeWhile P [0..<n] = [0..<k]" "\<forall>j<k. P j" "k < n \<longrightarrow> \<not> P k"
    by blast
  show ?case
  proof (cases "k < n")
    case True
    with k have "\<not> (\<forall>x\<in>set [0..<n]. P x)" by auto
    then have "takeWhile P [0..<Suc n] = takeWhile P [0..<n]"
      by (auto simp: takeWhile_append)
    with k True show ?thesis
      by (intro exI [of _ k]) auto
  next
    case False
    with k have "takeWhile P [0..<Suc n] = [0..<if P n then Suc n else n]"
      by (auto simp: takeWhile_append)
    with k False show ?thesis
      by (intro exI [of _ "if P n then Suc n else n"]) (auto simp: less_Suc_eq)
  qed
qed

lemma trailing_zeros_spec:
  "trailing_zeros w \<le> 64" "j < trailing_zeros w \<Longrightarrow> \<not> bit w j"
  "trailing_zeros w < 64 \<Longrightarrow> bit w (trailing_zeros w)"
proof -
  obtain k where "k \<le> 64" "takeWhile (\<lambda>i. \<not> bit w i) [0..<64] = [0..<k]"
    "\<forall>j<k. \<not> bit w j" "k < 64 \<longrightarrow> bit w k"
    using takeWhile_upt [of 64 "\<lambda>i. \<not> bit w i"] by blast
  then show "trailing_zeros w \<le> 64" "j < trailing_zeros w \<Longrightarrow> \<not> bit w j"
    "trailing_zeros w < 64 \<Longrightarrow> bit w (trailing_zeros w)"
    by (simp_all only: trailing_zeros_def length_upt) simp_all
qed

lemma trailing_zeros_less: "w \<noteq> 0 \<Longrightarrow> trailing_zeros w < 64"
proof (rule ccontr)
  assume "w \<noteq> 0" "\<not> trailing_zeros w < 64"
  then have "trailing_zeros w = 64"
    using trailing_zeros_spec(1) [of w] by simp
  then have "w = 0"
    using trailing_zeros_spec(2) [of _ w] by (intro bit_word_eqI) simp
  with \<open>w \<noteq> 0\<close> show False by simp
qed

lemma position_Some: "position p xs = Some i \<longleftrightarrow> i < length xs \<and> p (xs ! i) \<and> (\<forall>j<i. \<not> p (xs ! j))"
  by (auto simp: position_def find_Some_iff)

lemma position_None: "position p xs = None \<longleftrightarrow> (\<forall>x\<in>set xs. \<not> p x)"
  by (auto simp: position_def find_None_iff all_set_conv_all_nth)

lemma position_append:
  "position p (xs @ ys) = (case position p xs of Some i \<Rightarrow> Some i
     | None \<Rightarrow> map_option (\<lambda>i. length xs + i) (position p ys))"
proof (cases "position p xs")
  case (Some i)
  then have "position p (xs @ ys) = Some i"
    unfolding position_Some by (auto simp: nth_append)
  with Some show ?thesis by simp
next
  case None
  then have no: "\<forall>j<length xs. \<not> p (xs ! j)" by (auto simp: position_None)
  show ?thesis
  proof (cases "position p ys")
    case (Some i)
    then have "position p (xs @ ys) = Some (length xs + i)"
      unfolding position_Some using no by (auto simp: nth_append)
    with None Some show ?thesis by simp
  next
    case ys: None
    then have "position p (xs @ ys) = None"
      using None by (auto simp: position_None)
    with None ys show ?thesis by simp
  qed
qed

lemma concat_chunks_exact: "0 < k \<Longrightarrow> concat (chunks_exact k xs) = take (k * (length xs div k)) xs"
proof -
  assume "0 < k"
  have "n \<le> length xs div k \<Longrightarrow> concat (map (\<lambda>i. sub_slice xs (i * k) (i * k + k)) [0..<n]) = take (k * n) xs" for n
  proof (induction n)
    case (Suc n)
    then show ?case using sub_slice_append [of 0 "n * k" "n * k + k" xs]
      by (simp add: sub_slice_def ac_simps)
  qed simp
  then show ?thesis by (simp add: chunks_exact_def)
qed

lemma length_chunks_exact [simp]: "length (chunks_exact k xs) = length xs div k"
  by (simp add: chunks_exact_def)

lemma chunks_exact_lengths:
  assumes "c \<in> set (chunks_exact k xs)"
  shows "length c = k"
proof -
  from assms obtain i where i: "i < length xs div k" "c = sub_slice xs (i * k) (i * k + k)"
    by (auto simp: chunks_exact_def)
  then have "Suc i * k \<le> length xs"
    by (metis Suc_leI div_times_less_eq_dividend le_trans mult_le_mono1)
  with i show ?thesis by simp
qed

lemma mset_insort_by [simp]: "mset (insort_by c x xs) = add_mset x (mset xs)"
  by (induction xs) auto

lemma mset_sort_by [simp]: "mset (sort_by c xs) = mset xs"
  by (induction xs) (auto simp: sort_by_def)

lemma set_sort_by [simp]: "set (sort_by c xs) = set xs"
  by (metis mset_sort_by set_mset_mset)

lemma length_sort_by [simp]: "length (sort_by c xs) = length xs"
  by (metis mset_sort_by size_mset)

lemma distinct_sort_by [simp]: "distinct (sort_by c xs) = distinct xs"
  by (metis mset_sort_by mset_eq_imp_distinct_iff)

section \<open>Comparisons that are total preorders\<close>

text \<open>
  What every comparison function handed to a sort or to a precedence rule promises. The passes
  interpret this locale for the orders they sort by; the symbol table interprets it for the
  precedence rules.
\<close>

locale comparison =
  fixes compare :: "'a \<Rightarrow> 'a \<Rightarrow> cmp_ordering"
  assumes compare_swap: "compare b a = reverse_ordering (compare a b)"
    and compare_trans: "compare a b \<noteq> Greater \<Longrightarrow> compare b c \<noteq> Greater \<Longrightarrow> compare a c \<noteq> Greater"
begin

lemma compare_refl [simp]: "compare a a = Equal"
  using compare_swap [of a a] by (cases "compare a a") auto

lemma compare_total: "compare a b \<noteq> Greater \<or> compare b a \<noteq> Greater"
  using compare_swap [of a b] by (cases "compare a b") auto

lemma compare_equal_sym: "compare a b = Equal \<Longrightarrow> compare b a = Equal"
  using compare_swap [of b a] by simp

lemma compare_equal_trans: "compare a b = Equal \<Longrightarrow> compare b c = Equal \<Longrightarrow> compare a c = Equal"
  using compare_trans [of a b c] compare_trans [of c b a] compare_equal_sym [of a b]
    compare_equal_sym [of b c] compare_swap [of c a]
  by (cases "compare a c") auto

lemma compare_Less_le_trans: "compare x y = Less \<Longrightarrow> compare y z \<noteq> Greater \<Longrightarrow> compare x z = Less"
proof (rule ccontr)
  assume less: "compare x y = Less" and le: "compare y z \<noteq> Greater" and no: "compare x z \<noteq> Less"
  from no have "compare z x \<noteq> Greater" using compare_swap [of z x] by simp
  with le have "compare y x \<noteq> Greater" by (rule compare_trans)
  with less show False using compare_swap [of y x] by simp
qed

lemma compare_le_Less_trans: "compare x y \<noteq> Greater \<Longrightarrow> compare y z = Less \<Longrightarrow> compare x z = Less"
proof (rule ccontr)
  assume le: "compare x y \<noteq> Greater" and less: "compare y z = Less" and no: "compare x z \<noteq> Less"
  from no have "compare z x \<noteq> Greater" using compare_swap [of z x] by simp
  from this le have "compare z y \<noteq> Greater" by (rule compare_trans)
  with less show False using compare_swap [of z y] by simp
qed

lemma insort_by_sorted:
  assumes "sorted_wrt (\<lambda>x y. compare x y \<noteq> Greater) xs"
  shows "sorted_wrt (\<lambda>x y. compare x y \<noteq> Greater) (insort_by compare x xs)"
  using assms
proof (induction xs)
  case Nil
  then show ?case by simp
next
  case (Cons y ys)
  have set_eq: "set (insort_by compare x ys) = insert x (set ys)"
    by (metis mset_insort_by set_mset_add_mset_insert set_mset_mset)
  show ?case
  proof (cases "compare x y = Greater")
    case True
    then have "compare y x \<noteq> Greater"
      using compare_total [of x y] by simp
    with True Cons show ?thesis by (auto simp: set_eq)
  next
    case False
    with Cons.prems show ?thesis by (auto dest: compare_trans [OF False])
  qed
qed

lemma sort_by_sorted: "sorted_wrt (\<lambda>x y. compare x y \<noteq> Greater) (sort_by compare xs)"
  by (induction xs) (auto simp: sort_by_def insort_by_sorted)

end

lemma comparison_of_key: "comparison (\<lambda>a b. cmp (key a) (key b))"
proof
  fix a b c
  show "cmp (key b) (key a) = reverse_ordering (cmp (key a) (key b))"
    by (rule cmp_swap)
  show "cmp (key a) (key b) \<noteq> Greater \<Longrightarrow> cmp (key b) (key c) \<noteq> Greater \<Longrightarrow>
      cmp (key a) (key c) \<noteq> Greater"
    by simp
qed

lemma comparison_comp: "comparison c \<Longrightarrow> comparison (\<lambda>a b. c (f a) (f b))"
  unfolding comparison_def by blast

text \<open>Two orders combined with \<open>then\<close>.\<close>

lemma comparison_then:
  assumes "comparison c" and "comparison d"
  shows "comparison (\<lambda>x y. then_ordering (c x y) (d x y))"
proof
  fix x y z
  show "then_ordering (c y x) (d y x) = reverse_ordering (then_ordering (c x y) (d x y))"
    unfolding reverse_then
    by (rule arg_cong2 [where f = then_ordering])
      (rule comparison.compare_swap [OF assms(1)], rule comparison.compare_swap [OF assms(2)])
  assume xy: "then_ordering (c x y) (d x y) \<noteq> Greater" and yz: "then_ordering (c y z) (d y z) \<noteq> Greater"
  show "then_ordering (c x z) (d x z) \<noteq> Greater"
  proof (cases "c x y = Equal \<and> c y z = Equal")
    case True
    then have "c x z = Equal" using comparison.compare_equal_trans [OF assms(1)] by blast
    with True xy yz show ?thesis using comparison.compare_trans [OF assms(2), of x y z] by simp
  next
    case False
    then have "c x z = Less"
      using xy yz comparison.compare_Less_le_trans [OF assms(1), of x y z]
        comparison.compare_le_Less_trans [OF assms(1), of x y z]
      by (cases "c x y"; cases "c y z") auto
    then show ?thesis by simp
  qed
qed

end
