(* ===== verification/Ids.thy ===== *)
theory Ids
  imports Prelude
begin

text \<open>
  Dense identifiers (src/src/ids.rs): files, sections and symbols are 32-bit indices. The macro
  \<open>define_id!\<close> gives each of the three types the same four operations; \<open>new\<close> panics when the
  index does not fit, which is the value None here.
\<close>

type_synonym file_id = u32
type_synonym section_id = u32
type_synonym symbol_id = u32

definition new_id :: "usize \<Rightarrow> u32 option" where
  "new_id index = u32_try_from index"

definition id_index :: "u32 \<Rightarrow> usize" where
  "id_index i = unat i"

definition id_as_u32 :: "u32 \<Rightarrow> u32" where
  "id_as_u32 i = i"

definition id_from_u32 :: "u32 \<Rightarrow> u32" where
  "id_from_u32 raw = raw"

lemma id_index_inject [simp]: "id_index a = id_index b \<longleftrightarrow> a = b"
  by (simp add: id_index_def word_unat_eq_iff)

lemma id_index_le: "id_index a \<le> u32_max"
proof -
  have "unat a < 2 ^ LENGTH(32)" by (rule unsigned_less)
  then show ?thesis by (simp add: id_index_def)
qed

lemmas id_index_bound [simp] = id_index_le [simplified]

lemma id_index_of_nat: "n \<le> u32_max \<Longrightarrow> id_index (of_nat n) = n"
  by (simp add: id_index_def unat_of_nat)

lemma of_nat_id_index [simp]: "of_nat (id_index i) = i"
  by (simp add: id_index_def)

lemma new_id_Some: "new_id n = Some i \<longleftrightarrow> n \<le> u32_max \<and> id_index i = n"
  by (auto simp: new_id_def u32_try_from_def id_index_of_nat id_index_le)

lemma new_id_index [simp]: "new_id (id_index i) = Some i"
  by (simp add: new_id_Some id_index_le)

end
