(* ===== verification/Csr.thy ===== *)
theory Csr
  imports Prelude
begin

text \<open>
  Compressed sparse rows (src/src/passes/csr.rs): many variable-length lists in an offset table and
  a value vector. The three ways to build one are modelled: \<open>from_parts\<close>, the two-pass
  \<open>build_parallel\<close> with its recursive row splitting and its compaction sweep, and the sequential
  \<open>CsrBuilder\<close>. A closure that receives a mutable slice is a function that returns the slice's
  new contents; that it cannot change the slice's length is the hypothesis \<open>keeps_length\<close>.
\<close>

section \<open>The table\<close>

datatype input_error =
    BadOffsets
  | RowCount usize usize
  | OutOfRange string u64 usize
  | TooLarge string
  | Mismatch string u64

record 'a csr =
  csr_offsets :: "usize list"
  csr_values :: "'a list"

definition LEAF_WEIGHT :: nat where
  "LEAF_WEIGHT = 4096"

definition csr_empty :: "usize \<Rightarrow> 'a csr" where
  "csr_empty rows = \<lparr>csr_offsets = replicate (min (rows + 1) usize_max) 0, csr_values = []\<rparr>"

definition csr_from_parts :: "usize list \<Rightarrow> 'a list \<Rightarrow> ('a csr, input_error) result" where
  "csr_from_parts offsets values =
     (if (offsets \<noteq> [] \<and> hd offsets = 0) \<and> (offsets \<noteq> [] \<and> last offsets = length values) \<and>
         windows2_all (\<le>) offsets
      then Ok \<lparr>csr_offsets = offsets, csr_values = values\<rparr> else Err BadOffsets)"

definition csr_rows :: "'a csr \<Rightarrow> usize" where
  "csr_rows c = length (csr_offsets c) - 1"

definition csr_num_values :: "'a csr \<Rightarrow> usize" where
  "csr_num_values c = length (csr_values c)"

definition csr_row :: "'a csr \<Rightarrow> usize \<Rightarrow> 'a list" where
  "csr_row c row =
     (case (get_nth (csr_offsets c) row, get_nth (csr_offsets c) (wrapping_succ_usize row)) of
        (Some start, Some stop) \<Rightarrow>
          (case get_range (csr_values c) start stop of Some vs \<Rightarrow> vs | None \<Rightarrow> [])
      | _ \<Rightarrow> [])"

definition csr_into_parts :: "'a csr \<Rightarrow> usize list \<times> 'a list" where
  "csr_into_parts c = (csr_offsets c, csr_values c)"

section \<open>The parallel build\<close>

text \<open>
  \<open>split_rows\<close> halves the rows until a part is small, then calls the closure row by row on
  successive pieces of the value slice. The two halves own disjoint slices, so running them in
  parallel gives the pair of their results.
\<close>

fun rows_leaf :: "usize list \<Rightarrow> usize \<Rightarrow> (usize \<Rightarrow> 'a list \<Rightarrow> 'b \<Rightarrow> 'a list \<times> 'b) \<Rightarrow>
    nat \<Rightarrow> 'a list \<Rightarrow> 'b list \<Rightarrow> 'a list \<times> 'b list" where
  "rows_leaf offsets base_row f row rest [] = (rest, [])"
| "rows_leaf offsets base_row f row rest (extra # extras) =
     (let len = offsets ! (row + 1) - offsets ! row;
          (head, extra') = f (base_row + row) (take len rest) extra;
          (tail, extras') = rows_leaf offsets base_row f (row + 1) (drop len rest) extras
      in (head @ tail, extra' # extras'))"

function split_rows :: "usize list \<Rightarrow> usize \<Rightarrow> 'a list \<Rightarrow> 'b list \<Rightarrow>
    (usize \<Rightarrow> 'a list \<Rightarrow> 'b \<Rightarrow> 'a list \<times> 'b) \<Rightarrow> 'a list \<times> 'b list" where
  "split_rows offsets base_row values per_row f =
     (let rows = length per_row in
      if rows \<le> 1 \<or> length values + rows \<le> LEAF_WEIGHT
      then rows_leaf offsets base_row f 0 values per_row
      else
        let mid = rows div 2;
            cut = offsets ! mid - offsets ! 0;
            (lv, lr) = split_rows (take (mid + 1) offsets) base_row (take cut values) (take mid per_row) f;
            (rv, rr) = split_rows (drop mid offsets) (base_row + mid) (drop cut values) (drop mid per_row) f
        in (lv @ rv, lr @ rr))"
  by pat_completeness auto
termination
  by (relation "measure (\<lambda>(offsets, base_row, values, per_row, f). length per_row)") auto

declare split_rows.simps [simp del]

definition for_each_row_mut :: "usize list \<Rightarrow> 'a list \<Rightarrow> 'b list \<Rightarrow>
    (usize \<Rightarrow> 'a list \<Rightarrow> 'b \<Rightarrow> 'a list \<times> 'b) \<Rightarrow> 'a list \<times> 'b list" where
  "for_each_row_mut offsets values per_row f = split_rows offsets 0 values per_row f"

text \<open>The loop that turns row lengths into offsets, with its overflow check.\<close>

fun offsets_from :: "usize \<Rightarrow> usize list \<Rightarrow> (usize list, input_error) result" where
  "offsets_from tot [] = Ok []"
| "offsets_from tot (len # lengths) =
     (case checked_add_usize tot len of
        None \<Rightarrow> Err (TooLarge ''row lengths'')
      | Some tot' \<Rightarrow> bind_result (offsets_from tot' lengths) (\<lambda>os. Ok (tot' # os)))"

text \<open>\<open>copy_within(start..start + n, dest)\<close>.\<close>

definition copy_within :: "'a list \<Rightarrow> nat \<Rightarrow> nat \<Rightarrow> nat \<Rightarrow> 'a list" where
  "copy_within xs start stop dest =
     take dest xs @ sub_slice xs start stop @ drop (dest + (stop - start)) xs"

text \<open>The compaction sweep: state (offsets, values, write), one step per row.\<close>

fun compact_rows :: "nat \<Rightarrow> usize list \<Rightarrow> usize list \<times> 'a list \<times> usize \<Rightarrow>
    usize list \<times> 'a list \<times> usize" where
  "compact_rows row [] st = st"
| "compact_rows row (written # lengths) (offsets, values, write) =
     (let start = offsets ! row
      in compact_rows (row + 1) lengths
           (offsets[row := write], copy_within values start (start + written) write,
            write + written))"

definition csr_build_parallel :: "usize \<Rightarrow> 'a \<Rightarrow> (usize \<Rightarrow> usize) \<Rightarrow>
    (usize \<Rightarrow> 'a list \<Rightarrow> usize \<times> 'a list) \<Rightarrow> ('a csr, input_error) result" where
  "csr_build_parallel rows filler cnt fill =
     (let lengths = map cnt [0..<rows] in
      bind_result (offsets_from 0 lengths) (\<lambda>os.
        let offsets = 0 # os;
            values = replicate (last offsets) filler;
            (values, lengths) = for_each_row_mut offsets values lengths
              (\<lambda>row slot _. let (n, slot') = fill row slot in (slot', min n (length slot)));
            short = (\<exists>i<length lengths. lengths ! i \<noteq> offsets ! (i + 1) - offsets ! i)
        in if short then
             let (offsets, values, write) = compact_rows 0 lengths (offsets, values, 0)
             in Ok \<lparr>csr_offsets = offsets[rows := write], csr_values = take write values\<rparr>
           else Ok \<lparr>csr_offsets = offsets, csr_values = values\<rparr>))"

section \<open>The builder\<close>

record 'a csr_builder =
  cb_rows :: usize
  cb_pairs :: "(usize \<times> 'a) list"

definition csr_builder_new :: "usize \<Rightarrow> 'a csr_builder" where
  "csr_builder_new rows = \<lparr>cb_rows = rows, cb_pairs = []\<rparr>"

definition csr_push :: "'a csr_builder \<Rightarrow> usize \<Rightarrow> 'a \<Rightarrow> 'a csr_builder" where
  "csr_push b row v = b\<lparr>cb_pairs := cb_pairs b @ [(row, v)]\<rparr>"

definition count_rows :: "usize \<Rightarrow> (usize \<times> 'a) list \<Rightarrow> usize list" where
  "count_rows rows pairs =
     fold (\<lambda>(row, _) offsets. offsets[row + 1 := offsets ! (row + 1) + 1]) pairs
       (replicate (rows + 1) 0)"

definition prefix_rows :: "usize \<Rightarrow> usize list \<Rightarrow> usize list" where
  "prefix_rows rows offsets =
     fold (\<lambda>row offsets. offsets[row + 1 := offsets ! (row + 1) + offsets ! row]) [0..<rows] offsets"

definition csr_build :: "'a csr_builder \<Rightarrow> ('a csr, input_error) result" where
  "csr_build b =
     (case find (\<lambda>(row, _). row \<ge> cb_rows b) (cb_pairs b) of
        Some (row, _) \<Rightarrow> Err (OutOfRange ''row'' (of_nat row) (cb_rows b))
      | None \<Rightarrow>
          let pairs = sort_key fst (cb_pairs b);
              offsets = prefix_rows (cb_rows b) (count_rows (cb_rows b) pairs)
          in Ok \<lparr>csr_offsets = offsets, csr_values = map snd pairs\<rparr>)"

section \<open>Offset tables of row lists\<close>

text \<open>
  Every correct table is the table of some list of rows: its offsets are the prefix sums of the
  row lengths and its values the rows laid end to end. \<open>csr_of\<close> is that table; reading it back
  gives the rows.
\<close>

definition prefix_sums :: "nat list \<Rightarrow> nat list" where
  "prefix_sums ls = map (\<lambda>k. sum_list (take k ls)) [0..<Suc (length ls)]"

definition csr_of :: "'a list list \<Rightarrow> 'a csr" where
  "csr_of rs = \<lparr>csr_offsets = prefix_sums (map length rs), csr_values = concat rs\<rparr>"

text \<open>The invariant the source states for the type.\<close>

definition wf_csr :: "'a csr \<Rightarrow> bool" where
  "wf_csr c \<longleftrightarrow> csr_offsets c \<noteq> [] \<and> hd (csr_offsets c) = 0 \<and>
     last (csr_offsets c) = length (csr_values c) \<and> sorted (csr_offsets c)"

lemma length_prefix_sums [simp]: "length (prefix_sums ls) = Suc (length ls)"
  by (simp add: prefix_sums_def)

lemma nth_prefix_sums: "k \<le> length ls \<Longrightarrow> prefix_sums ls ! k = sum_list (take k ls)"
  by (simp add: prefix_sums_def less_Suc_eq_le del: upt_Suc)

lemma nth_prefix_sums_0 [simp]: "prefix_sums ls ! 0 = 0"
  by (simp add: nth_prefix_sums)

lemma nth_prefix_sums_Suc:
  "k < length ls \<Longrightarrow> prefix_sums ls ! Suc k = prefix_sums ls ! k + ls ! k"
  by (simp add: nth_prefix_sums take_Suc_conv_app_nth)

lemma prefix_sums_last: "last (prefix_sums ls) = sum_list ls"
  by (metis length_prefix_sums last_conv_nth list.size(3) nat.simps(3) diff_Suc_1 nth_prefix_sums
      order_refl take_all_iff)

lemma prefix_sums_eqI:
  assumes "length os = Suc (length ls)" and "os ! 0 = 0"
    and "\<And>k. k < length ls \<Longrightarrow> os ! Suc k = os ! k + ls ! k"
  shows "os = prefix_sums ls"
proof (rule nth_equalityI)
  show "length os = length (prefix_sums ls)" using assms(1) by simp
next
  fix i assume "i < length os"
  with assms(1) have "i \<le> length ls" by simp
  then show "os ! i = prefix_sums ls ! i"
    by (induction i) (auto simp: assms(2,3) nth_prefix_sums_Suc)
qed

lemma prefix_sums_mono: "i \<le> j \<Longrightarrow> j \<le> length ls \<Longrightarrow> prefix_sums ls ! i \<le> prefix_sums ls ! j"
  by (induction j) (auto simp: nth_prefix_sums_Suc le_Suc_eq)

lemma sorted_prefix_sums: "sorted (prefix_sums ls)"
  by (auto simp: sorted_iff_nth_mono prefix_sums_mono)

lemma sub_slice_concat:
  assumes "i < length rs"
  shows "sub_slice (concat rs) (prefix_sums (map length rs) ! i)
    (prefix_sums (map length rs) ! Suc i) = rs ! i"
proof -
  have "rs = take i rs @ rs ! i # drop (Suc i) rs"
    using assms by (simp add: id_take_nth_drop)
  then have "concat rs = concat (take i rs) @ rs ! i @ concat (drop (Suc i) rs)"
    by (metis concat.simps(2) concat_append)
  moreover have "prefix_sums (map length rs) ! i = length (concat (take i rs))"
    using assms by (simp add: nth_prefix_sums length_concat take_map)
  moreover have "prefix_sums (map length rs) ! Suc i = length (concat (take i rs)) + length (rs ! i)"
    using assms calculation(2) by (simp add: nth_prefix_sums_Suc)
  ultimately show ?thesis by (simp add: sub_slice_def)
qed

lemma csr_rows_of [simp]: "csr_rows (csr_of rs) = length rs"
  by (simp add: csr_rows_def csr_of_def)

lemma csr_values_of [simp]: "csr_values (csr_of rs) = concat rs"
  by (simp add: csr_of_def)

lemma wf_csr_of [simp]: "wf_csr (csr_of rs)"
proof -
  have "prefix_sums (map length rs) \<noteq> []"
    by (metis length_prefix_sums list.size(3) nat.simps(3))
  then show ?thesis
    by (simp add: wf_csr_def csr_of_def hd_conv_nth prefix_sums_last sorted_prefix_sums
        length_concat)
qed

lemma csr_row_of:
  assumes "i < length rs" and "length rs \<le> usize_max"
  shows "csr_row (csr_of rs) i = rs ! i"
proof -
  have "prefix_sums (map length rs) ! Suc i \<le> length (concat rs)"
    using assms prefix_sums_mono [of "Suc i" "length rs" "map length rs"]
    by (simp add: nth_prefix_sums length_concat)
  then show ?thesis
    using assms prefix_sums_mono [of i "Suc i" "map length rs"] sub_slice_concat [OF assms(1)]
    by (simp add: csr_row_def csr_of_def get_nth_def get_range_def wrapping_succ_usize_def)
qed

lemma csr_row_beyond:
  assumes "csr_rows c \<le> i" and "length (csr_offsets c) \<le> usize_max" and "i \<le> usize_max"
  shows "csr_row c i = []"
proof (cases "i = usize_max")
  case True
  then show ?thesis using assms by (simp add: csr_row_def get_nth_def wrapping_succ_usize_def)
next
  case False
  then have "wrapping_succ_usize i = i + 1" using assms by (simp add: wrapping_succ_usize_def)
  then have "get_nth (csr_offsets c) (wrapping_succ_usize i) = None"
    using assms by (simp add: csr_rows_def)
  then show ?thesis by (simp add: csr_row_def split: option.splits)
qed

lemma wf_csr_is_csr_of:
  assumes "wf_csr c" and "length (csr_offsets c) \<le> usize_max"
  shows "c = csr_of (map (csr_row c) [0..<csr_rows c])"
proof -
  let ?os = "csr_offsets c" and ?vs = "csr_values c" and ?n = "csr_rows c"
  have len: "length ?os = Suc ?n"
    using assms(1) by (cases ?os) (auto simp: wf_csr_def csr_rows_def)
  have os: "?os ! i \<le> ?os ! j" if "i \<le> j" "j \<le> ?n" for i j
    using assms(1) that len by (auto simp: wf_csr_def sorted_iff_nth_mono)
  have top: "?os ! ?n = length ?vs"
    using assms(1) len by (auto simp: wf_csr_def last_conv_nth)
  have row: "csr_row c i = sub_slice ?vs (?os ! i) (?os ! Suc i)" if "i < ?n" for i
    using that len top os [of i "Suc i"] os [of "Suc i" ?n] assms(2)
    by (simp add: csr_row_def get_nth_def get_range_def wrapping_succ_usize_def)
  have "?os = prefix_sums (map length (map (csr_row c) [0..<?n]))"
  proof (rule prefix_sums_eqI)
    show "?os ! 0 = 0"
      using assms(1) by (cases ?os) (auto simp: wf_csr_def)
  next
    fix k assume "k < length (map length (map (csr_row c) [0..<?n]))"
    then show "?os ! Suc k = ?os ! k + map length (map (csr_row c) [0..<?n]) ! k"
      using os [of k "Suc k"] os [of "Suc k" ?n] top by (simp add: row)
  qed (use len in simp)
  moreover have "concat (map (csr_row c) [0..<k]) = sub_slice ?vs 0 (?os ! k)" if "k \<le> ?n" for k
    using that
  proof (induction k)
    case 0
    then show ?case
      using assms(1) by (cases ?os) (auto simp: wf_csr_def)
  next
    case (Suc k)
    then show ?case using os [of k "Suc k"] by (simp add: row sub_slice_append)
  qed
  from this [of ?n] have "?vs = concat (map (csr_row c) [0..<?n])"
    by (simp add: top)
  ultimately show ?thesis by (simp add: csr_of_def)
qed

lemma csr_from_parts_Ok:
  "csr_from_parts os vs = Ok c \<longleftrightarrow> c = \<lparr>csr_offsets = os, csr_values = vs\<rparr> \<and> wf_csr c"
  by (auto simp: csr_from_parts_def wf_csr_def windows2_le_sorted)

section \<open>The parallel build is the sequential one\<close>

text \<open>\<open>keeps_length\<close>: a closure given a slice leaves a slice of the same length.\<close>

definition keeps_length :: "(usize \<Rightarrow> 'a list \<Rightarrow> 'b \<Rightarrow> 'a list \<times> 'b) \<Rightarrow> bool" where
  "keeps_length f \<longleftrightarrow> (\<forall>row slot extra. length (fst (f row slot extra)) = length slot)"

text \<open>What a row-by-row call of the closure gives, over the rows as lists.\<close>

definition rows_spec :: "usize \<Rightarrow> (usize \<Rightarrow> 'a list \<Rightarrow> 'b \<Rightarrow> 'a list \<times> 'b) \<Rightarrow>
    'a list list \<Rightarrow> 'b list \<Rightarrow> 'a list \<times> 'b list" where
  "rows_spec base f rs es =
     (concat (map (\<lambda>i. fst (f (base + i) (rs ! i) (es ! i))) [0..<length rs]),
      map (\<lambda>i. snd (f (base + i) (rs ! i) (es ! i))) [0..<length rs])"

text \<open>An offset table that may start above zero, as the right half of a split has.\<close>

definition offsets_for :: "usize list \<Rightarrow> 'a list list \<Rightarrow> bool" where
  "offsets_for os rs \<longleftrightarrow>
     length os = Suc (length rs) \<and> (\<forall>i<length rs. os ! Suc i = os ! i + length (rs ! i))"

lemma offsets_for_diff:
  "offsets_for os rs \<Longrightarrow> k \<le> length rs \<Longrightarrow> os ! k = os ! 0 + length (concat (take k rs))"
  by (induction k) (auto simp: offsets_for_def take_Suc_conv_app_nth)

lemma rows_spec_Cons:
  "rows_spec base f (r # rs) (e # es) =
     (fst (f base r e) @ fst (rows_spec (Suc base) f rs es),
      snd (f base r e) # snd (rows_spec (Suc base) f rs es))"
proof -
  have "[0..<length (r # rs)] = 0 # map Suc [0..<length rs]"
    by (simp add: upt_conv_Cons map_Suc_upt del: upt_Suc)
  then show ?thesis
    by (simp only: rows_spec_def list.map concat.simps map_map comp_def nth_Cons_0 nth_Cons_Suc
        add_0_right add_Suc_right add_Suc fst_conv snd_conv)
qed

lemma rows_spec_append:
  assumes "length rs = length es"
  shows "rows_spec base f (rs @ rs') (es @ es') =
    (fst (rows_spec base f rs es) @ fst (rows_spec (base + length rs) f rs' es'),
     snd (rows_spec base f rs es) @ snd (rows_spec (base + length rs) f rs' es'))"
  using assms
proof (induction rs es arbitrary: base rule: list_induct2)
  case Nil
  then show ?case by (simp add: rows_spec_def)
next
  case (Cons r rs e es)
  then show ?case by (simp add: rows_spec_Cons)
qed

lemma rows_leaf_spec:
  assumes "length rs = length es"
    and "\<And>i. i < length rs \<Longrightarrow> os ! Suc (row + i) = os ! (row + i) + length (rs ! i)"
  shows "rows_leaf os base f row (concat rs) es = rows_spec (base + row) f rs es"
  using assms
proof (induction rs es arbitrary: row rule: list_induct2)
  case Nil
  then show ?case by (simp add: rows_spec_def)
next
  case (Cons r rs e es)
  have len: "os ! Suc row - os ! row = length r"
    using Cons.prems [of 0] by simp
  have IH: "rows_leaf os base f (Suc row) (concat rs) es = rows_spec (base + Suc row) f rs es"
    using Cons.prems [of "Suc _"] by (intro Cons.IH) simp
  show ?case
    by (simp add: len IH rows_spec_Cons case_prod_beta Let_def)
qed

lemma split_rows_spec:
  assumes "length rs = length es" and "offsets_for os rs"
  shows "split_rows os base (concat rs) es f = rows_spec base f rs es"
  using assms
proof (induction os base "concat rs" es f arbitrary: rs rule: split_rows.induct)
  case (1 os base es f)
  let ?n = "length es"
  show ?case
  proof (cases "?n \<le> 1 \<or> length (concat rs) + ?n \<le> LEAF_WEIGHT")
    case True
    then show ?thesis
      using "1.prems" rows_leaf_spec [of rs es os 0 base f]
      by (simp add: split_rows.simps [of os base "concat rs"] offsets_for_def)
  next
    case False
    let ?mid = "?n div 2"
    let ?cut = "os ! ?mid - os ! 0"
    have mid: "?mid \<le> length rs" using "1.prems" by simp
    then have cut: "?cut = length (concat (take ?mid rs))"
      using offsets_for_diff [OF "1.prems"(2) mid] by simp
    have "concat rs = concat (take ?mid rs) @ concat (drop ?mid rs)"
      by (metis append_take_drop_id concat_append)
    then have parts: "take ?cut (concat rs) = concat (take ?mid rs)"
      "drop ?cut (concat rs) = concat (drop ?mid rs)"
      unfolding cut by auto
    have left: "offsets_for (take (?mid + 1) os) (take ?mid rs)"
      using "1.prems"(2) mid by (auto simp: offsets_for_def)
    have right: "offsets_for (drop ?mid os) (drop ?mid rs)"
      using "1.prems"(2) mid by (auto simp: offsets_for_def)
    have l: "split_rows (take (?mid + 1) os) base (take ?cut (concat rs)) (take ?mid es) f =
        rows_spec base f (take ?mid rs) (take ?mid es)"
      using "1.hyps"(1) [OF refl False refl refl parts(1)] "1.prems"(1) left parts(1) by simp
    have r: "split_rows (drop ?mid os) (base + ?mid) (drop ?cut (concat rs)) (drop ?mid es) f =
        rows_spec (base + ?mid) f (drop ?mid rs) (drop ?mid es)"
      using "1.hyps"(2) [OF refl False refl refl refl prod.collapse parts(2)] "1.prems"(1) right parts(2)
      by simp
    have "rows_spec base f rs es =
        rows_spec base f (take ?mid rs @ drop ?mid rs) (take ?mid es @ drop ?mid es)"
      by simp
    also have "\<dots> = split_rows os base (concat rs) es f"
      using False "1.prems"(1) l r
      by (subst rows_spec_append)
        (simp_all add: split_rows.simps [of os base "concat rs"] Let_def case_prod_beta min_absorb1)
    finally show ?thesis by simp
  qed
qed

lemma offsets_from_eq:
  "tot \<le> usize_max \<Longrightarrow> offsets_from tot ls =
     (if tot + sum_list ls \<le> usize_max
      then Ok (map (\<lambda>k. tot + sum_list (take (Suc k) ls)) [0..<length ls])
      else Err (TooLarge ''row lengths''))"
proof (induction ls arbitrary: tot)
  case Nil
  then show ?case by simp
next
  case (Cons l ls)
  have "[0..<Suc (length ls)] = 0 # map Suc [0..<length ls]"
    by (simp add: upt_conv_Cons map_Suc_upt del: upt_Suc)
  then have split: "map (\<lambda>k. tot + sum_list (take (Suc k) (l # ls))) [0..<Suc (length ls)] =
      (tot + l) # map (\<lambda>k. (tot + l) + sum_list (take (Suc k) ls)) [0..<length ls]"
    by (simp only: list.map map_map comp_def) (simp add: add.assoc)
  show ?case
    using Cons.IH [of "tot + l"] split
    by (auto simp: checked_add_usize_def simp del: upt_Suc take_Suc_Cons)
qed

lemma offsets_from_prefix_sums:
  "offsets_from 0 ls = Ok os \<Longrightarrow> 0 # os = prefix_sums ls \<and> sum_list ls \<le> usize_max"
proof -
  assume "offsets_from 0 ls = Ok os"
  then have "os = map (\<lambda>k. sum_list (take (Suc k) ls)) [0..<length ls]" "sum_list ls \<le> usize_max"
    using offsets_from_eq [of 0 ls] by (auto split: if_splits)
  moreover have "[0..<Suc (length ls)] = 0 # map Suc [0..<length ls]"
    by (simp add: upt_conv_Cons map_Suc_upt del: upt_Suc)
  ultimately show ?thesis
    by (simp only: prefix_sums_def list.map map_map comp_def) simp
qed

section \<open>Compaction\<close>

lemma copy_within_prefix:
  assumes "wr \<le> length pre" and "w \<le> length r"
  shows "copy_within (pre @ r @ rest) (length pre) (length pre + w) wr =
    (take wr pre @ take w r @ drop (wr + w) (pre @ r)) @ rest"
  using assms by (simp add: copy_within_def sub_slice_def)

lemma compact_rows_spec:
  assumes "length ws = length rs" and "\<And>i. i < length rs \<Longrightarrow> ws ! i \<le> length (rs ! i)"
    and "\<And>i. i < length rs \<Longrightarrow> os ! (row + i) = length pre + length (concat (take i rs))"
    and "wr \<le> length pre" and "row + length rs \<le> length os"
  shows "\<exists>os' vs'. compact_rows row ws (os, pre @ concat rs, wr) =
      (os', vs', wr + sum_list ws) \<and>
    take (wr + sum_list ws) vs' = take wr pre @ concat (map2 take ws rs) \<and>
    length os' = length os \<and>
    (\<forall>j. os' ! j = (if row \<le> j \<and> j < row + length ws
       then wr + sum_list (take (j - row) ws) else os ! j))"
  using assms
proof (induction ws rs arbitrary: row os pre wr rule: list_induct2)
  case Nil
  then show ?case by simp
next
  case (Cons w ws r rs)
  have start: "os ! row = length pre" and w: "w \<le> length r"
    using Cons.prems(2) [of 0] Cons.prems(1) [of 0] by auto
  define pre' where "pre' = take wr pre @ take w r @ drop (wr + w) (pre @ r)"
  have pre': "length pre' = length pre + length r" "take (wr + w) pre' = take wr pre @ take w r"
    using Cons.prems(3) w by (auto simp: pre'_def)
  have step: "compact_rows row (w # ws) (os, pre @ concat (r # rs), wr) =
      compact_rows (Suc row) ws (os[row := wr], pre' @ concat rs, wr + w)"
    using copy_within_prefix [OF Cons.prems(3) w, of "concat rs"] by (simp add: start pre'_def)
  have offs: "os[row := wr] ! (Suc row + i) = length pre' + length (concat (take i rs))"
    if "i < length rs" for i
    using Cons.prems(2) [of "Suc i"] that by (simp add: pre')
  obtain os' vs' where IH: "compact_rows (Suc row) ws (os[row := wr], pre' @ concat rs, wr + w)
      = (os', vs', wr + w + sum_list ws)"
    "take (wr + w + sum_list ws) vs' = take (wr + w) pre' @ concat (map2 take ws rs)"
    "length os' = length os"
    "\<forall>j. os' ! j = (if Suc row \<le> j \<and> j < Suc row + length ws
       then wr + w + sum_list (take (j - Suc row) ws) else os[row := wr] ! j)"
    using Cons.IH [OF _ offs, of "wr + w"] Cons.prems(1) [of "Suc _"] Cons.prems(3,4) pre'(1) w
    by (auto simp: less_Suc_eq_0_disj)
  have "os' ! j = (if row \<le> j \<and> j < row + length (w # ws)
       then wr + sum_list (take (j - row) (w # ws)) else os ! j)" for j
  proof (cases "Suc row \<le> j \<and> j < Suc row + length ws")
    case True
    then obtain d where "j = Suc row + d" by (metis le_add_diff_inverse)
    with True IH(4) show ?thesis by simp
  next
    case False
    then show ?thesis
      using IH(4) Cons.prems(4) by (cases "j = row") auto
  qed
  with IH step show ?case by (auto simp: pre'(2) add.assoc)
qed

lemma compact_rows_result:
  assumes "length ws = length rs" and "\<And>i. i < length rs \<Longrightarrow> ws ! i \<le> length (rs ! i)"
    and "os = prefix_sums (map length rs)"
    and "compact_rows 0 ws (os, concat rs, 0) = (os', vs', wr)"
  shows "\<lparr>csr_offsets = os'[length rs := wr], csr_values = take wr vs'\<rparr> =
    csr_of (map2 take ws rs)"
proof -
  have offs: "os ! (0 + i) = length [] + length (concat (take i rs))" if "i < length rs" for i
    using that by (simp add: assms(3) nth_prefix_sums length_concat take_map)
  from compact_rows_spec [OF assms(1,2) offs, of 0] assms(3,4)
  have r: "wr = sum_list ws" "take wr vs' = concat (map2 take ws rs)"
    "length os' = Suc (length rs)" "\<forall>j<length rs. os' ! j = sum_list (take j ws)"
    using assms(1) by auto
  have ws: "map length (map2 take ws rs) = ws"
    using assms(1,2) by (intro nth_equalityI) (auto simp: min_absorb2)
  have "os'[length rs := wr] = prefix_sums ws"
  proof (rule nth_equalityI)
    show "length (os'[length rs := wr]) = length (prefix_sums ws)"
      using r assms(1) by simp
  next
    fix i assume "i < length (os'[length rs := wr])"
    then show "os'[length rs := wr] ! i = prefix_sums ws ! i"
      using r assms(1) by (cases "i = length rs") (auto simp: nth_prefix_sums)
  qed
  with r ws show ?thesis by (simp add: csr_of_def)
qed

text \<open>
  The parallel build gives, for every row, the first \<open>n\<close> entries the closure left in its slot,
  whatever the counts were, or the overflow error.
\<close>

lemma csr_build_parallel_eq:
  assumes keeps: "\<And>row slot. length (snd (fill row slot)) = length slot"
  shows "csr_build_parallel rows filler cnt fill =
    (if sum_list (map cnt [0..<rows]) \<le> usize_max
     then Ok (csr_of (map (\<lambda>row. let (n, slot) = fill row (replicate (cnt row) filler)
                                in take n slot) [0..<rows]))
     else Err (TooLarge ''row lengths''))"
proof (cases "sum_list (map cnt [0..<rows]) \<le> usize_max")
  case False
  then have "offsets_from 0 (map cnt [0..<rows]) = Err (TooLarge ''row lengths'')"
    using offsets_from_eq [of 0 "map cnt [0..<rows]"] by simp
  with False show ?thesis by (simp add: csr_build_parallel_def)
next
  case True
  let ?ls = "map cnt [0..<rows]"
  let ?f = "\<lambda>row slot _. let (n, slot') = fill row slot in (slot', min n (length slot))"
  let ?rs = "map (\<lambda>row. replicate (cnt row) filler) [0..<rows]"
  obtain os where os: "offsets_from 0 ?ls = Ok os"
    using True offsets_from_eq [of 0 ?ls] by simp
  then have ps: "0 # os = prefix_sums ?ls"
    using offsets_from_prefix_sums by blast
  have last: "last (0 # os) = sum_list ?ls"
    by (simp only: ps prefix_sums_last)
  have vals: "replicate (sum_list ?ls) filler = concat ?rs"
    by (induction rows) (auto simp: replicate_add)
  have offs: "offsets_for (0 # os) ?rs"
    by (simp only: ps) (auto simp: offsets_for_def nth_prefix_sums_Suc)
  define slots where "slots = map (\<lambda>row. snd (fill row (replicate (cnt row) filler))) [0..<rows]"
  define ws where "ws = map (\<lambda>row. min (fst (fill row (replicate (cnt row) filler))) (cnt row)) [0..<rows]"
  have rows_eq: "for_each_row_mut (0 # os) (concat ?rs) ?ls ?f = (concat slots, ws)"
  proof -
    have "for_each_row_mut (0 # os) (concat ?rs) ?ls ?f = rows_spec 0 ?f ?rs ?ls"
      using split_rows_spec [OF _ offs, of ?ls 0 ?f] by (simp add: for_each_row_mut_def)
    also have "\<dots> = (concat slots, ws)"
      unfolding rows_spec_def slots_def ws_def
      by (intro arg_cong2 [where f = Pair] arg_cong [where f = concat] nth_equalityI)
        (auto simp: case_prod_beta)
    finally show ?thesis .
  qed
  have len: "length ws = length slots" "map length slots = ?ls"
    using keeps by (auto simp: ws_def slots_def)
  have le: "ws ! i \<le> length (slots ! i)" if "i < length slots" for i
    using that keeps by (simp add: ws_def slots_def)
  have target: "map (\<lambda>row. let (n, slot) = fill row (replicate (cnt row) filler) in take n slot)
      [0..<rows] = map2 take ws slots"
    using keeps by (intro nth_equalityI) (auto simp: ws_def slots_def case_prod_beta min_def)
  show ?thesis
  proof (cases "\<exists>i<length ws. ws ! i \<noteq> (0 # os) ! (i + 1) - (0 # os) ! i")
    case short: True
    obtain os' vs' w' where c: "compact_rows 0 ws (0 # os, concat slots, 0) = (os', vs', w')"
      by (metis prod_cases3)
    have "\<lparr>csr_offsets = os'[length slots := w'], csr_values = take w' vs'\<rparr> = csr_of (map2 take ws slots)"
      by (rule compact_rows_result [OF len(1) le _ c]) (simp_all add: ps len(2))
    moreover have "length slots = rows" by (simp add: slots_def)
    ultimately show ?thesis
      using True short c
      by (simp only: csr_build_parallel_def Let_def os bind_result.simps last vals
          rows_eq [unfolded Let_def] target [unfolded Let_def] prod.case if_True)
  next
    case False
    have "ws ! i = length (slots ! i)" if "i < length slots" for i
    proof -
      have "length (slots ! i) = ?ls ! i"
        using that by (simp only: nth_map flip: len(2))
      moreover have "(0 # os) ! (i + 1) - (0 # os) ! i = ?ls ! i"
        using that len(2) unfolding ps
        by (subst Suc_eq_plus1 [symmetric], subst nth_prefix_sums_Suc) (simp_all add: slots_def)
      ultimately show ?thesis
        using False that len(1) by auto
    qed
    then have "map2 take ws slots = slots"
      using len(1) by (intro nth_equalityI) auto
    then show ?thesis
      using True False
      by (simp only: csr_build_parallel_def Let_def os bind_result.simps last vals
          rows_eq [unfolded Let_def] target [unfolded Let_def] prod.case if_True if_False
          csr_of_def len(2) ps [symmetric])
  qed
qed

section \<open>The builder gives the rows it was pushed\<close>

text \<open>The values of one row, in push order.\<close>

definition pushed_row :: "(usize \<times> 'a) list \<Rightarrow> usize \<Rightarrow> 'a list" where
  "pushed_row pairs row = map snd (filter (\<lambda>p. fst p = row) pairs)"

lemma count_rows_step:
  assumes "\<forall>p\<in>set pairs. fst p < rows" and "length os = rows + 1"
  shows "fold (\<lambda>(row, _) offsets. offsets[row + 1 := offsets ! (row + 1) + 1]) pairs os =
    map (\<lambda>i. os ! i + (if i = 0 then 0 else length (pushed_row pairs (i - 1)))) [0..<rows + 1]"
  using assms
proof (induction pairs arbitrary: os)
  case Nil
  then show ?case by (auto simp: pushed_row_def intro!: nth_equalityI simp del: upt_Suc)
next
  case (Cons p pairs)
  obtain r v where p: "p = (r, v)" by (cases p)
  show ?case
    using Cons.prems Cons.IH [of "os[r + 1 := os ! (r + 1) + 1]"]
    by (auto simp: p pushed_row_def nth_list_update simp del: upt_Suc)
qed

lemma count_rows_eq:
  assumes "\<forall>p\<in>set pairs. fst p < rows"
  shows "length (count_rows rows pairs) = rows + 1" and "count_rows rows pairs ! 0 = 0"
    and "k < rows \<Longrightarrow> count_rows rows pairs ! Suc k = length (pushed_row pairs k)"
  using count_rows_step [OF assms, of "replicate (rows + 1) 0"]
  by (auto simp: count_rows_def nth_append simp del: upt_Suc replicate.simps)

lemma prefix_rows_step:
  "n \<le> rows \<Longrightarrow> length os = Suc rows \<Longrightarrow> os ! 0 = 0 \<Longrightarrow>
    length (prefix_rows n os) = Suc rows \<and> prefix_rows n os ! 0 = 0 \<and>
    (\<forall>k<n. prefix_rows n os ! Suc k = prefix_rows n os ! k + os ! Suc k) \<and>
    (\<forall>k>n. k \<le> rows \<longrightarrow> prefix_rows n os ! k = os ! k)"
proof (induction n)
  case 0
  then show ?case by (simp add: prefix_rows_def)
next
  case (Suc n)
  let ?p = "prefix_rows n os"
  have "prefix_rows (Suc n) os = ?p[Suc n := ?p ! Suc n + ?p ! n]"
    by (simp add: prefix_rows_def)
  moreover have "?p ! Suc n = os ! Suc n" "length ?p = Suc rows"
    using Suc by auto
  ultimately show ?case
    using Suc by (simp add: nth_list_update)
qed

lemma prefix_rows_eq:
  "length os = Suc rows \<Longrightarrow> os ! 0 = 0 \<Longrightarrow> prefix_rows rows os = prefix_sums (tl os)"
  using prefix_rows_step [of rows rows os]
  by (intro prefix_sums_eqI) (auto simp: nth_tl)

lemma pushed_row_sort: "pushed_row (sort_key fst pairs) row = pushed_row pairs row"
proof -
  have "filter (\<lambda>p. fst p = row) (sort_key fst pairs) = filter (\<lambda>p. fst p = row) pairs"
    by (rule sort_key_stable)
  then show ?thesis by (simp add: pushed_row_def)
qed

lemma sorted_pairs_split:
  "sorted (map fst pairs) \<Longrightarrow> \<forall>p\<in>set pairs. a \<le> fst p \<Longrightarrow>
     pairs = filter (\<lambda>p. fst p = a) pairs @ filter (\<lambda>p. (a :: nat) < fst p) pairs"
proof (induction pairs)
  case (Cons p pairs)
  show ?case
  proof (cases "fst p = a")
    case True
    with Cons show ?thesis by simp
  next
    case False
    with Cons.prems have "\<forall>q\<in>set (p # pairs). a < fst q" by force
    then have "filter (\<lambda>p. fst p = a) (p # pairs) = []"
      "filter (\<lambda>p. a < fst p) (p # pairs) = p # pairs"
      by (auto simp: filter_empty_conv filter_id_conv)
    then show ?thesis by simp
  qed
qed simp

lemma sorted_pairs_concat:
  assumes "sorted (map fst pairs)" and "\<forall>p\<in>set pairs. a \<le> fst p \<and> fst p < a + n"
  shows "concat (map (pushed_row pairs) [a..<a + n]) = map snd pairs"
  using assms
proof (induction n arbitrary: a pairs)
  case 0
  then show ?case by (cases pairs) auto
next
  case (Suc n)
  let ?now = "filter (\<lambda>p. fst p = a) pairs" and ?later = "filter (\<lambda>p. a < fst p) pairs"
  have split: "pairs = ?now @ ?later"
    using Suc.prems by (intro sorted_pairs_split) auto
  have "sorted (map fst ?later)"
    using Suc.prems(1) by (rule sorted_filter)
  then have "concat (map (pushed_row ?later) [Suc a..<Suc a + n]) = map snd ?later"
    using Suc.prems(2) by (intro Suc.IH) auto
  moreover have "map (pushed_row ?later) [Suc a..<Suc a + n] = map (pushed_row pairs) [Suc a..<Suc a + n]"
    by (auto simp: pushed_row_def intro!: arg_cong [where f = "map snd"] filter_cong)
  moreover have "[a..<a + Suc n] = a # [Suc a..<Suc a + n]"
    by (simp add: upt_conv_Cons del: upt_Suc)
  ultimately have "concat (map (pushed_row pairs) [a..<a + Suc n]) = map snd ?now @ map snd ?later"
    by (simp only: list.map concat.simps) (simp add: pushed_row_def)
  then show ?case using split by (metis map_append)
qed

lemma csr_build_eq:
  "csr_build b =
    (case find (\<lambda>p. cb_rows b \<le> fst p) (cb_pairs b) of
       Some p \<Rightarrow> Err (OutOfRange ''row'' (of_nat (fst p)) (cb_rows b))
     | None \<Rightarrow> Ok (csr_of (map (pushed_row (cb_pairs b)) [0..<cb_rows b])))"
proof (cases "find (\<lambda>p. cb_rows b \<le> fst p) (cb_pairs b)")
  case None
  let ?s = "sort_key fst (cb_pairs b)" and ?n = "cb_rows b"
  have small: "\<forall>p\<in>set ?s. fst p < ?n"
    using None by (auto simp: find_None_iff)
  let ?c = "count_rows ?n ?s"
  have "tl ?c = map length (map (pushed_row ?s) [0..<?n])"
    using count_rows_eq [OF small] by (intro nth_equalityI) (auto simp: nth_tl)
  moreover have "prefix_rows ?n ?c = prefix_sums (tl ?c)"
    using count_rows_eq [OF small] by (intro prefix_rows_eq) auto
  moreover have "concat (map (pushed_row ?s) [0..<?n]) = map snd ?s"
    using sorted_pairs_concat [of ?s 0 ?n] small by simp
  ultimately have "csr_build b = Ok (csr_of (map (pushed_row ?s) [0..<?n]))"
    using None by (simp add: csr_build_def csr_of_def case_prod_beta' Let_def)
  with None show ?thesis
    by (simp only: pushed_row_sort [abs_def] option.case)
next
  case (Some p)
  then show ?thesis by (simp add: csr_build_def case_prod_beta')
qed

section \<open>The interface of a row table\<close>

text \<open>
  What the clients of a table rely on: the value vector is the rows laid end to end, and a row
  past the end reads as empty. A check of every value is then a check of every row.
\<close>

locale row_table =
  fixes rows :: "'t \<Rightarrow> nat" and row :: "'t \<Rightarrow> nat \<Rightarrow> 'a list" and vals :: "'t \<Rightarrow> 'a list"
    and invar :: "'t \<Rightarrow> bool"
  assumes vals_rows: "invar t \<Longrightarrow> vals t = concat (map (row t) [0..<rows t])"
    and row_beyond: "invar t \<Longrightarrow> rows t \<le> i \<Longrightarrow> i \<le> usize_max \<Longrightarrow> row t i = []"
begin

lemma row_subset_vals: "invar t \<Longrightarrow> i \<le> usize_max \<Longrightarrow> set (row t i) \<subseteq> set (vals t)"
  by (cases "i < rows t") (auto simp: vals_rows row_beyond)

lemma all_vals_iff:
  "invar t \<Longrightarrow> (\<forall>v\<in>set (vals t). P v) \<longleftrightarrow> (\<forall>i<rows t. \<forall>v\<in>set (row t i). P v)"
  by (auto simp: vals_rows)

lemma length_row_le: "invar t \<Longrightarrow> i < rows t \<Longrightarrow> length (row t i) \<le> length (vals t)"
  by (auto simp: vals_rows length_concat comp_def intro!: member_le_sum_list)

end

definition csr_invar :: "'a csr \<Rightarrow> bool" where
  "csr_invar c \<longleftrightarrow> wf_csr c \<and> length (csr_offsets c) \<le> usize_max"

interpretation csr_table: row_table csr_rows csr_row csr_values csr_invar
proof
  fix c :: "'a csr" and i
  assume inv: "csr_invar c"
  then have "c = csr_of (map (csr_row c) [0..<csr_rows c])"
    by (intro wf_csr_is_csr_of) (auto simp: csr_invar_def)
  then show "csr_values c = concat (map (csr_row c) [0..<csr_rows c])"
    by (metis csr_values_of)
  assume "csr_rows c \<le> i" "i \<le> usize_max"
  with inv show "csr_row c i = []"
    by (intro csr_row_beyond) (auto simp: csr_invar_def)
qed

section \<open>Properties\<close>

text \<open>
  C22. The parallel two-pass build, with its recursive splitting and its compaction, equals the
  row-by-row build: row i holds the first entries the closure kept of its slot, and only an overflow
  of the total length is an error.
\<close>

theorem csr_build_parallel_rows:
  "(\<And>row slot. length (snd (fill row slot)) = length slot) \<Longrightarrow>
   csr_build_parallel rows filler cnt fill =
     (if sum_list (map cnt [0..<rows]) \<le> usize_max
      then Ok (csr_of (map (\<lambda>row. let (n, slot) = fill row (replicate (cnt row) filler)
                                 in take n slot) [0..<rows]))
      else Err (TooLarge ''row lengths''))"
  by (rule csr_build_parallel_eq)

definition demo_fill :: "usize \<Rightarrow> nat list \<Rightarrow> usize \<times> nat list" where
  "demo_fill row slot = (row, map (\<lambda>_. row) slot)"

theorem csr_build_parallel_rows_witness:
  "(\<forall>row slot. length (snd (demo_fill row slot)) = length slot) \<and>
   csr_build_parallel 3 0 (\<lambda>_. 2) demo_fill =
     Ok \<lparr>csr_offsets = [0, 0, 1, 3], csr_values = [1, 2, 2]\<rparr>"
proof -
  have keeps: "length (snd (demo_fill row slot)) = length slot" for row slot
    by (simp add: demo_fill_def)
  have three: "[0..<3] = [0, 1, 2 :: nat]" by (simp add: upt_rec)
  have table: "csr_of (map (\<lambda>row. let (n, slot) = demo_fill row (replicate 2 0) in take n slot) [0..<3]) =
      \<lparr>csr_offsets = [0, 0, 1, 3], csr_values = [1, 2, 2]\<rparr>"
    by code_simp
  have "sum_list (map (\<lambda>_. 2) [0..<3 :: nat]) \<le> usize_max" by (simp add: three)
  with keeps table show ?thesis
    using csr_build_parallel_rows [of demo_fill 3 0 "\<lambda>_. 2", OF keeps] by (simp only: if_True) simp
qed

text \<open>
  The sequential builder gives every row the values pushed for it, in push order, or reports
  the first row that is out of range.
\<close>

theorem csr_build_rows:
  "csr_build b =
    (case find (\<lambda>p. cb_rows b \<le> fst p) (cb_pairs b) of
       Some p \<Rightarrow> Err (OutOfRange ''row'' (of_nat (fst p)) (cb_rows b))
     | None \<Rightarrow> Ok (csr_of (map (pushed_row (cb_pairs b)) [0..<cb_rows b])))"
  by (rule csr_build_eq)

text \<open>
  A table accepted from its parts is exactly one that satisfies the invariant, and the rows
  read from it, laid out again, give it back.
\<close>

theorem csr_parts_roundtrip:
  "csr_from_parts os vs = Ok c \<Longrightarrow> length os \<le> usize_max \<Longrightarrow>
     csr_into_parts c = (os, vs) \<and> wf_csr c \<and> c = csr_of (map (csr_row c) [0..<csr_rows c])"
  using wf_csr_is_csr_of [of c] by (auto simp: csr_from_parts_Ok csr_into_parts_def)

theorem csr_parts_roundtrip_witness:
  "csr_from_parts [0, 1, 3] [7, 8, 9 :: nat] = Ok \<lparr>csr_offsets = [0, 1, 3], csr_values = [7, 8, 9]\<rparr> \<and>
   csr_into_parts \<lparr>csr_offsets = [0, 1, 3], csr_values = [7, 8, 9 :: nat]\<rparr> = ([0, 1, 3], [7, 8, 9])"
proof -
  have parts: "csr_from_parts [0, 1, 3] [7, 8, 9 :: nat] = Ok \<lparr>csr_offsets = [0, 1, 3], csr_values = [7, 8, 9]\<rparr>"
    by (simp add: csr_from_parts_def)
  have "length [0, 1, 3 :: nat] \<le> usize_max" by simp
  from csr_parts_roundtrip [OF parts this] parts show ?thesis by blast
qed

end
