(* ===== verification/SectionGraph.thy ===== *)
theory SectionGraph
  imports Ids Csr
begin

text \<open>
  The section reachability graph (src/src/passes/graph.rs): an edge table over sections and a root
  list, the checked constructors, and the one-edge-at-a-time builder with \<open>keep_together\<close>.
  \<open>par_iter().find_first\<close> returns the first match in index order, which is \<open>find\<close>.
\<close>

section \<open>The graph\<close>

record section_graph =
  sg_edges :: "section_id csr"
  sg_roots :: "section_id list"

definition graph_new :: "section_id csr \<Rightarrow> section_id list \<Rightarrow> (section_graph, input_error) result" where
  "graph_new edges roots =
     (let len = csr_rows edges; out_of_range = (\<lambda>i. id_index i \<ge> len) in
      case find out_of_range (csr_values edges) of
        Some bad \<Rightarrow> Err (OutOfRange ''edge target section'' (ucast (id_as_u32 bad)) len)
      | None \<Rightarrow>
          (case find out_of_range roots of
             Some bad \<Rightarrow> Err (OutOfRange ''root section'' (ucast (id_as_u32 bad)) len)
           | None \<Rightarrow> Ok \<lparr>sg_edges = edges, sg_roots = roots\<rparr>))"

definition graph_build_parallel :: "usize \<Rightarrow> (section_id \<Rightarrow> usize) \<Rightarrow>
    (section_id \<Rightarrow> section_id list \<Rightarrow> usize \<times> section_id list) \<Rightarrow> section_id list \<Rightarrow>
    (section_graph, input_error) result" where
  "graph_build_parallel sections cnt fill roots =
     (if u32_try_from sections = None then Err (TooLarge ''section count'')
      else bind_result
        (csr_build_parallel sections (id_from_u32 0)
          (\<lambda>row. cnt (the (new_id row))) (\<lambda>row slot. fill (the (new_id row)) slot))
        (\<lambda>edges. graph_new edges roots))"

definition num_sections :: "section_graph \<Rightarrow> usize" where
  "num_sections g = csr_rows (sg_edges g)"

definition num_edges :: "section_graph \<Rightarrow> usize" where
  "num_edges g = csr_num_values (sg_edges g)"

definition graph_edges :: "section_graph \<Rightarrow> section_id \<Rightarrow> section_id list" where
  "graph_edges g s = csr_row (sg_edges g) (id_index s)"

section \<open>The builder\<close>

record graph_builder =
  gb_edges :: "section_id csr_builder"
  gb_roots :: "section_id list"

definition graph_builder_new :: "usize \<Rightarrow> graph_builder" where
  "graph_builder_new sections = \<lparr>gb_edges = csr_builder_new sections, gb_roots = []\<rparr>"

definition add_edge :: "graph_builder \<Rightarrow> section_id \<Rightarrow> section_id \<Rightarrow> graph_builder" where
  "add_edge b from to = b\<lparr>gb_edges := csr_push (gb_edges b) (id_index from) to\<rparr>"

definition add_root :: "graph_builder \<Rightarrow> section_id \<Rightarrow> graph_builder" where
  "add_root b s = b\<lparr>gb_roots := gb_roots b @ [s]\<rparr>"

text \<open>The loop over \<open>members.windows(2)\<close>.\<close>

fun add_path :: "graph_builder \<Rightarrow> section_id list \<Rightarrow> graph_builder" where
  "add_path b (x # y # zs) = add_path (add_edge b x y) (y # zs)"
| "add_path b _ = b"

definition keep_together :: "graph_builder \<Rightarrow> section_id list \<Rightarrow> graph_builder" where
  "keep_together b members =
     (if length members < 2 then b
      else let b = add_path b members in
           if members \<noteq> [] then add_edge b (last members) (hd members) else b)"

definition graph_build :: "graph_builder \<Rightarrow> (section_graph, input_error) result" where
  "graph_build b =
     (if u32_try_from (cb_rows (gb_edges b)) = None then Err (TooLarge ''section count'')
      else bind_result (csr_build (gb_edges b)) (\<lambda>edges. graph_new edges (gb_roots b)))"

section \<open>Well-formed graphs\<close>

definition wf_graph :: "section_graph \<Rightarrow> bool" where
  "wf_graph g \<longleftrightarrow> csr_invar (sg_edges g) \<and>
     (\<forall>t\<in>set (csr_values (sg_edges g)). id_index t < num_sections g) \<and>
     (\<forall>r\<in>set (sg_roots g). id_index r < num_sections g)"

lemma graph_new_Ok:
  "graph_new edges roots = Ok g \<longleftrightarrow>
     g = \<lparr>sg_edges = edges, sg_roots = roots\<rparr> \<and>
     (\<forall>t\<in>set (csr_values edges). id_index t < csr_rows edges) \<and>
     (\<forall>r\<in>set roots. id_index r < csr_rows edges)"
  by (auto simp: graph_new_def Let_def find_None_iff not_le dest!: find_SomeD split: option.splits)
    (meson leD)+

lemma wf_graph_new: "graph_new edges roots = Ok g \<Longrightarrow> csr_invar edges \<Longrightarrow> wf_graph g"
  by (auto simp: graph_new_Ok wf_graph_def num_sections_def)

lemma id_index_usize: "id_index s \<le> usize_max"
  by (rule order_trans [OF id_index_le]) simp

lemma graph_edges_in_range:
  "wf_graph g \<Longrightarrow> t \<in> set (graph_edges g s) \<Longrightarrow> id_index t < num_sections g"
  using csr_table.row_subset_vals [OF _ id_index_usize]
  by (fastforce simp: wf_graph_def graph_edges_def)

lemma u32_try_from_None: "u32_try_from n = None \<longleftrightarrow> u32_max < n"
  by (auto simp: u32_try_from_def)

lemma csr_of_invar: "length rs \<le> u32_max \<Longrightarrow> csr_invar (csr_of rs)"
  by (simp add: csr_invar_def) (simp add: csr_of_def)

text \<open>The graph a list of adjacency rows and a root list describe, with the checks in order.\<close>

definition graph_of_rows :: "section_id list list \<Rightarrow> section_id list \<Rightarrow>
    (section_graph, input_error) result" where
  "graph_of_rows rs roots =
     (if u32_max < length rs then Err (TooLarge ''section count'') else graph_new (csr_of rs) roots)"

lemma graph_of_rows_wf: "graph_of_rows rs roots = Ok g \<Longrightarrow> wf_graph g"
  by (auto simp: graph_of_rows_def split: if_splits intro: wf_graph_new [OF _ csr_of_invar])

lemma graph_of_rows_edges:
  assumes "graph_of_rows rs roots = Ok g"
  shows "num_sections g = length rs" and "sg_roots g = roots"
    and "graph_edges g s = (if id_index s < length rs then rs ! id_index s else [])"
proof -
  have g: "g = \<lparr>sg_edges = csr_of rs, sg_roots = roots\<rparr>" and len: "length rs \<le> u32_max"
    using assms by (auto simp: graph_of_rows_def graph_new_Ok split: if_splits)
  then show "num_sections g = length rs" "sg_roots g = roots"
    by (simp_all add: num_sections_def)
  show "graph_edges g s = (if id_index s < length rs then rs ! id_index s else [])"
    using csr_row_of [of "id_index s" rs] csr_table.row_beyond [OF csr_of_invar [OF len]]
      len id_index_usize [of s]
    by (simp add: g graph_edges_def)
qed

lemma graph_build_eq:
  assumes "\<forall>p\<in>set (cb_pairs (gb_edges b)). fst p < cb_rows (gb_edges b)"
  shows "graph_build b = graph_of_rows
    (map (pushed_row (cb_pairs (gb_edges b))) [0..<cb_rows (gb_edges b)]) (gb_roots b)"
proof -
  have "find (\<lambda>p. cb_rows (gb_edges b) \<le> fst p) (cb_pairs (gb_edges b)) = None"
    using assms by (auto simp: find_None_iff)
  then show ?thesis
    by (simp add: graph_build_def graph_of_rows_def csr_build_eq u32_try_from_None)
qed

lemma graph_build_parallel_eq:
  assumes "\<And>s slot. length (snd (fill s slot)) = length slot"
  shows "graph_build_parallel n cnt fill roots =
    (if u32_max < n then Err (TooLarge ''section count'')
     else if usize_max < sum_list (map (\<lambda>i. cnt (of_nat i)) [0..<n])
     then Err (TooLarge ''row lengths'')
     else graph_of_rows
       (map (\<lambda>i. let (k, slot) = fill (of_nat i) (replicate (cnt (of_nat i)) 0) in take k slot) [0..<n])
       roots)"
proof (cases "u32_max < n")
  case True
  then show ?thesis by (simp add: graph_build_parallel_def u32_try_from_None)
next
  case False
  then have ids: "the (new_id i) = of_nat i" if "i < n" for i
    using that by (simp add: new_id_def u32_try_from_def)
  have "map (\<lambda>row. cnt (the (new_id row))) [0..<n] = map (\<lambda>i. cnt (of_nat i)) [0..<n]"
    "map (\<lambda>row. let (k, slot) = fill (the (new_id row)) (replicate (cnt (the (new_id row))) (id_from_u32 0))
        in take k slot) [0..<n] =
     map (\<lambda>i. let (k, slot) = fill (of_nat i) (replicate (cnt (of_nat i)) 0) in take k slot) [0..<n]"
    by (auto simp: ids id_from_u32_def)
  then show ?thesis
    using False
    by (simp only: graph_build_parallel_def u32_try_from_None if_False
        csr_build_parallel_eq [of "\<lambda>row slot. fill (the (new_id row)) slot", OF assms])
      (simp add: graph_of_rows_def not_le)
qed

section \<open>Keeping sections together\<close>

definition builder_edge :: "graph_builder \<Rightarrow> section_id \<Rightarrow> section_id \<Rightarrow> bool" where
  "builder_edge b x y \<longleftrightarrow> (id_index x, y) \<in> set (cb_pairs (gb_edges b))"

lemma builder_edge_add [simp]:
  "builder_edge (add_edge b x y) u v \<longleftrightarrow> builder_edge b u v \<or> u = x \<and> v = y"
  by (auto simp: builder_edge_def add_edge_def csr_push_def)

lemma builder_edge_path:
  "builder_edge (add_path b ms) u v \<longleftrightarrow>
     builder_edge b u v \<or> (\<exists>i. Suc i < length ms \<and> ms ! i = u \<and> ms ! Suc i = v)"
proof (induction b ms rule: add_path.induct)
  case (1 b x y zs)
  have "(\<exists>i. Suc i < length (x # y # zs) \<and> (x # y # zs) ! i = u \<and> (x # y # zs) ! Suc i = v) \<longleftrightarrow>
      x = u \<and> y = v \<or> (\<exists>i. Suc i < length (y # zs) \<and> (y # zs) ! i = u \<and> (y # zs) ! Suc i = v)"
    by (subst ex_nat_split_0) simp
  with "1.IH" show ?case by auto
qed auto

lemma builder_edge_keep_together:
  "builder_edge (keep_together b ms) u v \<longleftrightarrow>
     builder_edge b u v \<or>
     2 \<le> length ms \<and> (\<exists>i<length ms. ms ! i = u \<and> ms ! (Suc i mod length ms) = v)"
proof (cases "length ms < 2")
  case True
  then show ?thesis by (simp add: keep_together_def)
next
  case False
  let ?n = "length ms"
  have "(\<exists>i<?n. ms ! i = u \<and> ms ! (Suc i mod ?n) = v) \<longleftrightarrow>
      (\<exists>i. Suc i < ?n \<and> ms ! i = u \<and> ms ! Suc i = v) \<or> last ms = u \<and> hd ms = v" (is "?l \<longleftrightarrow> ?r")
  proof
    assume ?l
    then obtain i where i: "i < ?n" "ms ! i = u" "ms ! (Suc i mod ?n) = v" by blast
    have "ms \<noteq> []" "i = ?n - 1" if "Suc i = ?n"
      using that by auto
    moreover have "Suc i < ?n" if "Suc i \<noteq> ?n"
      using that i(1) by simp
    ultimately show ?r
      using i by (cases "Suc i = ?n") (simp add: last_conv_nth hd_conv_nth, metis mod_less)
  next
    assume ?r
    then show ?l
    proof
      assume "\<exists>i. Suc i < ?n \<and> ms ! i = u \<and> ms ! Suc i = v"
      then show ?l by (metis Suc_lessD mod_less)
    next
      assume "last ms = u \<and> hd ms = v"
      moreover have "ms \<noteq> []" "Suc (?n - 1) = ?n" using False by auto
      ultimately show ?l
        by (intro exI [of _ "?n - 1"]) (auto simp: last_conv_nth hd_conv_nth)
    qed
  qed
  then show ?thesis
    using False by (auto simp: keep_together_def Let_def builder_edge_path)
qed

text \<open>The cycle makes every member reach every other one.\<close>

lemma keep_together_reach:
  assumes "i < length ms" and "j < length ms"
  shows "(ms ! i, ms ! j) \<in> {(u, v). builder_edge (keep_together b ms) u v}\<^sup>*"
    (is "_ \<in> ?E\<^sup>*")
proof (cases "2 \<le> length ms")
  case False
  with assms have "i = j" by linarith
  then show ?thesis by simp
next
  case True
  have "(ms ! i, ms ! ((i + k) mod length ms)) \<in> ?E\<^sup>*" for k
  proof (induction k)
    case 0
    then show ?case using assms by simp
  next
    case (Suc k)
    let ?m = "(i + k) mod length ms"
    have "?m < length ms" using assms by (intro mod_less_divisor) auto
    then have "(ms ! ?m, ms ! (Suc ?m mod length ms)) \<in> ?E"
      using True unfolding mem_Collect_eq prod.case builder_edge_keep_together by blast
    moreover have "Suc ?m mod length ms = (i + Suc k) mod length ms"
      by (simp add: mod_Suc_eq)
    ultimately have "(ms ! ?m, ms ! ((i + Suc k) mod length ms)) \<in> ?E" by simp
    with Suc.IH show ?case by (rule rtrancl_into_rtrancl)
  qed
  from this [of "length ms - i + j"] show ?thesis using assms by simp
qed

section \<open>Properties\<close>

text \<open>
  C23. The two ways to build a graph agree: the parallel build of closures that write the rows
  pushed into a builder gives the builder's graph, the same error included.
\<close>

theorem graph_builds_agree:
  "\<forall>p\<in>set (cb_pairs (gb_edges b)). fst p < cb_rows (gb_edges b) \<Longrightarrow>
   length (cb_pairs (gb_edges b)) \<le> usize_max \<Longrightarrow>
   graph_build_parallel (cb_rows (gb_edges b))
     (\<lambda>s. length (pushed_row (cb_pairs (gb_edges b)) (id_index s)))
     (\<lambda>s slot. (length slot, take (length slot) (pushed_row (cb_pairs (gb_edges b)) (id_index s) @ slot)))
     (gb_roots b) = graph_build b"
proof -
  let ?n = "cb_rows (gb_edges b)" and ?row = "pushed_row (cb_pairs (gb_edges b))"
  assume rows: "\<forall>p\<in>set (cb_pairs (gb_edges b)). fst p < ?n" and len: "length (cb_pairs (gb_edges b)) \<le> usize_max"
  let ?fill = "\<lambda>s slot. (length slot, take (length slot) (?row (id_index s) @ slot))"
  have keeps: "length (snd (?fill s slot)) = length slot" for s slot by simp
  show ?thesis
  proof (cases "u32_max < ?n")
    case True
    then show ?thesis
      by (simp add: graph_build_parallel_def graph_build_def u32_try_from_None)
  next
    case False
    have idx: "id_index (of_nat i) = i" if "i < ?n" for i
      using that False by (intro id_index_of_nat) simp
    have "sum_list (map (\<lambda>i. length (?row i)) [0..<?n]) = length (concat (map ?row [0..<?n]))"
      by (simp add: length_concat comp_def)
    also have "map ?row [0..<?n] = map (pushed_row (sort_key fst (cb_pairs (gb_edges b)))) [0..<?n]"
      by (simp add: pushed_row_sort)
    also have "length (concat \<dots>) = length (cb_pairs (gb_edges b))"
      using sorted_pairs_concat [of "sort_key fst (cb_pairs (gb_edges b))" 0 ?n] rows by simp
    finally have total: "sum_list (map (\<lambda>i. length (?row i)) [0..<?n]) = length (cb_pairs (gb_edges b))" .
    have cnts: "map (\<lambda>i. length (?row (id_index (of_nat i :: u32)))) [0..<?n] = map (\<lambda>i. length (?row i)) [0..<?n]"
      using idx by simp
    have fits: "\<not> usize_max < sum_list (map (\<lambda>i. length (?row (id_index (of_nat i :: u32)))) [0..<?n])"
      unfolding cnts total using len by (simp only: not_less)
    have filled: "map (\<lambda>i. let (k, slot) = ?fill (of_nat i :: u32) (replicate (length (?row (id_index (of_nat i :: u32)))) 0)
        in take k slot) [0..<?n] = map ?row [0..<?n]"
      using idx by simp
    show ?thesis
      unfolding graph_build_eq [OF rows]
        graph_build_parallel_eq [of ?fill ?n "\<lambda>s. length (?row (id_index s))" "gb_roots b", OF keeps]
      using False fits by (simp only: if_False filled)
  qed
qed

theorem graph_builds_agree_witness:
  "graph_build_parallel 3
     (\<lambda>s. length (pushed_row (cb_pairs (gb_edges (add_edge (graph_builder_new 3) 0 2))) (id_index s)))
     (\<lambda>s slot. (length slot, take (length slot)
        (pushed_row (cb_pairs (gb_edges (add_edge (graph_builder_new 3) 0 2))) (id_index s) @ slot)))
     [] = graph_build (add_edge (graph_builder_new 3) 0 2)"
proof -
  let ?b = "add_edge (graph_builder_new 3) 0 2"
  have simps: "cb_rows (gb_edges ?b) = 3" "gb_roots ?b = []" "cb_pairs (gb_edges ?b) = [(0, 2)]"
    by (simp_all add: add_edge_def graph_builder_new_def csr_push_def csr_builder_new_def id_index_def)
  have "\<forall>p\<in>set (cb_pairs (gb_edges ?b)). fst p < cb_rows (gb_edges ?b)"
    "length (cb_pairs (gb_edges ?b)) \<le> usize_max" by (simp_all add: simps)
  from graph_builds_agree [OF this] show ?thesis by (simp only: simps)
qed

end
