(* ===== verification/BitSet.thy ===== *)
theory BitSet
  imports Prelude
begin

text \<open>
  Dense bitsets (src/src/passes/bitset.rs): \<open>BitSet\<close> and \<open>AtomicBitSet\<close>, both a vector of
  64-bit words and a length. An atomic bitset is written by many threads; \<open>atomic_set\<close> is the
  whole method run without interference, and the two atomic operations it is made of
  (\<open>atomic_load\<close> of the word, then \<open>atomic_fetch_or\<close>) are separate so that the parallel mark can
  interleave them.
\<close>

section \<open>The two bitsets\<close>

definition WORD_BITS :: nat where
  "WORD_BITS = 64"

definition words_for :: "usize \<Rightarrow> usize" where
  "words_for n = (n + WORD_BITS - 1) div WORD_BITS"

record atomic_bitset =
  ab_words :: "u64 list"
  ab_len :: usize

record bitset =
  bs_words :: "u64 list"
  bs_len :: usize

definition atomic_new :: "usize \<Rightarrow> atomic_bitset" where
  "atomic_new n = \<lparr>ab_words = replicate (words_for n) 0, ab_len = n\<rparr>"

definition atomic_is_empty :: "atomic_bitset \<Rightarrow> bool" where
  "atomic_is_empty s \<longleftrightarrow> ab_len s = 0"

definition bit_mask :: "usize \<Rightarrow> u64" where
  "bit_mask index = push_bit (index mod WORD_BITS) 1"

definition atomic_get :: "atomic_bitset \<Rightarrow> usize \<Rightarrow> bool" where
  "atomic_get s index =
     (case get_nth (ab_words s) (index div WORD_BITS) of
        Some word \<Rightarrow> (if index < ab_len s then word AND bit_mask index \<noteq> 0 else False)
      | None \<Rightarrow> False)"

text \<open>
  The atomic operations of \<open>set\<close>: the test load, and the \<open>fetch_or\<close>, which returns whether the
  bit was clear in the previous value.
\<close>

definition atomic_load :: "atomic_bitset \<Rightarrow> usize \<Rightarrow> bool" where
  "atomic_load s index = (ab_words s ! (index div WORD_BITS) AND bit_mask index \<noteq> 0)"

definition atomic_fetch_or :: "atomic_bitset \<Rightarrow> usize \<Rightarrow> bool \<times> atomic_bitset" where
  "atomic_fetch_or s index =
     (let i = index div WORD_BITS; old = ab_words s ! i
      in (old AND bit_mask index = 0,
          s\<lparr>ab_words := (ab_words s)[i := old OR bit_mask index]\<rparr>))"

definition atomic_set :: "atomic_bitset \<Rightarrow> usize \<Rightarrow> bool \<times> atomic_bitset" where
  "atomic_set s index =
     (if index \<ge> ab_len s then (False, s)
      else case get_nth (ab_words s) (index div WORD_BITS) of
        None \<Rightarrow> (False, s)
      | Some _ \<Rightarrow> if atomic_load s index then (False, s) else atomic_fetch_or s index)"

definition into_bitset :: "atomic_bitset \<Rightarrow> bitset" where
  "into_bitset s = \<lparr>bs_words = ab_words s, bs_len = ab_len s\<rparr>"

definition bitset_new :: "usize \<Rightarrow> bitset" where
  "bitset_new n = \<lparr>bs_words = replicate (words_for n) 0, bs_len = n\<rparr>"

definition bitset_is_empty :: "bitset \<Rightarrow> bool" where
  "bitset_is_empty s \<longleftrightarrow> bs_len s = 0"

definition bitset_get :: "bitset \<Rightarrow> usize \<Rightarrow> bool" where
  "bitset_get s index \<longleftrightarrow>
     index < bs_len s \<and>
     (case get_nth (bs_words s) (index div WORD_BITS) of
        Some word \<Rightarrow> word AND bit_mask index \<noteq> 0
      | None \<Rightarrow> False)"

definition bitset_insert :: "bitset \<Rightarrow> usize \<Rightarrow> bool \<times> bitset" where
  "bitset_insert s index =
     (if index \<ge> bs_len s then (False, s)
      else case get_nth (bs_words s) (index div WORD_BITS) of
        None \<Rightarrow> (False, s)
      | Some word \<Rightarrow>
          (word AND bit_mask index = 0,
           s\<lparr>bs_words := (bs_words s)[index div WORD_BITS := word OR bit_mask index]\<rparr>))"

definition bitset_count_ones :: "bitset \<Rightarrow> usize" where
  "bitset_count_ones s = sum_list (map count_ones (bs_words s))"

section \<open>Bits of a word\<close>

lemma word_bits_conv: "bit (w :: u64) i \<longleftrightarrow> w AND push_bit i 1 \<noteq> 0" if "i < 64"
proof -
  have "w AND push_bit i 1 = 0 \<longleftrightarrow> \<not> bit w i"
  proof
    assume "w AND push_bit i 1 = 0"
    then have "\<not> bit (w AND push_bit i 1) i" by simp
    with that show "\<not> bit w i" by (simp add: bit_simps)
  next
    assume "\<not> bit w i"
    then show "w AND push_bit i 1 = 0"
      by (intro bit_word_eqI) (auto simp: bit_simps)
  qed
  then show ?thesis by simp
qed

lemma and_bit_mask: "w AND bit_mask index = 0 \<longleftrightarrow> \<not> bit w (index mod WORD_BITS)"
  using word_bits_conv [of "index mod 64" w] by (simp add: bit_mask_def WORD_BITS_def)

lemma bit_or_bit_mask:
  "bit (w OR bit_mask index) i \<longleftrightarrow> bit w i \<or> i = index mod WORD_BITS"
  by (auto simp: bit_mask_def bit_simps WORD_BITS_def dest: bit_imp_le_length)

lemma clear_lowest_bit:
  assumes "w \<noteq> 0"
  shows "bit (w AND (w - 1)) i \<longleftrightarrow> bit w i \<and> i \<noteq> trailing_zeros w"
proof -
  define t where "t = trailing_zeros w"
  define t1 where "t1 = Suc t"
  define hi where "hi = push_bit t1 (drop_bit t1 w)"
  have t: "t < 64" "bit w t"
    using trailing_zeros_less [OF assms] trailing_zeros_spec by (auto simp: t_def)
  have low: "\<not> bit w j" if "j < t" for j
    using that t_def trailing_zeros_spec by simp
  have hi_bit: "bit hi j \<longleftrightarrow> Suc t \<le> j \<and> bit w j" for j
    unfolding t1_def [symmetric]
    by (auto simp: hi_def bit_simps dest: bit_imp_le_length)
  have above: "t < j" if "bit w j" "j \<noteq> t" for j
    using that low linorder_neqE_nat by blast
  have "hi OR push_bit t 1 = w"
    by (rule bit_word_eqI) (use t in \<open>auto simp: bit_simps hi_bit Suc_le_eq dest: above\<close>)
  moreover have "hi AND push_bit t 1 = 0"
    by (rule bit_word_eqI) (auto simp: bit_simps hi_bit)
  ultimately have w: "w = hi + push_bit t 1"
    by (simp add: disjunctive_add_eq_or)
  have "hi AND mask t = 0"
    by (rule bit_word_eqI) (auto simp: bit_simps hi_bit)
  then have "w - 1 = hi OR mask t"
    by (simp add: w mask_eq_exp_minus_1 push_bit_of_1 flip: disjunctive_add_eq_or)
  then show ?thesis
    using t low by (auto simp: bit_simps hi_bit t_def [symmetric] Suc_le_eq dest: above)
qed

section \<open>Iterating over set and clear bits\<close>

lemma filter_lowest:
  assumes "w \<noteq> 0"
  shows "filter (bit w) [0..<64] =
    trailing_zeros w # filter (bit (w AND (w - 1))) [0..<64]"
proof -
  define t where "t = trailing_zeros w"
  have t: "t < 64" "bit w t"
    using trailing_zeros_less [OF assms] trailing_zeros_spec by (auto simp: t_def)
  have split: "[0..<64] = [0..<t] @ t # [Suc t..<64]"
    using t(1) by (metis le_add_same_cancel1 less_imp_le_nat upt_add_eq_append upt_conv_Cons
        add.left_neutral le_iff_add zero_le)
  have low: "filter (bit w) [0..<t] = []" "filter (bit (w AND (w - 1))) [0..<t] = []"
    using trailing_zeros_spec(2) [of _ w] by (auto simp: filter_empty_conv t_def bit_and_iff)
  have high: "filter (bit (w AND (w - 1))) [Suc t..<64] = filter (bit w) [Suc t..<64]"
    by (rule filter_cong) (auto simp: clear_lowest_bit [OF assms] t_def [symmetric]
        simp del: bit_and_iff)
  have "\<not> bit (w AND (w - 1)) t"
    by (simp add: clear_lowest_bit [OF assms] t_def [symmetric] del: bit_and_iff)
  then show ?thesis
    unfolding split filter_append filter.simps(2) low high t_def [symmetric] using t by simp
qed

lemma count_ones_clear_lowest: "w \<noteq> 0 \<Longrightarrow> count_ones (w AND (w - 1)) < count_ones w"
proof -
  assume "w \<noteq> 0"
  show ?thesis
    by (simp only: count_ones_def filter_lowest [OF \<open>w \<noteq> 0\<close>] list.size)
qed

text \<open>
  The inner \<open>from_fn\<close> of \<open>iter_with\<close>: the indices of the bits of one word, lowest first,
  clearing the lowest bit with \<open>bits &= bits - 1\<close> until none is left.
\<close>

function word_ones :: "u64 \<Rightarrow> nat list" where
  "word_ones bits =
     (if bits = 0 then [] else trailing_zeros bits # word_ones (bits AND (bits - 1)))"
  by pat_completeness auto
termination
  by (relation "measure count_ones") (auto intro: count_ones_clear_lowest)

declare word_ones.simps [simp del]

definition iter_with :: "bitset \<Rightarrow> u64 \<Rightarrow> usize list" where
  "iter_with s flip =
     takeWhile (\<lambda>index. index < bs_len s)
       (concat (map (\<lambda>word_index.
           map (\<lambda>b. word_index * WORD_BITS + b) (word_ones (bs_words s ! word_index XOR flip)))
         [0..<length (bs_words s)]))"

definition bitset_ones :: "bitset \<Rightarrow> usize list" where
  "bitset_ones s = iter_with s 0"

definition bitset_zeros :: "bitset \<Rightarrow> usize list" where
  "bitset_zeros s = iter_with s (- 1)"

lemma word_ones_eq: "word_ones w = filter (bit w) [0..<64]"
proof (induction w rule: word_ones.induct)
  case (1 w)
  show ?case
  proof (cases "w = 0")
    case True
    then show ?thesis by (simp add: word_ones.simps [of 0])
  next
    case False
    then show ?thesis
      using "1.IH" [OF False]
      by (simp only: word_ones.simps [of w] filter_lowest [OF False] if_False)
  qed
qed

lemma map_add_upt': "map (\<lambda>b. k + b) [0..<m] = [k..<k + m]"
  by (induction m) auto

lemma concat_word_filter:
  "concat (map (\<lambda>k. map (\<lambda>b. k * 64 + b) (filter (Q k) [0..<64])) [0..<n]) =
     filter (\<lambda>i. Q (i div 64) (i mod 64)) [0..<64 * n]"
proof (induction n)
  case 0
  then show ?case by simp
next
  case (Suc n)
  have "[0..<64 * Suc n] = [0..<64 * n] @ map (\<lambda>b. n * 64 + b) [0..<64]"
    by (simp only: mult_Suc_right upt_add_eq_append [OF zero_le] add.commute [of 64]
        map_add_upt' mult.commute [of 64])
  moreover have "filter (\<lambda>i. Q (i div 64) (i mod 64)) (map (\<lambda>b. n * 64 + b) [0..<64]) =
      map (\<lambda>b. n * 64 + b) (filter (Q n) [0..<64])"
    by (simp only: filter_map comp_def, rule arg_cong [where f = "map _"], rule filter_cong) auto
  ultimately show ?case
    using Suc.IH by simp
qed

lemma takeWhile_less_sorted:
  "sorted (xs :: nat list) \<Longrightarrow> takeWhile (\<lambda>i. i < n) xs = filter (\<lambda>i. i < n) xs"
proof (induction xs)
  case (Cons x xs)
  then show ?case
    by (cases "x < n") (fastforce simp: filter_empty_conv intro!: sym [of _ "[]"])+
qed simp

lemma filter_less_upt: "n \<le> m \<Longrightarrow> filter (\<lambda>i. i < n \<and> P i) [0..<m] = filter P [0..<n]"
proof -
  assume "n \<le> m"
  then have "[0..<m] = [0..<n] @ [n..<m]"
    by (metis le_add_same_cancel1 upt_add_eq_append le_iff_add zero_le)
  moreover have "filter (\<lambda>i. i < n \<and> P i) [n..<m] = []"
    by (simp add: filter_empty_conv)
  moreover have "filter (\<lambda>i. i < n \<and> P i) [0..<n] = filter P [0..<n]"
    by (rule filter_cong) auto
  ultimately show ?thesis by simp
qed

section \<open>Well-formed bitsets\<close>

text \<open>
  The invariant of both types: one word per 64 bits, and no bit set at or past the length. The
  second part is what makes the population count the number of members.
\<close>

definition wf_bits :: "u64 list \<Rightarrow> usize \<Rightarrow> bool" where
  "wf_bits words n \<longleftrightarrow>
     length words = words_for n \<and>
     (\<forall>i. n \<le> i \<longrightarrow> i div WORD_BITS < length words \<longrightarrow>
        \<not> bit (words ! (i div WORD_BITS)) (i mod WORD_BITS))"

definition wf_atomic :: "atomic_bitset \<Rightarrow> bool" where
  "wf_atomic s \<longleftrightarrow> wf_bits (ab_words s) (ab_len s)"

definition wf_bitset :: "bitset \<Rightarrow> bool" where
  "wf_bitset s \<longleftrightarrow> wf_bits (bs_words s) (bs_len s)"

lemma words_for_bound: "i < n \<Longrightarrow> i div WORD_BITS < words_for n"
  by (auto simp: words_for_def WORD_BITS_def)

lemma words_for_covers: "n \<le> 64 * words_for n"
  by (auto simp: words_for_def WORD_BITS_def)

lemma nth_in_words:
  "wf_bits words n \<Longrightarrow> i < n \<Longrightarrow> get_nth words (i div WORD_BITS) = Some (words ! (i div WORD_BITS))"
  by (simp add: wf_bits_def words_for_bound)

lemma wf_bits_or:
  assumes "wf_bits words n" and "i < n"
  shows "wf_bits (words[i div WORD_BITS := words ! (i div WORD_BITS) OR bit_mask i]) n"
proof -
  have eq: "j = i" if "j div WORD_BITS = i div WORD_BITS" "j mod WORD_BITS = i mod WORD_BITS" for j
    using that by (metis div_mult_mod_eq)
  show ?thesis
    unfolding wf_bits_def
  proof (intro conjI allI impI)
    show "length (words[i div WORD_BITS := words ! (i div WORD_BITS) OR bit_mask i]) = words_for n"
      using assms by (simp add: wf_bits_def)
  next
    fix j
    assume j: "n \<le> j"
      "j div WORD_BITS < length (words[i div WORD_BITS := words ! (i div WORD_BITS) OR bit_mask i])"
    then have "\<not> bit (words ! (j div WORD_BITS)) (j mod WORD_BITS)"
      using assms by (simp add: wf_bits_def)
    moreover have "j \<noteq> i" using j assms by simp
    ultimately show "\<not> bit (words[i div WORD_BITS := words ! (i div WORD_BITS) OR bit_mask i] !
        (j div WORD_BITS)) (j mod WORD_BITS)"
      using j eq
      by (cases "j div WORD_BITS = i div WORD_BITS") (auto simp: bit_or_bit_mask simp del: bit_or_iff)
  qed
qed

lemma bitset_get_bit: "wf_bitset s \<Longrightarrow>
    bitset_get s i \<longleftrightarrow> i < bs_len s \<and> bit (bs_words s ! (i div WORD_BITS)) (i mod WORD_BITS)"
  by (auto simp: bitset_get_def wf_bitset_def nth_in_words and_bit_mask)

lemma atomic_get_bit: "wf_atomic s \<Longrightarrow>
    atomic_get s i \<longleftrightarrow> i < ab_len s \<and> bit (ab_words s ! (i div WORD_BITS)) (i mod WORD_BITS)"
  by (cases "i < ab_len s")
    (auto simp: atomic_get_def wf_atomic_def nth_in_words and_bit_mask split: option.splits)

lemma wf_atomic_new [simp]: "wf_atomic (atomic_new n)"
  by (auto simp: wf_atomic_def wf_bits_def atomic_new_def)

lemma atomic_get_new [simp]: "\<not> atomic_get (atomic_new n) i"
  by (auto simp: atomic_get_def atomic_new_def get_nth_def)

lemma ab_len_new [simp]: "ab_len (atomic_new n) = n"
  by (simp add: atomic_new_def)

lemma wf_bitset_new [simp]: "wf_bitset (bitset_new n)"
  by (auto simp: wf_bitset_def wf_bits_def bitset_new_def)

lemma bitset_get_new [simp]: "\<not> bitset_get (bitset_new n) i"
  by (auto simp: bitset_get_def bitset_new_def get_nth_def)

lemma into_bitset_simps [simp]:
  "wf_bitset (into_bitset s) = wf_atomic s" "bs_len (into_bitset s) = ab_len s"
  "bitset_get (into_bitset s) i = atomic_get s i"
  by (auto simp: wf_bitset_def wf_atomic_def into_bitset_def bitset_get_def atomic_get_def
      split: option.splits)

section \<open>The interface of a mark set\<close>

text \<open>
  What the clients of both bitsets use: setting a bit reports whether this call changed it,
  changes no other bit, and ignores indices past the end. The lemmas on \<open>filter_state\<close> are the
  ones the garbage collector's claims rest on.
\<close>

locale mark_set =
  fixes size :: "'s \<Rightarrow> nat"
    and get :: "'s \<Rightarrow> nat \<Rightarrow> bool"
    and mark :: "'s \<Rightarrow> nat \<Rightarrow> bool \<times> 's"
    and invar :: "'s \<Rightarrow> bool"
  assumes mark_reports: "invar s \<Longrightarrow> fst (mark s i) \<longleftrightarrow> i < size s \<and> \<not> get s i"
    and get_mark: "invar s \<Longrightarrow> get (snd (mark s i)) j \<longleftrightarrow> get s j \<or> j = i \<and> i < size s"
    and size_mark: "size (snd (mark s i)) = size s"
    and invar_mark: "invar s \<Longrightarrow> invar (snd (mark s i))"
    and get_size: "invar s \<Longrightarrow> get s i \<Longrightarrow> i < size s"
begin

lemma invar_filter_mark: "invar s \<Longrightarrow> invar (snd (filter_state (\<lambda>b x. mark b (f x)) s xs))"
  by (induction xs arbitrary: s) (auto simp: case_prod_beta Let_def invar_mark)

lemma size_filter_mark: "size (snd (filter_state (\<lambda>b x. mark b (f x)) s xs)) = size s"
  by (induction xs arbitrary: s) (auto simp: case_prod_beta Let_def size_mark)

lemma get_filter_mark:
  "invar s \<Longrightarrow> get (snd (filter_state (\<lambda>b x. mark b (f x)) s xs)) j \<longleftrightarrow>
     get s j \<or> j < size s \<and> j \<in> f ` set xs"
  by (induction xs arbitrary: s)
    (auto simp: case_prod_beta Let_def invar_mark get_mark size_mark)

lemma set_filter_mark:
  "invar s \<Longrightarrow> inj f \<Longrightarrow>
     set (fst (filter_state (\<lambda>b x. mark b (f x)) s xs)) =
       {x \<in> set xs. f x < size s \<and> \<not> get s (f x)}"
proof (induction xs arbitrary: s)
  case (Cons x xs)
  have IH: "set (fst (filter_state (\<lambda>b x. mark b (f x)) (snd (mark s (f x))) xs)) =
      {y \<in> set xs. f y < size s \<and> \<not> get (snd (mark s (f x))) (f y)}"
    using Cons by (simp add: invar_mark size_mark)
  show ?case
    using Cons.prems
    by (auto simp: case_prod_beta Let_def IH mark_reports get_mark dest: injD)
qed simp

lemma distinct_filter_mark:
  "invar s \<Longrightarrow> inj f \<Longrightarrow> distinct (fst (filter_state (\<lambda>b x. mark b (f x)) s xs))"
proof (induction xs arbitrary: s)
  case (Cons x xs)
  then show ?case
    by (auto simp: case_prod_beta Let_def invar_mark size_mark mark_reports get_mark
        set_filter_mark)
qed simp

end

lemma atomic_set_eq:
  assumes "wf_atomic s"
  shows "atomic_set s i =
    (if i < ab_len s \<and> \<not> atomic_get s i then (True, snd (atomic_fetch_or s i)) else (False, s))"
  using assms
  by (auto simp: atomic_set_def wf_atomic_def nth_in_words atomic_load_def atomic_fetch_or_def
      and_bit_mask atomic_get_bit [OF assms] Let_def)

lemma atomic_fetch_or_get:
  assumes "wf_atomic s" and "i < ab_len s"
  shows "atomic_get (snd (atomic_fetch_or s i)) j \<longleftrightarrow> atomic_get s j \<or> j = i"
    and "wf_atomic (snd (atomic_fetch_or s i))"
    and "ab_len (snd (atomic_fetch_or s i)) = ab_len s"
    and "fst (atomic_fetch_or s i) \<longleftrightarrow> \<not> atomic_get s i"
proof -
  show wf: "wf_atomic (snd (atomic_fetch_or s i))"
    using wf_bits_or assms by (simp add: wf_atomic_def atomic_fetch_or_def Let_def)
  show len: "ab_len (snd (atomic_fetch_or s i)) = ab_len s"
    by (simp add: atomic_fetch_or_def Let_def)
  show "fst (atomic_fetch_or s i) \<longleftrightarrow> \<not> atomic_get s i"
    using assms by (simp add: atomic_fetch_or_def Let_def atomic_get_bit and_bit_mask)
  have idx: "i div WORD_BITS < length (ab_words s)"
    using assms by (simp add: wf_atomic_def wf_bits_def words_for_bound)
  have eq: "j = i" if "j div WORD_BITS = i div WORD_BITS" "j mod WORD_BITS = i mod WORD_BITS"
    using that by (metis div_mult_mod_eq)
  show "atomic_get (snd (atomic_fetch_or s i)) j \<longleftrightarrow> atomic_get s j \<or> j = i"
    unfolding atomic_get_bit [OF wf] atomic_get_bit [OF assms(1)] len
    using assms(2) idx eq
    by (cases "j div WORD_BITS = i div WORD_BITS")
      (auto simp: atomic_fetch_or_def Let_def bit_or_bit_mask simp del: bit_or_iff)
qed

interpretation atomic_marks: mark_set ab_len atomic_get atomic_set wf_atomic
proof
  fix s i j
  assume wf: "wf_atomic s"
  show "fst (atomic_set s i) \<longleftrightarrow> i < ab_len s \<and> \<not> atomic_get s i"
    by (simp add: atomic_set_eq [OF wf])
  show "atomic_get (snd (atomic_set s i)) j \<longleftrightarrow> atomic_get s j \<or> j = i \<and> i < ab_len s"
    by (auto simp: atomic_set_eq [OF wf] atomic_fetch_or_get [OF wf])
  show "wf_atomic (snd (atomic_set s i))"
    using wf by (simp add: atomic_set_eq [OF wf] atomic_fetch_or_get [OF wf])
  show "atomic_get s i \<Longrightarrow> i < ab_len s"
    by (simp add: atomic_get_bit [OF wf])
next
  fix s i
  show "ab_len (snd (atomic_set s i)) = ab_len s"
    by (auto simp: atomic_set_def atomic_fetch_or_def Let_def split: option.splits)
qed

lemma bitset_insert_bits:
  assumes "wf_bitset s"
  shows "bitset_insert s i =
    (if i < bs_len s then
       (\<not> bitset_get s i,
        s\<lparr>bs_words := (bs_words s)[i div WORD_BITS := bs_words s ! (i div WORD_BITS) OR bit_mask i]\<rparr>)
     else (False, s))"
  using assms
  by (auto simp: bitset_insert_def wf_bitset_def nth_in_words and_bit_mask bitset_get_bit [OF assms])

interpretation plain_marks: mark_set bs_len bitset_get bitset_insert wf_bitset
proof
  fix s i j
  assume wf: "wf_bitset s"
  show "fst (bitset_insert s i) \<longleftrightarrow> i < bs_len s \<and> \<not> bitset_get s i"
    by (simp add: bitset_insert_bits [OF wf])
  show wf': "wf_bitset (snd (bitset_insert s i))"
    using wf wf_bits_or by (simp add: bitset_insert_bits [OF wf]) (simp add: wf_bitset_def)
  have eq: "j = i" if "j div WORD_BITS = i div WORD_BITS" "j mod WORD_BITS = i mod WORD_BITS"
    using that by (metis div_mult_mod_eq)
  have len: "bs_len (snd (bitset_insert s i)) = bs_len s"
    by (simp add: bitset_insert_bits [OF wf])
  have idx: "i div WORD_BITS < length (bs_words s)" if "i < bs_len s"
    using wf that by (simp add: wf_bitset_def wf_bits_def words_for_bound)
  show "bitset_get (snd (bitset_insert s i)) j \<longleftrightarrow> bitset_get s j \<or> j = i \<and> i < bs_len s"
    unfolding bitset_get_bit [OF wf'] bitset_get_bit [OF wf] len
    using eq idx
    by (cases "j div WORD_BITS = i div WORD_BITS"; cases "i < bs_len s")
      (auto simp: bitset_insert_bits [OF wf] bit_or_bit_mask simp del: bit_or_iff)
  show "bitset_get s i \<Longrightarrow> i < bs_len s"
    by (simp add: bitset_get_bit [OF wf])
next
  fix s i
  show "bs_len (snd (bitset_insert s i)) = bs_len s"
    by (auto simp: bitset_insert_def split: option.splits)
qed

section \<open>Iteration lists the members\<close>

lemma iter_with_eq:
  assumes "wf_bitset s"
  shows "iter_with s flip =
    filter (\<lambda>i. bit (bs_words s ! (i div WORD_BITS) XOR flip) (i mod WORD_BITS)) [0..<bs_len s]"
proof -
  let ?Q = "\<lambda>i. bit (bs_words s ! (i div 64) XOR flip) (i mod 64)"
  have "iter_with s flip = takeWhile (\<lambda>i. i < bs_len s) (filter ?Q [0..<64 * length (bs_words s)])"
    unfolding iter_with_def WORD_BITS_def word_ones_eq
    by (subst concat_word_filter [of "\<lambda>k. bit (bs_words s ! k XOR flip)"]) simp
  also have "\<dots> = filter (\<lambda>i. i < bs_len s \<and> ?Q i) [0..<64 * length (bs_words s)]"
    by (subst takeWhile_less_sorted) (auto simp: sorted_wrt_filter intro: filter_cong)
  also have "\<dots> = filter ?Q [0..<bs_len s]"
    using assms words_for_covers [of "bs_len s"]
    by (intro filter_less_upt) (simp add: wf_bitset_def wf_bits_def)
  finally show ?thesis by (simp add: WORD_BITS_def)
qed

lemma bitset_ones_eq: "wf_bitset s \<Longrightarrow> bitset_ones s = filter (bitset_get s) [0..<bs_len s]"
  unfolding bitset_ones_def iter_with_eq
  by (rule filter_cong) (auto simp: bitset_get_bit)

lemma bitset_zeros_eq:
  "wf_bitset s \<Longrightarrow> bitset_zeros s = filter (\<lambda>i. \<not> bitset_get s i) [0..<bs_len s]"
  unfolding bitset_zeros_def iter_with_eq
  by (rule filter_cong) (auto simp: bitset_get_bit bit_simps WORD_BITS_def)

lemma count_ones_eq:
  assumes "wf_bitset s"
  shows "bitset_count_ones s = length (bitset_ones s)"
proof -
  let ?n = "length (bs_words s)"
  let ?Q = "\<lambda>i. bit (bs_words s ! (i div 64)) (i mod 64)"
  have "bitset_count_ones s = sum_list (map (\<lambda>k. count_ones (bs_words s ! k)) [0..<?n])"
    unfolding bitset_count_ones_def
    by (rule arg_cong [where f = sum_list]) (rule nth_equalityI, simp_all)
  also have "\<dots> = length (concat (map (\<lambda>k. map (\<lambda>b. k * 64 + b)
      (filter (bit (bs_words s ! k)) [0..<64])) [0..<?n]))"
    by (simp only: length_concat map_map comp_def length_map count_ones_def)
  also have "\<dots> = length (filter ?Q [0..<64 * ?n])"
    by (simp only: concat_word_filter [of "\<lambda>k. bit (bs_words s ! k)"])
  also have "filter ?Q [0..<64 * ?n] = filter (\<lambda>i. i < bs_len s \<and> bitset_get s i) [0..<64 * ?n]"
    using assms
    by (intro filter_cong) (auto simp: bitset_get_bit wf_bitset_def wf_bits_def WORD_BITS_def
        not_le [symmetric])
  also have "\<dots> = bitset_ones s"
    using assms words_for_covers [of "bs_len s"]
    by (simp add: bitset_ones_eq filter_less_upt wf_bitset_def wf_bits_def)
  finally show ?thesis .
qed

section \<open>Properties\<close>

text \<open>
  A bitset kept by its operations lists its members and its non-members in ascending order,
  and the population count of its words is the number of members.
\<close>

theorem bitset_members:
  "wf_bitset s \<Longrightarrow>
     bitset_ones s = filter (bitset_get s) [0..<bs_len s] \<and>
     bitset_zeros s = filter (\<lambda>i. \<not> bitset_get s i) [0..<bs_len s] \<and>
     bitset_count_ones s = length (filter (bitset_get s) [0..<bs_len s])"
  using count_ones_eq [of s] by (simp add: bitset_ones_eq bitset_zeros_eq)

theorem bitset_members_witness:
  "wf_bitset (snd (bitset_insert (bitset_new 70) 69)) \<and>
   bitset_ones (snd (bitset_insert (bitset_new 70) 69)) =
     filter (bitset_get (snd (bitset_insert (bitset_new 70) 69))) [0..<bs_len (snd (bitset_insert (bitset_new 70) 69))]"
proof -
  have wf: "wf_bitset (snd (bitset_insert (bitset_new 70) 69))"
    by (rule plain_marks.invar_mark [OF wf_bitset_new])
  with bitset_members [OF wf] show ?thesis by blast
qed

text \<open>
  C24. Setting a bit of the atomic set tells exactly the first setter of an in-range bit that it
  changed it, keeps the invariant and changes no other bit.
\<close>

theorem atomic_set_first_setter:
  "wf_atomic s \<Longrightarrow> atomic_set s i = (won, s') \<Longrightarrow>
     won = (i < ab_len s \<and> \<not> atomic_get s i) \<and> wf_atomic s' \<and> ab_len s' = ab_len s \<and>
     (\<forall>j. atomic_get s' j \<longleftrightarrow> atomic_get s j \<or> j = i \<and> i < ab_len s)"
  using atomic_marks.mark_reports [of s i] atomic_marks.get_mark [of s i] atomic_marks.size_mark [of s i]
    atomic_marks.invar_mark [of s i]
  by simp

theorem atomic_set_first_setter_witness:
  "\<exists>s'. atomic_set (atomic_new 100) 64 = (True, s') \<and> wf_atomic s' \<and> atomic_get s' 64"
proof -
  obtain won s' where s': "atomic_set (atomic_new 100) 64 = (won, s')" by fastforce
  from atomic_set_first_setter [OF wf_atomic_new s'] s' show ?thesis by auto
qed

end
