(* ===== verification/Gc.thy ===== *)
theory Gc
  imports SectionGraph BitSet
begin

text \<open>
  Section garbage collection (src/src/passes/gc.rs), single-threaded: the marker, the mark loop
  over a graph, the lazy mark with enumerated edges, and the live set with its queries. A stack is
  a vector that grows and pops at its end. The parallel tasks are in GcParallel, the reference
  chains in GcWhyLive.
\<close>

section \<open>Marking with one thread\<close>

definition SPLIT_THRESHOLD :: nat where
  "SPLIT_THRESHOLD = 256"

definition LAZY_SPLIT_THRESHOLD :: nat where
  "LAZY_SPLIT_THRESHOLD = 32"

text \<open>\<open>iter.filter(|id| bits.set(id.index()))\<close>: the sections this pass claims, in order.\<close>

definition claim_all :: "atomic_bitset \<Rightarrow> section_id list \<Rightarrow> section_id list \<times> atomic_bitset" where
  "claim_all bits ids = filter_state (\<lambda>b i. atomic_set b (id_index i)) bits ids"

text \<open>The number of bits still clear, the loop's measure.\<close>

definition clear_bits :: "atomic_bitset \<Rightarrow> nat" where
  "clear_bits s = card {i. i < ab_len s \<and> \<not> atomic_get s i}"

lemma clear_bits_finite [simp]: "finite {i. i < ab_len s \<and> \<not> atomic_get s i}"
  by simp

lemma atomic_fetch_or_mono:
  "atomic_get s j \<Longrightarrow> atomic_get (snd (atomic_fetch_or s i)) j"
proof (cases "i div WORD_BITS = j div WORD_BITS")
  case True
  assume "atomic_get s j"
  with True show ?thesis
    by (auto simp: atomic_get_def atomic_fetch_or_def Let_def get_nth_def and_bit_mask
        bit_or_bit_mask split: if_splits)
next
  case False
  assume "atomic_get s j"
  with False show ?thesis
    by (auto simp: atomic_get_def atomic_fetch_or_def Let_def get_nth_def split: if_splits)
qed

lemma bit_mask_nonzero [simp]: "bit_mask i \<noteq> 0"
  using and_bit_mask [of "- 1" i] by (simp add: WORD_BITS_def)

lemma atomic_set_progress:
  assumes "atomic_set s i = (won, s')"
  shows "clear_bits s' + (if won then 1 else 0) \<le> clear_bits s"
proof (cases won)
  case True
  then have i: "i < ab_len s" "i div WORD_BITS < length (ab_words s)" "\<not> atomic_load s i"
    and s': "s' = snd (atomic_fetch_or s i)"
    using assms by (auto simp: atomic_set_def get_nth_def split: if_splits)
  have len: "ab_len s' = ab_len s" by (simp add: s' atomic_fetch_or_def Let_def)
  have "atomic_get s' i" "\<not> atomic_get s i"
    using i by (auto simp: s' atomic_get_def atomic_fetch_or_def Let_def get_nth_def and_bit_mask
        bit_or_bit_mask atomic_load_def simp del: bit_or_iff)
  then have "{k. k < ab_len s' \<and> \<not> atomic_get s' k} \<subset> {k. k < ab_len s \<and> \<not> atomic_get s k}"
    using i(1) len atomic_fetch_or_mono [of s _ i] by (auto simp: s')
  then have "clear_bits s' < clear_bits s"
    unfolding clear_bits_def by (intro psubset_card_mono) simp_all
  with True show ?thesis by simp
next
  case False
  then have "s' = s"
    using assms by (auto simp: atomic_set_def atomic_fetch_or_def atomic_load_def Let_def
        split: if_splits option.splits)
  with False show ?thesis by simp
qed

lemma claim_all_progress:
  "claim_all b ts = (new, b') \<Longrightarrow> clear_bits b' + length new \<le> clear_bits b"
proof (induction ts arbitrary: b new b')
  case (Cons t ts)
  obtain won b1 where one: "atomic_set b (id_index t) = (won, b1)" by fastforce
  obtain new1 b2 where rest: "claim_all b1 ts = (new1, b2)" by fastforce
  have "new = (if won then t # new1 else new1)" "b' = b2"
    using Cons.prems one rest by (auto simp: claim_all_def)
  with Cons.IH [OF rest] atomic_set_progress [OF one] show ?case by (auto split: if_splits)
qed (auto simp: claim_all_def)

text \<open>
  The loop of \<open>mark_sequential\<close> and of the single-threaded branch of \<open>mark_reachable\<close>: pop a
  section, push the targets whose bit this pass set.
\<close>

function mark_loop :: "(section_id \<Rightarrow> section_id list) \<Rightarrow> atomic_bitset \<Rightarrow> section_id list \<Rightarrow>
    atomic_bitset" where
  "mark_loop edges bits stack =
     (if stack = [] then bits
      else let (pushed, bits') = claim_all bits (edges (last stack))
           in mark_loop edges bits' (butlast stack @ pushed))"
  by pat_completeness auto
termination
proof (relation "measure (\<lambda>(edges, bits, stack). clear_bits bits + length stack)", goal_cases)
  case (2 edges bits stack x pushed bits')
  then show ?case
    using claim_all_progress [of bits "edges (last stack)" pushed bits']
    by (cases stack rule: rev_cases) auto
qed simp

declare mark_loop.simps [simp del]

definition mark_sequential :: "section_graph \<Rightarrow> atomic_bitset \<Rightarrow> section_id list \<Rightarrow> atomic_bitset" where
  "mark_sequential g bits stack = mark_loop (graph_edges g) bits stack"

record gc_marker =
  gm_graph :: section_graph
  gm_bits :: atomic_bitset

definition marker_new :: "section_graph \<Rightarrow> gc_marker" where
  "marker_new g = \<lparr>gm_graph = g, gm_bits = atomic_new (num_sections g)\<rparr>"

text \<open>\<open>mark_from\<close> when the pool has one thread.\<close>

definition mark_from_sequential :: "gc_marker \<Rightarrow> section_id list \<Rightarrow> gc_marker" where
  "mark_from_sequential m roots =
     (let (stack, bits) = claim_all (gm_bits m) roots
      in m\<lparr>gm_bits := mark_sequential (gm_graph m) bits stack\<rparr>)"

definition is_marked :: "gc_marker \<Rightarrow> section_id \<Rightarrow> bool" where
  "is_marked m s = atomic_get (gm_bits m) (id_index s)"

section \<open>The live set\<close>

record live_set =
  ls_bits :: bitset

definition finish :: "gc_marker \<Rightarrow> live_set" where
  "finish m = \<lparr>ls_bits = into_bitset (gm_bits m)\<rparr>"

definition collect_garbage_sequential :: "section_graph \<Rightarrow> live_set" where
  "collect_garbage_sequential g = finish (mark_from_sequential (marker_new g) (sg_roots g))"

text \<open>
  \<open>mark_reachable\<close> when the pool has one thread. The \<open>edges\<close> closure appends the targets of a
  section to a vector that is empty at every call, so it is the function from a section to its
  targets.
\<close>

definition mark_reachable_sequential :: "usize \<Rightarrow> section_id list \<Rightarrow>
    (section_id \<Rightarrow> section_id list) \<Rightarrow> live_set" where
  "mark_reachable_sequential sections roots edges =
     (let (stack, bits) = claim_all (atomic_new sections) roots
      in \<lparr>ls_bits = into_bitset (mark_loop edges bits stack)\<rparr>)"

definition is_live :: "live_set \<Rightarrow> section_id \<Rightarrow> bool" where
  "is_live l s = bitset_get (ls_bits l) (id_index s)"

definition live_num_sections :: "live_set \<Rightarrow> usize" where
  "live_num_sections l = bs_len (ls_bits l)"

definition num_live :: "live_set \<Rightarrow> usize" where
  "num_live l = bitset_count_ones (ls_bits l)"

text \<open>\<open>live\<close> and \<open>removed\<close> call \<open>SectionId::new\<close>, which panics past \<open>u32::MAX\<close>: None.\<close>

definition live :: "live_set \<Rightarrow> section_id list option" where
  "live l = collect_options (map new_id (bitset_ones (ls_bits l)))"

definition removed :: "live_set \<Rightarrow> section_id list option" where
  "removed l = collect_options (map new_id (bitset_zeros (ls_bits l)))"

section \<open>Reachability\<close>

text \<open>The sections reachable from in-range roots along edges to in-range targets.\<close>

definition section_step :: "nat \<Rightarrow> (section_id \<Rightarrow> section_id list) \<Rightarrow> (section_id \<times> section_id) set" where
  "section_step n edges = {(s, t). t \<in> set (edges s) \<and> id_index t < n}"

definition reachable :: "nat \<Rightarrow> (section_id \<Rightarrow> section_id list) \<Rightarrow> section_id list \<Rightarrow> section_id set" where
  "reachable n edges roots =
     {t. \<exists>r\<in>set roots. id_index r < n \<and> (r, t) \<in> (section_step n edges)\<^sup>*}"

definition closed_under :: "nat \<Rightarrow> (section_id \<Rightarrow> section_id list) \<Rightarrow> section_id set \<Rightarrow> bool" where
  "closed_under n edges X \<longleftrightarrow> (\<forall>s\<in>X. \<forall>t\<in>set (edges s). id_index t < n \<longrightarrow> t \<in> X)"

definition marked :: "atomic_bitset \<Rightarrow> section_id set" where
  "marked b = {s. atomic_get b (id_index s)}"

lemma closed_under_reach:
  "closed_under n edges X \<Longrightarrow> s \<in> X \<Longrightarrow> (s, t) \<in> (section_step n edges)\<^sup>* \<Longrightarrow> t \<in> X"
  by (rotate_tac 2, induction rule: rtrancl_induct) (auto simp: closed_under_def section_step_def)

lemma reachable_least:
  "closed_under n edges X \<Longrightarrow> \<forall>r\<in>set roots. id_index r < n \<longrightarrow> r \<in> X \<Longrightarrow>
     reachable n edges roots \<subseteq> X"
  by (auto simp: reachable_def dest: closed_under_reach)

lemma closed_under_reachable: "closed_under n edges (reachable n edges roots)"
  by (auto simp: closed_under_def reachable_def section_step_def intro: rtrancl_into_rtrancl)

lemma reachable_roots: "r \<in> set roots \<Longrightarrow> id_index r < n \<Longrightarrow> r \<in> reachable n edges roots"
  by (auto simp: reachable_def)

lemma closed_under_Un: "closed_under n edges X \<Longrightarrow> closed_under n edges Y \<Longrightarrow> closed_under n edges (X \<union> Y)"
  by (auto simp: closed_under_def)

lemma reachable_append:
  "reachable n edges (xs @ ys) = reachable n edges xs \<union> reachable n edges ys"
  by (auto simp: reachable_def)

lemma reachable_index: "t \<in> reachable n edges roots \<Longrightarrow> id_index t < n"
  by (auto simp: reachable_def section_step_def elim: rtranclE)

text \<open>
  What both marks are shown to compute: a set that is closed, holds the old marks and the roots,
  and lies inside every such set.
\<close>

lemma least_closed_is_reach:
  assumes "closed_under n edges X" and "closed_under n edges Y" and "X \<subseteq> Y"
    and "\<forall>r\<in>set roots. id_index r < n \<longrightarrow> r \<in> Y"
    and "\<And>C. closed_under n edges C \<Longrightarrow> X \<subseteq> C \<Longrightarrow> \<forall>r\<in>set roots. id_index r < n \<longrightarrow> r \<in> C \<Longrightarrow> Y \<subseteq> C"
  shows "Y = X \<union> reachable n edges roots"
proof
  show "Y \<subseteq> X \<union> reachable n edges roots"
    using assms(1) closed_under_reachable
    by (intro assms(5) closed_under_Un) (auto intro: reachable_roots)
  show "X \<union> reachable n edges roots \<subseteq> Y"
    using assms(2-4) reachable_least by blast
qed

section \<open>The single-threaded mark computes the reachable set\<close>

lemma inj_id_index: "inj id_index"
  by (simp add: inj_on_def)

lemma claim_all_spec:
  assumes "wf_atomic b" and "claim_all b ts = (new, b')"
  shows "wf_atomic b'" and "ab_len b' = ab_len b"
    and "marked b' = marked b \<union> {t \<in> set ts. id_index t < ab_len b}"
    and "set new = {t \<in> set ts. id_index t < ab_len b} - marked b" and "distinct new"
  using assms atomic_marks.invar_filter_mark [of b id_index ts]
    atomic_marks.size_filter_mark [of id_index b ts]
    atomic_marks.get_filter_mark [of b id_index ts]
    atomic_marks.set_filter_mark [OF _ inj_id_index, of b ts]
    atomic_marks.distinct_filter_mark [OF _ inj_id_index, of b ts]
  by (auto simp: claim_all_def marked_def)

lemma mark_loop_spec:
  assumes "wf_atomic b" and "set stack \<subseteq> marked b"
    and "\<forall>s\<in>marked b - set stack. \<forall>t\<in>set (edges s). id_index t < ab_len b \<longrightarrow> t \<in> marked b"
  shows "wf_atomic (mark_loop edges b stack) \<and> ab_len (mark_loop edges b stack) = ab_len b \<and>
    closed_under (ab_len b) edges (marked (mark_loop edges b stack)) \<and>
    marked b \<subseteq> marked (mark_loop edges b stack) \<and>
    (\<forall>C. closed_under (ab_len b) edges C \<longrightarrow> marked b \<subseteq> C \<longrightarrow> marked (mark_loop edges b stack) \<subseteq> C)"
  using assms
proof (induction edges b stack rule: mark_loop.induct)
  case (1 edges b stack)
  show ?case
  proof (cases "stack = []")
    case True
    with "1.prems" show ?thesis
      by (simp add: mark_loop.simps [of edges b] closed_under_def)
  next
    case False
    obtain new b' where c: "claim_all b (edges (last stack)) = (new, b')" by fastforce
    note spec = claim_all_spec [OF "1.prems"(1) c]
    have stack: "set stack = insert (last stack) (set (butlast stack))"
      using False by (metis append_butlast_last_id list.simps(15) rotate1.simps(2) set_rotate1)
    have unfold: "mark_loop edges b stack = mark_loop edges b' (butlast stack @ new)"
      using False c by (simp add: mark_loop.simps [of edges b])
    let ?M = "marked (mark_loop edges b' (butlast stack @ new))"
    have IH: "wf_atomic (mark_loop edges b' (butlast stack @ new)) \<and>
        ab_len (mark_loop edges b' (butlast stack @ new)) = ab_len b' \<and>
        closed_under (ab_len b') edges (marked (mark_loop edges b' (butlast stack @ new))) \<and>
        marked b' \<subseteq> marked (mark_loop edges b' (butlast stack @ new)) \<and>
        (\<forall>C. closed_under (ab_len b') edges C \<longrightarrow> marked b' \<subseteq> C \<longrightarrow>
           marked (mark_loop edges b' (butlast stack @ new)) \<subseteq> C)"
    proof (rule "1.IH" [OF False c [symmetric] refl spec(1)])
      show "set (butlast stack @ new) \<subseteq> marked b'"
        using "1.prems"(2) spec stack by auto
      show "\<forall>s\<in>marked b' - set (butlast stack @ new). \<forall>t\<in>set (edges s).
          id_index t < ab_len b' \<longrightarrow> t \<in> marked b'"
      proof (intro ballI impI)
        fix s t
        assume s: "s \<in> marked b' - set (butlast stack @ new)" and t: "t \<in> set (edges s)"
          "id_index t < ab_len b'"
        show "t \<in> marked b'"
        proof (cases "s = last stack")
          case True
          with t spec(2,3) show ?thesis by simp
        next
          case False
          with s stack spec(3,4) have "s \<in> marked b - set stack" by auto
          with "1.prems"(3) t spec(2,3) show ?thesis by auto
        qed
      qed
    qed
    have least: "?M \<subseteq> C" if C: "closed_under (ab_len b) edges C" "marked b \<subseteq> C" for C
    proof -
      have "last stack \<in> C" using C(2) "1.prems"(2) stack by auto
      then have "marked b' \<subseteq> C"
        using C spec(3) unfolding closed_under_def by blast
      with IH C(1) show ?thesis by (simp only: spec(2))
    qed
    have "marked b \<subseteq> ?M"
      using IH spec(3) by blast
    with least have "marked b \<subseteq> ?M \<and> (\<forall>C. closed_under (ab_len b) edges C \<longrightarrow> marked b \<subseteq> C \<longrightarrow> ?M \<subseteq> C)"
      by blast
    with IH show ?thesis
      unfolding unfold spec(2) by simp
  qed
qed

lemma mark_from_stack:
  assumes "wf_atomic b" and "closed_under (ab_len b) edges (marked b)"
    and "claim_all b roots = (stack, b1)"
  shows "wf_atomic (mark_loop edges b1 stack)" "ab_len (mark_loop edges b1 stack) = ab_len b"
    "marked (mark_loop edges b1 stack) = marked b \<union> reachable (ab_len b) edges roots"
proof -
  note spec = claim_all_spec [OF assms(1,3)]
  have loop: "wf_atomic (mark_loop edges b1 stack) \<and> ab_len (mark_loop edges b1 stack) = ab_len b1 \<and>
    closed_under (ab_len b1) edges (marked (mark_loop edges b1 stack)) \<and>
    marked b1 \<subseteq> marked (mark_loop edges b1 stack) \<and>
    (\<forall>C. closed_under (ab_len b1) edges C \<longrightarrow> marked b1 \<subseteq> C \<longrightarrow> marked (mark_loop edges b1 stack) \<subseteq> C)"
    using assms(2) spec by (intro mark_loop_spec) (auto simp: closed_under_def)
  then show "wf_atomic (mark_loop edges b1 stack)" "ab_len (mark_loop edges b1 stack) = ab_len b"
    by (simp_all add: spec(2))
  show "marked (mark_loop edges b1 stack) = marked b \<union> reachable (ab_len b) edges roots"
    using loop spec assms(2)
    by (intro least_closed_is_reach) auto
qed

text \<open>The invariant of a marker: a mark set of the graph's size that is closed under its edges.\<close>

definition wf_marker :: "gc_marker \<Rightarrow> bool" where
  "wf_marker m \<longleftrightarrow> wf_atomic (gm_bits m) \<and> ab_len (gm_bits m) = num_sections (gm_graph m) \<and>
     closed_under (num_sections (gm_graph m)) (graph_edges (gm_graph m)) (marked (gm_bits m))"

lemma wf_marker_new [simp]: "wf_marker (marker_new g)"
  by (simp add: wf_marker_def marker_new_def closed_under_def marked_def)

lemma marked_new [simp]: "marked (atomic_new n) = {}"
  by (simp add: marked_def)

lemma mark_from_sequential_spec:
  assumes "wf_marker m"
  shows "wf_marker (mark_from_sequential m roots)"
    and "gm_graph (mark_from_sequential m roots) = gm_graph m"
    and "marked (gm_bits (mark_from_sequential m roots)) = marked (gm_bits m) \<union>
      reachable (num_sections (gm_graph m)) (graph_edges (gm_graph m)) roots"
proof -
  obtain stack b1 where c: "claim_all (gm_bits m) roots = (stack, b1)" by fastforce
  note spec = mark_from_stack [OF _ _ c, of "graph_edges (gm_graph m)"]
  show "gm_graph (mark_from_sequential m roots) = gm_graph m"
    by (simp add: mark_from_sequential_def c)
  show m: "marked (gm_bits (mark_from_sequential m roots)) = marked (gm_bits m) \<union>
      reachable (num_sections (gm_graph m)) (graph_edges (gm_graph m)) roots"
    using assms spec by (simp add: mark_from_sequential_def c mark_sequential_def wf_marker_def)
  show "wf_marker (mark_from_sequential m roots)"
    unfolding wf_marker_def m
    using assms spec closed_under_reachable
    by (auto simp: mark_from_sequential_def c mark_sequential_def wf_marker_def
        intro!: closed_under_Un)
qed

section \<open>The queries of a live set\<close>

definition wf_live :: "live_set \<Rightarrow> bool" where
  "wf_live l \<longleftrightarrow> wf_bitset (ls_bits l)"

text \<open>The sections of a graph of n sections, in input order.\<close>

definition all_sections :: "nat \<Rightarrow> section_id list" where
  "all_sections n = map of_nat [0..<n]"

lemma collect_new_id:
  "\<forall>i\<in>set is. i \<le> u32_max \<Longrightarrow> collect_options (map new_id is) = Some (map of_nat is)"
  by (auto simp: collect_options_Some new_id_def u32_try_from_def)

lemma all_sections_spec:
  assumes "n \<le> u32_max"
  shows "distinct (all_sections n)" and "set (all_sections n) = {s. id_index s < n}"
proof -
  have idx: "id_index (of_nat i) = i" if "i < n" for i
    using that assms by (intro id_index_of_nat) simp
  show "distinct (all_sections n)"
    unfolding all_sections_def distinct_map
    by (auto intro!: inj_on_inverseI [of _ id_index] idx)
  show "set (all_sections n) = {s. id_index s < n}"
  proof (intro equalityI subsetI)
    fix s assume "s \<in> set (all_sections n)"
    then show "s \<in> {s. id_index s < n}" by (auto simp: all_sections_def idx)
  next
    fix s assume "s \<in> {s. id_index s < n}"
    then have "s = of_nat (id_index s)" "id_index s \<in> set [0..<n]" by auto
    then show "s \<in> set (all_sections n)"
      unfolding all_sections_def set_map by (rule image_eqI)
  qed
qed

lemma filter_all_sections:
  assumes "n \<le> u32_max + 1"
  shows "map of_nat (filter P [0..<n]) = filter (\<lambda>s. P (id_index s)) (all_sections n)"
  unfolding all_sections_def filter_map comp_def
  using assms by (intro arg_cong [where f = "map _"] filter_cong) (auto simp: id_index_of_nat)

lemma live_eq:
  assumes "wf_live l" and "live_num_sections l \<le> u32_max + 1"
  shows "live l = Some (filter (is_live l) (all_sections (live_num_sections l)))"
    and "removed l = Some (filter (\<lambda>s. \<not> is_live l s) (all_sections (live_num_sections l)))"
  using assms
  by (simp_all add: live_def removed_def bitset_ones_eq bitset_zeros_eq wf_live_def collect_new_id
      live_num_sections_def filter_all_sections is_live_def [abs_def])

lemma num_live_eq:
  assumes "wf_live l" and "live_num_sections l \<le> u32_max + 1"
  shows "num_live l = length (filter (is_live l) (all_sections (live_num_sections l)))"
  using assms
  by (simp add: num_live_def count_ones_eq wf_live_def bitset_ones_eq live_num_sections_def
      is_live_def [abs_def] flip: filter_all_sections)

end
