(* ===== verification/GcParallel.thy ===== *)
theory GcParallel
  imports Gc
begin

text \<open>
  The parallel mark (src/src/passes/gc.rs): \<open>mark_from\<close> and \<open>mark_reachable\<close> on a pool of more
  than one thread. Every running \<open>mark_task\<close> (\<open>mark_lazy_task\<close>) is a process with its own stack;
  the thread that opened the scope is a process too, which claims the roots chunk by chunk and
  spawns the first tasks while these already run. One step of the system is one step of any
  process; \<open>AtomicBitSet::set\<close> is two steps, the relaxed load and the \<open>fetch_or\<close>, between which
  every other process may run. A relaxed load may return an old value: the flag \<open>stale\<close> of a step
  lets it miss a bit that is already set (a bit is never cleared, so the converse cannot happen).
\<close>

section \<open>Processes\<close>

text \<open>
  Where a task is: at the head of its loop, or in the loop over the targets of the section it
  popped, with the targets left and the target whose load has just read a clear bit.
\<close>

datatype task_pc = Head | Visit "section_id list" "section_id option"

text \<open>
  A task with its stack, or the scope's own thread: chunks left, claimed roots of this chunk, roots
  of this chunk left, and the root whose load has read a clear bit.
\<close>

datatype gc_proc =
    Task "section_id list" task_pc
  | Spawner "section_id list list" "section_id list" "section_id list" "section_id option"

text \<open>
  One atomic operation of \<open>bits.set(target.index())\<close>: new bits, targets left, pending target,
  and the target if this call won it.
\<close>

definition claim_step :: "bool \<Rightarrow> atomic_bitset \<Rightarrow> section_id list \<Rightarrow> section_id option \<Rightarrow>
    atomic_bitset \<times> section_id list \<times> section_id option \<times> section_id list" where
  "claim_step stale b todo pending =
     (case pending of
        Some t \<Rightarrow>
          let (won, b') = atomic_fetch_or b (id_index t)
          in (b', todo, None, if won then [t] else [])
      | None \<Rightarrow>
          (case todo of
             [] \<Rightarrow> (b, [], None, [])
           | t # ts \<Rightarrow>
               if id_index t \<ge> ab_len b \<or> get_nth (ab_words b) (id_index t div WORD_BITS) = None
               then (b, ts, None, [])
               else if atomic_load b (id_index t) \<and> \<not> stale then (b, ts, None, [])
               else (b, ts, Some t, [])))"

text \<open>
  One step of a process: new bits, the processes it becomes (none when it ends, two when it
  spawns), and the section whose edges it enumerates in this step, if any.
\<close>

fun proc_step :: "nat \<Rightarrow> (section_id \<Rightarrow> section_id list) \<Rightarrow> bool \<Rightarrow> atomic_bitset \<Rightarrow> gc_proc \<Rightarrow>
    atomic_bitset \<times> gc_proc list \<times> section_id list" where
  "proc_step threshold edges stale b (Task stack Head) =
     (if stack = [] then (b, [], [])
      else (b, [Task (butlast stack) (Visit (edges (last stack)) None)], [last stack]))"
| "proc_step threshold edges stale b (Task stack (Visit todo pending)) =
     (if todo = [] \<and> pending = None then
        if length stack > threshold then
          let half = length stack div 2
          in (b, [Task (take half stack) Head, Task (drop half stack) Head], [])
        else (b, [Task stack Head], [])
      else let (b', todo', pending', won) = claim_step stale b todo pending
           in (b', [Task (stack @ won) (Visit todo' pending')], []))"
| "proc_step threshold edges stale b (Spawner chunks stack todo pending) =
     (if todo = [] \<and> pending = None then
        (b, (if stack = [] then [] else [Task stack Head]) @
            (case chunks of [] \<Rightarrow> [] | c # cs \<Rightarrow> [Spawner cs [] c None]), [])
      else let (b', todo', pending', won) = claim_step stale b todo pending
           in (b', [Spawner chunks (stack @ won) todo' pending'], []))"

text \<open>\<open>slice.chunks(k)\<close>.\<close>

function chunks_of :: "nat \<Rightarrow> 'a list \<Rightarrow> 'a list list" where
  "chunks_of k xs = (if k = 0 \<or> xs = [] then [] else take k xs # chunks_of k (drop k xs))"
  by pat_completeness auto
termination
  by (relation "measure (\<lambda>(k, xs). length xs)") auto

declare chunks_of.simps [simp del]

section \<open>The system\<close>

text \<open>\<open>gs_visited\<close> records the sections popped so far; the code does not keep it.\<close>

record gc_state =
  gs_bits :: atomic_bitset
  gs_procs :: "gc_proc list"
  gs_visited :: "section_id list"

definition gc_step_at :: "nat \<Rightarrow> (section_id \<Rightarrow> section_id list) \<Rightarrow> nat \<Rightarrow> bool \<Rightarrow> gc_state \<Rightarrow> gc_state" where
  "gc_step_at threshold edges i stale s =
     (let (b, new, popped) = proc_step threshold edges stale (gs_bits s) (gs_procs s ! i)
      in \<lparr>gs_bits = b, gs_procs = take i (gs_procs s) @ new @ drop (Suc i) (gs_procs s),
          gs_visited = gs_visited s @ popped\<rparr>)"

inductive gc_step :: "nat \<Rightarrow> (section_id \<Rightarrow> section_id list) \<Rightarrow> gc_state \<Rightarrow> gc_state \<Rightarrow> bool"
  for threshold edges where
  step: "i < length (gs_procs s) \<Longrightarrow> gc_step threshold edges s (gc_step_at threshold edges i stale s)"

inductive_cases gc_stepE: "gc_step threshold edges s s'"

text \<open>The state when the scope opens.\<close>

definition scope_start :: "nat \<Rightarrow> atomic_bitset \<Rightarrow> section_id list \<Rightarrow> gc_state" where
  "scope_start threshold b roots =
     \<lparr>gs_bits = b,
      gs_procs = (case chunks_of threshold roots of [] \<Rightarrow> [] | c # cs \<Rightarrow> [Spawner cs [] c None]),
      gs_visited = []\<rparr>"

text \<open>The scope returns when every process has ended.\<close>

definition scope_ends :: "nat \<Rightarrow> (section_id \<Rightarrow> section_id list) \<Rightarrow> atomic_bitset \<Rightarrow> section_id list \<Rightarrow>
    gc_state \<Rightarrow> bool" where
  "scope_ends threshold edges b roots s \<longleftrightarrow>
     (gc_step threshold edges)\<^sup>*\<^sup>* (scope_start threshold b roots) s \<and> gs_procs s = []"

text \<open>The outcomes of \<open>mark_from\<close>, \<open>collect_garbage\<close> and \<open>mark_reachable\<close> on any pool.\<close>

inductive mark_from :: "gc_marker \<Rightarrow> section_id list \<Rightarrow> gc_marker \<Rightarrow> bool" where
  one_thread: "mark_from m roots (mark_from_sequential m roots)"
| many_threads: "scope_ends SPLIT_THRESHOLD (graph_edges (gm_graph m)) (gm_bits m) roots s \<Longrightarrow>
    mark_from m roots (m\<lparr>gm_bits := gs_bits s\<rparr>)"

inductive collect_garbage :: "section_graph \<Rightarrow> live_set \<Rightarrow> bool" where
  "mark_from (marker_new g) (sg_roots g) m \<Longrightarrow> collect_garbage g (finish m)"

inductive mark_reachable :: "usize \<Rightarrow> section_id list \<Rightarrow> (section_id \<Rightarrow> section_id list) \<Rightarrow>
    live_set \<Rightarrow> bool" where
  lazy_one_thread: "mark_reachable n roots edges (mark_reachable_sequential n roots edges)"
| lazy_many_threads: "scope_ends LAZY_SPLIT_THRESHOLD edges (atomic_new n) roots s \<Longrightarrow>
    mark_reachable n roots edges \<lparr>ls_bits = into_bitset (gs_bits s)\<rparr>"

section \<open>The effect of one step\<close>

fun stack_of :: "gc_proc \<Rightarrow> section_id list" where
  "stack_of (Task stack pc) = stack"
| "stack_of (Spawner chunks stack todo pending) = stack"

fun pending_of :: "gc_proc \<Rightarrow> section_id option" where
  "pending_of (Task stack Head) = None"
| "pending_of (Task stack (Visit todo pending)) = pending"
| "pending_of (Spawner chunks stack todo pending) = pending"

fun todo_of :: "gc_proc \<Rightarrow> section_id set" where
  "todo_of (Task stack Head) = {}"
| "todo_of (Task stack (Visit todo pending)) = set_option pending \<union> set todo"
| "todo_of (Spawner chunks stack todo pending) =
     set_option pending \<union> set todo \<union> \<Union> (set ` set chunks)"

definition stacks :: "gc_proc list \<Rightarrow> section_id multiset" where
  "stacks ps = mset (concat (map stack_of ps))"

definition todos :: "gc_proc list \<Rightarrow> section_id set" where
  "todos ps = \<Union> (todo_of ` set ps)"

definition pending_ok :: "nat \<Rightarrow> gc_proc list \<Rightarrow> bool" where
  "pending_ok n ps \<longleftrightarrow> (\<forall>p\<in>set ps. \<forall>t\<in>set_option (pending_of p). id_index t < n)"

lemma stacks_simps [simp]:
  "stacks [] = {#}" "stacks (p # ps) = mset (stack_of p) + stacks ps"
  "stacks (ps @ qs) = stacks ps + stacks qs"
  by (auto simp: stacks_def)

lemma todos_simps [simp]:
  "todos [] = {}" "todos (p # ps) = todo_of p \<union> todos ps" "todos (ps @ qs) = todos ps \<union> todos qs"
  by (auto simp: todos_def)

lemma pending_ok_simps [simp]:
  "pending_ok n []"
  "pending_ok n (p # ps) \<longleftrightarrow> (\<forall>t\<in>set_option (pending_of p). id_index t < n) \<and> pending_ok n ps"
  "pending_ok n (ps @ qs) \<longleftrightarrow> pending_ok n ps \<and> pending_ok n qs"
  by (auto simp: pending_ok_def)

text \<open>The four things a step can do to marks, stacks, targets left and visited sections.\<close>

inductive effect :: "(section_id \<Rightarrow> section_id list) \<Rightarrow> nat \<Rightarrow> atomic_bitset \<Rightarrow> gc_proc list \<Rightarrow>
    atomic_bitset \<Rightarrow> gc_proc list \<Rightarrow> section_id list \<Rightarrow> bool"
  for edges n where
  move: "stacks ps' = stacks ps \<Longrightarrow> todos ps' = todos ps \<Longrightarrow> effect edges n b ps b ps' []"
| pop: "stacks ps = add_mset s (stacks ps') \<Longrightarrow> todos ps' = todos ps \<union> set (edges s) \<Longrightarrow>
    effect edges n b ps b ps' [s]"
| skip: "stacks ps' = stacks ps \<Longrightarrow> todos ps = insert t (todos ps') \<Longrightarrow>
    n \<le> id_index t \<or> t \<in> marked b \<Longrightarrow> effect edges n b ps b ps' []"
| win: "stacks ps' = add_mset t (stacks ps) \<Longrightarrow> todos ps = insert t (todos ps') \<Longrightarrow>
    id_index t < n \<Longrightarrow> t \<notin> marked b \<Longrightarrow> marked b' = insert t (marked b) \<Longrightarrow>
    wf_atomic b' \<Longrightarrow> ab_len b' = n \<Longrightarrow> effect edges n b ps b' ps' []"

lemma atomic_fetch_or_same:
  assumes "\<not> fst (atomic_fetch_or b i)"
  shows "snd (atomic_fetch_or b i) = b"
proof -
  let ?w = "ab_words b ! (i div WORD_BITS)"
  have "bit ?w (i mod WORD_BITS)"
    using assms by (simp add: atomic_fetch_or_def Let_def and_bit_mask)
  then have "?w OR bit_mask i = ?w"
    by (intro bit_word_eqI) (auto simp: bit_or_bit_mask simp del: bit_or_iff)
  then show ?thesis by (simp add: atomic_fetch_or_def Let_def)
qed

lemma claim_step_cases:
  assumes "wf_atomic b" and "ab_len b = n" and "\<forall>t\<in>set_option pending. id_index t < n"
    and "claim_step stale b todo pending = (b', todo', pending', won)"
    and "todo \<noteq> [] \<or> pending \<noteq> None"
  shows "(\<forall>t\<in>set_option pending'. id_index t < n) \<and>
    (b' = b \<and> won = [] \<and> set_option pending' \<union> set todo' = set_option pending \<union> set todo \<or>
     (\<exists>t. b' = b \<and> won = [] \<and> set_option pending \<union> set todo = insert t (set_option pending' \<union> set todo') \<and>
       (n \<le> id_index t \<or> t \<in> marked b)) \<or>
     (\<exists>t. won = [t] \<and> set_option pending \<union> set todo = insert t (set_option pending' \<union> set todo') \<and>
       id_index t < n \<and> t \<notin> marked b \<and> marked b' = insert t (marked b) \<and> wf_atomic b' \<and> ab_len b' = n))"
proof (cases pending)
  case (Some t)
  then have t: "id_index t < ab_len b" using assms(2,3) by simp
  note fo = atomic_fetch_or_get [OF assms(1) t]
  have "snd (atomic_fetch_or b (id_index t)) = b" if "t \<in> marked b"
    using that fo(4) by (intro atomic_fetch_or_same) (simp add: marked_def)
  then show ?thesis
    using Some assms(4) t assms(2) fo
    by (auto simp: claim_step_def case_prod_beta marked_def)
next
  case None
  with assms(5) obtain t ts where todo: "todo = t # ts" by (cases todo) auto
  have word: "get_nth (ab_words b) (id_index t div WORD_BITS) \<noteq> None" if "id_index t < n"
    using assms(1,2) that by (simp add: wf_atomic_def nth_in_words)
  have load: "t \<in> marked b" if "id_index t < n" "atomic_load b (id_index t)"
    using assms(1,2) that by (simp add: marked_def atomic_get_bit atomic_load_def and_bit_mask)
  show ?thesis
    using None assms(2,4) word load unfolding todo claim_step_def
    by (cases "id_index t < n"; cases "atomic_load b (id_index t) \<and> \<not> stale") auto
qed

text \<open>A claim step of a process whose stack and remaining targets change as the step says.\<close>

lemma claim_effect:
  assumes "wf_atomic b" and "ab_len b = n" and "\<forall>t\<in>set_option pending. id_index t < n"
    and "claim_step stale b todo pending = (b', todo', pending', won)"
    and "todo \<noteq> [] \<or> pending \<noteq> None"
    and "stack_of p' = stack_of p @ won"
    and "todo_of p = set_option pending \<union> set todo \<union> R"
    and "todo_of p' = set_option pending' \<union> set todo' \<union> R"
    and "pending_of p' = pending'"
  shows "effect edges n b [p] b' [p'] [] \<and> pending_ok n [p']"
proof -
  note cases = claim_step_cases [OF assms(1-5)]
  then have ok: "pending_ok n [p']" using assms(9) by simp
  from cases consider
    (same) "b' = b" "won = []" "set_option pending' \<union> set todo' = set_option pending \<union> set todo"
  | (skip) t where "b' = b" "won = []" "n \<le> id_index t \<or> t \<in> marked b"
      "set_option pending \<union> set todo = insert t (set_option pending' \<union> set todo')"
  | (win) t where "won = [t]" "id_index t < n" "t \<notin> marked b" "marked b' = insert t (marked b)"
      "wf_atomic b'" "ab_len b' = n"
      "set_option pending \<union> set todo = insert t (set_option pending' \<union> set todo')"
    by blast
  then have "effect edges n b [p] b' [p'] []"
  proof cases
    case same
    with assms(6-8) show ?thesis by (auto intro: effect.move)
  next
    case (skip t)
    with assms(6-8) show ?thesis by (auto intro!: effect.skip [where t = t])
  next
    case (win t)
    with assms(6-8) show ?thesis by (auto intro!: effect.win [where t = t])
  qed
  with ok show ?thesis by simp
qed

lemma proc_step_effect:
  assumes "wf_atomic b" and "ab_len b = n" and "pending_ok n [p]"
    and "proc_step threshold edges stale b p = (b', new, popped)"
  shows "effect edges n b [p] b' new popped \<and> pending_ok n new"
proof (cases p)
  case (Task stack pc)
  show ?thesis
  proof (cases pc)
    case Head
    show ?thesis
    proof (cases "stack = []")
      case True
      then show ?thesis using Task Head assms(4) by (auto intro: effect.move)
    next
      case False
      then have "mset stack = add_mset (last stack) (mset (butlast stack))"
        by (metis append_butlast_last_id mset_append mset.simps union_mset_add_mset_right add.right_neutral)
      then show ?thesis using False Task Head assms(4) by (auto intro: effect.pop)
    qed
  next
    case (Visit todo pending)
    show ?thesis
    proof (cases "todo = [] \<and> pending = None")
      case True
      have "mset stack = mset (take k stack) + mset (drop k stack)" for k
        by (metis append_take_drop_id mset_append)
      with True show ?thesis
        using Task Visit assms(4) by (auto simp: Let_def intro!: effect.move split: if_splits)
    next
      case False
      obtain todo' pending' won where c: "claim_step stale b todo pending = (b', todo', pending', won)"
        and new: "new = [Task (stack @ won) (Visit todo' pending')]" "popped = []"
        using False Task Visit assms(4) by (auto split: prod.splits if_splits)
      show ?thesis
        unfolding new
        by (rule claim_effect [OF assms(1,2) _ c, where p = p and R = "{}"]) (use False assms(3) Task Visit in auto)
    qed
  qed
next
  case (Spawner chunks stack todo pending)
  show ?thesis
  proof (cases "todo = [] \<and> pending = None")
    case True
    then show ?thesis
      using Spawner assms(4) by (auto intro!: effect.move split: list.splits if_splits)
  next
    case False
    obtain todo' pending' won where c: "claim_step stale b todo pending = (b', todo', pending', won)"
      and new: "new = [Spawner chunks (stack @ won) todo' pending']" "popped = []"
      using False Spawner assms(4) by (auto split: prod.splits if_splits)
    show ?thesis
      unfolding new
      by (rule claim_effect [OF assms(1,2) _ c, where p = p and R = "\<Union> (set ` set chunks)"])
        (use False assms(3) Spawner in auto)
  qed
qed

section \<open>The invariant of the parallel mark\<close>

lemma effect_frame:
  "effect edges n b [p] b' new popped \<Longrightarrow>
     effect edges n b (pre @ p # post) b' (pre @ new @ post) popped"
proof (induction b "[p]" b' new popped rule: effect.induct)
  case (move ps' b)
  then show ?case by (intro effect.move) auto
next
  case (pop s ps' b)
  then show ?case by (intro effect.pop) (auto simp: ac_simps)
next
  case (skip ps' t b)
  then show ?case by (intro effect.skip [where t = t]) auto
next
  case (win ps' t b b')
  then show ?case by (intro effect.win [where t = t]) auto
qed

lemma distinct_if_count_le: "\<forall>x. count (mset xs) x \<le> Suc 0 \<Longrightarrow> distinct xs"
proof (induction xs)
  case (Cons y ys)
  from Cons.prems have "count (mset ys) x \<le> Suc 0" for x
    by (metis count_add_mset le_SucI le_trans mset.simps(2) order_refl)
  moreover have "count (mset ys) y = 0"
    using Cons.prems [rule_format, of y] by simp
  ultimately show ?case using Cons.IH by (simp add: count_eq_zero_iff)
qed simp

text \<open>
  With X the sections marked before: a section is on a stack or visited exactly once, and these
  and X are the marked ones; every target of a visited section, and every root, is marked or still
  to be looked at; and nothing is marked that a closed set holding X and the roots lacks.
\<close>

definition inv_marks :: "nat \<Rightarrow> section_id set \<Rightarrow> atomic_bitset \<Rightarrow> gc_proc list \<Rightarrow> section_id list \<Rightarrow> bool" where
  "inv_marks n X b ps visited \<longleftrightarrow>
     wf_atomic b \<and> ab_len b = n \<and>
     marked b = X \<union> set visited \<union> set_mset (stacks ps) \<and>
     (\<forall>s. count (mset visited + stacks ps) s \<le> 1) \<and>
     X \<inter> (set visited \<union> set_mset (stacks ps)) = {}"

definition inv_covers :: "(section_id \<Rightarrow> section_id list) \<Rightarrow> nat \<Rightarrow> section_id list \<Rightarrow>
    atomic_bitset \<Rightarrow> gc_proc list \<Rightarrow> section_id list \<Rightarrow> bool" where
  "inv_covers edges n roots b ps visited \<longleftrightarrow>
     (\<forall>t\<in>set roots \<union> \<Union> ((set \<circ> edges) ` set visited). id_index t < n \<longrightarrow> t \<in> marked b \<union> todos ps)"

definition inv_sound :: "(section_id \<Rightarrow> section_id list) \<Rightarrow> nat \<Rightarrow> section_id set \<Rightarrow> section_id list \<Rightarrow>
    atomic_bitset \<Rightarrow> gc_proc list \<Rightarrow> bool" where
  "inv_sound edges n X roots b ps \<longleftrightarrow>
     (\<forall>C. closed_under n edges C \<longrightarrow> X \<subseteq> C \<longrightarrow> (\<forall>r\<in>set roots. id_index r < n \<longrightarrow> r \<in> C) \<longrightarrow>
        marked b \<subseteq> C \<and> (\<forall>t\<in>todos ps. id_index t < n \<longrightarrow> t \<in> C))"

lemma effect_inv_marks:
  assumes "effect edges n b ps b' ps' popped" and "inv_marks n X b ps visited"
  shows "inv_marks n X b' ps' (visited @ popped)"
  using assms
proof (induction rule: effect.induct)
  case (win ps' t ps b b')
  have fresh: "t \<notin> X" "t \<notin> set visited" "t \<notin># stacks ps"
    using win.prems win.hyps(4) by (auto simp: inv_marks_def)
  then have "count (mset visited) t = 0" "count (stacks ps) t = 0"
    by (simp_all add: count_eq_zero_iff)
  then show ?case
    using fresh win.prems win.hyps(1,5,6,7) by (auto simp: inv_marks_def)
qed (auto simp: inv_marks_def)

lemma effect_inv_covers:
  assumes "effect edges n b ps b' ps' popped" and "inv_covers edges n roots b ps visited"
  shows "inv_covers edges n roots b' ps' (visited @ popped)"
  using assms by (induction rule: effect.induct) (auto simp: inv_covers_def)

lemma effect_inv_sound:
  assumes "effect edges n b ps b' ps' popped" and "inv_sound edges n X roots b ps"
    and "set_mset (stacks ps) \<subseteq> marked b"
  shows "inv_sound edges n X roots b' ps'"
  using assms
proof (induction rule: effect.induct)
  case (pop ps s ps' b)
  have "s \<in> marked b" using pop.hyps(1) pop.prems(2) by auto
  with pop show ?case
    unfolding inv_sound_def closed_under_def by blast
next
  case (win ps' t ps b b')
  then show ?case
    unfolding inv_sound_def by (metis insertI1 insert_subset insert_iff)
qed (auto simp: inv_sound_def)

definition gc_inv :: "(section_id \<Rightarrow> section_id list) \<Rightarrow> nat \<Rightarrow> section_id set \<Rightarrow> section_id list \<Rightarrow>
    atomic_bitset \<Rightarrow> gc_proc list \<Rightarrow> section_id list \<Rightarrow> bool" where
  "gc_inv edges n X roots b ps visited \<longleftrightarrow> inv_marks n X b ps visited \<and>
     inv_covers edges n roots b ps visited \<and> inv_sound edges n X roots b ps"

lemma effect_inv:
  assumes "effect edges n b ps b' ps' popped" and "gc_inv edges n X roots b ps visited"
  shows "gc_inv edges n X roots b' ps' (visited @ popped)"
proof -
  have "set_mset (stacks ps) \<subseteq> marked b"
    using assms(2) by (auto simp: gc_inv_def inv_marks_def)
  with assms(2) show ?thesis
    using effect_inv_marks [OF assms(1)] effect_inv_covers [OF assms(1)] effect_inv_sound [OF assms(1)]
    by (simp add: gc_inv_def)
qed

definition gc_ok :: "(section_id \<Rightarrow> section_id list) \<Rightarrow> nat \<Rightarrow> section_id set \<Rightarrow> section_id list \<Rightarrow>
    gc_state \<Rightarrow> bool" where
  "gc_ok edges n X roots s \<longleftrightarrow> pending_ok n (gs_procs s) \<and>
     gc_inv edges n X roots (gs_bits s) (gs_procs s) (gs_visited s)"

lemma gc_ok_wf: "gc_ok edges n X roots s \<Longrightarrow> wf_atomic (gs_bits s) \<and> ab_len (gs_bits s) = n"
  by (simp add: gc_ok_def gc_inv_def inv_marks_def)

lemma gc_step_ok:
  assumes "gc_ok edges n X roots s" and "gc_step threshold edges s s'"
  shows "gc_ok edges n X roots s'"
  using assms(2)
proof (rule gc_stepE)
  fix i stale
  assume s': "s' = gc_step_at threshold edges i stale s" and i: "i < length (gs_procs s)"
  let ?ps = "gs_procs s" and ?p = "gs_procs s ! i"
  obtain b' new popped where p: "proc_step threshold edges stale (gs_bits s) ?p = (b', new, popped)"
    by (metis prod_cases3)
  have split: "?ps = take i ?ps @ ?p # drop (Suc i) ?ps"
    using i by (rule id_take_nth_drop)
  have pend: "pending_ok n (take i ?ps @ ?p # drop (Suc i) ?ps)"
    using assms(1) split by (simp add: gc_ok_def)
  then have "effect edges n (gs_bits s) [?p] b' new popped \<and> pending_ok n new"
    using gc_ok_wf [OF assms(1)] p by (intro proc_step_effect) auto
  then have eff: "effect edges n (gs_bits s) [?p] b' new popped" and new: "pending_ok n new" by auto
  have "gc_inv edges n X roots (gs_bits s) (take i ?ps @ ?p # drop (Suc i) ?ps) (gs_visited s)"
    using assms(1) split by (simp add: gc_ok_def)
  from effect_inv [OF effect_frame [OF eff] this] new pend show ?thesis
    by (simp add: s' gc_step_at_def p gc_ok_def)
qed

lemma gc_steps_ok:
  "(gc_step threshold edges)\<^sup>*\<^sup>* s s' \<Longrightarrow> gc_ok edges n X roots s \<Longrightarrow> gc_ok edges n X roots s'"
  by (induction rule: rtranclp_induct) (auto intro: gc_step_ok)

lemma chunks_of_concat: "0 < k \<Longrightarrow> concat (chunks_of k xs) = xs"
  by (induction k xs rule: chunks_of.induct) (subst chunks_of.simps, auto)

lemma scope_start_ok:
  assumes "wf_atomic b" and "closed_under (ab_len b) edges (marked b)" and "0 < threshold"
  shows "gc_ok edges (ab_len b) (marked b) roots (scope_start threshold b roots)"
proof -
  let ?ps = "gs_procs (scope_start threshold b roots)"
  have bits: "gs_bits (scope_start threshold b roots) = b" "gs_visited (scope_start threshold b roots) = []"
    by (simp_all add: scope_start_def)
  have "todos ?ps = set (concat (chunks_of threshold roots))"
    by (auto simp: scope_start_def split: list.splits)
  then have "todos ?ps = set roots"
    by (simp only: chunks_of_concat [OF assms(3)])
  moreover have "stacks ?ps = {#}" "pending_ok (ab_len b) ?ps"
    by (auto simp: scope_start_def split: list.splits)
  ultimately show ?thesis
    using assms(1)
    unfolding gc_ok_def gc_inv_def inv_marks_def inv_covers_def inv_sound_def bits
    by auto
qed

section \<open>Every outcome is the reachable set\<close>

lemma gc_ok_end:
  assumes "gc_ok edges n X roots s" and "gs_procs s = []" and "closed_under n edges X"
  shows "marked (gs_bits s) = X \<union> reachable n edges roots" and "distinct (gs_visited s)"
    and "set (gs_visited s) = reachable n edges roots - X"
proof -
  have inv: "gc_inv edges n X roots (gs_bits s) [] (gs_visited s)"
    using assms(1,2) by (simp add: gc_ok_def)
  then have m: "marked (gs_bits s) = X \<union> set (gs_visited s)"
    and dis: "X \<inter> set (gs_visited s) = {}"
    and roots: "\<forall>r\<in>set roots. id_index r < n \<longrightarrow> r \<in> marked (gs_bits s)"
    and vis: "\<forall>s'\<in>set (gs_visited s). \<forall>t\<in>set (edges s'). id_index t < n \<longrightarrow> t \<in> marked (gs_bits s)"
    by (auto simp: gc_inv_def inv_marks_def inv_covers_def)
  have least: "marked (gs_bits s) \<subseteq> C" if "closed_under n edges C" "X \<subseteq> C"
    "\<forall>r\<in>set roots. id_index r < n \<longrightarrow> r \<in> C" for C
    using inv that unfolding gc_inv_def inv_sound_def by blast
  have "closed_under n edges (marked (gs_bits s))"
    unfolding closed_under_def
  proof (intro ballI impI)
    fix u t assume "u \<in> marked (gs_bits s)" "t \<in> set (edges u)" "id_index t < n"
    then show "t \<in> marked (gs_bits s)"
      using assms(3) vis unfolding closed_under_def m by blast
  qed
  then show r: "marked (gs_bits s) = X \<union> reachable n edges roots"
    using assms(3) m roots least by (intro least_closed_is_reach) auto
  show "set (gs_visited s) = reachable n edges roots - X"
    using m r dis by auto
  show "distinct (gs_visited s)"
    using inv by (auto simp: gc_inv_def inv_marks_def intro!: distinct_if_count_le)
qed

lemma scope_ends_marks:
  assumes "wf_atomic b" and "closed_under (ab_len b) edges (marked b)" and "0 < threshold"
    and "scope_ends threshold edges b roots s"
  shows "wf_atomic (gs_bits s)" "ab_len (gs_bits s) = ab_len b"
    "marked (gs_bits s) = marked b \<union> reachable (ab_len b) edges roots"
    "distinct (gs_visited s)" "set (gs_visited s) = reachable (ab_len b) edges roots - marked b"
proof -
  have ok: "gc_ok edges (ab_len b) (marked b) roots s"
    using assms gc_steps_ok [OF _ scope_start_ok [OF assms(1-3)]] by (auto simp: scope_ends_def)
  show "wf_atomic (gs_bits s)" "ab_len (gs_bits s) = ab_len b"
    using gc_ok_wf [OF ok] by auto
  show "marked (gs_bits s) = marked b \<union> reachable (ab_len b) edges roots"
    "distinct (gs_visited s)" "set (gs_visited s) = reachable (ab_len b) edges roots - marked b"
    using gc_ok_end [OF ok _ assms(2)] assms(4) by (auto simp: scope_ends_def)
qed

section \<open>The parallel mark ends\<close>

text \<open>
  The work left: every target costs a load and perhaps a \<open>fetch_or\<close>, every section on a stack its
  pop and its targets, every process its end. A step lowers it or clears one bit less.
\<close>

definition section_cost :: "(section_id \<Rightarrow> section_id list) \<Rightarrow> section_id \<Rightarrow> nat" where
  "section_cost edges s = 2 * length (edges s) + 4"

definition stack_cost :: "(section_id \<Rightarrow> section_id list) \<Rightarrow> section_id list \<Rightarrow> nat" where
  "stack_cost edges stack = sum_list (map (section_cost edges) stack)"

definition claim_cost :: "section_id list \<Rightarrow> section_id option \<Rightarrow> nat" where
  "claim_cost todo pending = 2 * length todo + (if pending = None then 0 else 1)"

fun proc_cost :: "(section_id \<Rightarrow> section_id list) \<Rightarrow> gc_proc \<Rightarrow> nat" where
  "proc_cost edges (Task stack Head) = stack_cost edges stack + 1"
| "proc_cost edges (Task stack (Visit todo pending)) = stack_cost edges stack + claim_cost todo pending + 3"
| "proc_cost edges (Spawner chunks stack todo pending) =
     stack_cost edges stack + claim_cost todo pending + 2 + sum_list (map (\<lambda>c. 2 * length c + 2) chunks)"

definition procs_cost :: "(section_id \<Rightarrow> section_id list) \<Rightarrow> gc_proc list \<Rightarrow> nat" where
  "procs_cost edges ps = sum_list (map (proc_cost edges) ps)"

lemma stack_cost_append [simp]:
  "stack_cost edges (xs @ ys) = stack_cost edges xs + stack_cost edges ys"
  by (simp add: stack_cost_def)

lemma fetch_or_clear_bits:
  assumes "wf_atomic b" and "i < ab_len b" and "\<not> atomic_get b i"
  shows "clear_bits (snd (atomic_fetch_or b i)) < clear_bits b"
  unfolding clear_bits_def atomic_fetch_or_get [OF assms(1,2)]
  using assms(2,3) by (intro psubset_card_mono) auto

lemma claim_step_cost:
  assumes "wf_atomic b" and "\<forall>t\<in>set_option pending. id_index t < ab_len b"
    and "claim_step stale b todo pending = (b', todo', pending', won)"
    and "todo \<noteq> [] \<or> pending \<noteq> None"
  shows "clear_bits b' < clear_bits b \<or>
    b' = b \<and> won = [] \<and> claim_cost todo' pending' < claim_cost todo pending"
proof (cases pending)
  case (Some t)
  then have t: "id_index t < ab_len b" using assms(2) by simp
  show ?thesis
  proof (cases "atomic_get b (id_index t)")
    case True
    then show ?thesis
      using Some assms(3) atomic_fetch_or_get(4) [OF assms(1) t]
        atomic_fetch_or_same [of b "id_index t"]
      by (auto simp: claim_step_def case_prod_beta claim_cost_def)
  next
    case False
    then show ?thesis
      using Some assms(3) fetch_or_clear_bits [OF assms(1) t]
      by (auto simp: claim_step_def case_prod_beta)
  qed
next
  case None
  then show ?thesis
    using assms(3,4) by (auto simp: claim_step_def claim_cost_def split: list.splits if_splits)
qed

lemma proc_step_cost:
  assumes "wf_atomic b" and "pending_ok (ab_len b) [p]"
    and "proc_step threshold edges stale b p = (b', new, popped)"
  shows "clear_bits b' < clear_bits b \<or> b' = b \<and> procs_cost edges new < proc_cost edges p"
proof (cases p)
  case (Task stack pc)
  show ?thesis
  proof (cases pc)
    case Head
    then show ?thesis
      using Task assms(3)
      by (cases stack rule: rev_cases)
        (auto simp: procs_cost_def stack_cost_def section_cost_def claim_cost_def)
  next
    case (Visit todo pending)
    have half: "stack_cost edges stack = stack_cost edges (take k stack) + stack_cost edges (drop k stack)" for k
      by (metis append_take_drop_id stack_cost_append)
    show ?thesis
      using Task Visit assms(3) half [of "length stack div 2"]
        claim_step_cost [OF assms(1), of pending stale todo] assms(2)
      by (fastforce simp: procs_cost_def Let_def split: if_splits prod.splits)
  qed
next
  case (Spawner chunks stack todo pending)
  show ?thesis
  proof (cases "todo = [] \<and> pending = None")
    case True
    then show ?thesis
      using Spawner assms(3)
      by (auto simp: procs_cost_def claim_cost_def stack_cost_def split: if_splits list.splits)
  next
    case False
    then show ?thesis
      using Spawner assms(3) claim_step_cost [OF assms(1), of pending stale todo] assms(2)
      by (fastforce simp: procs_cost_def split: prod.splits)
  qed
qed

definition gc_order :: "(section_id \<Rightarrow> section_id list) \<Rightarrow> (gc_state \<times> gc_state) set" where
  "gc_order edges = (\<lambda>s. clear_bits (gs_bits s)) <*mlex*> measure (\<lambda>s. procs_cost edges (gs_procs s))"

lemma wf_gc_order: "wf (gc_order edges)"
  unfolding gc_order_def by (intro wf_mlex) simp

lemma gc_step_decreases:
  assumes "gc_ok edges n X roots s" and "gc_step threshold edges s s'"
  shows "(s', s) \<in> gc_order edges"
  using assms(2)
proof (rule gc_stepE)
  fix i stale
  assume s': "s' = gc_step_at threshold edges i stale s" and i: "i < length (gs_procs s)"
  let ?ps = "gs_procs s" and ?p = "gs_procs s ! i"
  obtain b' new popped where p: "proc_step threshold edges stale (gs_bits s) ?p = (b', new, popped)"
    by (metis prod_cases3)
  have split: "?ps = take i ?ps @ ?p # drop (Suc i) ?ps"
    using i by (rule id_take_nth_drop)
  have "pending_ok n [?p]"
    using assms(1) i by (auto simp: gc_ok_def pending_ok_def)
  then have dec: "clear_bits b' < clear_bits (gs_bits s) \<or>
      b' = gs_bits s \<and> procs_cost edges new < proc_cost edges ?p"
    using gc_ok_wf [OF assms(1)] p by (intro proc_step_cost) auto
  have "procs_cost edges ?ps =
      procs_cost edges (take i ?ps) + proc_cost edges ?p + procs_cost edges (drop (Suc i) ?ps)"
    by (subst split) (simp add: procs_cost_def)
  then show ?thesis
    using dec by (auto simp: s' gc_step_at_def p gc_order_def mlex_prod_def procs_cost_def)
qed

lemma gc_progress: "gs_procs s \<noteq> [] \<Longrightarrow> \<exists>s'. gc_step threshold edges s s'"
  by (auto intro: gc_step.step)

lemma gc_no_infinite_run:
  assumes "gc_ok edges n X roots (f 0)"
  shows "\<exists>i. \<not> gc_step threshold edges (f i) (f (Suc i))"
proof (rule ccontr)
  assume "\<nexists>i. \<not> gc_step threshold edges (f i) (f (Suc i))"
  then have run: "gc_step threshold edges (f i) (f (Suc i))" for i by blast
  have "gc_ok edges n X roots (f i)" for i
    by (induction i) (auto intro: assms gc_step_ok run)
  then have "(f (Suc i), f i) \<in> gc_order edges" for i
    using gc_step_decreases run by blast
  then show False
    using wf_gc_order [of edges] unfolding wf_iff_no_infinite_down_chain by blast
qed

lemma gc_run_ends:
  assumes "gc_ok edges n X roots s"
  shows "\<exists>s'. (gc_step threshold edges)\<^sup>*\<^sup>* s s' \<and> gs_procs s' = []"
  using wf_gc_order [of edges] assms
proof (induction s rule: wf_induct_rule)
  case (less s)
  show ?case
  proof (cases "gs_procs s = []")
    case True
    then show ?thesis by blast
  next
    case False
    then obtain s' where s': "gc_step threshold edges s s'" using gc_progress by blast
    then obtain s'' where "(gc_step threshold edges)\<^sup>*\<^sup>* s' s''" "gs_procs s'' = []"
      using less gc_step_decreases gc_step_ok by blast
    with s' show ?thesis by (meson converse_rtranclp_into_rtranclp)
  qed
qed

section \<open>The outcomes of the entry points\<close>

lemma thresholds_pos [simp]: "0 < SPLIT_THRESHOLD" "0 < LAZY_SPLIT_THRESHOLD"
  by (simp_all add: SPLIT_THRESHOLD_def LAZY_SPLIT_THRESHOLD_def)

lemma mark_from_spec:
  assumes "mark_from m roots m'" and "wf_marker m"
  shows "wf_marker m' \<and> gm_graph m' = gm_graph m \<and> marked (gm_bits m') = marked (gm_bits m) \<union>
      reachable (num_sections (gm_graph m)) (graph_edges (gm_graph m)) roots"
  using assms(1)
proof cases
  case one_thread
  then show ?thesis using mark_from_sequential_spec [OF assms(2)] by simp
next
  case (many_threads s)
  let ?n = "num_sections (gm_graph m)" and ?E = "graph_edges (gm_graph m)"
  have wf: "wf_atomic (gm_bits m)" "ab_len (gm_bits m) = ?n" "closed_under ?n ?E (marked (gm_bits m))"
    using assms(2) by (simp_all add: wf_marker_def)
  note spec = scope_ends_marks [OF wf(1) _ thresholds_pos(1) many_threads(2), unfolded wf(2), OF wf(3)]
  have "closed_under ?n ?E (marked (gs_bits s))"
    unfolding spec(3) by (intro closed_under_Un closed_under_reachable wf(3))
  with spec(1-3) many_threads(1) show ?thesis
    by (simp add: wf_marker_def)
qed

lemma finish_live: "wf_marker m \<Longrightarrow> wf_live (finish m) \<and>
    live_num_sections (finish m) = num_sections (gm_graph m) \<and>
    {s. is_live (finish m) s} = marked (gm_bits m)"
  by (simp add: finish_def wf_live_def live_num_sections_def is_live_def marked_def wf_marker_def)

lemma collect_garbage_spec:
  assumes "collect_garbage g l"
  shows "wf_live l \<and> live_num_sections l = num_sections g \<and>
    {s. is_live l s} = reachable (num_sections g) (graph_edges g) (sg_roots g)"
  using assms
proof cases
  case (1 m)
  from mark_from_spec [OF 1(2) wf_marker_new] finish_live [of m] 1(1)
  show ?thesis by (simp add: marker_new_def)
qed

lemma mark_reachable_spec:
  assumes "mark_reachable n roots edges l"
  shows "wf_live l \<and> live_num_sections l = n \<and> {s. is_live l s} = reachable n edges roots"
  using assms
proof cases
  case lazy_one_thread
  obtain stack b where c: "claim_all (atomic_new n) roots = (stack, b)" by fastforce
  from mark_from_stack [OF wf_atomic_new _ c, of edges] lazy_one_thread
  show ?thesis
    by (simp add: mark_reachable_sequential_def c wf_live_def live_num_sections_def is_live_def
        closed_under_def flip: marked_def)
next
  case (lazy_many_threads s)
  from scope_ends_marks [OF wf_atomic_new _ thresholds_pos(2) lazy_many_threads(2)] lazy_many_threads(1)
  show ?thesis
    by (simp add: wf_live_def live_num_sections_def is_live_def closed_under_def flip: marked_def)
qed

section \<open>Running a schedule\<close>

text \<open>A schedule names the process to step and whether its load is stale.\<close>

fun run_schedule :: "nat \<Rightarrow> (section_id \<Rightarrow> section_id list) \<Rightarrow> (nat \<times> bool) list \<Rightarrow> gc_state \<Rightarrow> gc_state" where
  "run_schedule threshold edges [] s = s"
| "run_schedule threshold edges ((i, stale) # sched) s =
     (if i < length (gs_procs s) then run_schedule threshold edges sched (gc_step_at threshold edges i stale s)
      else s)"

lemma run_schedule_steps: "(gc_step threshold edges)\<^sup>*\<^sup>* s (run_schedule threshold edges sched s)"
  by (induction threshold edges sched s rule: run_schedule.induct)
    (auto intro: converse_rtranclp_into_rtranclp gc_step.step)

text \<open>A graph of four sections with a cycle, a dead section and a dead self-reference.\<close>

definition demo_graph :: section_graph where
  "demo_graph = \<lparr>sg_edges = csr_of [[1], [2, 0], [], [3]], sg_roots = [0]\<rparr>"

section \<open>Properties\<close>

text \<open>
  C1. Whatever the number of threads and the schedule, the live set of \<open>collect_garbage\<close> is the set
  of sections reachable from the roots.
\<close>

theorem collect_garbage_reachable:
  "collect_garbage g l \<Longrightarrow> live_num_sections l = num_sections g \<and>
     (\<forall>s. is_live l s \<longleftrightarrow> s \<in> reachable (num_sections g) (graph_edges g) (sg_roots g))"
  using collect_garbage_spec [of g l] by blast

theorem collect_garbage_reachable_witness:
  "collect_garbage demo_graph (collect_garbage_sequential demo_graph) \<and>
   (is_live (collect_garbage_sequential demo_graph) 2 \<longleftrightarrow>
     2 \<in> reachable (num_sections demo_graph) (graph_edges demo_graph) (sg_roots demo_graph))"
proof -
  have "collect_garbage demo_graph (collect_garbage_sequential demo_graph)"
    unfolding collect_garbage_sequential_def by (intro collect_garbage.intros mark_from.one_thread)
  with collect_garbage_reachable [OF this] show ?thesis by blast
qed

text \<open>
  C7. The parallel mark has no infinite run and is never stuck: a state has no step exactly when
  every task has ended.
\<close>

theorem mark_parallel_terminates:
  "(\<nexists>f. f 0 = scope_start (Suc k) (atomic_new n) roots \<and>
      (\<forall>i. gc_step (Suc k) edges (f i) (f (Suc i)))) \<and>
   ((\<nexists>s'. gc_step (Suc k) edges s s') \<longleftrightarrow> gs_procs s = [])"
proof
  have start: "gc_ok edges n {} roots (scope_start (Suc k) (atomic_new n) roots)"
    using scope_start_ok [of "atomic_new n" edges "Suc k" roots] by (simp add: closed_under_def)
  show "\<nexists>f. f 0 = scope_start (Suc k) (atomic_new n) roots \<and>
      (\<forall>i. gc_step (Suc k) edges (f i) (f (Suc i)))"
  proof
    assume "\<exists>f. f 0 = scope_start (Suc k) (atomic_new n) roots \<and>
      (\<forall>i. gc_step (Suc k) edges (f i) (f (Suc i)))"
    then obtain f where "f 0 = scope_start (Suc k) (atomic_new n) roots"
      "\<forall>i. gc_step (Suc k) edges (f i) (f (Suc i))" by blast
    with gc_no_infinite_run [of edges n "{}" roots f "Suc k"] start show False by simp
  qed
  show "(\<nexists>s'. gc_step (Suc k) edges s s') \<longleftrightarrow> gs_procs s = []"
    using gc_progress [of s "Suc k" edges] by (auto elim: gc_stepE)
qed

text \<open>
  C19. In every complete run each reachable section has its edges enumerated exactly once, and no
  other section does.
\<close>

theorem edges_enumerated_once:
  "scope_ends (Suc k) edges (atomic_new n) roots s \<Longrightarrow>
     distinct (gs_visited s) \<and> set (gs_visited s) = reachable n edges roots"
  using scope_ends_marks [of "atomic_new n" edges "Suc k" roots s] by (simp add: closed_under_def)

definition demo_run :: gc_state where
  "demo_run = run_schedule (Suc 1) (graph_edges demo_graph) (replicate 24 (0, True))
     (scope_start (Suc 1) (atomic_new 4) [0, 0])"

theorem edges_enumerated_once_witness:
  "scope_ends (Suc 1) (graph_edges demo_graph) (atomic_new 4) [0, 0] demo_run \<and>
   gs_visited demo_run = [0, 1, 2] \<and> distinct (gs_visited demo_run) \<and>
   set (gs_visited demo_run) = reachable 4 (graph_edges demo_graph) [0, 0]"
proof -
  have v: "gs_procs demo_run = [] \<and> gs_visited demo_run = [0, 1, 2]"
    by code_simp
  then have ends: "scope_ends (Suc 1) (graph_edges demo_graph) (atomic_new 4) [0, 0] demo_run"
    unfolding scope_ends_def by (simp add: demo_run_def run_schedule_steps)
  with v edges_enumerated_once [OF ends] show ?thesis by simp
qed

text \<open>
  Rounds of marking compose: after marking from two root lists in turn, a section is marked when
  it was before or is reachable from either list.
\<close>

theorem mark_rounds:
  "wf_marker m \<Longrightarrow> mark_from m r1 m1 \<Longrightarrow> mark_from m1 r2 m2 \<Longrightarrow>
     is_marked m2 s \<longleftrightarrow> is_marked m s \<or>
       s \<in> reachable (num_sections (gm_graph m)) (graph_edges (gm_graph m)) (r1 @ r2)"
  using mark_from_spec [of m r1 m1] mark_from_spec [of m1 r2 m2]
  by (auto simp: is_marked_def marked_def reachable_append set_eq_iff)

theorem mark_rounds_witness:
  "is_marked (mark_from_sequential (mark_from_sequential (marker_new demo_graph) [2]) [3]) 3 \<longleftrightarrow>
     is_marked (marker_new demo_graph) 3 \<or>
     3 \<in> reachable (num_sections (gm_graph (marker_new demo_graph)))
       (graph_edges (gm_graph (marker_new demo_graph))) ([2] @ [3])"
  by (rule mark_rounds [OF wf_marker_new mark_from.one_thread mark_from.one_thread])

text \<open>
  The live and the removed sections are listed in input order, and the live count is the
  number of reachable sections.
\<close>

theorem live_lists:
  "collect_garbage g l \<Longrightarrow> num_sections g \<le> u32_max \<Longrightarrow>
     live l = Some (filter (\<lambda>s. s \<in> reachable (num_sections g) (graph_edges g) (sg_roots g))
       (all_sections (num_sections g))) \<and>
     removed l = Some (filter (\<lambda>s. s \<notin> reachable (num_sections g) (graph_edges g) (sg_roots g))
       (all_sections (num_sections g))) \<and>
     num_live l = card (reachable (num_sections g) (graph_edges g) (sg_roots g))"
proof -
  assume g: "collect_garbage g l" and n: "num_sections g \<le> u32_max"
  let ?n = "num_sections g"
  let ?R = "reachable ?n (graph_edges g) (sg_roots g)"
  have l: "wf_live l" "live_num_sections l = ?n" "is_live l = (\<lambda>s. s \<in> ?R)"
    using collect_garbage_spec [OF g] by auto
  have small: "live_num_sections l \<le> u32_max + 1" using n l(2) by linarith
  note all = all_sections_spec [OF n]
  have "set (filter (\<lambda>s. s \<in> ?R) (all_sections ?n)) = ?R"
    using all(2) reachable_index by auto
  then have "num_live l = card ?R"
    using num_live_eq [OF l(1) small] all(1) distinct_card [of "filter (\<lambda>s. s \<in> ?R) (all_sections ?n)"]
    by (simp add: l(2,3))
  then show ?thesis
    using live_eq [OF l(1) small] by (simp add: l(2,3))
qed

theorem live_lists_witness:
  "collect_garbage demo_graph (collect_garbage_sequential demo_graph) \<and>
   num_sections demo_graph \<le> u32_max \<and> live (collect_garbage_sequential demo_graph) = Some [0, 1, 2] \<and>
   live (collect_garbage_sequential demo_graph) =
     Some (filter (\<lambda>s. s \<in> reachable (num_sections demo_graph) (graph_edges demo_graph)
       (sg_roots demo_graph)) (all_sections (num_sections demo_graph)))"
proof -
  have g: "collect_garbage demo_graph (collect_garbage_sequential demo_graph)"
    unfolding collect_garbage_sequential_def by (intro collect_garbage.intros mark_from.one_thread)
  have n: "num_sections demo_graph \<le> u32_max" by (simp add: num_sections_def demo_graph_def)
  have "live (collect_garbage_sequential demo_graph) = Some [0, 1, 2]" by code_simp
  with g n live_lists [OF g n] show ?thesis by simp
qed

end
