(* ===== verification/GcWhyLive.thy ===== *)
theory GcWhyLive
  imports Gc
begin

text \<open>
  Reference chains for \<open>--why-live\<close> (src/src/passes/gc.rs): the breadth-first search that fills a
  parent table, with its early stop, and the chain read back from it. The search loop is a partial
  function: a section numbered \<open>u32::MAX\<close> would carry the sentinel as its identifier, and only the
  bound on the section count, which the graph's builders check, rules that out.
\<close>

section \<open>The search\<close>

definition UNREACHED :: u32 where
  "UNREACHED = 2 ^ 32 - 1"

record reference_tree =
  rt_parent :: "u32 list"

text \<open>The body shared by the two loops: reach a section from another (a root from itself).\<close>

definition reach_slot :: "section_id \<Rightarrow> section_id \<Rightarrow> u32 list \<times> section_id list \<Rightarrow>
    u32 list \<times> section_id list" where
  "reach_slot from next st =
     (case st of (parent, queue) \<Rightarrow>
        if get_nth parent (id_index next) = Some UNREACHED
        then (parent[id_index next := id_as_u32 from], queue @ [next])
        else (parent, queue))"

definition reach_roots :: "section_id list \<Rightarrow> u32 list \<times> section_id list \<Rightarrow>
    u32 list \<times> section_id list" where
  "reach_roots roots st = fold (\<lambda>root. reach_slot root root) roots st"

definition reach_targets :: "section_id \<Rightarrow> section_id list \<Rightarrow> u32 list \<times> section_id list \<Rightarrow>
    u32 list \<times> section_id list" where
  "reach_targets s targets st = fold (reach_slot s) targets st"

definition target_reached :: "u32 list \<Rightarrow> section_id option \<Rightarrow> bool" where
  "target_reached parent target =
     (case target of None \<Rightarrow> False
      | Some t \<Rightarrow> get_nth parent (id_index t) \<noteq> Some UNREACHED)"

partial_function (option) search_loop :: "(section_id \<Rightarrow> section_id list) \<Rightarrow> section_id option \<Rightarrow>
    u32 list \<Rightarrow> section_id list \<Rightarrow> nat \<Rightarrow> u32 list option" where
  "search_loop edges target parent queue head =
     (case get_nth queue head of
        None \<Rightarrow> Some parent
      | Some s \<Rightarrow>
          if target_reached parent target then Some parent
          else (case reach_targets s (edges s) (parent, queue) of
                  (parent', queue') \<Rightarrow> search_loop edges target parent' queue' (head + 1)))"

declare search_loop.simps [code]

definition search :: "section_graph \<Rightarrow> section_id option \<Rightarrow> reference_tree option" where
  "search g target =
     (case reach_roots (sg_roots g) (replicate (num_sections g) UNREACHED, []) of
        (parent, queue) \<Rightarrow>
          map_option (\<lambda>p. \<lparr>rt_parent = p\<rparr>) (search_loop (graph_edges g) target parent queue 0))"

definition reference_tree_new :: "section_graph \<Rightarrow> reference_tree option" where
  "reference_tree_new g = search g None"

section \<open>The chain\<close>

text \<open>The bounded loop of \<open>chain\<close>; \<open>None\<close> when the bound runs out or a parent is out of range.\<close>

fun chain_loop :: "u32 list \<Rightarrow> nat \<Rightarrow> u32 \<Rightarrow> section_id list \<Rightarrow> section_id list option" where
  "chain_loop parent 0 current acc = None"
| "chain_loop parent (Suc k) current acc =
     (case get_nth parent (unat current) of
        None \<Rightarrow> None
      | Some p \<Rightarrow>
          if p = current then Some (rev acc)
          else chain_loop parent k p (acc @ [id_from_u32 p]))"

definition chain :: "reference_tree \<Rightarrow> section_id \<Rightarrow> section_id list option" where
  "chain t s =
     (case get_nth (rt_parent t) (id_index s) of
        None \<Rightarrow> None
      | Some p \<Rightarrow>
          if p = UNREACHED then None
          else chain_loop (rt_parent t) (length (rt_parent t)) (id_as_u32 s) [s])"

text \<open>The outer option is the search's termination.\<close>

definition why_live :: "section_graph \<Rightarrow> section_id \<Rightarrow> section_id list option option" where
  "why_live g s = map_option (\<lambda>t. chain t s) (search g (Some s))"

section \<open>Reference paths\<close>

text \<open>A chain as the diagnostics print it: from a root along edges to the section.\<close>

definition reference_path :: "nat \<Rightarrow> (section_id \<Rightarrow> section_id list) \<Rightarrow> section_id list \<Rightarrow>
    section_id list \<Rightarrow> section_id \<Rightarrow> bool" where
  "reference_path n edges roots c s \<longleftrightarrow>
     c \<noteq> [] \<and> hd c \<in> set roots \<and> last c = s \<and> (\<forall>x\<in>set c. id_index x < n) \<and>
     windows2_all (\<lambda>x y. y \<in> set (edges x)) c"

lemma windows2_all_snoc:
  "windows2_all p (xs @ [y]) \<longleftrightarrow> windows2_all p xs \<and> (xs \<noteq> [] \<longrightarrow> p (last xs) y)"
  by (induction p xs rule: windows2_all.induct) auto

lemma reference_path_snoc:
  "c \<noteq> [] \<Longrightarrow> reference_path n edges roots (c @ [s]) s \<longleftrightarrow>
     reference_path n edges roots c (last c) \<and> s \<in> set (edges (last c)) \<and> id_index s < n"
  by (auto simp: reference_path_def windows2_all_snoc)

lemma reference_path_single:
  "reference_path n edges roots [s] s \<longleftrightarrow> s \<in> set roots \<and> id_index s < n"
  by (auto simp: reference_path_def)

lemma reference_path_induct [consumes 1, case_names root step]:
  assumes "reference_path n edges roots c s"
    and "\<And>r. r \<in> set roots \<Longrightarrow> id_index r < n \<Longrightarrow> P [r] r"
    and "\<And>c u v. reference_path n edges roots c u \<Longrightarrow> P c u \<Longrightarrow> v \<in> set (edges u) \<Longrightarrow>
      id_index v < n \<Longrightarrow> P (c @ [v]) v"
  shows "P c s"
  using assms(1)
proof (induction c arbitrary: s rule: rev_induct)
  case Nil
  then show ?case by (simp add: reference_path_def)
next
  case (snoc x xs)
  then have x: "x = s" by (simp add: reference_path_def)
  show ?case
  proof (cases "xs = []")
    case True
    with snoc.prems x assms(2) show ?thesis by (simp add: reference_path_single)
  next
    case False
    then have "reference_path n edges roots xs (last xs)" "s \<in> set (edges (last xs))" "id_index s < n"
      using snoc.prems reference_path_snoc [OF False] by (simp_all add: x)
    with snoc.IH show ?thesis
      unfolding x by (intro assms(3) [of xs "last xs"])
  qed
qed

lemma reachable_iff_path:
  "s \<in> reachable n edges roots \<longleftrightarrow> (\<exists>c. reference_path n edges roots c s)"
proof
  assume "s \<in> reachable n edges roots"
  then obtain r where r: "r \<in> set roots" "id_index r < n" "(r, s) \<in> (section_step n edges)\<^sup>*"
    by (auto simp: reachable_def)
  from r(3) show "\<exists>c. reference_path n edges roots c s"
  proof (induction rule: rtrancl_induct)
    case base
    then show ?case using r reference_path_single by blast
  next
    case (step u v)
    then obtain c where c: "reference_path n edges roots c u" by blast
    then have "c \<noteq> []" "last c = u" by (auto simp: reference_path_def)
    with c step(2) reference_path_snoc [of c n edges roots v] show ?case
      by (auto simp: section_step_def)
  qed
next
  assume "\<exists>c. reference_path n edges roots c s"
  then obtain c where "reference_path n edges roots c s" ..
  then show "s \<in> reachable n edges roots"
  proof (induction rule: reference_path_induct)
    case (step c u v)
    then show ?case
      by (auto simp: reachable_def section_step_def intro: rtrancl_into_rtrancl)
  qed (auto intro: reachable_roots)
qed

section \<open>The invariant of the search\<close>

text \<open>
  With d the depth of every section on the queue: the queue holds the reached sections by
  depth, no more than one deeper than its head; parents are roots of depth 0 or one level up; and
  everything the processed part points to is reached.
\<close>

definition queue_ok :: "nat \<Rightarrow> u32 list \<Rightarrow> section_id list \<Rightarrow> bool" where
  "queue_ok n parent queue \<longleftrightarrow> length parent = n \<and>
     set queue = {s. id_index s < n \<and> parent ! id_index s \<noteq> UNREACHED}"

definition parent_ok :: "(section_id \<Rightarrow> section_id list) \<Rightarrow> section_id list \<Rightarrow> (section_id \<Rightarrow> nat) \<Rightarrow>
    u32 list \<Rightarrow> section_id list \<Rightarrow> bool" where
  "parent_ok edges roots d parent queue \<longleftrightarrow> (\<forall>s\<in>set queue.
     parent ! id_index s = s \<and> s \<in> set roots \<and> d s = 0 \<or>
     parent ! id_index s \<noteq> s \<and> parent ! id_index s \<in> set queue \<and>
       s \<in> set (edges (parent ! id_index s)) \<and> d s = d (parent ! id_index s) + 1)"

definition depth_ok :: "(section_id \<Rightarrow> nat) \<Rightarrow> section_id list \<Rightarrow> nat \<Rightarrow> bool" where
  "depth_ok d queue head \<longleftrightarrow> sorted (map d queue) \<and>
     (head < length queue \<longrightarrow> (\<forall>s\<in>set queue. d s \<le> d (queue ! head) + 1))"

definition found :: "nat \<Rightarrow> (section_id \<Rightarrow> nat) \<Rightarrow> section_id list \<Rightarrow> nat \<Rightarrow> section_id \<Rightarrow> bool" where
  "found n d queue k v \<longleftrightarrow> (id_index v < n \<longrightarrow> v \<in> set queue \<and> d v \<le> k)"

definition search_inv :: "nat \<Rightarrow> (section_id \<Rightarrow> section_id list) \<Rightarrow> section_id list \<Rightarrow>
    (section_id \<Rightarrow> nat) \<Rightarrow> u32 list \<Rightarrow> section_id list \<Rightarrow> nat \<Rightarrow> bool" where
  "search_inv n edges roots d parent queue head \<longleftrightarrow>
     queue_ok n parent queue \<and> parent_ok edges roots d parent queue \<and> depth_ok d queue head \<and>
     (\<forall>r\<in>set roots. found n d queue 0 r) \<and>
     (\<forall>u\<in>set (take head queue). \<forall>v\<in>set (edges u). found n d queue (d u + 1) v)"

text \<open>Every path ends in a section found no deeper, or is longer than the head's depth.\<close>

lemma search_inv_paths:
  assumes "search_inv n edges roots d parent queue head" and "reference_path n edges roots c v"
  shows "v \<in> set queue \<and> d v + 1 \<le> length c \<or>
    head < length queue \<and> d (queue ! head) + 1 < length c"
  using assms(2)
proof (induction rule: reference_path_induct)
  case (root r)
  then show ?case using assms(1) by (auto simp: search_inv_def found_def)
next
  case (step c u v)
  show ?case
  proof (cases "u \<in> set queue \<and> d u + 1 \<le> length c")
    case True
    then obtain i where i: "i < length queue" "queue ! i = u" by (auto simp: in_set_conv_nth)
    show ?thesis
    proof (cases "i < head")
      case True
      with i have "u \<in> set (take head queue)"
        by (auto simp: in_set_conv_nth intro!: exI [of _ i])
      with assms(1) step \<open>u \<in> set queue \<and> d u + 1 \<le> length c\<close> show ?thesis
        by (fastforce simp: search_inv_def found_def)
    next
      case False
      with i assms(1) have "d (queue ! head) \<le> d (queue ! i)"
        by (auto simp: search_inv_def depth_ok_def sorted_iff_nth_mono)
      with True i False show ?thesis by simp
    qed
  next
    case False
    with step.IH show ?thesis by auto
  qed
qed

section \<open>The search keeps the invariant\<close>

text \<open>The depth of a newly reached section; the old queue keeps its depths.\<close>

lemma queue_ok_reach:
  assumes "queue_ok n parent queue" and "n \<le> u32_max" and "id_index from < n"
  shows "queue_ok n (fst (reach_slot from v (parent, queue))) (snd (reach_slot from v (parent, queue)))"
proof -
  have reached: "from \<noteq> UNREACHED"
    using assms(2,3) by (auto simp: UNREACHED_def id_index_def)
  show ?thesis
    using assms(1) reached
    by (auto simp: queue_ok_def reach_slot_def id_as_u32_def nth_list_update)
qed

lemma reach_slot_cases:
  assumes "queue_ok n parent queue"
  obtains (old) "reach_slot from v (parent, queue) = (parent, queue)" "id_index v < n \<Longrightarrow> v \<in> set queue"
  | (new) "reach_slot from v (parent, queue) = (parent[id_index v := from], queue @ [v])"
      "id_index v < n" "v \<notin> set queue" "parent ! id_index v = UNREACHED"
  using assms
  by (cases "get_nth parent (id_index v) = Some UNREACHED")
    (auto simp: reach_slot_def queue_ok_def id_as_u32_def)

lemma parent_ok_extend:
  assumes "queue_ok n parent queue" and "parent_ok edges roots d parent queue" and "v \<notin> set queue"
    and "id_index v < n"
    and "from = v \<and> v \<in> set roots \<and> k = 0 \<or>
      from \<in> set queue \<and> v \<in> set (edges from) \<and> k = d from + 1"
  shows "parent_ok edges roots (d(v := k)) (parent[id_index v := from]) (queue @ [v])"
  unfolding parent_ok_def
proof
  fix s
  assume "s \<in> set (queue @ [v])"
  then consider "s = v" | "s \<in> set queue" "s \<noteq> v" using assms(3) by auto
  then show "parent[id_index v := from] ! id_index s = s \<and> s \<in> set roots \<and> (d(v := k)) s = 0 \<or>
     parent[id_index v := from] ! id_index s \<noteq> s \<and>
     parent[id_index v := from] ! id_index s \<in> set (queue @ [v]) \<and>
     s \<in> set (edges (parent[id_index v := from] ! id_index s)) \<and>
     (d(v := k)) s = (d(v := k)) (parent[id_index v := from] ! id_index s) + 1"
  proof cases
    case 1
    then show ?thesis using assms by (auto simp: queue_ok_def)
  next
    case 2
    then have "parent[id_index v := from] ! id_index s = parent ! id_index s" by simp
    moreover have "parent ! id_index s \<noteq> v \<or> parent ! id_index s = s"
      using assms(2,3) 2 by (auto simp: parent_ok_def)
    ultimately show ?thesis
      using assms(2,3) 2 by (auto simp: parent_ok_def)
  qed
qed

lemma depth_ok_extend:
  assumes "depth_ok d queue head" and "v \<notin> set queue" and "head < length queue"
    and "k = d (queue ! head) + 1"
  shows "depth_ok (d(v := k)) (queue @ [v]) head"
proof -
  have same: "map (d(v := k)) queue = map d queue"
    using assms(2) by (auto intro!: map_cong)
  have "sorted (map (d(v := k)) queue)"
    unfolding same using assms(1) by (simp add: depth_ok_def)
  moreover have "queue ! head \<noteq> v" using assms(2,3) by auto
  ultimately show ?thesis
    using assms by (auto simp: depth_ok_def sorted_append nth_append simp del: map_fun_upd)
qed

text \<open>One target of the section at the head of the queue.\<close>

lemma reach_slot_inv:
  assumes inv: "search_inv n edges roots d parent queue head" and n: "n \<le> u32_max"
    and u: "head < length queue" "queue ! head = u" and v: "v \<in> set (edges u)"
    and r: "reach_slot u v (parent, queue) = (parent', queue')"
  shows "\<exists>d'. search_inv n edges roots d' parent' queue' head \<and> (\<forall>s\<in>set queue. d' s = d s) \<and>
    (\<exists>ext. queue' = queue @ ext) \<and> found n d' queue' (d' u + 1) v"
proof -
  have q: "queue_ok n parent queue" using inv by (simp add: search_inv_def)
  have uq: "u \<in> set queue" using u by auto
  then have un: "id_index u < n" using q by (auto simp: queue_ok_def)
  show ?thesis
    using q
  proof (cases rule: reach_slot_cases [of n parent queue u v])
    case old
    then have "found n d queue (d u + 1) v"
      using inv u by (auto simp: found_def search_inv_def depth_ok_def)
    with old inv r show ?thesis by (intro exI [of _ d]) auto
  next
    case new
    let ?d = "d(v := d u + 1)"
    have eq: "parent' = parent[id_index v := u]" "queue' = queue @ [v]" using new(1) r by auto
    have ext: "found n ?d (queue @ [v]) k w" if "found n d queue k w" for k w
      using that new by (auto simp: found_def)
    have agree: "\<forall>s\<in>set queue. ?d s = d s" using new(3) by auto
    have "search_inv n edges roots ?d parent' queue' head"
      unfolding search_inv_def eq
    proof (intro conjI ballI)
      show "queue_ok n (parent[id_index v := u]) (queue @ [v])"
        using queue_ok_reach [OF q n un, of v] new(1) by simp
      show "parent_ok edges roots ?d (parent[id_index v := u]) (queue @ [v])"
        using inv q new v uq by (intro parent_ok_extend) (auto simp: search_inv_def)
      show "depth_ok ?d (queue @ [v]) head"
        using inv new u by (intro depth_ok_extend) (auto simp: search_inv_def)
    next
      fix w assume "w \<in> set roots"
      then show "found n ?d (queue @ [v]) 0 w" using inv by (intro ext) (simp add: search_inv_def)
    next
      fix x w assume x: "x \<in> set (take head (queue @ [v]))" and w: "w \<in> set (edges x)"
      have "x \<in> set (take head queue)" using x u by simp
      moreover then have "?d x = d x" using agree by (meson in_set_takeD)
      ultimately show "found n ?d (queue @ [v]) (?d x + 1) w"
        using inv w ext by (simp add: search_inv_def)
    qed
    moreover have "found n ?d queue' (?d u + 1) v"
      using new uq by (auto simp: found_def eq)
    ultimately show ?thesis using agree eq by blast
  qed
qed

lemma reach_targets_inv:
  assumes "search_inv n edges roots d parent queue head" and "n \<le> u32_max"
    and "head < length queue" "queue ! head = u" and "set ts \<subseteq> set (edges u)"
    and "reach_targets u ts (parent, queue) = (parent', queue')"
  shows "\<exists>d'. search_inv n edges roots d' parent' queue' head \<and> (\<forall>s\<in>set queue. d' s = d s) \<and>
    (\<exists>ext. queue' = queue @ ext) \<and> (\<forall>v\<in>set ts. found n d' queue' (d' u + 1) v)"
  using assms
proof (induction ts arbitrary: d parent queue)
  case Nil
  then show ?case by (auto simp: reach_targets_def)
next
  case (Cons t ts)
  obtain p1 q1 where one: "reach_slot u t (parent, queue) = (p1, q1)" by fastforce
  have rest: "reach_targets u ts (p1, q1) = (parent', queue')"
    using Cons.prems(6) one by (simp add: reach_targets_def)
  have "t \<in> set (edges u)" using Cons.prems(5) by simp
  from reach_slot_inv [OF Cons.prems(1-4) this one]
  obtain d1 where d1: "search_inv n edges roots d1 p1 q1 head" "\<forall>s\<in>set queue. d1 s = d s"
    "\<exists>ext. q1 = queue @ ext" "found n d1 q1 (d1 u + 1) t" by blast
  have q1: "head < length q1" "q1 ! head = u" "set queue \<subseteq> set q1"
    using d1(3) Cons.prems(3,4) by (auto simp: nth_append)
  have "set ts \<subseteq> set (edges u)" using Cons.prems(5) by simp
  from Cons.IH [OF d1(1) Cons.prems(2) q1(1,2) this rest]
  obtain d' where d': "search_inv n edges roots d' parent' queue' head" "\<forall>s\<in>set q1. d' s = d1 s"
    "\<exists>ext. queue' = q1 @ ext" "\<forall>v\<in>set ts. found n d' queue' (d' u + 1) v" by blast
  have "u \<in> set q1" using q1 by auto
  then have "found n d' queue' (d' u + 1) t"
    using d1(4) d' by (auto simp: found_def)
  with d' d1 q1(3) show ?case
    by (intro exI [of _ d']) auto
qed

lemma search_inv_advance:
  assumes "search_inv n edges roots d parent queue head" and "head < length queue"
    and "\<forall>v\<in>set (edges (queue ! head)). found n d queue (d (queue ! head) + 1) v"
  shows "search_inv n edges roots d parent queue (Suc head)"
proof -
  have "d (queue ! head) \<le> d (queue ! Suc head)" if "Suc head < length queue"
    using assms(1) that by (auto simp: search_inv_def depth_ok_def sorted_iff_nth_mono)
  then have "depth_ok d queue (Suc head)"
    using assms(1,2) by (fastforce simp: search_inv_def depth_ok_def)
  with assms show ?thesis
    by (auto simp: search_inv_def take_Suc_conv_app_nth)
qed

text \<open>The measure: sections not yet reached and queue entries not yet processed.\<close>

definition unreached :: "u32 list \<Rightarrow> nat" where
  "unreached parent = length (filter (\<lambda>p. p = UNREACHED) parent)"

lemma unreached_update:
  "i < length parent \<Longrightarrow> parent ! i = UNREACHED \<Longrightarrow> x \<noteq> UNREACHED \<Longrightarrow>
     Suc (unreached (parent[i := x])) = unreached parent"
proof (induction parent arbitrary: i)
  case (Cons p ps)
  then show ?case by (cases i) (auto simp: unreached_def)
qed simp

lemma reach_targets_measure:
  assumes "u \<noteq> UNREACHED" and "reach_targets u ts (parent, queue) = (parent', queue')"
  shows "unreached parent' + length queue' = unreached parent + length queue"
  using assms(2)
proof (induction ts arbitrary: parent queue)
  case (Cons t ts)
  obtain p1 q1 where one: "reach_slot u t (parent, queue) = (p1, q1)" by fastforce
  then have "unreached p1 + length q1 = unreached parent + length queue"
    using assms(1) unreached_update [of "id_index t" parent u]
    by (auto simp: reach_slot_def id_as_u32_def split: if_splits)
  with Cons one show ?case by (simp add: reach_targets_def)
qed (simp add: reach_targets_def)

lemma search_loop_ends:
  assumes "search_inv n edges roots d parent queue head" and "n \<le> u32_max"
  shows "\<exists>parent' d' queue' head'. search_loop edges target parent queue head = Some parent' \<and>
    search_inv n edges roots d' parent' queue' head' \<and>
    (length queue' \<le> head' \<or> target_reached parent' target)"
  using assms
proof (induction "unreached parent + (length queue - head)" arbitrary: d parent queue head
    rule: less_induct)
  case less
  show ?case
  proof (cases "length queue \<le> head \<or> target_reached parent target")
    case True
    then show ?thesis
      using less.prems by (subst search_loop.simps) (auto simp: get_nth_def)
  next
    case False
    let ?u = "queue ! head"
    have head: "head < length queue" using False by simp
    obtain p1 q1 where r: "reach_targets ?u (edges ?u) (parent, queue) = (p1, q1)" by fastforce
    obtain d1 where d1: "search_inv n edges roots d1 p1 q1 head" "\<exists>ext. q1 = queue @ ext"
      "\<forall>v\<in>set (edges ?u). found n d1 q1 (d1 ?u + 1) v"
      using reach_targets_inv [OF less.prems head refl subset_refl r] by blast
    have q1: "head < length q1" "q1 ! head = ?u" using d1(2) head by (auto simp: nth_append)
    have "?u \<noteq> UNREACHED"
    proof -
      have "id_index ?u < n"
        using less.prems(1) head by (auto simp: search_inv_def queue_ok_def dest: nth_mem)
      then show ?thesis using less.prems(2) by (auto simp: UNREACHED_def id_index_def)
    qed
    then have "unreached p1 + length q1 = unreached parent + length queue"
      using r by (rule reach_targets_measure)
    then have "unreached p1 + (length q1 - Suc head) < unreached parent + (length queue - head)"
      using head q1(1) by linarith
    moreover have "search_inv n edges roots d1 p1 q1 (Suc head)"
      using d1 q1 by (intro search_inv_advance) auto
    ultimately have "\<exists>parent' d' queue' head'. search_loop edges target p1 q1 (Suc head) = Some parent' \<and>
        search_inv n edges roots d' parent' queue' head' \<and>
        (length queue' \<le> head' \<or> target_reached parent' target)"
      using less.hyps less.prems(2) by blast
    moreover have "search_loop edges target parent queue head = search_loop edges target p1 q1 (Suc head)"
      using False head r by (subst search_loop.simps) (simp add: get_nth_def)
    ultimately show ?thesis by simp
  qed
qed

section \<open>The roots\<close>

lemma reach_roots_inv:
  assumes "queue_ok n parent queue" and "n \<le> u32_max"
    and "\<forall>s\<in>set queue. parent ! id_index s = s \<and> s \<in> R" and "set rs \<subseteq> R"
    and "reach_roots rs (parent, queue) = (parent', queue')"
  shows "queue_ok n parent' queue' \<and> (\<forall>s\<in>set queue'. parent' ! id_index s = s \<and> s \<in> R) \<and>
    set queue \<subseteq> set queue' \<and> (\<forall>r\<in>set rs. id_index r < n \<longrightarrow> r \<in> set queue')"
  using assms
proof (induction rs arbitrary: parent queue)
  case Nil
  then show ?case by (simp add: reach_roots_def)
next
  case (Cons r rs)
  show ?case
    using Cons.prems(1)
  proof (cases rule: reach_slot_cases [of n parent queue r r])
    case old
    with Cons.prems have "reach_roots rs (parent, queue) = (parent', queue')"
      by (simp add: reach_roots_def)
    from Cons.IH [OF Cons.prems(1-3) _ this] Cons.prems(4) old(2) show ?thesis by auto
  next
    case new
    let ?p = "parent[id_index r := r]" and ?q = "queue @ [r]"
    have r: "reach_roots rs (?p, ?q) = (parent', queue')"
      using Cons.prems(5) new(1) by (simp add: reach_roots_def)
    have q: "queue_ok n ?p ?q"
      using queue_ok_reach [OF Cons.prems(1,2) new(2), of r] new(1) by simp
    have "?p ! id_index r = r"
      using Cons.prems(1) new(2) by (simp add: queue_ok_def)
    moreover have "?p ! id_index s = parent ! id_index s" if "s \<in> set queue" for s
      using that new(3) by (metis id_index_inject nth_list_update_neq)
    ultimately have "\<forall>s\<in>set ?q. ?p ! id_index s = s \<and> s \<in> R"
      using Cons.prems(3,4) by simp
    from Cons.IH [OF q Cons.prems(2) this _ r] Cons.prems(4) show ?thesis by auto
  qed
qed

lemma search_start_inv:
  assumes "n \<le> u32_max" and "reach_roots roots (replicate n UNREACHED, []) = (parent, queue)"
  shows "search_inv n edges roots (\<lambda>_. 0) parent queue 0"
proof -
  have "queue_ok n (replicate n UNREACHED) []"
    by (auto simp: queue_ok_def)
  from reach_roots_inv [OF this assms(1) _ subset_refl assms(2)]
  show ?thesis
    by (auto simp: search_inv_def parent_ok_def depth_ok_def found_def sorted_iff_nth_mono)
qed

section \<open>Reading a chain back\<close>

lemma search_inv_reached:
  assumes "search_inv n edges roots d parent queue head" and "s \<in> set queue"
  shows "id_index s < n" "length parent = n" "parent ! id_index s \<noteq> UNREACHED"
  using assms by (auto simp: search_inv_def queue_ok_def)

lemma search_inv_parent:
  assumes "search_inv n edges roots d parent queue head" and "s \<in> set queue"
  shows "d s = 0 \<and> parent ! id_index s = s \<and> s \<in> set roots \<or>
    d s = d (parent ! id_index s) + 1 \<and> parent ! id_index s \<noteq> s \<and>
    parent ! id_index s \<in> set queue \<and> s \<in> set (edges (parent ! id_index s))"
  using assms unfolding search_inv_def parent_ok_def by blast

lemma search_inv_chain:
  assumes "search_inv n edges roots d parent queue head" and "s \<in> set queue" and "d s < k"
  shows "\<exists>c. chain_loop parent k s acc = Some (c @ rev acc) \<and> length c = d s \<and>
    reference_path n edges roots (c @ [s]) s"
  using assms(2,3)
proof (induction "d s" arbitrary: s k acc)
  case 0
  then obtain k' where k: "k = Suc k'" by (cases k) auto
  have "parent ! id_index s = s \<and> s \<in> set roots" "id_index s < n" "length parent = n"
    using search_inv_parent [OF assms(1) 0(2)] search_inv_reached [OF assms(1) 0(2)] 0(1) by simp_all
  then show ?case
    using 0(1) by (simp add: k get_nth_def id_index_def reference_path_single)
next
  case (Suc m)
  then obtain k' where k: "k = Suc k'" by (cases k) auto
  let ?p = "parent ! id_index s"
  have p: "?p \<noteq> s" "?p \<in> set queue" "s \<in> set (edges ?p)" "d s = d ?p + 1"
    and s: "id_index s < n" "length parent = n"
    using search_inv_parent [OF assms(1) Suc.prems(1)] search_inv_reached [OF assms(1) Suc.prems(1)]
      Suc.hyps(2) by simp_all
  have "m = d ?p" "d ?p < k'" using p(4) Suc.hyps(2) Suc.prems(2) k by auto
  from Suc.hyps(1) [OF this(1) p(2) this(2), of "acc @ [?p]"]
  obtain c where c: "chain_loop parent k' ?p (acc @ [?p]) = Some (c @ rev (acc @ [?p]))"
    "length c = d ?p" "reference_path n edges roots (c @ [?p]) ?p" by blast
  have "chain_loop parent k s acc = Some ((c @ [?p]) @ rev acc)"
    using c(1) p(1) s by (simp add: k get_nth_def id_index_def id_from_u32_def)
  moreover have "reference_path n edges roots ((c @ [?p]) @ [s]) s"
    using c(3) p(3) s(1) by (subst reference_path_snoc) auto
  moreover have "length (c @ [?p]) = d s" using c(2) p(4) by simp
  ultimately show ?case by blast
qed

lemma search_inv_depth:
  assumes "search_inv n edges roots d parent queue head" and "s \<in> set queue"
  shows "d s < n"
proof -
  have "{..d s} \<subseteq> d ` set queue"
    using assms(2)
  proof (induction "d s" arbitrary: s)
    case 0
    then show ?case by force
  next
    case (Suc m)
    then have "parent ! id_index s \<in> set queue" "d s = d (parent ! id_index s) + 1"
      using search_inv_parent [OF assms(1) Suc.prems] by auto
    with Suc have "{..m} \<subseteq> d ` set queue" by (metis Suc_eq_plus1 nat.inject)
    moreover have "{..d s} = insert (d s) {..m}" using Suc.hyps(2) by auto
    ultimately show ?case using Suc.prems by auto
  qed
  then have "card {..d s} \<le> card (d ` set queue)" by (intro card_mono) auto
  also have "\<dots> \<le> card (set queue)" by (rule card_image_le) simp
  also have "\<dots> = card (id_index ` set queue)"
    by (rule card_image [symmetric]) (simp add: inj_on_def)
  also have "\<dots> \<le> card {..<n}"
    using assms(1) by (intro card_mono) (auto simp: search_inv_def queue_ok_def)
  finally show ?thesis by simp
qed

lemma chain_of_search:
  assumes "search_inv n edges roots d parent queue head"
  shows "if s \<in> set queue
    then \<exists>c. chain \<lparr>rt_parent = parent\<rparr> s = Some c \<and> length c = d s + 1 \<and> reference_path n edges roots c s
    else chain \<lparr>rt_parent = parent\<rparr> s = None"
proof (cases "s \<in> set queue")
  case True
  then have "id_index s < n" "parent ! id_index s \<noteq> UNREACHED" "length parent = n"
    using search_inv_reached [OF assms True] by simp_all
  with True search_inv_chain [OF assms True search_inv_depth [OF assms True], of "[s]"]
  show ?thesis
    by (auto simp: chain_def get_nth_def id_as_u32_def)
next
  case False
  then show ?thesis
    using assms by (auto simp: chain_def search_inv_def queue_ok_def split: option.splits)
qed

text \<open>What a query answers: the shortest chains, and none exactly for dead sections.\<close>

definition explains :: "section_graph \<Rightarrow> section_id \<Rightarrow> section_id list option \<Rightarrow> bool" where
  "explains g s r =
     (let path = reference_path (num_sections g) (graph_edges g) (sg_roots g) in
      case r of
        None \<Rightarrow> s \<notin> reachable (num_sections g) (graph_edges g) (sg_roots g)
      | Some c \<Rightarrow> path c s \<and> (\<forall>c'. path c' s \<longrightarrow> length c \<le> length c'))"

lemma chain_explains:
  assumes "search_inv (num_sections g) (graph_edges g) (sg_roots g) d parent queue head"
    and "length queue \<le> head \<or> s \<in> set queue \<or> num_sections g \<le> id_index s"
  shows "explains g s (chain \<lparr>rt_parent = parent\<rparr> s)"
proof (cases "s \<in> set queue")
  case True
  let ?path = "reference_path (num_sections g) (graph_edges g) (sg_roots g)"
  obtain c where c: "chain \<lparr>rt_parent = parent\<rparr> s = Some c" "length c = d s + 1" "?path c s"
    using chain_of_search [OF assms(1), of s] True by auto
  have "d s + 1 \<le> length c'" if "?path c' s" for c'
  proof (cases "d s + 1 \<le> length c'")
    case False
    then have "head < length queue" "d (queue ! head) + 1 < length c'"
      using search_inv_paths [OF assms(1) that] by auto
    moreover have "d s \<le> d (queue ! head) + 1"
      using assms(1) True \<open>head < length queue\<close> by (auto simp: search_inv_def depth_ok_def)
    ultimately show ?thesis by simp
  qed
  with c show ?thesis by (auto simp: explains_def)
next
  case False
  then have none: "chain \<lparr>rt_parent = parent\<rparr> s = None"
    using chain_of_search [OF assms(1), of s] by simp
  have "s \<notin> reachable (num_sections g) (graph_edges g) (sg_roots g)"
  proof (cases "num_sections g \<le> id_index s")
    case True
    then show ?thesis using reachable_index by (meson leD)
  next
    case in_range: False
    then show ?thesis
      using search_inv_paths [OF assms(1), of _ s] False assms(2) unfolding reachable_iff_path by auto
  qed
  with none show ?thesis by (simp add: explains_def)
qed

lemma search_Some:
  assumes "num_sections g \<le> u32_max"
  shows "\<exists>parent d queue head. search g target = Some \<lparr>rt_parent = parent\<rparr> \<and>
    search_inv (num_sections g) (graph_edges g) (sg_roots g) d parent queue head \<and>
    (length queue \<le> head \<or> target_reached parent target)"
proof -
  obtain p q where r: "reach_roots (sg_roots g) (replicate (num_sections g) UNREACHED, []) = (p, q)"
    by fastforce
  from search_loop_ends [OF search_start_inv [OF assms r] assms] r show ?thesis
    by (fastforce simp: search_def)
qed

section \<open>Properties\<close>

text \<open>
  C8. In a graph whose section count passes the builders' check, \<open>why_live\<close> returns: a shortest
  reference chain from a root to a live section, and \<open>None\<close> exactly for a dead one.
\<close>

theorem why_live_shortest:
  "num_sections g \<le> u32_max \<Longrightarrow> \<exists>r. why_live g s = Some r \<and> explains g s r"
proof -
  assume n: "num_sections g \<le> u32_max"
  obtain parent d queue head where r: "search g (Some s) = Some \<lparr>rt_parent = parent\<rparr>"
    and inv: "search_inv (num_sections g) (graph_edges g) (sg_roots g) d parent queue head"
    and ends: "length queue \<le> head \<or> target_reached parent (Some s)"
    using search_Some [OF n] by blast
  have "length queue \<le> head \<or> s \<in> set queue \<or> num_sections g \<le> id_index s"
    using ends inv by (auto simp: target_reached_def get_nth_def search_inv_def queue_ok_def
        split: if_splits)
  with inv have "explains g s (chain \<lparr>rt_parent = parent\<rparr> s)" by (rule chain_explains)
  with r show ?thesis by (simp add: why_live_def)
qed

definition chain_graph :: section_graph where
  "chain_graph = \<lparr>sg_edges = csr_of [[1, 2], [3], [3], [1], []], sg_roots = [0, 2]\<rparr>"

theorem why_live_shortest_witness:
  "num_sections chain_graph \<le> u32_max \<and> why_live chain_graph 3 = Some (Some [2, 3]) \<and>
   (\<exists>r. why_live chain_graph 3 = Some r \<and> explains chain_graph 3 r)"
proof -
  have n: "num_sections chain_graph \<le> u32_max" by (simp add: num_sections_def chain_graph_def)
  have "why_live chain_graph 3 = Some (Some [2, 3])" by code_simp
  with n why_live_shortest [OF n, of 3] show ?thesis by blast
qed

text \<open>
  The tree of the whole graph answers every query the same way: for each section a shortest
  chain, or none when it is dead.
\<close>

theorem reference_tree_shortest:
  "num_sections g \<le> u32_max \<Longrightarrow>
     \<exists>t. reference_tree_new g = Some t \<and> (\<forall>s. explains g s (chain t s))"
proof -
  assume n: "num_sections g \<le> u32_max"
  obtain parent d queue head where r: "search g None = Some \<lparr>rt_parent = parent\<rparr>"
    and inv: "search_inv (num_sections g) (graph_edges g) (sg_roots g) d parent queue head"
    and ends: "length queue \<le> head"
    using search_Some [OF n, of None] by (auto simp: target_reached_def)
  then show ?thesis
    unfolding reference_tree_new_def using chain_explains by blast
qed

theorem reference_tree_shortest_witness:
  "num_sections chain_graph \<le> u32_max \<and>
   (\<exists>t. reference_tree_new chain_graph = Some t \<and> (\<forall>s. explains chain_graph s (chain t s)))"
proof -
  have n: "num_sections chain_graph \<le> u32_max" by (simp add: num_sections_def chain_graph_def)
  with reference_tree_shortest [OF n] show ?thesis by blast
qed

end
