(* ===== verification/Icf.thy ===== *)
theory Icf
  imports Ids Csr
begin

text \<open>
  Identical code folding (src/src/passes/icf.rs), the definitions: the input with its checks, the
  hash and the comparison of the constant and of the variable part of a section, the splitting of
  runs and classes, the commit of a round and the refinement loop, and the report. The hasher
  (src/src/passes/hash.rs) is a third-party hash with a fixed seed: the parameter \<open>hf\<close>, a function
  of the sequence of values written to it. Work spread over threads touches disjoint chunks, so a
  parallel pass over chunks is the map over them; sorts on keys without ties have one result.
\<close>

section \<open>Input\<close>

datatype icf_mode = All | Safe

record icf_section =
  is_contents :: "u8 list"
  is_key :: u64
  is_foldable :: bool
  is_address_significant :: bool

datatype icf_target = TSection section_id u64 | TSymbol symbol_id | TValue u64

record icf_reloc =
  ir_offset :: u64
  ir_kind :: u32
  ir_addend :: int
  ir_target :: icf_target

record icf_input =
  ii_sections :: "icf_section list"
  ii_relocs :: "icf_reloc csr"

fun find_map_first :: "('a \<Rightarrow> 'b option) \<Rightarrow> 'a list \<Rightarrow> 'b option" where
  "find_map_first f [] = None"
| "find_map_first f (x # xs) = (case f x of Some y \<Rightarrow> Some y | None \<Rightarrow> find_map_first f xs)"

definition icf_input_new :: "icf_section list \<Rightarrow> icf_reloc csr \<Rightarrow> (icf_input, input_error) result" where
  "icf_input_new sections relocs =
     (let len = length sections in
      if u32_try_from len = None then Err (TooLarge ''section count'')
      else if csr_rows relocs \<noteq> len then Err (RowCount len (csr_rows relocs))
      else
        let bad = find_map_first (\<lambda>reloc. case ir_target reloc of
              TSection section offset \<Rightarrow> if id_index section \<ge> len then Some section else None
            | _ \<Rightarrow> None) (csr_values relocs)
        in case bad of
             Some section \<Rightarrow> Err (OutOfRange ''relocation target section'' (ucast (id_as_u32 section)) len)
           | None \<Rightarrow> Ok \<lparr>ii_sections = sections, ii_relocs = relocs\<rparr>)"

definition icf_len :: "icf_input \<Rightarrow> usize" where
  "icf_len inp = length (ii_sections inp)"

section \<open>Comparing sections\<close>

record slot =
  sl_hash :: u64
  sl_id :: u32
  sl_start :: bool
  sl_done :: bool

definition folder_section :: "icf_input \<Rightarrow> u32 \<Rightarrow> icf_section" where
  "folder_section inp i = ii_sections inp ! unat i"

definition folder_relocs :: "icf_input \<Rightarrow> u32 \<Rightarrow> icf_reloc list" where
  "folder_relocs inp i = csr_row (ii_relocs inp) (unat i)"

definition class_of :: "u32 list \<Rightarrow> section_id \<Rightarrow> u32" where
  "class_of cls section = cls ! id_index section"

fun target_shape :: "icf_target \<Rightarrow> u8 \<times> u64" where
  "target_shape (TSection section offset) = (0, offset)"
| "target_shape (TSymbol symbol) = (1, ucast (id_as_u32 symbol))"
| "target_shape (TValue v) = (2, v)"

text \<open>What is written to the hasher, and the hash of the sequence.\<close>

datatype hash_write =
  WriteU8 u8 | WriteU32 u32 | WriteU64 u64 | WriteI64 int | WriteUsize usize | WriteBytes "u8 list"

type_synonym hash_fn = "hash_write list \<Rightarrow> u64"

definition constant_hash :: "hash_fn \<Rightarrow> icf_input \<Rightarrow> u32 \<Rightarrow> u64" where
  "constant_hash hf inp i =
     (let section = folder_section inp i; relocs = folder_relocs inp i in
      hf ([WriteU64 (is_key section), WriteUsize (length (is_contents section)),
           WriteBytes (is_contents section), WriteUsize (length relocs)] @
          concat (map (\<lambda>reloc. let (tag, v) = target_shape (ir_target reloc) in
            [WriteU64 (ir_offset reloc), WriteU32 (ir_kind reloc), WriteI64 (ir_addend reloc),
             WriteU8 tag, WriteU64 v]) relocs)))"

definition reloc_key :: "icf_reloc \<Rightarrow> u64 \<times> u32 \<times> int \<times> u8 \<times> u64" where
  "reloc_key r =
     (let (tag, v) = target_shape (ir_target r)
      in (ir_offset r, ir_kind r, ir_addend r, tag, v))"

definition compare_constant :: "icf_input \<Rightarrow> u32 \<Rightarrow> u32 \<Rightarrow> cmp_ordering" where
  "compare_constant inp a b =
     (let sa = folder_section inp a; sb = folder_section inp b;
          ra = folder_relocs inp a; rb = folder_relocs inp b
      in then_ordering (then_ordering (then_ordering (then_ordering
           (cmp (is_key sa) (is_key sb))
           (cmp (length (is_contents sa)) (length (is_contents sb))))
           (cmp (length ra) (length rb)))
           (cmp (is_contents sa) (is_contents sb)))
           (cmp (map reloc_key ra) (map reloc_key rb)))"

definition variable_hash :: "hash_fn \<Rightarrow> icf_input \<Rightarrow> u32 list \<Rightarrow> u32 \<Rightarrow> u64" where
  "variable_hash hf inp cls i =
     hf (concat (map (\<lambda>reloc. case ir_target reloc of
            TSection section offset \<Rightarrow> [WriteU32 (class_of cls section)] | _ \<Rightarrow> [])
          (folder_relocs inp i)))"

definition variable_key :: "u32 list \<Rightarrow> icf_reloc \<Rightarrow> u32" where
  "variable_key cls reloc =
     (case ir_target reloc of TSection section offset \<Rightarrow> class_of cls section | _ \<Rightarrow> 0)"

definition compare_variable :: "icf_input \<Rightarrow> u32 list \<Rightarrow> u32 \<Rightarrow> u32 \<Rightarrow> cmp_ordering" where
  "compare_variable inp cls a b =
     cmp (map (variable_key cls) (folder_relocs inp a)) (map (variable_key cls) (folder_relocs inp b))"

definition has_section_targets :: "icf_input \<Rightarrow> u32 \<Rightarrow> bool" where
  "has_section_targets inp i =
     list_ex (\<lambda>reloc. case ir_target reloc of TSection section offset \<Rightarrow> True | _ \<Rightarrow> False)
       (folder_relocs inp i)"

section \<open>Splitting\<close>

text \<open>The loop that sets \<open>start\<close> from the comparison with the slot before.\<close>

fun mark_starts :: "(u32 \<Rightarrow> u32 \<Rightarrow> cmp_ordering) \<Rightarrow> u32 \<Rightarrow> slot list \<Rightarrow> slot list" where
  "mark_starts compare prev [] = []"
| "mark_starts compare prev (s # ss) =
     s\<lparr>sl_start := (compare prev (sl_id s) \<noteq> Equal)\<rparr> # mark_starts compare (sl_id s) ss"

definition split_run :: "(u32 \<Rightarrow> u32 \<Rightarrow> cmp_ordering) \<Rightarrow> slot list \<Rightarrow> slot list" where
  "split_run compare run =
     (case run of
        [] \<Rightarrow> []
      | first # rest \<Rightarrow>
          let run0 = first\<lparr>sl_start := True\<rparr> # map (\<lambda>s. s\<lparr>sl_start := False\<rparr>) rest in
          if list_all (\<lambda>s. compare (sl_id first) (sl_id s) = Equal) rest then run0
          else
            let run1 = sort_by (\<lambda>x y. then_ordering (compare (sl_id x) (sl_id y)) (cmp (sl_id x) (sl_id y))) run0
            in (hd run1)\<lparr>sl_start := True\<rparr> # mark_starts compare (sl_id (hd run1)) (tl run1))"

lemma dropWhile_shorter [termination_simp]: "length (dropWhile P xs) < Suc (length xs)"
  by (simp add: le_imp_less_Suc length_dropWhile_le)

text \<open>The runs of equal hashes at the front of what is left of a class.\<close>

fun hash_runs :: "slot list \<Rightarrow> slot list list" where
  "hash_runs [] = []"
| "hash_runs (s # ss) =
     (s # takeWhile (\<lambda>t. sl_hash t = sl_hash s) ss) #
       hash_runs (dropWhile (\<lambda>t. sl_hash t = sl_hash s) ss)"

definition split_class :: "(u32 \<Rightarrow> u32 \<Rightarrow> cmp_ordering) \<Rightarrow> slot list \<Rightarrow> slot list" where
  "split_class compare c =
     concat (map (split_run compare) (hash_runs (sort_key (\<lambda>s. (sl_hash s, sl_id s)) c)))"

text \<open>\<open>chunk_by(|_, next| !next.start)\<close>.\<close>

fun chunk_starts :: "slot list \<Rightarrow> slot list list" where
  "chunk_starts [] = []"
| "chunk_starts (s # ss) =
     (s # takeWhile (\<lambda>t. \<not> sl_start t) ss) # chunk_starts (dropWhile (\<lambda>t. \<not> sl_start t) ss)"

definition commit_class :: "icf_input \<Rightarrow> slot list \<Rightarrow> u32 list \<Rightarrow> u32 list" where
  "commit_class inp c cls = fold (\<lambda>s cls. cls[unat (sl_id s) := sl_id (hd c)]) c cls"

definition finish_class :: "icf_input \<Rightarrow> slot list \<Rightarrow> slot list" where
  "finish_class inp c =
     (if length c = 1 \<or> \<not> has_section_targets inp (sl_id (hd c))
      then map (\<lambda>s. s\<lparr>sl_done := True\<rparr>) c else c)"

definition commit :: "icf_input \<Rightarrow> u32 list \<Rightarrow> slot list \<Rightarrow> u32 list \<times> slot list" where
  "commit inp cls work =
     (fold (commit_class inp) (chunk_starts work) cls,
      filter (\<lambda>s. \<not> sl_done s) (concat (map (finish_class inp) (chunk_starts work))))"

definition count_classes :: "slot list \<Rightarrow> nat" where
  "count_classes work = length (filter sl_start work)"

section \<open>Folding\<close>

definition eligible :: "icf_mode \<Rightarrow> icf_section \<Rightarrow> bool" where
  "eligible mode s \<longleftrightarrow> is_foldable s \<and> (mode = All \<or> \<not> is_address_significant s)"

definition initial_work :: "hash_fn \<Rightarrow> icf_input \<Rightarrow> icf_mode \<Rightarrow> slot list" where
  "initial_work hf inp mode =
     map (\<lambda>index. \<lparr>sl_hash = constant_hash hf inp (of_nat index), sl_id = of_nat index,
                     sl_start = False, sl_done = False\<rparr>)
       (filter (\<lambda>index. eligible mode (ii_sections inp ! index)) [0..<length (ii_sections inp)])"

fun mark_hash_starts :: "u64 option \<Rightarrow> slot list \<Rightarrow> slot list" where
  "mark_hash_starts previous [] = []"
| "mark_hash_starts previous (s # ss) =
     s\<lparr>sl_start := (previous \<noteq> Some (sl_hash s))\<rparr> # mark_hash_starts (Some (sl_hash s)) ss"

definition round_zero :: "hash_fn \<Rightarrow> icf_input \<Rightarrow> icf_mode \<Rightarrow> u32 list \<times> slot list" where
  "round_zero hf inp mode =
     (let work = mark_hash_starts None (sort_key (\<lambda>s. (sl_hash s, sl_id s)) (initial_work hf inp mode));
          work = concat (map (split_run (compare_constant inp)) (chunk_starts work))
      in commit inp (map of_nat [0..<icf_len inp]) work)"

text \<open>One refinement round before the commit.\<close>

definition refine :: "hash_fn \<Rightarrow> icf_input \<Rightarrow> u32 list \<Rightarrow> slot list \<Rightarrow> slot list" where
  "refine hf inp cls work =
     (let work = map (\<lambda>s. s\<lparr>sl_hash := variable_hash hf inp cls (sl_id s)\<rparr>) work
      in concat (map (split_class (compare_variable inp cls)) (chunk_starts work)))"

partial_function (option) refine_loop :: "hash_fn \<Rightarrow> icf_input \<Rightarrow> u32 list \<Rightarrow> slot list \<Rightarrow> usize \<Rightarrow>
    (u32 list \<times> usize) option" where
  "refine_loop hf inp cls work rounds =
     (if work = [] then Some (cls, rounds)
      else
        let before = count_classes work;
            work' = refine hf inp cls work;
            after = count_classes work';
            r = commit inp cls work'
        in if after = before then Some (fst r, rounds + 1)
           else refine_loop hf inp (fst r) (snd r) (rounds + 1))"

declare refine_loop.simps [code]

record icf_result =
  ic_fold_into :: "section_id list"
  ic_rounds :: usize

definition fold_identical :: "hash_fn \<Rightarrow> icf_input \<Rightarrow> icf_mode \<Rightarrow> icf_result option" where
  "fold_identical hf inp mode =
     (case round_zero hf inp mode of (cls, work) \<Rightarrow>
        map_option (\<lambda>(cls, rounds). \<lparr>ic_fold_into = map id_from_u32 cls, ic_rounds = rounds\<rparr>)
          (refine_loop hf inp cls work 1))"

section \<open>The result\<close>

definition representative :: "icf_result \<Rightarrow> section_id \<Rightarrow> section_id" where
  "representative r s = (case get_nth (ic_fold_into r) (id_index s) of Some x \<Rightarrow> x | None \<Rightarrow> s)"

definition is_folded :: "icf_result \<Rightarrow> section_id \<Rightarrow> bool" where
  "is_folded r s \<longleftrightarrow> representative r s \<noteq> s"

definition num_folded :: "icf_result \<Rightarrow> usize" where
  "num_folded r = length (filter (\<lambda>(index, rep). id_index rep \<noteq> index)
     (List.enumerate 0 (ic_fold_into r)))"

record icf_report =
  rp_kept :: "section_id list"
  rp_bounds :: "usize list"
  rp_folded :: "section_id list"

definition report_pairs :: "icf_result \<Rightarrow> (section_id \<times> section_id) list" where
  "report_pairs r =
     sort_key fst (map (\<lambda>(index, rep). (rep, the (new_id index)))
       (filter (\<lambda>(index, rep). id_index rep \<noteq> index) (List.enumerate 0 (ic_fold_into r))))"

definition report_push :: "section_id \<times> section_id \<Rightarrow> icf_report \<Rightarrow> icf_report" where
  "report_push p rp =
     (case p of (rep, member) \<Rightarrow>
        let rp1 = (if rp_kept rp = [] \<or> last (rp_kept rp) \<noteq> rep then
              let rp0 = (if rp_kept rp \<noteq> [] then rp\<lparr>rp_bounds := rp_bounds rp @ [length (rp_folded rp)]\<rparr> else rp)
              in rp0\<lparr>rp_kept := rp_kept rp0 @ [rep]\<rparr>
            else rp)
        in rp1\<lparr>rp_folded := rp_folded rp1 @ [member]\<rparr>)"

definition report :: "icf_result \<Rightarrow> icf_report" where
  "report r =
     (let rp = fold report_push (report_pairs r) \<lparr>rp_kept = [], rp_bounds = [0], rp_folded = []\<rparr>
      in if rp_kept rp \<noteq> [] then rp\<lparr>rp_bounds := rp_bounds rp @ [length (rp_folded rp)]\<rparr> else rp)"

definition report_groups :: "icf_report \<Rightarrow> (section_id \<times> section_id list) list" where
  "report_groups rp =
     map (\<lambda>(index, kept). (kept,
        case get_range (rp_folded rp) (rp_bounds rp ! index) (rp_bounds rp ! (index + 1)) of
          Some xs \<Rightarrow> xs | None \<Rightarrow> []))
       (List.enumerate 0 (rp_kept rp))"

end
