(* ===== verification/IcfSplit.thy ===== *)
theory IcfSplit
  imports Icf
begin

text \<open>
  Splitting in identical code folding: the two comparisons are total preorders, a run or a class is
  split into exactly the equivalence classes of the comparison, whatever the hash, and every class
  comes out with ascending section numbers.
\<close>

section \<open>The comparisons\<close>

lemma cmp_pair: "then_ordering (cmp a b) (cmp c d) = cmp (a, c) (b, d)"
  by (cases "cmp a b") (auto simp: cmp_def split: if_splits)

definition constant_key :: "icf_input \<Rightarrow> u32 \<Rightarrow>
    (((u64 \<times> nat) \<times> nat) \<times> u8 list) \<times> (u64 \<times> u32 \<times> int \<times> u8 \<times> u64) list" where
  "constant_key inp a =
     ((((is_key (folder_section inp a), length (is_contents (folder_section inp a))),
        length (folder_relocs inp a)), is_contents (folder_section inp a)),
      map reloc_key (folder_relocs inp a))"

lemma compare_constant_key:
  "compare_constant inp a b = cmp (constant_key inp a) (constant_key inp b)"
  by (simp add: compare_constant_def Let_def cmp_pair constant_key_def)

lemma compare_variable_key:
  "compare_variable inp cls a b =
     cmp (map (variable_key cls) (folder_relocs inp a)) (map (variable_key cls) (folder_relocs inp b))"
  by (simp add: compare_variable_def)

interpretation constant_order: comparison "compare_constant inp" for inp
  unfolding compare_constant_key [abs_def] by (rule comparison_of_key)

interpretation variable_order: comparison "compare_variable inp cls" for inp cls
  unfolding compare_variable_def [abs_def] by (rule comparison_of_key)

text \<open>Equal parts are written to the hasher alike.\<close>

lemma constant_hash_eq: "compare_constant inp a b = Equal \<Longrightarrow> constant_hash hf inp a = constant_hash hf inp b"
proof -
  assume "compare_constant inp a b = Equal"
  then have eq: "is_key (folder_section inp a) = is_key (folder_section inp b)"
    "is_contents (folder_section inp a) = is_contents (folder_section inp b)"
    "map reloc_key (folder_relocs inp a) = map reloc_key (folder_relocs inp b)"
    by (auto simp: compare_constant_key constant_key_def)
  define w where "w = (\<lambda>(offset, kind, addend, tag, v).
    [WriteU64 offset, WriteU32 kind, WriteI64 addend, WriteU8 tag, WriteU64 v])"
  have w: "concat (map (\<lambda>reloc. let (tag, v) = target_shape (ir_target reloc) in
            [WriteU64 (ir_offset reloc), WriteU32 (ir_kind reloc), WriteI64 (ir_addend reloc),
             WriteU8 tag, WriteU64 v]) rs) = concat (map w (map reloc_key rs))" for rs
    by (induction rs) (auto simp: w_def reloc_key_def split: prod.splits)
  show ?thesis
    unfolding constant_hash_def Let_def w [unfolded Let_def] using eq by (metis length_map)
qed

section \<open>Classes\<close>

text \<open>The lists of Cs are the classes of an equivalence on X, each with ascending members.\<close>

definition classes :: "(u32 \<Rightarrow> u32 \<Rightarrow> bool) \<Rightarrow> u32 set \<Rightarrow> u32 list list \<Rightarrow> bool" where
  "classes eq X Cs \<longleftrightarrow> set (concat Cs) = X \<and> distinct (concat Cs) \<and>
     (\<forall>C\<in>set Cs. C \<noteq> [] \<and> sorted C \<and> (\<forall>x\<in>set C. \<forall>y\<in>X. y \<in> set C \<longleftrightarrow> eq x y))"

lemma classes_Nil [simp]: "classes eq {} []"
  by (simp add: classes_def)

lemma classes_append:
  assumes "classes eq X Cs" and "classes eq Y Ds" and "X \<inter> Y = {}"
    and "\<forall>x\<in>X. \<forall>y\<in>Y. \<not> eq x y \<and> \<not> eq y x"
  shows "classes eq (X \<union> Y) (Cs @ Ds)"
  unfolding classes_def
proof (intro conjI ballI)
  show "set (concat (Cs @ Ds)) = X \<union> Y" "distinct (concat (Cs @ Ds))"
    using assms(1-3) by (auto simp: classes_def)
next
  fix C assume C: "C \<in> set (Cs @ Ds)"
  then show "C \<noteq> []" "sorted C" using assms(1,2) by (auto simp: classes_def)
  fix x y assume x: "x \<in> set C" and y: "y \<in> X \<union> Y"
  from C have "C \<in> set Cs \<or> C \<in> set Ds" by simp
  then show "y \<in> set C \<longleftrightarrow> eq x y"
  proof
    assume C: "C \<in> set Cs"
    then have "set C \<subseteq> X" using assms(1) by (auto simp: classes_def)
    with C x y assms show ?thesis unfolding classes_def by blast
  next
    assume C: "C \<in> set Ds"
    then have "set C \<subseteq> Y" using assms(2) by (auto simp: classes_def)
    with C x y assms show ?thesis unfolding classes_def by blast
  qed
qed

lemma classes_eq_iff:
  assumes "classes eq X Cs" and "C \<in> set Cs" and "x \<in> set C" and "y \<in> X"
  shows "y \<in> set C \<longleftrightarrow> eq x y"
  using assms by (auto simp: classes_def)

lemma classes_cong:
  assumes "classes eq X Cs" and "\<And>x y. x \<in> X \<Longrightarrow> y \<in> X \<Longrightarrow> eq x y \<longleftrightarrow> eq' x y"
  shows "classes eq' X Cs"
proof -
  have "set C \<subseteq> X" if "C \<in> set Cs" for C
    using assms(1) that by (auto simp: classes_def)
  with assms show ?thesis
    unfolding classes_def by (metis subsetD)
qed

section \<open>Chunks\<close>

definition starts_ok :: "slot list \<Rightarrow> bool" where
  "starts_ok w \<longleftrightarrow> w = [] \<or> sl_start (hd w)"

definition class_ids :: "slot list \<Rightarrow> u32 list list" where
  "class_ids w = map (map sl_id) (chunk_starts w)"

lemma chunk_starts_concat [simp]: "concat (chunk_starts w) = w"
  by (induction w rule: chunk_starts.induct) auto

lemma concat_class_ids: "concat (class_ids w) = map sl_id w"
  by (metis class_ids_def map_concat chunk_starts_concat)

lemma dropWhile_starts: "dropWhile (\<lambda>t. \<not> sl_start t) ss = [] \<or> sl_start (hd (dropWhile (\<lambda>t. \<not> sl_start t) ss))"
  using hd_dropWhile by blast

lemma chunk_starts_append:
  "starts_ok ys \<Longrightarrow> chunk_starts (xs @ ys) = chunk_starts xs @ chunk_starts ys"
proof (induction xs rule: chunk_starts.induct)
  case (2 s ss)
  show ?case
  proof (cases "list_all (\<lambda>t. \<not> sl_start t) ss")
    case True
    then have "takeWhile (\<lambda>t. \<not> sl_start t) ss = ss" "dropWhile (\<lambda>t. \<not> sl_start t) ss = []"
      by (auto simp: list_all_iff)
    moreover have "takeWhile (\<lambda>t. \<not> sl_start t) (ss @ ys) = ss" "dropWhile (\<lambda>t. \<not> sl_start t) (ss @ ys) = ys"
      using True "2.prems" by (cases ys; auto simp: list_all_iff starts_ok_def takeWhile_append dropWhile_append)+
    ultimately show ?thesis by (simp only: chunk_starts.simps append_Cons append_Nil)
  next
    case False
    then show ?thesis
      using "2.IH" "2.prems" by (auto simp: list_all_iff takeWhile_append dropWhile_append)
  qed
qed simp

lemma chunk_starts_concat_starts:
  "\<forall>w\<in>set ws. starts_ok w \<Longrightarrow> chunk_starts (concat ws) = concat (map chunk_starts ws)"
proof (induction ws)
  case (Cons w ws)
  have "starts_ok (concat ws)"
    using Cons.prems by (induction ws) (auto simp: starts_ok_def hd_append)
  with Cons show ?case by (simp add: chunk_starts_append)
qed simp

lemma class_ids_concat:
  "\<forall>w\<in>set ws. starts_ok w \<Longrightarrow> class_ids (concat ws) = concat (map class_ids ws)"
  by (simp add: class_ids_def [abs_def] chunk_starts_concat_starts map_concat comp_def)

lemma starts_ok_concat: "\<forall>w\<in>set ws. starts_ok w \<Longrightarrow> starts_ok (concat ws)"
  by (induction ws) (auto simp: starts_ok_def hd_append)

lemma chunk_shape:
  "starts_ok w \<Longrightarrow> c \<in> set (chunk_starts w) \<Longrightarrow>
     c \<noteq> [] \<and> sl_start (hd c) \<and> (\<forall>t\<in>set (tl c). \<not> sl_start t)"
proof (induction w rule: chunk_starts.induct)
  case (2 s ss)
  let ?rest = "dropWhile (\<lambda>t. \<not> sl_start t) ss"
  from "2.prems"(2) consider "c = s # takeWhile (\<lambda>t. \<not> sl_start t) ss" | "c \<in> set (chunk_starts ?rest)"
    by auto
  then show ?case
  proof cases
    case 1
    then show ?thesis
      using "2.prems"(1) by (auto simp: starts_ok_def dest: set_takeWhileD)
  next
    case 2
    have "starts_ok ?rest" using dropWhile_starts by (auto simp: starts_ok_def)
    with 2 "2.IH" show ?thesis by blast
  qed
qed simp

lemma single_chunk:
  "c \<noteq> [] \<Longrightarrow> \<forall>t\<in>set (tl c). \<not> sl_start t \<Longrightarrow> chunk_starts c = [c]"
proof (cases c)
  case (Cons a list)
  assume "\<forall>t\<in>set (tl c). \<not> sl_start t"
  with Cons have "takeWhile (\<lambda>t. \<not> sl_start t) list = list" "dropWhile (\<lambda>t. \<not> sl_start t) list = []"
    by auto
  with Cons show ?thesis by (simp only: chunk_starts.simps)
qed simp

lemma chunk_starts_of_chunks:
  assumes "starts_ok w" and "set cs \<subseteq> set (chunk_starts w)"
  shows "chunk_starts (concat cs) = cs \<and> starts_ok (concat cs)"
proof -
  have shape: "c \<noteq> [] \<and> sl_start (hd c) \<and> (\<forall>t\<in>set (tl c). \<not> sl_start t)" if "c \<in> set cs" for c
    using assms that chunk_shape by blast
  then have "map chunk_starts cs = map (\<lambda>c. [c]) cs"
    by (auto intro!: single_chunk)
  then have "concat (map chunk_starts cs) = cs"
    by (simp only: concat_map_singleton map_ident)
  moreover have "\<forall>c\<in>set cs. starts_ok c"
    using shape by (simp add: starts_ok_def)
  ultimately show ?thesis
    by (simp add: chunk_starts_concat_starts starts_ok_concat)
qed

lemma count_classes_chunks: "starts_ok w \<Longrightarrow> count_classes w = length (chunk_starts w)"
proof (induction w rule: chunk_starts.induct)
  case (2 s ss)
  have "filter sl_start ss = filter sl_start (dropWhile (\<lambda>t. \<not> sl_start t) ss)"
    by (induction ss) auto
  moreover have "starts_ok (dropWhile (\<lambda>t. \<not> sl_start t) ss)"
    using dropWhile_starts by (auto simp: starts_ok_def)
  ultimately show ?case
    using 2 by (simp add: count_classes_def starts_ok_def)
qed (simp add: count_classes_def)

lemma chunk_starts_map:
  "(\<And>s. sl_start (f s) = sl_start s) \<Longrightarrow> chunk_starts (map f w) = map (map f) (chunk_starts w)"
  by (induction w rule: chunk_starts.induct) (auto simp: takeWhile_map dropWhile_map comp_def)

section \<open>Splitting a run\<close>

text \<open>Grouping neighbours that compare equal: what the start flags describe.\<close>

fun group_adj :: "('a \<Rightarrow> 'a \<Rightarrow> bool) \<Rightarrow> 'a list \<Rightarrow> 'a list list" where
  "group_adj eq [] = []"
| "group_adj eq [x] = [[x]]"
| "group_adj eq (x # y # zs) =
     (if eq x y then (x # hd (group_adj eq (y # zs))) # tl (group_adj eq (y # zs))
      else [x] # group_adj eq (y # zs))"

lemma group_adj_nonempty [simp]: "group_adj eq xs = [] \<longleftrightarrow> xs = []"
  by (induction eq xs rule: group_adj.induct) auto

lemma group_adj_hd: "xs \<noteq> [] \<Longrightarrow> hd (group_adj eq xs) \<noteq> [] \<and> hd (hd (group_adj eq xs)) = hd xs"
  by (induction eq xs rule: group_adj.induct) auto

lemma class_ids_unfold:
  "class_ids (s # t # ss) =
     (if sl_start t then [sl_id s] # class_ids (t # ss)
      else (sl_id s # hd (class_ids (t # ss))) # tl (class_ids (t # ss)))"
  by (simp add: class_ids_def)

lemma class_ids_mark_starts:
  "class_ids (s # mark_starts compare (sl_id s) ss) =
     group_adj (\<lambda>x y. compare x y = Equal) (map sl_id (s # ss))"
proof (induction ss arbitrary: s)
  case Nil
  then show ?case by (simp add: class_ids_def)
next
  case (Cons t ss)
  let ?t = "t\<lparr>sl_start := (compare (sl_id s) (sl_id t) \<noteq> Equal)\<rparr>"
  have "class_ids (?t # mark_starts compare (sl_id t) ss) =
      group_adj (\<lambda>x y. compare x y = Equal) (map sl_id (t # ss))"
    using Cons [of ?t] by simp
  then show ?case
    by (simp only: mark_starts.simps class_ids_unfold list.map group_adj.simps slot.simps
        if_distrib [of Not] cong: if_cong) simp
qed

lemma group_adj_classes:
  fixes compare :: "u32 \<Rightarrow> u32 \<Rightarrow> cmp_ordering"
  assumes "comparison compare"
    and "sorted_wrt (\<lambda>x y. compare x y = Less \<or> compare x y = Equal \<and> x < y) xs"
  shows "classes (\<lambda>x y. compare x y = Equal) (set xs) (group_adj (\<lambda>x y. compare x y = Equal) xs)"
  using assms(2)
proof (induction "\<lambda>x y. compare x y = Equal" xs rule: group_adj.induct)
  case 1
  then show ?case by simp
next
  case (2 x)
  then show ?case using comparison.compare_refl [OF assms(1)] by (simp add: classes_def)
next
  case (3 x y zs)
  let ?eq = "\<lambda>x y. compare x y = Equal" and ?G = "group_adj (\<lambda>x y. compare x y = Equal) (y # zs)"
  note refl = comparison.compare_refl [OF assms(1)]
    and sym = comparison.compare_equal_sym [OF assms(1)]
    and trans = comparison.compare_equal_trans [OF assms(1)]
  have sorted: "sorted_wrt (\<lambda>x y. compare x y = Less \<or> compare x y = Equal \<and> x < y) (y # zs)"
    using "3.prems" by simp
  have xnew: "x \<notin> set (y # zs)"
    using "3.prems" refl by auto
  have yle: "compare y z \<noteq> Greater" if "z \<in> set (y # zs)" for z
    using that sorted refl by auto
  show ?case
  proof (cases "?eq x y")
    case False
    then have IH: "classes ?eq (set (y # zs)) ?G" using "3.hyps" sorted by blast
    have less: "compare x y = Less" using "3.prems" False by auto
    have "compare x z = Less" if "z \<in> set (y # zs)" for z
      using comparison.compare_Less_le_trans [OF assms(1) less yle [OF that]] .
    then have "\<forall>u\<in>{x}. \<forall>z\<in>set (y # zs). \<not> ?eq u z \<and> \<not> ?eq z u"
      using sym by fastforce
    moreover have "classes ?eq {x} [[x]]" using refl by (simp add: classes_def)
    ultimately have "classes ?eq ({x} \<union> set (y # zs)) ([[x]] @ ?G)"
      using IH xnew by (intro classes_append) auto
    with False show ?thesis by (simp add: insert_commute)
  next
    case True
    obtain C Ds where G: "?G = C # Ds" by (cases ?G) auto
    have IH: "classes ?eq (set (y # zs)) (C # Ds)"
      using True "3.hyps"(1) sorted G by simp
    have C: "C \<noteq> []" "hd C = y" using group_adj_hd [of "y # zs" ?eq] G by auto
    then have yC: "y \<in> set C" by (metis list.set_sel(1))
    have Csub: "set C \<subseteq> set (y # zs)" "set (concat Ds) \<subseteq> set (y # zs)"
      using IH by (auto simp: classes_def)
    have inC: "z \<in> set C \<longleftrightarrow> ?eq y z" if "z \<in> set (y # zs)" for z
      by (rule classes_eq_iff [OF IH _ yC that]) simp
    have eqx: "?eq x z \<longleftrightarrow> ?eq y z" "?eq z x \<longleftrightarrow> ?eq z y" for z
      using True sym trans by blast+
    have less: "x < z" if "z \<in> set C" for z
    proof -
      have "x < y" using "3.prems" True by auto
      moreover have "sorted C" using IH by (simp add: classes_def)
      then have "y \<le> z" using C that by (cases C) auto
      ultimately show ?thesis by simp
    qed
    have "classes ?eq (set (x # y # zs)) ((x # C) # Ds)"
      unfolding classes_def
    proof (intro conjI ballI)
      show "set (concat ((x # C) # Ds)) = set (x # y # zs)"
        using IH by (auto simp: classes_def)
      show "distinct (concat ((x # C) # Ds))"
        using IH xnew Csub by (auto simp: classes_def)
    next
      fix D assume "D \<in> set ((x # C) # Ds)"
      then consider (first) "D = x # C" | (later) "D \<in> set Ds" by auto
      note D_cases = this
      show "D \<noteq> []"
        using D_cases IH by cases (auto simp: classes_def)
      show "sorted D"
        using D_cases IH less by cases (auto simp: classes_def intro: less_imp_le)
      fix u v assume u: "u \<in> set D" and v: "v \<in> set (x # y # zs)"
      show "v \<in> set D \<longleftrightarrow> ?eq u v"
        using D_cases
      proof cases
        case first
        then consider "u = x" | "u \<in> set C" using u by auto
        then have yu: "?eq y u"
          using inC Csub(1) True sym by cases auto
        show ?thesis
        proof (cases "v = x")
          case True
          then show ?thesis using yu first eqx sym by auto
        next
          case False
          then have "v \<in> set D \<longleftrightarrow> ?eq y v" using v inC first by auto
          with yu sym trans show ?thesis by blast
        qed
      next
        case later
        then have D: "D \<in> set (C # Ds)" by simp
        have "C \<noteq> D" "y \<notin> set D"
          using IH yC later by (auto simp: classes_def)
        then have "\<not> ?eq u y" using classes_eq_iff [OF IH D u, of y] by simp
        moreover have "x \<notin> set D" using later Csub(2) xnew by auto
        ultimately show ?thesis
          using v eqx(2) [of u] classes_eq_iff [OF IH D u, of v] by (cases "v = x") auto
      qed
    qed
    with True G show ?thesis by simp
  qed
qed

text \<open>The part of a slot list that splitting keeps: the slots up to their start flags.\<close>

definition clear_start :: "slot \<Rightarrow> slot" where
  "clear_start s = s\<lparr>sl_start := False\<rparr>"

lemma clear_start_simps [simp]:
  "sl_id (clear_start s) = sl_id s" "sl_hash (clear_start s) = sl_hash s"
  "sl_done (clear_start s) = sl_done s" "clear_start (s\<lparr>sl_start := b\<rparr>) = clear_start s"
  by (simp_all add: clear_start_def)

lemma map_clear_mark_starts [simp]: "map clear_start (mark_starts compare p ss) = map clear_start ss"
  by (induction ss arbitrary: p) auto

lemma sorted_wrt_distinct:
  "sorted_wrt P xs \<Longrightarrow> distinct (map f xs) \<Longrightarrow> sorted_wrt (\<lambda>x y. P x y \<and> f x \<noteq> f y) xs"
  by (induction xs) (auto simp: image_iff)

lemma sorted_wrt_mono_set:
  "sorted_wrt P xs \<Longrightarrow> (\<And>x. x \<in> set xs \<Longrightarrow> H x) \<Longrightarrow> (\<And>x y. H x \<Longrightarrow> H y \<Longrightarrow> P x y \<Longrightarrow> Q x y) \<Longrightarrow>
     sorted_wrt Q xs"
  by (induction xs) auto

lemma split_run_spec:
  assumes "comparison compare" and "run \<noteq> []" and "sorted_wrt (<) (map sl_id run)"
  shows "starts_ok (split_run compare run)" and "split_run compare run \<noteq> []"
    and "mset (map clear_start (split_run compare run)) = mset (map clear_start run)"
    and "classes (\<lambda>x y. compare x y = Equal) (sl_id ` set run) (class_ids (split_run compare run))"
proof -
  obtain first rest where run: "run = first # rest" using assms(2) by (cases run) auto
  define run0 where "run0 = first\<lparr>sl_start := True\<rparr> # map (\<lambda>s. s\<lparr>sl_start := False\<rparr>) rest"
  have ids0: "map sl_id run0 = map sl_id run" "map clear_start run0 = map clear_start run"
    by (simp_all add: run0_def run comp_def clear_start_def)
  note refl = comparison.compare_refl [OF assms(1)]
    and sym = comparison.compare_equal_sym [OF assms(1)]
    and trans = comparison.compare_equal_trans [OF assms(1)]
  show "starts_ok (split_run compare run)" "split_run compare run \<noteq> []"
    by (auto simp: split_run_def run Let_def starts_ok_def)
  show "mset (map clear_start (split_run compare run)) = mset (map clear_start run)"
    and "classes (\<lambda>x y. compare x y = Equal) (sl_id ` set run) (class_ids (split_run compare run))"
  proof -
    let ?goal = "mset (map clear_start (split_run compare run)) = mset (map clear_start run) \<and>
      classes (\<lambda>x y. compare x y = Equal) (sl_id ` set run) (class_ids (split_run compare run))"
    have ?goal
    proof (cases "list_all (\<lambda>s. compare (sl_id first) (sl_id s) = Equal) rest")
      case True
      then have r: "split_run compare run = run0"
        by (simp add: split_run_def run Let_def run0_def)
      have "chunk_starts run0 = [run0]"
        by (rule single_chunk) (auto simp: run0_def)
      then have "class_ids run0 = [map sl_id run]" by (simp add: class_ids_def ids0)
      moreover have "compare (sl_id first) x = Equal" if "x \<in> sl_id ` set run" for x
        using True that refl by (auto simp: run list_all_iff)
      then have "compare x y = Equal" if "x \<in> sl_id ` set run" "y \<in> sl_id ` set run" for x y
        using that sym trans by blast
      then have "classes (\<lambda>x y. compare x y = Equal) (sl_id ` set run) [map sl_id run]"
        using assms(2,3) by (auto simp: classes_def strict_sorted_iff)
      ultimately show ?thesis by (simp only: r ids0(2))
    next
      case False
      let ?o = "\<lambda>x y. then_ordering (compare (sl_id x) (sl_id y)) (cmp (sl_id x) (sl_id y))"
      define run1 where "run1 = sort_by ?o run0"
      have m1: "mset run1 = mset run0" by (simp add: run1_def)
      obtain h t where ht: "run1 = h # t"
        using m1 by (cases run1) (auto simp: run0_def)
      have r: "split_run compare run = h\<lparr>sl_start := True\<rparr> # mark_starts compare (sl_id h) t"
        using False ht by (simp add: split_run_def run Let_def run1_def run0_def)
      have ord: "comparison ?o"
        by (rule comparison_then [OF comparison_comp [OF assms(1)] comparison_of_key])
      have dist: "distinct (map sl_id run1)"
        using assms(3) m1 ids0(1) by (metis mset_map mset_eq_imp_distinct_iff strict_sorted_iff)
      have "sorted_wrt (\<lambda>x y. ?o x y \<noteq> Greater) run1"
        unfolding run1_def by (rule comparison.sort_by_sorted [OF ord])
      then have "sorted_wrt (\<lambda>x y. ?o x y \<noteq> Greater \<and> sl_id x \<noteq> sl_id y) run1"
        using dist by (rule sorted_wrt_distinct)
      then have sw: "sorted_wrt (\<lambda>x y. compare x y = Less \<or> compare x y = Equal \<and> x < y) (map sl_id run1)"
        unfolding sorted_wrt_map
        by (rule sorted_wrt_mono_rel [rotated]) (auto intro: cmp_ordering.exhaust)
      have "class_ids (split_run compare run) = group_adj (\<lambda>x y. compare x y = Equal) (map sl_id run1)"
        using class_ids_mark_starts [of "h\<lparr>sl_start := True\<rparr>" compare t] by (simp add: r ht)
      moreover have "set (map sl_id run1) = sl_id ` set run"
        using m1 ids0(1) by (metis mset_map set_mset_mset list.set_map)
      moreover have "mset (map clear_start (split_run compare run)) = mset (map clear_start run)"
        using m1 ids0(2) by (simp add: r) (metis ht list.map(2) mset.simps(2) mset_map)
      ultimately show ?thesis
        using group_adj_classes [OF assms(1) sw] by simp
    qed
    then show "mset (map clear_start (split_run compare run)) = mset (map clear_start run)"
      "classes (\<lambda>x y. compare x y = Equal) (sl_id ` set run) (class_ids (split_run compare run))"
      by blast+
  qed
qed

section \<open>Splitting a class\<close>

lemma hash_runs_concat [simp]: "concat (hash_runs w) = w"
  by (induction w rule: hash_runs.induct) auto

lemma classes_runs:
  assumes "comparison compare" and "\<forall>s\<in>set w. sl_hash s = h (sl_id s)"
    and "\<forall>x\<in>sl_id ` set w. \<forall>y\<in>sl_id ` set w. compare x y = Equal \<longrightarrow> h x = h y"
    and "sorted_wrt (\<lambda>s t. (sl_hash s, sl_id s) < (sl_hash t, sl_id t)) w"
  shows "classes (\<lambda>x y. compare x y = Equal) (sl_id ` set w)
      (class_ids (concat (map (split_run compare) (hash_runs w)))) \<and>
    starts_ok (concat (map (split_run compare) (hash_runs w))) \<and>
    mset (map clear_start (concat (map (split_run compare) (hash_runs w)))) = mset (map clear_start w)"
  using assms(2-4)
proof (induction w rule: hash_runs.induct)
  case 1
  then show ?case by (simp add: class_ids_def starts_ok_def)
next
  case (2 s ss)
  let ?same = "\<lambda>t. sl_hash t = sl_hash s"
  let ?run = "s # takeWhile ?same ss" and ?rest = "dropWhile ?same ss"
  let ?r = "split_run compare ?run" and ?q = "concat (map (split_run compare) (hash_runs ?rest))"
  have w: "s # ss = ?run @ ?rest" by simp
  have prems: "\<forall>s\<in>set (?run @ ?rest). sl_hash s = h (sl_id s)"
    "\<forall>x\<in>sl_id ` set (?run @ ?rest). \<forall>y\<in>sl_id ` set (?run @ ?rest). compare x y = Equal \<longrightarrow> h x = h y"
    "sorted_wrt (\<lambda>s t. (sl_hash s, sl_id s) < (sl_hash t, sl_id t)) (?run @ ?rest)"
    using "2.prems" by (simp_all only: w [symmetric])
  have run_hash: "sl_hash t = sl_hash s" if "t \<in> set ?run" for t
    using that by (auto dest: set_takeWhileD)
  have rest_hash: "sl_hash s < sl_hash t" if t: "t \<in> set ?rest" for t
  proof -
    have sw: "sorted_wrt (\<lambda>s t. (sl_hash s, sl_id s) < (sl_hash t, sl_id t)) ?rest"
      "\<forall>x\<in>set ?run. \<forall>y\<in>set ?rest. (sl_hash x, sl_id x) < (sl_hash y, sl_id y)"
      using prems(3) unfolding sorted_wrt_append by blast+
    obtain z zs where rest: "?rest = z # zs" using t by (metis list.set_cases)
    then have "?rest \<noteq> []" by (simp only: list.discI not_False_eq_True)
    then have "\<not> ?same (hd ?rest)" by (rule hd_dropWhile)
    then have "sl_hash z \<noteq> sl_hash s" unfolding rest by simp
    moreover have "(sl_hash s, sl_id s) < (sl_hash z, sl_id z)"
      using sw(2) unfolding rest by simp
    moreover have "t = z \<or> (sl_hash z, sl_id z) < (sl_hash t, sl_id t)"
      using sw(1) t unfolding rest by auto
    ultimately show ?thesis by auto
  qed
  have "sorted_wrt (\<lambda>s t. (sl_hash s, sl_id s) < (sl_hash t, sl_id t)) ?run"
    using prems(3) unfolding sorted_wrt_append by blast
  then have sorted: "sorted_wrt (<) (map sl_id ?run)"
    unfolding sorted_wrt_map using run_hash by (rule sorted_wrt_mono_set) auto
  note run = split_run_spec [OF assms(1) _ sorted]
  have IH: "classes (\<lambda>x y. compare x y = Equal) (sl_id ` set ?rest) (class_ids ?q) \<and> starts_ok ?q \<and>
      mset (map clear_start ?q) = mset (map clear_start ?rest)"
  proof (rule "2.IH")
    have sub: "set ?rest \<subseteq> set (s # ss)" by (auto dest: set_dropWhileD)
    then show "\<forall>s\<in>set ?rest. sl_hash s = h (sl_id s)" using "2.prems"(1) by blast
    show "\<forall>x\<in>sl_id ` set ?rest. \<forall>y\<in>sl_id ` set ?rest. compare x y = Equal \<longrightarrow> h x = h y"
      using sub "2.prems"(2) by blast
    show "sorted_wrt (\<lambda>s t. (sl_hash s, sl_id s) < (sl_hash t, sl_id t)) ?rest"
      using prems(3) unfolding sorted_wrt_append by blast
  qed
  have split: "class_ids (?r @ ?q) = class_ids ?r @ class_ids ?q"
    using IH by (simp add: class_ids_def chunk_starts_append)
  have hx: "h (sl_id t) = sl_hash t" if "t \<in> set ?run \<union> set ?rest" for t
    by (rule bspec [OF prems(1), symmetric]) (unfold set_append, rule that)
  have apart: "h x \<noteq> h y" if xy: "x \<in> sl_id ` set ?run" "y \<in> sl_id ` set ?rest" for x y
  proof -
    obtain t u where "t \<in> set ?run" "x = sl_id t" "u \<in> set ?rest" "y = sl_id u"
      using xy by blast
    then have "h x = sl_hash s" "sl_hash s < h y"
      using hx run_hash [of t] rest_hash [of u] by (metis UnCI)+
    then show ?thesis by simp
  qed
  have no: "\<not> compare x y = Equal \<and> \<not> compare y x = Equal"
    if "x \<in> sl_id ` set ?run" "y \<in> sl_id ` set ?rest" for x y
    using apart [OF that] prems(2) that unfolding set_append image_Un by (metis UnCI)
  have "classes (\<lambda>x y. compare x y = Equal) (sl_id ` set ?run \<union> sl_id ` set ?rest) (class_ids ?r @ class_ids ?q)"
  proof (rule classes_append)
    show "classes (\<lambda>x y. compare x y = Equal) (sl_id ` set ?run) (class_ids ?r)"
      by (rule run(4)) (rule list.discI, rule refl)
    show "classes (\<lambda>x y. compare x y = Equal) (sl_id ` set ?rest) (class_ids ?q)" using IH by blast
    show "sl_id ` set ?run \<inter> sl_id ` set ?rest = {}" using apart by blast
    show "\<forall>x\<in>sl_id ` set ?run. \<forall>y\<in>sl_id ` set ?rest. \<not> compare x y = Equal \<and> \<not> compare y x = Equal"
      using no by blast
  qed
  moreover have "sl_id ` set ?run \<union> sl_id ` set ?rest = sl_id ` set (s # ss)"
    by (simp only: w set_append image_Un)
  moreover have "starts_ok (?r @ ?q)"
    using run(1,2) by (simp add: starts_ok_def hd_append)
  moreover have "mset (map clear_start (?r @ ?q)) = mset (map clear_start (s # ss))"
    using run(3) IH by (subst w) (simp only: map_append mset_append list.discI simp_thms)
  ultimately show ?case
    using split by simp
qed

lemma split_class_spec:
  assumes "comparison compare" and "distinct (map sl_id c)" and "\<forall>s\<in>set c. sl_hash s = h (sl_id s)"
    and "\<forall>x\<in>sl_id ` set c. \<forall>y\<in>sl_id ` set c. compare x y = Equal \<longrightarrow> h x = h y"
  shows "classes (\<lambda>x y. compare x y = Equal) (sl_id ` set c) (class_ids (split_class compare c))"
    and "starts_ok (split_class compare c)"
    and "mset (map clear_start (split_class compare c)) = mset (map clear_start c)"
proof -
  let ?k = "\<lambda>s. (sl_hash s, sl_id s)"
  let ?w = "sort_key ?k c"
  have m: "mset ?w = mset c" by simp
  then have "mset (map sl_id ?w) = mset (map sl_id c)" by (simp only: mset_map)
  then have "distinct (map sl_id ?w)"
    using assms(2) mset_eq_imp_distinct_iff by blast
  moreover have "sorted_wrt (\<lambda>s t. ?k s \<le> ?k t) ?w"
    using sorted_sort_key [of ?k c] unfolding sorted_wrt_map .
  ultimately have "sorted_wrt (\<lambda>s t. ?k s \<le> ?k t \<and> sl_id s \<noteq> sl_id t) ?w"
    by (intro sorted_wrt_distinct)
  then have "sorted_wrt (\<lambda>s t. ?k s < ?k t) ?w"
    by (rule sorted_wrt_mono_rel [rotated]) (auto simp: less_le)
  moreover have set: "set ?w = set c" by simp
  moreover have "mset (map clear_start ?w) = mset (map clear_start c)"
    using m by (simp only: mset_map)
  ultimately show "classes (\<lambda>x y. compare x y = Equal) (sl_id ` set c) (class_ids (split_class compare c))"
    "starts_ok (split_class compare c)"
    "mset (map clear_start (split_class compare c)) = mset (map clear_start c)"
    using classes_runs [OF assms(1), of ?w h] assms(3,4)
    unfolding split_class_def by auto
qed

text \<open>Round 0 marks the hash runs with start flags; splitting does not look at them.\<close>

lemma split_run_ignores_start:
  assumes "map clear_start r = map clear_start r'"
  shows "split_run compare r = split_run compare r'"
proof (cases r)
  case Nil
  with assms show ?thesis by simp
next
  case (Cons s ss)
  with assms obtain t ts where r': "r' = t # ts" and st: "clear_start s = clear_start t"
    "map clear_start ss = map clear_start ts"
    by (cases r') auto
  have upd: "x\<lparr>sl_start := b\<rparr> = (clear_start x)\<lparr>sl_start := b\<rparr>" for x b
    by (simp add: clear_start_def)
  have s1: "sl_id s = sl_id t" "s\<lparr>sl_start := b\<rparr> = t\<lparr>sl_start := b\<rparr>" for b
    using st(1) clear_start_simps(1) by (metis, metis upd)
  have ss1: "map (\<lambda>s. s\<lparr>sl_start := False\<rparr>) ss = map (\<lambda>s. s\<lparr>sl_start := False\<rparr>) ts"
    using st(2) by (simp add: clear_start_def [abs_def])
  have "map sl_id ss = map sl_id ts"
    using arg_cong [OF st(2), of "map sl_id"] by (simp add: comp_def)
  then have "list_all (\<lambda>u. compare (sl_id s) (sl_id u) = Equal) ss =
      list_all (\<lambda>u. compare (sl_id t) (sl_id u) = Equal) ts"
    unfolding s1(1) using list.pred_map [of "\<lambda>i. compare (sl_id t) i = Equal" sl_id, unfolded comp_def]
    by metis
  then show ?thesis
    by (simp add: split_run_def Cons r' Let_def s1 ss1)
qed

lemma mark_hash_takeWhile:
  "takeWhile (\<lambda>t. \<not> sl_start t) (mark_hash_starts (Some h) ss) =
     map clear_start (takeWhile (\<lambda>t. sl_hash t = h) ss) \<and>
   dropWhile (\<lambda>t. \<not> sl_start t) (mark_hash_starts (Some h) ss) =
     mark_hash_starts (Some h) (dropWhile (\<lambda>t. sl_hash t = h) ss)"
  by (induction ss) (auto simp: clear_start_def)

lemma split_marked_runs:
  "w = [] \<or> prev \<noteq> Some (sl_hash (hd w)) \<Longrightarrow>
     map (split_run compare) (chunk_starts (mark_hash_starts prev w)) = map (split_run compare) (hash_runs w)"
proof (induction w arbitrary: prev rule: hash_runs.induct)
  case (2 s ss)
  let ?rest = "dropWhile (\<lambda>t. sl_hash t = sl_hash s) ss"
  have "?rest = [] \<or> Some (sl_hash s) \<noteq> Some (sl_hash (hd ?rest))"
    using hd_dropWhile [of "\<lambda>t. sl_hash t = sl_hash s" ss] by fastforce
  note IH = "2.IH" [OF this]
  have "split_run compare (s\<lparr>sl_start := b\<rparr> # map clear_start (takeWhile (\<lambda>t. sl_hash t = sl_hash s) ss)) =
      split_run compare (s # takeWhile (\<lambda>t. sl_hash t = sl_hash s) ss)" for b
    by (rule split_run_ignores_start) (simp add: comp_def clear_start_def)
  then show ?case
    by (simp add: mark_hash_takeWhile IH)
qed simp

lemma round_zero_split:
  "round_zero hf inp mode =
     commit inp (map of_nat [0..<icf_len inp])
       (split_class (compare_constant inp) (initial_work hf inp mode))"
  by (simp add: round_zero_def Let_def split_class_def split_marked_runs)

end
