(* ===== verification/IcfCorrect.thy ===== *)
theory IcfCorrect
  imports IcfSplit
begin

text \<open>
  Identical code folding computes a greatest fixed point: two sections end in the same class exactly
  when some bisimulation relates them, the class number is the lowest member, and the refinement
  loop ends. Nothing here assumes anything of the hash.
\<close>

section \<open>What may fold\<close>

definition icf_ok :: "icf_input \<Rightarrow> bool" where
  "icf_ok inp \<longleftrightarrow> icf_len inp \<le> u32_max \<and> csr_invar (ii_relocs inp) \<and>
     csr_rows (ii_relocs inp) = icf_len inp \<and>
     (\<forall>r\<in>set (csr_values (ii_relocs inp)). \<forall>s off. ir_target r = TSection s off \<longrightarrow> id_index s < icf_len inp)"

definition elig :: "icf_input \<Rightarrow> icf_mode \<Rightarrow> u32 set" where
  "elig inp mode = {x. id_index x < icf_len inp \<and> eligible mode (ii_sections inp ! id_index x)}"

fun related_targets :: "(u32 \<Rightarrow> u32 \<Rightarrow> bool) \<Rightarrow> icf_target \<Rightarrow> icf_target \<Rightarrow> bool" where
  "related_targets R (TSection s a) (TSection t b) \<longleftrightarrow> R s t"
| "related_targets R _ _ \<longleftrightarrow> True"

text \<open>
  Two eligible sections are related only if their constant parts agree and corresponding targets
  are related; any other section only to itself.
\<close>

definition icf_bisim :: "icf_input \<Rightarrow> icf_mode \<Rightarrow> (u32 \<Rightarrow> u32 \<Rightarrow> bool) \<Rightarrow> bool" where
  "icf_bisim inp mode R \<longleftrightarrow> (\<forall>a b. R a b \<longrightarrow>
     a = b \<or>
     a \<in> elig inp mode \<and> b \<in> elig inp mode \<and> compare_constant inp a b = Equal \<and>
     list_all2 (\<lambda>x y. related_targets R (ir_target x) (ir_target y)) (folder_relocs inp a) (folder_relocs inp b))"

lemma icf_input_new_ok:
  assumes "icf_input_new sections relocs = Ok inp" and "csr_invar relocs"
  shows "icf_ok inp" and "inp = \<lparr>ii_sections = sections, ii_relocs = relocs\<rparr>"
proof -
  have none: "find_map_first f xs = None \<longleftrightarrow> (\<forall>x\<in>set xs. f x = None)" for f :: "icf_reloc \<Rightarrow> u32 option" and xs
    by (induction xs) (auto split: option.splits)
  show "inp = \<lparr>ii_sections = sections, ii_relocs = relocs\<rparr>"
    using assms by (auto simp: icf_input_new_def Let_def split: if_splits option.splits)
  then show "icf_ok inp"
    using assms
    by (auto simp: icf_input_new_def Let_def icf_ok_def icf_len_def none u32_try_from_def
        split: if_splits option.splits icf_target.splits) (meson not_le)
qed

section \<open>Committing a partition\<close>

definition store_class :: "u32 list \<Rightarrow> u32 list \<Rightarrow> u32 list" where
  "store_class C cls = fold (\<lambda>i cls. cls[id_index i := hd C]) C cls"

lemma store_same:
  "length (fold (\<lambda>i cls. cls[id_index i := r]) is cls) = length cls \<and>
   (\<forall>j<length cls. fold (\<lambda>i cls. cls[id_index i := r]) is cls ! j =
      (if j \<in> id_index ` set is then r else cls ! j))"
proof (induction "is" arbitrary: cls)
  case (Cons i "is")
  show ?case
    using Cons.IH [of "cls[id_index i := r]"] by (auto simp: nth_list_update)
qed simp

lemma store_class_get:
  "length (store_class C cls) = length cls"
  "j < length cls \<Longrightarrow> store_class C cls ! j = (if j \<in> id_index ` set C then hd C else cls ! j)"
  using store_same [of "hd C" C cls] by (simp_all add: store_class_def)

lemma store_classes_get:
  assumes "distinct (concat Cs)" and "\<forall>x\<in>set (concat Cs). id_index x < length cls"
  shows "length (fold store_class Cs cls) = length cls \<and>
    (\<forall>C\<in>set Cs. \<forall>x\<in>set C. class_of (fold store_class Cs cls) x = hd C) \<and>
    (\<forall>j<length cls. j \<notin> id_index ` set (concat Cs) \<longrightarrow> fold store_class Cs cls ! j = cls ! j)"
  using assms
proof (induction Cs arbitrary: cls)
  case (Cons C Cs)
  have IH: "length (fold store_class Cs (store_class C cls)) = length cls \<and>
    (\<forall>D\<in>set Cs. \<forall>x\<in>set D. class_of (fold store_class Cs (store_class C cls)) x = hd D) \<and>
    (\<forall>j<length cls. j \<notin> id_index ` set (concat Cs) \<longrightarrow>
       fold store_class Cs (store_class C cls) ! j = store_class C cls ! j)"
    using Cons.IH [of "store_class C cls"] Cons.prems by (simp add: store_class_get)
  have "class_of (fold store_class Cs (store_class C cls)) x = hd C" if x: "x \<in> set C" for x
  proof -
    have "id_index x < length cls" using Cons.prems(2) x by simp
    moreover have "id_index x \<notin> id_index ` set (concat Cs)"
      using Cons.prems(1) x by auto
    ultimately show ?thesis using IH x by (simp add: class_of_def store_class_get)
  qed
  moreover have "fold store_class Cs (store_class C cls) ! j = cls ! j"
    if "j < length cls" "j \<notin> id_index ` set (concat (C # Cs))" for j
  proof -
    have "j \<notin> id_index ` set (concat Cs)" "j \<notin> id_index ` set C" using that(2) by auto
    with IH that(1) show ?thesis by (simp add: store_class_get)
  qed
  ultimately show ?case using IH by simp
qed simp

lemma commit_class_store: "commit_class inp c cls = store_class (map sl_id c) cls" if "c \<noteq> []"
proof -
  have "fold (\<lambda>s cls. cls[unat (sl_id s) := r]) d cls = fold (\<lambda>i cls. cls[id_index i := r]) (map sl_id d) cls"
    for r d cls by (induction d arbitrary: cls) (auto simp: id_index_def)
  with that show ?thesis
    by (simp add: commit_class_def store_class_def hd_map)
qed

lemma chunk_nonempty: "c \<in> set (chunk_starts w) \<Longrightarrow> c \<noteq> []"
  by (induction w rule: chunk_starts.induct) auto

lemma chunk_subset: "c \<in> set (chunk_starts w) \<Longrightarrow> set c \<subseteq> set w"
proof -
  assume "c \<in> set (chunk_starts w)"
  then have "set c \<subseteq> set (concat (chunk_starts w))" unfolding set_concat by blast
  then show ?thesis by simp
qed

lemma commit_fst: "fst (commit inp cls work) = fold store_class (class_ids work) cls"
proof -
  have "fold (commit_class inp) cs cls = fold store_class (map (map sl_id) cs) cls" if "\<forall>c\<in>set cs. c \<noteq> []" for cs
    using that by (induction cs arbitrary: cls) (auto simp: commit_class_store)
  then show ?thesis by (simp add: commit_def class_ids_def chunk_nonempty)
qed

definition keeps :: "icf_input \<Rightarrow> slot list \<Rightarrow> bool" where
  "keeps inp c \<longleftrightarrow> length c \<noteq> 1 \<and> has_section_targets inp (sl_id (hd c))"

lemma commit_snd:
  assumes "\<forall>s\<in>set work. \<not> sl_done s"
  shows "snd (commit inp cls work) = concat (filter (keeps inp) (chunk_starts work))"
proof -
  have "filter (\<lambda>s. \<not> sl_done s) (finish_class inp c) = (if keeps inp c then c else [])"
    if "\<forall>s\<in>set c. \<not> sl_done s" for c
    using that by (auto simp: finish_class_def keeps_def filter_id_conv filter_empty_conv)
  then have "filter (\<lambda>s. \<not> sl_done s) (concat (map (finish_class inp) cs)) = concat (filter (keeps inp) cs)"
    if "\<forall>c\<in>set cs. \<forall>s\<in>set c. \<not> sl_done s" for cs
    using that by (induction cs) auto
  moreover have "\<forall>c\<in>set (chunk_starts work). \<forall>s\<in>set c. \<not> sl_done s"
    using assms chunk_starts_concat [of work] by (metis UN_I set_concat)
  ultimately show ?thesis by (simp add: commit_def)
qed

text \<open>What the classes of a partition look like after they are stored.\<close>

lemma stored_classes:
  assumes "classes eq X Cs" and "\<forall>x\<in>X. id_index x < length cls"
    and cls': "cls' = fold store_class Cs cls"
  shows "length cls' = length cls"
    and "x \<in> X \<Longrightarrow> class_of cls' x \<in> X \<and> class_of cls' x \<le> x \<and> class_of cls' (class_of cls' x) = class_of cls' x"
    and "x \<in> X \<Longrightarrow> y \<in> X \<Longrightarrow> class_of cls' x = class_of cls' y \<longleftrightarrow> eq x y"
    and "x \<notin> X \<Longrightarrow> id_index x < length cls \<Longrightarrow> class_of cls' x = class_of cls x"
proof -
  have X: "set (concat Cs) = X" and dist: "distinct (concat Cs)"
    using assms(1) by (auto simp: classes_def)
  note get = store_classes_get [OF dist, of cls, unfolded X, OF assms(2), folded cls']
  show "length cls' = length cls" using get by blast
  have member: "\<exists>C\<in>set Cs. x \<in> set C \<and> class_of cls' x = hd C \<and> C \<noteq> [] \<and> sorted C" if "x \<in> X" for x
    using get that X assms(1) by (fastforce simp: classes_def)
  show "class_of cls' x \<in> X \<and> class_of cls' x \<le> x \<and> class_of cls' (class_of cls' x) = class_of cls' x"
    if x: "x \<in> X" for x
  proof -
    obtain C where C: "C \<in> set Cs" "x \<in> set C" "class_of cls' x = hd C" "C \<noteq> []" "sorted C"
      using member [OF x] by blast
    then have h: "hd C \<in> set C" by simp
    moreover have "hd C \<le> x" using C(2,4,5) by (cases C) auto
    moreover have "hd C \<in> X" using h C(1) X by auto
    moreover have "class_of cls' (hd C) = hd C" using get C(1) h by blast
    ultimately show ?thesis using C(3) by simp
  qed
  show "class_of cls' x = class_of cls' y \<longleftrightarrow> eq x y" if x: "x \<in> X" and y: "y \<in> X" for x y
  proof -
    obtain C where C: "C \<in> set Cs" "x \<in> set C" "class_of cls' x = hd C" "C \<noteq> []"
      using member [OF x] by blast
    obtain D where D: "D \<in> set Cs" "y \<in> set D" "class_of cls' y = hd D" "D \<noteq> []"
      using member [OF y] by blast
    have "y \<in> set C \<longleftrightarrow> eq x y" using classes_eq_iff [OF assms(1) C(1,2) y] .
    moreover have "hd C = hd D \<longleftrightarrow> y \<in> set C"
    proof
      assume "hd C = hd D"
      then have "hd C \<in> set C \<inter> set D" using C(4) D(4) by (metis IntI list.set_sel(1))
      then have "C = D" using dist C(1) D(1) by (auto simp: distinct_concat_iff)
      with D(2) show "y \<in> set C" by simp
    next
      assume "y \<in> set C"
      then have "class_of cls' y = hd C" using get C(1) by blast
      with D(3) show "hd C = hd D" by simp
    qed
    ultimately show ?thesis using C(3) D(3) by simp
  qed
  show "class_of cls' x = class_of cls x" if "x \<notin> X" "id_index x < length cls" for x
    using get that by (auto simp: class_of_def)
qed

section \<open>The invariant of the rounds\<close>

definition icf_inv :: "icf_input \<Rightarrow> icf_mode \<Rightarrow> u32 list \<Rightarrow> slot list \<Rightarrow> bool" where
  "icf_inv inp mode cls work \<longleftrightarrow>
     length cls = icf_len inp \<and>
     (\<forall>x. id_index x < icf_len inp \<longrightarrow> x \<notin> elig inp mode \<longrightarrow> class_of cls x = x) \<and>
     starts_ok work \<and> (\<forall>s\<in>set work. \<not> sl_done s) \<and> sl_id ` set work \<subseteq> elig inp mode \<and>
     classes (\<lambda>x y. class_of cls x = class_of cls y) (sl_id ` set work) (class_ids work) \<and>
     (\<forall>x\<in>elig inp mode. \<forall>y\<in>elig inp mode. class_of cls x = class_of cls y \<longrightarrow>
        (x \<in> sl_id ` set work \<longleftrightarrow> y \<in> sl_id ` set work)) \<and>
     (\<forall>x\<in>elig inp mode. class_of cls x \<in> elig inp mode \<and> class_of cls x \<le> x \<and>
        class_of cls (class_of cls x) = class_of cls x) \<and>
     (\<forall>x\<in>elig inp mode. \<forall>y\<in>elig inp mode. class_of cls x = class_of cls y \<longrightarrow>
        compare_constant inp x y = Equal) \<and>
     (\<forall>x\<in>elig inp mode - sl_id ` set work. \<forall>y\<in>elig inp mode - sl_id ` set work.
        class_of cls x = class_of cls y \<longrightarrow> x = y \<or> \<not> has_section_targets inp x) \<and>
     (\<forall>R. icf_bisim inp mode R \<longrightarrow> (\<forall>x y. R x y \<longrightarrow> class_of cls x = class_of cls y))"

lemma icf_invD:
  assumes "icf_inv inp mode cls work"
  shows "length cls = icf_len inp"
    and "id_index x < icf_len inp \<Longrightarrow> x \<notin> elig inp mode \<Longrightarrow> class_of cls x = x"
    and "starts_ok work" and "s \<in> set work \<Longrightarrow> \<not> sl_done s" and "sl_id ` set work \<subseteq> elig inp mode"
    and "classes (\<lambda>x y. class_of cls x = class_of cls y) (sl_id ` set work) (class_ids work)"
    and "x \<in> elig inp mode \<Longrightarrow> y \<in> elig inp mode \<Longrightarrow> class_of cls x = class_of cls y \<Longrightarrow>
        x \<in> sl_id ` set work \<longleftrightarrow> y \<in> sl_id ` set work"
    and "x \<in> elig inp mode \<Longrightarrow> class_of cls x \<in> elig inp mode \<and> class_of cls x \<le> x \<and>
        class_of cls (class_of cls x) = class_of cls x"
    and "x \<in> elig inp mode \<Longrightarrow> y \<in> elig inp mode \<Longrightarrow> class_of cls x = class_of cls y \<Longrightarrow>
        compare_constant inp x y = Equal"
    and "x \<in> elig inp mode - sl_id ` set work \<Longrightarrow> y \<in> elig inp mode - sl_id ` set work \<Longrightarrow>
        class_of cls x = class_of cls y \<Longrightarrow> x = y \<or> \<not> has_section_targets inp x"
    and "icf_bisim inp mode R \<Longrightarrow> R x y \<Longrightarrow> class_of cls x = class_of cls y"
proof -
  note I = assms [unfolded icf_inv_def]
  show "length cls = icf_len inp" using I by (elim conjE)
  show "starts_ok work" using I by (elim conjE)
  show "sl_id ` set work \<subseteq> elig inp mode" using I by (elim conjE)
  show "classes (\<lambda>x y. class_of cls x = class_of cls y) (sl_id ` set work) (class_ids work)"
    using I by (elim conjE)
  show "id_index x < icf_len inp \<Longrightarrow> x \<notin> elig inp mode \<Longrightarrow> class_of cls x = x"
    using I by (elim conjE) (drule spec, drule (1) mp, drule (1) mp, assumption)
  show "s \<in> set work \<Longrightarrow> \<not> sl_done s"
    using I by (elim conjE) (drule (1) bspec, assumption)
  show "x \<in> elig inp mode \<Longrightarrow> y \<in> elig inp mode \<Longrightarrow> class_of cls x = class_of cls y \<Longrightarrow>
        x \<in> sl_id ` set work \<longleftrightarrow> y \<in> sl_id ` set work"
    using I by (metis (no_types, lifting))
  show "x \<in> elig inp mode \<Longrightarrow> class_of cls x \<in> elig inp mode \<and> class_of cls x \<le> x \<and>
        class_of cls (class_of cls x) = class_of cls x"
    using I by (metis (no_types, lifting))
  show "x \<in> elig inp mode \<Longrightarrow> y \<in> elig inp mode \<Longrightarrow> class_of cls x = class_of cls y \<Longrightarrow>
        compare_constant inp x y = Equal"
    using I by (metis (no_types, lifting))
  show "x \<in> elig inp mode - sl_id ` set work \<Longrightarrow> y \<in> elig inp mode - sl_id ` set work \<Longrightarrow>
        class_of cls x = class_of cls y \<Longrightarrow> x = y \<or> \<not> has_section_targets inp x"
    using I by (metis (no_types, lifting))
  show "icf_bisim inp mode R \<Longrightarrow> R x y \<Longrightarrow> class_of cls x = class_of cls y"
    using I by (elim conjE) (drule spec [of _ R], blast)
qed

lemma reloc_key_shape:
  "reloc_key r = reloc_key r' \<Longrightarrow>
     (\<exists>s a. ir_target r = TSection s a) \<longleftrightarrow> (\<exists>s a. ir_target r' = TSection s a)"
  by (cases "ir_target r"; cases "ir_target r'") (auto simp: reloc_key_def)

lemma constant_eq_relocs:
  assumes "compare_constant inp a b = Equal"
  shows "list_all2 (\<lambda>r r'. reloc_key r = reloc_key r') (folder_relocs inp a) (folder_relocs inp b)"
proof -
  have eq: "map reloc_key (folder_relocs inp a) = map reloc_key (folder_relocs inp b)"
    using assms by (simp add: compare_constant_key constant_key_def)
  then have len: "length (folder_relocs inp a) = length (folder_relocs inp b)"
    by (rule map_eq_imp_length_eq)
  with eq show ?thesis
    unfolding list_all2_conv_all_nth by (metis nth_map)
qed

lemma has_section_targets_iff:
  "has_section_targets inp c \<longleftrightarrow>
     (\<exists>i<length (folder_relocs inp c). \<exists>s off. ir_target (folder_relocs inp c ! i) = TSection s off)"
proof -
  have "(case t of TSection section offset \<Rightarrow> True | _ \<Rightarrow> False) \<longleftrightarrow> (\<exists>s off. t = TSection s off)" for t
    by (cases t) auto
  then show ?thesis by (simp add: has_section_targets_def list_ex_length)
qed

lemma has_section_targets_eq:
  assumes "compare_constant inp a b = Equal"
  shows "has_section_targets inp a \<longleftrightarrow> has_section_targets inp b"
  unfolding has_section_targets_iff
  using constant_eq_relocs [OF assms] reloc_key_shape unfolding list_all2_conv_all_nth by metis

lemma distinct_concat_filter: "distinct (concat Cs) \<Longrightarrow> distinct (concat (filter P Cs))"
  by (induction Cs) auto

lemma classes_filter:
  assumes "classes eq X Cs"
  shows "classes eq (set (concat (filter P Cs))) (filter P Cs)"
proof -
  have "distinct (concat (filter P Cs))"
    using assms by (simp add: classes_def distinct_concat_filter)
  moreover have "set (concat (filter P Cs)) \<subseteq> X"
    using assms by (auto simp: classes_def)
  ultimately show ?thesis
    using assms unfolding classes_def by (auto simp: subset_iff)
qed

lemma concat_filter_subset: "set (concat (filter P cs)) \<subseteq> set (concat cs)"
  by auto

text \<open>
  A commit establishes the invariant from a partition of the sections in play that refines the
  constant comparison and keeps bisimilar sections together, when the sections not in play already
  satisfy it.
\<close>

lemma commit_inv:
  fixes inp mode E defines "E \<equiv> elig inp mode"
  assumes len: "length cls = icf_len inp"
    and non: "\<And>x. id_index x < icf_len inp \<Longrightarrow> x \<notin> E \<Longrightarrow> class_of cls x = x"
    and st: "starts_ok w" and nd: "\<forall>s\<in>set w. \<not> sl_done s" and X: "X = sl_id ` set w" and XE: "X \<subseteq> E"
    and cl: "classes eq X (class_ids w)"
    and out: "\<And>x. x \<in> E - X \<Longrightarrow> class_of cls x \<in> E - X \<and> class_of cls x \<le> x \<and>
      class_of cls (class_of cls x) = class_of cls x"
    and outc: "\<And>x y. x \<in> E - X \<Longrightarrow> y \<in> E - X \<Longrightarrow> class_of cls x = class_of cls y \<Longrightarrow>
      compare_constant inp x y = Equal \<and> (x = y \<or> \<not> has_section_targets inp x)"
    and inc: "\<And>x y. x \<in> X \<Longrightarrow> y \<in> X \<Longrightarrow> eq x y \<Longrightarrow> compare_constant inp x y = Equal"
    and bis: "\<And>R x y. icf_bisim inp mode R \<Longrightarrow> R x y \<Longrightarrow> x \<noteq> y \<Longrightarrow>
      (x \<in> X \<longleftrightarrow> y \<in> X) \<and> (x \<in> X \<longrightarrow> eq x y) \<and> (x \<notin> X \<longrightarrow> class_of cls x = class_of cls y)"
  shows "icf_inv inp mode (fst (commit inp cls w)) (snd (commit inp cls w))"
proof -
  define cls' where "cls' = fold store_class (class_ids w) cls"
  define w' where "w' = concat (filter (keeps inp) (chunk_starts w))"
  have commit: "fst (commit inp cls w) = cls'" "snd (commit inp cls w) = w'"
    using commit_fst commit_snd [OF nd] by (auto simp: cls'_def w'_def)
  have Elen: "id_index x < length cls" if "x \<in> E" for x using that len by (simp add: E_def elig_def)
  then have Xlen: "\<forall>x\<in>X. id_index x < length cls" using XE by blast
  note sc = stored_classes [OF cl Xlen cls'_def]
  have chunks: "chunk_starts w' = filter (keeps inp) (chunk_starts w)" "starts_ok w'"
    using chunk_starts_of_chunks [OF st, of "filter (keeps inp) (chunk_starts w)"] by (auto simp: w'_def)
  have sub: "set w' \<subseteq> set w"
    using concat_filter_subset [of "keeps inp" "chunk_starts w"] by (simp only: w'_def chunk_starts_concat)
  let ?Y = "sl_id ` set w'"
  have YX: "?Y \<subseteq> X" using sub X by blast
  have sep: "class_of cls' x \<noteq> class_of cls' y" if "x \<in> X" "y \<in> E - X" for x y
    using sc(2) [OF that(1)] sc(4) [of y] out [OF that(2)] Elen [of y] that(2) by auto
  have chunk_of: "\<exists>c\<in>set (chunk_starts w). x \<in> sl_id ` set c" if "x \<in> X" for x
  proof -
    have "x \<in> sl_id ` set (concat (chunk_starts w))" using that X by simp
    then show ?thesis unfolding set_concat by blast
  qed
  have same: "y \<in> sl_id ` set c \<longleftrightarrow> eq x y" if "c \<in> set (chunk_starts w)" "x \<in> sl_id ` set c" "y \<in> X" for c x y
    using classes_eq_iff [OF cl, of "map sl_id c" x y] that by (simp add: class_ids_def)
  have inY: "x \<in> ?Y \<longleftrightarrow> keeps inp c" if c: "c \<in> set (chunk_starts w)" and x: "x \<in> sl_id ` set c" for c x
  proof
    assume "keeps inp c"
    with c x show "x \<in> ?Y" unfolding w'_def by auto
  next
    assume "x \<in> ?Y"
    then obtain d where d: "d \<in> set (chunk_starts w)" "keeps inp d" "x \<in> sl_id ` set d"
      unfolding w'_def by auto
    have "distinct (concat (class_ids w))" using cl by (simp add: classes_def)
    then have "\<forall>ys zs. ys \<in> set (class_ids w) \<and> zs \<in> set (class_ids w) \<and> ys \<noteq> zs \<longrightarrow> set ys \<inter> set zs = {}"
      unfolding distinct_concat_iff by blast
    moreover have "map sl_id c \<in> set (class_ids w)" "map sl_id d \<in> set (class_ids w)"
      "x \<in> set (map sl_id c) \<inter> set (map sl_id d)"
      using c d x by (auto simp: class_ids_def)
    ultimately have "map sl_id c = map sl_id d" by (metis empty_iff)
    moreover from this have "length c = length d" by (rule map_eq_imp_length_eq)
    moreover have "c \<noteq> []" "d \<noteq> []" using c d chunk_nonempty by blast+
    ultimately show "keeps inp c" using d(2) unfolding keeps_def by (metis hd_map)
  qed
  show ?thesis
    unfolding icf_inv_def commit E_def [symmetric]
  proof (intro conjI allI ballI impI)
    show "length cls' = icf_len inp" using sc(1) len by simp
    show "class_of cls' x = x" if "id_index x < icf_len inp" "x \<notin> E" for x
      using sc(4) [of x] non [OF that] that XE len by auto
    show "starts_ok w'" by (rule chunks)
    show "\<not> sl_done s" if "s \<in> set w'" for s using that sub nd by blast
    show "?Y \<subseteq> E" using YX XE by blast
    have "classes eq (set (concat (class_ids w'))) (class_ids w')"
    proof -
      have "class_ids w' = map (map sl_id) (filter (keeps inp) (chunk_starts w))"
        by (simp add: class_ids_def chunks)
      moreover have "\<exists>P. map (map sl_id) (filter (keeps inp) (chunk_starts w)) = filter P (class_ids w)"
        unfolding class_ids_def filter_map
        by (intro exI [of _ "\<lambda>C. length C \<noteq> 1 \<and> has_section_targets inp (hd C)"] arg_cong [where f = "map _"]
            filter_cong refl) (auto simp: keeps_def hd_map chunk_nonempty)
      ultimately obtain P where "class_ids w' = filter P (class_ids w)" by metis
      then show ?thesis using classes_filter [OF cl, of P] by (simp only:)
    qed
    then have "classes eq ?Y (class_ids w')" by (simp only: concat_class_ids set_map)
    then show "classes (\<lambda>x y. class_of cls' x = class_of cls' y) ?Y (class_ids w')"
      by (rule classes_cong) (use sc(3) YX in auto)
  next
    fix x y assume x: "x \<in> E" and y: "y \<in> E" and eq: "class_of cls' x = class_of cls' y"
    then have xy: "x \<in> X \<longleftrightarrow> y \<in> X" using sep by (metis DiffI)
    show "x \<in> ?Y \<longleftrightarrow> y \<in> ?Y"
    proof (cases "x \<in> X")
      case False
      then show ?thesis using xy YX by blast
    next
      case True
      then obtain c where c: "c \<in> set (chunk_starts w)" "x \<in> sl_id ` set c" using chunk_of by blast
      then have "y \<in> sl_id ` set c" using same sc(3) True xy eq by blast
      with c show ?thesis using inY by blast
    qed
    show "compare_constant inp x y = Equal"
      using xy x y eq inc [of x y] outc [of x y] sc(3) [of x y] sc(4) [of x] sc(4) [of y] Elen by auto
  next
    fix x assume x: "x \<in> E"
    have "class_of cls' x \<in> E \<and> class_of cls' x \<le> x \<and> class_of cls' (class_of cls' x) = class_of cls' x"
      using sc(2) [of x] sc(4) [of x] sc(4) [of "class_of cls x"] out [of x] Elen x XE by (cases "x \<in> X") auto
    then show "class_of cls' x \<in> E" "class_of cls' x \<le> x" "class_of cls' (class_of cls' x) = class_of cls' x"
      by auto
  next
    fix x y assume x: "x \<in> E - ?Y" and y: "y \<in> E - ?Y" and eq: "class_of cls' x = class_of cls' y"
    then have xy: "x \<in> X \<longleftrightarrow> y \<in> X" using sep by (metis DiffI DiffD1)
    show "x = y \<or> \<not> has_section_targets inp x"
    proof (cases "x \<in> X")
      case False
      then show ?thesis
        using xy x y eq outc [of x y] sc(4) [of x] sc(4) [of y] Elen by auto
    next
      case True
      then obtain c where c: "c \<in> set (chunk_starts w)" "x \<in> sl_id ` set c" using chunk_of by blast
      have yc: "y \<in> sl_id ` set c" using c same sc(3) True xy eq by blast
      have "\<not> keeps inp c" using inY c x by blast
      then consider "length c = 1" | "\<not> has_section_targets inp (sl_id (hd c))" by (auto simp: keeps_def)
      then show ?thesis
      proof cases
        case 1
        then show ?thesis using c(2) yc by (auto simp: length_Suc_conv)
      next
        case 2
        have h: "sl_id (hd c) \<in> sl_id ` set c" using chunk_nonempty [OF c(1)] by simp
        moreover have "sl_id ` set c \<subseteq> X"
          using chunk_subset [OF c(1)] X by blast
        ultimately have "compare_constant inp x (sl_id (hd c)) = Equal"
          using same [OF c] inc True by blast
        with 2 show ?thesis using has_section_targets_eq by blast
      qed
    qed
  next
    fix R x y assume R: "icf_bisim inp mode R" and xy: "R x y"
    show "class_of cls' x = class_of cls' y"
    proof (cases "x = y")
      case False
      have "x \<in> E" "y \<in> E" using R xy False by (auto simp: icf_bisim_def E_def)
      with bis [OF R xy False] sc(3) [of x y] sc(4) [of x] sc(4) [of y] Elen show ?thesis
        by (cases "x \<in> X") auto
    qed simp
  qed
qed

section \<open>Round 0\<close>

lemma of_nat_index: "i < icf_len inp \<Longrightarrow> icf_len inp \<le> u32_max \<Longrightarrow> id_index (of_nat i :: u32) = i"
  by (intro id_index_of_nat) simp

lemma initial_work_spec:
  assumes "icf_ok inp"
  shows "sl_id ` set (initial_work hf inp mode) = elig inp mode"
    and "distinct (map sl_id (initial_work hf inp mode))"
    and "\<forall>s\<in>set (initial_work hf inp mode). sl_hash s = constant_hash hf inp (sl_id s)"
    and "\<forall>s\<in>set (initial_work hf inp mode). \<not> sl_done s"
proof -
  have n: "icf_len inp \<le> u32_max" using assms by (simp add: icf_ok_def)
  note idx = of_nat_index [OF _ n]
  show "\<forall>s\<in>set (initial_work hf inp mode). sl_hash s = constant_hash hf inp (sl_id s)"
    by (auto simp: initial_work_def)
  show "\<forall>s\<in>set (initial_work hf inp mode). \<not> sl_done s"
    by (auto simp: initial_work_def)
  have inj: "inj_on (of_nat :: nat \<Rightarrow> u32) {i. i < icf_len inp}"
    using idx by (intro inj_on_inverseI [of _ id_index]) auto
  then show "distinct (map sl_id (initial_work hf inp mode))"
    by (auto simp: initial_work_def comp_def distinct_map icf_len_def elim!: inj_on_subset)
  show "sl_id ` set (initial_work hf inp mode) = elig inp mode"
  proof (intro equalityI subsetI)
    fix x assume "x \<in> sl_id ` set (initial_work hf inp mode)"
    then show "x \<in> elig inp mode"
      using idx by (auto simp: initial_work_def elig_def icf_len_def)
  next
    fix x assume "x \<in> elig inp mode"
    then have "id_index x < icf_len inp" "eligible mode (ii_sections inp ! id_index x)" by (auto simp: elig_def)
    then show "x \<in> sl_id ` set (initial_work hf inp mode)"
      by (auto simp: initial_work_def icf_len_def image_iff intro!: bexI [of _ "id_index x"])
  qed
qed

lemma mset_clear_start_facts:
  assumes "mset (map clear_start w') = mset (map clear_start w)"
  shows "sl_id ` set w' = sl_id ` set w" and "(\<forall>s\<in>set w'. \<not> sl_done s) \<longleftrightarrow> (\<forall>s\<in>set w. \<not> sl_done s)"
    and "length w' = length w"
proof -
  have set: "clear_start ` set w' = clear_start ` set w"
    using assms by (metis list.set_map set_mset_mset)
  have "sl_id ` clear_start ` set w' = sl_id ` clear_start ` set w" using set by simp
  then show "sl_id ` set w' = sl_id ` set w" by (simp add: image_image)
  have "(\<forall>s\<in>clear_start ` set w'. \<not> sl_done s) \<longleftrightarrow> (\<forall>s\<in>clear_start ` set w. \<not> sl_done s)"
    using set by simp
  then show "(\<forall>s\<in>set w'. \<not> sl_done s) \<longleftrightarrow> (\<forall>s\<in>set w. \<not> sl_done s)" by simp
  show "length w' = length w" using assms by (metis length_map size_mset)
qed

lemma round_zero_inv:
  assumes "icf_ok inp"
  shows "icf_inv inp mode (fst (round_zero hf inp mode)) (snd (round_zero hf inp mode))"
proof -
  let ?init = "initial_work hf inp mode" and ?E = "elig inp mode"
  let ?w = "split_class (compare_constant inp) ?init"
  have n: "icf_len inp \<le> u32_max" using assms by (simp add: icf_ok_def)
  note w0 = initial_work_spec [OF assms, of hf mode]
  have sp: "classes (\<lambda>x y. compare_constant inp x y = Equal) ?E (class_ids ?w)" "starts_ok ?w"
    "mset (map clear_start ?w) = mset (map clear_start ?init)"
    using split_class_spec [OF constant_order.comparison_axioms w0(2,3)] constant_hash_eq
    unfolding w0(1) by blast+
  note facts = mset_clear_start_facts [OF sp(3)]
  show ?thesis
    unfolding round_zero_split
  proof (rule commit_inv [where X = ?E, OF _ _ sp(2) _ _ _ sp(1)])
    fix x :: u32 assume "id_index x < icf_len inp"
    then show "class_of (map of_nat [0..<icf_len inp]) x = x" by (simp add: class_of_def)
  next
    show "\<forall>s\<in>set ?w. \<not> sl_done s" by (rule iffD2 [OF facts(2) w0(4)])
    show "?E = sl_id ` set ?w" using facts(1) w0(1) by simp
  next
    fix R x y assume "icf_bisim inp mode R" "R x y" "x \<noteq> y"
    then show "(x \<in> ?E \<longleftrightarrow> y \<in> ?E) \<and> (x \<in> ?E \<longrightarrow> compare_constant inp x y = Equal) \<and>
        (x \<notin> ?E \<longrightarrow> class_of (map of_nat [0..<icf_len inp]) x = class_of (map of_nat [0..<icf_len inp]) y)"
      unfolding icf_bisim_def by blast
  qed simp_all
qed

section \<open>A refinement round\<close>

lemma classes_refine:
  assumes "classes eq X Cs" and "\<And>C. C \<in> set Cs \<Longrightarrow> classes eq2 (set C) (f C)"
  shows "classes (\<lambda>x y. eq x y \<and> eq2 x y) X (concat (map f Cs))"
  using assms
proof (induction Cs arbitrary: X)
  case Nil
  then show ?case by (simp add: classes_def)
next
  case (Cons C Cs)
  let ?Y = "set (concat Cs)"
  have X: "X = set C \<union> ?Y" and disj: "set C \<inter> ?Y = {}" using Cons.prems(1) by (auto simp: classes_def)
  have C: "y \<in> set C \<longleftrightarrow> eq x y" if "x \<in> set C" "y \<in> X" for x y
    by (rule classes_eq_iff [OF Cons.prems(1) _ that]) simp
  have rest: "y \<in> set D \<longleftrightarrow> eq x y" if "D \<in> set Cs" "x \<in> set D" "y \<in> X" for x y D
    by (rule classes_eq_iff [OF Cons.prems(1) _ that(2,3)]) (use that in simp)
  have "classes eq ?Y Cs"
    unfolding classes_def
  proof (intro conjI ballI refl)
    show "distinct (concat Cs)" using Cons.prems(1) by (simp add: classes_def)
    fix D assume D: "D \<in> set Cs"
    then show "D \<noteq> []" "sorted D" using Cons.prems(1) by (auto simp: classes_def)
    fix x y assume "x \<in> set D" "y \<in> ?Y"
    then show "y \<in> set D \<longleftrightarrow> eq x y"
      using rest [OF D] X by blast
  qed
  then have IH: "classes (\<lambda>x y. eq x y \<and> eq2 x y) ?Y (concat (map f Cs))"
    using Cons.IH Cons.prems(2) by simp
  have "classes eq2 (set C) (f C)" using Cons.prems(2) by simp
  then have "classes (\<lambda>x y. eq x y \<and> eq2 x y) (set C) (f C)"
    by (rule classes_cong) (use C X in blast)
  moreover have "\<not> (eq x y \<and> eq2 x y) \<and> \<not> (eq y x \<and> eq2 y x)" if xy: "x \<in> set C" "y \<in> ?Y" for x y
  proof -
    obtain D where "D \<in> set Cs" "y \<in> set D" using xy(2) by auto
    then show ?thesis using rest [of D y x] C [of x y] xy X disj by auto
  qed
  ultimately have "classes (\<lambda>x y. eq x y \<and> eq2 x y) (set C \<union> ?Y) (f C @ concat (map f Cs))"
    using IH disj by (intro classes_append) auto
  then show ?case using X by simp
qed

definition rehash :: "hash_fn \<Rightarrow> icf_input \<Rightarrow> u32 list \<Rightarrow> slot \<Rightarrow> slot" where
  "rehash hf inp cls s = s\<lparr>sl_hash := variable_hash hf inp cls (sl_id s)\<rparr>"

lemma refine_chunks:
  "refine hf inp cls work =
     concat (map (\<lambda>c. split_class (compare_variable inp cls) (map (rehash hf inp cls) c)) (chunk_starts work))"
proof -
  have "chunk_starts (map (rehash hf inp cls) work) = map (map (rehash hf inp cls)) (chunk_starts work)"
    by (rule chunk_starts_map) (simp add: rehash_def)
  then show ?thesis
    by (simp add: refine_def Let_def comp_def flip: rehash_def)
qed

text \<open>Within a class, equal target classes are hashed alike.\<close>

lemma variable_hash_eq:
  assumes "compare_constant inp a b = Equal" and "compare_variable inp cls a b = Equal"
  shows "variable_hash hf inp cls a = variable_hash hf inp cls b"
proof -
  let ?f = "\<lambda>reloc. case ir_target reloc of TSection section offset \<Rightarrow> [WriteU32 (class_of cls section)] | _ \<Rightarrow> []"
  let ?A = "folder_relocs inp a" and ?B = "folder_relocs inp b"
  have keys: "map (variable_key cls) ?A = map (variable_key cls) ?B"
    using assms(2) by (simp add: compare_variable_key)
  have shape: "length ?A = length ?B" "\<forall>i<length ?A. reloc_key (?A ! i) = reloc_key (?B ! i)"
    using constant_eq_relocs [OF assms(1)] by (auto simp: list_all2_conv_all_nth)
  have "?f (?A ! i) = ?f (?B ! i)" if i: "i < length ?A" for i
  proof -
    have "variable_key cls (?A ! i) = variable_key cls (?B ! i)"
      using keys i shape(1) by (metis nth_map)
    with reloc_key_shape [of "?A ! i" "?B ! i"] shape(2) i show ?thesis
      by (cases "ir_target (?A ! i)"; cases "ir_target (?B ! i)") (auto simp: variable_key_def)
  qed
  then have "map ?f ?A = map ?f ?B"
    using shape(1) by (intro nth_equalityI) simp_all
  then show ?thesis by (simp only: variable_hash_def)
qed

lemma bisim_variable:
  assumes "icf_bisim inp mode R" and "R a b" and "a \<noteq> b"
    and "\<And>x y. R x y \<Longrightarrow> class_of cls x = class_of cls y"
  shows "compare_variable inp cls a b = Equal"
proof -
  let ?A = "folder_relocs inp a" and ?B = "folder_relocs inp b"
  have const: "compare_constant inp a b = Equal"
    and rel: "length ?A = length ?B" "\<forall>i<length ?A. related_targets R (ir_target (?A ! i)) (ir_target (?B ! i))"
    using assms(1-3) by (auto simp: icf_bisim_def list_all2_conv_all_nth)
  have shape: "\<forall>i<length ?A. reloc_key (?A ! i) = reloc_key (?B ! i)"
    using constant_eq_relocs [OF const] by (auto simp: list_all2_conv_all_nth)
  have "variable_key cls (?A ! i) = variable_key cls (?B ! i)" if i: "i < length ?A" for i
    using reloc_key_shape [of "?A ! i" "?B ! i"] shape rel(2) i assms(4)
    by (cases "ir_target (?A ! i)"; cases "ir_target (?B ! i)") (force simp: variable_key_def)+
  then have "map (variable_key cls) ?A = map (variable_key cls) ?B"
    using rel(1) by (intro nth_equalityI) simp_all
  then show ?thesis by (simp add: compare_variable_key)
qed

lemma refine_spec:
  assumes "icf_inv inp mode cls work"
  shows "classes (\<lambda>x y. class_of cls x = class_of cls y \<and> compare_variable inp cls x y = Equal)
      (sl_id ` set work) (class_ids (refine hf inp cls work))"
    and "starts_ok (refine hf inp cls work)"
    and "mset (map clear_start (refine hf inp cls work)) =
      mset (map clear_start (map (rehash hf inp cls) work))"
    and "count_classes (refine hf inp cls work) =
      sum_list (map (\<lambda>c. length (class_ids (split_class (compare_variable inp cls) (map (rehash hf inp cls) c))))
        (chunk_starts work))"
    and "c \<in> set (chunk_starts work) \<Longrightarrow>
      classes (\<lambda>x y. compare_variable inp cls x y = Equal) (sl_id ` set c)
        (class_ids (split_class (compare_variable inp cls) (map (rehash hf inp cls) c)))"
proof -
  let ?s = "\<lambda>c. split_class (compare_variable inp cls) (map (rehash hf inp cls) c)"
  note inv = icf_invD [OF assms]
  have cl: "classes (\<lambda>x y. class_of cls x = class_of cls y) (sl_id ` set work) (class_ids work)" by (rule inv)
  have chunk: "classes (\<lambda>x y. compare_variable inp cls x y = Equal) (sl_id ` set c) (class_ids (?s c)) \<and>
      starts_ok (?s c) \<and> mset (map clear_start (?s c)) = mset (map clear_start (map (rehash hf inp cls) c))"
    if c: "c \<in> set (chunk_starts work)" for c
  proof -
    have C: "map sl_id c \<in> set (class_ids work)" using c by (simp add: class_ids_def)
    have ids: "map sl_id (map (rehash hf inp cls) c) = map sl_id c" by (simp add: rehash_def comp_def)
    have dist: "distinct (map sl_id (map (rehash hf inp cls) c))"
      unfolding ids using cl C by (auto simp: classes_def distinct_concat_iff)
    have "set c \<subseteq> set work" by (rule chunk_subset [OF c])
    then have sub: "sl_id ` set c \<subseteq> elig inp mode" using inv(5) by blast
    have "compare_constant inp x y = Equal" if "x \<in> sl_id ` set c" "y \<in> sl_id ` set c" for x y
    proof (rule inv(9))
      show "x \<in> elig inp mode" "y \<in> elig inp mode" using that sub by auto
      show "class_of cls x = class_of cls y"
        using classes_eq_iff [OF cl C, of x y] that \<open>set c \<subseteq> set work\<close> by auto
    qed
    then have "\<forall>x\<in>sl_id ` set c. \<forall>y\<in>sl_id ` set c. compare_variable inp cls x y = Equal \<longrightarrow>
        variable_hash hf inp cls x = variable_hash hf inp cls y"
      using variable_hash_eq by blast
    moreover have img: "sl_id ` set (map (rehash hf inp cls) c) = sl_id ` set c" using ids by (metis set_map)
    have hash: "\<forall>s\<in>set (map (rehash hf inp cls) c). sl_hash s = variable_hash hf inp cls (sl_id s)"
      by (simp add: rehash_def)
    note sp = split_class_spec [OF variable_order.comparison_axioms dist hash, unfolded img]
    ultimately show ?thesis
      by (intro conjI sp)
  qed
  then show "c \<in> set (chunk_starts work) \<Longrightarrow>
      classes (\<lambda>x y. compare_variable inp cls x y = Equal) (sl_id ` set c) (class_ids (?s c))" by blast
  have st: "\<forall>w\<in>set (map ?s (chunk_starts work)). starts_ok w" using chunk by auto
  have ids: "class_ids (refine hf inp cls work) = concat (map (\<lambda>c. class_ids (?s c)) (chunk_starts work))"
    using class_ids_concat [OF st] by (simp add: refine_chunks comp_def)
  show ok: "starts_ok (refine hf inp cls work)"
    unfolding refine_chunks by (rule starts_ok_concat [OF st])
  show "count_classes (refine hf inp cls work) = sum_list (map (\<lambda>c. length (class_ids (?s c))) (chunk_starts work))"
  proof -
    have "count_classes (refine hf inp cls work) = length (class_ids (refine hf inp cls work))"
      using count_classes_chunks [OF ok] by (simp add: class_ids_def)
    also have "\<dots> = sum_list (map (\<lambda>c. length (class_ids (?s c))) (chunk_starts work))"
      by (simp only: ids length_concat map_map comp_def)
    finally show ?thesis .
  qed
  show "mset (map clear_start (refine hf inp cls work)) = mset (map clear_start (map (rehash hf inp cls) work))"
  proof -
    have "mset (map clear_start (concat (map ?s cs))) = mset (map clear_start (map (rehash hf inp cls) (concat cs)))"
      if "set cs \<subseteq> set (chunk_starts work)" for cs
      using that chunk by (induction cs) auto
    from this [of "chunk_starts work"] show ?thesis by (simp add: refine_chunks)
  qed
  obtain f where f: "\<And>c. c \<in> set (chunk_starts work) \<Longrightarrow> f (map sl_id c) = class_ids (?s c)"
  proof
    fix c assume "c \<in> set (chunk_starts work)"
    have "inj_on (map sl_id) (set (chunk_starts work))"
    proof (rule inj_onI)
      fix c d assume c: "c \<in> set (chunk_starts work)" "d \<in> set (chunk_starts work)" and eq: "map sl_id c = map sl_id d"
      have "inj_on sl_id (set work)"
        using cl unfolding classes_def concat_class_ids distinct_map by blast
      moreover have "set c \<union> set d \<subseteq> set work"
        using chunk_subset [OF c(1)] chunk_subset [OF c(2)] by blast
      ultimately show "c = d" using eq by (meson inj_on_map_eq_map inj_on_subset)
    qed
    then show "class_ids (?s (the_inv_into (set (chunk_starts work)) (map sl_id) (map sl_id c))) = class_ids (?s c)"
      using \<open>c \<in> set (chunk_starts work)\<close> by (simp add: the_inv_into_f_f)
  qed
  have "map f (class_ids work) = map (\<lambda>c. class_ids (?s c)) (chunk_starts work)"
    by (auto simp: class_ids_def f)
  moreover have "classes (\<lambda>x y. class_of cls x = class_of cls y \<and> compare_variable inp cls x y = Equal)
      (sl_id ` set work) (concat (map f (class_ids work)))"
    by (rule classes_refine [OF cl]) (use chunk f in \<open>auto simp: class_ids_def\<close>)
  ultimately show "classes (\<lambda>x y. class_of cls x = class_of cls y \<and> compare_variable inp cls x y = Equal)
      (sl_id ` set work) (class_ids (refine hf inp cls work))"
    by (simp only: ids)
qed

lemma refine_ids:
  assumes "icf_inv inp mode cls work"
  shows "sl_id ` set (refine hf inp cls work) = sl_id ` set work"
    and "\<forall>s\<in>set (refine hf inp cls work). \<not> sl_done s"
    and "length (refine hf inp cls work) = length work"
proof -
  note facts = mset_clear_start_facts [OF refine_spec(3) [OF assms]]
  show "sl_id ` set (refine hf inp cls work) = sl_id ` set work"
    using facts(1) [of hf] by (simp add: image_image rehash_def)
  have "\<forall>s\<in>set (map (rehash hf inp cls) work). \<not> sl_done s"
    using icf_invD(4) [OF assms] by (simp add: rehash_def)
  then show "\<forall>s\<in>set (refine hf inp cls work). \<not> sl_done s" by (rule iffD2 [OF facts(2)])
  show "length (refine hf inp cls work) = length work" using facts(3) [of hf] by simp
qed

lemma refine_inv:
  assumes "icf_inv inp mode cls work"
  shows "icf_inv inp mode (fst (commit inp cls (refine hf inp cls work)))
    (snd (commit inp cls (refine hf inp cls work)))"
proof -
  let ?W = "sl_id ` set work" and ?E = "elig inp mode"
  note inv = icf_invD [OF assms] and ids = refine_ids [OF assms, of hf]
  show ?thesis
  proof (rule commit_inv [where X = ?W, OF inv(1) _ refine_spec(2) [OF assms] ids(2) ids(1) [symmetric] inv(5)
        refine_spec(1) [OF assms]])
    fix x assume "id_index x < icf_len inp" "x \<notin> ?E"
    then show "class_of cls x = x" by (rule inv(2))
  next
    fix x assume x: "x \<in> ?E - ?W"
    then have c: "class_of cls x \<in> ?E" "class_of cls x \<le> x" "class_of cls (class_of cls x) = class_of cls x"
      using inv(8) [of x] by auto
    moreover have "class_of cls x \<notin> ?W" using inv(7) [of x "class_of cls x"] x c by auto
    ultimately show "class_of cls x \<in> ?E - ?W \<and> class_of cls x \<le> x \<and>
        class_of cls (class_of cls x) = class_of cls x" by blast
  next
    fix x y assume "x \<in> ?E - ?W" "y \<in> ?E - ?W" "class_of cls x = class_of cls y"
    then show "compare_constant inp x y = Equal \<and> (x = y \<or> \<not> has_section_targets inp x)"
      using inv(9) [of x y] inv(10) [of x y] by blast
  next
    fix x y assume "x \<in> ?W" "y \<in> ?W"
      "class_of cls x = class_of cls y \<and> compare_variable inp cls x y = Equal"
    then show "compare_constant inp x y = Equal" using inv(9) [of x y] inv(5) by blast
  next
    fix R x y assume R: "icf_bisim inp mode R" and xy: "R x y" "x \<noteq> y"
    have E: "x \<in> ?E" "y \<in> ?E" using R xy unfolding icf_bisim_def by blast+
    have eq: "class_of cls x = class_of cls y" using inv(11) [OF R xy(1)] .
    moreover have "compare_variable inp cls x y = Equal"
      by (rule bisim_variable [OF R xy]) (rule inv(11) [OF R])
    ultimately show "(x \<in> ?W \<longleftrightarrow> y \<in> ?W) \<and>
        (x \<in> ?W \<longrightarrow> class_of cls x = class_of cls y \<and> compare_variable inp cls x y = Equal) \<and>
        (x \<notin> ?W \<longrightarrow> class_of cls x = class_of cls y)"
      using inv(7) [OF E eq] by blast
  qed
qed

section \<open>The last round\<close>

definition icf_stable :: "icf_input \<Rightarrow> icf_mode \<Rightarrow> u32 list \<Rightarrow> bool" where
  "icf_stable inp mode cls \<longleftrightarrow> (\<forall>x\<in>elig inp mode. \<forall>y\<in>elig inp mode.
     class_of cls x = class_of cls y \<longrightarrow> compare_variable inp cls x y = Equal)"

lemma no_targets_variable:
  assumes "compare_constant inp x y = Equal" and "\<not> has_section_targets inp x"
  shows "compare_variable inp cls x y = Equal"
proof -
  have "\<not> has_section_targets inp y" using assms has_section_targets_eq by blast
  then have zero: "variable_key cls r = 0" if "r \<in> set (folder_relocs inp x) \<union> set (folder_relocs inp y)" for r
    using that assms(2)
    by (auto simp: variable_key_def has_section_targets_def list_ex_iff split: icf_target.splits)
  have "length (folder_relocs inp x) = length (folder_relocs inp y)"
    using constant_eq_relocs [OF assms(1)] by (rule list_all2_lengthD)
  then have "map (variable_key cls) (folder_relocs inp x) = map (variable_key cls) (folder_relocs inp y)"
    using zero by (intro nth_equalityI) simp_all
  then show ?thesis by (simp add: compare_variable_key)
qed

lemma sum_list_ones:
  fixes f :: "'a \<Rightarrow> nat"
  assumes "\<forall>x\<in>set xs. 1 \<le> f x"
  shows "length xs \<le> sum_list (map f xs)"
    and "sum_list (map f xs) = length xs \<Longrightarrow> \<forall>x\<in>set xs. f x = 1"
proof -
  show le: "length xs \<le> sum_list (map f xs)"
    using assms by (induction xs) auto
  have "length xs \<le> sum_list (map f xs) \<and> (sum_list (map f xs) = length xs \<longrightarrow> (\<forall>x\<in>set xs. f x = 1))"
    using assms by (induction xs) auto
  then show "sum_list (map f xs) = length xs \<Longrightarrow> \<forall>x\<in>set xs. f x = 1" by blast
qed

lemma refine_count:
  assumes "icf_inv inp mode cls work"
  shows "count_classes work \<le> count_classes (refine hf inp cls work)"
    and "count_classes (refine hf inp cls work) = count_classes work \<Longrightarrow> icf_stable inp mode cls"
proof -
  let ?n = "\<lambda>c. length (class_ids (split_class (compare_variable inp cls) (map (rehash hf inp cls) c)))"
  note inv = icf_invD [OF assms] and spec = refine_spec [OF assms, where hf = hf]
  have one: "1 \<le> ?n c" if c: "c \<in> set (chunk_starts work)" for c
  proof (rule ccontr)
    assume "\<not> 1 \<le> ?n c"
    then have "class_ids (split_class (compare_variable inp cls) (map (rehash hf inp cls) c)) = []"
      by (cases "class_ids (split_class (compare_variable inp cls) (map (rehash hf inp cls) c))") auto
    then have "sl_id ` set c = {}" using spec(5) [OF c] by (simp add: classes_def)
    then show False using chunk_nonempty [OF c] by simp
  qed
  have before: "count_classes work = length (chunk_starts work)"
    by (rule count_classes_chunks [OF inv(3)])
  show "count_classes work \<le> count_classes (refine hf inp cls work)"
    unfolding before spec(4) using one by (intro sum_list_ones) blast
  assume "count_classes (refine hf inp cls work) = count_classes work"
  then have eq: "sum_list (map ?n (chunk_starts work)) = length (chunk_starts work)"
    unfolding before spec(4) .
  have ones: "\<forall>c\<in>set (chunk_starts work). 1 \<le> ?n c" by (intro ballI one)
  have all: "\<forall>c\<in>set (chunk_starts work). ?n c = 1" by (rule sum_list_ones(2) [OF ones eq])
  have chunk: "compare_variable inp cls x y = Equal"
    if c: "c \<in> set (chunk_starts work)" and x: "x \<in> sl_id ` set c" and y: "y \<in> sl_id ` set c" for c x y
  proof -
    obtain D where D: "class_ids (split_class (compare_variable inp cls) (map (rehash hf inp cls) c)) = [D]"
      using bspec [OF all c] by (auto simp: length_Suc_conv)
    have "set D = sl_id ` set c" using spec(5) [OF c] by (simp add: D classes_def)
    then show ?thesis
      using classes_eq_iff [OF spec(5) [OF c], of D x y] x y by (simp add: D)
  qed
  show "icf_stable inp mode cls"
    unfolding icf_stable_def
  proof (intro ballI impI)
    fix x y assume x: "x \<in> elig inp mode" and y: "y \<in> elig inp mode" and eq: "class_of cls x = class_of cls y"
    show "compare_variable inp cls x y = Equal"
    proof (cases "x \<in> sl_id ` set work")
      case True
      then have yW: "y \<in> sl_id ` set work" using inv(7) [OF x y eq] by blast
      from True have "x \<in> sl_id ` set (concat (chunk_starts work))" by simp
      then obtain c where c: "c \<in> set (chunk_starts work)" "x \<in> sl_id ` set c" unfolding set_concat by blast
      have "y \<in> set (map sl_id c)"
        using classes_eq_iff [OF inv(6), of "map sl_id c" x y] c yW eq by (simp add: class_ids_def)
      then show ?thesis using chunk [OF c] by simp
    next
      case False
      then have "y \<notin> sl_id ` set work" using inv(7) [OF x y eq] by blast
      then have "x = y \<or> \<not> has_section_targets inp x" using inv(10) [of x y] x y False eq by blast
      then show ?thesis
        using no_targets_variable [OF inv(9) [OF x y eq]] by (auto simp: variable_order.compare_refl)
    qed
  qed
qed

text \<open>The commit of a round that splits nothing leaves the classes as they are.\<close>

lemma folder_relocs_in_range:
  assumes "icf_ok inp" and "r \<in> set (folder_relocs inp x)" and "ir_target r = TSection s off"
  shows "id_index s < icf_len inp"
proof -
  have "unat x \<le> usize_max"
    using id_index_le [of x] by (auto simp: id_index_def intro: order_trans)
  then have "set (csr_row (ii_relocs inp) (unat x)) \<subseteq> set (csr_values (ii_relocs inp))"
    using assms(1) by (intro csr_table.row_subset_vals) (simp_all add: icf_ok_def)
  with assms show ?thesis by (auto simp: icf_ok_def folder_relocs_def)
qed

lemma commit_stable:
  assumes "icf_ok inp" and "icf_inv inp mode cls work" and "icf_stable inp mode cls"
  shows "icf_stable inp mode (fst (commit inp cls (refine hf inp cls work)))"
proof -
  let ?W = "sl_id ` set work" and ?E = "elig inp mode"
  define cls' where "cls' = fold store_class (class_ids (refine hf inp cls work)) cls"
  note inv = icf_invD [OF assms(2)]
  have WE: "?W \<subseteq> ?E" by (rule inv(5))
  have cl: "classes (\<lambda>x y. class_of cls x = class_of cls y) ?W (class_ids (refine hf inp cls work))"
  proof (rule classes_cong [OF refine_spec(1) [OF assms(2)]])
    fix x y assume "x \<in> ?W" "y \<in> ?W"
    then show "class_of cls x = class_of cls y \<and> compare_variable inp cls x y = Equal \<longleftrightarrow>
        class_of cls x = class_of cls y"
      using assms(3) WE unfolding icf_stable_def by blast
  qed
  have xl: "\<forall>x\<in>?W. id_index x < length cls" using WE inv(1) by (auto simp: elig_def)
  note stored = stored_classes [OF cl xl cls'_def]
  have sc: "\<And>x. x \<in> ?W \<Longrightarrow> class_of cls' x \<in> ?W"
    using stored(2) by blast
  note sc = sc stored(3,4)
  have outside: "class_of cls y \<notin> ?W \<and> (x \<in> ?W \<longrightarrow> class_of cls x \<noteq> class_of cls y)"
    if "y \<notin> ?W" "id_index y < icf_len inp" for x y
  proof (cases "y \<in> ?E")
    case True
    have "class_of cls y \<notin> ?W" using inv(7) [OF True, of "class_of cls y"] inv(8) [OF True] that by auto
    moreover have "class_of cls x \<noteq> class_of cls y" if "x \<in> ?W"
      using inv(7) [OF _ True, of x] that WE \<open>y \<notin> ?W\<close> by auto
    ultimately show ?thesis by blast
  next
    case False
    then have "class_of cls y = y" using inv(2) that by blast
    moreover have "class_of cls x \<in> ?E" if "x \<in> ?W" using inv(8) [of x] that WE by blast
    ultimately show ?thesis using False that by metis
  qed
  have same: "class_of cls' x = class_of cls' y \<longleftrightarrow> class_of cls x = class_of cls y"
    if x: "id_index x < icf_len inp" and y: "id_index y < icf_len inp" for x y
    using sc(1) [of x] sc(1) [of y] sc(2) [of x y] sc(3) [of x] sc(3) [of y] outside [OF _ x, of y]
      outside [OF _ y, of x] x y inv(1)
    by (cases "x \<in> ?W"; cases "y \<in> ?W") metis+
  have "compare_variable inp cls' x y = Equal" if x: "x \<in> ?E" and y: "y \<in> ?E" and eq: "class_of cls' x = class_of cls' y" for x y
  proof -
    let ?A = "folder_relocs inp x" and ?B = "folder_relocs inp y"
    have eq': "class_of cls x = class_of cls y" using same [of x y] x y eq by (auto simp: elig_def)
    then have "compare_variable inp cls x y = Equal" using assms(3) x y by (auto simp: icf_stable_def)
    then have keys: "map (variable_key cls) ?A = map (variable_key cls) ?B" by (simp add: compare_variable_key)
    have const: "compare_constant inp x y = Equal" by (rule inv(9) [OF x y eq'])
    have shape: "length ?A = length ?B" "\<forall>i<length ?A. reloc_key (?A ! i) = reloc_key (?B ! i)"
      using constant_eq_relocs [OF const] by (auto simp: list_all2_conv_all_nth)
    have "variable_key cls' (?A ! i) = variable_key cls' (?B ! i)" if i: "i < length ?A" for i
    proof -
      have "variable_key cls (?A ! i) = variable_key cls (?B ! i)" using keys i shape(1) by (metis nth_map)
      then show ?thesis
        using reloc_key_shape [of "?A ! i" "?B ! i"] shape i same
          folder_relocs_in_range [OF assms(1), of "?A ! i" x] folder_relocs_in_range [OF assms(1), of "?B ! i" y]
        by (cases "ir_target (?A ! i)"; cases "ir_target (?B ! i)") (auto simp: variable_key_def)
    qed
    then have "map (variable_key cls') ?A = map (variable_key cls') ?B"
      using shape(1) by (intro nth_equalityI) simp_all
    then show ?thesis by (simp add: compare_variable_key)
  qed
  then show ?thesis by (auto simp: icf_stable_def commit_fst cls'_def)
qed

section \<open>The loop ends in the coarsest stable partition\<close>

lemma commit_slack:
  assumes "starts_ok w" and "\<forall>s\<in>set w. \<not> sl_done s"
  shows "length (snd (commit inp cls w)) - count_classes (snd (commit inp cls w)) \<le> length w - count_classes w"
proof -
  let ?cs = "chunk_starts w" and ?w' = "concat (filter (keeps inp) (chunk_starts w))"
  have len: "length (concat cs) - length cs = sum_list (map (\<lambda>c. length c - 1) cs)" if "\<forall>c\<in>set cs. c \<noteq> []" for cs :: "slot list list"
  proof -
    have "length (concat cs) = length cs + sum_list (map (\<lambda>c. length c - 1) cs)"
      using that by (induction cs) (auto simp: neq_Nil_conv)
    then show ?thesis by simp
  qed
  have w': "chunk_starts ?w' = filter (keeps inp) ?cs" "starts_ok ?w'"
    using chunk_starts_of_chunks [OF assms(1), of "filter (keeps inp) ?cs"] by auto
  have "length w - count_classes w = sum_list (map (\<lambda>c. length c - 1) ?cs)"
    using len [of ?cs] chunk_nonempty [of _ w] count_classes_chunks [OF assms(1)] by simp
  moreover have "length ?w' - count_classes ?w' = sum_list (map (\<lambda>c. length c - 1) (filter (keeps inp) ?cs))"
    using len [of "filter (keeps inp) ?cs"] chunk_nonempty [of _ w]
    by (simp only: count_classes_chunks [OF w'(2)] w'(1)) auto
  moreover have "sum_list (map (\<lambda>c. length c - 1) (filter (keeps inp) cs)) \<le> sum_list (map (\<lambda>c. length c - 1) cs)" for cs :: "slot list list"
    by (induction cs) auto
  ultimately show ?thesis by (simp only: commit_snd [OF assms(2)])
qed

lemma refine_loop_ends:
  assumes "icf_ok inp" and "icf_inv inp mode cls work"
  shows "\<exists>cls' work' rounds'. refine_loop hf inp cls work rounds = Some (cls', rounds') \<and>
    icf_inv inp mode cls' work' \<and> icf_stable inp mode cls'"
  using assms(2)
proof (induction "length work - count_classes work" arbitrary: cls work rounds rule: less_induct)
  case less
  note inv = icf_invD [OF less.prems]
  show ?case
  proof (cases "work = []")
    case True
    then have "count_classes (refine hf inp cls work) = count_classes work"
      by (simp add: refine_chunks)
    then have "icf_stable inp mode cls" by (rule refine_count(2) [OF less.prems])
    with True less.prems show ?thesis by (subst refine_loop.simps) auto
  next
    case False
    let ?r = "refine hf inp cls work"
    let ?c = "commit inp cls ?r"
    have step: "icf_inv inp mode (fst ?c) (snd ?c)" by (rule refine_inv [OF less.prems])
    show ?thesis
    proof (cases "count_classes ?r = count_classes work")
      case True
      then have "icf_stable inp mode (fst ?c)"
        by (intro commit_stable [OF assms(1) less.prems] refine_count(2) [OF less.prems])
      with True False step show ?thesis by (subst refine_loop.simps) (auto simp: Let_def)
    next
      case more: False
      have "count_classes work < count_classes ?r"
        using more refine_count(1) [OF less.prems, of hf] by simp
      moreover have "count_classes ?r \<le> length ?r" by (simp add: count_classes_def)
      moreover have "length ?r = length work" by (rule refine_ids(3) [OF less.prems])
      moreover have "length (snd ?c) - count_classes (snd ?c) \<le> length ?r - count_classes ?r"
        by (rule commit_slack [OF refine_spec(2) [OF less.prems] refine_ids(2) [OF less.prems]])
      ultimately have "length (snd ?c) - count_classes (snd ?c) < length work - count_classes work" by simp
      from less.hyps [OF this step, of "rounds + 1"] False more show ?thesis
        by (subst refine_loop.simps) (simp add: Let_def)
    qed
  qed
qed

text \<open>The classes of the final state form a bisimulation, and hold every other one.\<close>

lemma stable_bisim:
  assumes "icf_ok inp" and "icf_inv inp mode cls work" and "icf_stable inp mode cls"
  shows "icf_bisim inp mode (\<lambda>x y. id_index x < icf_len inp \<and> id_index y < icf_len inp \<and> class_of cls x = class_of cls y)"
  unfolding icf_bisim_def
proof (intro allI impI)
  let ?S = "\<lambda>x y. id_index x < icf_len inp \<and> id_index y < icf_len inp \<and> class_of cls x = class_of cls y"
  note inv = icf_invD [OF assms(2)]
  fix a b assume S: "?S a b"
  show "a = b \<or> a \<in> elig inp mode \<and> b \<in> elig inp mode \<and> compare_constant inp a b = Equal \<and>
     list_all2 (\<lambda>x y. related_targets ?S (ir_target x) (ir_target y)) (folder_relocs inp a) (folder_relocs inp b)"
  proof (cases "a = b")
    case False
    have E: "a \<in> elig inp mode" "b \<in> elig inp mode"
      using S False inv(2) [of a] inv(2) [of b] inv(8) [of a] inv(8) [of b] by metis+
    let ?A = "folder_relocs inp a" and ?B = "folder_relocs inp b"
    have const: "compare_constant inp a b = Equal" using inv(9) [OF E] S by blast
    have keys: "map (variable_key cls) ?A = map (variable_key cls) ?B"
      using assms(3) E S unfolding icf_stable_def compare_variable_key by (metis cmp_simps(2))
    have shape: "length ?A = length ?B" "\<forall>i<length ?A. reloc_key (?A ! i) = reloc_key (?B ! i)"
      using constant_eq_relocs [OF const] by (auto simp: list_all2_conv_all_nth)
    have "related_targets ?S (ir_target (?A ! i)) (ir_target (?B ! i))" if i: "i < length ?A" for i
    proof -
      have "variable_key cls (?A ! i) = variable_key cls (?B ! i)" using keys i shape(1) by (metis nth_map)
      then show ?thesis
        using shape i
          folder_relocs_in_range [OF assms(1), of "?A ! i" a] folder_relocs_in_range [OF assms(1), of "?B ! i" b]
        by (cases "ir_target (?A ! i)"; cases "ir_target (?B ! i)") (auto simp: variable_key_def)
    qed
    with E const shape(1) show ?thesis by (simp add: list_all2_conv_all_nth)
  qed simp
qed

text \<open>The whole pass, seen through its class table.\<close>

definition folds_to :: "icf_input \<Rightarrow> icf_mode \<Rightarrow> u32 list \<Rightarrow> bool" where
  "folds_to inp mode cls \<longleftrightarrow> length cls = icf_len inp \<and>
     (\<forall>a b. id_index a < icf_len inp \<longrightarrow> id_index b < icf_len inp \<longrightarrow>
        (class_of cls a = class_of cls b \<longleftrightarrow> (\<exists>R. icf_bisim inp mode R \<and> R a b))) \<and>
     (\<forall>a. id_index a < icf_len inp \<longrightarrow> class_of cls a \<le> a \<and> class_of cls (class_of cls a) = class_of cls a) \<and>
     (\<forall>a. id_index a < icf_len inp \<longrightarrow> class_of cls a \<noteq> a \<longrightarrow>
        a \<in> elig inp mode \<and> class_of cls a \<in> elig inp mode \<and> compare_constant inp a (class_of cls a) = Equal)"

lemma fold_identical_spec:
  assumes "icf_ok inp"
  shows "\<exists>cls rounds. fold_identical hf inp mode = Some \<lparr>ic_fold_into = cls, ic_rounds = rounds\<rparr> \<and>
    folds_to inp mode cls"
proof -
  obtain cls work rounds where
    r: "refine_loop hf inp (fst (round_zero hf inp mode)) (snd (round_zero hf inp mode)) 1 = Some (cls, rounds)"
    and I: "icf_inv inp mode cls work" and S: "icf_stable inp mode cls"
    using refine_loop_ends [OF assms round_zero_inv [OF assms, of mode hf], of hf 1] by blast
  note inv = icf_invD [OF I]
  have "folds_to inp mode cls"
    unfolding folds_to_def
  proof (intro conjI allI impI)
    show "length cls = icf_len inp" by (rule inv(1))
    fix a assume a: "id_index a < icf_len inp"
    show "class_of cls a = class_of cls b \<longleftrightarrow> (\<exists>R. icf_bisim inp mode R \<and> R a b)"
      if "id_index b < icf_len inp" for b
    proof
      assume "class_of cls a = class_of cls b"
      then show "\<exists>R. icf_bisim inp mode R \<and> R a b"
        using stable_bisim [OF assms I S] a that
        by (intro exI [of _ "\<lambda>x y. id_index x < icf_len inp \<and> id_index y < icf_len inp \<and>
            class_of cls x = class_of cls y"]) simp
    next
      assume "\<exists>R. icf_bisim inp mode R \<and> R a b"
      then show "class_of cls a = class_of cls b" using inv(11) by blast
    qed
    show "class_of cls a \<le> a" "class_of cls (class_of cls a) = class_of cls a"
      using inv(2) [OF a] inv(8) [of a] by (cases "a \<in> elig inp mode"; simp)+
    assume ne: "class_of cls a \<noteq> a"
    then show E: "a \<in> elig inp mode" using inv(2) [OF a] by blast
    then show "class_of cls a \<in> elig inp mode" using inv(8) by blast
    then show "compare_constant inp a (class_of cls a) = Equal"
      using inv(9) [OF E] inv(8) [OF E] by simp
  qed
  then show ?thesis
    using r by (auto simp: fold_identical_def case_prod_beta id_from_u32_def [abs_def])
qed

lemma folds_to_unique:
  assumes "folds_to inp mode cls" and "folds_to inp mode cls'"
    and n: "icf_len inp \<le> u32_max"
  shows "cls = cls'"
proof (rule nth_equalityI)
  show "length cls = length cls'" using assms by (simp add: folds_to_def)
next
  fix i assume "i < length cls"
  then have i: "i < icf_len inp" using assms(1) by (simp add: folds_to_def)
  have below: "class_of c' a \<le> class_of c a"
    if "folds_to inp mode c" "folds_to inp mode c'" "id_index a < icf_len inp" for c c' a
  proof -
    have "class_of c a \<le> a" using that by (simp add: folds_to_def)
    then have "id_index (class_of c a) \<le> id_index a" by (simp add: id_index_def word_le_nat_alt)
    then have len: "id_index (class_of c a) < icf_len inp" using that(3) by simp
    have "class_of c (class_of c a) = class_of c a" using that by (simp add: folds_to_def)
    then have "class_of c' (class_of c a) = class_of c' a"
      using that len unfolding folds_to_def by metis
    then show ?thesis using that(2) len unfolding folds_to_def by metis
  qed
  have "id_index (of_nat i :: u32) = i" using i n by (rule of_nat_index)
  then show "cls ! i = cls' ! i"
    using below [OF assms(1,2), of "of_nat i"] below [OF assms(2,1), of "of_nat i"] i
    by (simp add: class_of_def)
qed

lemma representative_class:
  "id_index a < length cls \<Longrightarrow> representative \<lparr>ic_fold_into = cls, ic_rounds = k\<rparr> a = class_of cls a"
  by (simp add: representative_def get_nth_def class_of_def)

section \<open>The report\<close>

text \<open>The groups as a list of lists, which the report keeps in three vectors.\<close>

definition group_push :: "section_id \<times> section_id \<Rightarrow> (section_id \<times> section_id list) list \<Rightarrow>
    (section_id \<times> section_id list) list" where
  "group_push p gs =
     (case p of (rep, m) \<Rightarrow>
        if gs = [] \<or> fst (last gs) \<noteq> rep then gs @ [(rep, [m])]
        else butlast gs @ [(rep, snd (last gs) @ [m])])"

definition report_abs :: "icf_report \<Rightarrow> (section_id \<times> section_id list) list \<Rightarrow> bool" where
  "report_abs rp gs \<longleftrightarrow> rp_kept rp = map fst gs \<and> rp_folded rp = concat (map snd gs) \<and>
     (if gs = [] then rp_bounds rp = [0]
      else rp_bounds rp @ [length (rp_folded rp)] = prefix_sums (map (length \<circ> snd) gs))"

lemma prefix_sums_snoc: "prefix_sums (ls @ [l]) = prefix_sums ls @ [sum_list ls + l]"
  by (auto simp: prefix_sums_def)

lemma prefix_sums_snoc2: "prefix_sums (ls @ [l, m]) = prefix_sums ls @ [sum_list ls + l, sum_list ls + l + m]"
  using prefix_sums_snoc [of "ls @ [l]" m] by (simp add: prefix_sums_snoc)

lemma report_push_refines:
  assumes "report_abs rp gs"
  shows "report_abs (report_push p rp) (group_push p gs)"
proof (cases gs rule: rev_cases)
  case Nil
  then show ?thesis
    using assms
    by (auto simp: report_abs_def report_push_def group_push_def case_prod_beta Let_def prefix_sums_def)
next
  case (snoc hs g)
  have b: "rp_bounds rp = prefix_sums (map (length \<circ> snd) hs)"
    using assms snoc by (simp add: report_abs_def prefix_sums_snoc)
  show ?thesis
    using assms snoc b
    by (auto simp: report_abs_def report_push_def group_push_def case_prod_beta Let_def
        prefix_sums_snoc prefix_sums_snoc2 length_concat comp_def simp flip: map_map)
qed

lemma report_refines:
  "report_abs (fold report_push ps \<lparr>rp_kept = [], rp_bounds = [0], rp_folded = []\<rparr>) (fold group_push ps [])"
proof -
  have steps: "report_abs (fold report_push ps rp) (fold group_push ps gs)" if "report_abs rp gs" for rp gs
    using that by (induction ps arbitrary: rp gs) (auto intro: report_push_refines)
  show ?thesis by (rule steps) (simp add: report_abs_def)
qed

lemma enumerate_map: "map (\<lambda>(i, x). f i x) (List.enumerate k xs) = map (\<lambda>j. f (k + j) (xs ! j)) [0..<length xs]"
  by (rule nth_equalityI) (auto simp: nth_enumerate_eq)

lemma report_groups_eq: "report_groups (report r) = fold group_push (report_pairs r) []"
proof -
  let ?rp = "fold report_push (report_pairs r) \<lparr>rp_kept = [], rp_bounds = [0], rp_folded = []\<rparr>"
  let ?gs = "fold group_push (report_pairs r) []"
  note abs = report_refines [of "report_pairs r", unfolded report_abs_def]
  show ?thesis
  proof (cases "?gs = []")
    case True
    then show ?thesis using abs by (simp add: report_def report_groups_def)
  next
    case False
    then have rp: "report r = ?rp\<lparr>rp_bounds := prefix_sums (map (length \<circ> snd) ?gs)\<rparr>"
      using abs unfolding report_def Let_def by (metis list.map_disc_iff)
    have "(case get_range (concat (map snd ?gs)) (prefix_sums (map (length \<circ> snd) ?gs) ! i)
        (prefix_sums (map (length \<circ> snd) ?gs) ! Suc i) of Some xs \<Rightarrow> xs | None \<Rightarrow> []) = snd (?gs ! i)"
      if i: "i < length ?gs" for i
    proof -
      let ?ls = "map (length \<circ> snd) ?gs"
      have "prefix_sums ?ls ! i \<le> prefix_sums ?ls ! Suc i" "prefix_sums ?ls ! Suc i \<le> length (concat (map snd ?gs))"
        using prefix_sums_mono [of i "Suc i" ?ls] prefix_sums_mono [of "Suc i" "length ?ls" ?ls] i
        by (simp_all add: nth_prefix_sums length_concat)
      then show ?thesis
        using sub_slice_concat [of i "map snd ?gs"] i by (simp add: get_range_def comp_def)
    qed
    then have "report_groups (report r) = map (\<lambda>i. (fst (?gs ! i), snd (?gs ! i))) [0..<length ?gs]"
      unfolding report_groups_def enumerate_map rp using abs False by simp
    also have "\<dots> = ?gs" by (rule nth_equalityI) auto
    finally show ?thesis .
  qed
qed

text \<open>Pairs sorted by the kept section are grouped by it.\<close>

abbreviation members_of :: "(section_id \<times> section_id) list \<Rightarrow> section_id \<Rightarrow> section_id list" where
  "members_of ps rep \<equiv> map snd (filter (\<lambda>p. fst p = rep) ps)"

lemma sorted_list_of_set_snoc:
  fixes b :: "'a :: linorder"
  assumes "finite A" "\<forall>a\<in>A. a < b"
  shows "sorted_list_of_set (insert b A) = sorted_list_of_set A @ [b]"
proof -
  have "b \<notin> A" using assms(2) by blast
  then have "sorted_list_of_set (insert b A) = insort b (sorted_list_of_set A)" using assms(1) by (simp add: sorted_list_of_set_insert)
  also have "\<dots> = sorted_list_of_set A @ [b]" using assms by (intro sorted_insort_is_snoc) auto
  finally show ?thesis .
qed

lemma group_push_sorted:
  "sorted (map fst ps) \<Longrightarrow> fold group_push ps [] = map (\<lambda>rep. (rep, members_of ps rep)) (sorted_list_of_set (fst ` set ps))"
proof (induction ps rule: rev_induct)
  case (snoc p ps)
  obtain rep m where p: "p = (rep, m)" by (cases p)
  let ?reps = "sorted_list_of_set (fst ` set ps)"
  have le: "r \<le> rep" if "r \<in> fst ` set ps" for r using snoc.prems that p by (auto simp: sorted_append)
  have IH: "fold group_push ps [] = map (\<lambda>rep. (rep, members_of ps rep)) ?reps" using snoc by (simp add: sorted_append)
  have other: "members_of (ps @ [p]) r = members_of ps r" if "r \<noteq> rep" for r using that by (simp add: p)
  show ?case
  proof (cases "rep \<in> fst ` set ps")
    case True
    have "\<forall>r\<in>fst ` set ps - {rep}. r < rep" using le by (auto simp: order_less_le)
    from sorted_list_of_set_snoc [OF _ this] True have split: "?reps = sorted_list_of_set (fst ` set ps - {rep}) @ [rep]"
      by (simp add: insert_absorb)
    have "map (\<lambda>r. (r, members_of (ps @ [p]) r)) (sorted_list_of_set (fst ` set ps - {rep})) = map (\<lambda>r. (r, members_of ps r)) (sorted_list_of_set (fst ` set ps - {rep}))"
      by (rule map_cong [OF refl], subst other) auto
    moreover have "fold group_push ps [] = map (\<lambda>r. (r, members_of ps r)) (sorted_list_of_set (fst ` set ps - {rep})) @ [(rep, members_of ps rep)]"
      by (simp only: IH split map_append list.map)
    then have "fold group_push (ps @ [p]) [] = map (\<lambda>r. (r, members_of ps r)) (sorted_list_of_set (fst ` set ps - {rep})) @ [(rep, members_of ps rep @ [m])]"
      by (simp add: group_push_def p)
    moreover have "members_of (ps @ [p]) rep = members_of ps rep @ [m]" by (simp add: p)
    moreover have "fst ` set (ps @ [p]) = fst ` set ps" using True by (auto simp: p)
    ultimately show ?thesis by (simp only: split map_append list.map)
  next
    case False
    have "\<forall>r\<in>fst ` set ps. r < rep" using le False by (metis order_less_le)
    from sorted_list_of_set_snoc [OF _ this] have new: "sorted_list_of_set (fst ` set (ps @ [p])) = ?reps @ [rep]" by (simp add: p)
    have "members_of (ps @ [p]) rep = [m]" using False by (force simp: p filter_empty_conv)
    moreover have "map (\<lambda>r. (r, members_of (ps @ [p]) r)) ?reps = map (\<lambda>r. (r, members_of ps r)) ?reps"
      using False by (intro map_cong [OF refl], subst other) auto
    moreover have "fold group_push (ps @ [p]) [] = map (\<lambda>r. (r, members_of ps r)) ?reps @ [(rep, [m])]"
    proof -
      have "?reps = [] \<or> last ?reps \<noteq> rep" using False last_in_set [of ?reps] by auto
      then show ?thesis by (cases "?reps = []") (simp_all add: IH group_push_def p last_map del: sorted_list_of_set_eq_Nil_iff)
    qed
    ultimately show ?thesis by (simp only: new map_append list.map)
  qed
qed simp

definition all_ids :: "usize \<Rightarrow> section_id list" where
  "all_ids n = map of_nat [0..<n]"

lemma report_pairs_of:
  assumes "length (ic_fold_into r) \<le> 2 ^ 32"
  shows "members_of (report_pairs r) kept = filter (\<lambda>s. is_folded r s \<and> representative r s = kept) (all_ids (length (ic_fold_into r)))"
    "fst ` set (report_pairs r) = {representative r s |s. is_folded r s}"
proof -
  let ?n = "length (ic_fold_into r)" and ?rep = "representative r"
  have id: "id_index (of_nat i) = i" "new_id i = Some (of_nat i)" if "i < ?n" for i
    using that assms id_index_of_nat [of i] new_id_index [of "of_nat i"] by simp_all
  have at: "ic_fold_into r ! i = ?rep (of_nat i)" if "i < ?n" for i using that id by (simp add: representative_def get_nth_def)
  have same: "id_index a = i \<longleftrightarrow> a = of_nat i" if "i < ?n" for a i using id(1) [OF that] of_nat_id_index [of a] by auto
  have enum: "List.enumerate 0 (ic_fold_into r) = map (\<lambda>i. (i, ic_fold_into r ! i)) [0..<?n]"
    by (rule nth_equalityI) (simp_all add: nth_enumerate_eq)
  have "filter (\<lambda>(index, rep). id_index rep \<noteq> index) (List.enumerate 0 (ic_fold_into r)) =
      map (\<lambda>i. (i, ic_fold_into r ! i)) (filter (\<lambda>i. is_folded r (of_nat i)) [0..<?n])"
    unfolding enum filter_map o_def prod.case
    by (intro arg_cong [of _ _ "map _"] filter_cong [OF refl]) (auto simp: is_folded_def at same)
  then have "map (\<lambda>(index, rep). (rep, the (new_id index))) (filter (\<lambda>(index, rep). id_index rep \<noteq> index) (List.enumerate 0 (ic_fold_into r))) =
      map (\<lambda>s. (?rep s, s)) (filter (is_folded r) (all_ids ?n))"
    by (simp add: all_ids_def filter_map o_def at id)
  then have pairs: "report_pairs r = sort_key fst (map (\<lambda>s. (?rep s, s)) (filter (is_folded r) (all_ids ?n)))"
    by (simp add: report_pairs_def)
  show "members_of (report_pairs r) kept = filter (\<lambda>s. is_folded r s \<and> ?rep s = kept) (all_ids ?n)"
    unfolding pairs sort_key_stable by (simp add: filter_map o_def conj_commute)
  have "s \<in> set (all_ids ?n)" if "is_folded r s" for s
  proof -
    have "id_index s < ?n" using that by (auto simp: is_folded_def representative_def get_nth_def split: if_splits)
    then show ?thesis unfolding all_ids_def using of_nat_id_index [of s] by (metis atLeastLessThan_iff image_eqI le0 list.set_map set_upt)
  qed
  then show "fst ` set (report_pairs r) = {?rep s |s. is_folded r s}" unfolding pairs by (force simp: image_iff)
qed

section \<open>Properties\<close>

text \<open>
  C2. For every checked input, every mode and every hash function, folding returns, and two
  sections have the same representative exactly when some bisimulation relates them: the result is
  the coarsest stable partition, so mutually recursive functions fold.
\<close>

theorem fold_identical_coarsest:
  "icf_ok inp \<Longrightarrow> \<exists>r. fold_identical hf inp mode = Some r \<and> length (ic_fold_into r) = icf_len inp \<and>
     (\<forall>a b. id_index a < icf_len inp \<longrightarrow> id_index b < icf_len inp \<longrightarrow>
        (representative r a = representative r b \<longleftrightarrow> (\<exists>R. icf_bisim inp mode R \<and> R a b)))"
proof -
  assume "icf_ok inp"
  from fold_identical_spec [OF this, of hf mode] obtain cls k
    where r: "fold_identical hf inp mode = Some \<lparr>ic_fold_into = cls, ic_rounds = k\<rparr>"
      and f: "folds_to inp mode cls" by blast
  then show ?thesis
    by (intro exI [of _ "\<lparr>ic_fold_into = cls, ic_rounds = k\<rparr>"])
      (simp add: folds_to_def representative_class)
qed

text \<open>Two mutually recursive pairs, a section that differs, and one that must not fold.\<close>

definition demo_icf :: icf_input where
  "demo_icf =
     (let s = (\<lambda>f. \<lparr>is_contents = [0x90], is_key = 1, is_foldable = f, is_address_significant = False\<rparr>);
          r = (\<lambda>t. \<lparr>ir_offset = 0, ir_kind = 2, ir_addend = 0, ir_target = TSection t 0\<rparr>)
      in \<lparr>ii_sections = [s True, s True, s True, s True, s True, s False],
          ii_relocs = csr_of [[r 1], [r 0], [r 3], [r 2], [r 5], []]\<rparr>)"

lemma demo_icf_ok: "icf_ok demo_icf"
  unfolding icf_ok_def demo_icf_def Let_def icf_len_def icf_input.simps csr_values_of csr_rows_of csr_invar_def
  by (simp add: id_index_def) (simp add: csr_of_def)

theorem fold_identical_coarsest_witness:
  "icf_ok demo_icf \<and>
   map_option ic_fold_into (fold_identical (\<lambda>_. 0) demo_icf All) = Some [0, 0, 0, 0, 4, 5] \<and>
   (\<exists>r. fold_identical (\<lambda>_. 0) demo_icf All = Some r \<and>
      (representative r 2 = representative r 1 \<longleftrightarrow> (\<exists>R. icf_bisim demo_icf All R \<and> R 2 1)))"
proof -
  have "map_option ic_fold_into (fold_identical (\<lambda>_. 0) demo_icf All) = Some [0, 0, 0, 0, 4, 5]"
    by code_simp
  moreover have "id_index 2 < icf_len demo_icf" "id_index 1 < icf_len demo_icf"
    by (simp_all add: icf_len_def demo_icf_def id_index_def)
  ultimately show ?thesis
    using demo_icf_ok fold_identical_coarsest [OF demo_icf_ok, of "\<lambda>_. 0" All] by blast
qed

text \<open>
  C10. The sections folded, and what each folds into, do not depend on the hash: any two hash
  functions give the same table.
\<close>

theorem fold_identical_hash_free:
  "icf_ok inp \<Longrightarrow>
     map_option ic_fold_into (fold_identical hf inp mode) = map_option ic_fold_into (fold_identical hf' inp mode)"
proof -
  assume ok: "icf_ok inp"
  from fold_identical_spec [OF ok, of hf mode] fold_identical_spec [OF ok, of hf' mode]
    folds_to_unique [of inp mode] ok
  show ?thesis by (fastforce simp: icf_ok_def)
qed

theorem fold_identical_hash_free_witness:
  "icf_ok demo_icf \<and>
   map_option ic_fold_into (fold_identical (\<lambda>_. 0) demo_icf Safe) =
   map_option ic_fold_into (fold_identical (\<lambda>ws. of_nat (length ws)) demo_icf Safe)"
  using demo_icf_ok fold_identical_hash_free [OF demo_icf_ok] by blast

text \<open>
  C9. Folding is safe: a folded section and the one it folds into are both eligible, with equal
  keys, equal bytes and equal relocations up to their target sections; and a section folds into the
  lowest-numbered member of its class, which is itself kept.
\<close>

theorem fold_identical_safe:
  "icf_ok inp \<Longrightarrow> fold_identical hf inp mode = Some r \<Longrightarrow> is_folded r s \<Longrightarrow>
     s \<in> elig inp mode \<and> representative r s \<in> elig inp mode \<and> representative r s < s \<and>
     \<not> is_folded r (representative r s) \<and>
     is_key (folder_section inp s) = is_key (folder_section inp (representative r s)) \<and>
     is_contents (folder_section inp s) = is_contents (folder_section inp (representative r s)) \<and>
     map reloc_key (folder_relocs inp s) = map reloc_key (folder_relocs inp (representative r s))"
proof -
  assume ok: "icf_ok inp" and r: "fold_identical hf inp mode = Some r" and s: "is_folded r s"
  obtain cls k where eq: "r = \<lparr>ic_fold_into = cls, ic_rounds = k\<rparr>" and f: "folds_to inp mode cls"
    using fold_identical_spec [OF ok, of hf mode] r by auto
  have len: "length cls = icf_len inp" using f by (simp add: folds_to_def)
  have idx: "id_index s < icf_len inp"
    using s len by (auto simp: is_folded_def representative_def eq split: option.splits)
  have rep: "representative r s = class_of cls s"
    unfolding eq by (rule representative_class) (simp add: idx len)
  have ne: "class_of cls s \<noteq> s" using s rep by (simp add: is_folded_def)
  have less: "class_of cls s < s" using f idx ne unfolding folds_to_def by (metis order_le_less)
  then have "id_index (class_of cls s) < icf_len inp"
    using idx by (simp add: id_index_def word_less_nat_alt)
  then have "representative r (class_of cls s) = class_of cls s"
    using f idx len by (simp add: eq representative_class folds_to_def)
  moreover have "compare_constant inp s (class_of cls s) = Equal" "s \<in> elig inp mode" "class_of cls s \<in> elig inp mode"
    using f idx ne by (auto simp: folds_to_def)
  ultimately show ?thesis
    using less rep by (simp add: is_folded_def compare_constant_key constant_key_def)
qed

theorem fold_identical_safe_witness:
  "\<exists>r. fold_identical (\<lambda>_. 0) demo_icf All = Some r \<and> is_folded r 3 \<and> representative r 3 < 3 \<and>
     \<not> is_folded r (representative r 3)"
proof -
  obtain r where r: "fold_identical (\<lambda>_. 0) demo_icf All = Some r" "ic_fold_into r = [0, 0, 0, 0, 4, 5]"
  proof -
    have "map_option ic_fold_into (fold_identical (\<lambda>_. 0) demo_icf All) = Some [0, 0, 0, 0, 4, 5]"
      by code_simp
    with that show thesis by auto
  qed
  then have "is_folded r 3" by (simp add: is_folded_def representative_def get_nth_def id_index_def)
  with r(1) fold_identical_safe [OF demo_icf_ok r(1)] show ?thesis by blast
qed

text \<open>
  C21. The report lists what was folded: its groups are the sections that others were folded into, in
  ascending order, each with exactly the sections whose representative it is, in input order. Reading the
  three vectors back is part of the statement.
\<close>

theorem report_groups_folded:
  "length (ic_fold_into r) \<le> 2 ^ 32 \<Longrightarrow>
   report_groups (report r) =
     map (\<lambda>kept. (kept, filter (\<lambda>s. is_folded r s \<and> representative r s = kept) (all_ids (length (ic_fold_into r)))))
       (sorted_list_of_set {representative r s |s. is_folded r s})"
proof -
  assume small: "length (ic_fold_into r) \<le> 2 ^ 32"
  have "sorted (map fst (report_pairs r))" by (simp add: report_pairs_def)
  from group_push_sorted [OF this] show ?thesis by (simp only: report_groups_eq report_pairs_of [OF small])
qed

theorem report_groups_folded_witness:
  "report_groups (report \<lparr>ic_fold_into = [0, 1, 0, 1, 0], ic_rounds = 2\<rparr>) = [(0, [2, 4]), (1, [3])] \<and>
   sorted_list_of_set {representative \<lparr>ic_fold_into = [0, 1, 0, 1, 0], ic_rounds = 2\<rparr> s |s.
     is_folded \<lparr>ic_fold_into = [0, 1, 0, 1, 0], ic_rounds = 2\<rparr> s} = [0, 1]"
proof -
  let ?r = "\<lparr>ic_fold_into = [0, 1, 0, 1, 0], ic_rounds = 2\<rparr> :: icf_result"
  have groups: "report_groups (report ?r) = [(0, [2, 4]), (1, [3])]" by code_simp
  have "map fst (report_groups (report ?r)) = sorted_list_of_set {representative ?r s |s. is_folded ?r s}"
    by (subst report_groups_folded) (simp_all add: o_def)
  then show ?thesis using groups by simp
qed

end
