(* ===== verification/Strtab.thy ===== *)
theory Strtab
  imports Prelude
begin

text \<open>
  String tables (src/src/elf/read/strtab.rs): the lookup of a NUL-terminated string and the search for
  a byte that both the string tables and the splitting of mergeable sections rely on. The search
  reads eight bytes at a time and finds the first zero byte of a word with the subtract-and-mask
  trick; it is proved to be the byte-by-byte search.
\<close>

section \<open>Definitions\<close>

definition u64_from_le_bytes :: "u8 list \<Rightarrow> u64" where
  "u64_from_le_bytes bs = foldr (\<lambda>b w. ucast b OR push_bit 8 w) bs 0"

definition byte_LO :: u64 where
  "byte_LO = 0x0101010101010101"

definition byte_HI :: u64 where
  "byte_HI = 0x8080808080808080"

definition zero_bytes :: "u64 \<Rightarrow> u64" where
  "zero_bytes w = (w - byte_LO) AND NOT w AND byte_HI"

text \<open>The loop over the words: the index found, or the number of bytes it went over.\<close>

fun find_words :: "u64 \<Rightarrow> usize \<Rightarrow> u8 list list \<Rightarrow> usize + usize" where
  "find_words spread base [] = Inr base"
| "find_words spread base (word # words) =
     (let w = u64_from_le_bytes word XOR spread; zero = zero_bytes w
      in if zero \<noteq> 0 then Inl (base + trailing_zeros zero div 8)
         else find_words spread (base + 8) words)"

definition find_byte :: "u8 list \<Rightarrow> u8 \<Rightarrow> usize option" where
  "find_byte bytes needle =
     (let spread = byte_LO * ucast needle
      in case find_words spread 0 (chunks_exact 8 bytes) of
           Inl i \<Rightarrow> Some i
         | Inr base \<Rightarrow>
             (case get_range bytes base (length bytes) of None \<Rightarrow> None
              | Some rest \<Rightarrow> map_option (\<lambda>i. base + i) (position (\<lambda>b. b = needle) rest)))"

definition find_nul :: "u8 list \<Rightarrow> usize option" where
  "find_nul bytes = find_byte bytes 0"

record string_table =
  st_data :: "u8 list"
  st_file_offset :: u64

definition string_table_new :: "u8 list \<Rightarrow> u64 \<Rightarrow> string_table" where
  "string_table_new bytes file_offset = \<lparr>st_data = bytes, st_file_offset = file_offset\<rparr>"

definition string_table_get :: "string_table \<Rightarrow> u32 \<Rightarrow> u8 list option" where
  "string_table_get t offset =
     (case get_range (st_data t) (unat offset) (length (st_data t)) of None \<Rightarrow> None
      | Some tail \<Rightarrow> (case find_nul tail of None \<Rightarrow> None | Some len \<Rightarrow> get_range tail 0 len))"

section \<open>The zero-byte trick\<close>

definition byte_of :: "u64 \<Rightarrow> nat \<Rightarrow> u8" where
  "byte_of w j = ucast (drop_bit (8 * j) w)"

lemma uint_byte_of: "uint (byte_of w k) = take_bit 8 (drop_bit (8 * k) (uint w))"
proof -
  have "take_bit 64 (uint w) = uint w" by (rule bintr_uint) simp
  then show ?thesis by (simp add: byte_of_def unsigned_ucast_eq unsigned_drop_bit_eq)
qed

lemma drop_bit_diff:
  fixes x y :: int
  assumes "take_bit m y \<le> take_bit m x"
  shows "drop_bit m (x - y) = drop_bit m x - drop_bit m y"
proof -
  have x: "x = push_bit m (drop_bit m x) + take_bit m x" and y: "y = push_bit m (drop_bit m y) + take_bit m y"
    by (simp_all add: bits_ident)
  have "x - y = (take_bit m x - take_bit m y) + 2 ^ m * (drop_bit m x - drop_bit m y)"
    by (subst x, subst y) (simp add: push_bit_eq_mult algebra_simps)
  moreover have "0 \<le> take_bit m x - take_bit m y" "take_bit m x - take_bit m y < 2 ^ m"
    using assms take_bit_int_less_exp [of m x] take_bit_nonnegative [of m y] by linarith+
  ultimately show ?thesis
    by (simp add: drop_bit_eq_div)
qed

lemma byte_LO_bytes: "k < 8 \<Longrightarrow> take_bit 8 (drop_bit (8 * k) (0x0101010101010101 :: int)) = 1"
proof -
  assume "k < 8"
  moreover have "\<forall>k\<in>set [0..<8]. take_bit 8 (drop_bit (8 * k) (0x0101010101010101 :: int)) = 1"
    by code_simp
  ultimately show ?thesis by auto
qed

lemma byte_HI_bit: "bit byte_HI n \<longleftrightarrow> n < 64 \<and> n mod 8 = 7"
proof (cases "n < 64")
  case True
  have "\<forall>n\<in>set [0..<64]. bit byte_HI n \<longleftrightarrow> n mod 8 = 7" by code_simp
  with True show ?thesis by auto
next
  case False
  then show ?thesis using bit_imp_le_length [of byte_HI n] by auto
qed

text \<open>No borrow leaves the bytes below the first zero byte.\<close>

lemma no_borrow:
  "k \<le> 8 \<Longrightarrow> \<forall>j<k. byte_of w j \<noteq> 0 \<Longrightarrow>
     take_bit (8 * k) (0x0101010101010101 :: int) \<le> take_bit (8 * k) (uint w)"
proof (induction k)
  case 0
  then show ?case by simp
next
  case (Suc k)
  let ?t = "\<lambda>x :: int. take_bit 8 (drop_bit (8 * k) x)"
  have split: "take_bit (8 * Suc k) x = take_bit (8 * k) x + 2 ^ (8 * k) * ?t x" for x :: int
  proof -
    have "take_bit (8 * Suc k) x = take_bit (8 * k + 8) x" by (simp add: ac_simps)
    also have "\<dots> = take_bit (8 * k) x + push_bit (8 * k) (?t x)"
      by (simp add: take_bit_eq_mod drop_bit_eq_div push_bit_eq_mult power_add zmod_zmult2_eq)
    finally show ?thesis by (simp add: push_bit_eq_mult)
  qed
  have "byte_of w k \<noteq> 0" using Suc.prems by simp
  then have "?t (uint w) \<noteq> 0"
    by (simp add: word_uint_eq_iff uint_byte_of)
  then have "1 \<le> ?t (uint w)" using take_bit_nonnegative [of 8 "drop_bit (8 * k) (uint w)"] by linarith
  then have "2 ^ (8 * k) * 1 \<le> (2 ^ (8 * k) :: int) * ?t (uint w)" by (intro mult_left_mono) auto
  moreover have "take_bit (8 * k) (0x0101010101010101 :: int) \<le> take_bit (8 * k) (uint w)"
    using Suc by simp
  ultimately show ?case
    using Suc.prems byte_LO_bytes [of k] unfolding split by (intro add_mono) simp_all
qed

lemma diff_byte:
  assumes "k < 8" and "\<forall>j<k. byte_of w j \<noteq> 0" and "i < 8"
  shows "bit (w - byte_LO) (8 * k + i) \<longleftrightarrow> bit (byte_of w k - 1) i"
proof -
  let ?lo = "0x0101010101010101 :: int"
  have "uint (w - byte_LO) = take_bit 64 (uint w - ?lo)"
    by (simp add: byte_LO_def uint_word_ariths take_bit_eq_mod)
  moreover have "bit (w - byte_LO) (8 * k + i) \<longleftrightarrow> bit (uint (w - byte_LO)) (8 * k + i)"
    using assms by (simp add: bit_uint_iff)
  ultimately have "bit (w - byte_LO) (8 * k + i) \<longleftrightarrow> bit (uint w - ?lo) (8 * k + i)"
    using assms by (simp add: bit_take_bit_iff)
  also have "\<dots> \<longleftrightarrow> bit (drop_bit (8 * k) (uint w - ?lo)) i"
    by (simp add: bit_drop_bit_eq)
  also have "\<dots> \<longleftrightarrow> bit (take_bit 8 (drop_bit (8 * k) (uint w) - drop_bit (8 * k) ?lo)) i"
    using assms(3) drop_bit_diff [OF no_borrow [of k w]] assms by (simp add: bit_take_bit_iff)
  also have "take_bit 8 (drop_bit (8 * k) (uint w) - drop_bit (8 * k) ?lo) =
      take_bit 8 (take_bit 8 (drop_bit (8 * k) (uint w)) - take_bit 8 (drop_bit (8 * k) ?lo))"
    by (simp add: take_bit_diff)
  also have "\<dots> = uint (byte_of w k - 1)"
    unfolding byte_LO_bytes [OF assms(1)]
    by (simp add: uint_word_ariths uint_byte_of take_bit_eq_mod)
  finally show ?thesis using assms(3) by (simp add: bit_uint_iff)
qed

lemma byte_eq_0: "byte_of w k = 0 \<longleftrightarrow> (\<forall>i<8. \<not> bit w (8 * k + i))" if "k < 8"
  using that by (auto simp: byte_of_def bit_eq_iff bit_simps)

text \<open>A nonzero byte that is not above 128 loses its top bit nowhere; a zero byte gains it.\<close>

lemma top_bit: "bit b 7 \<longleftrightarrow> 128 \<le> uint b" for b :: u8
proof -
  have "bit b 7 \<longleftrightarrow> bit (uint b) 7" by (simp add: bit_uint_iff)
  also have "\<dots> \<longleftrightarrow> odd (uint b div 128)" by (simp only: bit_iff_odd) simp
  finally have bit: "bit b 7 \<longleftrightarrow> odd (uint b div 128)" .
  have "0 \<le> uint b" "uint b < 256" using uint_lt2p [of b] by simp_all
  then have "uint b div 128 = (if 128 \<le> uint b then 1 else 0)"
    by (simp add: div_pos_geq div_pos_pos_trivial)
  with bit show ?thesis by simp
qed

lemma pred_top_bit: "bit (b - 1) 7 \<and> \<not> bit b 7 \<longleftrightarrow> b = 0" for b :: u8
proof (cases "b = 0")
  case True
  then show ?thesis by (simp add: bit_simps)
next
  case False
  then have "uint b \<noteq> 0" by (simp add: word_uint_eq_iff)
  then have "1 \<le> uint b" using uint_nonnegative [of b] by linarith
  then have "uint (b - 1) = uint b - 1" using uint_lt2p [of b] by (simp add: uint_word_ariths)
  with False show ?thesis by (simp add: top_bit)
qed

lemma zero_bytes_bit:
  assumes "k < 8" and "\<forall>j<k. byte_of w j \<noteq> 0"
  shows "bit (zero_bytes w) (8 * k + 7) \<longleftrightarrow> byte_of w k = 0"
proof -
  have "bit w (8 * k + 7) \<longleftrightarrow> bit (byte_of w k) 7"
    using assms(1) by (simp add: byte_of_def bit_simps)
  then have "bit (zero_bytes w) (8 * k + 7) \<longleftrightarrow> bit (byte_of w k - 1) 7 \<and> \<not> bit (byte_of w k) 7"
    using assms diff_byte [OF assms, of 7]
    by (simp add: zero_bytes_def bit_and_iff bit_not_iff byte_HI_bit)
  then show ?thesis by (simp add: pred_top_bit)
qed

lemma zero_bytes_low_bits: "bit (zero_bytes w) i \<Longrightarrow> i < 64 \<and> i mod 8 = 7"
  by (simp add: zero_bytes_def bit_and_iff byte_HI_bit)

lemma zero_bytes_None: "zero_bytes w = 0 \<longleftrightarrow> (\<forall>j<8. byte_of w j \<noteq> 0)"
proof (rule iffI)
  assume z: "zero_bytes w = 0"
  have "j < 8 \<Longrightarrow> byte_of w j \<noteq> 0" for j
  proof (induction j rule: less_induct)
    case (less j)
    then show ?case using zero_bytes_bit [of j w] z by auto
  qed
  then show "\<forall>j<8. byte_of w j \<noteq> 0" by blast
next
  assume all: "\<forall>j<8. byte_of w j \<noteq> 0"
  show "zero_bytes w = 0"
  proof (rule bit_eqI)
    fix n
    have "\<not> bit (zero_bytes w) n"
    proof
      assume bit: "bit (zero_bytes w) n"
      define k where "k = n div 8"
      have "n < 64" "n mod 8 = 7" using zero_bytes_low_bits [OF bit] by simp_all
      then have n: "n = 8 * k + 7" "k < 8" unfolding k_def by presburger+
      then have "\<forall>j<k. byte_of w j \<noteq> 0" using all by auto
      with zero_bytes_bit [of k w] n bit all show False by simp
    qed
    then show "bit (zero_bytes w) n = bit 0 n" by simp
  qed
qed

lemma zero_bytes_first:
  assumes "k < 8" and "byte_of w k = 0" and "\<forall>j<k. byte_of w j \<noteq> 0"
  shows "trailing_zeros (zero_bytes w) div 8 = k"
proof -
  let ?t = "trailing_zeros (zero_bytes w)"
  have set: "bit (zero_bytes w) (8 * k + 7)" using zero_bytes_bit [OF assms(1,3)] assms(2) by simp
  then have le: "?t \<le> 8 * k + 7" using trailing_zeros_spec(2) [of "8 * k + 7" "zero_bytes w"] by linarith
  have "zero_bytes w \<noteq> 0" using set by auto
  then have bit: "bit (zero_bytes w) ?t" using trailing_zeros_less trailing_zeros_spec(3) by blast
  define j where "j = ?t div 8"
  have t: "?t = 8 * j + 7" using zero_bytes_low_bits [OF bit] unfolding j_def by presburger
  have "j \<le> k" using le t by linarith
  have "\<not> j < k"
  proof
    assume "j < k"
    then have "\<forall>i<j. byte_of w i \<noteq> 0" "byte_of w j \<noteq> 0" using assms(3) by auto
    with zero_bytes_bit [of j w] bit t \<open>j < k\<close> assms(1) show False by simp
  qed
  with \<open>j \<le> k\<close> show ?thesis by (simp add: j_def)
qed

section \<open>The search\<close>

lemma bit_from_le:
  "length bs \<le> 8 \<Longrightarrow> bit (u64_from_le_bytes bs) n \<longleftrightarrow> n div 8 < length bs \<and> bit (bs ! (n div 8)) (n mod 8)"
proof (induction bs arbitrary: n)
  case Nil
  then show ?case by (simp add: u64_from_le_bytes_def)
next
  case (Cons b bs)
  have "bit (u64_from_le_bytes (b # bs)) n \<longleftrightarrow>
      bit (ucast b :: u64) n \<or> 8 \<le> n \<and> n < 64 \<and> bit (u64_from_le_bytes bs) (n - 8)"
    by (auto simp: u64_from_le_bytes_def bit_or_iff bit_push_bit_iff)
  moreover have "n < 64" if "(n - 8) div 8 < length bs"
    using that Cons.prems by (simp add: div_less_iff_less_mult)
  moreover have "bit (ucast b :: u64) n \<longleftrightarrow> n < 8 \<and> bit b n"
    by (auto simp: bit_simps dest: bit_imp_le_length)
  ultimately show ?case
    using Cons by (cases "n < 8") (auto simp: le_div_geq le_mod_geq)
qed

lemma byte_from_le:
  assumes "length bs = 8" and "j < 8"
  shows "byte_of (u64_from_le_bytes bs) j = bs ! j"
  using assms by (intro bit_word_eqI) (auto simp: byte_of_def bit_simps bit_from_le)

lemma le_step_add: "ucast b OR push_bit 8 w = ucast b + 256 * w" for b :: u8 and w :: u64
proof -
  have "(ucast b :: u64) AND push_bit 8 w = 0"
    by (intro bit_word_eqI) (auto simp: bit_simps dest: bit_imp_le_length)
  then have "ucast b OR push_bit 8 w = ucast b + push_bit 8 w" by (metis disjunctive_add_eq_or)
  then show ?thesis by (simp add: push_bit_eq_mult)
qed

lemma spread_eq: "byte_LO * ucast b = u64_from_le_bytes (replicate 8 b)" for b :: u8
proof -
  have "replicate 8 b = [b, b, b, b, b, b, b, b]" by (simp add: numeral_eq_Suc)
  then have "u64_from_le_bytes (replicate 8 b) =
      (let c = ucast b in c + 256 * (c + 256 * (c + 256 * (c + 256 * (c + 256 * (c + 256 * (c + 256 * (c + 256 * 0))))))))"
    by (simp only: u64_from_le_bytes_def foldr.simps comp_apply id_apply le_step_add Let_def)
  also have "\<dots> = byte_LO * ucast b"
    by (simp add: byte_LO_def Let_def algebra_simps)
  finally show ?thesis by simp
qed

lemma byte_of_xor: "byte_of (v XOR w) j = byte_of v j XOR byte_of w j"
  by (intro bit_word_eqI) (auto simp: byte_of_def bit_simps)

lemma xor_eq_0: "v XOR w = 0 \<longleftrightarrow> v = w" for v w :: "'a::len word"
  by (metis bit.xor_self bit_xor_iff bit_eqI xor_self_eq word_bw_same(3) xor.assoc xor.left_neutral)

lemma byte_of_spread:
  assumes "length word = 8" and "j < 8"
  shows "byte_of (u64_from_le_bytes word XOR byte_LO * ucast needle) j = 0 \<longleftrightarrow> word ! j = needle"
  using assms by (simp add: byte_of_xor spread_eq byte_from_le xor_eq_0)

lemma find_word:
  fixes needle :: u8
  assumes "length word = 8"
  defines "z \<equiv> zero_bytes (u64_from_le_bytes word XOR byte_LO * ucast needle)"
  shows "position (\<lambda>b. b = needle) word = (if z = 0 then None else Some (trailing_zeros z div 8))"
proof (cases "position (\<lambda>b. b = needle) word")
  case None
  then have "\<forall>j<8. word ! j \<noteq> needle" using assms(1) by (auto simp: position_None)
  then show ?thesis
    using None assms(1) by (simp add: z_def zero_bytes_None byte_of_spread)
next
  case (Some k)
  then have k: "k < 8" "word ! k = needle" "\<forall>j<k. word ! j \<noteq> needle"
    using assms(1) by (auto simp: position_Some)
  then have "z \<noteq> 0" "trailing_zeros z div 8 = k"
    using assms(1) zero_bytes_first [of k] by (auto simp: z_def zero_bytes_None byte_of_spread)
  with Some show ?thesis by simp
qed

lemma find_words_spec:
  "\<forall>w\<in>set words. length w = 8 \<Longrightarrow>
     find_words (byte_LO * ucast needle) base words =
     (case position (\<lambda>b. b = needle) (concat words) of
        Some i \<Rightarrow> Inl (base + i) | None \<Rightarrow> Inr (base + 8 * length words))"
proof (induction words arbitrary: base)
  case Nil
  then show ?case by (simp add: position_def)
next
  case (Cons w words)
  then show ?case
    using find_word [of w needle] by (simp add: position_append Let_def split: option.split)
qed

lemma find_byte_eq: "find_byte bytes needle = position (\<lambda>b. b = needle) bytes"
proof -
  let ?n = "8 * (length bytes div 8)"
  have w: "find_words (byte_LO * ucast needle) 0 (chunks_exact 8 bytes) =
     (case position (\<lambda>b. b = needle) (take ?n bytes) of Some i \<Rightarrow> Inl i | None \<Rightarrow> Inr ?n)"
    by (subst find_words_spec) (auto simp: concat_chunks_exact dest: chunks_exact_lengths split: option.split)
  have "position (\<lambda>b. b = needle) bytes = position (\<lambda>b. b = needle) (take ?n bytes @ drop ?n bytes)"
    by simp
  then show ?thesis
    unfolding find_byte_def Let_def w position_append
    by (simp add: get_range_def sub_slice_def min_def split: option.split)
qed

lemma find_nul_Some:
  "find_nul bytes = Some n \<longleftrightarrow> n < length bytes \<and> bytes ! n = 0 \<and> (\<forall>j<n. bytes ! j \<noteq> 0)"
  by (simp add: find_nul_def find_byte_eq position_Some)

lemma find_nul_None: "find_nul bytes = None \<longleftrightarrow> 0 \<notin> set bytes"
  by (auto simp: find_nul_def find_byte_eq position_None)

section \<open>Properties\<close>

text \<open>
  C18. The word-at-a-time search for a byte is the byte-by-byte search: it returns the first position
  of the byte, and None exactly when the byte does not occur.
\<close>

theorem find_byte_first:
  "(find_byte bytes needle = Some i \<longleftrightarrow>
      i < length bytes \<and> bytes ! i = needle \<and> needle \<notin> set (take i bytes)) \<and>
   (find_byte bytes needle = None \<longleftrightarrow> needle \<notin> set bytes)"
proof -
  have "needle \<notin> set (take i bytes) \<longleftrightarrow> (\<forall>j<i. bytes ! j \<noteq> needle)" if "i < length bytes"
    using that by (auto simp: in_set_conv_nth)
  moreover have "(\<forall>b\<in>set bytes. b \<noteq> needle) \<longleftrightarrow> needle \<notin> set bytes" by metis
  ultimately show ?thesis unfolding find_byte_eq position_Some position_None by metis
qed

text \<open>
  A string-table lookup returns the bytes from the offset up to the first NUL, and fails exactly
  when the offset is outside the table or no NUL follows it.
\<close>

theorem string_table_get_spec:
  "string_table_get t offset = Some s \<longleftrightarrow>
     unat offset \<le> length (st_data t) \<and> 0 \<notin> set s \<and> (\<exists>rest. drop (unat offset) (st_data t) = s @ 0 # rest)"
proof (cases "unat offset \<le> length (st_data t)")
  case False
  then show ?thesis by (simp add: string_table_get_def get_range_def)
next
  case True
  define tail where "tail = drop (unat offset) (st_data t)"
  have get: "string_table_get t offset = map_option (\<lambda>len. take len tail) (find_nul tail)"
  proof (cases "find_nul tail")
    case (Some n)
    then have "n \<le> length tail" using find_nul_Some [of tail n] by simp
    with True Some show ?thesis
      by (simp add: string_table_get_def get_range_def sub_slice_def tail_def)
  qed (use True in \<open>simp add: string_table_get_def get_range_def sub_slice_def tail_def\<close>)
  show ?thesis
  proof (rule iffI)
    assume "string_table_get t offset = Some s"
    then obtain n where n: "find_nul tail = Some n" "s = take n tail" by (auto simp: get)
    then have "tail = s @ 0 # drop (Suc n) tail"
      by (metis find_nul_Some id_take_nth_drop)
    moreover have "0 \<notin> set s" using n by (auto simp: find_nul_Some in_set_conv_nth)
    ultimately show "unat offset \<le> length (st_data t) \<and> 0 \<notin> set s \<and>
        (\<exists>rest. drop (unat offset) (st_data t) = s @ 0 # rest)"
      using True unfolding tail_def by blast
  next
    assume "unat offset \<le> length (st_data t) \<and> 0 \<notin> set s \<and>
        (\<exists>rest. drop (unat offset) (st_data t) = s @ 0 # rest)"
    then obtain rest where r: "tail = s @ 0 # rest" "0 \<notin> set s" unfolding tail_def by blast
    have "find_nul tail = Some (length s)"
      unfolding find_nul_Some r using r(2) by (auto simp: nth_append in_set_conv_nth)
    then show "string_table_get t offset = Some s" by (simp add: get r)
  qed
qed

end
