(* ===== verification/MergeSplit.thy ===== *)
theory MergeSplit
  imports Strtab
begin

text \<open>
  Splitting a mergeable section into pieces (src/src/passes/merge/split.rs): the checks, the count, the
  recording of string starts and hashes, and the lookup of the piece that holds an offset with its
  per-thread cache. The third-party hash of a piece's bytes is the parameter \<open>hf\<close>. The hashes of a
  large section are computed by threads that own disjoint slots, so they are a map.
\<close>

section \<open>Data\<close>

datatype merge_kind = Strings u8 | Fixed u64

datatype merge_problem =
    UnterminatedString
  | SizeNotMultiple u64
  | InvalidEntrySize u64
  | InvalidAlignment u64
  | SectionTooLarge u64

record malformed_merge =
  mm_offset :: u64
  mm_problem :: merge_problem

record piece_ref =
  pr_piece :: u32
  pr_addend :: u64

record split_section =
  ss_data :: "u8 list"
  ss_kind :: merge_kind
  ss_alignment :: u64
  ss_starts :: "u32 list"
  ss_hashes :: "u64 list"

definition MIN_PIECES_PER_TASK :: usize where
  "MIN_PIECES_PER_TASK = 1024"

section \<open>Reading a split section\<close>

definition num_pieces :: "split_section \<Rightarrow> usize" where
  "num_pieces s = length (ss_hashes s)"

definition bounds :: "split_section \<Rightarrow> usize \<Rightarrow> usize \<times> usize" where
  "bounds s piece =
     (let len = length (ss_data s) in
      case ss_kind s of
        Strings _ \<Rightarrow>
          (case get_nth (ss_starts s) piece of
             Some start \<Rightarrow>
               (unat start, (case get_nth (ss_starts s) (wrapping_succ_usize piece) of
                  None \<Rightarrow> len | Some next \<Rightarrow> unat next))
           | None \<Rightarrow> (0, 0))
      | Fixed entry_size \<Rightarrow>
          let unit = unat entry_size; start = min (saturating_mul_usize piece unit) len
          in (start, min (saturating_add_usize start unit) len))"

definition bytes_of :: "split_section \<Rightarrow> usize \<Rightarrow> u8 list" where
  "bytes_of s piece =
     (case bounds s piece of (start, stop) \<Rightarrow> slice_or_empty (ss_data s) start stop)"

definition piece_start :: "split_section \<Rightarrow> usize \<Rightarrow> u64 option" where
  "piece_start s piece =
     (if piece \<ge> num_pieces s then None else Some (of_nat (fst (bounds s piece))))"

definition piece_bytes :: "split_section \<Rightarrow> usize \<Rightarrow> u8 list option" where
  "piece_bytes s piece = (if piece \<ge> num_pieces s then None else Some (bytes_of s piece))"

text \<open>
  The lookup in a string section, with this thread's cache: the address of the section of its last
  lookup and the piece found there. \<open>key\<close> is the address of the section.
\<close>

type_synonym piece_cache = "usize \<times> usize"

definition covers :: "split_section \<Rightarrow> u32 \<Rightarrow> usize \<Rightarrow> bool" where
  "covers s offset piece =
     (let stop = (case get_nth (ss_starts s) (wrapping_succ_usize piece) of
            Some next \<Rightarrow> next
          | None \<Rightarrow> (case u32_try_from (length (ss_data s)) of Some n \<Rightarrow> n | None \<Rightarrow> - 1))
      in case get_nth (ss_starts s) piece of None \<Rightarrow> False
         | Some start \<Rightarrow> start \<le> offset \<and> offset < stop)"

definition string_piece_at :: "split_section \<Rightarrow> usize \<Rightarrow> piece_cache \<Rightarrow> u32 \<Rightarrow>
    usize option \<times> piece_cache" where
  "string_piece_at s key cache offset =
     (case cache of (last_key, last_piece) \<Rightarrow>
        if last_key = key \<and> covers s offset last_piece then (Some last_piece, (key, last_piece))
        else if last_key = key \<and> covers s offset (wrapping_succ_usize last_piece)
        then (Some (wrapping_succ_usize last_piece), (key, wrapping_succ_usize last_piece))
        else
          let point = partition_point (\<lambda>start. start \<le> offset) (ss_starts s)
          in if point = 0 then (None, cache) else (Some (point - 1), (key, point - 1)))"

definition piece_at :: "split_section \<Rightarrow> usize \<Rightarrow> piece_cache \<Rightarrow> u64 \<Rightarrow>
    piece_ref option \<times> piece_cache" where
  "piece_at s key cache offset =
     (if offset \<ge> of_nat (length (ss_data s)) then (None, cache)
      else case ss_kind s of
        Strings _ \<Rightarrow>
          (case u32_try_from (unat offset) of None \<Rightarrow> (None, cache)
           | Some offset32 \<Rightarrow>
               (case string_piece_at s key cache offset32 of
                  (None, cache') \<Rightarrow> (None, cache')
                | (Some piece, cache') \<Rightarrow>
                    (case (get_nth (ss_starts s) piece, u32_try_from piece) of
                       (Some start, Some p) \<Rightarrow>
                         (Some \<lparr>pr_piece = p, pr_addend = ucast (offset32 - start)\<rparr>, cache')
                     | _ \<Rightarrow> (None, cache'))))
      | Fixed entry_size \<Rightarrow>
          (case u32_try_from (unat (offset div entry_size)) of None \<Rightarrow> (None, cache)
           | Some p \<Rightarrow> (Some \<lparr>pr_piece = p, pr_addend = offset mod entry_size\<rparr>, cache)))"

section \<open>Splitting\<close>

definition is_nul :: "u8 list \<Rightarrow> bool" where
  "is_nul c = list_all (\<lambda>b. b = 0) c"

definition count_pieces :: "merge_kind \<Rightarrow> u8 list \<Rightarrow> (usize, u64 \<times> merge_problem) result" where
  "count_pieces kind bytes =
     (let len = length bytes in
      case kind of
        Strings char_size \<Rightarrow>
          let unit = max (unat char_size) 1; remainder = len mod unit in
          if remainder \<noteq> 0 then Err (of_nat (len - remainder), SizeNotMultiple (of_nat unit))
          else if unit = 1 then
            if bytes \<noteq> [] \<and> last bytes \<noteq> 0 then
              Err (of_nat (case rposition (\<lambda>b. b = 0) bytes of None \<Rightarrow> 0 | Some p \<Rightarrow> p + 1), UnterminatedString)
            else Ok (length (filter (\<lambda>b. b = 0) bytes))
          else if chunks_exact unit bytes \<noteq> [] \<and> \<not> is_nul (last (chunks_exact unit bytes)) then
            Err (of_nat (case rposition is_nul (chunks_exact unit bytes) of None \<Rightarrow> 0 | Some p \<Rightarrow> (p + 1) * unit),
                 UnterminatedString)
          else Ok (length (filter is_nul (chunks_exact unit bytes)))
      | Fixed entry_size \<Rightarrow>
          let unit = unat entry_size in
          if unit = 0 then Err (0, SizeNotMultiple entry_size)
          else if len mod unit \<noteq> 0 then Err (of_nat (len - len mod unit), SizeNotMultiple entry_size)
          else Ok (len div unit))"

text \<open>
  The slots of the two boxed slices, the index of the next one, and the start of the current
  string; \<open>record_end\<close> is the closure \<open>record\<close>.
\<close>

record split_state =
  sp_start :: usize
  sp_next :: usize
  sp_starts :: "u32 list"
  sp_hashes :: "u64 list"

definition record_end :: "(u8 list \<Rightarrow> u64) \<Rightarrow> bool \<Rightarrow> u8 list \<Rightarrow> usize \<Rightarrow> split_state \<Rightarrow> split_state" where
  "record_end hf in_parallel bytes stop st =
     (let i = sp_next st;
          piece = slice_or_empty bytes (sp_start st) stop;
          st' = (if i < length (sp_starts st)
                 then st\<lparr>sp_next := i + 1, sp_starts := (sp_starts st)[i := of_nat (sp_start st)],
                         sp_hashes := (if in_parallel then sp_hashes st else (sp_hashes st)[i := hf piece])\<rparr>
                 else st)
      in st'\<lparr>sp_start := stop\<rparr>)"

text \<open>The \<open>while let\<close> loop over single bytes.\<close>

function record_bytes :: "(usize \<Rightarrow> split_state \<Rightarrow> split_state) \<Rightarrow> u8 list \<Rightarrow> usize \<Rightarrow> split_state \<Rightarrow> split_state" where
  "record_bytes rec bytes at st =
     (case get_range bytes at (length bytes) of None \<Rightarrow> st
      | Some rest \<Rightarrow>
          (case find_nul rest of None \<Rightarrow> st
           | Some nul \<Rightarrow> record_bytes rec bytes (at + (nul + 1)) (rec (at + (nul + 1)) st)))"
  by pat_completeness auto
termination
  by (relation "measure (\<lambda>(rec, bytes, at, st). length bytes - at)")
    (auto simp: get_range_def find_nul_Some split: if_splits)

declare record_bytes.simps [simp del]

definition split_strings :: "(u8 list \<Rightarrow> u64) \<Rightarrow> u8 list \<Rightarrow> usize \<Rightarrow> u32 list \<Rightarrow> u64 list \<Rightarrow>
    u32 list \<times> u64 list" where
  "split_strings hf bytes unit starts hashes =
     (let in_parallel = (length starts > MIN_PIECES_PER_TASK);
          rec = record_end hf in_parallel bytes;
          init = \<lparr>sp_start = 0, sp_next = 0, sp_starts = starts, sp_hashes = hashes\<rparr>;
          st = (if unit = 1 then record_bytes rec bytes 0 init
                else fold (\<lambda>(index, _). rec ((index + 1) * unit))
                       (filter (\<lambda>(_, c). is_nul c) (List.enumerate 0 (chunks_exact unit bytes))) init)
      in (sp_starts st,
          if in_parallel then
            map (\<lambda>piece.
              let begin' = (case get_nth (sp_starts st) piece of None \<Rightarrow> 0 | Some s \<Rightarrow> unat s);
                  stop = (case get_nth (sp_starts st) (piece + 1) of None \<Rightarrow> length bytes | Some n \<Rightarrow> unat n)
              in hf (slice_or_empty bytes begin' stop))
              [0..<length (sp_hashes st)]
          else sp_hashes st))"

definition split_section :: "(u8 list \<Rightarrow> u64) \<Rightarrow> u8 list \<Rightarrow> merge_kind \<Rightarrow> u64 \<Rightarrow>
    (split_section, malformed_merge) result" where
  "split_section hf bytes kind alignment =
     (let fail = (\<lambda>offset problem. Err \<lparr>mm_offset = offset, mm_problem = problem\<rparr>) in
      if \<not> is_power_of_two alignment then fail 0 (InvalidAlignment alignment)
      else
        let bad_size = (case kind of
              Strings char_size \<Rightarrow> if char_size \<notin> {1, 2, 4} then Some (ucast char_size) else None
            | Fixed entry_size \<Rightarrow> if entry_size = 0 then Some 0 else None)
        in case bad_size of Some bad \<Rightarrow> fail 0 (InvalidEntrySize bad)
        | None \<Rightarrow>
          if u32_try_from (length bytes) = None then fail 0 (SectionTooLarge (of_nat (length bytes)))
          else case count_pieces kind bytes of
            Err (offset, problem) \<Rightarrow> fail offset problem
          | Ok n \<Rightarrow>
              let hashes = replicate n 0;
                  (starts, hashes) = (case kind of
                    Strings char_size \<Rightarrow> split_strings hf bytes (unat char_size) (replicate n 0) hashes
                  | Fixed entry_size \<Rightarrow> ([], map hf (chunks_exact (unat entry_size) bytes)))
              in Ok \<lparr>ss_data = bytes, ss_kind = kind, ss_alignment = alignment,
                     ss_starts = starts, ss_hashes = hashes\<rparr>)"

section \<open>The ends of the pieces\<close>

text \<open>
  The reference: a string piece ends behind each character that is zero, a fixed-size piece behind
  each multiple of the entry size.
\<close>

definition string_ends :: "nat \<Rightarrow> u8 list \<Rightarrow> nat list" where
  "string_ends unit bytes =
     map (\<lambda>i. (i + 1) * unit) (filter (\<lambda>i. is_nul (chunks_exact unit bytes ! i)) [0..<length bytes div unit])"

fun piece_ends :: "merge_kind \<Rightarrow> u8 list \<Rightarrow> nat list" where
  "piece_ends (Strings char_size) bytes = string_ends (unat char_size) bytes"
| "piece_ends (Fixed entry_size) bytes = map (\<lambda>i. (i + 1) * unat entry_size) [0..<length bytes div unat entry_size]"

definition cuts :: "split_section \<Rightarrow> nat list" where
  "cuts s = 0 # piece_ends (ss_kind s) (ss_data s)"

lemma chunks_exact_1: "chunks_exact (Suc 0) xs = map (\<lambda>x. [x]) xs"
proof (rule nth_equalityI)
  fix i assume "i < length (chunks_exact (Suc 0) xs)"
  then show "chunks_exact (Suc 0) xs ! i = map (\<lambda>x. [x]) xs ! i"
    by (simp add: chunks_exact_def sub_slice_def flip: Cons_nth_drop_Suc)
qed simp

lemma string_ends_1: "string_ends (Suc 0) bytes = map Suc (filter (\<lambda>i. bytes ! i = 0) [0..<length bytes])"
  by (auto simp: string_ends_def chunks_exact_1 is_nul_def intro!: filter_cong)

lemma record_bytes_fold:
  "at \<le> length bytes \<Longrightarrow>
     record_bytes rec bytes at st = fold rec (map Suc (filter (\<lambda>i. bytes ! i = 0) [at..<length bytes])) st"
proof (induction rec bytes at st rule: record_bytes.induct)
  case (1 rec bytes at st)
  let ?rest = "drop at bytes"
  have rest: "get_range bytes at (length bytes) = Some ?rest"
    using "1.prems" by (simp add: get_range_def sub_slice_def)
  show ?case
  proof (cases "find_nul ?rest")
    case None
    then have "\<forall>i\<in>set [at..<length bytes]. bytes ! i \<noteq> 0"
      by (auto simp: find_nul_None in_set_conv_nth) (metis add_diff_inverse_nat diff_less_mono leD)
    then have "filter (\<lambda>i. bytes ! i = 0) [at..<length bytes] = []" by (simp add: filter_empty_conv)
    with None rest show ?thesis by (simp add: record_bytes.simps [of rec bytes at])
  next
    case (Some n)
    then have n: "at + n < length bytes" "bytes ! (at + n) = 0" "\<forall>j<n. bytes ! (at + j) \<noteq> 0"
      by (auto simp: find_nul_Some)
    have "[at..<length bytes] = [at..<at + n] @ (at + n) # [at + n + 1..<length bytes]"
      using n(1) upt_add_eq_append [of at "at + n" "length bytes - (at + n)"] by (simp add: upt_conv_Cons)
    moreover have "filter (\<lambda>i. bytes ! i = 0) [at..<at + n] = []"
      using n(3) by (auto simp: filter_empty_conv) (metis add_diff_inverse_nat add_less_cancel_left leD)
    ultimately show ?thesis
      using "1.IH" [OF rest Some] n(1,2) rest Some by (simp add: record_bytes.simps [of rec bytes at])
  qed
qed

lemma record_chunks_fold:
  "fold (\<lambda>(index, _). rec ((index + 1) * unit))
     (filter (\<lambda>(_, c). is_nul c) (List.enumerate 0 (chunks_exact unit bytes))) st =
   fold rec (string_ends unit bytes) st"
  by (simp add: enumerate_upt filter_map comp_def string_ends_def fold_map case_prod_unfold)

text \<open>Where the closure leaves its slots: the cuts before each end, and the hashes of what lies between.\<close>

fun between :: "u8 list \<Rightarrow> nat \<Rightarrow> nat list \<Rightarrow> u8 list list" where
  "between bytes start [] = []"
| "between bytes start (stop # stops) = slice_or_empty bytes start stop # between bytes stop stops"

lemma length_between [simp]: "length (between bytes start es) = length es"
  by (induction es arbitrary: start) auto

lemma nth_between:
  "i < length es \<Longrightarrow> between bytes start es ! i = slice_or_empty bytes ((start # es) ! i) (es ! i)"
  by (induction es arbitrary: start i) (auto simp: nth_Cons split: nat.split)

lemma filter_upt_nth: "filter P xs = map ((!) xs) (filter (\<lambda>i. P (xs ! i)) [0..<length xs])"
proof -
  have "filter P xs = filter P (map ((!) xs) [0..<length xs])" by (simp only: map_nth)
  then show ?thesis by (simp only: filter_map comp_def)
qed

lemma fold_record_end:
  "sp_next st + length es = length (sp_starts st) \<Longrightarrow> length (sp_hashes st) = length (sp_starts st) \<Longrightarrow>
     sp_starts (fold (record_end hf in_parallel bytes) es st) =
       take (sp_next st) (sp_starts st) @ map of_nat (butlast (sp_start st # es)) \<and>
     sp_hashes (fold (record_end hf in_parallel bytes) es st) =
       (if in_parallel then sp_hashes st
        else take (sp_next st) (sp_hashes st) @ map hf (between bytes (sp_start st) es))"
proof (induction es arbitrary: st)
  case Nil
  then show ?case by simp
next
  case (Cons e es)
  define st' where "st' = record_end hf in_parallel bytes e st"
  have next': "sp_next st' = Suc (sp_next st)" "sp_start st' = e"
    "sp_starts st' = (sp_starts st)[sp_next st := of_nat (sp_start st)]"
    "sp_hashes st' = (if in_parallel then sp_hashes st
       else (sp_hashes st)[sp_next st := hf (slice_or_empty bytes (sp_start st) e)])"
    using Cons.prems by (simp_all add: st'_def record_end_def Let_def)
  have "fold (record_end hf in_parallel bytes) (e # es) st = fold (record_end hf in_parallel bytes) es st'"
    by (simp add: st'_def)
  then show ?case
    using Cons.prems Cons.IH [of st'] by (simp add: next' take_Suc_conv_app_nth del: fold_simps)
qed

section \<open>What a split section is\<close>

lemma string_ends_strict:
  assumes "0 < unit"
  shows "sorted_wrt (<) (0 # string_ends unit bytes)"
proof -
  have "sorted_wrt (<) (filter P [0..<n])" for P n
    by (simp add: sorted_wrt_filter)
  then show ?thesis
    using assms by (auto simp: string_ends_def sorted_wrt_map elim!: sorted_wrt_mono_rel [rotated])
qed

lemma last_string_ends:
  assumes "0 < unit" and "length bytes mod unit = 0"
    and "chunks_exact unit bytes = [] \<or> is_nul (last (chunks_exact unit bytes))"
  shows "last (0 # string_ends unit bytes) = length bytes"
proof -
  let ?n = "length bytes div unit"
  have len: "?n * unit = length bytes" using assms(2) by auto
  show ?thesis
  proof (cases "?n = 0")
    case True
    with len show ?thesis by (simp add: string_ends_def)
  next
    case False
    then have "chunks_exact unit bytes \<noteq> []" by (metis length_chunks_exact list.size(3))
    with assms(3) have "is_nul (chunks_exact unit bytes ! (?n - 1))" by (simp add: last_conv_nth)
    moreover obtain m where m: "?n = Suc m" using False by (cases ?n) auto
    ultimately have "string_ends unit bytes =
        map (\<lambda>i. (i + 1) * unit) (filter (\<lambda>i. is_nul (chunks_exact unit bytes ! i)) [0..<m]) @ [?n * unit]"
      by (simp add: string_ends_def)
    with len show ?thesis by simp
  qed
qed

lemma count_strings:
  assumes "c \<in> {1, 2, 4}" and "count_pieces (Strings c) bytes = Ok n"
  shows "n = length (string_ends (unat c) bytes)" "last (0 # string_ends (unat c) bytes) = length bytes"
proof -
  let ?u = "unat c"
  have u: "0 < ?u" "max ?u 1 = ?u" using assms(1) by auto
  have chunk: "length bytes mod ?u = 0 \<and> (chunks_exact ?u bytes = [] \<or> is_nul (last (chunks_exact ?u bytes))) \<and>
      n = length (filter is_nul (chunks_exact ?u bytes))"
  proof (cases "?u = 1")
    case True
    then have "chunks_exact ?u bytes = map (\<lambda>b. [b]) bytes" by (simp add: chunks_exact_1)
    then show ?thesis
      using assms(2) True u
      by (cases "bytes = []") (auto simp: count_pieces_def Let_def is_nul_def last_map filter_map comp_def split: if_splits)
  next
    case False
    then show ?thesis
      using assms(2) u by (auto simp: count_pieces_def Let_def split: if_splits)
  qed
  then have "length (filter is_nul (chunks_exact ?u bytes)) = length (string_ends ?u bytes)"
    using filter_upt_nth [of is_nul "chunks_exact ?u bytes"] by (simp add: string_ends_def)
  with chunk show "n = length (string_ends ?u bytes)" by simp
  show "last (0 # string_ends ?u bytes) = length bytes"
    using chunk by (intro last_string_ends u(1)) auto
qed

lemma split_strings_spec:
  assumes "n = length (string_ends unit bytes)" and "last (0 # string_ends unit bytes) = length bytes"
    and "0 < unit" and "length bytes \<le> u32_max"
  shows "split_strings hf bytes unit (replicate n 0) (replicate n 0) =
    (map of_nat (butlast (0 # string_ends unit bytes)), map hf (between bytes 0 (string_ends unit bytes)))"
proof -
  let ?es = "string_ends unit bytes"
  define par where "par = (n > MIN_PIECES_PER_TASK)"
  define init where "init = \<lparr>sp_start = 0, sp_next = 0, sp_starts = replicate n (0 :: u32), sp_hashes = replicate n (0 :: u64)\<rparr>"
  define st where "st = fold (record_end hf par bytes) ?es init"
  define starts :: "u32 list" where "starts = map of_nat (butlast (0 # ?es))"
  have loop: "(if unit = 1 then record_bytes (record_end hf par bytes) bytes 0 init
      else fold (\<lambda>(index, _). record_end hf par bytes ((index + 1) * unit))
        (filter (\<lambda>(_, c). is_nul c) (List.enumerate 0 (chunks_exact unit bytes))) init) = st"
    unfolding st_def record_chunks_fold using record_bytes_fold [of 0 bytes] by (simp add: string_ends_1)
  have st: "sp_starts st = starts" "sp_hashes st = (if par then replicate n 0 else map hf (between bytes 0 ?es))"
    using fold_record_end [of init ?es hf par bytes] assms(1) unfolding st_def starts_def by (simp_all add: init_def)
  have cut: "(case get_nth starts i of None \<Rightarrow> d | Some s \<Rightarrow> unat s) = (if i < n then (0 # ?es) ! i else d)" for i d
  proof (cases "i < n")
    case True
    have "(0 # ?es) ! i \<le> last (0 # ?es)"
      using string_ends_strict [OF assms(3), of bytes] True assms(1)
      by (cases "i = length ?es") (auto simp: last_conv_nth sorted_wrt_iff_nth_less less_imp_le)
    then have "(0 # ?es) ! i \<le> u32_max" using assms(2,4) by simp
    with True assms(1) show ?thesis
      by (simp add: starts_def get_nth_def nth_butlast unat_of_nat del: butlast.simps)
  qed (simp add: starts_def get_nth_def assms(1))
  have "map (\<lambda>piece. hf (slice_or_empty bytes (case get_nth starts piece of None \<Rightarrow> 0 | Some s \<Rightarrow> unat s)
      (case get_nth starts (piece + 1) of None \<Rightarrow> length bytes | Some n \<Rightarrow> unat n))) [0..<n] =
      map hf (between bytes 0 ?es)"
  proof (rule nth_equalityI)
    fix i assume "i < length (map (\<lambda>piece. hf (slice_or_empty bytes (case get_nth starts piece of None \<Rightarrow> 0 | Some s \<Rightarrow> unat s)
      (case get_nth starts (piece + 1) of None \<Rightarrow> length bytes | Some n \<Rightarrow> unat n))) [0..<n])"
    then have i: "i < n" by simp
    have "length bytes = ?es ! i" if "\<not> Suc i < n"
      using that i assms(1,2) by (cases ?es rule: rev_cases) (auto simp: nth_append less_Suc_eq)
    with i assms(1) show "map (\<lambda>piece. hf (slice_or_empty bytes (case get_nth starts piece of None \<Rightarrow> 0 | Some s \<Rightarrow> unat s)
      (case get_nth starts (piece + 1) of None \<Rightarrow> length bytes | Some n \<Rightarrow> unat n))) [0..<n] ! i =
      map hf (between bytes 0 ?es) ! i"
      by (simp add: cut nth_between)
  qed (simp add: assms(1))
  then show ?thesis
    unfolding split_strings_def Let_def
    by (simp only: length_replicate flip: par_def init_def) (simp only: loop st Let_def, simp add: starts_def)
qed

fun valid_kind :: "merge_kind \<Rightarrow> bool" where
  "valid_kind (Strings char_size) \<longleftrightarrow> char_size \<in> {1, 2, 4}"
| "valid_kind (Fixed entry_size) \<longleftrightarrow> entry_size \<noteq> 0"

lemma split_section_Ok_iff:
  "(\<exists>s. split_section hf bytes kind alignment = Ok s) \<longleftrightarrow>
     is_power_of_two alignment \<and> valid_kind kind \<and> length bytes \<le> u32_max \<and> (\<exists>n. count_pieces kind bytes = Ok n)"
  by (auto simp: split_section_def Let_def u32_try_from_def split: merge_kind.splits result.splits prod.splits)

lemma split_section_value:
  assumes "split_section hf bytes kind alignment = Ok s" and "count_pieces kind bytes = Ok n"
  shows "s = \<lparr>ss_data = bytes, ss_kind = kind, ss_alignment = alignment,
    ss_starts = (case kind of Strings c \<Rightarrow> fst (split_strings hf bytes (unat c) (replicate n 0) (replicate n 0)) | Fixed _ \<Rightarrow> []),
    ss_hashes = (case kind of Strings c \<Rightarrow> snd (split_strings hf bytes (unat c) (replicate n 0) (replicate n 0))
                 | Fixed e \<Rightarrow> map hf (chunks_exact (unat e) bytes))\<rparr>"
proof -
  have "is_power_of_two alignment" "valid_kind kind" "length bytes \<le> u32_max"
    using split_section_Ok_iff [of hf bytes kind alignment] assms(1) by auto
  then show ?thesis
    using assms by (cases kind) (auto simp: split_section_def Let_def u32_try_from_def split: prod.splits)
qed

text \<open>A split section of this crate is a result of \<open>split_section\<close>: its fields are private.\<close>

definition split_ok :: "(u8 list \<Rightarrow> u64) \<Rightarrow> split_section \<Rightarrow> bool" where
  "split_ok hf s \<longleftrightarrow> split_section hf (ss_data s) (ss_kind s) (ss_alignment s) = Ok s"

lemma split_section_ok: "split_section hf bytes kind alignment = Ok s \<Longrightarrow>
    split_ok hf s \<and> ss_data s = bytes \<and> ss_kind s = kind \<and> ss_alignment s = alignment"
proof -
  assume s: "split_section hf bytes kind alignment = Ok s"
  then obtain n where "count_pieces kind bytes = Ok n" using split_section_Ok_iff [of hf bytes kind alignment] by blast
  from split_section_value [OF s this] have "ss_data s = bytes \<and> ss_kind s = kind \<and> ss_alignment s = alignment" by simp
  with s show ?thesis by (simp add: split_ok_def)
qed

lemma split_ok_shape:
  assumes "split_ok hf s"
  shows "is_power_of_two (ss_alignment s)" "valid_kind (ss_kind s)" "length (ss_data s) \<le> u32_max"
    "ss_hashes s = map hf (between (ss_data s) 0 (piece_ends (ss_kind s) (ss_data s)))"
    "last (cuts s) = length (ss_data s)" "sorted_wrt (<) (cuts s)"
    "case ss_kind s of Strings _ \<Rightarrow> ss_starts s = map of_nat (butlast (cuts s)) | Fixed _ \<Rightarrow> True"
proof -
  let ?d = "ss_data s" and ?k = "ss_kind s"
  have ok: "split_section hf ?d ?k (ss_alignment s) = Ok s" using assms by (simp add: split_ok_def)
  show "is_power_of_two (ss_alignment s)" "valid_kind ?k" and len: "length ?d \<le> u32_max"
    using ok split_section_Ok_iff [of hf ?d ?k "ss_alignment s"] by auto
  obtain n where n: "count_pieces ?k ?d = Ok n"
    using ok split_section_Ok_iff [of hf ?d ?k "ss_alignment s"] by blast
  note s = split_section_value [OF ok n]
  have "ss_hashes s = map hf (between ?d 0 (piece_ends ?k ?d)) \<and> last (cuts s) = length ?d \<and>
     sorted_wrt (<) (cuts s) \<and> (case ?k of Strings _ \<Rightarrow> ss_starts s = map of_nat (butlast (cuts s)) | Fixed _ \<Rightarrow> True)"
  proof (cases ?k)
    case (Strings c)
    then have c: "c \<in> {1, 2, 4}" using \<open>valid_kind ?k\<close> by simp
    then have u: "0 < unat c" by auto
    note count = count_strings [OF c n [unfolded Strings]]
    have "(ss_starts s, ss_hashes s) = split_strings hf ?d (unat c) (replicate n 0) (replicate n 0)"
      using arg_cong [OF s, of ss_starts] arg_cong [OF s, of ss_hashes] Strings by simp
    then show ?thesis
      using split_strings_spec [OF count u len] string_ends_strict [OF u] count(2) Strings
      by (simp add: cuts_def)
  next
    case (Fixed e)
    then have e: "0 < unat e" using \<open>valid_kind ?k\<close> by (simp add: unat_gt_0)
    have m: "length ?d mod unat e = 0" using n Fixed e by (auto simp: count_pieces_def Let_def split: if_splits)
    have "ss_hashes s = map hf (chunks_exact (unat e) ?d)"
      using arg_cong [OF s, of ss_hashes] Fixed by simp
    moreover have "chunks_exact (unat e) ?d = between ?d 0 (piece_ends ?k ?d)"
    proof (rule nth_equalityI)
      fix i assume "i < length (chunks_exact (unat e) ?d)"
      then have i: "i < length ?d div unat e" by simp
      then have le: "i * unat e + unat e \<le> length ?d"
        using e less_eq_div_iff_mult_less_eq [of "unat e" "Suc i" "length ?d"] by (simp add: Suc_le_eq add.commute)
      have "(0 # piece_ends ?k ?d) ! i = i * unat e" "piece_ends ?k ?d ! i = i * unat e + unat e"
        using i Fixed by (cases i; simp)+
      moreover have "i < length (piece_ends ?k ?d)" using i Fixed by simp
      ultimately show "chunks_exact (unat e) ?d ! i = between ?d 0 (piece_ends ?k ?d) ! i"
        unfolding nth_between [OF \<open>i < length (piece_ends ?k ?d)\<close>]
        using i le by (simp only: slice_or_empty_in_range le_add1) (simp add: chunks_exact_def)
    qed (simp add: Fixed)
    moreover have "last (cuts s) = length ?d"
    proof -
      have "(length ?d div unat e) * unat e = length ?d" using m by auto
      with Fixed show ?thesis
        by (cases "length ?d div unat e") (auto simp: cuts_def last_map)
    qed
    moreover have "sorted_wrt (<) (cuts s)"
      using e Fixed by (auto simp: cuts_def sorted_wrt_map elim!: sorted_wrt_mono_rel [rotated])
    ultimately show ?thesis using Fixed by simp
  qed
  then show "ss_hashes s = map hf (between ?d 0 (piece_ends ?k ?d))" "last (cuts s) = length ?d"
    "sorted_wrt (<) (cuts s)"
    "case ?k of Strings _ \<Rightarrow> ss_starts s = map of_nat (butlast (cuts s)) | Fixed _ \<Rightarrow> True"
    by simp_all
qed

lemma length_cuts: "split_ok hf s \<Longrightarrow> length (cuts s) = Suc (num_pieces s)"
  using split_ok_shape(4) [of hf s] by (simp add: num_pieces_def cuts_def)

lemma cuts_strict: "split_ok hf s \<Longrightarrow> i < j \<Longrightarrow> j \<le> num_pieces s \<Longrightarrow> cuts s ! i < cuts s ! j"
  using split_ok_shape(6) [of hf s] length_cuts [of hf s] by (simp add: sorted_wrt_iff_nth_less)

lemma cuts_0 [simp]: "cuts s ! 0 = 0"
  by (simp add: cuts_def)

lemma cuts_end: "split_ok hf s \<Longrightarrow> cuts s ! num_pieces s = length (ss_data s)"
  using split_ok_shape(5) [of hf s] length_cuts [of hf s] by (metis diff_Suc_1 last_conv_nth list.size(3) nat.distinct(1))

lemma cuts_le: "split_ok hf s \<Longrightarrow> i \<le> num_pieces s \<Longrightarrow> cuts s ! i \<le> length (ss_data s)"
  using cuts_strict [of hf s i "num_pieces s"] cuts_end [of hf s] by (cases "i = num_pieces s") auto

lemma cuts_ge: "split_ok hf s \<Longrightarrow> i \<le> num_pieces s \<Longrightarrow> i \<le> cuts s ! i"
proof (induction i)
  case (Suc i)
  then show ?case using cuts_strict [of hf s i "Suc i"] by simp
qed simp

lemma num_pieces_le: "split_ok hf s \<Longrightarrow> num_pieces s \<le> length (ss_data s)"
  using cuts_ge [of hf s "num_pieces s"] cuts_end [of hf s] by simp

lemma get_nth_starts:
  assumes "split_ok hf s" and "ss_kind s = Strings c"
  shows "get_nth (ss_starts s) i = (if i < num_pieces s then Some (of_nat (cuts s ! i)) else None)"
  using split_ok_shape(7) [OF assms(1)] assms length_cuts [OF assms(1)]
  by (simp add: get_nth_def nth_butlast)

lemma unat_cut: "split_ok hf s \<Longrightarrow> i \<le> num_pieces s \<Longrightarrow> unat (of_nat (cuts s ! i) :: u32) = cuts s ! i"
  using cuts_le [of hf s i] split_ok_shape(3) [of hf s] by (simp add: unat_of_nat)

lemma bounds_cuts:
  assumes "split_ok hf s" and "i < num_pieces s"
  shows "bounds s i = (cuts s ! i, cuts s ! Suc i)"
proof (cases "ss_kind s")
  case (Strings c)
  have "wrapping_succ_usize i = Suc i"
    using assms num_pieces_le [OF assms(1)] split_ok_shape(3) [OF assms(1)]
    by (simp add: wrapping_succ_usize_def)
  moreover have "cuts s ! Suc i = length (ss_data s)" if "\<not> Suc i < num_pieces s"
    using that assms cuts_end [OF assms(1)] by (metis Suc_lessI)
  ultimately show ?thesis
    using assms Strings unat_cut [OF assms(1)]
    by (auto simp: bounds_def get_nth_starts [OF assms(1)])
next
  case (Fixed e)
  have cut: "cuts s ! j = j * unat e" if "j \<le> num_pieces s" for j
    using that length_cuts [OF assms(1)] Fixed by (cases j) (auto simp: cuts_def)
  have "Suc i * unat e \<le> length (ss_data s)" using cut [of "Suc i"] cuts_le [OF assms(1), of "Suc i"] assms by simp
  then show ?thesis
    using assms cut [of i] cut [of "Suc i"] Fixed split_ok_shape(3) [OF assms(1)]
    by (simp add: bounds_def Let_def saturating_mul_usize_def saturating_add_usize_def min_def)
qed

lemma bytes_of_cuts:
  "split_ok hf s \<Longrightarrow> i < num_pieces s \<Longrightarrow> bytes_of s i = sub_slice (ss_data s) (cuts s ! i) (cuts s ! Suc i)"
  using bounds_cuts [of hf s i] cuts_strict [of hf s i "Suc i"] cuts_le [of hf s "Suc i"]
  by (simp add: bytes_of_def slice_or_empty_in_range)

lemma length_bytes_of:
  "split_ok hf s \<Longrightarrow> i < num_pieces s \<Longrightarrow> length (bytes_of s i) = cuts s ! Suc i - cuts s ! i"
  using cuts_le [of hf s "Suc i"] by (simp add: bytes_of_cuts min_def)

lemma hashes_bytes_of: "split_ok hf s \<Longrightarrow> i < num_pieces s \<Longrightarrow> ss_hashes s ! i = hf (bytes_of s i)"
proof -
  assume ok: "split_ok hf s" and i: "i < num_pieces s"
  have "i < length (piece_ends (ss_kind s) (ss_data s))" using length_cuts [OF ok] i by (simp add: cuts_def)
  then show ?thesis
    using split_ok_shape(4) [OF ok] cuts_strict [OF ok, of i "Suc i"] cuts_le [OF ok, of "Suc i"] i
    by (simp add: nth_between bytes_of_cuts [OF ok i] slice_or_empty_in_range flip: cuts_def)
      (simp add: cuts_def slice_or_empty_in_range)
qed

lemma concat_pieces:
  assumes "split_ok hf s" and "n \<le> num_pieces s"
  shows "concat (map (bytes_of s) [0..<n]) = take (cuts s ! n) (ss_data s)"
  using assms(2)
proof (induction n)
  case (Suc n)
  then show ?case
    using sub_slice_append [of 0 "cuts s ! n" "cuts s ! Suc n" "ss_data s"]
      cuts_strict [OF assms(1), of n "Suc n"] bytes_of_cuts [OF assms(1), of n]
    by (simp add: sub_slice_def)
qed simp

section \<open>What a string piece is\<close>

lemma filter_upt_gap:
  assumes "i < length (filter P [0..<n])" and "j < filter P [0..<n] ! i"
    and "i = 0 \<or> filter P [0..<n] ! (i - 1) < j"
  shows "\<not> P j"
proof
  let ?xs = "filter P [0..<n]"
  assume "P j"
  have "?xs ! i < n" using nth_mem [OF assms(1)] by simp
  with assms(2) \<open>P j\<close> have "j \<in> set ?xs" by simp
  then obtain k where k: "k < length ?xs" "?xs ! k = j" unfolding in_set_conv_nth by blast
  have mono: "a < b \<Longrightarrow> b < length ?xs \<Longrightarrow> ?xs ! a < ?xs ! b" for a b
    using sorted_wrt_nth_less [of "(<)" ?xs] by (simp add: sorted_wrt_filter)
  have "k < i" using mono [of i k] k assms(1,2) by (metis less_asym linorder_neqE_nat)
  moreover have "\<not> i - 1 > k" using mono [of k "i - 1"] k assms by (metis calculation diff_less less_asym less_imp_diff_less zero_less_one neq0_conv)
  ultimately show False using k assms(3) by (cases "k = i - 1") auto
qed

lemma chunks_exact_sub_slice:
  assumes "0 < u" and "a \<le> b" and "b * u \<le> length d"
  shows "chunks_exact u (sub_slice d (a * u) (b * u)) = map ((!) (chunks_exact u d)) [a..<b]"
proof -
  have len: "length (sub_slice d (a * u) (b * u)) = (b - a) * u"
    using assms(3) by (simp add: min_def diff_mult_distrib)
  have b: "b \<le> length d div u" using assms by (simp add: less_eq_div_iff_mult_less_eq)
  show ?thesis
  proof (rule nth_equalityI)
    show "length (chunks_exact u (sub_slice d (a * u) (b * u))) = length (map ((!) (chunks_exact u d)) [a..<b])"
      using len assms(1) by (simp del: length_sub_slice)
    fix i assume "i < length (chunks_exact u (sub_slice d (a * u) (b * u)))"
    then have i: "i < b - a" using len assms(1) by (simp del: length_sub_slice)
    then have "i * u + u \<le> (b - a) * u"
      by (metis Suc_leI add.commute mult_Suc mult_le_mono1)
    then have "take u (drop (i * u) (take ((b - a) * u) (drop (a * u) d))) = take u (drop ((a + i) * u) d)"
      by (simp add: drop_take take_take add_mult_distrib add.commute [of "i * u"])
    with i b len assms(1) show "chunks_exact u (sub_slice d (a * u) (b * u)) ! i =
        map ((!) (chunks_exact u d)) [a..<b] ! i"
      by (simp add: chunks_exact_def del: length_sub_slice) (simp add: sub_slice_def diff_mult_distrib add_mult_distrib)
  qed
qed

lemma string_piece_chunks:
  assumes ok: "split_ok hf s" and kind: "ss_kind s = Strings c" and i: "i < num_pieces s"
  shows "\<exists>cs t. chunks_exact (unat c) (bytes_of s i) = cs @ [t] \<and> is_nul t \<and> (\<forall>x\<in>set cs. \<not> is_nul x)"
proof -
  let ?u = "unat c" and ?d = "ss_data s"
  let ?P = "\<lambda>j. is_nul (chunks_exact ?u ?d ! j)"
  let ?xs = "filter ?P [0..<length ?d div ?u]"
  have u: "0 < ?u" using split_ok_shape(2) [OF ok] kind by auto
  define a where "a = (if i = 0 then 0 else Suc (?xs ! (i - 1)))"
  define b where "b = ?xs ! i"
  have len: "length ?xs = num_pieces s" using length_cuts [OF ok] kind by (simp add: cuts_def string_ends_def)
  have cut: "cuts s ! Suc i = Suc b * ?u" "cuts s ! i = a * ?u"
    using kind i len by (auto simp: cuts_def string_ends_def a_def b_def nth_Cons split: nat.split)
  have ab: "a \<le> b"
    using cuts_strict [OF ok, of i "Suc i"] i u unfolding cut by (simp del: mult_Suc)
  have b: "b < length ?d div ?u" "?P b" using nth_mem [of i ?xs] i len by (auto simp: b_def)
  then have bl: "Suc b * ?u \<le> length ?d" using u by (simp add: less_eq_div_iff_mult_less_eq Suc_le_eq flip: Suc_le_eq)
  have "chunks_exact ?u (bytes_of s i) = map ((!) (chunks_exact ?u ?d)) [a..<Suc b]"
    unfolding bytes_of_cuts [OF ok i] cut using chunks_exact_sub_slice [OF u _ bl, of a] ab by simp
  then have "chunks_exact ?u (bytes_of s i) = map ((!) (chunks_exact ?u ?d)) [a..<b] @ [chunks_exact ?u ?d ! b]"
    using ab by simp
  moreover have "\<not> ?P j" if "j \<in> set [a..<b]" for j
    using that i len filter_upt_gap [of i ?P "length ?d div ?u" j] by (auto simp: a_def b_def split: if_splits)
  ultimately show ?thesis using b(2) by auto
qed

section \<open>Finding the piece of an offset\<close>

lemma covers_iff:
  assumes ok: "split_ok hf s" and kind: "ss_kind s = Strings c" and off: "unat offset < length (ss_data s)"
  shows "covers s offset i \<longleftrightarrow> i < num_pieces s \<and> cuts s ! i \<le> unat offset \<and> unat offset < cuts s ! Suc i"
proof (cases "i < num_pieces s")
  case False
  then show ?thesis by (simp add: covers_def get_nth_starts [OF ok kind])
next
  case True
  have succ: "wrapping_succ_usize i = Suc i"
    using True num_pieces_le [OF ok] split_ok_shape(3) [OF ok] by (simp add: wrapping_succ_usize_def)
  have "cuts s ! Suc i = length (ss_data s)" if "\<not> Suc i < num_pieces s"
    using that True cuts_end [OF ok] by (metis Suc_lessI)
  then have "covers s offset i \<longleftrightarrow>
      (of_nat (cuts s ! i) :: u32) \<le> offset \<and> offset < (of_nat (cuts s ! Suc i) :: u32)"
    using True split_ok_shape(3) [OF ok]
    by (simp add: covers_def get_nth_starts [OF ok kind] succ u32_try_from_def)
  then show ?thesis
    using True unat_cut [OF ok] by (simp add: word_le_nat_alt word_less_nat_alt)
qed

lemma partition_cuts:
  assumes ok: "split_ok hf s" and kind: "ss_kind s = Strings c" and off: "unat offset < length (ss_data s)"
  defines "point \<equiv> partition_point (\<lambda>start. start \<le> offset) (ss_starts s)"
  shows "0 < point \<and> point - 1 < num_pieces s \<and> cuts s ! (point - 1) \<le> unat offset \<and> unat offset < cuts s ! point"
proof -
  let ?p = "\<lambda>start. start \<le> offset"
  have len: "length (ss_starts s) = num_pieces s"
    using split_ok_shape(7) [OF ok] kind length_cuts [OF ok] by simp
  have nth: "ss_starts s ! i \<le> offset \<longleftrightarrow> cuts s ! i \<le> unat offset" if "i < num_pieces s" for i
    using that get_nth_starts [OF ok kind, of i] unat_cut [OF ok, of i] len by (simp add: word_le_nat_alt get_nth_def)
  have n: "0 < num_pieces s" using cuts_end [OF ok] off by (cases "num_pieces s") auto
  have le: "point \<le> num_pieces s" using len length_takeWhile_le [of ?p "ss_starts s"] by (simp add: point_def partition_point_def)
  have pos: "0 < point"
  proof (rule ccontr)
    assume "\<not> 0 < point"
    then have "\<not> ss_starts s ! 0 \<le> offset"
      using n len nth_length_takeWhile [of ?p "ss_starts s"] by (simp add: point_def partition_point_def)
    then show False using nth [OF n] by simp
  qed
  have "cuts s ! (point - 1) \<le> unat offset"
  proof -
    have lt: "point - 1 < length (takeWhile ?p (ss_starts s))" using pos by (simp add: point_def partition_point_def)
    have "takeWhile ?p (ss_starts s) ! (point - 1) \<le> offset" using nth_mem [OF lt] by (blast dest: set_takeWhileD)
    with takeWhile_nth [OF lt] nth [of "point - 1"] pos le show ?thesis by simp
  qed
  moreover have "unat offset < cuts s ! point"
  proof (cases "point < num_pieces s")
    case True
    then have "\<not> ss_starts s ! point \<le> offset"
      using len nth_length_takeWhile [of ?p "ss_starts s"] by (simp add: point_def partition_point_def)
    then show ?thesis using nth [OF True] by simp
  next
    case False
    with le have "point = num_pieces s" by simp
    then show ?thesis using off cuts_end [OF ok] by simp
  qed
  ultimately show ?thesis using pos le by linarith
qed

lemma string_piece_at_spec:
  assumes ok: "split_ok hf s" and kind: "ss_kind s = Strings c" and off: "unat offset < length (ss_data s)"
  obtains i where "fst (string_piece_at s key cache offset) = Some i" "i < num_pieces s"
    "cuts s ! i \<le> unat offset" "unat offset < cuts s ! Suc i"
proof -
  note cov = covers_iff [OF assms] and part = partition_cuts [OF assms]
  obtain last_key last_piece where cache: "cache = (last_key, last_piece)" by (cases cache)
  let ?s = "wrapping_succ_usize last_piece"
  consider "last_key = key" "covers s offset last_piece"
    | "last_key = key" "\<not> covers s offset last_piece" "covers s offset ?s"
    | "\<not> (last_key = key \<and> covers s offset last_piece)" "\<not> (last_key = key \<and> covers s offset ?s)"
    by blast
  then show thesis
  proof cases
    case 1
    then show thesis using that [of last_piece] cov [of last_piece] by (simp add: string_piece_at_def cache)
  next
    case 2
    then show thesis using that [of ?s] cov [of ?s] by (simp add: string_piece_at_def cache)
  next
    case 3
    then show thesis
      using that [of "partition_point (\<lambda>start. start \<le> offset) (ss_starts s) - 1"] part
      by (auto simp: string_piece_at_def cache Let_def)
  qed
qed

lemma piece_at_spec:
  assumes ok: "split_ok hf s"
  shows "case fst (piece_at s key cache offset) of
      None \<Rightarrow> length (ss_data s) \<le> unat offset
    | Some r \<Rightarrow> unat (pr_piece r) < num_pieces s \<and>
        cuts s ! unat (pr_piece r) + unat (pr_addend r) = unat offset \<and>
        unat offset < cuts s ! Suc (unat (pr_piece r))"
proof (cases "unat offset < length (ss_data s)")
  case False
  then have "of_nat (length (ss_data s)) \<le> offset"
    using split_ok_shape(3) [OF ok] by (simp add: word_le_nat_alt unat_of_nat)
  with False show ?thesis by (simp add: piece_at_def)
next
  case True
  have len: "length (ss_data s) \<le> u32_max" by (rule split_ok_shape(3) [OF ok])
  have lt: "\<not> of_nat (length (ss_data s)) \<le> offset"
    using True len by (simp add: word_le_nat_alt unat_of_nat)
  show ?thesis
  proof (cases "ss_kind s")
    case (Strings c)
    define off :: u32 where "off = of_nat (unat offset)"
    have off: "unat off = unat offset" using True len by (simp add: off_def unsigned_ucast_eq take_bit_nat_eq_self)
    have fits: "u32_try_from (unat offset) = Some off" using True len by (simp add: u32_try_from_def off_def)
    obtain i cache' where i: "string_piece_at s key cache off = (Some i, cache')" "i < num_pieces s"
      "cuts s ! i \<le> unat offset" "unat offset < cuts s ! Suc i"
      using string_piece_at_spec [OF ok Strings, of off key cache] True off by (metis prod.collapse)
    have il: "i \<le> u32_max" using i(2) num_pieces_le [OF ok] len by simp
    have sub: "unat (off - of_nat (cuts s ! i)) = unat offset - cuts s ! i"
      using i(2,3) unat_cut [OF ok, of i] off by (simp add: unat_sub word_le_nat_alt)
    show ?thesis
      using i il sub fits lt Strings
      by (simp add: piece_at_def get_nth_starts [OF ok Strings] u32_try_from_def unat_of_nat)
  next
    case (Fixed e)
    have cut: "cuts s ! j = j * unat e" if "j \<le> num_pieces s" for j
      using that length_cuts [OF ok] Fixed by (cases j) (auto simp: cuts_def)
    have e: "0 < unat e" using split_ok_shape(2) [OF ok] Fixed by (simp add: unat_gt_0)
    define q where "q = unat offset div unat e"
    have "num_pieces s * unat e = length (ss_data s)" using cut [of "num_pieces s"] cuts_end [OF ok] by simp
    then have q: "q < num_pieces s" using True e by (simp add: q_def div_less_iff_less_mult)
    have ql: "q \<le> u32_max" using q num_pieces_le [OF ok] len by simp
    have "unat offset < Suc q * unat e"
      using e by (simp add: q_def dividend_less_div_times)
    then show ?thesis
      using q ql lt Fixed cut [of q] cut [of "Suc q"]
      by (simp add: piece_at_def u32_try_from_def unat_of_nat unat_div unat_mod flip: q_def)
        (simp add: q_def)
  qed
qed

section \<open>Which sections are refused\<close>

definition size_unit :: "merge_kind \<Rightarrow> nat" where
  "size_unit kind = (case kind of Strings c \<Rightarrow> unat c | Fixed e \<Rightarrow> unat e)"

definition terminated :: "merge_kind \<Rightarrow> u8 list \<Rightarrow> bool" where
  "terminated kind bytes =
     (case kind of Strings c \<Rightarrow> bytes = [] \<or> is_nul (drop (length bytes - unat c) bytes) | Fixed _ \<Rightarrow> True)"

lemma find_rev: "find P (rev xs) = (if filter P xs = [] then None else Some (last (filter P xs)))"
  by (induction xs rule: rev_induct) auto

lemma last_chunk:
  assumes "0 < u" and "length bytes mod u = 0" and "bytes \<noteq> []"
  shows "last (chunks_exact u bytes) = drop (length bytes - u) bytes" "chunks_exact u bytes \<noteq> []"
proof -
  obtain m where m: "length bytes div u = Suc m"
    using assms by (cases "length bytes div u") (auto simp: div_eq_0_iff)
  have len: "length bytes = Suc m * u" using assms(2) m by (metis add.right_neutral div_mult_mod_eq)
  show "chunks_exact u bytes \<noteq> []" using m by (simp add: chunks_exact_def)
  then show "last (chunks_exact u bytes) = drop (length bytes - u) bytes"
    using m len by (simp add: chunks_exact_def sub_slice_def)
qed

lemma rposition_nul:
  "(case rposition is_nul (chunks_exact u bytes) of None \<Rightarrow> 0 | Some p \<Rightarrow> (p + 1) * u) = last (0 # string_ends u bytes)"
  by (auto simp: rposition_def find_rev string_ends_def last_map)

lemma count_strings_cases:
  assumes "c \<in> {1, 2, 4}" and "length bytes mod unat c = 0"
  shows "count_pieces (Strings c) bytes =
    (if terminated (Strings c) bytes then Ok (length (filter is_nul (chunks_exact (unat c) bytes)))
     else Err (of_nat (last (0 # string_ends (unat c) bytes)), UnterminatedString))"
proof -
  have u: "0 < unat c" "max (unat c) 1 = unat c" using assms(1) by auto
  have chunks: "count_pieces (Strings c) bytes =
     (if chunks_exact (unat c) bytes \<noteq> [] \<and> \<not> is_nul (last (chunks_exact (unat c) bytes))
      then Err (of_nat (case rposition is_nul (chunks_exact (unat c) bytes) of None \<Rightarrow> 0 | Some p \<Rightarrow> (p + 1) * unat c), UnterminatedString)
      else Ok (length (filter is_nul (chunks_exact (unat c) bytes))))"
  proof (cases "unat c = 1")
    case True
    have "rposition is_nul (map (\<lambda>b. [b]) bytes) = rposition (\<lambda>b. b = 0) bytes"
    proof -
      have "filter (\<lambda>i. is_nul (map (\<lambda>b. [b]) bytes ! i)) [0..<length bytes] = filter (\<lambda>i. bytes ! i = 0) [0..<length bytes]"
        by (rule filter_cong) (simp_all add: is_nul_def)
      then show ?thesis by (simp add: rposition_def find_rev)
    qed
    then show ?thesis
      using True assms(2) u(2)
      by (cases "bytes = []") (simp_all add: count_pieces_def Let_def chunks_exact_1 last_map is_nul_def filter_map comp_def split: option.split)
  next
    case False
    then show ?thesis using assms(2) u(2) by (simp add: count_pieces_def Let_def)
  qed
  show ?thesis
    unfolding chunks rposition_nul
    using last_chunk [OF u(1) assms(2)] by (cases "bytes = []") (simp_all add: terminated_def chunks_exact_def)
qed

lemma count_pieces_Ok_iff:
  assumes "valid_kind kind"
  shows "(\<exists>n. count_pieces kind bytes = Ok n) \<longleftrightarrow> length bytes mod size_unit kind = 0 \<and> terminated kind bytes"
proof (cases kind)
  case (Strings c)
  then have c: "c \<in> {1, 2, 4}" using assms by simp
  then have "max (unat c) 1 = unat c" by auto
  then show ?thesis
    using Strings count_strings_cases [OF c, of bytes]
    by (cases "length bytes mod unat c = 0") (auto simp: size_unit_def count_pieces_def Let_def)
next
  case (Fixed e)
  then show ?thesis
    using assms by (auto simp: count_pieces_def size_unit_def terminated_def Let_def unat_eq_zero)
qed

text \<open>A hash of the kind the parameter stands for.\<close>

definition demo_hash :: "u8 list \<Rightarrow> u64" where
  "demo_hash bytes = fold (\<lambda>b h. 31 * h + ucast b) bytes 7"

section \<open>Properties\<close>

text \<open>
  C15. Splitting keeps the bytes: the pieces laid end to end are the section, no piece is empty, a
  fixed-size piece has the entry size, and a string piece is a run of nonzero characters with one
  zero character at its end; the recorded hash of a piece is the hash of its bytes.
\<close>

theorem split_section_pieces:
  "split_section hf bytes kind alignment = Ok s \<Longrightarrow>
     concat (map (bytes_of s) [0..<num_pieces s]) = bytes \<and>
     ss_hashes s = map (hf \<circ> bytes_of s) [0..<num_pieces s] \<and>
     list_all (\<lambda>i. bytes_of s i \<noteq> [] \<and>
       (case kind of
          Fixed entry_size \<Rightarrow> length (bytes_of s i) = unat entry_size
        | Strings char_size \<Rightarrow>
            (\<exists>cs t. chunks_exact (unat char_size) (bytes_of s i) = cs @ [t] \<and> is_nul t \<and> \<not> list_ex is_nul cs)))
       [0..<num_pieces s]"
proof -
  assume "split_section hf bytes kind alignment = Ok s"
  from split_section_ok [OF this] have ok: "split_ok hf s" and s: "ss_data s = bytes" "ss_kind s = kind" by auto
  have "bytes_of s i \<noteq> []" if "i < num_pieces s" for i
    using length_bytes_of [OF ok that] cuts_strict [OF ok, of i "Suc i"] that by auto
  moreover have "length (bytes_of s i) = unat e" if "i < num_pieces s" "kind = Fixed e" for i e
  proof -
    have "cuts s ! j = j * unat e" if "j \<le> num_pieces s" for j
      using that length_cuts [OF ok] \<open>kind = Fixed e\<close> s by (cases j) (auto simp: cuts_def)
    then show ?thesis using length_bytes_of [OF ok that(1)] that by simp
  qed
  moreover have "\<exists>cs t. chunks_exact (unat c) (bytes_of s i) = cs @ [t] \<and> is_nul t \<and> \<not> list_ex is_nul cs"
    if "i < num_pieces s" "kind = Strings c" for i c
    using string_piece_chunks [OF ok _ that(1)] that(2) s by (auto simp: list_ex_iff)
  moreover have "ss_hashes s = map (hf \<circ> bytes_of s) [0..<num_pieces s]"
    using hashes_bytes_of [OF ok] by (intro nth_equalityI) (simp_all add: num_pieces_def)
  ultimately show ?thesis
    using concat_pieces [OF ok order_refl] cuts_end [OF ok] s by (auto simp: list_all_iff split: merge_kind.split)
qed

theorem split_section_pieces_witness:
  "\<exists>s. split_section demo_hash [102, 0, 0, 98, 97, 0] (Strings 1) 1 = Ok s \<and>
     concat (map (bytes_of s) [0..<num_pieces s]) = [102, 0, 0, 98, 97, 0]"
proof -
  have "case split_section demo_hash [102, 0, 0, 98, 97, 0] (Strings 1) 1 of Ok s \<Rightarrow> True | Err e \<Rightarrow> False"
    by code_simp
  then obtain s where "split_section demo_hash [102, 0, 0, 98, 97, 0] (Strings 1) 1 = Ok s"
    by (cases "split_section demo_hash [102, 0, 0, 98, 97, 0] (Strings 1) 1") auto
  with split_section_pieces [OF this] show ?thesis by blast
qed

text \<open>
  C16. Looking up an offset inverts the layout of the pieces, whatever the thread's cache holds: the
  piece found contains the offset, at the addend returned, and there is none exactly when the offset
  is at or past the end of the section.
\<close>

theorem piece_at_inverts:
  "split_section hf bytes kind alignment = Ok s \<Longrightarrow>
     (case fst (piece_at s key cache offset) of
        None \<Rightarrow> length bytes \<le> unat offset
      | Some r \<Rightarrow> unat (pr_piece r) < num_pieces s \<and>
          unat offset = fst (bounds s (unat (pr_piece r))) + unat (pr_addend r) \<and>
          unat (pr_addend r) < length (bytes_of s (unat (pr_piece r))))"
proof -
  assume "split_section hf bytes kind alignment = Ok s"
  from split_section_ok [OF this] have ok: "split_ok hf s" and s: "ss_data s = bytes" by auto
  show ?thesis
    using piece_at_spec [OF ok, where key = key and cache = cache and offset = offset] s
    by (auto simp: bounds_cuts [OF ok] length_bytes_of [OF ok] split: option.splits)
qed

theorem piece_at_inverts_witness:
  "\<exists>s. split_section demo_hash [102, 0, 0, 98, 97, 0] (Strings 1) 1 = Ok s \<and>
     (case fst (piece_at s 64 (64, 1) 4) of
        None \<Rightarrow> False
      | Some r \<Rightarrow> unat (4 :: u64) = fst (bounds s (unat (pr_piece r))) + unat (pr_addend r))"
proof -
  have "case split_section demo_hash [102, 0, 0, 98, 97, 0] (Strings 1) 1 of Ok s \<Rightarrow> True | Err e \<Rightarrow> False"
    by code_simp
  then obtain s where "split_section demo_hash [102, 0, 0, 98, 97, 0] (Strings 1) 1 = Ok s"
    by (cases "split_section demo_hash [102, 0, 0, 98, 97, 0] (Strings 1) 1") auto
  with piece_at_inverts [OF this, where key = 64 and cache = "(64, 1)" and offset = 4] show ?thesis
    by (auto split: option.splits)
qed

text \<open>
  C17. A section is refused exactly when its alignment is not a power of two, its kind is invalid, it
  is larger than a 32-bit offset reaches, its size is not a multiple of the unit, or its last string
  lacks its terminator; in the last case the error names the end of the last terminated string.
\<close>

theorem split_section_error:
  "((\<exists>s. split_section hf bytes kind alignment = Ok s) \<longleftrightarrow>
      is_power_of_two alignment \<and> valid_kind kind \<and> length bytes \<le> u32_max \<and>
      length bytes mod size_unit kind = 0 \<and> terminated kind bytes) \<and>
   (is_power_of_two alignment \<and> valid_kind kind \<and> length bytes \<le> u32_max \<and>
      length bytes mod size_unit kind = 0 \<and> \<not> terminated kind bytes \<longrightarrow>
      split_section hf bytes kind alignment =
        Err \<lparr>mm_offset = of_nat (last (0 # piece_ends kind bytes)), mm_problem = UnterminatedString\<rparr>)"
proof (rule conjI)
  show "(\<exists>s. split_section hf bytes kind alignment = Ok s) \<longleftrightarrow>
      is_power_of_two alignment \<and> valid_kind kind \<and> length bytes \<le> u32_max \<and>
      length bytes mod size_unit kind = 0 \<and> terminated kind bytes"
    unfolding split_section_Ok_iff using count_pieces_Ok_iff [of kind bytes]
    by (cases "valid_kind kind") simp_all
  show "is_power_of_two alignment \<and> valid_kind kind \<and> length bytes \<le> u32_max \<and>
      length bytes mod size_unit kind = 0 \<and> \<not> terminated kind bytes \<longrightarrow>
      split_section hf bytes kind alignment =
        Err \<lparr>mm_offset = of_nat (last (0 # piece_ends kind bytes)), mm_problem = UnterminatedString\<rparr>"
  proof (cases kind)
    case (Strings c)
    then show ?thesis
      using count_strings_cases [of c bytes]
      by (auto simp: split_section_def Let_def u32_try_from_def size_unit_def)
  qed (simp add: terminated_def)
qed

theorem split_section_error_witness:
  "split_section demo_hash [102, 0, 98, 97] (Strings 1) 1 =
     Err \<lparr>mm_offset = 2, mm_problem = UnterminatedString\<rparr>"
proof -
  have "is_power_of_two 1" "valid_kind (Strings 1)" "length [102, 0, 98, 97 :: u8] \<le> u32_max"
    "length [102, 0, 98, 97 :: u8] mod size_unit (Strings 1) = 0" "\<not> terminated (Strings 1) [102, 0, 98, 97]"
    "last (0 # piece_ends (Strings 1) [102, 0, 98, 97]) = 2"
    by (code_simp, simp, simp, simp add: size_unit_def, code_simp, code_simp)
  with split_section_error [of demo_hash "[102, 0, 98, 97]" "Strings 1" 1] show ?thesis by simp
qed

end
