(* ===== verification/HashTable.thy ===== *)
theory HashTable
  imports Prelude
begin

text \<open>
  hashbrown's \<open>HashTable\<close>, which the merge pass, the claims and the symbol table use: a parameter of
  their models, as a record of the operations they call. An entry of the source is a \<open>ht_find\<close>,
  followed by \<open>ht_insert\<close> when it is vacant or by \<open>ht_update\<close> of what was found when it is occupied.
\<close>

record ('t, 'e) hash_table =
  ht_new :: 't
  ht_find :: "'t \<Rightarrow> u64 \<Rightarrow> ('e \<Rightarrow> bool) \<Rightarrow> 'e option"
  ht_insert :: "'t \<Rightarrow> u64 \<Rightarrow> 'e \<Rightarrow> 't"
  ht_update :: "'t \<Rightarrow> u64 \<Rightarrow> ('e \<Rightarrow> bool) \<Rightarrow> ('e \<Rightarrow> 'e) \<Rightarrow> 't"
  ht_remove :: "'t \<Rightarrow> u64 \<Rightarrow> ('e \<Rightarrow> bool) \<Rightarrow> 't"
  ht_len :: "'t \<Rightarrow> usize"
  ht_retain :: "'t \<Rightarrow> ('e \<Rightarrow> bool) \<Rightarrow> 't"
  ht_iter_mut :: "'t \<Rightarrow> ('e \<Rightarrow> 'e) \<Rightarrow> 't"

text \<open>
  What hashbrown documents, for the hasher \<open>hash\<close> the table is used with: a find gives an element that
  satisfies the test, and nothing only when no element of this hash does; an insertion adds the element,
  an update changes the element a find gives and a removal takes it out; \<open>retain\<close> keeps the elements that
  satisfy the test, and a walk over \<open>iter_mut\<close> that leaves their hashes changes every element.
\<close>

definition hash_table_laws :: "('t, 'e) hash_table \<Rightarrow> ('e \<Rightarrow> u64) \<Rightarrow> ('t \<Rightarrow> 'e multiset) \<Rightarrow> bool" where
  "hash_table_laws ht hash elems \<longleftrightarrow>
     elems (ht_new ht) = {#} \<and>
     (\<forall>t h p e. ht_find ht t h p = Some e \<longrightarrow> e \<in># elems t \<and> p e) \<and>
     (\<forall>t h p. ht_find ht t h p = None \<longrightarrow> (\<forall>e\<in>#elems t. hash e = h \<longrightarrow> \<not> p e)) \<and>
     (\<forall>t h e. hash e = h \<longrightarrow> elems (ht_insert ht t h e) = add_mset e (elems t)) \<and>
     (\<forall>t h p f e. ht_find ht t h p = Some e \<and> hash (f e) = hash e \<longrightarrow>
        elems (ht_update ht t h p f) = add_mset (f e) (elems t - {#e#})) \<and>
     (\<forall>t h p e. ht_find ht t h p = Some e \<longrightarrow> elems (ht_remove ht t h p) = elems t - {#e#}) \<and>
     (\<forall>t h p. ht_find ht t h p = None \<longrightarrow> elems (ht_remove ht t h p) = elems t) \<and>
     (\<forall>t. ht_len ht t = size (elems t)) \<and>
     (\<forall>t p. elems (ht_retain ht t p) = filter_mset p (elems t)) \<and>
     (\<forall>t f. (\<forall>e\<in>#elems t. hash (f e) = hash e) \<longrightarrow> elems (ht_iter_mut ht t f) = image_mset f (elems t))"

lemma hash_tableD:
  assumes "hash_table_laws ht hash elems"
  shows "elems (ht_new ht) = {#}"
    "ht_find ht t h p = Some e \<Longrightarrow> e \<in># elems t \<and> p e"
    "ht_find ht t h p = None \<Longrightarrow> \<forall>e\<in>#elems t. hash e = h \<longrightarrow> \<not> p e"
    "hash e = h \<Longrightarrow> elems (ht_insert ht t h e) = add_mset e (elems t)"
    "ht_find ht t h p = Some e \<Longrightarrow> hash (f e) = hash e \<Longrightarrow> elems (ht_update ht t h p f) = add_mset (f e) (elems t - {#e#})"
    "ht_find ht t h p = Some e \<Longrightarrow> elems (ht_remove ht t h p) = elems t - {#e#}"
    "ht_find ht t h p = None \<Longrightarrow> elems (ht_remove ht t h p) = elems t"
    "ht_len ht t = size (elems t)"
    "elems (ht_retain ht t p) = filter_mset p (elems t)"
    "(\<And>e. e \<in># elems t \<Longrightarrow> hash (f e) = hash e) \<Longrightarrow> elems (ht_iter_mut ht t f) = image_mset f (elems t)"
proof -
  note laws = assms [unfolded hash_table_laws_def]
  note rest2 = laws [THEN conjunct2] and rest3 = laws [THEN conjunct2, THEN conjunct2]
  note rest4 = rest3 [THEN conjunct2] and rest5 = rest3 [THEN conjunct2, THEN conjunct2]
  note rest6 = rest5 [THEN conjunct2] and rest7 = rest5 [THEN conjunct2, THEN conjunct2]
  show "elems (ht_new ht) = {#}" by (rule laws [THEN conjunct1])
  show "ht_find ht t h p = Some e \<Longrightarrow> e \<in># elems t \<and> p e" by (rule rest2 [THEN conjunct1, rule_format])
  show "ht_find ht t h p = None \<Longrightarrow> \<forall>e\<in>#elems t. hash e = h \<longrightarrow> \<not> p e"
    using rest3 [THEN conjunct1, THEN spec, THEN spec, THEN spec, THEN mp] .
  show "hash e = h \<Longrightarrow> elems (ht_insert ht t h e) = add_mset e (elems t)" by (rule rest4 [THEN conjunct1, rule_format])
  show "ht_find ht t h p = Some e \<Longrightarrow> hash (f e) = hash e \<Longrightarrow> elems (ht_update ht t h p f) = add_mset (f e) (elems t - {#e#})"
    by (rule rest5 [THEN conjunct1, rule_format, OF conjI])
  show "ht_find ht t h p = Some e \<Longrightarrow> elems (ht_remove ht t h p) = elems t - {#e#}" by (rule rest6 [THEN conjunct1, rule_format])
  show "ht_find ht t h p = None \<Longrightarrow> elems (ht_remove ht t h p) = elems t" by (rule rest7 [THEN conjunct1, rule_format])
  note rest8 = rest7 [THEN conjunct2] and rest9 = rest7 [THEN conjunct2, THEN conjunct2]
  show "ht_len ht t = size (elems t)" by (rule rest8 [THEN conjunct1, rule_format])
  show "elems (ht_retain ht t p) = filter_mset p (elems t)" by (rule rest9 [THEN conjunct1, rule_format])
  show "(\<And>e. e \<in># elems t \<Longrightarrow> hash (f e) = hash e) \<Longrightarrow> elems (ht_iter_mut ht t f) = image_mset f (elems t)"
    by (rule rest9 [THEN conjunct2, rule_format])
qed

text \<open>When at most one element can match, the find is determined by the elements.\<close>

lemma ht_find_unique:
  assumes laws: "hash_table_laws ht hash elems" and e: "e \<in># elems t" "hash e = h" "p e"
    and one: "\<And>d. d \<in># elems t \<Longrightarrow> p d \<Longrightarrow> d = e"
  shows "ht_find ht t h p = Some e"
proof (cases "ht_find ht t h p")
  case None
  then show ?thesis using hash_tableD(3) [OF laws None] e by blast
next
  case (Some d)
  then show ?thesis using hash_tableD(2) [OF laws Some] one by blast
qed

lemma ht_find_none:
  assumes laws: "hash_table_laws ht hash elems" and "\<And>d. d \<in># elems t \<Longrightarrow> \<not> p d"
  shows "ht_find ht t h p = None"
  using hash_tableD(2) [OF laws, of t h p] assms(2) by (cases "ht_find ht t h p") auto

section \<open>A list is a hash table\<close>

fun update_first :: "('e \<Rightarrow> bool) \<Rightarrow> ('e \<Rightarrow> 'e) \<Rightarrow> 'e list \<Rightarrow> 'e list" where
  "update_first p f [] = []"
| "update_first p f (e # es) = (if p e then f e # es else e # update_first p f es)"

fun remove_first :: "('e \<Rightarrow> bool) \<Rightarrow> 'e list \<Rightarrow> 'e list" where
  "remove_first p [] = []"
| "remove_first p (e # es) = (if p e then es else e # remove_first p es)"

definition list_table :: "('e \<Rightarrow> u64) \<Rightarrow> ('e list, 'e) hash_table" where
  "list_table hash = \<lparr>ht_new = [], ht_find = (\<lambda>t h p. find (\<lambda>e. hash e = h \<and> p e) t), ht_insert = (\<lambda>t h e. e # t),
     ht_update = (\<lambda>t h p f. update_first (\<lambda>e. hash e = h \<and> p e) f t),
     ht_remove = (\<lambda>t h p. remove_first (\<lambda>e. hash e = h \<and> p e) t), ht_len = length,
     ht_retain = (\<lambda>t p. filter p t), ht_iter_mut = (\<lambda>t f. map f t)\<rparr>"

lemma mset_update_first: "find p t = Some e \<Longrightarrow> mset (update_first p f t) = add_mset (f e) (mset t - {#e#})"
proof (induction t)
  case (Cons d t)
  show ?case
  proof (cases "p d")
    case False
    then have "e \<in># mset t" using Cons.prems by (auto simp: find_Some_iff)
    with False Cons show ?thesis by (auto simp: insert_DiffM)
  qed (use Cons.prems in simp)
qed simp

lemma mset_remove_first: "find p t = Some e \<Longrightarrow> mset (remove_first p t) = mset t - {#e#}"
proof (induction t)
  case (Cons d t)
  show ?case
  proof (cases "p d")
    case False
    then have "e \<in># mset t" using Cons.prems by (auto simp: find_Some_iff)
    with False Cons show ?thesis by (auto simp: insert_DiffM)
  qed (use Cons.prems in simp)
qed simp

lemma remove_first_none: "find p t = None \<Longrightarrow> remove_first p t = t"
  by (induction t) (auto split: if_splits)

lemma list_table_laws: "hash_table_laws (list_table hash) hash mset"
proof -
  have "find p t = Some e \<Longrightarrow> e \<in> set t \<and> p e" for p t and e :: 'a
    by (auto simp: find_Some_iff)
  then show ?thesis
    unfolding hash_table_laws_def list_table_def
    by (auto simp: mset_update_first mset_remove_first remove_first_none find_None_iff)
qed

end
