(* ===== verification/Merge.thy ===== *)
theory Merge
  imports MergeSplit Csr BitSet HashTable
begin

text \<open>
  Merging sections (src/src/passes/merge.rs), the definitions: the checks, the deduplication through
  buckets and per-shard hash tables, the layout of a group in runs and with tail merging, the
  queries of the result and the writing of a group. hashbrown's \<open>HashTable\<close> is a parameter
  (see \<open>HashTable\<close>). Threads write
  disjoint slots of the shared vectors (a shard or a group owns its pieces), so a parallel loop is
  the loop in index order. Piece counts inside one call are bounded by the checked 32-bit total, so
  the counters of the bucketing pass are natural numbers.
\<close>

section \<open>Data\<close>

definition SHARDS :: usize where
  "SHARDS = 256"

definition PIECES_PER_RUN :: usize where
  "PIECES_PER_RUN = 65536"

definition DEAD_OFFSET :: u64 where
  "DEAD_OFFSET = - 1"

definition DEAD_LEADER :: u32 where
  "DEAD_LEADER = - 1"

record merge_group =
  mg_kind :: merge_kind
  mg_alignment :: u64
  mg_tail_merge :: bool

datatype merge_error = MalformedSection usize malformed_merge | InputFailure input_error

record output_piece =
  op_output_offset :: u64
  op_section :: u32
  op_input_offset :: u64
  op_len :: u64

record merged_group =
  md_size :: u64
  md_alignment :: u64
  md_pieces :: "output_piece list"

record merge_input =
  mi_group :: u32
  mi_split :: split_section

text \<open>The borrowed and the owned split sections of \<open>Splits\<close> are both the list of them.\<close>

record merged_sections =
  ms_splits :: "split_section list"
  ms_section_groups :: "u32 list"
  ms_groups :: "merged_group list"
  ms_piece_base :: "usize list"
  ms_output_offset :: "u64 list"

record leader =
  ld_piece :: u32
  ld_section :: u32
  ld_input_offset :: u64
  ld_bytes :: "u8 list"

record unique =
  un_hash :: u64
  un_group :: u32
  un_leader :: u32
  un_bytes :: "u8 list"

record bucketed =
  bk_starts :: "nat list"
  bk_entries :: "(u32 \<times> u32) list"

record run_layout =
  rl_pieces :: "output_piece list"
  rl_numbers :: "u32 list"
  rl_span :: u64

record merge_layout =
  ml_groups :: "merged_group list"
  ml_piece_base :: "usize list"
  ml_output_offset :: "u64 list"

section \<open>Checks and small functions\<close>

definition check_groups :: "merge_group list \<Rightarrow> (unit, input_error) result" where
  "check_groups groups =
     (case find (\<lambda>index. let grp = groups ! index;
          valid_kind = (case mg_kind grp of
            Strings char_size \<Rightarrow> char_size \<in> {1, 2, 4} | Fixed entry_size \<Rightarrow> entry_size \<noteq> 0)
        in \<not> valid_kind \<or> \<not> is_power_of_two (mg_alignment grp)) [0..<length groups] of
        Some index \<Rightarrow> Err (OutOfRange ''merge group kind or alignment'' (of_nat index) (length groups))
      | None \<Rightarrow> Ok ())"

definition shard_of :: "u64 \<Rightarrow> usize" where
  "shard_of hash = unat (drop_bit 32 hash) AND (SHARDS - 1)"

definition group_hash :: "u64 \<Rightarrow> u32 \<Rightarrow> u64" where
  "group_hash hash grp = hash XOR (ucast grp * 0x9e3779b97f4a7c15)"

definition align_to :: "u64 \<Rightarrow> u64 \<Rightarrow> u64 option" where
  "align_to v alignment =
     (let mask = alignment - 1 in map_option (\<lambda>v. v AND NOT mask) (checked_add_u64 v mask))"

section \<open>Deduplication\<close>

definition dedup_runs :: "usize list \<Rightarrow> usize \<Rightarrow> (usize \<times> usize) list" where
  "dedup_runs piece_base n =
     (let (runs, run_start) = fold (\<lambda>section (runs, run_start).
            if piece_base ! (section + 1) - piece_base ! run_start \<ge> PIECES_PER_RUN
            then (runs @ [(run_start, section + 1)], section + 1) else (runs, run_start)) [0..<n] ([], 0)
      in if run_start < n then runs @ [(run_start, n)] else runs)"

definition live_pieces_of :: "merge_input list \<Rightarrow> usize list \<Rightarrow> bitset option \<Rightarrow> usize \<Rightarrow> (usize \<times> u64) list" where
  "live_pieces_of inputs piece_base live section =
     (let input = inputs ! section; base = piece_base ! section
      in map (\<lambda>(local, hash). (local, group_hash hash (mi_group input)))
           (filter (\<lambda>(local, _). case live of None \<Rightarrow> True | Some l \<Rightarrow> bitset_get l (base + local))
              (List.enumerate 0 (ss_hashes (mi_split input)))))"

text \<open>The live pieces of a run of sections, as (section, piece, hash).\<close>

definition run_pieces :: "(usize \<Rightarrow> (usize \<times> u64) list) \<Rightarrow> usize \<times> usize \<Rightarrow> (usize \<times> usize \<times> u64) list" where
  "run_pieces pieces run =
     concat (map (\<lambda>section. map (\<lambda>(local, hash). (section, local, hash)) (pieces section)) [fst run..<snd run])"

definition bucket_run :: "(usize \<Rightarrow> (usize \<times> u64) list) \<Rightarrow> usize \<times> usize \<Rightarrow> bucketed" where
  "bucket_run pieces run =
     (let ps = run_pieces pieces run;
          starts = fold (\<lambda>(_, _, hash) starts.
            starts[shard_of hash + 1 := starts ! (shard_of hash + 1) + 1]) ps (replicate (SHARDS + 1) 0);
          starts = fold (\<lambda>shard starts. starts[shard + 1 := starts ! (shard + 1) + starts ! shard]) [0..<SHARDS] starts;
          (cursor, entries) = fold (\<lambda>(section, local, hash) (cursor, entries).
            let at = cursor ! shard_of hash
            in (cursor[shard_of hash := at + 1], entries[at := (of_nat section, of_nat local)])) ps
            (starts, replicate (starts ! SHARDS) (0, 0))
      in \<lparr>bk_starts = starts, bk_entries = entries\<rparr>)"

definition bucket :: "bucketed \<Rightarrow> usize \<Rightarrow> (u32 \<times> u32) list" where
  "bucket b shard = sub_slice (bk_entries b) (bk_starts b ! shard) (bk_starts b ! (shard + 1))"

definition dedup_entry :: "('t, unique) hash_table \<Rightarrow> merge_input list \<Rightarrow> usize list \<Rightarrow> u32 \<times> u32 \<Rightarrow>
    't \<times> u32 list \<Rightarrow> 't \<times> u32 list" where
  "dedup_entry ht inputs piece_base entry st =
     (case (entry, st) of ((section, local), (table, leader)) \<Rightarrow>
        let input = inputs ! unat section; local = unat local;
            hash = group_hash (ss_hashes (mi_split input) ! local) (mi_group input);
            bytes = bytes_of (mi_split input) local;
            index = of_nat (piece_base ! unat section + local);
            grp = mi_group input
        in case ht_find ht table hash (\<lambda>u. un_hash u = hash \<and> un_group u = grp \<and> un_bytes u = bytes) of
             Some u \<Rightarrow> (table, leader[unat index := un_leader u])
           | None \<Rightarrow>
               (ht_insert ht table hash \<lparr>un_hash = hash, un_group = grp, un_leader = index, un_bytes = bytes\<rparr>,
                leader[unat index := index]))"

definition dedup_shard :: "('t, unique) hash_table \<Rightarrow> merge_input list \<Rightarrow> usize list \<Rightarrow> bucketed list \<Rightarrow> usize \<Rightarrow>
    u32 list \<Rightarrow> u32 list" where
  "dedup_shard ht inputs piece_base buckets shard leader =
     snd (fold (\<lambda>b. fold (dedup_entry ht inputs piece_base) (bucket b shard)) buckets (ht_new ht, leader))"

definition deduplicate :: "('t, unique) hash_table \<Rightarrow> merge_input list \<Rightarrow> usize list \<Rightarrow> usize \<Rightarrow> bitset option \<Rightarrow>
    u32 list" where
  "deduplicate ht inputs piece_base tot live =
     (let runs = dedup_runs piece_base (length inputs);
          buckets = map (bucket_run (live_pieces_of inputs piece_base live)) runs
      in fold (dedup_shard ht inputs piece_base buckets) [0..<SHARDS] (replicate tot DEAD_LEADER))"

section \<open>Layout of a group\<close>

text \<open>The leaders of one section, in piece order: the loop over its row of the leader table.\<close>

definition section_leaders :: "merge_input list \<Rightarrow> usize list \<Rightarrow> u32 list \<Rightarrow> usize \<Rightarrow> leader list" where
  "section_leaders inputs piece_base leader section =
     (let split = mi_split (inputs ! section); base = piece_base ! section;
          row = sub_slice leader base (piece_base ! (section + 1))
      in map (\<lambda>(local, _). \<lparr>ld_piece = of_nat (base + local), ld_section = of_nat section,
               ld_input_offset = of_nat (fst (bounds split local)), ld_bytes = bytes_of split local\<rparr>)
           (filter (\<lambda>(local, lead). unat lead = base + local) (List.enumerate 0 row)))"

fun lay_run :: "u64 \<Rightarrow> leader list \<Rightarrow> run_layout \<Rightarrow> run_layout option" where
  "lay_run alignment [] layout = Some layout"
| "lay_run alignment (l # ls) layout =
     (case align_to (rl_span layout) alignment of None \<Rightarrow> None
      | Some offset \<Rightarrow>
          (case checked_add_u64 offset (of_nat (length (ld_bytes l))) of None \<Rightarrow> None
           | Some span \<Rightarrow>
               lay_run alignment ls
                 \<lparr>rl_pieces = rl_pieces layout @ [\<lparr>op_output_offset = offset, op_section = ld_section l,
                    op_input_offset = ld_input_offset l, op_len = of_nat (length (ld_bytes l))\<rparr>],
                  rl_numbers = rl_numbers layout @ [ld_piece l], rl_span = span\<rparr>))"

definition member_runs :: "usize list \<Rightarrow> usize list \<Rightarrow> (usize \<times> usize) list" where
  "member_runs piece_base members =
     (let (runs, run_start, run_pieces) = fold (\<lambda>(pos, section) (runs, run_start, run_pieces).
            let run_pieces = run_pieces + (piece_base ! (section + 1) - piece_base ! section)
            in if run_pieces \<ge> PIECES_PER_RUN then (runs @ [(run_start, pos + 1)], pos + 1, 0)
               else (runs, run_start, run_pieces)) (List.enumerate 0 members) ([], 0, 0)
      in if run_start < length members then runs @ [(run_start, length members)] else runs)"

text \<open>The pass over the runs' spans: the base of each run, and the size.\<close>

fun run_bases :: "u64 \<Rightarrow> run_layout list \<Rightarrow> u64 \<Rightarrow> u64 \<Rightarrow> (u64 list \<times> u64) option" where
  "run_bases alignment [] next sz = Some ([], sz)"
| "run_bases alignment (run # runs) next sz =
     (if rl_pieces run \<noteq> [] then
        (case checked_add_u64 next (rl_span run) of None \<Rightarrow> None
         | Some sz' \<Rightarrow>
             (case align_to sz' alignment of None \<Rightarrow> None
              | Some next' \<Rightarrow>
                  map_option (\<lambda>(bases, s). (next # bases, s)) (run_bases alignment runs next' sz')))
      else map_option (\<lambda>(bases, s). (next # bases, s)) (run_bases alignment runs next sz))"

definition shift_run :: "run_layout \<Rightarrow> u64 \<Rightarrow> output_piece list" where
  "shift_run run base = map (\<lambda>p. p\<lparr>op_output_offset := op_output_offset p + base\<rparr>) (rl_pieces run)"

definition store_offsets :: "(u32 \<times> u64) list \<Rightarrow> u64 list \<Rightarrow> u64 list" where
  "store_offsets stores out_offset = fold (\<lambda>(number, offset) out. out[unat number := offset]) stores out_offset"

definition layout_group_in_runs :: "merge_group \<Rightarrow> usize list \<Rightarrow> merge_input list \<Rightarrow> usize list \<Rightarrow>
    u32 list \<Rightarrow> u64 list \<Rightarrow> (merged_group \<times> u64 list, input_error) result" where
  "layout_group_in_runs grp members inputs piece_base leader out_offset =
     (let alignment = mg_alignment grp;
          too_large = Err (TooLarge ''merged section size'');
          runs = member_runs piece_base members;
          local = map (\<lambda>(a, b). lay_run alignment
            (concat (map (section_leaders inputs piece_base leader) (sub_slice members a b)))
            \<lparr>rl_pieces = [], rl_numbers = [], rl_span = 0\<rparr>) runs
      in case collect_options local of None \<Rightarrow> too_large
         | Some local \<Rightarrow>
             (case run_bases alignment local 0 0 of None \<Rightarrow> too_large
              | Some (bases, sz) \<Rightarrow>
                  let shifted = map (\<lambda>(run, base). shift_run run base) (zip local bases);
                      stores = concat (map (\<lambda>(run, pieces). zip (rl_numbers run) (map op_output_offset pieces))
                        (zip local shifted))
                  in Ok (\<lparr>md_size = sz, md_alignment = alignment, md_pieces = concat shifted\<rparr>,
                         store_offsets stores out_offset)))"

text \<open>Tail merging: the links of the leaders to their owners.\<close>

definition tail_order :: "leader list \<Rightarrow> u32 \<Rightarrow> u32 \<Rightarrow> cmp_ordering" where
  "tail_order leaders a b =
     then_ordering (cmp (rev (ld_bytes (leaders ! unat b))) (rev (ld_bytes (leaders ! unat a)))) (cmp a b)"

fun tail_links :: "leader list \<Rightarrow> u64 \<Rightarrow> u32 list \<Rightarrow> u32 option \<Rightarrow> (u32 \<times> u64) list \<Rightarrow> (u32 \<times> u64) list" where
  "tail_links leaders alignment [] owner link = link"
| "tail_links leaders alignment (pos # order) owner link =
     (let bytes = ld_bytes (leaders ! unat pos);
          shared = (case owner of None \<Rightarrow> None
            | Some owner_position \<Rightarrow>
                let owner_bytes = ld_bytes (leaders ! unat owner_position) in
                if suffix bytes owner_bytes then
                  let delta = of_nat (length owner_bytes - length bytes) in
                  if delta AND (alignment - 1) = 0 then Some (owner_position, delta) else None
                else None)
      in case shared of
           Some l \<Rightarrow> tail_links leaders alignment order owner (link[unat pos := l])
         | None \<Rightarrow> tail_links leaders alignment order (Some pos) link)"

text \<open>The pass that places the owners: state (offsets, size, pieces).\<close>

fun place_owners :: "leader list \<Rightarrow> u64 \<Rightarrow> (usize \<times> u32 \<times> u64) list \<Rightarrow> u64 list \<times> u64 \<times> output_piece list \<Rightarrow>
    (u64 list \<times> u64 \<times> output_piece list) option" where
  "place_owners leaders alignment [] st = Some st"
| "place_owners leaders alignment ((pos, owner, delta) # links) (offsets, sz, pieces) =
     (if unat owner \<noteq> pos then place_owners leaders alignment links (offsets, sz, pieces)
      else
        let own = leaders ! pos; len = of_nat (length (ld_bytes own))
        in case align_to sz alignment of None \<Rightarrow> None
           | Some start \<Rightarrow>
               (case checked_add_u64 start len of None \<Rightarrow> None
                | Some sz' \<Rightarrow>
                    place_owners leaders alignment links
                      (offsets[pos := start], sz',
                       pieces @ [\<lparr>op_output_offset = start, op_section = ld_section own,
                                  op_input_offset = ld_input_offset own, op_len = len\<rparr>])))"

definition place_tails :: "(u32 \<times> u64) list \<Rightarrow> u64 list \<Rightarrow> u64 list" where
  "place_tails link offsets =
     fold (\<lambda>(pos, owner, delta) offsets.
       if unat owner \<noteq> pos then offsets[pos := offsets ! unat owner + delta] else offsets)
       (List.enumerate 0 link) offsets"

definition layout_group :: "merge_group \<Rightarrow> usize list \<Rightarrow> merge_input list \<Rightarrow> usize list \<Rightarrow>
    u32 list \<Rightarrow> u64 list \<Rightarrow> (merged_group \<times> u64 list, input_error) result" where
  "layout_group grp members inputs piece_base leader out_offset =
     (if \<not> (mg_tail_merge grp \<and> (case mg_kind grp of Strings _ \<Rightarrow> True | Fixed _ \<Rightarrow> False)) then
        layout_group_in_runs grp members inputs piece_base leader out_offset
      else
        let leaders = concat (map (section_leaders inputs piece_base leader) members);
            alignment = mg_alignment grp;
            order = sort_by (tail_order leaders) (map of_nat [0..<length leaders]);
            link = tail_links leaders alignment order None (map (\<lambda>i. (of_nat i, 0)) [0..<length leaders])
        in case place_owners leaders alignment (List.enumerate 0 link) (replicate (length leaders) 0, 0, []) of
             None \<Rightarrow> Err (TooLarge ''merged section size'')
           | Some (offsets, sz, pieces) \<Rightarrow>
               let offsets = place_tails link offsets
               in Ok (\<lparr>md_size = sz, md_alignment = alignment, md_pieces = pieces\<rparr>,
                      store_offsets (zip (map ld_piece leaders) offsets) out_offset))"

section \<open>Phase 2\<close>

text \<open>The loop over the inputs: their piece numbers, or the first error.\<close>

fun number_pieces :: "merge_group list \<Rightarrow> usize \<Rightarrow> usize \<Rightarrow> merge_input list \<Rightarrow> (usize list, input_error) result" where
  "number_pieces groups index tot [] = Ok []"
| "number_pieces groups index tot (input # inputs) =
     (case get_nth groups (unat (mi_group input)) of
        None \<Rightarrow> Err (OutOfRange ''merge group'' (ucast (mi_group input)) (length groups))
      | Some grp \<Rightarrow>
          if ss_kind (mi_split input) \<noteq> mg_kind grp \<or> ss_alignment (mi_split input) > mg_alignment grp
          then Err (Mismatch ''merge section kind or alignment and its group's'' (of_nat index))
          else case checked_add_usize tot (num_pieces (mi_split input)) of
            None \<Rightarrow> Err (TooLarge ''merge piece count'')
          | Some tot' \<Rightarrow>
              bind_result (number_pieces groups (index + 1) tot' inputs) (\<lambda>base. Ok (tot' # base)))"

text \<open>Every group in turn, with the shared offsets; the first error in group order is returned.\<close>

fun layout_groups :: "(usize \<Rightarrow> usize list) \<Rightarrow> merge_input list \<Rightarrow> usize list \<Rightarrow> u32 list \<Rightarrow> usize \<Rightarrow>
    merge_group list \<Rightarrow> u64 list \<Rightarrow> (merged_group list \<times> u64 list, input_error) result" where
  "layout_groups members inputs piece_base leader index [] out = Ok ([], out)"
| "layout_groups members inputs piece_base leader index (grp # groups) out =
     bind_result (layout_group grp (members index) inputs piece_base leader out) (\<lambda>(merged, out).
       bind_result (layout_groups members inputs piece_base leader (index + 1) groups out) (\<lambda>(mergeds, out).
         Ok (merged # mergeds, out)))"

definition follow_leaders :: "u32 list \<Rightarrow> u64 list \<Rightarrow> u64 list" where
  "follow_leaders leader out =
     map (\<lambda>(index, lead). if lead \<noteq> DEAD_LEADER \<and> unat lead \<noteq> index then out ! unat lead else out ! index)
       (List.enumerate 0 leader)"

definition lay_out :: "('t, unique) hash_table \<Rightarrow> merge_group list \<Rightarrow> merge_input list \<Rightarrow> bitset option \<Rightarrow>
    (merge_layout, input_error) result" where
  "lay_out ht groups inputs live =
     bind_result (check_groups groups) (\<lambda>_.
      if u32_try_from (length inputs) = None then Err (TooLarge ''merge section count'')
      else bind_result (number_pieces groups 0 0 inputs) (\<lambda>bases.
        let piece_base = 0 # bases; tot = last piece_base in
        if (case u32_try_from tot of None \<Rightarrow> True | Some t \<Rightarrow> t = DEAD_LEADER)
        then Err (TooLarge ''merge piece count'')
        else if (case live of None \<Rightarrow> False | Some l \<Rightarrow> bs_len l \<noteq> tot)
        then Err (Mismatch ''merge piece liveness bitmap length and piece count''
                    (case live of None \<Rightarrow> 0 | Some l \<Rightarrow> of_nat (bs_len l)))
        else
          let leader = deduplicate ht inputs piece_base tot live;
              builder = fold (\<lambda>(index, input) b. csr_push b (unat (mi_group input)) index)
                (List.enumerate 0 inputs) (csr_builder_new (length groups))
          in bind_result (csr_build builder) (\<lambda>members.
               bind_result (layout_groups (csr_row members) inputs piece_base leader 0 groups
                 (replicate tot DEAD_OFFSET)) (\<lambda>(merged, out).
                   Ok \<lparr>ml_groups = merged, ml_piece_base = piece_base,
                       ml_output_offset = follow_leaders leader out\<rparr>))))"

definition into_merged :: "merge_layout \<Rightarrow> split_section list \<Rightarrow> u32 list \<Rightarrow> merged_sections" where
  "into_merged layout splits section_groups =
     \<lparr>ms_splits = splits, ms_section_groups = section_groups, ms_groups = ml_groups layout,
      ms_piece_base = ml_piece_base layout, ms_output_offset = ml_output_offset layout\<rparr>"

definition merge_split_sections :: "('t, unique) hash_table \<Rightarrow> merge_group list \<Rightarrow> merge_input list \<Rightarrow> bitset option \<Rightarrow>
    (merged_sections, input_error) result" where
  "merge_split_sections ht groups inputs live =
     bind_result (lay_out ht groups inputs live) (\<lambda>layout.
       Ok (into_merged layout (map mi_split inputs) (map mi_group inputs)))"

record merge_section =
  sec_group :: u32
  sec_data :: "u8 list"

definition group_of :: "merge_group list \<Rightarrow> merge_section \<Rightarrow> (merge_group, input_error) result" where
  "group_of groups section =
     (case get_nth groups (unat (sec_group section)) of
        Some grp \<Rightarrow> Ok grp
      | None \<Rightarrow> Err (OutOfRange ''merge group'' (ucast (sec_group section)) (length groups)))"

definition split_one :: "(u8 list \<Rightarrow> u64) \<Rightarrow> merge_group list \<Rightarrow> merge_section \<Rightarrow>
    (split_section, malformed_merge) result" where
  "split_one hf groups section =
     (case group_of groups section of
        Ok grp \<Rightarrow> split_section hf (sec_data section) (mg_kind grp) (mg_alignment grp)
      | Err _ \<Rightarrow> Err \<lparr>mm_offset = 0, mm_problem = InvalidEntrySize 0\<rparr>)"

definition result_ok :: "('a, 'e) result \<Rightarrow> 'a option" where
  "result_ok r = (case r of Ok a \<Rightarrow> Some a | Err _ \<Rightarrow> None)"

definition first_malformed :: "(merge_section \<Rightarrow> (split_section, malformed_merge) result) \<Rightarrow>
    merge_section list \<Rightarrow> usize \<times> malformed_merge" where
  "first_malformed split sections =
     (case find (\<lambda>index. result_ok (split (sections ! index)) = None) [0..<length sections] of
        Some index \<Rightarrow> (index, case split (sections ! index) of Err e \<Rightarrow> e
                          | Ok _ \<Rightarrow> \<lparr>mm_offset = 0, mm_problem = InvalidEntrySize 0\<rparr>)
      | None \<Rightarrow> (0, \<lparr>mm_offset = 0, mm_problem = InvalidEntrySize 0\<rparr>))"

definition lift_input :: "('a, input_error) result \<Rightarrow> ('a, merge_error) result" where
  "lift_input r = (case r of Ok a \<Rightarrow> Ok a | Err e \<Rightarrow> Err (InputFailure e))"

definition merge_sections :: "(u8 list \<Rightarrow> u64) \<Rightarrow> ('t, unique) hash_table \<Rightarrow> merge_group list \<Rightarrow> merge_section list \<Rightarrow>
    (merged_sections, merge_error) result" where
  "merge_sections hf ht groups sections =
     bind_result (lift_input (check_groups groups)) (\<lambda>_.
     bind_result (lift_input (collect_results (map (group_of groups) sections))) (\<lambda>_.
       case collect_options (map (result_ok \<circ> split_one hf groups) sections) of
         None \<Rightarrow> (case first_malformed (split_one hf groups) sections of
           (section, malformed) \<Rightarrow> Err (MalformedSection section malformed))
       | Some splits \<Rightarrow>
           let inputs = map (\<lambda>(split, section). \<lparr>mi_group = sec_group section, mi_split = split\<rparr>) (zip splits sections)
           in bind_result (lift_input (lay_out ht groups inputs None)) (\<lambda>layout.
                Ok (into_merged layout splits (map sec_group sections)))))"

section \<open>Queries\<close>

definition merged_group_at :: "merged_sections \<Rightarrow> usize \<Rightarrow> merged_group option" where
  "merged_group_at ms grp = get_nth (ms_groups ms) grp"

definition merged_num_sections :: "merged_sections \<Rightarrow> usize" where
  "merged_num_sections ms = length (ms_splits ms)"

definition merged_num_pieces :: "merged_sections \<Rightarrow> usize" where
  "merged_num_pieces ms = length (ms_output_offset ms)"

definition merged_split :: "merged_sections \<Rightarrow> usize \<Rightarrow> split_section option" where
  "merged_split ms section = get_nth (ms_splits ms) section"

definition section_group :: "merged_sections \<Rightarrow> usize \<Rightarrow> u32 option" where
  "section_group ms section = get_nth (ms_section_groups ms) section"

definition first_piece :: "merged_sections \<Rightarrow> usize \<Rightarrow> usize option" where
  "first_piece ms section = get_nth (ms_piece_base ms) section"

definition merged_piece_at :: "merged_sections \<Rightarrow> usize \<Rightarrow> piece_cache \<Rightarrow> usize \<Rightarrow> u64 \<Rightarrow> piece_ref option" where
  "merged_piece_at ms key cache section offset =
     (case merged_split ms section of None \<Rightarrow> None
      | Some split \<Rightarrow> fst (piece_at split key cache offset))"

definition piece_output_offset :: "merged_sections \<Rightarrow> usize \<Rightarrow> u32 \<Rightarrow> u64 option" where
  "piece_output_offset ms section piece =
     (case (get_nth (ms_piece_base ms) section, checked_add_usize section 1) of
        (Some base, Some next) \<Rightarrow>
          (case get_nth (ms_piece_base ms) next of None \<Rightarrow> None
           | Some stop \<Rightarrow>
               (case checked_add_usize base (unat piece) of None \<Rightarrow> None
                | Some index \<Rightarrow>
                    if index < stop then
                      (case get_nth (ms_output_offset ms) index of None \<Rightarrow> None
                       | Some offset \<Rightarrow> if offset \<noteq> DEAD_OFFSET then Some offset else None)
                    else None))
      | _ \<Rightarrow> None)"

definition merged_output_offset :: "merged_sections \<Rightarrow> usize \<Rightarrow> piece_cache \<Rightarrow> usize \<Rightarrow> u64 \<Rightarrow> u64 option" where
  "merged_output_offset ms key cache section offset =
     (case merged_piece_at ms key cache section offset of None \<Rightarrow> None
      | Some found \<Rightarrow>
          (case piece_output_offset ms section (pr_piece found) of None \<Rightarrow> None
           | Some start \<Rightarrow> checked_add_u64 start (pr_addend found)))"

section \<open>Writing\<close>

definition piece_source :: "split_section list \<Rightarrow> output_piece \<Rightarrow> u8 list" where
  "piece_source splits piece =
     (case get_nth splits (unat (op_section piece)) of None \<Rightarrow> []
      | Some section \<Rightarrow>
          (case checked_add_usize (unat (op_input_offset piece)) (unat (op_len piece)) of None \<Rightarrow> []
           | Some stop \<Rightarrow> slice_or_empty (ss_data section) (unat (op_input_offset piece)) stop))"

definition splice :: "'a list \<Rightarrow> nat \<Rightarrow> 'a list \<Rightarrow> 'a list" where
  "splice xs at ys = take at xs @ ys @ drop (at + length ys) xs"

definition fill_zero :: "u8 list \<Rightarrow> nat \<Rightarrow> nat \<Rightarrow> u8 list" where
  "fill_zero xs a b = (if a \<le> b \<and> b \<le> length xs then splice xs a (replicate (b - a) 0) else xs)"

fun write_loop :: "split_section list \<Rightarrow> u64 \<Rightarrow> output_piece list \<Rightarrow> usize \<Rightarrow> u8 list \<Rightarrow> u8 list \<times> usize" where
  "write_loop splits base [] cursor out = (out, cursor)"
| "write_loop splits base (piece # pieces) cursor out =
     (let bytes = piece_source splits piece;
          start = unat (op_output_offset piece - base);
          stop = saturating_add_usize start (length bytes)
      in if start \<le> stop \<and> stop \<le> length out then
           let out = splice out start bytes;
               out = fill_zero out (min cursor start) start
           in write_loop splits base pieces (start + length bytes) out
         else (out, cursor))"

function write_pieces :: "split_section list \<Rightarrow> output_piece list \<Rightarrow> u64 \<Rightarrow> u8 list \<Rightarrow> u8 list" where
  "write_pieces splits pieces base out =
     (if length pieces > MIN_PIECES_PER_TASK then
        let mid = length pieces div 2;
            split = op_output_offset (pieces ! mid);
            at = min (unat (split - base)) (length out)
        in write_pieces splits (take mid pieces) base (take at out) @
           write_pieces splits (drop mid pieces) split (drop at out)
      else case write_loop splits base pieces 0 out of (out, cursor) \<Rightarrow> fill_zero out cursor (length out))"
  by pat_completeness auto
termination
  by (relation "measure (\<lambda>(splits, pieces, base, out). length pieces)") (auto simp: MIN_PIECES_PER_TASK_def)

declare write_pieces.simps [simp del]

definition write_group :: "merged_sections \<Rightarrow> usize \<Rightarrow> u8 list \<Rightarrow> (u8 list, input_error) result" where
  "write_group ms grp out =
     (case get_nth (ms_groups ms) grp of
        None \<Rightarrow> Err (OutOfRange ''merge group'' (of_nat grp) (length (ms_groups ms)))
      | Some merged \<Rightarrow>
          if of_nat (length out) < md_size merged
          then Err (OutOfRange ''merged section size'' (md_size merged) (length out))
          else Ok (write_pieces (ms_splits ms) (md_pieces merged) 0 out))"

end
