(* ===== verification/MergeDedup.thy ===== *)
theory MergeDedup
  imports Merge
begin

text \<open>
  Deduplication of pieces (src/src/passes/merge.rs, \<open>deduplicate\<close>): the buckets of the counting pass are
  the live pieces of each shard in piece order, a shard's table maps each content to its first piece,
  and so the leader of every live piece is the lowest live piece with its group and its bytes,
  whatever the hash function, the shards and the runs.
\<close>

section \<open>The counting sort of a run\<close>

definition scatter :: "(nat \<times> 'a) list \<Rightarrow> nat list \<times> 'a list \<Rightarrow> nat list \<times> 'a list" where
  "scatter pairs st = fold (\<lambda>(row, v) (cursor, entries).
     (cursor[row := cursor ! row + 1], entries[cursor ! row := v])) pairs st"

definition row_starts :: "nat \<Rightarrow> (nat \<times> 'a) list \<Rightarrow> nat list" where
  "row_starts rows pairs = prefix_sums (map (\<lambda>r. length (pushed_row pairs r)) [0..<rows])"

lemma pushed_row_append: "pushed_row (xs @ ys) r = pushed_row xs r @ pushed_row ys r"
  by (simp add: pushed_row_def)

lemma row_starts_Suc:
  "r < rows \<Longrightarrow> row_starts rows pairs ! Suc r = row_starts rows pairs ! r + length (pushed_row pairs r)"
  by (simp add: row_starts_def nth_prefix_sums_Suc)

lemma row_starts_mono: "a \<le> b \<Longrightarrow> b \<le> rows \<Longrightarrow> row_starts rows pairs ! a \<le> row_starts rows pairs ! b"
  by (simp add: row_starts_def prefix_sums_mono)

lemma length_row_starts [simp]: "length (row_starts rows pairs) = Suc rows"
  by (simp add: row_starts_def)

text \<open>After a prefix of the pairs, each row's cursor is past what the row has received so far.\<close>

definition scattered :: "nat \<Rightarrow> nat list \<Rightarrow> (nat \<times> 'a) list \<Rightarrow> nat list \<times> 'a list \<Rightarrow> bool" where
  "scattered rows starts ys st \<longleftrightarrow>
     length (fst st) = Suc rows \<and> length (snd st) = starts ! rows \<and>
     (\<forall>r<rows. fst st ! r = starts ! r + length (pushed_row ys r)) \<and>
     (\<forall>r<rows. \<forall>i<length (pushed_row ys r). snd st ! (starts ! r + i) = pushed_row ys r ! i)"

lemma scattered_step:
  assumes sc: "scattered rows (row_starts rows pairs) ys st" and r: "row < rows"
    and pre: "pairs = ys @ (row, v) # zs"
  shows "scattered rows (row_starts rows pairs) (ys @ [(row, v)]) (scatter [(row, v)] st)"
proof -
  let ?s = "row_starts rows pairs"
  obtain cursor entries where st: "st = (cursor, entries)" by (cases st)
  have inv: "length cursor = Suc rows" "length entries = ?s ! rows"
    "\<And>q. q < rows \<Longrightarrow> cursor ! q = ?s ! q + length (pushed_row ys q)"
    "\<And>q i. q < rows \<Longrightarrow> i < length (pushed_row ys q) \<Longrightarrow> entries ! (?s ! q + i) = pushed_row ys q ! i"
    using sc by (auto simp: scattered_def st)
  have fit: "length (pushed_row ys q) + (if q = row then 1 else 0) \<le> length (pushed_row pairs q)" for q
    by (simp add: pre pushed_row_def)
  have at: "cursor ! row < ?s ! Suc row" using inv(3) [OF r] fit [of row] row_starts_Suc [OF r, of pairs] by simp
  have bound: "cursor ! row < length entries"
    using at row_starts_mono [of "Suc row" rows rows pairs] r inv(2) by simp
  have new: "pushed_row (ys @ [(row, v)]) q = pushed_row ys q @ (if q = row then [v] else [])" for q
    by (simp add: pushed_row_def)
  have other: "?s ! q + i \<noteq> cursor ! row" if "q < rows" "i < length (pushed_row ys q)" for q i
  proof (cases q row rule: linorder_cases)
    case less
    then have "?s ! Suc q \<le> ?s ! row" using row_starts_mono [of "Suc q" row rows pairs] r by simp
    then show ?thesis using that row_starts_Suc [OF that(1), of pairs] fit [of q] inv(3) [OF r] by linarith
  next
    case equal
    then show ?thesis using that inv(3) [OF r] by simp
  next
    case greater
    then have "?s ! Suc row \<le> ?s ! q" using row_starts_mono [of "Suc row" q rows pairs] that(1) by simp
    then show ?thesis using at by linarith
  qed
  have "entries[cursor ! row := v] ! (?s ! q + i) = pushed_row (ys @ [(row, v)]) q ! i"
    if q: "q < rows" and i: "i < length (pushed_row (ys @ [(row, v)]) q)" for q i
  proof (cases "i < length (pushed_row ys q)")
    case True
    then show ?thesis using other [OF q True] inv(4) [OF q True] by (simp add: new nth_append)
  next
    case False
    with i have "q = row" "i = length (pushed_row ys q)" by (auto simp: new split: if_splits)
    then show ?thesis using inv(3) [OF q] bound by (simp add: new nth_append)
  qed
  moreover have "cursor[row := cursor ! row + 1] ! q = ?s ! q + length (pushed_row (ys @ [(row, v)]) q)" if "q < rows" for q
    using inv(1) inv(3) [OF that] r by (simp add: new nth_list_update)
  ultimately show ?thesis
    using inv(1,2) by (simp add: scattered_def scatter_def st)
qed

lemma scatter_prefix:
  assumes "\<forall>p\<in>set pairs. fst p < rows" and "pairs = ys @ zs"
  shows "scattered rows (row_starts rows pairs) ys
    (scatter ys (row_starts rows pairs, replicate (row_starts rows pairs ! rows) d))"
  using assms(2)
proof (induction ys arbitrary: zs rule: rev_induct)
  case Nil
  then show ?case by (simp add: scattered_def scatter_def pushed_row_def)
next
  case (snoc p ys)
  obtain row v where p: "p = (row, v)" by (cases p)
  have "row < rows" using assms(1) snoc.prems p by auto
  moreover have "pairs = ys @ (row, v) # zs" using snoc.prems p by simp
  ultimately show ?case
    using scattered_step [OF snoc.IH [of "p # zs"], of row v zs] snoc.prems
    by (simp add: p scatter_def)
qed

lemma scatter_rows:
  assumes "\<forall>p\<in>set pairs. fst p < rows" and "r < rows"
  shows "sub_slice (snd (scatter pairs (row_starts rows pairs, replicate (row_starts rows pairs ! rows) d)))
     (row_starts rows pairs ! r) (row_starts rows pairs ! Suc r) = pushed_row pairs r"
proof -
  let ?s = "row_starts rows pairs"
  let ?e = "snd (scatter pairs (?s, replicate (?s ! rows) d))"
  have sc: "scattered rows ?s pairs (scatter pairs (?s, replicate (?s ! rows) d))"
    using scatter_prefix [OF assms(1), of pairs "[]" d] by simp
  have step: "?s ! Suc r = ?s ! r + length (pushed_row pairs r)" using assms(2) by (rule row_starts_Suc)
  have "?s ! Suc r \<le> length ?e" using sc row_starts_mono [of "Suc r" rows rows pairs] assms(2)
    by (simp add: scattered_def)
  with step sc assms(2) show ?thesis
    by (intro nth_equalityI) (auto simp: nth_sub_slice scattered_def)
qed

lemma shard_of_less: "shard_of h < SHARDS"
proof -
  have "shard_of h = unat (drop_bit 32 h) AND mask 8" by (simp add: shard_of_def SHARDS_def mask_eq_exp_minus_1)
  then show ?thesis by (simp add: SHARDS_def flip: take_bit_eq_mask) (simp add: take_bit_eq_mod)
qed

definition shard_pairs :: "(usize \<Rightarrow> (usize \<times> u64) list) \<Rightarrow> usize \<times> usize \<Rightarrow> (nat \<times> (u32 \<times> u32)) list" where
  "shard_pairs pieces run =
     map (\<lambda>(section, local, hash). (shard_of hash, (of_nat section, of_nat local))) (run_pieces pieces run)"

lemma bucket_eq:
  assumes "shard < SHARDS"
  shows "bucket (bucket_run pieces run) shard = pushed_row (shard_pairs pieces run) shard"
proof -
  let ?p = "shard_pairs pieces run"
  have small: "\<forall>p\<in>set ?p. fst p < SHARDS" by (auto simp: shard_pairs_def shard_of_less)
  have cnt: "fold (\<lambda>(_, _, hash) starts. starts[shard_of hash + 1 := starts ! (shard_of hash + 1) + 1])
      (run_pieces pieces run) (replicate (SHARDS + 1) 0) = count_rows SHARDS ?p"
    by (simp add: count_rows_def shard_pairs_def fold_map comp_def case_prod_unfold)
  have "prefix_rows SHARDS (count_rows SHARDS ?p) = prefix_sums (tl (count_rows SHARDS ?p))"
    using count_rows_eq [OF small] by (intro prefix_rows_eq) auto
  also have "tl (count_rows SHARDS ?p) = map (\<lambda>r. length (pushed_row ?p r)) [0..<SHARDS]"
    using count_rows_eq [OF small] by (intro nth_equalityI) (auto simp: nth_tl)
  finally have starts: "prefix_rows SHARDS (count_rows SHARDS ?p) = row_starts SHARDS ?p"
    by (simp add: row_starts_def)
  have scat: "fold (\<lambda>(section, local, hash) (cursor, entries).
      let at = cursor ! shard_of hash
      in (cursor[shard_of hash := at + 1], entries[at := (of_nat section, of_nat local)]))
      (run_pieces pieces run) st = scatter ?p st" for st
    by (simp add: scatter_def shard_pairs_def fold_map comp_def case_prod_unfold Let_def)
  have "bucket_run pieces run =
      \<lparr>bk_starts = row_starts SHARDS ?p,
       bk_entries = snd (scatter ?p (row_starts SHARDS ?p, replicate (row_starts SHARDS ?p ! SHARDS) (0, 0)))\<rparr>"
    unfolding bucket_run_def Let_def cnt prefix_rows_def [symmetric] starts
    using scat by (simp add: case_prod_unfold Let_def)
  then show ?thesis
    using scatter_rows [OF small assms] by (simp add: bucket_def)
qed

section \<open>Numbering the pieces\<close>

definition all_pieces :: "merge_input list \<Rightarrow> (nat \<times> nat) list" where
  "all_pieces inputs =
     concat (map (\<lambda>s. map (Pair s) [0..<num_pieces (mi_split (inputs ! s))]) [0..<length inputs])"

definition numbers :: "merge_input list \<Rightarrow> nat list" where
  "numbers inputs = prefix_sums (map (num_pieces \<circ> mi_split) inputs)"

definition index_of :: "merge_input list \<Rightarrow> nat \<times> nat \<Rightarrow> nat" where
  "index_of inputs p = numbers inputs ! fst p + snd p"

definition live_at :: "bitset option \<Rightarrow> nat \<Rightarrow> bool" where
  "live_at live i = (case live of None \<Rightarrow> True | Some l \<Rightarrow> bitset_get l i)"

text \<open>What makes two pieces equal: their group and their bytes.\<close>

definition piece_key :: "merge_input list \<Rightarrow> nat \<times> nat \<Rightarrow> u32 \<times> u8 list" where
  "piece_key inputs p = (mi_group (inputs ! fst p), bytes_of (mi_split (inputs ! fst p)) (snd p))"

definition piece_hash :: "merge_input list \<Rightarrow> nat \<times> nat \<Rightarrow> u64" where
  "piece_hash inputs p = group_hash (ss_hashes (mi_split (inputs ! fst p)) ! snd p) (mi_group (inputs ! fst p))"

lemma set_all_pieces: "p \<in> set (all_pieces inputs) \<longleftrightarrow>
    fst p < length inputs \<and> snd p < num_pieces (mi_split (inputs ! fst p))"
  by (cases p) (force simp: all_pieces_def)

lemma numbers_Suc: "s < length inputs \<Longrightarrow>
    numbers inputs ! Suc s = numbers inputs ! s + num_pieces (mi_split (inputs ! s))"
  by (simp add: numbers_def nth_prefix_sums_Suc)

lemma length_numbers [simp]: "length (numbers inputs) = Suc (length inputs)"
  by (simp add: numbers_def)

lemma numbers_0 [simp]: "numbers inputs ! 0 = 0"
  by (simp add: numbers_def)

lemma numbers_mono: "a \<le> b \<Longrightarrow> b \<le> length inputs \<Longrightarrow> numbers inputs ! a \<le> numbers inputs ! b"
  by (simp add: numbers_def prefix_sums_mono)

lemma last_numbers: "last (numbers inputs) = numbers inputs ! length inputs"
  by (metis diff_Suc_1 last_conv_nth length_numbers list.size(3) nat.distinct(1))

lemma index_all_pieces: "map (index_of inputs) (all_pieces inputs) = [0..<last (numbers inputs)]"
proof -
  have "n \<le> length inputs \<Longrightarrow> map (index_of inputs)
      (concat (map (\<lambda>s. map (Pair s) [0..<num_pieces (mi_split (inputs ! s))]) [0..<n])) = [0..<numbers inputs ! n]" for n
  proof (induction n)
    case (Suc n)
    have "map (index_of inputs) (map (Pair n) [0..<num_pieces (mi_split (inputs ! n))]) =
        [numbers inputs ! n..<numbers inputs ! n + num_pieces (mi_split (inputs ! n))]"
      by (simp add: comp_def index_of_def map_add_upt')
    moreover have "[0..<numbers inputs ! Suc n] =
        [0..<numbers inputs ! n] @ [numbers inputs ! n..<numbers inputs ! n + num_pieces (mi_split (inputs ! n))]"
      using Suc.prems by (subst numbers_Suc, simp, intro upt_add_eq_append) simp
    ultimately show ?case using Suc by simp
  qed simp
  then show ?thesis by (simp add: all_pieces_def last_numbers)
qed

lemma index_less: "p \<in> set (all_pieces inputs) \<Longrightarrow> index_of inputs p < last (numbers inputs)"
  using index_all_pieces [of inputs] by (metis atLeastLessThan_iff image_eqI list.set_map set_upt)

lemma index_of_inj: "p \<in> set (all_pieces inputs) \<Longrightarrow> q \<in> set (all_pieces inputs) \<Longrightarrow>
    index_of inputs p = index_of inputs q \<Longrightarrow> p = q"
proof -
  have "distinct (map (index_of inputs) (all_pieces inputs))" by (simp add: index_all_pieces)
  then show "p \<in> set (all_pieces inputs) \<Longrightarrow> q \<in> set (all_pieces inputs) \<Longrightarrow>
    index_of inputs p = index_of inputs q \<Longrightarrow> p = q"
    by (auto simp: distinct_map dest: inj_onD)
qed

lemma index_sorted: "sorted_wrt (\<lambda>p q. index_of inputs p < index_of inputs q) (all_pieces inputs)"
proof -
  have "sorted_wrt (<) (map (index_of inputs) (all_pieces inputs))" by (simp add: index_all_pieces)
  then show ?thesis by (simp only: sorted_wrt_map)
qed

lemma index_surj: "i < last (numbers inputs) \<Longrightarrow> \<exists>p\<in>set (all_pieces inputs). index_of inputs p = i"
  using index_all_pieces [of inputs] by (metis atLeastLessThan_iff imageE le0 list.set_map set_upt)

section \<open>The runs\<close>

lemma dedup_runs_cover: "concat (map (\<lambda>(a, b). [a..<b]) (dedup_runs piece_base n)) = [0..<n]"
proof -
  let ?f = "\<lambda>section (runs, run_start).
    if piece_base ! (section + 1) - piece_base ! run_start \<ge> PIECES_PER_RUN
    then (runs @ [(run_start, section + 1)], section + 1) else (runs, run_start)"
  define st where "st = fold ?f [0..<n] ([], 0)"
  have "concat (map (\<lambda>(a, b). [a..<b]) (fst (fold ?f [0..<k] ([], 0)))) = [0..<snd (fold ?f [0..<k] ([], 0))] \<and>
      snd (fold ?f [0..<k] ([], 0)) \<le> k" for k
  proof (induction k)
    case (Suc k)
    obtain runs run_start where k: "fold ?f [0..<k] ([], 0) = (runs, run_start)" by fastforce
    have "[0..<run_start] @ [run_start..<Suc k] = [0..<Suc k]"
      using Suc k upt_add_eq_append [of 0 run_start "Suc k - run_start"] by simp
    with Suc k show ?case by (simp del: upt_Suc_append)
  qed simp
  from this [of n] have "concat (map (\<lambda>(a, b). [a..<b]) (fst st)) = [0..<snd st]" "snd st \<le> n"
    by (simp_all only: st_def)
  moreover have "[0..<snd st] @ [snd st..<n] = [0..<n]"
    using calculation(2) upt_add_eq_append [of 0 "snd st" "n - snd st"] by simp
  ultimately show ?thesis
    unfolding dedup_runs_def st_def [symmetric] by (auto simp: case_prod_unfold Let_def)
qed

lemma run_pieces_concat:
  assumes "concat (map (\<lambda>(a, b). [a..<b]) runs) = [0..<n]"
  shows "concat (map (run_pieces pieces) runs) = run_pieces pieces (0, n)"
proof -
  let ?f = "\<lambda>section. map (\<lambda>(local, hash). (section, local, hash)) (pieces section)"
  have "concat (map (run_pieces pieces) runs) = concat (map ?f (concat (map (\<lambda>(a, b). [a..<b]) runs)))"
    by (induction runs) (auto simp: run_pieces_def)
  then show ?thesis by (simp add: assms run_pieces_def)
qed

lemma run_pieces_all:
  "run_pieces (live_pieces_of inputs (numbers inputs) live) (0, length inputs) =
     map (\<lambda>p. (fst p, snd p, piece_hash inputs p))
       (filter (\<lambda>p. live_at live (index_of inputs p)) (all_pieces inputs))"
proof -
  have one: "map (\<lambda>(local, hash). (s, local, hash)) (live_pieces_of inputs (numbers inputs) live s) =
      map (\<lambda>p. (fst p, snd p, piece_hash inputs p))
        (filter (\<lambda>p. live_at live (index_of inputs p)) (map (Pair s) [0..<num_pieces (mi_split (inputs ! s))]))" for s
    by (cases live) (simp_all add: live_pieces_of_def Let_def enumerate_upt filter_map comp_def case_prod_unfold num_pieces_def
        live_at_def index_of_def piece_hash_def)
  show ?thesis
    unfolding run_pieces_def all_pieces_def filter_concat map_concat map_map
    by (simp only: fst_conv snd_conv one comp_def)
qed

text \<open>The live pieces of one shard, in piece order.\<close>

definition shard_pieces :: "merge_input list \<Rightarrow> bitset option \<Rightarrow> nat \<Rightarrow> (nat \<times> nat) list" where
  "shard_pieces inputs live shard =
     filter (\<lambda>p. shard_of (piece_hash inputs p) = shard)
       (filter (\<lambda>p. live_at live (index_of inputs p)) (all_pieces inputs))"

lemma fold_concat: "fold (\<lambda>xs. fold f (g xs)) xss st = fold f (concat (map g xss)) st"
  by (induction xss arbitrary: st) auto

lemma buckets_concat:
  fixes inputs live
  assumes "shard < SHARDS"
  defines "buckets \<equiv> map (bucket_run (live_pieces_of inputs (numbers inputs) live))
    (dedup_runs (numbers inputs) (length inputs))"
  shows "concat (map (\<lambda>b. bucket b shard) buckets) =
    map (\<lambda>p. (of_nat (fst p), of_nat (snd p))) (shard_pieces inputs live shard)"
proof -
  let ?pieces = "live_pieces_of inputs (numbers inputs) live" and ?runs = "dedup_runs (numbers inputs) (length inputs)"
  have "concat (map (\<lambda>b. bucket b shard) buckets) = concat (map (\<lambda>run. pushed_row (shard_pairs ?pieces run) shard) ?runs)"
    by (simp add: buckets_def comp_def bucket_eq [OF assms(1)])
  also have "\<dots> = pushed_row (concat (map (shard_pairs ?pieces) ?runs)) shard"
    by (simp add: pushed_row_def filter_concat map_concat comp_def)
  also have "concat (map (shard_pairs ?pieces) ?runs) =
      map (\<lambda>(section, local, hash). (shard_of hash, (of_nat section, of_nat local))) (concat (map (run_pieces ?pieces) ?runs))"
    by (simp add: shard_pairs_def [abs_def] map_concat comp_def)
  also have "concat (map (run_pieces ?pieces) ?runs) = map (\<lambda>p. (fst p, snd p, piece_hash inputs p))
       (filter (\<lambda>p. live_at live (index_of inputs p)) (all_pieces inputs))"
    using run_pieces_concat [OF dedup_runs_cover] run_pieces_all by metis
  finally show ?thesis
    by (simp add: shard_pieces_def pushed_row_def filter_map comp_def)
qed

section \<open>One shard\<close>

text \<open>What the shards use of the hash table: \<open>entry\<close> on the set of its elements.\<close>

definition entry_laws :: "('t, unique) hash_table \<Rightarrow> ('t \<Rightarrow> unique set) \<Rightarrow> bool" where
  "entry_laws ht elems \<longleftrightarrow>
     elems (ht_new ht) = {} \<and>
     (\<forall>t h u. un_hash u = h \<longrightarrow> elems (ht_insert ht t h u) = insert u (elems t)) \<and>
     (\<forall>t h p u. ht_find ht t h p = Some u \<longrightarrow> u \<in> elems t \<and> p u) \<and>
     (\<forall>t h p. ht_find ht t h p = None \<longrightarrow> (\<forall>u\<in>elems t. un_hash u = h \<longrightarrow> \<not> p u))"

lemma hash_table_entry_laws: "hash_table_laws ht un_hash elems \<Longrightarrow> entry_laws ht (\<lambda>t. set_mset (elems t))"
proof -
  assume laws: "hash_table_laws ht un_hash elems"
  show ?thesis
    unfolding entry_laws_def
  proof (intro conjI allI impI)
    fix t h p u
    show "set_mset (elems (ht_new ht)) = {}" using hash_tableD(1) [OF laws] by simp
    show "set_mset (elems (ht_insert ht t h u)) = insert u (set_mset (elems t))" if "un_hash u = h"
      using hash_tableD(4) [OF laws that] by simp
    show "u \<in># elems t" "p u" if "ht_find ht t h p = Some u" using hash_tableD(2) [OF laws that] by simp_all
    show "\<forall>u\<in>#elems t. un_hash u = h \<longrightarrow> \<not> p u" if "ht_find ht t h p = None" by (rule hash_tableD(3) [OF laws that])
  qed
qed

lemma entry_lawsD:
  assumes "entry_laws ht elems"
  shows "elems (ht_new ht) = {}"
    "un_hash u = h \<Longrightarrow> elems (ht_insert ht t h u) = insert u (elems t)"
    "ht_find ht t h p = Some u \<Longrightarrow> u \<in> elems t \<and> p u"
    "ht_find ht t h p = None \<Longrightarrow> u \<in> elems t \<Longrightarrow> un_hash u = h \<Longrightarrow> \<not> p u"
  using assms unfolding entry_laws_def by blast+

definition numbered :: "(u8 list \<Rightarrow> u64) \<Rightarrow> merge_input list \<Rightarrow> bool" where
  "numbered hf inputs \<longleftrightarrow> (\<forall>inp\<in>set inputs. split_ok hf (mi_split inp)) \<and>
     length inputs \<le> u32_max \<and> last (numbers inputs) < u32_max"

definition unique_of :: "merge_input list \<Rightarrow> nat \<times> nat \<Rightarrow> unique" where
  "unique_of inputs p = \<lparr>un_hash = piece_hash inputs p, un_group = fst (piece_key inputs p),
     un_leader = of_nat (index_of inputs p), un_bytes = snd (piece_key inputs p)\<rparr>"

definition first_of :: "merge_input list \<Rightarrow> (nat \<times> nat) list \<Rightarrow> nat \<times> nat \<Rightarrow> nat \<times> nat" where
  "first_of inputs ps p = hd (filter (\<lambda>q. piece_key inputs q = piece_key inputs p) ps)"

lemma piece_hash_key:
  assumes "numbered hf inputs" and "p \<in> set (all_pieces inputs)"
  shows "piece_hash inputs p = group_hash (hf (snd (piece_key inputs p))) (fst (piece_key inputs p))"
  using assms hashes_bytes_of [of hf "mi_split (inputs ! fst p)" "snd p"]
  by (auto simp: numbered_def set_all_pieces piece_hash_def piece_key_def)

lemma unat_index: "numbered hf inputs \<Longrightarrow> p \<in> set (all_pieces inputs) \<Longrightarrow>
    unat (of_nat (index_of inputs p) :: u32) = index_of inputs p"
  using index_less [of p inputs] by (simp add: numbered_def unat_of_nat)

lemma unat_piece:
  assumes "numbered hf inputs" and "p \<in> set (all_pieces inputs)"
  shows "unat (of_nat (fst p) :: u32) = fst p" "unat (of_nat (snd p) :: u32) = snd p"
proof -
  have "snd p < num_pieces (mi_split (inputs ! fst p))" "fst p < length inputs"
    using assms by (auto simp: set_all_pieces)
  moreover have "num_pieces (mi_split (inputs ! fst p)) \<le> u32_max"
    using assms calculation(2) num_pieces_le split_ok_shape(3) by (meson le_trans nth_mem numbered_def)
  ultimately show "unat (of_nat (fst p) :: u32) = fst p" "unat (of_nat (snd p) :: u32) = snd p"
    using assms by (simp_all add: numbered_def unat_of_nat)
qed

lemma dedup_entry_cast:
  assumes "numbered hf inputs" and "p \<in> set (all_pieces inputs)"
  shows "dedup_entry ht inputs (numbers inputs) (of_nat (fst p), of_nat (snd p)) (t, L) =
    (case ht_find ht t (piece_hash inputs p)
        (\<lambda>u. un_hash u = piece_hash inputs p \<and> un_group u = fst (piece_key inputs p) \<and> un_bytes u = snd (piece_key inputs p)) of
       Some u \<Rightarrow> (t, L[index_of inputs p := un_leader u])
     | None \<Rightarrow> (ht_insert ht t (piece_hash inputs p) (unique_of inputs p),
                 L[index_of inputs p := of_nat (index_of inputs p)]))"
  unfolding dedup_entry_def prod.case Let_def unat_piece [OF assms] index_of_def [of inputs p, symmetric]
    unat_index [OF assms]
  by (simp add: piece_hash_def piece_key_def unique_of_def split: option.split)

definition dedup_inv :: "merge_input list \<Rightarrow> ('t \<Rightarrow> unique set) \<Rightarrow> u32 list \<Rightarrow> (nat \<times> nat) list \<Rightarrow> 't \<times> u32 list \<Rightarrow> bool" where
  "dedup_inv inputs elems L0 ps st \<longleftrightarrow>
     elems (fst st) = (\<lambda>p. unique_of inputs (first_of inputs ps p)) ` set ps \<and>
     length (snd st) = length L0 \<and>
     (\<forall>p\<in>set ps. snd st ! index_of inputs p = of_nat (index_of inputs (first_of inputs ps p))) \<and>
     (\<forall>i. i \<notin> index_of inputs ` set ps \<longrightarrow> snd st ! i = L0 ! i)"

lemma first_of_mem:
  assumes "q \<in> set ps" and "piece_key inputs q = piece_key inputs p"
  shows "first_of inputs ps p \<in> set ps" "piece_key inputs (first_of inputs ps p) = piece_key inputs p"
proof -
  have "filter (\<lambda>q. piece_key inputs q = piece_key inputs p) ps \<noteq> []"
    using assms by (auto simp: filter_empty_conv)
  from hd_in_set [OF this] show "first_of inputs ps p \<in> set ps"
    "piece_key inputs (first_of inputs ps p) = piece_key inputs p" by (auto simp: first_of_def)
qed

lemma first_of_snoc: "first_of inputs (ps @ [p]) q =
    (if \<exists>r\<in>set ps. piece_key inputs r = piece_key inputs q then first_of inputs ps q
     else if piece_key inputs p = piece_key inputs q then p else hd [])"
  by (auto simp: first_of_def filter_empty_conv hd_append)

lemma first_of_key: "piece_key inputs p = piece_key inputs q \<Longrightarrow> first_of inputs ps p = first_of inputs ps q"
  by (simp add: first_of_def)

lemma dedup_step:
  assumes num: "numbered hf inputs" and laws: "entry_laws ht elems"
    and p: "p \<in> set (all_pieces inputs)" and ps: "set ps \<subseteq> set (all_pieces inputs)" and new: "p \<notin> set ps"
    and len: "length L0 = last (numbers inputs)"
    and inv: "dedup_inv inputs elems L0 ps (t, L)"
  shows "dedup_inv inputs elems L0 (ps @ [p])
    (dedup_entry ht inputs (numbers inputs) (of_nat (fst p), of_nat (snd p)) (t, L))"
proof -
  let ?i = "index_of inputs" and ?k = "piece_key inputs" and ?h = "piece_hash inputs p"
  let ?test = "\<lambda>u. un_hash u = ?h \<and> un_group u = fst (?k p) \<and> un_bytes u = snd (?k p)"
  have el: "elems t = (\<lambda>p. unique_of inputs (first_of inputs ps p)) ` set ps" and ln: "length L = length L0"
    and L: "\<And>q. q \<in> set ps \<Longrightarrow> L ! ?i q = of_nat (?i (first_of inputs ps q))"
    and keep: "\<And>i. i \<notin> ?i ` set ps \<Longrightarrow> L ! i = L0 ! i"
    using inv by (auto simp: dedup_inv_def)
  have ip: "?i p < length L" using index_less [OF p] ln len by simp
  have ne: "?i p \<noteq> ?i q" if "q \<in> set ps" for q
  proof
    assume "?i p = ?i q"
    then have "p = q" using index_of_inj p ps that by (meson subsetD)
    with new that show False by simp
  qed
  have old: "first_of inputs (ps @ [p]) q = first_of inputs ps q" if "q \<in> set ps" for q
    using that by (auto simp: first_of_snoc)
  have set': "dedup_inv inputs elems L0 (ps @ [p]) (t', L[?i p := of_nat (?i (first_of inputs (ps @ [p]) p))])"
    if "elems t' = insert (unique_of inputs (first_of inputs (ps @ [p]) p)) (elems t)" for t'
    unfolding dedup_inv_def fst_conv snd_conv
  proof (intro conjI ballI allI impI)
    show "elems t' = (\<lambda>q. unique_of inputs (first_of inputs (ps @ [p]) q)) ` set (ps @ [p])"
      unfolding that el using old by (auto simp: image_iff)
    show "length (L[?i p := of_nat (?i (first_of inputs (ps @ [p]) p))]) = length L0" using ln by simp
    show "L[?i p := of_nat (?i (first_of inputs (ps @ [p]) p))] ! ?i q = of_nat (?i (first_of inputs (ps @ [p]) q))"
      if "q \<in> set (ps @ [p])" for q
      using that ip by (cases "q = p") (auto simp: old L ne)
    show "L[?i p := of_nat (?i (first_of inputs (ps @ [p]) p))] ! i = L0 ! i" if "i \<notin> ?i ` set (ps @ [p])" for i
      using that keep [of i] by auto
  qed
  show ?thesis
  proof (cases "ht_find ht t ?h ?test")
    case (Some u)
    from entry_lawsD(3) [OF laws this] have u: "u \<in> elems t" "?test u" by blast+
    then obtain q where q: "q \<in> set ps" "u = unique_of inputs (first_of inputs ps q)" using el by auto
    then have k: "?k q = ?k p" using u(2) first_of_mem [OF q(1) refl]
      by (simp add: unique_of_def prod_eq_iff)
    have f: "first_of inputs (ps @ [p]) p = first_of inputs ps p" "first_of inputs ps q = first_of inputs ps p"
      using q(1) k first_of_snoc [of inputs ps p p] first_of_key [OF k, of ps] by auto
    then have "unique_of inputs (first_of inputs (ps @ [p]) p) \<in> elems t" using u(1) q(2) by simp
    then have "elems t = insert (unique_of inputs (first_of inputs (ps @ [p]) p)) (elems t)"
      by (rule insert_absorb [symmetric])
    from set' [OF this] show ?thesis
      using Some f q(2) by (simp add: dedup_entry_cast [OF num p] unique_of_def)
  next
    case None
    note none = entry_lawsD(4) [OF laws this]
    have "?k q \<noteq> ?k p" if q: "q \<in> set ps" for q
    proof
      assume k: "?k q = ?k p"
      let ?f = "first_of inputs ps q"
      have f: "?f \<in> set ps" "?k ?f = ?k p" using first_of_mem [OF q refl] k by simp_all
      then have "piece_hash inputs ?f = ?h" using piece_hash_key [OF num] p ps by (metis subsetD)
      moreover have "unique_of inputs ?f \<in> elems t" using q el by blast
      ultimately show False using none [of "unique_of inputs ?f"] f by (simp add: unique_of_def)
    qed
    then have f: "first_of inputs (ps @ [p]) p = p" by (simp add: first_of_snoc)
    have "elems (ht_insert ht t ?h (unique_of inputs p)) = insert (unique_of inputs (first_of inputs (ps @ [p]) p)) (elems t)"
      using entry_lawsD(2) [OF laws, of "unique_of inputs p"] f by (simp add: unique_of_def)
    from set' [OF this] show ?thesis using None f by (simp add: dedup_entry_cast [OF num p])
  qed
qed

lemma dedup_fold:
  assumes num: "numbered hf inputs" and laws: "entry_laws ht elems"
    and len: "length L0 = last (numbers inputs)" and ps: "set ps \<subseteq> set (all_pieces inputs)" and dist: "distinct ps"
  shows "dedup_inv inputs elems L0 ps
    (fold (dedup_entry ht inputs (numbers inputs)) (map (\<lambda>p. (of_nat (fst p), of_nat (snd p))) ps) (ht_new ht, L0))"
  using ps dist
proof (induction ps rule: rev_induct)
  case Nil
  then show ?case using entry_lawsD(1) [OF laws] by (simp add: dedup_inv_def)
next
  case (snoc p ps)
  obtain t L where tL: "fold (dedup_entry ht inputs (numbers inputs))
      (map (\<lambda>p. (of_nat (fst p), of_nat (snd p))) ps) (ht_new ht, L0) = (t, L)" by fastforce
  have "dedup_inv inputs elems L0 ps (t, L)" using snoc unfolding tL by simp
  from dedup_step [OF num laws _ _ _ len this, of p] snoc.prems show ?case by (simp add: tL)
qed

lemma distinct_all_pieces: "distinct (all_pieces inputs)"
  using index_all_pieces [of inputs] by (metis distinct_map distinct_upt)

lemma dedup_shard_spec:
  fixes live
  assumes num: "numbered hf inputs" and laws: "entry_laws ht elems"
    and len: "length L = last (numbers inputs)" and shard: "shard < SHARDS"
  defines "buckets \<equiv> map (bucket_run (live_pieces_of inputs (numbers inputs) live))
    (dedup_runs (numbers inputs) (length inputs))"
    and "ps \<equiv> shard_pieces inputs live shard"
  shows "length (dedup_shard ht inputs (numbers inputs) buckets shard L) = length L"
    "\<And>p. p \<in> set ps \<Longrightarrow> dedup_shard ht inputs (numbers inputs) buckets shard L ! index_of inputs p =
       of_nat (index_of inputs (first_of inputs ps p))"
    "\<And>i. i \<notin> index_of inputs ` set ps \<Longrightarrow> dedup_shard ht inputs (numbers inputs) buckets shard L ! i = L ! i"
proof -
  have "set ps \<subseteq> set (all_pieces inputs)" "distinct ps"
    using distinct_all_pieces by (auto simp: ps_def shard_pieces_def)
  note inv = dedup_fold [OF num laws len this]
  have eq: "dedup_shard ht inputs (numbers inputs) buckets shard L =
      snd (fold (dedup_entry ht inputs (numbers inputs)) (map (\<lambda>p. (of_nat (fst p), of_nat (snd p))) ps) (ht_new ht, L))"
    unfolding dedup_shard_def fold_concat buckets_def buckets_concat [OF shard] ps_def ..
  show "length (dedup_shard ht inputs (numbers inputs) buckets shard L) = length L"
    "\<And>p. p \<in> set ps \<Longrightarrow> dedup_shard ht inputs (numbers inputs) buckets shard L ! index_of inputs p =
       of_nat (index_of inputs (first_of inputs ps p))"
    "\<And>i. i \<notin> index_of inputs ` set ps \<Longrightarrow> dedup_shard ht inputs (numbers inputs) buckets shard L ! i = L ! i"
    using inv unfolding eq by (simp_all add: dedup_inv_def)
qed

section \<open>All shards\<close>

text \<open>The leader by definition: the first live piece with the same group and bytes.\<close>

definition live_list :: "merge_input list \<Rightarrow> bitset option \<Rightarrow> (nat \<times> nat) list" where
  "live_list inputs live = filter (\<lambda>p. live_at live (index_of inputs p)) (all_pieces inputs)"

lemma first_of_shard:
  assumes num: "numbered hf inputs" and p: "p \<in> set (live_list inputs live)"
  shows "first_of inputs (shard_pieces inputs live (shard_of (piece_hash inputs p))) p =
    first_of inputs (live_list inputs live) p"
proof -
  have "piece_hash inputs q = piece_hash inputs p"
    if "q \<in> set (live_list inputs live)" "piece_key inputs q = piece_key inputs p" for q
    using that p piece_hash_key [OF num, of q] piece_hash_key [OF num, of p] by (simp add: live_list_def)
  then have "filter (\<lambda>q. piece_key inputs q = piece_key inputs p)
      (filter (\<lambda>q. shard_of (piece_hash inputs q) = shard_of (piece_hash inputs p)) (live_list inputs live)) =
    filter (\<lambda>q. piece_key inputs q = piece_key inputs p) (live_list inputs live)"
    by (simp only: filter_filter) (rule filter_cong, simp, metis)
  then show ?thesis by (simp add: first_of_def shard_pieces_def live_list_def)
qed

lemma deduplicate_spec:
  fixes live
  assumes num: "numbered hf inputs" and laws: "hash_table_laws ht un_hash elems"
  defines "L \<equiv> deduplicate ht inputs (numbers inputs) (last (numbers inputs)) live"
  shows "length L = last (numbers inputs)"
    "\<And>p. p \<in> set (all_pieces inputs) \<Longrightarrow> L ! index_of inputs p =
      (if live_at live (index_of inputs p) then of_nat (index_of inputs (first_of inputs (live_list inputs live) p))
       else DEAD_LEADER)"
proof -
  let ?b = "map (bucket_run (live_pieces_of inputs (numbers inputs) live)) (dedup_runs (numbers inputs) (length inputs))"
  let ?f = "dedup_shard ht inputs (numbers inputs) ?b" and ?n = "last (numbers inputs)"
  let ?L = "\<lambda>k. fold ?f [0..<k] (replicate ?n DEAD_LEADER)"
  have inv: "length (?L k) = ?n \<and> (\<forall>p\<in>set (all_pieces inputs). ?L k ! index_of inputs p =
      (if live_at live (index_of inputs p) \<and> shard_of (piece_hash inputs p) < k
       then of_nat (index_of inputs (first_of inputs (live_list inputs live) p)) else DEAD_LEADER))"
    if "k \<le> SHARDS" for k
    using that
  proof (induction k)
    case 0
    then show ?case using index_less by auto
  next
    case (Suc k)
    then have len: "length (?L k) = ?n" and k: "k < SHARDS" by auto
    note sh = dedup_shard_spec [OF num hash_table_entry_laws [OF laws] len k, where live = live]
    have "?f k (?L k) ! index_of inputs p =
        (if live_at live (index_of inputs p) \<and> shard_of (piece_hash inputs p) < Suc k
         then of_nat (index_of inputs (first_of inputs (live_list inputs live) p)) else DEAD_LEADER)"
      if p: "p \<in> set (all_pieces inputs)" for p
    proof (cases "live_at live (index_of inputs p) \<and> shard_of (piece_hash inputs p) = k")
      case True
      then have "p \<in> set (shard_pieces inputs live k)" "p \<in> set (live_list inputs live)"
        using p by (auto simp: shard_pieces_def live_list_def)
      then show ?thesis using sh(2) [of p] first_of_shard [OF num, of p live] True by simp
    next
      case False
      have "index_of inputs p \<notin> index_of inputs ` set (shard_pieces inputs live k)"
      proof
        assume "index_of inputs p \<in> index_of inputs ` set (shard_pieces inputs live k)"
        then obtain q where q: "q \<in> set (shard_pieces inputs live k)" "index_of inputs p = index_of inputs q" by blast
        then have "p = q" using index_of_inj [OF p, of q] by (simp add: shard_pieces_def)
        with q False show False by (auto simp: shard_pieces_def)
      qed
      then show ?thesis using sh(3) [of "index_of inputs p"] Suc p False by (auto simp: less_Suc_eq)
    qed
    with sh(1) len show ?case by simp
  qed
  have L: "L = ?L SHARDS" by (simp add: L_def deduplicate_def Let_def)
  show "length L = ?n" using inv [of SHARDS] L by simp
  show "L ! index_of inputs p =
      (if live_at live (index_of inputs p) then of_nat (index_of inputs (first_of inputs (live_list inputs live) p))
       else DEAD_LEADER)" if "p \<in> set (all_pieces inputs)" for p
    using inv [of SHARDS] that L by (simp add: shard_of_less)
qed

lemma first_of_live:
  assumes "p \<in> set (live_list inputs live)"
  shows "first_of inputs (live_list inputs live) p \<in> set (live_list inputs live)"
    "piece_key inputs (first_of inputs (live_list inputs live) p) = piece_key inputs p"
    "\<And>q. q \<in> set (live_list inputs live) \<Longrightarrow> piece_key inputs q = piece_key inputs p \<Longrightarrow>
       index_of inputs (first_of inputs (live_list inputs live) p) \<le> index_of inputs q"
proof -
  let ?l = "filter (\<lambda>q. piece_key inputs q = piece_key inputs p) (live_list inputs live)"
  show "first_of inputs (live_list inputs live) p \<in> set (live_list inputs live)"
    "piece_key inputs (first_of inputs (live_list inputs live) p) = piece_key inputs p"
    using first_of_mem [OF assms refl] by simp_all
  fix q assume "q \<in> set (live_list inputs live)" "piece_key inputs q = piece_key inputs p"
  then have q: "q \<in> set ?l" by simp
  have "sorted_wrt (\<lambda>p q. index_of inputs p < index_of inputs q) ?l"
    unfolding live_list_def by (intro sorted_wrt_filter index_sorted)
  then have "index_of inputs (hd ?l) \<le> index_of inputs q" using q by (cases ?l) auto
  then show "index_of inputs (first_of inputs (live_list inputs live) p) \<le> index_of inputs q"
    by (simp add: first_of_def)
qed

text \<open>A table that keeps its elements in a list, for examples.\<close>

definition demo_split :: "u8 list \<Rightarrow> split_section" where
  "demo_split bytes = (case split_section demo_hash bytes (Strings 1) 1 of Ok s \<Rightarrow> s
     | Err _ \<Rightarrow> \<lparr>ss_data = [], ss_kind = Strings 1, ss_alignment = 1, ss_starts = [], ss_hashes = []\<rparr>)"

definition demo_inputs :: "merge_input list" where
  "demo_inputs = [\<lparr>mi_group = 0, mi_split = demo_split [98, 97, 0, 97, 0]\<rparr>,
     \<lparr>mi_group = 0, mi_split = demo_split [97, 0, 99, 0]\<rparr>]"

lemma demo_split_data: "terminated (Strings 1) bytes \<Longrightarrow> length bytes \<le> u32_max \<Longrightarrow>
    split_section demo_hash bytes (Strings 1) 1 = Ok (demo_split bytes) \<and> ss_data (demo_split bytes) = bytes \<and>
    ss_kind (demo_split bytes) = Strings 1 \<and> ss_alignment (demo_split bytes) = 1"
proof -
  assume "terminated (Strings 1) bytes" "length bytes \<le> u32_max"
  moreover have "is_power_of_two 1" by code_simp
  ultimately obtain s where "split_section demo_hash bytes (Strings 1) 1 = Ok s"
    using split_section_Ok_iff [of demo_hash bytes "Strings 1" 1] count_pieces_Ok_iff [of "Strings 1" bytes]
    by (auto simp: size_unit_def)
  then show ?thesis using split_section_ok by (simp add: demo_split_def)
qed

lemma demo_split_ok: "terminated (Strings 1) bytes \<Longrightarrow> length bytes \<le> u32_max \<Longrightarrow> split_ok demo_hash (demo_split bytes)"
  using demo_split_data split_section_ok by blast

lemma demo_numbered: "numbered demo_hash demo_inputs"
proof -
  have "split_ok demo_hash (demo_split [98, 97, 0, 97, 0])" "split_ok demo_hash (demo_split [97, 0, 99, 0])"
    by (rule demo_split_ok; simp add: terminated_def is_nul_def)+
  moreover have "last (numbers demo_inputs) = 4" by code_simp
  ultimately show ?thesis by (simp add: numbered_def demo_inputs_def)
qed

section \<open>Properties\<close>

text \<open>
  C14. Deduplication chooses the first occurrence: for every hash function and every hash table that
  keeps hashbrown's contract, the leader of a live piece is the lowest-numbered live piece with the same
  group and the same bytes, and a dead piece has none.
\<close>

theorem deduplicate_leader:
  fixes hf ht elems inputs live
  defines "L \<equiv> deduplicate ht inputs (numbers inputs) (last (numbers inputs)) live"
  shows "numbered hf inputs \<Longrightarrow> hash_table_laws ht un_hash elems \<Longrightarrow> p \<in> set (all_pieces inputs) \<Longrightarrow>
     (if live_at live (index_of inputs p) then
        (\<exists>q\<in>set (all_pieces inputs). live_at live (index_of inputs q) \<and> piece_key inputs q = piece_key inputs p \<and>
           unat (L ! index_of inputs p) = index_of inputs q \<and>
           (\<forall>r\<in>set (all_pieces inputs). live_at live (index_of inputs r) \<longrightarrow>
              piece_key inputs r = piece_key inputs p \<longrightarrow> index_of inputs q \<le> index_of inputs r))
      else L ! index_of inputs p = DEAD_LEADER)"
proof -
  assume num: "numbered hf inputs" and laws: "hash_table_laws ht un_hash elems" and p: "p \<in> set (all_pieces inputs)"
  note spec = deduplicate_spec(2) [OF num laws p, of live, folded L_def]
  show ?thesis
  proof (cases "live_at live (index_of inputs p)")
    case True
    let ?q = "first_of inputs (live_list inputs live) p"
    have "p \<in> set (live_list inputs live)" using p True by (simp add: live_list_def)
    note f = first_of_live [OF this]
    have "?q \<in> set (all_pieces inputs)" "live_at live (index_of inputs ?q)" using f(1) by (simp_all add: live_list_def)
    moreover have "unat (L ! index_of inputs p) = index_of inputs ?q"
      using spec True unat_index [OF num calculation(1)] by simp
    moreover have "index_of inputs ?q \<le> index_of inputs r"
      if "r \<in> set (all_pieces inputs)" "live_at live (index_of inputs r)" "piece_key inputs r = piece_key inputs p" for r
      using f(3) [of r] that by (simp add: live_list_def)
    ultimately show ?thesis using True f(2) by auto
  qed (use spec in simp)
qed

theorem deduplicate_leader_witness:
  "unat (deduplicate (list_table un_hash) demo_inputs (numbers demo_inputs) (last (numbers demo_inputs)) None ! 2) \<le> 1"
proof -
  have i: "(1, 0) \<in> set (all_pieces demo_inputs)" "(0, 1) \<in> set (all_pieces demo_inputs)"
    "index_of demo_inputs (1, 0) = 2" "index_of demo_inputs (0, 1) = 1"
    "piece_key demo_inputs (0, 1) = piece_key demo_inputs (1, 0)"
    by code_simp+
  show ?thesis
    using deduplicate_leader [OF demo_numbered list_table_laws i(1), of None] i
    by (fastforce simp: live_at_def)
qed

end
