(* ===== verification/MergeLayout.thy ===== *)
theory MergeLayout
  imports MergeDedup
begin

text \<open>
  The layout of a merged group and the writing of its contents (src/src/passes/merge.rs): alignment as
  arithmetic on naturals, the placement of leaders one after the other as the reference, the
  placement in runs and with tail merging against it, and the writer, which splits its pieces
  recursively, against the contents laid end to end.
\<close>

section \<open>Alignment\<close>

definition round_up :: "nat \<Rightarrow> nat \<Rightarrow> nat" where
  "round_up a x = (x + a - 1) div a * a"

lemma power_of_twoE:
  assumes "is_power_of_two w"
  obtains k where "k < 64" "w = push_bit k 1" "unat w = 2 ^ k"
proof -
  from assms have "length (filter (bit w) [0..<64]) = 1" by (simp add: is_power_of_two_def count_ones_def)
  then obtain k where k: "filter (bit w) [0..<64] = [k]" by (metis One_nat_def length_0_conv length_Suc_conv)
  have mem: "i < 64 \<and> bit w i \<longleftrightarrow> i = k" for i
    using arg_cong [OF k, of "\<lambda>l. i \<in> set l"] by auto
  then have "k < 64" by blast
  moreover have w: "w = push_bit k 1"
  proof (rule bit_word_eqI)
    fix n assume "n < LENGTH(64)"
    then show "bit w n \<longleftrightarrow> bit (push_bit k 1 :: u64) n"
      using mem [of n] by (auto simp: bit_exp_iff)
  qed
  moreover have "unat w = 2 ^ k"
    using \<open>k < 64\<close> unfolding w by (simp only: unsigned_push_bit_eq take_bit_push_bit) (simp add: push_bit_eq_mult)
  ultimately show thesis by (rule that)
qed

lemma alignment_pos: "is_power_of_two w \<Longrightarrow> 0 < unat w"
  by (erule power_of_twoE) simp

lemma unat_and_not_mask: "k < 64 \<Longrightarrow> unat (x AND NOT (mask k)) = unat x div 2 ^ k * 2 ^ k" for x :: u64
proof -
  assume "k < 64"
  have "x AND NOT (mask k) = push_bit k (drop_bit k x)"
    by (rule bit_word_eqI) (auto simp: bit_simps)
  moreover have "unat x < 2 ^ LENGTH(64)" by (rule unsigned_less)
  then have lt: "unat x < 2 ^ 64" by simp
  moreover have "unat x div 2 ^ k * 2 ^ k < 2 ^ 64"
    by (rule le_less_trans [OF div_times_less_eq_dividend lt])
  ultimately show ?thesis using lt
    by (simp only: unsigned_push_bit_eq unsigned_drop_bit_eq)
      (simp add: drop_bit_eq_div push_bit_eq_mult take_bit_nat_eq_self)
qed

lemma align_to_Some:
  assumes "is_power_of_two alignment"
  shows "align_to v alignment = Some w \<longleftrightarrow>
    unat v + (unat alignment - 1) \<le> u64_max \<and> unat w = round_up (unat alignment) (unat v)"
proof -
  obtain k where k: "k < 64" "alignment = push_bit k 1" "unat alignment = 2 ^ k"
    using assms by (rule power_of_twoE)
  have m: "alignment - 1 = mask k" using k by (simp add: mask_eq_exp_minus_1 push_bit_eq_mult)
  have "1 \<le> alignment" using k(3) by (simp add: word_le_nat_alt)
  then have m1: "unat (alignment - 1) = 2 ^ k - 1" using k(3) by (simp add: unat_sub)
  show ?thesis
  proof (cases "unat v + (2 ^ k - 1) \<le> u64_max")
    case False
    then show ?thesis using m1 k(3) by (simp add: align_to_def checked_add_u64_def Let_def)
  next
    case True
    then have "unat (v + (alignment - 1)) = unat v + (2 ^ k - 1)"
      using m1 by (subst unat_add_lem [THEN iffD1]) simp_all
    then have "unat ((v + (alignment - 1)) AND NOT (alignment - 1)) = round_up (unat alignment) (unat v)"
      unfolding m using unat_and_not_mask [OF k(1), of "v + mask k"] k(3) by (simp add: m [symmetric] round_up_def)
    with True m1 k(3) show ?thesis
      by (auto simp: align_to_def checked_add_u64_def Let_def word_unat_eq_iff)
  qed
qed

lemma round_up_props:
  assumes "0 < a"
  shows "a dvd round_up a x" "x \<le> round_up a x" "round_up a x \<le> x + (a - 1)"
proof -
  show "a dvd round_up a x" by (simp add: round_up_def)
  have "round_up a x = x + a - 1 - (x + a - 1) mod a"
    by (simp add: round_up_def minus_mod_eq_div_mult)
  moreover have "(x + a - 1) mod a < a" using assms by simp
  ultimately show "x \<le> round_up a x" "round_up a x \<le> x + (a - 1)" by linarith+
qed

lemma round_up_add: "0 < a \<Longrightarrow> a dvd b \<Longrightarrow> round_up a (b + x) = b + round_up a x"
proof -
  assume a: "0 < a" and "a dvd b"
  then obtain c where b: "b = c * a" by (metis dvd_div_mult_self)
  define y where "y = x + a - 1"
  have "b + x + a - 1 = y + c * a" using a b by (simp add: y_def)
  then show ?thesis unfolding round_up_def y_def [symmetric] using a by (simp add: b add_mult_distrib)
qed

lemma round_up_0: "0 < a \<Longrightarrow> round_up a 0 = 0"
  by (simp add: round_up_def)

lemma checked_add_u64_Some: "checked_add_u64 a b = Some c \<longleftrightarrow> unat a + unat b \<le> u64_max \<and> unat c = unat a + unat b"
proof (cases "unat a + unat b \<le> u64_max")
  case True
  then have "unat (a + b) = unat a + unat b" by (subst unat_add_lem [THEN iffD1]) simp_all
  with True show ?thesis by (auto simp: checked_add_u64_def word_unat_eq_iff)
qed (simp add: checked_add_u64_def)

section \<open>Placing leaders one after the other\<close>

text \<open>The reference: offsets and end of a list of lengths, from a position.\<close>

fun place :: "nat \<Rightarrow> nat list \<Rightarrow> nat \<Rightarrow> nat list \<times> nat" where
  "place a [] x = ([], x)"
| "place a (len # lens) x =
     (case place a lens (round_up a x + len) of (os, e) \<Rightarrow> (round_up a x # os, e))"

lemma length_place [simp]: "length (fst (place a lens x)) = length lens"
  by (induction a lens x rule: place.induct) (auto simp: case_prod_unfold)

lemma place_append:
  "place a (xs @ ys) x =
     (fst (place a xs x) @ fst (place a ys (snd (place a xs x))), snd (place a ys (snd (place a xs x))))"
  by (induction a xs x rule: place.induct) (auto simp: case_prod_unfold)

lemma place_shift:
  "0 < a \<Longrightarrow> a dvd b \<Longrightarrow> place a lens (b + x) = (map (\<lambda>o'. b + o') (fst (place a lens x)), b + snd (place a lens x))"
  by (induction a lens x rule: place.induct) (auto simp: case_prod_unfold round_up_add add.assoc)

text \<open>The next piece goes to the same place from the end of a run and from its aligned base.\<close>

lemma place_round_up:
  "0 < a \<Longrightarrow> lens \<noteq> [] \<Longrightarrow> place a lens (round_up a x) = place a lens x"
proof -
  assume a: "0 < a" and ne: "lens \<noteq> []"
  have "round_up a (round_up a x) = round_up a x"
    using round_up_add [OF a round_up_props(1) [OF a], of x 0] round_up_0 [OF a] by simp
  with ne show ?thesis by (cases lens) (auto simp: case_prod_unfold)
qed

lemma place_end_ge: "0 < a \<Longrightarrow> y \<le> snd (place a ls y)"
proof (induction ls arbitrary: y)
  case (Cons len ls)
  then have "round_up a y + len \<le> snd (place a ls (round_up a y + len))" by blast
  with round_up_props(2) [OF Cons.prems, of y] show ?case by (simp add: case_prod_unfold)
qed simp

lemma place_dvd: "0 < a \<Longrightarrow> i < length lens \<Longrightarrow> a dvd fst (place a lens x) ! i"
  by (induction lens arbitrary: x i) (auto simp: case_prod_unfold nth_Cons round_up_def split: nat.split)

lemma place_ge: "0 < a \<Longrightarrow> i < length lens \<Longrightarrow> x \<le> fst (place a lens x) ! i"
proof (induction lens arbitrary: x i)
  case (Cons len lens)
  note up = round_up_props(2) [OF Cons.prems(1), of x]
  show ?case
  proof (cases i)
    case (Suc k)
    then have "round_up a x + len \<le> fst (place a lens (round_up a x + len)) ! k" using Cons by simp
    with up Suc show ?thesis by (simp add: case_prod_unfold)
  qed (use up in \<open>simp add: case_prod_unfold\<close>)
qed simp

lemma place_le: "0 < a \<Longrightarrow> i < length lens \<Longrightarrow> fst (place a lens x) ! i + lens ! i \<le> snd (place a lens x)"
proof (induction lens arbitrary: x i)
  case (Cons len lens)
  show ?case
  proof (cases i)
    case 0
    then show ?thesis using place_end_ge [OF Cons.prems(1), of "round_up a x + len" lens] by (simp add: case_prod_unfold)
  next
    case (Suc k)
    then show ?thesis using Cons.IH [of k "round_up a x + len"] Cons.prems by (simp add: case_prod_unfold)
  qed
qed simp

lemma place_sorted:
  assumes "0 < a" and "i < j" and "j < length lens"
  shows "fst (place a lens x) ! i + lens ! i \<le> fst (place a lens x) ! j"
  using assms(2,3)
proof (induction lens arbitrary: x i j)
  case (Cons len lens)
  obtain k where k: "j = Suc k" using Cons.prems by (cases j) auto
  show ?case
  proof (cases i)
    case 0
    then show ?thesis
      using k Cons.prems place_ge [OF assms(1), of k lens "round_up a x + len"] by (simp add: case_prod_unfold)
  next
    case (Suc m)
    then show ?thesis using k Cons.IH [of m k] Cons.prems by (simp add: case_prod_unfold)
  qed
qed simp

section \<open>A run of leaders\<close>

definition lens_of :: "leader list \<Rightarrow> nat list" where
  "lens_of ls = map (length \<circ> ld_bytes) ls"

definition piece_of :: "leader \<Rightarrow> nat \<Rightarrow> output_piece" where
  "piece_of l at = \<lparr>op_output_offset = of_nat at, op_section = ld_section l,
     op_input_offset = ld_input_offset l, op_len = of_nat (length (ld_bytes l))\<rparr>"

definition pieces_at :: "leader list \<Rightarrow> nat list \<Rightarrow> output_piece list" where
  "pieces_at ls os = map (\<lambda>(l, at). piece_of l at) (zip ls os)"

text \<open>A section is at most 4 GiB, so the length of a piece fits.\<close>

definition small_leaders :: "leader list \<Rightarrow> bool" where
  "small_leaders ls \<longleftrightarrow> (\<forall>l\<in>set ls. length (ld_bytes l) \<le> u32_max)"

lemma lens_of_simps [simp]: "lens_of [] = []" "lens_of (l # ls) = length (ld_bytes l) # lens_of ls"
  "lens_of (xs @ ys) = lens_of xs @ lens_of ys" "length (lens_of ls) = length ls"
  by (simp_all add: lens_of_def)

lemma unat_of_nat_u64: "n \<le> u64_max \<Longrightarrow> unat (of_nat n :: u64) = n"
  by (simp add: unat_of_nat)

lemma lay_run_place:
  assumes pow: "is_power_of_two alignment" and "small_leaders ls" and "lay_run alignment ls r = Some r'"
  shows "r' = \<lparr>rl_pieces = rl_pieces r @ pieces_at ls (fst (place (unat alignment) (lens_of ls) (unat (rl_span r)))),
      rl_numbers = rl_numbers r @ map ld_piece ls, rl_span = rl_span r'\<rparr> \<and>
    unat (rl_span r') = snd (place (unat alignment) (lens_of ls) (unat (rl_span r)))"
  using assms(2,3)
proof (induction ls arbitrary: r)
  case Nil
  then show ?case by (simp add: pieces_at_def)
next
  case (Cons l ls)
  let ?a = "unat alignment" and ?n = "length (ld_bytes l)"
  from Cons.prems obtain off sp where off: "align_to (rl_span r) alignment = Some off"
    and sp: "checked_add_u64 off (of_nat ?n) = Some sp"
    and rest: "lay_run alignment ls \<lparr>rl_pieces = rl_pieces r @ [\<lparr>op_output_offset = off, op_section = ld_section l,
        op_input_offset = ld_input_offset l, op_len = of_nat ?n\<rparr>],
      rl_numbers = rl_numbers r @ [ld_piece l], rl_span = sp\<rparr> = Some r'"
    by (auto split: option.splits)
  have uoff: "unat off = round_up ?a (unat (rl_span r))" using off by (simp add: align_to_Some [OF pow])
  moreover have "of_nat (unat off) = off" by simp
  ultimately have o': "off = of_nat (round_up ?a (unat (rl_span r)))" by simp
  have "?n \<le> u64_max" using Cons.prems(1) by (simp add: small_leaders_def)
  then have usp: "unat sp = round_up ?a (unat (rl_span r)) + ?n"
    using sp uoff by (simp add: checked_add_u64_Some unat_of_nat_u64)
  have "small_leaders ls" using Cons.prems(1) by (simp add: small_leaders_def)
  from Cons.IH [OF this rest] show ?case
    by (simp add: usp case_prod_unfold pieces_at_def piece_of_def o')
qed

text \<open>The sequential layout succeeds whenever its end, rounded up, fits.\<close>

lemma lay_run_succeeds:
  assumes pow: "is_power_of_two alignment" and "small_leaders ls"
    and "snd (place (unat alignment) (lens_of ls) (unat (rl_span r))) + (unat alignment - 1) \<le> u64_max"
  shows "\<exists>r'. lay_run alignment ls r = Some r'"
  using assms(2,3)
proof (induction ls arbitrary: r)
  case (Cons l ls)
  let ?a = "unat alignment" and ?n = "length (ld_bytes l)"
  have a: "0 < ?a" by (rule alignment_pos [OF pow])
  define u where "u = round_up ?a (unat (rl_span r))"
  have fits: "snd (place ?a (lens_of ls) (u + ?n)) + (?a - 1) \<le> u64_max"
    using Cons.prems(2) by (simp add: case_prod_unfold u_def)
  have le: "u + ?n \<le> snd (place ?a (lens_of ls) (u + ?n))" by (rule place_end_ge [OF a])
  have ge: "unat (rl_span r) \<le> u" using round_up_props(2) [OF a] by (simp add: u_def)
  have "align_to (rl_span r) alignment = Some (of_nat u)"
    unfolding align_to_Some [OF pow] using ge le fits by (simp add: u_def [symmetric] unat_of_nat_u64)
  moreover have n: "?n \<le> u64_max" using Cons.prems(1) by (simp add: small_leaders_def)
  then have "checked_add_u64 (of_nat u) (of_nat ?n) = Some (of_nat (u + ?n))"
    unfolding checked_add_u64_Some using le fits by (simp add: unat_of_nat_u64 del: of_nat_add)
  moreover have "unat (of_nat (u + ?n) :: u64) = u + ?n" using le fits by (intro unat_of_nat_u64) linarith
  ultimately show ?case
    using Cons.IH [of "\<lparr>rl_pieces = rl_pieces r @ [\<lparr>op_output_offset = of_nat u, op_section = ld_section l,
        op_input_offset = ld_input_offset l, op_len = of_nat ?n\<rparr>],
      rl_numbers = rl_numbers r @ [ld_piece l], rl_span = of_nat (u + ?n)\<rparr>"] Cons.prems(1) fits
    by (simp add: small_leaders_def del: of_nat_add)
qed simp

section \<open>The runs of a group\<close>

lemma member_runs_cover: "concat (map (\<lambda>(a, b). [a..<b]) (member_runs piece_base members)) = [0..<length members]"
proof -
  let ?f = "\<lambda>(pos, section) (runs, run_start, run_pieces).
    let run_pieces = run_pieces + (piece_base ! (section + 1) - piece_base ! section)
    in if run_pieces \<ge> PIECES_PER_RUN then (runs @ [(run_start, pos + 1)], pos + 1, 0)
       else (runs, run_start, run_pieces)"
  let ?st = "\<lambda>xs. fold ?f (List.enumerate 0 xs) ([], 0, 0)"
  have inv: "concat (map (\<lambda>(a, b). [a..<b]) (fst (?st xs))) = [0..<fst (snd (?st xs))] \<and> fst (snd (?st xs)) \<le> length xs" for xs
  proof (induction xs rule: rev_induct)
    case (snoc x xs)
    obtain runs run_start k where st: "?st xs = (runs, run_start, k)" by (cases "?st xs")
    have step: "?st (xs @ [x]) = ?f (length xs, x) (runs, run_start, k)"
      using st by (simp add: enumerate_append_eq)
    have "[0..<run_start] @ [run_start..<Suc (length xs)] = [0..<Suc (length xs)]"
      using snoc st upt_add_eq_append [of 0 run_start "Suc (length xs) - run_start"] by simp
    with snoc st show ?case unfolding step by (simp add: Let_def del: upt_Suc)
  qed simp
  define st where "st = ?st members"
  have st: "concat (map (\<lambda>(a, b). [a..<b]) (fst st)) = [0..<fst (snd st)]" "fst (snd st) \<le> length members"
    using inv [of members] by (simp_all only: st_def)
  moreover have "[0..<fst (snd st)] @ [fst (snd st)..<length members] = [0..<length members]"
    using st(2) upt_add_eq_append [of 0 "fst (snd st)" "length members - fst (snd st)"] by simp
  moreover have "member_runs piece_base members = (if fst (snd st) < length members
      then fst st @ [(fst (snd st), length members)] else fst st)"
    unfolding member_runs_def st_def by (simp add: case_prod_unfold Let_def)
  ultimately show ?thesis by auto
qed

lemma sub_slice_upt: "b \<le> length xs \<Longrightarrow> sub_slice xs a b = map ((!) xs) [a..<b]"
  by (rule nth_equalityI) (auto simp: nth_sub_slice)

lemma member_runs_slices:
  "concat (map (\<lambda>(a, b). sub_slice members a b) (member_runs piece_base members)) = members"
proof -
  have "b \<le> length members" if "(a, b) \<in> set (member_runs piece_base members)" "a < b" for a b
  proof -
    have "b - 1 \<in> set (concat (map (\<lambda>(a, b). [a..<b]) (member_runs piece_base members)))"
      using that by (auto intro!: bexI [of _ "(a, b)"])
    then show ?thesis unfolding member_runs_cover using that(2) by auto
  qed
  then have "(case r of (a, b) \<Rightarrow> sub_slice members a b) = map ((!) members) (case r of (a, b) \<Rightarrow> [a..<b])"
    if "r \<in> set (member_runs piece_base members)" for r
    using that sub_slice_upt [of "snd r" members "fst r"]
    by (cases "fst r < snd r") (auto simp: sub_slice_def split: prod.split)
  then have "concat (map (\<lambda>(a, b). sub_slice members a b) (member_runs piece_base members)) =
      concat (map (\<lambda>r. map ((!) members) (case r of (a, b) \<Rightarrow> [a..<b])) (member_runs piece_base members))"
    by (intro arg_cong [where f = concat] map_cong refl) auto
  also have "\<dots> = map ((!) members) (concat (map (\<lambda>(a, b). [a..<b]) (member_runs piece_base members)))"
    by (simp add: map_concat comp_def)
  also have "\<dots> = members" unfolding member_runs_cover by (rule map_nth)
  finally show ?thesis .
qed

definition empty_run :: run_layout where
  "empty_run = \<lparr>rl_pieces = [], rl_numbers = [], rl_span = 0\<rparr>"

lemma pieces_at_Nil [simp]: "pieces_at [] os = []" "pieces_at ls [] = []"
  by (simp_all add: pieces_at_def)

lemma pieces_at_append: "length os = length xs \<Longrightarrow> pieces_at (xs @ ys) (os @ ps) = pieces_at xs os @ pieces_at ys ps"
  by (simp add: pieces_at_def)

lemma shift_pieces:
  "map (\<lambda>p. p\<lparr>op_output_offset := op_output_offset p + base\<rparr>) (pieces_at ls os) =
     pieces_at ls (map (\<lambda>x. unat base + x) os)"
  by (rule nth_equalityI) (auto simp: pieces_at_def piece_of_def add.commute)

lemma run_bases_place:
  assumes pow: "is_power_of_two alignment"
    and "list_all2 (\<lambda>ls r. small_leaders ls \<and> lay_run alignment ls empty_run = Some r) Ls rs"
    and "run_bases alignment rs nxt sz = Some (bases, sz')"
    and "unat nxt = round_up (unat alignment) (unat sz)"
  shows "concat (map (\<lambda>(run, base). shift_run run base) (zip rs bases)) =
      pieces_at (concat Ls) (fst (place (unat alignment) (lens_of (concat Ls)) (unat sz))) \<and>
    unat sz' = snd (place (unat alignment) (lens_of (concat Ls)) (unat sz)) \<and> length bases = length rs"
  using assms(2-4)
proof (induction Ls rs arbitrary: nxt sz bases rule: list_all2_induct)
  case Nil
  then show ?case by simp
next
  case (Cons ls Ls r rs)
  let ?a = "unat alignment"
  have a: "0 < ?a" by (rule alignment_pos [OF pow])
  have small: "small_leaders ls" and lay: "lay_run alignment ls empty_run = Some r" using Cons.hyps by auto
  note r = lay_run_place [OF pow small lay]
  have pieces: "rl_pieces r = pieces_at ls (fst (place ?a (lens_of ls) 0))"
    and span: "unat (rl_span r) = snd (place ?a (lens_of ls) 0)"
    using arg_cong [OF conjunct1 [OF r], of rl_pieces] conjunct2 [OF r] by (simp_all add: empty_run_def)
  show ?case
  proof (cases "ls = []")
    case True
    then have "rl_pieces r = []" using pieces by simp
    with Cons.prems obtain bs where bs: "run_bases alignment rs nxt sz = Some (bs, sz')" "bases = nxt # bs" by auto
    show ?thesis using Cons.IH [OF bs(1) Cons.prems(2)] bs(2) True \<open>rl_pieces r = []\<close> by (simp add: shift_run_def)
  next
    case False
    moreover have "length (rl_pieces r) = length ls" by (simp add: pieces pieces_at_def)
    ultimately have ne: "rl_pieces r \<noteq> []" "lens_of ls \<noteq> []" by (auto simp: lens_of_def)
    with Cons.prems obtain s1 n1 bs where s1: "checked_add_u64 nxt (rl_span r) = Some s1"
      and n1: "align_to s1 alignment = Some n1" and bs: "run_bases alignment rs n1 s1 = Some (bs, sz')" "bases = nxt # bs"
      by (auto split: option.splits)
    have dvd: "?a dvd unat nxt" using Cons.prems(2) round_up_props(1) [OF a] by simp
    have "place ?a (lens_of ls) (unat sz) = place ?a (lens_of ls) (unat nxt)"
      unfolding Cons.prems(2) by (rule place_round_up [OF a ne(2), symmetric])
    also have "\<dots> = (map (\<lambda>x. unat nxt + x) (fst (place ?a (lens_of ls) 0)), unat nxt + snd (place ?a (lens_of ls) 0))"
      using place_shift [OF a dvd, of "lens_of ls" 0] by simp
    finally have pl: "fst (place ?a (lens_of ls) (unat sz)) = map (\<lambda>x. unat nxt + x) (fst (place ?a (lens_of ls) 0))"
      "snd (place ?a (lens_of ls) (unat sz)) = unat nxt + snd (place ?a (lens_of ls) 0)" by simp_all
    have "unat s1 = snd (place ?a (lens_of ls) (unat sz))"
      using s1 span pl(2) by (simp add: checked_add_u64_Some)
    moreover have "unat n1 = round_up ?a (unat s1)" using n1 by (simp add: align_to_Some [OF pow])
    ultimately show ?thesis
      using Cons.IH [OF bs(1)] bs(2) pl
      by (simp add: shift_run_def pieces shift_pieces place_append pieces_at_append)
  qed
qed

text \<open>The leaders of a group in input order, and the sequential placement of all of them.\<close>

definition group_leaders :: "merge_input list \<Rightarrow> usize list \<Rightarrow> u32 list \<Rightarrow> usize list \<Rightarrow> leader list" where
  "group_leaders inputs piece_base leader members = concat (map (section_leaders inputs piece_base leader) members)"

lemma group_leaders_runs:
  "concat (map (\<lambda>(a, b). concat (map (section_leaders inputs piece_base leader) (sub_slice members a b)))
     (member_runs piece_base members)) = group_leaders inputs piece_base leader members"
proof -
  have "concat (map (\<lambda>(a, b). concat (map f (sub_slice members a b))) runs) =
      concat (map f (concat (map (\<lambda>(a, b). sub_slice members a b) runs)))" for f runs
    by (induction runs) auto
  from this [of "section_leaders inputs piece_base leader" "member_runs piece_base members"]
  show ?thesis unfolding member_runs_slices group_leaders_def .
qed

lemma stores_concat:
  "list_all2 (\<lambda>r ps. length (rl_numbers r) = length ps) rs pss \<Longrightarrow>
   concat (map (\<lambda>(run, pieces). zip (rl_numbers run) (map op_output_offset pieces)) (zip rs pss)) =
     zip (concat (map rl_numbers rs)) (map op_output_offset (concat pss))"
  by (induction rs pss rule: list_all2_induct) auto

lemma lay_runs_facts:
  assumes pow: "is_power_of_two alignment"
    and "list_all2 (\<lambda>ls r. small_leaders ls \<and> lay_run alignment ls empty_run = Some r) Ls rs"
  shows "concat (map rl_numbers rs) = map ld_piece (concat Ls)"
    "length bases = length rs \<Longrightarrow>
       list_all2 (\<lambda>r ps. length (rl_numbers r) = length ps) rs (map (\<lambda>(run, base). shift_run run base) (zip rs bases))"
proof -
  have one: "rl_numbers r = map ld_piece ls \<and> length (rl_pieces r) = length ls"
    if "small_leaders ls" "lay_run alignment ls empty_run = Some r" for ls r
    using arg_cong [OF conjunct1 [OF lay_run_place [OF pow that]], of rl_numbers]
      arg_cong [OF conjunct1 [OF lay_run_place [OF pow that]], of rl_pieces]
    by (simp add: empty_run_def pieces_at_def)
  show "concat (map rl_numbers rs) = map ld_piece (concat Ls)"
    using assms(2) by (induction Ls rs rule: list_all2_induct) (auto dest: one)
  show "list_all2 (\<lambda>r ps. length (rl_numbers r) = length ps) rs (map (\<lambda>(run, base). shift_run run base) (zip rs bases))"
    if "length bases = length rs"
    using assms(2) that
  proof (induction Ls rs arbitrary: bases rule: list_all2_induct)
    case (Cons ls Ls r rs)
    then show ?case using one [of ls r] by (cases bases) (auto simp: shift_run_def)
  qed simp
qed

lemma in_runs_sequential:
  fixes inputs piece_base leader members
  defines "ls \<equiv> group_leaders inputs piece_base leader members"
  assumes pow: "is_power_of_two (mg_alignment grp)" and small: "small_leaders ls"
    and ok: "layout_group_in_runs grp members inputs piece_base leader out = Ok (mg, out')"
  shows "md_pieces mg = pieces_at ls (fst (place (unat (mg_alignment grp)) (lens_of ls) 0)) \<and>
    unat (md_size mg) = snd (place (unat (mg_alignment grp)) (lens_of ls) 0) \<and> md_alignment mg = mg_alignment grp \<and>
    out' = store_offsets (zip (map ld_piece ls) (map of_nat (fst (place (unat (mg_alignment grp)) (lens_of ls) 0)))) out"
proof -
  let ?al = "mg_alignment grp"
  define Ls where "Ls = map (\<lambda>(a, b). concat (map (section_leaders inputs piece_base leader) (sub_slice members a b)))
    (member_runs piece_base members)"
  define local where "local = map (\<lambda>ls. lay_run ?al ls empty_run) Ls"
  have all: "concat Ls = ls" by (simp add: group_leaders_runs ls_def Ls_def)
  have small_run: "small_leaders l" if "l \<in> set Ls" for l
  proof -
    have "set l \<subseteq> set ls" unfolding all [symmetric] using that by force
    then show ?thesis using small by (auto simp: small_leaders_def)
  qed
  have local: "map (\<lambda>(a, b). lay_run ?al (concat (map (section_leaders inputs piece_base leader) (sub_slice members a b)))
      \<lparr>rl_pieces = [], rl_numbers = [], rl_span = 0\<rparr>) (member_runs piece_base members) = local"
    by (simp add: local_def Ls_def empty_run_def comp_def case_prod_unfold)
  obtain rs bases sz where rs: "collect_options local = Some rs" and b: "run_bases ?al rs 0 0 = Some (bases, sz)"
    and mg: "mg = \<lparr>md_size = sz, md_alignment = ?al, md_pieces = concat (map (\<lambda>(run, base). shift_run run base) (zip rs bases))\<rparr>"
    and out: "out' = store_offsets (concat (map (\<lambda>(run, pieces). zip (rl_numbers run) (map op_output_offset pieces))
        (zip rs (map (\<lambda>(run, base). shift_run run base) (zip rs bases))))) out"
    using ok unfolding layout_group_in_runs_def Let_def local by (auto split: option.splits)
  have "local = map Some rs" using rs by (simp add: collect_options_Some)
  then have runs: "list_all2 (\<lambda>ls r. small_leaders ls \<and> lay_run ?al ls empty_run = Some r) Ls rs"
    unfolding local_def using small_run [OF nth_mem]
    by (auto simp: list_all2_conv_all_nth list_eq_iff_nth_eq)
  have z: "unat (0 :: u64) = round_up (unat ?al) (unat (0 :: u64))" by (simp add: round_up_0 [OF alignment_pos [OF pow]])
  note pl = run_bases_place [OF pow runs b z, unfolded all]
  note facts = lay_runs_facts [OF pow runs, unfolded all]
  have "map op_output_offset (pieces_at ls os) = map of_nat os" if "length os = length ls" for os
    using that by (intro nth_equalityI) (simp_all add: pieces_at_def piece_of_def)
  then show ?thesis
    using pl facts by (simp add: mg out stores_concat [OF facts(2)])
qed

section \<open>The writer\<close>

text \<open>The contents the writer is meant to produce: zeros up to each piece, the piece, zeros to the end.\<close>

fun contents :: "split_section list \<Rightarrow> nat \<Rightarrow> output_piece list \<Rightarrow> nat \<Rightarrow> u8 list" where
  "contents splits at [] n = replicate (n - at) 0"
| "contents splits at (p # ps) n =
     replicate (unat (op_output_offset p) - at) 0 @ piece_source splits p @
       contents splits (unat (op_output_offset p) + length (piece_source splits p)) ps n"

text \<open>Pieces in increasing order without overlap, from \<open>at\<close> to \<open>n\<close>.\<close>

fun in_order :: "split_section list \<Rightarrow> nat \<Rightarrow> output_piece list \<Rightarrow> nat \<Rightarrow> bool" where
  "in_order splits at [] n \<longleftrightarrow> at \<le> n"
| "in_order splits at (p # ps) n \<longleftrightarrow>
     at \<le> unat (op_output_offset p) \<and> in_order splits (unat (op_output_offset p) + length (piece_source splits p)) ps n"

lemma in_order_le: "in_order splits at ps n \<Longrightarrow> at \<le> n"
  by (induction ps arbitrary: at) force+

lemma length_contents: "in_order splits at ps n \<Longrightarrow> length (contents splits at ps n) = n - at"
proof (induction ps arbitrary: at)
  case (Cons p ps)
  then show ?case using in_order_le [of splits _ ps n] by fastforce
qed simp

lemma splice_fill:
  assumes "c \<le> a" and "a + length bs \<le> length xs"
  shows "fill_zero (splice xs a bs) c a = take c xs @ replicate (a - c) 0 @ bs @ drop (a + length bs) xs"
  using assms by (simp add: fill_zero_def splice_def min_def)

lemma write_loop_contents:
  assumes "in_order splits (unat base + cursor) pieces (unat base + length out)" and "unat base + length out \<le> u64_max"
  shows "(case write_loop splits base pieces cursor out of (out', cursor') \<Rightarrow> fill_zero out' cursor' (length out')) =
    take cursor out @ contents splits (unat base + cursor) pieces (unat base + length out)"
  using assms
proof (induction pieces arbitrary: cursor out)
  case Nil
  then show ?case by (simp add: fill_zero_def splice_def)
next
  case (Cons p ps)
  let ?bs = "piece_source splits p" and ?o = "unat (op_output_offset p)"
  define s where "s = ?o - unat base"
  have o: "unat base + cursor \<le> ?o" and rest: "in_order splits (?o + length ?bs) ps (unat base + length out)"
    using Cons.prems by auto
  have os: "?o = unat base + s" using o by (simp add: s_def)
  have s: "unat (op_output_offset p - base) = s" using os by (simp add: unat_sub word_le_nat_alt)
  have "?o + length ?bs \<le> unat base + length out" by (rule in_order_le [OF rest])
  then have fit: "s + length ?bs \<le> length out" "cursor \<le> s" using o by (simp_all add: os)
  then have stop: "saturating_add_usize s (length ?bs) = s + length ?bs"
    using Cons.prems(2) by (simp add: saturating_add_usize_def)
  define out1 where "out1 = take cursor out @ replicate (s - cursor) 0 @ ?bs @ drop (s + length ?bs) out"
  have out1: "fill_zero (splice out s ?bs) (min cursor s) s = out1"
    using splice_fill [OF fit(2,1)] fit(2) by (simp add: out1_def min_def)
  have len: "length out1 = length out" using fit by (simp add: out1_def)
  have step: "write_loop splits base (p # ps) cursor out = write_loop splits base ps (s + length ?bs) out1"
    using fit(1) by (simp add: s Let_def stop out1)
  have tk: "take (s + length ?bs) out1 = take cursor out @ replicate (s - cursor) 0 @ ?bs"
    using fit by (simp add: out1_def)
  show ?case
    unfolding step using Cons.IH [of "s + length ?bs" out1] rest Cons.prems(2)
    by (simp add: len tk os add.assoc)
qed

lemma in_order_append: "in_order splits at (xs @ ys) n \<Longrightarrow> ys \<noteq> [] \<Longrightarrow>
    in_order splits at xs (unat (op_output_offset (hd ys))) \<and> in_order splits (unat (op_output_offset (hd ys))) ys n"
  by (induction xs arbitrary: at) (auto simp: neq_Nil_conv)

lemma contents_append: "in_order splits at (xs @ ys) n \<Longrightarrow> ys \<noteq> [] \<Longrightarrow>
    contents splits at (xs @ ys) n =
      contents splits at xs (unat (op_output_offset (hd ys))) @ contents splits (unat (op_output_offset (hd ys))) ys n"
  by (induction xs arbitrary: at) (auto simp: neq_Nil_conv)

lemma write_pieces_contents:
  assumes "in_order splits (unat base) pieces (unat base + length out)" and "unat base + length out \<le> u64_max"
  shows "write_pieces splits pieces base out = contents splits (unat base) pieces (unat base + length out)"
  using assms
proof (induction splits pieces base out rule: write_pieces.induct)
  case (1 splits pieces base out)
  show ?case
  proof (cases "length pieces > MIN_PIECES_PER_TASK")
    case False
    then show ?thesis
      using write_loop_contents [of splits base 0 pieces out] "1.prems" by (simp add: write_pieces.simps [of splits pieces])
  next
    case True
    let ?m = "length pieces div 2"
    let ?l = "take ?m pieces" and ?r = "drop ?m pieces"
    let ?sp = "op_output_offset (pieces ! ?m)"
    have r: "?r \<noteq> []" "hd ?r = pieces ! ?m" using True by (auto simp: hd_drop_conv_nth MIN_PIECES_PER_TASK_def)
    have io: "in_order splits (unat base) (?l @ ?r) (unat base + length out)" using "1.prems"(1) by simp
    note sides = in_order_append [OF io r(1), unfolded r(2)]
    have b: "unat base \<le> unat ?sp" "unat ?sp \<le> unat base + length out" using sides in_order_le by blast+
    then have at: "unat (?sp - base) = unat ?sp - unat base" by (simp add: unat_sub word_le_nat_alt)
    define at' where "at' = unat ?sp - unat base"
    have at': "min (unat (?sp - base)) (length out) = at'" "at' \<le> length out" "unat base + at' = unat ?sp"
      "unat ?sp + (length out - at') = unat base + length out"
      using b at by (auto simp: at'_def)
    have len: "length (take at' out) = at'" using at'(2) by simp
    have left: "write_pieces splits ?l base (take at' out) = contents splits (unat base) ?l (unat ?sp)"
      using "1.IH"(1) [OF True refl refl refl, unfolded at'(1) len at'(3)] sides b(2) "1.prems"(2) by simp
    have right: "write_pieces splits ?r ?sp (drop at' out) = contents splits (unat ?sp) ?r (unat base + length out)"
      using "1.IH"(2) [OF True refl refl refl, unfolded at'(1) length_drop at'(4)] sides "1.prems"(2) by simp
    have "write_pieces splits pieces base out = write_pieces splits ?l base (take at' out) @ write_pieces splits ?r ?sp (drop at' out)"
      using True at'(1) by (simp add: write_pieces.simps [of splits pieces] Let_def)
    then show ?thesis using left right contents_append [OF io r(1), unfolded r(2)] by simp
  qed
qed

lemma contents_piece:
  assumes "in_order splits at ps n" and "i < length ps"
  shows "at \<le> unat (op_output_offset (ps ! i))"
    "sub_slice (contents splits at ps n) (unat (op_output_offset (ps ! i)) - at)
       (unat (op_output_offset (ps ! i)) - at + length (piece_source splits (ps ! i))) = piece_source splits (ps ! i)"
proof -
  have "at \<le> unat (op_output_offset (ps ! i)) \<and>
    sub_slice (contents splits at ps n) (unat (op_output_offset (ps ! i)) - at)
       (unat (op_output_offset (ps ! i)) - at + length (piece_source splits (ps ! i))) = piece_source splits (ps ! i)"
    using assms
  proof (induction ps arbitrary: at i)
    case (Cons p ps)
    show ?case
    proof (cases i)
      case 0
      then show ?thesis using Cons.prems by (simp add: sub_slice_def)
    next
      case (Suc k)
      let ?e = "unat (op_output_offset p) + length (piece_source splits p)"
      let ?q = "ps ! k"
      have k: "in_order splits ?e ps n" "k < length ps" using Cons.prems Suc by auto
      note ih = conjunct1 [OF Cons.IH [OF k]] conjunct2 [OF Cons.IH [OF k]]
      define d where "d = unat (op_output_offset ?q) - ?e"
      define z where "z = unat (op_output_offset p) - at"
      have q: "unat (op_output_offset ?q) - at = z + length (piece_source splits p) + d" "at \<le> unat (op_output_offset ?q)"
        using ih(1) Cons.prems(1) by (simp_all add: d_def z_def)
      have "contents splits at (p # ps) n = (replicate z 0 @ piece_source splits p) @ contents splits ?e ps n"
        by (simp add: z_def)
      then show ?thesis using ih(2) q Suc by (simp add: sub_slice_def d_def [symmetric])
    qed
  qed simp
  then show "at \<le> unat (op_output_offset (ps ! i))"
    "sub_slice (contents splits at ps n) (unat (op_output_offset (ps ! i)) - at)
       (unat (op_output_offset (ps ! i)) - at + length (piece_source splits (ps ! i))) = piece_source splits (ps ! i)"
    by blast+
qed

end
