(* ===== verification/MergeTail.thy ===== *)
theory MergeTail
  imports MergeLayout
begin

text \<open>
  Tail merging (src/src/passes/merge.rs, \<open>layout_group\<close>): every leader either owns storage or is linked to
  an owner it is a suffix of, at an aligned distance; owners are placed one after the other and the
  others point into them.
\<close>

section \<open>Links\<close>

definition linked :: "leader list \<Rightarrow> u64 \<Rightarrow> (u32 \<times> u64) list \<Rightarrow> nat set \<Rightarrow> nat \<Rightarrow> bool" where
  "linked ls alignment link seen p \<longleftrightarrow> link ! p = (of_nat p, 0) \<or>
     (\<exists>w d. link ! p = (of_nat w, d) \<and> w \<in> seen \<and> w < length ls \<and> w \<noteq> p \<and> link ! w = (of_nat w, 0) \<and>
        suffix (ld_bytes (ls ! p)) (ld_bytes (ls ! w)) \<and>
        unat d = length (ld_bytes (ls ! w)) - length (ld_bytes (ls ! p)) \<and> unat alignment dvd unat d)"

lemma and_mask_dvd:
  assumes "is_power_of_two alignment"
  shows "d AND (alignment - 1) = 0 \<longleftrightarrow> unat alignment dvd unat d"
proof -
  obtain k where k: "k < 64" "alignment = push_bit k 1" "unat alignment = 2 ^ k"
    using assms by (rule power_of_twoE)
  then have "d AND (alignment - 1) = take_bit k d" by (simp add: take_bit_eq_mask mask_eq_exp_minus_1 push_bit_eq_mult)
  then have "d AND (alignment - 1) = 0 \<longleftrightarrow> unat (take_bit k d) = 0" by (simp add: unat_eq_zero)
  also have "\<dots> \<longleftrightarrow> take_bit k (unat d) = 0" by (simp only: unsigned_take_bit_eq)
  also have "\<dots> \<longleftrightarrow> unat alignment dvd unat d" by (simp only: k(3) take_bit_eq_0_iff)
  finally show ?thesis .
qed

lemma linked_update:
  assumes "linked ls alignment link seen p" and "p \<noteq> q" and "q \<notin> seen" and "seen \<subseteq> seen'"
  shows "linked ls alignment (link[q := x]) seen' p"
proof -
  have keep: "link[q := x] ! w = link ! w" if "w \<in> seen" for w using that assms(3) by (metis nth_list_update_neq)
  have same: "link[q := x] ! p = link ! p" using assms(2) by simp
  consider "link ! p = (of_nat p, 0)" | w d where "link ! p = (of_nat w, d)" "w \<in> seen" "w < length ls" "w \<noteq> p"
      "link ! w = (of_nat w, 0)" "suffix (ld_bytes (ls ! p)) (ld_bytes (ls ! w))"
      "unat d = length (ld_bytes (ls ! w)) - length (ld_bytes (ls ! p))" "unat alignment dvd unat d"
    using assms(1) unfolding linked_def by blast
  then show ?thesis
  proof cases
    case 2
    then show ?thesis unfolding linked_def same using keep assms(4)
      by (intro disjI2 exI [of _ w] exI [of _ d]) auto
  qed (simp add: linked_def same)
qed

lemma tail_links_spec:
  assumes pow: "is_power_of_two alignment" and small: "small_leaders ls" and n: "length ls \<le> u32_max"
    and "length link = length ls" and "distinct order" and "\<forall>p\<in>set order. unat p < length ls \<and> link ! unat p = (p, 0)"
    and "\<forall>p<length ls. of_nat p \<notin> set order \<longrightarrow> linked ls alignment link {q. of_nat q \<notin> set order} p"
    and "\<forall>w. owner = Some w \<longrightarrow> unat w < length ls \<and> w \<notin> set order \<and> link ! unat w = (w, 0)"
  shows "length (tail_links ls alignment order owner link) = length ls \<and>
    (\<forall>p<length ls. linked ls alignment (tail_links ls alignment order owner link) UNIV p)"
  using assms(4-)
proof (induction order arbitrary: owner link)
  case Nil
  then show ?case by simp
next
  case (Cons pos order)
  let ?seen = "{q. of_nat q \<notin> set (pos # order)}" and ?seen' = "{q. of_nat q \<notin> set order}"
  have unat_nat: "unat (of_nat q :: u32) = q" if "q < length ls" for q using that n by (simp add: unat_of_nat)
  have pos: "unat pos < length ls" "link ! unat pos = (pos, 0)" "pos \<notin> set order" using Cons.prems by auto
  have linked: "linked ls alignment link ?seen q" if "q < length ls" "of_nat q \<notin> set (pos # order)" for q
    using Cons.prems(4) that by blast
  have sub: "?seen \<subseteq> ?seen'" by auto
  have notseen: "unat pos \<notin> ?seen" by simp
  let ?bytes = "ld_bytes (ls ! unat pos)"
  show ?case
  proof (cases "\<exists>w. owner = Some w \<and> suffix ?bytes (ld_bytes (ls ! unat w)) \<and>
      (of_nat (length (ld_bytes (ls ! unat w)) - length ?bytes) :: u64) AND (alignment - 1) = 0")
    case False
    then have step: "tail_links ls alignment (pos # order) owner link = tail_links ls alignment order (Some pos) link"
      by (auto simp: Let_def split: option.split)
    have "linked ls alignment link ?seen' q" if "q < length ls" "of_nat q \<notin> set order" for q
    proof (cases "of_nat q = pos")
      case True
      then have "q = unat pos" using unat_nat [OF that(1)] by simp
      then show ?thesis using pos by (simp add: linked_def)
    next
      case False
      then show ?thesis using linked [of q] that sub unfolding linked_def by (auto 0 3)
    qed
    then show ?thesis unfolding step using Cons.prems pos by (intro Cons.IH) auto
  next
    case True
    then obtain w where w: "owner = Some w" "suffix ?bytes (ld_bytes (ls ! unat w))" and
      d: "(of_nat (length (ld_bytes (ls ! unat w)) - length ?bytes) :: u64) AND (alignment - 1) = 0" by blast
    define delta :: u64 where "delta = of_nat (length (ld_bytes (ls ! unat w)) - length ?bytes)"
    have w': "unat w < length ls" "w \<notin> set (pos # order)" "link ! unat w = (w, 0)" using Cons.prems(5) w(1) by auto
    have "length (ld_bytes (ls ! unat w)) \<le> u32_max" using small w'(1) by (simp add: small_leaders_def)
    then have du: "unat delta = length (ld_bytes (ls ! unat w)) - length ?bytes"
      unfolding delta_def by (intro unat_of_nat_u64) simp
    let ?link = "link[unat pos := (w, delta)]"
    have step: "tail_links ls alignment (pos # order) owner link = tail_links ls alignment order owner ?link"
      using w d by (simp add: Let_def delta_def)
    have wne: "unat w \<noteq> unat pos" using w'(2) by (auto simp: word_unat_eq_iff)
    have "linked ls alignment ?link ?seen' q" if q: "q < length ls" "of_nat q \<notin> set order" for q
    proof (cases "of_nat q = pos")
      case True
      then have "q = unat pos" using unat_nat [OF q(1)] by simp
      moreover have "linked ls alignment ?link ?seen' (unat pos)"
        unfolding linked_def
        using pos(1) w w' wne du d and_mask_dvd [OF pow, of delta] Cons.prems(1)
        by (intro disjI2 exI [of _ "unat w"] exI [of _ delta]) (auto simp: delta_def)
      ultimately show ?thesis by simp
    next
      case False
      then have "unat pos \<noteq> q" by auto
      with False show ?thesis using linked_update [OF linked [of q] _ notseen sub] q by auto
    qed
    moreover have "\<forall>p\<in>set order. unat p < length ls \<and> ?link ! unat p = (p, 0)"
    proof
      fix p assume p: "p \<in> set order"
      then have "pos \<noteq> p" using pos(3) by blast
      then have "unat pos \<noteq> unat p" by (simp add: word_unat_eq_iff)
      with p show "unat p < length ls \<and> ?link ! unat p = (p, 0)" using Cons.prems(3) by simp
    qed
    moreover have "?link ! unat w = (w, 0)" using wne w'(3) by simp
    ultimately show ?thesis unfolding step using Cons.prems(1,2) w w' by (intro Cons.IH) auto
  qed
qed

section \<open>Placing owners and the others\<close>

definition owners_of :: "(u32 \<times> u64) list \<Rightarrow> nat list \<Rightarrow> nat list" where
  "owners_of link is = filter (\<lambda>i. unat (fst (link ! i)) = i) is"

lemma place_owners_spec:
  assumes pow: "is_power_of_two alignment" and small: "small_leaders ls"
    and "place_owners ls alignment (map (\<lambda>i. (i, link ! i)) is) (offs, sz, pieces) = Some (offs', sz', pieces')"
    and "distinct is" and "\<forall>i\<in>set is. i < length ls" and "length offs = length ls"
  defines "os \<equiv> fst (place (unat alignment) (lens_of (map ((!) ls) (owners_of link is))) (unat sz))"
  shows "pieces' = pieces @ pieces_at (map ((!) ls) (owners_of link is)) os \<and>
    unat sz' = snd (place (unat alignment) (lens_of (map ((!) ls) (owners_of link is))) (unat sz)) \<and>
    length offs' = length ls \<and>
    (\<forall>k<length (owners_of link is). offs' ! (owners_of link is ! k) = of_nat (os ! k)) \<and>
    (\<forall>i. i \<notin> set (owners_of link is) \<longrightarrow> offs' ! i = offs ! i)"
  using assms(3-6) unfolding os_def
proof (induction "is" arbitrary: offs sz pieces)
  case Nil
  then show ?case by (simp add: owners_of_def)
next
  case (Cons i "is")
  let ?a = "unat alignment"
  obtain owner d where link: "link ! i = (owner, d)" by (cases "link ! i")
  show ?case
  proof (cases "unat owner = i")
    case False
    then have "place_owners ls alignment (map (\<lambda>i. (i, link ! i)) is) (offs, sz, pieces) = Some (offs', sz', pieces')"
      using Cons.prems(1) link by simp
    with Cons.IH [OF this] Cons.prems False link show ?thesis by (simp add: owners_of_def)
  next
    case True
    let ?n = "length (ld_bytes (ls ! i))" and ?ow = "owners_of link is"
    from Cons.prems(1) True link obtain st s1 where st: "align_to sz alignment = Some st"
      and s1: "checked_add_u64 st (of_nat ?n) = Some s1"
      and rest: "place_owners ls alignment (map (\<lambda>i. (i, link ! i)) is)
        (offs[i := st], s1, pieces @ [\<lparr>op_output_offset = st, op_section = ld_section (ls ! i),
           op_input_offset = ld_input_offset (ls ! i), op_len = of_nat ?n\<rparr>]) = Some (offs', sz', pieces')"
      by (auto simp: Let_def split: option.splits)
    have ust: "unat st = round_up ?a (unat sz)" using st by (simp add: align_to_Some [OF pow])
    have "of_nat (unat st) = st" by simp
    then have st': "st = of_nat (round_up ?a (unat sz))" unfolding ust by simp
    have "?n \<le> u32_max" using small Cons.prems(3) by (simp only: small_leaders_def) simp
    then have "?n \<le> u64_max" by simp
    then have us1: "unat s1 = round_up ?a (unat sz) + ?n"
      using s1 ust by (simp add: checked_add_u64_Some unat_of_nat_u64)
    have ow: "owners_of link (i # is) = i # ?ow" using True link by (simp add: owners_of_def)
    have i: "i \<notin> set ?ow" "i < length ls" using Cons.prems by (auto simp: owners_of_def)
    note ih = Cons.IH [OF rest, unfolded us1]
    have "length (offs[i := st]) = length ls" using Cons.prems(4) by simp
    note ih = ih [OF _ _ this]
    have "offs' ! i = st" using ih Cons.prems i by simp
    moreover have "offs' ! j = offs ! j" if "j \<notin> set (i # ?ow)" for j using ih Cons.prems that by auto
    ultimately show ?thesis
      using ih Cons.prems unfolding ow
      by (auto simp: case_prod_unfold pieces_at_def piece_of_def st' nth_Cons split: nat.split)
  qed
qed

lemma place_tails_spec:
  assumes "\<forall>p<n. unat (fst (link ! p)) \<noteq> p \<longrightarrow> unat (fst (link ! p)) < n \<and> unat (fst (link ! unat (fst (link ! p)))) = unat (fst (link ! p))"
    and "length link = n" and "length offs = n"
  shows "length (place_tails link offs) = n \<and> (\<forall>p<n. place_tails link offs ! p =
    (if unat (fst (link ! p)) = p then offs ! p else offs ! unat (fst (link ! p)) + snd (link ! p)))"
proof -
  let ?own = "\<lambda>p. unat (fst (link ! p))"
  let ?f = "\<lambda>i offs. if ?own i \<noteq> i then offs[i := offs ! ?own i + snd (link ! i)] else offs"
  have "m \<le> n \<Longrightarrow> length (fold ?f [0..<m] offs) = n \<and> (\<forall>p<n. fold ?f [0..<m] offs ! p =
      (if ?own p \<noteq> p \<and> p < m then offs ! ?own p + snd (link ! p) else offs ! p))" for m
  proof (induction m)
    case 0
    then show ?case using assms(3) by simp
  next
    case (Suc m)
    then have ih: "length (fold ?f [0..<m] offs) = n"
      "\<And>p. p < n \<Longrightarrow> fold ?f [0..<m] offs ! p = (if ?own p \<noteq> p \<and> p < m then offs ! ?own p + snd (link ! p) else offs ! p)"
      by auto
    have own: "?own m < n \<and> ?own (?own m) = ?own m" if "?own m \<noteq> m" using assms(1) Suc.prems that by simp
    have "fold ?f [0..<Suc m] offs = ?f m (fold ?f [0..<m] offs)" by simp
    moreover have "?f m (fold ?f [0..<m] offs) ! p =
        (if ?own p \<noteq> p \<and> p < Suc m then offs ! ?own p + snd (link ! p) else offs ! p)" if "p < n" for p
      using ih(1) ih(2) [OF that] ih(2) [of "?own m"] own that Suc.prems by (auto simp: nth_list_update less_Suc_eq)
    ultimately show ?case using ih(1) by simp
  qed
  from this [of n] show ?thesis
    unfolding place_tails_def enumerate_upt fold_map assms(2)
    by (simp add: comp_def case_prod_unfold cong: if_cong)
qed

section \<open>The contract of a layout\<close>

text \<open>
  What a layout of a group promises: the pieces that own storage come from leaders, follow each
  other without overlap and end by the size, and every leader has an aligned offset at which its
  bytes stand inside one of them.
\<close>

definition placed :: "nat \<Rightarrow> leader list \<Rightarrow> merged_group \<Rightarrow> nat list \<Rightarrow> bool" where
  "placed a ls mg offs \<longleftrightarrow> length offs = length ls \<and>
     (\<exists>ws os. md_pieces mg = pieces_at ws os \<and> length os = length ws \<and> set ws \<subseteq> set ls \<and>
        (\<forall>i<length ws. \<forall>j<i. os ! j + length (ld_bytes (ws ! j)) \<le> os ! i) \<and>
        (\<forall>i<length ws. os ! i + length (ld_bytes (ws ! i)) \<le> unat (md_size mg)) \<and>
        (\<forall>k<length ls. a dvd offs ! k \<and>
           (\<exists>i<length ws. \<exists>d. offs ! k = os ! i + d \<and> d + length (ld_bytes (ls ! k)) \<le> length (ld_bytes (ws ! i)) \<and>
              ld_bytes (ls ! k) = sub_slice (ld_bytes (ws ! i)) d (d + length (ld_bytes (ls ! k))))))"

text \<open>A leader's bytes can be read back from the split sections.\<close>

definition sourced :: "split_section list \<Rightarrow> leader \<Rightarrow> bool" where
  "sourced splits l \<longleftrightarrow> (\<forall>at. piece_source splits (piece_of l at) = ld_bytes l)"

lemma pieces_in_order:
  assumes "length os = length ws" and "\<forall>w\<in>set ws. sourced splits w"
    and "\<forall>i<length ws. at \<le> os ! i" and "\<forall>i<length ws. \<forall>j<i. os ! j + length (ld_bytes (ws ! j)) \<le> os ! i"
    and "\<forall>i<length ws. os ! i + length (ld_bytes (ws ! i)) \<le> n" and "n \<le> u64_max" and "at \<le> n"
  shows "in_order splits at (pieces_at ws os) n"
  using assms
proof (induction ws arbitrary: at os)
  case Nil
  then show ?case by simp
next
  case (Cons w ws at oss)
  obtain o' os where oss: "oss = o' # os" using Cons.prems(1) by (cases oss) auto
  note prems = Cons.prems [unfolded oss]
  have o': "at \<le> o'" "o' + length (ld_bytes w) \<le> n" using prems(3,5) by auto
  have src: "piece_source splits (piece_of w o') = ld_bytes w" using prems(2) by (simp add: sourced_def)
  have u: "unat (op_output_offset (piece_of w o')) = o'"
    using o'(2) prems(6) by (simp add: piece_of_def unat_of_nat_u64)
  have next': "\<forall>i<length ws. o' + length (ld_bytes w) \<le> os ! i"
    using prems(4) [rule_format, of "Suc _" 0] by simp
  have "in_order splits (o' + length (ld_bytes w)) (pieces_at ws os) n"
  proof (rule Cons.IH [OF _ _ next'])
    show "\<forall>i<length ws. \<forall>j<i. os ! j + length (ld_bytes (ws ! j)) \<le> os ! i"
    proof (intro allI impI)
      fix i j assume "i < length ws" "j < i"
      then show "os ! j + length (ld_bytes (ws ! j)) \<le> os ! i" using prems(4) [rule_format, of "Suc i" "Suc j"] by simp
    qed
    show "\<forall>i<length ws. os ! i + length (ld_bytes (ws ! i)) \<le> n" using prems(5) by auto
  qed (use prems o' in auto)
  then show ?case using o' by (simp add: oss pieces_at_def src u)
qed

lemma sub_slice_sub_slice:
  assumes "d + m \<le> n"
  shows "sub_slice (sub_slice xs a (a + n)) d (d + m) = sub_slice xs (a + d) (a + d + m)"
proof -
  have "min m (n - d) = m" using assms by simp
  then show ?thesis by (simp add: sub_slice_def drop_take add.commute [of d])
qed

locale group_layout =
  fixes layout :: "merge_group \<Rightarrow> usize list \<Rightarrow> merge_input list \<Rightarrow> usize list \<Rightarrow> u32 list \<Rightarrow> u64 list \<Rightarrow>
    (merged_group \<times> u64 list, input_error) result"
  assumes layout_placed: "is_power_of_two (mg_alignment grp) \<Longrightarrow>
    small_leaders (group_leaders inputs piece_base leader members) \<Longrightarrow>
    length (group_leaders inputs piece_base leader members) \<le> u32_max \<Longrightarrow>
    layout grp members inputs piece_base leader out = Ok (mg, out') \<Longrightarrow>
    \<exists>offs. placed (unat (mg_alignment grp)) (group_leaders inputs piece_base leader members) mg offs \<and>
      out' = store_offsets (zip (map ld_piece (group_leaders inputs piece_base leader members)) (map of_nat offs)) out"
begin

text \<open>The client's view: written to a large enough buffer, every leader's bytes stand at its offset.\<close>

lemma layout_written:
  assumes "is_power_of_two (mg_alignment grp)" and "small_leaders ls" and "length ls \<le> u32_max"
    and ls: "ls = group_leaders inputs piece_base leader members"
    and src: "\<forall>l\<in>set ls. sourced splits l"
    and ok: "layout grp members inputs piece_base leader out = Ok (mg, out')"
  obtains offs where "length offs = length ls" "out' = store_offsets (zip (map ld_piece ls) (map of_nat offs)) out"
    "\<And>k. k < length ls \<Longrightarrow> unat (mg_alignment grp) dvd offs ! k"
    "\<And>k. k < length ls \<Longrightarrow> offs ! k + length (ld_bytes (ls ! k)) \<le> unat (md_size mg)"
    "\<And>k buf. k < length ls \<Longrightarrow> unat (md_size mg) \<le> length buf \<Longrightarrow> length buf \<le> u64_max \<Longrightarrow>
       sub_slice (write_pieces splits (md_pieces mg) 0 buf) (offs ! k) (offs ! k + length (ld_bytes (ls ! k))) = ld_bytes (ls ! k)"
    "\<And>buf. unat (md_size mg) \<le> length buf \<Longrightarrow> length buf \<le> u64_max \<Longrightarrow>
       length (write_pieces splits (md_pieces mg) 0 buf) = length buf"
proof -
  from layout_placed [OF assms(1), of inputs piece_base leader members out mg out'] assms
  obtain offs where offs: "placed (unat (mg_alignment grp)) ls mg offs"
    "out' = store_offsets (zip (map ld_piece ls) (map of_nat offs)) out" by auto
  then obtain ws os where len: "length offs = length ls"
    and w: "md_pieces mg = pieces_at ws os" "length os = length ws" "set ws \<subseteq> set ls"
      "\<forall>i<length ws. \<forall>j<i. os ! j + length (ld_bytes (ws ! j)) \<le> os ! i"
      "\<forall>i<length ws. os ! i + length (ld_bytes (ws ! i)) \<le> unat (md_size mg)"
    and k: "\<And>k. k < length ls \<Longrightarrow> unat (mg_alignment grp) dvd offs ! k \<and>
      (\<exists>i<length ws. \<exists>d. offs ! k = os ! i + d \<and> d + length (ld_bytes (ls ! k)) \<le> length (ld_bytes (ws ! i)) \<and>
         ld_bytes (ls ! k) = sub_slice (ld_bytes (ws ! i)) d (d + length (ld_bytes (ls ! k))))"
    unfolding placed_def by blast
  have io: "in_order splits 0 (md_pieces mg) n" if "unat (md_size mg) \<le> n" "n \<le> u64_max" for n
    unfolding w(1) using w(2-5) src that by (intro pieces_in_order) auto
  have wr: "write_pieces splits (md_pieces mg) 0 buf = contents splits 0 (md_pieces mg) (length buf)"
    if "unat (md_size mg) \<le> length buf" "length buf \<le> u64_max" for buf
    using write_pieces_contents [of splits 0 "md_pieces mg" buf] io [OF that] that by simp
  show thesis
  proof (rule that [OF len offs(2)])
    fix j assume j: "j < length ls"
    then obtain i d where i: "i < length ws" "offs ! j = os ! i + d" "d + length (ld_bytes (ls ! j)) \<le> length (ld_bytes (ws ! i))"
      "ld_bytes (ls ! j) = sub_slice (ld_bytes (ws ! i)) d (d + length (ld_bytes (ls ! j)))" using k by blast
    show "unat (mg_alignment grp) dvd offs ! j" using k [OF j] by blast
    have "os ! i + length (ld_bytes (ws ! i)) \<le> unat (md_size mg)" using w(5) i(1) by blast
    then show "offs ! j + length (ld_bytes (ls ! j)) \<le> unat (md_size mg)" using i(2,3) by linarith
    fix buf :: "u8 list" assume buf: "unat (md_size mg) \<le> length buf" "length buf \<le> u64_max"
    have "os ! i \<le> u64_max" using \<open>os ! i + length (ld_bytes (ws ! i)) \<le> unat (md_size mg)\<close> buf by linarith
    then have piece: "unat (op_output_offset (md_pieces mg ! i)) = os ! i" "i < length (md_pieces mg)"
      "piece_source splits (md_pieces mg ! i) = ld_bytes (ws ! i)"
      using i(1) w(1-3) src by (auto simp: pieces_at_def piece_of_def unat_of_nat_u64 sourced_def subset_iff)
    have "sub_slice (write_pieces splits (md_pieces mg) 0 buf) (os ! i) (os ! i + length (ld_bytes (ws ! i))) = ld_bytes (ws ! i)"
      using contents_piece(2) [OF io [OF buf] piece(2)] wr [OF buf] piece by simp
    then have "sub_slice (sub_slice (write_pieces splits (md_pieces mg) 0 buf) (os ! i) (os ! i + length (ld_bytes (ws ! i))))
        d (d + length (ld_bytes (ls ! j))) = ld_bytes (ls ! j)" using i(4) by simp
    then show "sub_slice (write_pieces splits (md_pieces mg) 0 buf) (offs ! j) (offs ! j + length (ld_bytes (ls ! j))) = ld_bytes (ls ! j)"
      using sub_slice_sub_slice [OF i(3)] i(2) by metis
  next
    fix buf :: "u8 list" assume buf: "unat (md_size mg) \<le> length buf" "length buf \<le> u64_max"
    show "length (write_pieces splits (md_pieces mg) 0 buf) = length buf"
      using wr [OF buf] length_contents [OF io [OF buf]] by simp
  qed
qed

end

interpretation in_runs: group_layout layout_group_in_runs
proof
  fix grp :: merge_group and inputs piece_base leader members out mg out'
  let ?ls = "group_leaders inputs piece_base leader members" and ?a = "unat (mg_alignment grp)"
  assume pow: "is_power_of_two (mg_alignment grp)" and small: "small_leaders ?ls"
    and ok: "layout_group_in_runs grp members inputs piece_base leader out = Ok (mg, out')"
  let ?os = "fst (place ?a (lens_of ?ls) 0)"
  note seq = in_runs_sequential [OF pow small ok]
  have a: "0 < ?a" by (rule alignment_pos [OF pow])
  have lens: "lens_of ?ls ! i = length (ld_bytes (?ls ! i))" if "i < length ?ls" for i using that by (simp add: lens_of_def)
  have "placed ?a ?ls mg ?os"
    unfolding placed_def
  proof (intro conjI exI [of _ ?ls] exI [of _ ?os] allI impI)
    fix i assume i: "i < length ?ls"
    show "?a dvd ?os ! i" using place_dvd [OF a] i by simp
    show "?os ! i + length (ld_bytes (?ls ! i)) \<le> unat (md_size mg)"
      using place_le [OF a, of i "lens_of ?ls" 0] i seq lens by simp
    show "\<exists>j<length ?ls. \<exists>d. ?os ! i = ?os ! j + d \<and> d + length (ld_bytes (?ls ! i)) \<le> length (ld_bytes (?ls ! j)) \<and>
        ld_bytes (?ls ! i) = sub_slice (ld_bytes (?ls ! j)) d (d + length (ld_bytes (?ls ! i)))"
      using i by (intro exI [of _ i] conjI exI [of _ 0]) simp_all
    fix j assume "j < i"
    then show "?os ! j + length (ld_bytes (?ls ! j)) \<le> ?os ! i"
      using place_sorted [OF a, of j i "lens_of ?ls" 0] i lens by simp
  qed (use seq in simp_all)
  then show "\<exists>offs. placed ?a ?ls mg offs \<and> out' = store_offsets (zip (map ld_piece ?ls) (map of_nat offs)) out"
    using seq by blast
qed

lemma sub_slice_suffix: "suffix xs ys \<Longrightarrow> sub_slice ys (length ys - length xs) (length ys - length xs + length xs) = xs"
  by (auto simp: suffix_def sub_slice_def)

text \<open>With tail merging, the links that \<open>tail_links\<close> leaves place every leader.\<close>

lemma tail_layout_placed:
  assumes pow: "is_power_of_two alignment" and small: "small_leaders ls"
    and len: "length link = length ls" and n: "length ls \<le> u32_max"
    and linked: "\<forall>p<length ls. linked ls alignment link UNIV p"
    and pl: "place_owners ls alignment (List.enumerate 0 link) (replicate (length ls) 0, 0, []) = Some (offs, sz, pieces)"
  shows "placed (unat alignment) ls \<lparr>md_size = sz, md_alignment = alignment, md_pieces = pieces\<rparr>
    (map unat (place_tails link offs))"
proof -
  let ?a = "unat alignment" and ?own = "\<lambda>p. unat (fst (link ! p))"
  define ow where "ow = owners_of link [0..<length ls]"
  define ws where "ws = map ((!) ls) ow"
  define os where "os = fst (place ?a (lens_of ws) 0)"
  have a: "0 < ?a" by (rule alignment_pos [OF pow])
  have unat_nat: "unat (of_nat q :: u32) = q" if "q < length ls" for q using that n by (simp add: unat_of_nat)
  have pl': "place_owners ls alignment (map (\<lambda>i. (i, link ! i)) [0..<length ls]) (replicate (length ls) 0, 0, []) = Some (offs, sz, pieces)"
    using pl by (simp add: enumerate_upt len)
  have spec: "pieces = pieces_at ws os" "unat sz = snd (place ?a (lens_of ws) 0)" "length offs = length ls"
    "\<And>k. k < length ow \<Longrightarrow> offs ! (ow ! k) = of_nat (os ! k)"
    using place_owners_spec [OF pow small pl'] by (simp_all add: ow_def ws_def os_def)
  have wlen: "length os = length ws" "length ow = length ws" "set ws \<subseteq> set ls"
    by (auto simp: os_def ws_def ow_def owners_of_def)
  have lens: "lens_of ws ! i = length (ld_bytes (ws ! i))" if "i < length ws" for i using that by (simp add: lens_of_def)
  have le: "os ! i + length (ld_bytes (ws ! i)) \<le> unat sz" if "i < length ws" for i
    using place_le [OF a, of i "lens_of ws" 0] that lens spec(2) by (simp add: os_def)
  have szmax: "unat sz \<le> u64_max"
  proof -
    have "unat sz < 2 ^ LENGTH(64)" by (rule unsigned_less)
    then show ?thesis by simp
  qed
  have self: "?own p = p \<or> (\<exists>w d. link ! p = (of_nat w, d) \<and> w < length ls \<and> w \<noteq> p \<and> ?own w = w \<and>
      suffix (ld_bytes (ls ! p)) (ld_bytes (ls ! w)) \<and>
      unat d = length (ld_bytes (ls ! w)) - length (ld_bytes (ls ! p)) \<and> ?a dvd unat d)" if "p < length ls" for p
    using linked that unat_nat unfolding linked_def by (metis fst_conv)
  have tails: "length (place_tails link offs) = length ls \<and> (\<forall>p<length ls. place_tails link offs ! p =
      (if ?own p = p then offs ! p else offs ! ?own p + snd (link ! p)))"
  proof (rule place_tails_spec [OF _ len spec(3)], intro allI impI)
    fix p assume "p < length ls" "?own p \<noteq> p"
    with self [of p] show "?own p < length ls \<and> ?own (?own p) = ?own p" using unat_nat by auto
  qed
  have owner: "\<exists>i<length ws. ws ! i = ls ! p \<and> unat (offs ! p) = os ! i" if "p < length ls" "?own p = p" for p
  proof -
    have "p \<in> set ow" using that by (simp add: ow_def owners_of_def)
    then obtain i where i: "i < length ow" "ow ! i = p" by (auto simp: in_set_conv_nth)
    then have iw: "i < length ws" "ws ! i = ls ! p" by (simp_all add: ws_def)
    have "os ! i \<le> u64_max" using le [OF iw(1)] szmax by linarith
    then have "unat (offs ! p) = os ! i" unfolding i(2) [symmetric] spec(4) [OF i(1)] by (rule unat_of_nat_u64)
    with iw show ?thesis by blast
  qed
  show ?thesis
    unfolding placed_def
  proof (intro conjI exI [of _ ws] exI [of _ os] allI impI)
    fix k assume k: "k < length ls"
    have "?a dvd unat (place_tails link offs ! k) \<and>
      (\<exists>i<length ws. \<exists>d. unat (place_tails link offs ! k) = os ! i + d \<and>
        d + length (ld_bytes (ls ! k)) \<le> length (ld_bytes (ws ! i)) \<and>
        ld_bytes (ls ! k) = sub_slice (ld_bytes (ws ! i)) d (d + length (ld_bytes (ls ! k))))"
    proof (cases "?own k = k")
      case True
      then obtain i where i: "i < length ws" "ws ! i = ls ! k" "unat (offs ! k) = os ! i" using owner [OF k] by blast
      have "?a dvd os ! i" using place_dvd [OF a, of i "lens_of ws" 0] i(1) by (simp add: os_def)
      moreover have off: "unat (place_tails link offs ! k) = os ! i" using True i tails k by simp
      ultimately have dvd: "?a dvd unat (place_tails link offs ! k)" by simp
      have "unat (place_tails link offs ! k) = os ! i + 0 \<and> 0 + length (ld_bytes (ls ! k)) \<le> length (ld_bytes (ws ! i)) \<and>
          ld_bytes (ls ! k) = sub_slice (ld_bytes (ws ! i)) 0 (0 + length (ld_bytes (ls ! k)))" using off i by simp
      with dvd i(1) show ?thesis by blast
    next
      case False
      with self [OF k] obtain w d where w: "link ! k = (of_nat w, d)" "w < length ls" "?own w = w"
        "suffix (ld_bytes (ls ! k)) (ld_bytes (ls ! w))" "unat d = length (ld_bytes (ls ! w)) - length (ld_bytes (ls ! k))"
        "?a dvd unat d" by blast
      from owner [OF w(2,3)] obtain i where i: "i < length ws" "ws ! i = ls ! w" "unat (offs ! w) = os ! i" by blast
      have dle: "unat d + length (ld_bytes (ls ! k)) = length (ld_bytes (ls ! w))"
        using w(5) suffix_length_le [OF w(4)] by simp
      have "unat (offs ! w) + unat d \<le> u64_max" using le [OF i(1)] i szmax dle by simp
      then have "unat (offs ! w + d) = os ! i + unat d" using i(3) by (subst unat_add_lem [THEN iffD1]) simp_all
      then have off: "unat (place_tails link offs ! k) = os ! i + unat d" using tails k False w(1,2) unat_nat by simp
      have "?a dvd os ! i" using place_dvd [OF a, of i "lens_of ws" 0] i(1) by (simp add: os_def)
      moreover have "ld_bytes (ls ! k) = sub_slice (ld_bytes (ws ! i)) (unat d) (unat d + length (ld_bytes (ls ! k)))"
        using sub_slice_suffix [OF w(4)] w(5) i(2) by simp
      moreover have "unat d + length (ld_bytes (ls ! k)) \<le> length (ld_bytes (ws ! i))" using dle i(2) by simp
      moreover have "?a dvd unat (place_tails link offs ! k)" using off w(6) calculation(1) by simp
      ultimately show ?thesis using off i(1) by blast
    qed
    then show "?a dvd map unat (place_tails link offs) ! k"
      "\<exists>i<length ws. \<exists>d. map unat (place_tails link offs) ! k = os ! i + d \<and>
        d + length (ld_bytes (ls ! k)) \<le> length (ld_bytes (ws ! i)) \<and>
        ld_bytes (ls ! k) = sub_slice (ld_bytes (ws ! i)) d (d + length (ld_bytes (ls ! k)))"
      using tails k by simp_all
  next
    fix i j assume "i < length ws" "j < i"
    then show "os ! j + length (ld_bytes (ws ! j)) \<le> os ! i"
      using place_sorted [OF a, of j i "lens_of ws" 0] lens by (simp add: os_def)
  qed (use spec wlen le tails in simp_all)
qed

lemma tail_order_sort:
  assumes "n \<le> u32_max"
  shows "distinct (sort_by c (map of_nat [0..<n]) :: u32 list)"
    "set (sort_by c (map of_nat [0..<n])) = (of_nat ` {..<n} :: u32 set)"
proof -
  have "inj_on (of_nat :: nat \<Rightarrow> u32) (set [0..<n])"
  proof (rule inj_onI)
    fix x y assume xy: "x \<in> set [0..<n]" "y \<in> set [0..<n]" and eq: "(of_nat x :: u32) = of_nat y"
    have "unat (of_nat x :: u32) = x" "unat (of_nat y :: u32) = y" using xy assms by (simp_all add: unat_of_nat)
    then show "x = y" using eq by metis
  qed
  then show "distinct (sort_by c (map of_nat [0..<n]) :: u32 list)" by (simp add: distinct_map)
  show "set (sort_by c (map of_nat [0..<n])) = (of_nat ` {..<n} :: u32 set)" by auto
qed

interpretation any_layout: group_layout layout_group
proof
  fix grp :: merge_group and inputs piece_base leader members out mg out'
  let ?ls = "group_leaders inputs piece_base leader members" and ?al = "mg_alignment grp"
  assume pow: "is_power_of_two ?al" and small: "small_leaders ?ls" and n: "length ?ls \<le> u32_max"
    and ok: "layout_group grp members inputs piece_base leader out = Ok (mg, out')"
  show "\<exists>offs. placed (unat ?al) ?ls mg offs \<and> out' = store_offsets (zip (map ld_piece ?ls) (map of_nat offs)) out"
  proof (cases "mg_tail_merge grp \<and> (case mg_kind grp of Strings _ \<Rightarrow> True | Fixed _ \<Rightarrow> False)")
    case False
    then have "layout_group_in_runs grp members inputs piece_base leader out = Ok (mg, out')"
      using ok by (simp add: layout_group_def)
    then show ?thesis by (rule in_runs.layout_placed [OF pow small n])
  next
    case True
    define order where "order = sort_by (tail_order ?ls) (map of_nat [0..<length ?ls])"
    define init where "init = map (\<lambda>i. (of_nat i :: u32, 0 :: u64)) [0..<length ?ls]"
    define link where "link = tail_links ?ls ?al order None init"
    have "\<exists>offs sz pieces. place_owners ?ls ?al (List.enumerate 0 link) (replicate (length ?ls) 0, 0, []) = Some (offs, sz, pieces) \<and>
        mg = \<lparr>md_size = sz, md_alignment = ?al, md_pieces = pieces\<rparr> \<and>
        out' = store_offsets (zip (map ld_piece ?ls) (place_tails link offs)) out"
      using ok True unfolding layout_group_def group_leaders_def [symmetric] Let_def order_def [symmetric]
        init_def [symmetric] link_def [symmetric]
      by (auto split: option.splits prod.splits)
    then obtain offs sz pieces where pl: "place_owners ?ls ?al (List.enumerate 0 link) (replicate (length ?ls) 0, 0, []) = Some (offs, sz, pieces)"
      and mg: "mg = \<lparr>md_size = sz, md_alignment = ?al, md_pieces = pieces\<rparr>"
      and out: "out' = store_offsets (zip (map ld_piece ?ls) (place_tails link offs)) out" by blast
    have unat_nat: "unat (of_nat q :: u32) = q" if "q < length ?ls" for q using that n by (simp add: unat_of_nat)
    have ord: "distinct order" "set order = of_nat ` {..<length ?ls}"
      unfolding order_def using tail_order_sort [OF n] by auto
    have links: "length link = length ?ls \<and> (\<forall>p<length ?ls. linked ?ls ?al link UNIV p)"
      unfolding link_def
    proof (rule tail_links_spec [OF pow small n _ ord(1)])
      show "length init = length ?ls" by (simp add: init_def)
      show "\<forall>p\<in>set order. unat p < length ?ls \<and> init ! unat p = (p, 0)"
        unfolding ord(2) by (auto simp: init_def unat_nat)
      show "\<forall>p<length ?ls. of_nat p \<notin> set order \<longrightarrow> linked ?ls ?al init {q. of_nat q \<notin> set order} p"
        unfolding ord(2) by blast
    qed simp
    from tail_layout_placed [OF pow small _ n _ pl] links have "placed (unat ?al) ?ls mg (map unat (place_tails link offs))"
      by (simp add: mg)
    moreover have "map of_nat (map unat (place_tails link offs)) = place_tails link offs" by (simp add: comp_def)
    ultimately show ?thesis using out by metis
  qed
qed

end
