(* ===== verification/MergeCorrect.thy ===== *)
theory MergeCorrect
  imports MergeTail
begin

text \<open>
  Merging as a whole (src/src/passes/merge.rs): the checks and the piece numbers, the leaders of each
  group, the offsets every piece gets, and the theorem that ties the offset map to the bytes written.
  \<close>

section \<open>Piece numbers and members\<close>

lemma prefix_sums_Cons: "prefix_sums (x # xs) = 0 # map (\<lambda>s. x + s) (prefix_sums xs)"
proof (rule nth_equalityI)
  fix i assume "i < length (prefix_sums (x # xs))"
  then show "prefix_sums (x # xs) ! i = (0 # map (\<lambda>s. x + s) (prefix_sums xs)) ! i"
    by (cases i) (simp_all add: nth_prefix_sums)
qed simp

lemma number_pieces_spec:
  "number_pieces groups index tot inputs = Ok bases \<Longrightarrow>
     tot # bases = map (\<lambda>s. tot + s) (numbers inputs) \<and>
     (\<forall>inp\<in>set inputs. unat (mi_group inp) < length groups \<and>
        ss_kind (mi_split inp) = mg_kind (groups ! unat (mi_group inp)))"
proof (induction groups index tot inputs arbitrary: bases rule: number_pieces.induct)
  case (1 groups index tot)
  then show ?case by (simp add: numbers_def prefix_sums_def)
next
  case (2 groups index tot input inputs)
  let ?g = "groups ! unat (mi_group input)" and ?n = "num_pieces (mi_split input)"
  from "2.prems" obtain rest where g: "get_nth groups (unat (mi_group input)) = Some ?g"
    and k: "ss_kind (mi_split input) = mg_kind ?g" "\<not> mg_alignment ?g < ss_alignment (mi_split input)"
    and add: "checked_add_usize tot ?n = Some (tot + ?n)"
    and rest: "number_pieces groups (index + 1) (tot + ?n) inputs = Ok rest" "bases = (tot + ?n) # rest"
    by (auto simp: checked_add_usize_def get_nth_def split: option.splits if_splits)
  have "\<not> (ss_kind (mi_split input) \<noteq> mg_kind ?g \<or> mg_alignment ?g < ss_alignment (mi_split input))" using k by simp
  from "2.IH" [OF g this add rest(1)] show ?case
    using rest(2) g k by (simp add: numbers_def prefix_sums_Cons comp_def add.assoc)
qed

definition members_of :: "merge_input list \<Rightarrow> nat \<Rightarrow> nat list" where
  "members_of inputs g = filter (\<lambda>i. unat (mi_group (inputs ! i)) = g) [0..<length inputs]"

lemma fold_push: "fold (\<lambda>(index, input) b. csr_push b (f input) index) xs b =
    b\<lparr>cb_pairs := cb_pairs b @ map (\<lambda>(index, input). (f input, index)) xs\<rparr>"
  by (induction xs arbitrary: b) (auto simp: csr_push_def)

lemma members_row:
  assumes "\<forall>inp\<in>set inputs. unat (mi_group inp) < n" and "n \<le> usize_max"
  shows "\<exists>members. csr_build (fold (\<lambda>(index, input) b. csr_push b (unat (mi_group input)) index)
      (List.enumerate 0 inputs) (csr_builder_new n)) = Ok members \<and> (\<forall>g<n. csr_row members g = members_of inputs g)"
proof -
  let ?pairs = "map (\<lambda>(index, input). (unat (mi_group input), index)) (List.enumerate 0 inputs)"
  have b: "fold (\<lambda>(index, input) b. csr_push b (unat (mi_group input)) index) (List.enumerate 0 inputs) (csr_builder_new n) =
      \<lparr>cb_rows = n, cb_pairs = ?pairs\<rparr>"
    by (simp add: fold_push csr_builder_new_def)
  have "find (\<lambda>p. n \<le> fst p) ?pairs = None"
    using assms(1) by (auto simp: find_None_iff enumerate_upt not_le)
  then have ok: "csr_build \<lparr>cb_rows = n, cb_pairs = ?pairs\<rparr> = Ok (csr_of (map (pushed_row ?pairs) [0..<n]))"
    by (simp add: csr_build_eq)
  have "csr_row (csr_of (map (pushed_row ?pairs) [0..<n])) g = members_of inputs g" if "g < n" for g
    using csr_row_of [of g "map (pushed_row ?pairs) [0..<n]"] that assms(2)
    by (simp add: pushed_row_def enumerate_upt filter_map comp_def members_of_def)
  with b ok show ?thesis by auto
qed

section \<open>The leaders of a group\<close>

definition leader_of :: "merge_input list \<Rightarrow> nat \<times> nat \<Rightarrow> leader" where
  "leader_of inputs p = \<lparr>ld_piece = of_nat (index_of inputs p), ld_section = of_nat (fst p),
     ld_input_offset = of_nat (fst (bounds (mi_split (inputs ! fst p)) (snd p))),
     ld_bytes = bytes_of (mi_split (inputs ! fst p)) (snd p)\<rparr>"

definition leader_pieces :: "merge_input list \<Rightarrow> u32 list \<Rightarrow> nat \<Rightarrow> (nat \<times> nat) list" where
  "leader_pieces inputs L g = filter (\<lambda>p. unat (mi_group (inputs ! fst p)) = g \<and>
     unat (L ! index_of inputs p) = index_of inputs p) (all_pieces inputs)"

lemma section_leaders_eq:
  assumes "s < length inputs" and "length L = last (numbers inputs)"
  shows "section_leaders inputs (numbers inputs) L s =
    map (leader_of inputs) (filter (\<lambda>p. unat (L ! index_of inputs p) = index_of inputs p)
      (map (Pair s) [0..<num_pieces (mi_split (inputs ! s))]))"
proof -
  let ?b = "numbers inputs ! s" and ?n = "num_pieces (mi_split (inputs ! s))"
  have le: "?b + ?n \<le> length L"
    using assms numbers_Suc [OF assms(1)] numbers_mono [of "Suc s" "length inputs" inputs] by (simp add: last_numbers)
  then have row: "sub_slice L ?b (numbers inputs ! Suc s) = map (\<lambda>i. L ! (?b + i)) [0..<?n]"
    by (intro nth_equalityI) (auto simp: numbers_Suc [OF assms(1)] nth_sub_slice)
  have "filter (\<lambda>x. unat (map (\<lambda>i. L ! (?b + i)) [0..<?n] ! x) = ?b + x) [0..<?n] =
      filter (\<lambda>x. unat (L ! (?b + x)) = ?b + x) [0..<?n]"
    by (rule filter_cong) simp_all
  then show ?thesis
    unfolding section_leaders_def Let_def
    by (simp add: row enumerate_upt filter_map comp_def leader_of_def index_of_def)
qed

lemma filter_concat_rows:
  "filter (\<lambda>p. Q (fst p) \<and> P p) (concat (map (\<lambda>s. map (Pair s) (f s)) xs)) =
     concat (map (\<lambda>s. filter P (map (Pair s) (f s))) (filter Q xs))"
  by (induction xs) (auto simp: filter_map comp_def)

lemma group_leaders_eq:
  assumes "length L = last (numbers inputs)"
  shows "group_leaders inputs (numbers inputs) L (members_of inputs g) = map (leader_of inputs) (leader_pieces inputs L g)"
proof -
  let ?P = "\<lambda>p. unat (L ! index_of inputs p) = index_of inputs p"
  have "group_leaders inputs (numbers inputs) L (members_of inputs g) =
      concat (map (\<lambda>s. map (leader_of inputs) (filter ?P (map (Pair s) [0..<num_pieces (mi_split (inputs ! s))]))) (members_of inputs g))"
    unfolding group_leaders_def using section_leaders_eq [OF _ assms]
    by (intro arg_cong [where f = concat] map_cong refl) (auto simp: members_of_def)
  also have "\<dots> = map (leader_of inputs) (leader_pieces inputs L g)"
    unfolding leader_pieces_def all_pieces_def
    by (simp only: filter_concat_rows [where Q = "\<lambda>s. unat (mi_group (inputs ! s)) = g"] members_of_def [symmetric] map_concat map_map comp_def)
  finally show ?thesis .
qed

lemma leader_facts:
  fixes g :: nat
  assumes num: "numbered hf inputs" and L: "length L = last (numbers inputs)"
  defines "ls \<equiv> map (leader_of inputs) (leader_pieces inputs L g)"
  shows "small_leaders ls" "length ls \<le> u32_max" "\<forall>l\<in>set ls. sourced (map mi_split inputs) l"
    "distinct (map ld_piece ls)"
proof -
  have sub: "set (leader_pieces inputs L g) \<subseteq> set (all_pieces inputs)" by (auto simp: leader_pieces_def)
  have dist: "distinct (leader_pieces inputs L g)" using distinct_all_pieces by (simp add: leader_pieces_def)
  have ok: "split_ok hf (mi_split (inputs ! fst p)) \<and> snd p < num_pieces (mi_split (inputs ! fst p)) \<and> fst p < length inputs"
    if "p \<in> set (all_pieces inputs)" for p using that num by (simp add: numbered_def set_all_pieces)
  have len: "length (bytes_of (mi_split (inputs ! fst p)) (snd p)) \<le> u32_max" if "p \<in> set (all_pieces inputs)" for p
  proof -
    let ?s = "mi_split (inputs ! fst p)"
    have "length (bytes_of ?s (snd p)) \<le> length (ss_data ?s)"
      using ok [OF that] length_bytes_of [of hf ?s "snd p"] cuts_le [of hf ?s "Suc (snd p)"] by simp
    then show ?thesis using split_ok_shape(3) [of hf ?s] ok [OF that] by linarith
  qed
  show "small_leaders ls" using len sub by (auto simp: ls_def small_leaders_def leader_of_def)
  have "length ls = card (set (leader_pieces inputs L g))" using dist by (simp add: ls_def distinct_card)
  also have "\<dots> \<le> card (set (all_pieces inputs))" using sub by (intro card_mono) auto
  also have "\<dots> = last (numbers inputs)"
    using distinct_card [OF distinct_all_pieces] arg_cong [OF index_all_pieces [of inputs], of length] by simp
  finally show "length ls \<le> u32_max" using num by (simp add: numbered_def)
  have "sourced (map mi_split inputs) (leader_of inputs p)" if p: "p \<in> set (all_pieces inputs)" for p
  proof -
    let ?s = "mi_split (inputs ! fst p)"
    have b: "bounds ?s (snd p) = (cuts ?s ! snd p, cuts ?s ! Suc (snd p))"
      "cuts ?s ! snd p < cuts ?s ! Suc (snd p)" "cuts ?s ! Suc (snd p) \<le> length (ss_data ?s)" "length (ss_data ?s) \<le> u32_max"
      "length (bytes_of ?s (snd p)) = cuts ?s ! Suc (snd p) - cuts ?s ! snd p"
      "bytes_of ?s (snd p) = sub_slice (ss_data ?s) (cuts ?s ! snd p) (cuts ?s ! Suc (snd p))"
      using ok [OF p] bounds_cuts cuts_strict [of hf ?s "snd p" "Suc (snd p)"] cuts_le [of hf ?s] split_ok_shape(3) [of hf ?s]
        length_bytes_of bytes_of_cuts by auto
    have u: "unat (of_nat (cuts ?s ! snd p) :: u64) = cuts ?s ! snd p"
      "unat (of_nat (length (bytes_of ?s (snd p))) :: u64) = cuts ?s ! Suc (snd p) - cuts ?s ! snd p"
      unfolding b(5) using b(2-4) by (intro unat_of_nat_u64; simp)+
    have sum: "checked_add_usize (cuts ?s ! snd p) (cuts ?s ! Suc (snd p) - cuts ?s ! snd p) = Some (cuts ?s ! Suc (snd p))"
      using b(2-4) by (simp add: checked_add_usize_def)
    show ?thesis
      unfolding sourced_def piece_source_def piece_of_def leader_of_def
      using ok [OF p] unat_piece(1) [OF num p] b u sum by (simp add: get_nth_def slice_or_empty_in_range)
  qed
  then show "\<forall>l\<in>set ls. sourced (map mi_split inputs) l" using sub by (auto simp: ls_def)
  have "inj_on (\<lambda>p. of_nat (index_of inputs p) :: u32) (set (leader_pieces inputs L g))"
    using unat_index [OF num] index_of_inj sub by (intro inj_onI) (metis subsetD)
  then show "distinct (map ld_piece ls)" using dist by (simp add: ls_def leader_of_def comp_def distinct_map)
qed

section \<open>All groups\<close>

text \<open>Bytes have a home at an offset: aligned, inside the group, and there after writing.\<close>

definition homed :: "split_section list \<Rightarrow> nat \<Rightarrow> merged_group \<Rightarrow> nat \<Rightarrow> u8 list \<Rightarrow> bool" where
  "homed splits a mg at bytes \<longleftrightarrow> a dvd at \<and> at + length bytes \<le> unat (md_size mg) \<and>
     (\<forall>buf. unat (md_size mg) \<le> length buf \<longrightarrow> length buf \<le> u64_max \<longrightarrow>
        length (write_pieces splits (md_pieces mg) 0 buf) = length buf \<and>
        sub_slice (write_pieces splits (md_pieces mg) 0 buf) at (at + length bytes) = bytes)"

lemma length_store_offsets [simp]: "length (store_offsets sts out) = length out"
  by (induction sts arbitrary: out) (auto simp: store_offsets_def)

lemma store_offsets_other: "\<forall>n\<in>set ns. unat n \<noteq> i \<Longrightarrow> store_offsets (zip ns os) out ! i = out ! i"
proof (induction ns arbitrary: os out)
  case (Cons n ns)
  then show ?case by (cases os) (auto simp: store_offsets_def)
qed (simp add: store_offsets_def)

lemma store_offsets_nth:
  assumes "distinct ns" and "length os = length ns" and "k < length ns" and "\<forall>n\<in>set ns. unat n < length out"
  shows "store_offsets (zip ns os) out ! unat (ns ! k) = os ! k"
  using assms
proof (induction ns arbitrary: os out k)
  case (Cons n ns)
  obtain o' os' where os: "os = o' # os'" using Cons.prems by (cases os) auto
  have step: "store_offsets (zip (n # ns) os) out = store_offsets (zip ns os') (out[unat n := o'])"
    by (simp add: os store_offsets_def)
  show ?case
  proof (cases k)
    case 0
    have "\<forall>m\<in>set ns. unat m \<noteq> unat n" using Cons.prems(1) by (metis distinct.simps(2) word_unat_eq_iff)
    then show ?thesis unfolding step using 0 os Cons.prems(4) by (simp add: store_offsets_other)
  next
    case (Suc j)
    then show ?thesis unfolding step using Cons.IH [of os' j "out[unat n := o']"] Cons.prems os by simp
  qed
qed simp

lemma layout_groups_spec:
  assumes num: "numbered hf inputs" and L: "length L = last (numbers inputs)"
    and "layout_groups members inputs (numbers inputs) L index groups out = Ok (mgs, out')"
    and "\<forall>g\<in>set groups. is_power_of_two (mg_alignment g)"
    and "\<forall>k<length groups. members (index + k) = members_of inputs (index + k)"
    and "length out = last (numbers inputs)"
  shows "length mgs = length groups \<and> length out' = length out \<and>
    (\<forall>k<length groups. \<forall>p\<in>set (leader_pieces inputs L (index + k)). \<exists>at. out' ! index_of inputs p = of_nat at \<and>
       homed (map mi_split inputs) (unat (mg_alignment (groups ! k))) (mgs ! k) at (bytes_of (mi_split (inputs ! fst p)) (snd p))) \<and>
    (\<forall>p\<in>set (all_pieces inputs). (\<forall>k<length groups. p \<notin> set (leader_pieces inputs L (index + k))) \<longrightarrow>
       out' ! index_of inputs p = out ! index_of inputs p)"
  using assms(3-)
proof (induction groups arbitrary: index out mgs out')
  case Nil
  then show ?case by simp
next
  case (Cons grp groups)
  let ?ps = "leader_pieces inputs L index" and ?splits = "map mi_split inputs"
  let ?ls = "map (leader_of inputs) ?ps"
  from Cons.prems(1) obtain mg out1 mgs1 where lay: "layout_group grp (members index) inputs (numbers inputs) L out = Ok (mg, out1)"
    and rest: "layout_groups members inputs (numbers inputs) L (index + 1) groups out1 = Ok (mgs1, out')" and mgs: "mgs = mg # mgs1"
    by auto
  have mem: "members index = members_of inputs index" using Cons.prems(3) by (metis add.right_neutral length_Cons zero_less_Suc)
  note facts = leader_facts [OF num L, of index]
  have ls: "?ls = group_leaders inputs (numbers inputs) L (members index)" unfolding mem by (rule group_leaders_eq [OF L, symmetric])
  have pow: "is_power_of_two (mg_alignment grp)" using Cons.prems(2) by simp
  obtain offs where offs: "length offs = length ?ls" "out1 = store_offsets (zip (map ld_piece ?ls) (map of_nat offs)) out"
    "\<And>k. k < length ?ls \<Longrightarrow> unat (mg_alignment grp) dvd offs ! k"
    "\<And>k. k < length ?ls \<Longrightarrow> offs ! k + length (ld_bytes (?ls ! k)) \<le> unat (md_size mg)"
    "\<And>k buf. k < length ?ls \<Longrightarrow> unat (md_size mg) \<le> length buf \<Longrightarrow> length buf \<le> u64_max \<Longrightarrow>
       sub_slice (write_pieces ?splits (md_pieces mg) 0 buf) (offs ! k) (offs ! k + length (ld_bytes (?ls ! k))) = ld_bytes (?ls ! k)"
    "\<And>buf. unat (md_size mg) \<le> length buf \<Longrightarrow> length buf \<le> u64_max \<Longrightarrow>
       length (write_pieces ?splits (md_pieces mg) 0 buf) = length buf"
    using any_layout.layout_written [OF pow facts(1,2) ls facts(3) lay] by blast
  have sub: "p \<in> set (all_pieces inputs)" if "p \<in> set ?ps" for p using that by (simp add: leader_pieces_def)
  have range: "\<forall>n\<in>set (map ld_piece ?ls). unat n < length out"
    using Cons.prems(4) index_less unat_index [OF num] sub by (auto simp: leader_of_def)
  have other1: "out1 ! index_of inputs p = out ! index_of inputs p" if p: "p \<in> set (all_pieces inputs)" "p \<notin> set ?ps" for p
    unfolding offs(2)
  proof (rule store_offsets_other, rule ballI)
    fix n assume "n \<in> set (map ld_piece ?ls)"
    then obtain q where q: "q \<in> set ?ps" "n = of_nat (index_of inputs q)" by (auto simp: leader_of_def)
    then have "unat n = index_of inputs q" using unat_index [OF num sub [OF q(1)]] by simp
    then show "unat n \<noteq> index_of inputs p" using index_of_inj [OF p(1) sub [OF q(1)]] p(2) q(1) by metis
  qed
  have home1: "\<exists>at. out1 ! index_of inputs p = of_nat at \<and>
      homed ?splits (unat (mg_alignment grp)) mg at (bytes_of (mi_split (inputs ! fst p)) (snd p))" if p: "p \<in> set ?ps" for p
  proof -
    obtain k where k: "k < length ?ps" "?ps ! k = p" using p by (auto simp: in_set_conv_nth)
    have "out1 ! unat (map ld_piece ?ls ! k) = map of_nat offs ! k"
      unfolding offs(2) using facts(4) offs(1) k(1) range by (intro store_offsets_nth) auto
    moreover have "unat (map ld_piece ?ls ! k) = index_of inputs p"
      using k unat_index [OF num sub [OF p]] by (simp add: leader_of_def)
    ultimately have "out1 ! index_of inputs p = of_nat (offs ! k)" using k(1) offs(1) by simp
    moreover have kl: "k < length ?ls" using k(1) by simp
    have bs: "ld_bytes (?ls ! k) = bytes_of (mi_split (inputs ! fst p)) (snd p)" using k by (simp add: leader_of_def)
    have "homed ?splits (unat (mg_alignment grp)) mg (offs ! k) (bytes_of (mi_split (inputs ! fst p)) (snd p))"
      unfolding homed_def using offs(3) [OF kl] offs(4) [OF kl, unfolded bs] offs(5) [OF kl, unfolded bs] offs(6) by blast
    ultimately show ?thesis by blast
  qed
  have len1: "length out1 = length out" unfolding offs(2) by simp
  have mem': "\<forall>k<length groups. members (index + 1 + k) = members_of inputs (index + 1 + k)"
    using Cons.prems(3) by auto
  note ih = Cons.IH [OF rest _ mem']
  have ih: "length mgs1 = length groups" "length out' = length out1"
    "\<And>k p. k < length groups \<Longrightarrow> p \<in> set (leader_pieces inputs L (index + 1 + k)) \<Longrightarrow> \<exists>at. out' ! index_of inputs p = of_nat at \<and>
       homed ?splits (unat (mg_alignment (groups ! k))) (mgs1 ! k) at (bytes_of (mi_split (inputs ! fst p)) (snd p))"
    "\<And>p. p \<in> set (all_pieces inputs) \<Longrightarrow> \<forall>k<length groups. p \<notin> set (leader_pieces inputs L (index + 1 + k)) \<Longrightarrow>
       out' ! index_of inputs p = out1 ! index_of inputs p"
    using ih Cons.prems(2,4) len1 by auto
  have disj: "p \<notin> set (leader_pieces inputs L (index + 1 + k))" if "p \<in> set ?ps" for p k
    using that by (simp add: leader_pieces_def)
  show ?case
  proof (intro conjI allI impI ballI)
    fix k p assume k: "k < length (grp # groups)" and p: "p \<in> set (leader_pieces inputs L (index + k))"
    show "\<exists>at. out' ! index_of inputs p = of_nat at \<and> homed ?splits (unat (mg_alignment ((grp # groups) ! k))) (mgs ! k) at
        (bytes_of (mi_split (inputs ! fst p)) (snd p))"
    proof (cases k)
      case 0
      then show ?thesis using home1 [of p] ih(4) [of p] disj [of p] sub [of p] p by (simp add: mgs)
    next
      case (Suc j)
      then show ?thesis using ih(3) [of j p] k p by (simp add: mgs)
    qed
  next
    fix p assume p: "p \<in> set (all_pieces inputs)" and no: "\<forall>k<length (grp # groups). p \<notin> set (leader_pieces inputs L (index + k))"
    have "p \<notin> set ?ps" using no [rule_format, of 0] by simp
    moreover have "\<forall>k<length groups. p \<notin> set (leader_pieces inputs L (index + 1 + k))"
      using no [rule_format, of "Suc _"] by simp
    ultimately show "out' ! index_of inputs p = out ! index_of inputs p" using ih(4) [OF p] other1 [OF p] by simp
  qed (use ih len1 mgs in simp_all)
qed

section \<open>The result of phase 2\<close>

lemma check_groups_Ok: "check_groups groups = Ok u \<longleftrightarrow>
    (\<forall>g\<in>set groups. valid_kind (mg_kind g) \<and> is_power_of_two (mg_alignment g))"
proof -
  have kind: "(case k of Strings c \<Rightarrow> c \<in> {1, 2, 4} | Fixed e \<Rightarrow> e \<noteq> 0) = valid_kind k" for k
    by (cases k) simp_all
  define P where "P = (\<lambda>i. \<not> valid_kind (mg_kind (groups ! i)) \<or> \<not> is_power_of_two (mg_alignment (groups ! i)))"
  have "check_groups groups = Ok u \<longleftrightarrow> find P [0..<length groups] = None"
    unfolding check_groups_def Let_def kind P_def [symmetric] by (simp split: option.split)
  then show ?thesis by (auto simp: find_None_iff P_def all_set_conv_all_nth)
qed

lemma lay_out_parts:
  assumes "lay_out ht groups inputs live = Ok ml" and "length groups \<le> usize_max"
    and "\<forall>inp\<in>set inputs. split_ok hf (mi_split inp)"
  obtains members mgs out where "numbered hf inputs" "\<forall>g\<in>set groups. is_power_of_two (mg_alignment g)"
    "\<forall>inp\<in>set inputs. unat (mi_group inp) < length groups"
    "\<forall>g<length groups. members g = members_of inputs g"
    "layout_groups members inputs (numbers inputs) (deduplicate ht inputs (numbers inputs) (last (numbers inputs)) live) 0 groups
       (replicate (last (numbers inputs)) DEAD_OFFSET) = Ok (mgs, out)"
    "ml = \<lparr>ml_groups = mgs, ml_piece_base = numbers inputs,
       ml_output_offset = follow_leaders (deduplicate ht inputs (numbers inputs) (last (numbers inputs)) live) out\<rparr>"
proof -
  let ?L = "deduplicate ht inputs (numbers inputs) (last (numbers inputs)) live"
  let ?builder = "fold (\<lambda>(index, input) b. csr_push b (unat (mi_group input)) index) (List.enumerate 0 inputs) (csr_builder_new (length groups))"
  from assms(1) obtain bases where chk: "check_groups groups = Ok ()" and n: "u32_try_from (length inputs) \<noteq> None"
    and bases: "number_pieces groups 0 0 inputs = Ok bases"
    unfolding lay_out_def by (auto split: if_splits)
  have base: "0 # bases = numbers inputs" and grp: "\<forall>inp\<in>set inputs. unat (mi_group inp) < length groups"
    using number_pieces_spec [OF bases] by auto
  obtain members where mem: "csr_build ?builder = Ok members" "\<forall>g<length groups. csr_row members g = members_of inputs g"
    using members_row [OF grp assms(2)] by blast
  define tot where "tot = last (numbers inputs)"
  have body: "(if (case u32_try_from tot of None \<Rightarrow> True | Some t \<Rightarrow> t = DEAD_LEADER) then Err (TooLarge ''merge piece count'')
      else if (case live of None \<Rightarrow> False | Some l \<Rightarrow> bs_len l \<noteq> tot)
      then Err (Mismatch ''merge piece liveness bitmap length and piece count'' (case live of None \<Rightarrow> 0 | Some l \<Rightarrow> of_nat (bs_len l)))
      else bind_result (layout_groups (csr_row members) inputs (numbers inputs) ?L 0 groups (replicate tot DEAD_OFFSET))
        (\<lambda>(merged, out). Ok \<lparr>ml_groups = merged, ml_piece_base = numbers inputs, ml_output_offset = follow_leaders ?L out\<rparr>)) = Ok ml"
    using assms(1) unfolding lay_out_def chk bases bind_result.simps Let_def base tot_def mem(1) using n by (simp split: if_splits)
  have "\<not> (case u32_try_from tot of None \<Rightarrow> True | Some t \<Rightarrow> t = DEAD_LEADER)" using body by (auto split: if_splits)
  then have "tot \<le> u32_max" "(of_nat tot :: u32) \<noteq> - 1" by (auto simp: u32_try_from_def DEAD_LEADER_def split: if_splits option.splits)
  then have "tot < u32_max"
  proof -
    have "tot \<noteq> u32_max" using \<open>(of_nat tot :: u32) \<noteq> - 1\<close> by auto
    with \<open>tot \<le> u32_max\<close> show ?thesis by simp
  qed
  then have num: "numbered hf inputs"
    using assms(3) n by (simp add: numbered_def tot_def u32_try_from_def split: if_splits)
  from body obtain mgs out where "layout_groups (csr_row members) inputs (numbers inputs) ?L 0 groups (replicate tot DEAD_OFFSET) = Ok (mgs, out)"
    "ml = \<lparr>ml_groups = mgs, ml_piece_base = numbers inputs, ml_output_offset = follow_leaders ?L out\<rparr>"
    by (auto split: if_splits)
  then show thesis
    using that [OF num _ grp mem(2)] chk by (auto simp: check_groups_Ok tot_def)
qed

lemma unat_dead_leader: "unat DEAD_LEADER = 4294967295"
  by (simp add: DEAD_LEADER_def unsigned_minus_1_eq_mask mask_eq_exp_minus_1)

text \<open>The offsets of all pieces after phase 2.\<close>

lemma lay_out_offsets:
  assumes ok: "lay_out ht groups inputs live = Ok ml" and len: "length groups \<le> usize_max"
    and split: "\<forall>inp\<in>set inputs. split_ok hf (mi_split inp)" and laws: "hash_table_laws ht un_hash elems"
  shows "numbered hf inputs" "ml_piece_base ml = numbers inputs" "length (ml_groups ml) = length groups"
    "length (ml_output_offset ml) = last (numbers inputs)"
    "\<And>inp. inp \<in> set inputs \<Longrightarrow> unat (mi_group inp) < length groups"
    "\<And>p. p \<in> set (all_pieces inputs) \<Longrightarrow> \<not> live_at live (index_of inputs p) \<Longrightarrow>
       ml_output_offset ml ! index_of inputs p = DEAD_OFFSET"
    "\<And>p. p \<in> set (all_pieces inputs) \<Longrightarrow> live_at live (index_of inputs p) \<Longrightarrow>
       \<exists>at. ml_output_offset ml ! index_of inputs p = of_nat at \<and>
         homed (map mi_split inputs) (unat (mg_alignment (groups ! unat (mi_group (inputs ! fst p)))))
           (ml_groups ml ! unat (mi_group (inputs ! fst p))) at (bytes_of (mi_split (inputs ! fst p)) (snd p))"
    "\<And>p q. p \<in> set (all_pieces inputs) \<Longrightarrow> q \<in> set (all_pieces inputs) \<Longrightarrow> live_at live (index_of inputs p) \<Longrightarrow>
       live_at live (index_of inputs q) \<Longrightarrow> piece_key inputs p = piece_key inputs q \<Longrightarrow>
       ml_output_offset ml ! index_of inputs p = ml_output_offset ml ! index_of inputs q"
proof -
  let ?L = "deduplicate ht inputs (numbers inputs) (last (numbers inputs)) live"
  let ?n = "last (numbers inputs)"
  obtain members mgs out where num: "numbered hf inputs" and pow: "\<forall>g\<in>set groups. is_power_of_two (mg_alignment g)"
    and grp: "\<forall>inp\<in>set inputs. unat (mi_group inp) < length groups"
    and mem: "\<forall>g<length groups. members g = members_of inputs g"
    and lay: "layout_groups members inputs (numbers inputs) ?L 0 groups (replicate ?n DEAD_OFFSET) = Ok (mgs, out)"
    and ml: "ml = \<lparr>ml_groups = mgs, ml_piece_base = numbers inputs, ml_output_offset = follow_leaders ?L out\<rparr>"
    by (rule lay_out_parts [OF ok len split])
  note ded = deduplicate_spec [OF num laws, where live = live]
  have "\<forall>k<length groups. members (0 + k) = members_of inputs (0 + k)" using mem by simp
  note spec = layout_groups_spec [OF num ded(1) lay pow this, simplified]
  show "numbered hf inputs" by (rule num)
  show "ml_piece_base ml = numbers inputs" "length (ml_groups ml) = length groups" "length (ml_output_offset ml) = ?n"
    using spec ded(1) by (simp_all add: ml follow_leaders_def)
  show "\<And>inp. inp \<in> set inputs \<Longrightarrow> unat (mi_group inp) < length groups" using grp by blast
  have follow: "ml_output_offset ml ! index_of inputs p =
      (if ?L ! index_of inputs p \<noteq> DEAD_LEADER \<and> unat (?L ! index_of inputs p) \<noteq> index_of inputs p
       then out ! unat (?L ! index_of inputs p) else out ! index_of inputs p)" if "p \<in> set (all_pieces inputs)" for p
    using index_less [OF that] ded(1) by (simp add: ml follow_leaders_def enumerate_upt)
  have dead: "unat DEAD_LEADER \<noteq> index_of inputs p" if "p \<in> set (all_pieces inputs)" for p
    using index_less [OF that] num unat_dead_leader by (simp add: numbered_def)
  show "ml_output_offset ml ! index_of inputs p = DEAD_OFFSET"
    if p: "p \<in> set (all_pieces inputs)" and no: "\<not> live_at live (index_of inputs p)" for p
  proof -
    have "?L ! index_of inputs p = DEAD_LEADER" using ded(2) [OF p] no by simp
    moreover have "\<forall>k<length groups. p \<notin> set (leader_pieces inputs ?L k)"
      using calculation dead [OF p] by (simp add: leader_pieces_def)
    ultimately show ?thesis using follow [OF p] spec p index_less [OF p] by simp
  qed
  have first: "\<exists>q. q = first_of inputs (live_list inputs live) p \<and> q \<in> set (leader_pieces inputs ?L (unat (mi_group (inputs ! fst p)))) \<and>
      piece_key inputs q = piece_key inputs p \<and> ml_output_offset ml ! index_of inputs p = out ! index_of inputs q"
    if p: "p \<in> set (all_pieces inputs)" and yes: "live_at live (index_of inputs p)" for p
  proof -
    let ?q = "first_of inputs (live_list inputs live) p"
    have pl: "p \<in> set (live_list inputs live)" using p yes by (simp add: live_list_def)
    note f = first_of_live [OF pl]
    have q: "?q \<in> set (all_pieces inputs)" "live_at live (index_of inputs ?q)" using f(1) by (simp_all add: live_list_def)
    have same: "first_of inputs (live_list inputs live) ?q = ?q" using first_of_key [OF f(2)] by simp
    have Lq: "unat (?L ! index_of inputs ?q) = index_of inputs ?q" using ded(2) [OF q(1)] q(2) same unat_index [OF num q(1)] by simp
    have Lp: "?L ! index_of inputs p = of_nat (index_of inputs ?q)" using ded(2) [OF p] yes by simp
    have up: "unat (?L ! index_of inputs p) = index_of inputs ?q" using Lp unat_index [OF num q(1)] by simp
    have "?L ! index_of inputs p \<noteq> DEAD_LEADER" using up dead [OF q(1)] by metis
    then have "ml_output_offset ml ! index_of inputs p = out ! index_of inputs ?q" using follow [OF p] up by auto
    moreover have "mi_group (inputs ! fst ?q) = mi_group (inputs ! fst p)" using f(2) by (simp add: piece_key_def)
    then have "?q \<in> set (leader_pieces inputs ?L (unat (mi_group (inputs ! fst p))))"
      using q(1) Lq by (simp add: leader_pieces_def)
    ultimately show ?thesis using f(2) by blast
  qed
  show "\<exists>at. ml_output_offset ml ! index_of inputs p = of_nat at \<and>
         homed (map mi_split inputs) (unat (mg_alignment (groups ! unat (mi_group (inputs ! fst p)))))
           (ml_groups ml ! unat (mi_group (inputs ! fst p))) at (bytes_of (mi_split (inputs ! fst p)) (snd p))"
    if p: "p \<in> set (all_pieces inputs)" and yes: "live_at live (index_of inputs p)" for p
  proof -
    obtain q where q: "q \<in> set (leader_pieces inputs ?L (unat (mi_group (inputs ! fst p))))"
      "piece_key inputs q = piece_key inputs p" "ml_output_offset ml ! index_of inputs p = out ! index_of inputs q"
      using first [OF p yes] by blast
    have g: "unat (mi_group (inputs ! fst p)) < length groups" using grp p by (simp add: set_all_pieces)
    have b: "bytes_of (mi_split (inputs ! fst q)) (snd q) = bytes_of (mi_split (inputs ! fst p)) (snd p)"
      using q(2) by (simp add: piece_key_def)
    obtain at where "out ! index_of inputs q = of_nat at" "homed (map mi_split inputs)
        (unat (mg_alignment (groups ! unat (mi_group (inputs ! fst p))))) (mgs ! unat (mi_group (inputs ! fst p))) at
        (bytes_of (mi_split (inputs ! fst q)) (snd q))" using spec g q(1) by blast
    then show ?thesis using q(3) unfolding b by (auto simp: ml)
  qed
  show "ml_output_offset ml ! index_of inputs p = ml_output_offset ml ! index_of inputs q"
    if "p \<in> set (all_pieces inputs)" "q \<in> set (all_pieces inputs)" "live_at live (index_of inputs p)"
      "live_at live (index_of inputs q)" "piece_key inputs p = piece_key inputs q" for p q
    using first [OF that(1,3)] first [OF that(2,4)] first_of_key [OF that(5)] by metis
qed

end
