(* ===== verification/MergeOutput.thy ===== *)
theory MergeOutput
  imports MergeCorrect
begin

text \<open>
  What a caller sees of a merge: where \<open>piece_output_offset\<close> and \<open>output_offset\<close> send an input, what
  \<open>write_group\<close> leaves there, when the merge succeeds and which error it reports.
\<close>

section \<open>Reading the result\<close>

lemma piece_output_offset_eq:
  assumes num: "numbered hf inputs" and p: "p \<in> set (all_pieces inputs)" and piece: "unat piece = snd p"
    and base: "ms_piece_base ms = numbers inputs" and len: "length (ms_output_offset ms) = last (numbers inputs)"
  shows "piece_output_offset ms (fst p) piece =
    (let off = ms_output_offset ms ! index_of inputs p in if off = DEAD_OFFSET then None else Some off)"
proof -
  have s: "fst p < length inputs" and i: "snd p < num_pieces (mi_split (inputs ! fst p))"
    using p by (simp_all add: set_all_pieces)
  note lt = index_less [OF p]
  have succ: "checked_add_usize (fst p) 1 = Some (Suc (fst p))"
    using s num by (simp add: checked_add_usize_def numbered_def)
  have idx: "checked_add_usize (numbers inputs ! fst p) (unat piece) = Some (index_of inputs p)"
    using lt num by (simp add: checked_add_usize_def piece numbered_def index_of_def)
  have "index_of inputs p < numbers inputs ! Suc (fst p)" using i s by (simp add: index_of_def numbers_Suc)
  then show ?thesis
    unfolding piece_output_offset_def succ
    using s lt len by (simp add: base get_nth_def idx Let_def)
qed

lemma at_not_dead:
  assumes "at + n \<le> unat (m :: u64)" and "0 < n"
  shows "unat (of_nat at :: u64) = at" "(of_nat at :: u64) \<noteq> DEAD_OFFSET"
proof -
  have "unat m < 2 ^ LENGTH(64)" by (rule unsigned_less)
  then have at: "at < u64_max" using assms by simp
  then show u: "unat (of_nat at :: u64) = at" by (intro unat_of_nat_u64) simp
  have "unat DEAD_OFFSET = u64_max" by (simp add: DEAD_OFFSET_def unsigned_minus_1_eq_mask mask_eq_exp_minus_1)
  with at u show "(of_nat at :: u64) \<noteq> DEAD_OFFSET" by (metis less_irrefl)
qed

lemma bytes_nonempty: "split_ok hf s \<Longrightarrow> i < num_pieces s \<Longrightarrow> 0 < length (bytes_of s i)"
  using cuts_strict [of hf s i "Suc i"] by (simp add: length_bytes_of)

text \<open>The piece that covers an input offset, and the byte at it.\<close>

lemma piece_at_byte:
  assumes ok: "split_ok hf s" and x: "unat x < length (ss_data s)"
  obtains r where "fst (piece_at s key cache x) = Some r" "unat (pr_piece r) < num_pieces s"
    "unat (pr_addend r) < length (bytes_of s (unat (pr_piece r)))"
    "bytes_of s (unat (pr_piece r)) ! unat (pr_addend r) = ss_data s ! unat x"
proof -
  note spec = piece_at_spec [OF ok, where key = key and cache = cache and offset = x]
  then obtain r where r: "fst (piece_at s key cache x) = Some r"
    using x by (cases "fst (piece_at s key cache x)") auto
  with spec have i: "unat (pr_piece r) < num_pieces s" and at: "cuts s ! unat (pr_piece r) + unat (pr_addend r) = unat x"
    and lt: "unat x < cuts s ! Suc (unat (pr_piece r))" by simp_all
  have "cuts s ! Suc (unat (pr_piece r)) \<le> length (ss_data s)" using cuts_le [OF ok] i by simp
  then have "bytes_of s (unat (pr_piece r)) ! unat (pr_addend r) = ss_data s ! unat x"
    using at lt by (simp add: bytes_of_cuts [OF ok i] sub_slice_def)
  moreover have "unat (pr_addend r) < length (bytes_of s (unat (pr_piece r)))"
    using at lt by (simp add: length_bytes_of [OF ok i])
  ultimately show thesis using that [OF r i] by blast
qed

section \<open>The merged sections\<close>

lemma merge_split_sections_parts:
  assumes "merge_split_sections ht groups inputs live = Ok ms"
  obtains ml where "lay_out ht groups inputs live = Ok ml" "ms = into_merged ml (map mi_split inputs) (map mi_group inputs)"
  using assms by (auto simp: merge_split_sections_def)

lemma merged_piece:
  assumes ok: "lay_out ht groups inputs live = Ok ml" and len: "length groups \<le> usize_max"
    and split: "\<forall>inp\<in>set inputs. split_ok hf (mi_split inp)" and laws: "hash_table_laws ht un_hash elems"
    and p: "p \<in> set (all_pieces inputs)" and piece: "unat piece = snd p"
  defines "ms \<equiv> into_merged ml (map mi_split inputs) (map mi_group inputs)"
  shows "\<not> live_at live (index_of inputs p) \<Longrightarrow> piece_output_offset ms (fst p) piece = None"
    "live_at live (index_of inputs p) \<Longrightarrow>
       \<exists>off. piece_output_offset ms (fst p) piece = Some off \<and>
         homed (map mi_split inputs) (unat (mg_alignment (groups ! unat (mi_group (inputs ! fst p)))))
           (ms_groups ms ! unat (mi_group (inputs ! fst p))) (unat off) (bytes_of (mi_split (inputs ! fst p)) (snd p))"
proof -
  note facts = lay_out_offsets [OF ok len split laws]
  have eq: "piece_output_offset ms (fst p) piece =
      (let off = ml_output_offset ml ! index_of inputs p in if off = DEAD_OFFSET then None else Some off)"
    using piece_output_offset_eq [OF facts(1) p piece, of ms] facts(2,4) by (simp add: ms_def into_merged_def)
  show "piece_output_offset ms (fst p) piece = None" if "\<not> live_at live (index_of inputs p)"
    using eq facts(6) [OF p that] by simp
  show "\<exists>off. piece_output_offset ms (fst p) piece = Some off \<and>
         homed (map mi_split inputs) (unat (mg_alignment (groups ! unat (mi_group (inputs ! fst p)))))
           (ms_groups ms ! unat (mi_group (inputs ! fst p))) (unat off) (bytes_of (mi_split (inputs ! fst p)) (snd p))"
    if yes: "live_at live (index_of inputs p)"
  proof -
    obtain at where at: "ml_output_offset ml ! index_of inputs p = of_nat at"
      and home: "homed (map mi_split inputs) (unat (mg_alignment (groups ! unat (mi_group (inputs ! fst p)))))
         (ml_groups ml ! unat (mi_group (inputs ! fst p))) at (bytes_of (mi_split (inputs ! fst p)) (snd p))"
      using facts(7) [OF p yes] by blast
    have "0 < length (bytes_of (mi_split (inputs ! fst p)) (snd p))"
      using p split by (intro bytes_nonempty [of hf]) (simp_all add: set_all_pieces)
    then have "unat (of_nat at :: u64) = at" "(of_nat at :: u64) \<noteq> DEAD_OFFSET"
      using home at_not_dead [of at] unfolding homed_def by blast+
    then show ?thesis using eq at home by (simp add: ms_def into_merged_def)
  qed
qed

lemma write_group_home:
  assumes home: "homed (ms_splits ms) a (ms_groups ms ! g) at bytes" and w: "write_group ms g buf = Ok out"
    and small: "length buf \<le> u64_max"
  shows "length out = length buf" "a dvd at" "at + length bytes \<le> length out" "sub_slice out at (at + length bytes) = bytes"
proof -
  from w have g: "g < length (ms_groups ms)" and sz: "md_size (ms_groups ms ! g) \<le> of_nat (length buf)"
    and out: "out = write_pieces (ms_splits ms) (md_pieces (ms_groups ms ! g)) 0 buf"
    by (auto simp: write_group_def get_nth_def split: if_splits)
  have "unat (md_size (ms_groups ms ! g)) \<le> length buf"
    using sz unat_of_nat_u64 [OF small] by (simp add: word_le_nat_alt)
  then show "length out = length buf" "a dvd at" "at + length bytes \<le> length out" "sub_slice out at (at + length bytes) = bytes"
    using home small unfolding homed_def out by auto
qed

text \<open>A byte of a live piece is found at its output offset.\<close>

lemma merged_byte:
  assumes ok: "lay_out ht groups inputs live = Ok ml" and len: "length groups \<le> usize_max"
    and split: "\<forall>inp\<in>set inputs. split_ok hf (mi_split inp)" and laws: "hash_table_laws ht un_hash elems"
    and s: "s < length inputs" and x: "unat x < length (ss_data (mi_split (inputs ! s)))"
    and live: "\<And>i. fst (bounds (mi_split (inputs ! s)) i) \<le> unat x \<Longrightarrow> unat x < snd (bounds (mi_split (inputs ! s)) i) \<Longrightarrow>
       i < num_pieces (mi_split (inputs ! s)) \<Longrightarrow> live_at live (index_of inputs (s, i))"
  defines "ms \<equiv> into_merged ml (map mi_split inputs) (map mi_group inputs)"
  shows "\<exists>y. merged_output_offset ms key cache s x = Some y \<and>
     (\<forall>buf out. write_group ms (unat (mi_group (inputs ! s))) buf = Ok out \<longrightarrow> length buf \<le> u64_max \<longrightarrow>
        unat y < length out \<and> out ! unat y = ss_data (mi_split (inputs ! s)) ! unat x)"
proof -
  let ?s = "mi_split (inputs ! s)" and ?g = "unat (mi_group (inputs ! s))"
  have sok: "split_ok hf ?s" using split s by simp
  obtain r where r: "fst (piece_at ?s key cache x) = Some r" and i: "unat (pr_piece r) < num_pieces ?s"
    and add: "unat (pr_addend r) < length (bytes_of ?s (unat (pr_piece r)))"
    and byte: "bytes_of ?s (unat (pr_piece r)) ! unat (pr_addend r) = ss_data ?s ! unat x"
    by (rule piece_at_byte [OF sok x, where key = key and cache = cache])
  have p: "(s, unat (pr_piece r)) \<in> set (all_pieces inputs)" using s i by (simp add: set_all_pieces)
  have "live_at live (index_of inputs (s, unat (pr_piece r)))"
    using piece_at_spec [OF sok, where key = key and cache = cache and offset = x] r i
    by (intro live) (auto simp: bounds_cuts [OF sok i])
  then obtain off where off: "piece_output_offset ms s (pr_piece r) = Some off"
    and home: "homed (map mi_split inputs) (unat (mg_alignment (groups ! ?g))) (ms_groups ms ! ?g) (unat off) (bytes_of ?s (unat (pr_piece r)))"
    using merged_piece(2) [OF ok len split laws p, of "pr_piece r"] by (auto simp: ms_def)
  have "unat (md_size (ms_groups ms ! ?g)) < 2 ^ LENGTH(64)" by (rule unsigned_less)
  then have sum: "unat off + unat (pr_addend r) \<le> u64_max" using home add by (simp add: homed_def)
  have "unat (off + pr_addend r) = unat off + unat (pr_addend r)" using sum by (subst unat_add_lem [THEN iffD1]) simp_all
  then have y: "checked_add_u64 off (pr_addend r) = Some (off + pr_addend r)" "unat (off + pr_addend r) = unat off + unat (pr_addend r)"
    using sum by (simp_all add: checked_add_u64_Some)
  have "merged_output_offset ms key cache s x = Some (off + pr_addend r)"
    using r off y(1) s by (simp add: merged_output_offset_def merged_piece_at_def merged_split_def ms_def into_merged_def get_nth_def)
  moreover have "unat (off + pr_addend r) < length out \<and> out ! unat (off + pr_addend r) = ss_data ?s ! unat x"
    if "write_group ms ?g buf = Ok out" "length buf \<le> u64_max" for buf out
  proof -
    have "homed (ms_splits ms) (unat (mg_alignment (groups ! ?g))) (ms_groups ms ! ?g) (unat off) (bytes_of ?s (unat (pr_piece r)))"
      using home by (simp add: ms_def into_merged_def)
    note w = write_group_home [OF this that]
    have "out ! (unat off + unat (pr_addend r)) = bytes_of ?s (unat (pr_piece r)) ! unat (pr_addend r)"
      using w(3) add arg_cong [OF w(4), of "\<lambda>xs. xs ! unat (pr_addend r)"] by (simp add: sub_slice_def)
    then show ?thesis using w(3) add byte y(2) by simp
  qed
  ultimately show ?thesis by blast
qed

end
