(* ===== verification/MergeTotal.thy ===== *)
theory MergeTotal
  imports MergeOutput
begin

text \<open>
  When merging succeeds: every offset of a layout is at most the bytes of the leaders plus one
  alignment gap for each, so a group whose sections leave that much room is laid out, and phase 2 as a
  whole returns. The properties of the merge are stated here, where their witnesses can rely on success.
\<close>

section \<open>Room for a group\<close>

definition cost :: "nat \<Rightarrow> leader list \<Rightarrow> nat" where
  "cost a ls = (\<Sum>l\<leftarrow>ls. length (ld_bytes l) + (a - 1))"

lemma cost_simps [simp]: "cost a [] = 0" "cost a (l # ls) = length (ld_bytes l) + (a - 1) + cost a ls"
  "cost a (xs @ ys) = cost a xs + cost a ys"
  by (simp_all add: cost_def)

lemma place_end_le: "0 < a \<Longrightarrow> snd (place a (lens_of ls) x) \<le> x + cost a ls"
proof (induction ls arbitrary: x)
  case (Cons l ls)
  then have "snd (place a (lens_of ls) (round_up a x + length (ld_bytes l))) \<le> round_up a x + length (ld_bytes l) + cost a ls"
    by blast
  with round_up_props(3) [OF Cons.prems, of x] show ?case by (simp add: case_prod_unfold)
qed simp

lemma run_bases_succeeds:
  assumes pow: "is_power_of_two alignment"
    and "list_all2 (\<lambda>ls r. small_leaders ls \<and> lay_run alignment ls empty_run = Some r) Ls rs"
    and "unat nxt = round_up (unat alignment) (unat sz)"
    and "unat sz + cost (unat alignment) (concat Ls) + (unat alignment - 1) \<le> u64_max"
  shows "\<exists>bases sz'. run_bases alignment rs nxt sz = Some (bases, sz')"
  using assms(2-4)
proof (induction Ls rs arbitrary: nxt sz rule: list_all2_induct)
  case (Cons ls Ls r rs)
  let ?a = "unat alignment"
  have a: "0 < ?a" by (rule alignment_pos [OF pow])
  have small: "small_leaders ls" and lay: "lay_run alignment ls empty_run = Some r" using Cons.hyps by auto
  note r = lay_run_place [OF pow small lay]
  have pieces: "rl_pieces r = pieces_at ls (fst (place ?a (lens_of ls) 0))"
    using arg_cong [OF r [THEN conjunct1], of rl_pieces] by (simp add: empty_run_def)
  have span: "unat (rl_span r) = snd (place ?a (lens_of ls) 0)" using r [THEN conjunct2] by (simp add: empty_run_def)
  show ?case
  proof (cases "ls = []")
    case True
    then have "rl_pieces r = []" using pieces by simp
    moreover obtain bases sz' where "run_bases alignment rs nxt sz = Some (bases, sz')"
      using Cons.IH [of nxt sz] Cons.prems True by auto
    ultimately show ?thesis by simp
  next
    case False
    have ne: "rl_pieces r \<noteq> []" using False pieces by (cases ls) (simp_all add: pieces_at_def case_prod_unfold)
    have "lens_of ls \<noteq> []" using False by (cases ls) simp_all
    then have "place ?a (lens_of ls) (unat nxt) = place ?a (lens_of ls) (unat sz)"
      unfolding Cons.prems(1) by (rule place_round_up [OF a])
    then have nxt: "unat nxt + unat (rl_span r) = snd (place ?a (lens_of ls) (unat sz))"
      using place_shift [OF a, of "unat nxt" "lens_of ls" 0] round_up_props(1) [OF a, of "unat sz"]
      by (simp add: Cons.prems(1) span)
    have le: "snd (place ?a (lens_of ls) (unat sz)) \<le> unat sz + cost ?a ls" by (rule place_end_le [OF a])
    have fit: "unat nxt + unat (rl_span r) + cost ?a (concat Ls) + (?a - 1) \<le> u64_max"
      using nxt le Cons.prems(2) by simp
    then obtain sz' where sz': "checked_add_u64 nxt (rl_span r) = Some sz'" "unat sz' = unat nxt + unat (rl_span r)"
      using checked_add_u64_Some [of nxt "rl_span r" "nxt + rl_span r"] by (auto simp: checked_add_u64_Some checked_add_u64_def)
    have up: "round_up ?a (unat sz') \<le> u64_max" using round_up_props(3) [OF a, of "unat sz'"] fit sz'(2) by linarith
    have al: "align_to sz' alignment = Some (of_nat (round_up ?a (unat sz')))"
      unfolding align_to_Some [OF pow] using fit sz'(2) unat_of_nat_u64 [OF up] by simp
    have "\<exists>bases sz''. run_bases alignment rs (of_nat (round_up ?a (unat sz'))) sz' = Some (bases, sz'')"
      using fit sz'(2) unat_of_nat_u64 [OF up] by (intro Cons.IH) simp_all
    then show ?thesis using ne sz'(1) al by auto
  qed
qed simp

lemma align_add_succeeds:
  assumes pow: "is_power_of_two alignment" and n: "n \<le> u64_max"
    and fit: "unat sz + n + (unat alignment - 1) \<le> u64_max"
  obtains start sz' where "align_to sz alignment = Some start" "checked_add_u64 start (of_nat n) = Some sz'"
    "unat sz' \<le> unat sz + n + (unat alignment - 1)"
proof -
  let ?a = "unat alignment"
  have a: "0 < ?a" by (rule alignment_pos [OF pow])
  note up = round_up_props(3) [OF a, of "unat sz"]
  have u: "unat (of_nat (round_up ?a (unat sz)) :: u64) = round_up ?a (unat sz)" using up fit by (intro unat_of_nat_u64) linarith
  then have "align_to sz alignment = Some (of_nat (round_up ?a (unat sz)))"
    unfolding align_to_Some [OF pow] using fit by simp
  moreover have "checked_add_u64 (of_nat (round_up ?a (unat sz))) (of_nat n) = Some (of_nat (round_up ?a (unat sz) + n))"
    unfolding checked_add_u64_Some u using up fit n by (simp add: unat_of_nat_u64 del: of_nat_add)
  moreover have "unat (of_nat (round_up ?a (unat sz) + n) :: u64) \<le> unat sz + n + (?a - 1)"
    using up fit by (subst unat_of_nat_u64) linarith+
  ultimately show thesis by (rule that)
qed

lemma place_owners_succeeds:
  assumes pow: "is_power_of_two alignment" and small: "small_leaders ls"
  shows "\<forall>e\<in>set links. fst e < length ls \<Longrightarrow>
    unat (fst (snd st)) + cost (unat alignment) (map (\<lambda>e. ls ! fst e) links) + (unat alignment - 1) \<le> u64_max \<Longrightarrow>
    \<exists>st'. place_owners ls alignment links st = Some st'"
  using pow small
proof (induction ls alignment links st rule: place_owners.induct)
  case (2 ls alignment pos owner delta links offsets sz pieces)
  let ?own = "ls ! pos"
  have n: "length (ld_bytes ?own) \<le> u64_max" using "2.prems" by (force simp: small_leaders_def)
  show ?case
  proof (cases "unat owner = pos")
    case True
    have fit: "unat sz + length (ld_bytes ?own) + (unat alignment - 1) \<le> u64_max" using "2.prems"(2) by simp
    obtain start sz' where al: "align_to sz alignment = Some start"
      and add: "checked_add_u64 start (of_nat (length (ld_bytes ?own))) = Some sz'"
      and le: "unat sz' \<le> unat sz + length (ld_bytes ?own) + (unat alignment - 1)"
      by (rule align_add_succeeds [OF "2.prems"(3) n fit])
    have "\<exists>st'. place_owners ls alignment links (offsets[pos := start], sz', pieces @ [\<lparr>op_output_offset = start, op_section = ld_section ?own,
        op_input_offset = ld_input_offset ?own, op_len = of_nat (length (ld_bytes ?own))\<rparr>]) = Some st'"
      using True al add le "2.prems" by (intro "2.IH"(2)) auto
    then show ?thesis using True al add by (simp add: Let_def)
  next
    case False
    then show ?thesis using "2.IH"(1) "2.prems" by simp
  qed
qed auto

lemma map_enumerate_nth: "length xs = length ys \<Longrightarrow> map (\<lambda>e. ys ! fst e) (List.enumerate 0 xs) = ys"
  by (rule nth_equalityI) (simp_all add: nth_enumerate_eq)

lemma length_tail_links [simp]: "length (tail_links ls alignment order owner link) = length link"
  by (induction ls alignment order owner link rule: tail_links.induct) (auto simp: Let_def split: option.splits if_splits)

lemma cost_concat: "cost a (concat Ls) = (\<Sum>ls\<leftarrow>Ls. cost a ls)"
  by (induction Ls) simp_all

lemma layout_group_in_runs_succeeds:
  assumes pow: "is_power_of_two (mg_alignment grp)"
    and small: "small_leaders (group_leaders inputs piece_base leader members)"
    and fit: "cost (unat (mg_alignment grp)) (group_leaders inputs piece_base leader members) + (unat (mg_alignment grp) - 1) \<le> u64_max"
  shows "\<exists>mg out'. layout_group_in_runs grp members inputs piece_base leader out = Ok (mg, out')"
proof -
  let ?a = "mg_alignment grp"
  define Ls where "Ls = map (\<lambda>(a, b). concat (map (section_leaders inputs piece_base leader) (sub_slice members a b))) (member_runs piece_base members)"
  have all: "concat Ls = group_leaders inputs piece_base leader members"
    unfolding Ls_def by (rule group_leaders_runs)
  have runs: "\<exists>r. small_leaders ls \<and> lay_run ?a ls empty_run = Some r" if ls: "ls \<in> set Ls" for ls
  proof -
    have s: "small_leaders ls" using small ls unfolding all [symmetric] by (auto simp: small_leaders_def)
    have "cost (unat ?a) ls \<le> cost (unat ?a) (concat Ls)"
      unfolding cost_concat using ls by (intro member_le_sum_list) auto
    then have "snd (place (unat ?a) (lens_of ls) 0) + (unat ?a - 1) \<le> u64_max"
      using place_end_le [OF alignment_pos [OF pow], of ls 0] fit all by simp
    then show ?thesis using lay_run_succeeds [OF pow s, of empty_run] s by (simp add: empty_run_def)
  qed
  define rs where "rs = map (\<lambda>ls. the (lay_run ?a ls empty_run)) Ls"
  have local: "map (\<lambda>ls. lay_run ?a ls empty_run) Ls = map Some rs"
    using runs by (fastforce simp: rs_def)
  have coll: "collect_options (map (\<lambda>(a, b). lay_run ?a
            (concat (map (section_leaders inputs piece_base leader) (sub_slice members a b)))
            \<lparr>rl_pieces = [], rl_numbers = [], rl_span = 0\<rparr>) (member_runs piece_base members)) = Some rs"
    using local by (simp add: Ls_def comp_def case_prod_unfold empty_run_def collect_options_Some)
  have "list_all2 (\<lambda>ls r. small_leaders ls \<and> lay_run ?a ls empty_run = Some r) Ls rs"
    using runs by (fastforce simp: rs_def list_all2_conv_all_nth)
  then obtain bases sz where "run_bases ?a rs 0 0 = Some (bases, sz)"
    using run_bases_succeeds [OF pow, of Ls rs 0 0] fit round_up_0 [OF alignment_pos [OF pow]] by (auto simp: all)
  then show ?thesis using coll unfolding layout_group_in_runs_def by (simp add: Let_def)
qed

lemma layout_group_succeeds:
  assumes pow: "is_power_of_two (mg_alignment grp)"
    and small: "small_leaders (group_leaders inputs piece_base leader members)"
    and fit: "cost (unat (mg_alignment grp)) (group_leaders inputs piece_base leader members) + (unat (mg_alignment grp) - 1) \<le> u64_max"
  shows "\<exists>mg out'. layout_group grp members inputs piece_base leader out = Ok (mg, out')"
proof (cases "mg_tail_merge grp \<and> (case mg_kind grp of Strings _ \<Rightarrow> True | Fixed _ \<Rightarrow> False)")
  case False
  then show ?thesis using layout_group_in_runs_succeeds [OF assms] by (simp add: layout_group_def)
next
  case True
  define ls where "ls = group_leaders inputs piece_base leader members"
  define link where "link = tail_links ls (mg_alignment grp) (sort_by (tail_order ls) (map of_nat [0..<length ls])) None
    (map (\<lambda>i. (of_nat i, 0)) [0..<length ls])"
  have len: "length link = length ls" by (simp add: link_def)
  then have dom: "\<forall>e\<in>set (List.enumerate 0 link). fst e < length ls" by (auto simp: in_set_enumerate_eq)
  have "\<exists>st'. place_owners ls (mg_alignment grp) (List.enumerate 0 link) (replicate (length ls) 0, 0, []) = Some st'"
    using fit map_enumerate_nth [OF len] by (intro place_owners_succeeds [OF pow small [folded ls_def] dom]) (simp add: ls_def [symmetric])
  then show ?thesis
    using True unfolding layout_group_def link_def ls_def group_leaders_def by (auto simp: Let_def)
qed

section \<open>Room for phase 2\<close>

text \<open>The bytes of a group's sections, with an alignment gap for each piece and one more.\<close>

definition group_room :: "merge_input list \<Rightarrow> nat \<Rightarrow> nat \<Rightarrow> nat" where
  "group_room inputs g a =
     (\<Sum>s\<leftarrow>members_of inputs g. length (ss_data (mi_split (inputs ! s))) + num_pieces (mi_split (inputs ! s)) * (a - 1)) + (a - 1)"

lemma sum_list_filter_le: "(\<Sum>x\<leftarrow>filter P xs. f x) \<le> (\<Sum>x\<leftarrow>xs. f x :: nat)"
  by (induction xs) auto

lemma section_cost:
  assumes "split_ok hf (mi_split (inputs ! s))" and "s < length inputs" and "length L = last (numbers inputs)"
  shows "cost a (section_leaders inputs (numbers inputs) L s) \<le>
    length (ss_data (mi_split (inputs ! s))) + num_pieces (mi_split (inputs ! s)) * (a - 1)"
proof -
  let ?s = "mi_split (inputs ! s)"
  have "cost a (section_leaders inputs (numbers inputs) L s) =
      (\<Sum>p\<leftarrow>filter (\<lambda>p. unat (L ! index_of inputs p) = index_of inputs p) (map (Pair s) [0..<num_pieces ?s]).
         length (bytes_of (mi_split (inputs ! fst p)) (snd p)) + (a - 1))"
    by (simp add: cost_def section_leaders_eq [OF assms(2,3)] comp_def leader_of_def)
  also have "\<dots> \<le> (\<Sum>p\<leftarrow>map (Pair s) [0..<num_pieces ?s]. length (bytes_of (mi_split (inputs ! fst p)) (snd p)) + (a - 1))"
    by (rule sum_list_filter_le)
  also have "\<dots> = (\<Sum>i\<leftarrow>[0..<num_pieces ?s]. length (bytes_of ?s i)) + num_pieces ?s * (a - 1)"
    by (simp add: comp_def sum_list_addf sum_list_triv)
  also have "(\<Sum>i\<leftarrow>[0..<num_pieces ?s]. length (bytes_of ?s i)) = length (concat (map (bytes_of ?s) [0..<num_pieces ?s]))"
    by (simp add: length_concat comp_def)
  also have "\<dots> = length (ss_data ?s)"
    using concat_pieces [OF assms(1), of "num_pieces ?s"] by (simp add: cuts_end [OF assms(1)])
  finally show ?thesis .
qed

lemma group_cost:
  assumes num: "numbered hf inputs" and L: "length L = last (numbers inputs)"
  shows "cost a (group_leaders inputs (numbers inputs) L (members_of inputs g)) + (a - 1) \<le> group_room inputs g a"
proof -
  have "split_ok hf (mi_split (inputs ! s)) \<and> s < length inputs" if "s \<in> set (members_of inputs g)" for s
    using that num by (simp add: members_of_def numbered_def)
  then have "(\<Sum>s\<leftarrow>members_of inputs g. cost a (section_leaders inputs (numbers inputs) L s)) \<le>
      (\<Sum>s\<leftarrow>members_of inputs g. length (ss_data (mi_split (inputs ! s))) + num_pieces (mi_split (inputs ! s)) * (a - 1))"
    using section_cost L by (intro sum_list_mono) blast
  then show ?thesis by (simp add: group_room_def group_leaders_def cost_concat comp_def)
qed

lemma number_pieces_succeeds:
  "\<forall>inp\<in>set inputs. unat (mi_group inp) < length groups \<and> ss_kind (mi_split inp) = mg_kind (groups ! unat (mi_group inp)) \<and>
     ss_alignment (mi_split inp) \<le> mg_alignment (groups ! unat (mi_group inp)) \<Longrightarrow>
   tot + last (numbers inputs) \<le> usize_max \<Longrightarrow> \<exists>bases. number_pieces groups index tot inputs = Ok bases"
proof (induction inputs arbitrary: tot index)
  case (Cons input inputs)
  have n: "last (numbers (input # inputs)) = num_pieces (mi_split input) + last (numbers inputs)"
  proof -
    have "numbers inputs \<noteq> []" by (metis length_numbers list.size(3) nat.distinct(1))
    then show ?thesis by (simp add: numbers_def prefix_sums_Cons last_map)
  qed
  have "\<exists>bases. number_pieces groups (index + 1) (tot + num_pieces (mi_split input)) inputs = Ok bases"
    using Cons.prems n by (intro Cons.IH) simp_all
  then show ?case using Cons.prems n by (auto simp: get_nth_def checked_add_usize_def not_less)
qed simp

lemma layout_groups_succeeds:
  assumes "\<forall>k<length groups. \<forall>out. \<exists>mg out'. layout_group (groups ! k) (members (index + k)) inputs pb L out = Ok (mg, out')"
  shows "\<exists>mgs out'. layout_groups members inputs pb L index groups out = Ok (mgs, out')"
  using assms
proof (induction groups arbitrary: index out)
  case (Cons grp groups)
  obtain mg out1 where one: "layout_group grp (members index) inputs pb L out = Ok (mg, out1)" using Cons.prems by force
  have "\<forall>k<length groups. \<forall>out. \<exists>mg out'. layout_group (groups ! k) (members (index + 1 + k)) inputs pb L out = Ok (mg, out')"
    using Cons.prems by force
  then obtain mgs out' where "layout_groups members inputs pb L (index + 1) groups out1 = Ok (mgs, out')" using Cons.IH by blast
  with one show ?case by simp
qed simp

text \<open>What phase 2 checks, and room for every group.\<close>

definition mergeable :: "merge_group list \<Rightarrow> merge_input list \<Rightarrow> bitset option \<Rightarrow> bool" where
  "mergeable groups inputs live \<longleftrightarrow>
     list_all (\<lambda>g. valid_kind (mg_kind g) \<and> is_power_of_two (mg_alignment g)) groups \<and>
     list_all (\<lambda>inp. unat (mi_group inp) < length groups \<and> ss_kind (mi_split inp) = mg_kind (groups ! unat (mi_group inp)) \<and>
       ss_alignment (mi_split inp) \<le> mg_alignment (groups ! unat (mi_group inp))) inputs \<and>
     length groups \<le> usize_max \<and> length inputs \<le> u32_max \<and> last (numbers inputs) < u32_max \<and>
     (case live of None \<Rightarrow> True | Some l \<Rightarrow> bs_len l = last (numbers inputs)) \<and>
     list_all (\<lambda>g. group_room inputs g (unat (mg_alignment (groups ! g))) \<le> u64_max) [0..<length groups]"

lemma lay_out_succeeds:
  assumes ok: "mergeable groups inputs live" and split: "\<forall>inp\<in>set inputs. split_ok hf (mi_split inp)"
    and laws: "hash_table_laws ht un_hash elems"
  shows "\<exists>ml. lay_out ht groups inputs live = Ok ml"
proof -
  note def = ok [unfolded mergeable_def list_all_iff]
  let ?n = "last (numbers inputs)" and ?L = "deduplicate ht inputs (numbers inputs) (last (numbers inputs)) live"
  let ?builder = "fold (\<lambda>(index, input) b. csr_push b (unat (mi_group input)) index) (List.enumerate 0 inputs) (csr_builder_new (length groups))"
  have num: "numbered hf inputs" using def split by (simp add: numbered_def)
  have L: "length ?L = ?n" by (rule deduplicate_spec(1) [OF num laws])
  have chk: "check_groups groups = Ok ()" unfolding check_groups_Ok using def by blast
  obtain bases where b: "number_pieces groups 0 0 inputs = Ok bases"
    using number_pieces_succeeds [of inputs groups 0 0] def by auto
  then have base: "0 # bases = numbers inputs" using number_pieces_spec by simp
  have "\<forall>inp\<in>set inputs. unat (mi_group inp) < length groups" using def by blast
  then obtain members where mem: "csr_build ?builder = Ok members" "\<forall>g<length groups. csr_row members g = members_of inputs g"
    using members_row def by blast
  have one: "\<exists>mg out'. layout_group (groups ! g) (csr_row members g) inputs (numbers inputs) ?L out = Ok (mg, out')"
    if g: "g < length groups" for g out
  proof -
    have "is_power_of_two (mg_alignment (groups ! g))" "group_room inputs g (unat (mg_alignment (groups ! g))) \<le> u64_max"
      using def g by auto
    moreover have "small_leaders (group_leaders inputs (numbers inputs) ?L (members_of inputs g))"
      using leader_facts(1) [OF num L] group_leaders_eq [OF L] by simp
    ultimately show ?thesis
      using mem(2) g group_cost [OF num L, of "unat (mg_alignment (groups ! g))" g]
      by (intro layout_group_succeeds) simp_all
  qed
  then obtain mgs out where lay: "layout_groups (csr_row members) inputs (numbers inputs) ?L 0 groups (replicate ?n DEAD_OFFSET) = Ok (mgs, out)"
    using layout_groups_succeeds [of groups "csr_row members" 0] by force
  have n: "u32_try_from (length inputs) \<noteq> None" "u32_try_from ?n = Some (of_nat ?n)" "(of_nat ?n :: u32) \<noteq> DEAD_LEADER"
  proof -
    show "u32_try_from (length inputs) \<noteq> None" "u32_try_from ?n = Some (of_nat ?n)" using def by (simp_all add: u32_try_from_def)
    have "unat (of_nat ?n :: u32) = ?n" using def by (simp add: unat_of_nat)
    then show "(of_nat ?n :: u32) \<noteq> DEAD_LEADER" using def unat_dead_leader by force
  qed
  have live: "\<not> (case live of None \<Rightarrow> False | Some l \<Rightarrow> bs_len l \<noteq> ?n)" using def by (simp split: option.splits)
  show ?thesis
    unfolding lay_out_def chk b bind_result.simps Let_def base mem(1) using n live lay by simp
qed

section \<open>Both phases\<close>

lemma result_ok_Some: "result_ok r = Some a \<longleftrightarrow> r = Ok a"
  by (cases r) (simp_all add: result_ok_def)

lemma merge_sections_parts:
  assumes "merge_sections hf ht groups sections = Ok ms"
  obtains splits ml inputs where "length splits = length sections"
    "\<And>s. s < length sections \<Longrightarrow> \<exists>grp. get_nth groups (unat (sec_group (sections ! s))) = Some grp \<and>
       split_section hf (sec_data (sections ! s)) (mg_kind grp) (mg_alignment grp) = Ok (splits ! s)"
    "inputs = map (\<lambda>(split, section). \<lparr>mi_group = sec_group section, mi_split = split\<rparr>) (zip splits sections)"
    "lay_out ht groups inputs None = Ok ml" "ms = into_merged ml (map mi_split inputs) (map mi_group inputs)"
proof -
  let ?ins = "\<lambda>splits. map (\<lambda>(split, section). \<lparr>mi_group = sec_group section, mi_split = split\<rparr>) (zip splits sections)"
  from assms obtain splits where sp: "map (result_ok \<circ> split_one hf groups) sections = map Some splits"
    unfolding merge_sections_def Let_def
    by (auto simp: collect_options_Some [symmetric] split: option.splits prod.splits)
  with assms obtain ml where lay: "lay_out ht groups (?ins splits) None = Ok ml" and ms: "ms = into_merged ml splits (map sec_group sections)"
    unfolding merge_sections_def Let_def collect_options_Some [symmetric] lift_input_def
    by (auto simp: sp split: result.splits)
  have len: "length splits = length sections" using arg_cong [OF sp, of length] by simp
  have "map mi_split (?ins splits) = splits" "map mi_group (?ins splits) = map sec_group sections"
    using len by (simp_all add: comp_def case_prod_unfold list_eq_iff_nth_eq)
  moreover have "\<exists>grp. get_nth groups (unat (sec_group (sections ! s))) = Some grp \<and>
       split_section hf (sec_data (sections ! s)) (mg_kind grp) (mg_alignment grp) = Ok (splits ! s)" if "s < length sections" for s
  proof -
    have "split_one hf groups (sections ! s) = Ok (splits ! s)"
      using arg_cong [OF sp, of "\<lambda>xs. xs ! s"] that len by (simp add: result_ok_Some)
    then show ?thesis by (auto simp: split_one_def group_of_def split: option.splits)
  qed
  ultimately show thesis using that [OF len _ refl lay] ms by simp
qed

section \<open>An example\<close>

text \<open>Two string sections in one group with tail merging.\<close>

definition demo_groups :: "merge_group list" where
  "demo_groups = [\<lparr>mg_kind = Strings 1, mg_alignment = 1, mg_tail_merge = True\<rparr>]"

definition demo_sections :: "merge_section list" where
  "demo_sections = [\<lparr>sec_group = 0, sec_data = [98, 97, 0, 97, 0]\<rparr>, \<lparr>sec_group = 0, sec_data = [97, 0, 99, 0]\<rparr>]"

lemma demo_terminated: "terminated (Strings 1) [98, 97, 0, 97, 0]" "terminated (Strings 1) [97, 0, 99, 0]"
  by (simp_all add: terminated_def is_nul_def)

lemma demo_inputs_ok: "\<forall>inp\<in>set demo_inputs. split_ok demo_hash (mi_split inp)"
  using demo_numbered by (simp add: numbered_def)

lemma demo_mergeable: "mergeable demo_groups demo_inputs None"
proof -
  have "last (numbers demo_inputs) = 4" "group_room demo_inputs 0 1 = 9" by code_simp+
  moreover have "is_power_of_two 1" by code_simp
  ultimately show ?thesis
    using demo_split_data [OF demo_terminated(1)] demo_split_data [OF demo_terminated(2)]
    by (simp add: mergeable_def demo_groups_def demo_inputs_def)
qed

lemma demo_merged:
  obtains ms where "merge_split_sections (list_table un_hash) demo_groups demo_inputs None = Ok ms"
  using lay_out_succeeds [OF demo_mergeable demo_inputs_ok list_table_laws] by (auto simp: merge_split_sections_def)

lemma demo_sections_merged:
  obtains ms where "merge_sections demo_hash (list_table un_hash) demo_groups demo_sections = Ok ms"
proof -
  have chk: "check_groups demo_groups = Ok ()" by code_simp
  have grp: "group_of demo_groups sec = Ok (demo_groups ! 0)" if "sec_group sec = 0" for sec
    using that by (simp add: group_of_def demo_groups_def get_nth_def)
  have split: "result_ok (split_one demo_hash demo_groups sec) = Some (demo_split (sec_data sec))"
    if "sec_group sec = 0" "terminated (Strings 1) (sec_data sec)" "length (sec_data sec) \<le> u32_max" for sec
    using demo_split_data [OF that(2,3)] that(1) grp by (simp add: split_one_def result_ok_def demo_groups_def)
  obtain ml where "lay_out (list_table un_hash) demo_groups demo_inputs None = Ok ml"
    using lay_out_succeeds [OF demo_mergeable demo_inputs_ok list_table_laws] by blast
  then have "\<exists>ms. merge_sections demo_hash (list_table un_hash) demo_groups demo_sections = Ok ms"
    unfolding merge_sections_def
    by (simp add: chk grp split demo_sections_def demo_terminated lift_input_def demo_inputs_def [symmetric])
  then show thesis using that by blast
qed

section \<open>Properties\<close>

text \<open>
  C11. Phase 2 places every live piece and no other: a live piece has an offset that is a multiple of its
  group's alignment, lies inside the merged section and is the same for every live piece of the group
  with the same bytes; a piece that is not live has no offset.
\<close>

theorem merge_piece_offsets:
  "merge_split_sections ht groups inputs live = Ok ms \<Longrightarrow> length groups \<le> usize_max \<Longrightarrow>
   \<forall>inp\<in>set inputs. split_ok hf (mi_split inp) \<Longrightarrow> hash_table_laws ht un_hash elems \<Longrightarrow> p \<in> set (all_pieces inputs) \<Longrightarrow>
     (if live_at live (index_of inputs p) then
        \<exists>off. piece_output_offset ms (fst p) (of_nat (snd p)) = Some off \<and>
          unat (mg_alignment (groups ! unat (mi_group (inputs ! fst p)))) dvd unat off \<and>
          unat off + length (bytes_of (mi_split (inputs ! fst p)) (snd p)) \<le>
            unat (md_size (ms_groups ms ! unat (mi_group (inputs ! fst p)))) \<and>
          (\<forall>q\<in>set (all_pieces inputs). live_at live (index_of inputs q) \<longrightarrow> piece_key inputs q = piece_key inputs p \<longrightarrow>
             piece_output_offset ms (fst q) (of_nat (snd q)) = Some off)
      else piece_output_offset ms (fst p) (of_nat (snd p)) = None)"
proof -
  assume m: "merge_split_sections ht groups inputs live = Ok ms" and len: "length groups \<le> usize_max"
    and split: "\<forall>inp\<in>set inputs. split_ok hf (mi_split inp)" and laws: "hash_table_laws ht un_hash elems" and p: "p \<in> set (all_pieces inputs)"
  from m obtain ml where ok: "lay_out ht groups inputs live = Ok ml"
    and ms: "ms = into_merged ml (map mi_split inputs) (map mi_group inputs)" by (rule merge_split_sections_parts)
  note facts = lay_out_offsets [OF ok len split laws]
  have off: "piece_output_offset ms (fst q) (of_nat (snd q)) =
      (let off = ml_output_offset ml ! index_of inputs q in if off = DEAD_OFFSET then None else Some off)"
    if q: "q \<in> set (all_pieces inputs)" for q
    using facts(2,4) piece_output_offset_eq [OF facts(1) q unat_piece(2) [OF facts(1) q], of ms] by (simp add: ms into_merged_def)
  have same: "piece_output_offset ms (fst q) (of_nat (snd q)) = piece_output_offset ms (fst p) (of_nat (snd p))"
    if "q \<in> set (all_pieces inputs)" "live_at live (index_of inputs q)" "live_at live (index_of inputs p)" "piece_key inputs q = piece_key inputs p" for q
    using facts(8) [OF that(1) p that(2,3,4)] by (simp add: off that(1) p)
  show ?thesis
    using merged_piece [OF ok len split laws p unat_piece(2) [OF facts(1) p]] same unfolding ms homed_def by (auto; metis)
qed

theorem merge_piece_offsets_witness:
  "\<exists>ms off. merge_split_sections (list_table un_hash) demo_groups demo_inputs None = Ok ms \<and>
     piece_output_offset ms 0 1 = Some off \<and> piece_output_offset ms 1 0 = Some off"
proof -
  obtain ms where ms: "merge_split_sections (list_table un_hash) demo_groups demo_inputs None = Ok ms" by (rule demo_merged)
  have p: "(0, 1) \<in> set (all_pieces demo_inputs)" "(1, 0) \<in> set (all_pieces demo_inputs)"
    "piece_key demo_inputs (1, 0) = piece_key demo_inputs (0, 1)" by code_simp+
  have len: "length demo_groups \<le> usize_max" by (simp add: demo_groups_def)
  show ?thesis
    using merge_piece_offsets [OF ms len demo_inputs_ok list_table_laws p(1)] ms p
    by (force simp: live_at_def)
qed

text \<open>
  Merging moves bytes without changing them: for an offset of an input section whose piece is live,
  \<open>output_offset\<close> (with any cache) gives an offset of the merged section of its group, and in every
  buffer that \<open>write_group\<close> fills, the byte there is the input byte.
\<close>

theorem merge_preserves_bytes:
  "merge_split_sections ht groups inputs live = Ok ms \<Longrightarrow> length groups \<le> usize_max \<Longrightarrow>
   \<forall>inp\<in>set inputs. split_ok hf (mi_split inp) \<Longrightarrow> hash_table_laws ht un_hash elems \<Longrightarrow>
   s < length inputs \<Longrightarrow> unat x < length (ss_data (mi_split (inputs ! s))) \<Longrightarrow>
   \<forall>i<num_pieces (mi_split (inputs ! s)). fst (bounds (mi_split (inputs ! s)) i) \<le> unat x \<and>
      unat x < snd (bounds (mi_split (inputs ! s)) i) \<longrightarrow> live_at live (index_of inputs (s, i)) \<Longrightarrow>
   \<exists>y. merged_output_offset ms key cache s x = Some y \<and>
     (\<forall>buf out. write_group ms (unat (mi_group (inputs ! s))) buf = Ok out \<longrightarrow> length buf \<le> u64_max \<longrightarrow>
        unat y < length out \<and> out ! unat y = ss_data (mi_split (inputs ! s)) ! unat x)"
proof -
  assume m: "merge_split_sections ht groups inputs live = Ok ms" and len: "length groups \<le> usize_max"
    and split: "\<forall>inp\<in>set inputs. split_ok hf (mi_split inp)" and laws: "hash_table_laws ht un_hash elems"
    and s: "s < length inputs" and x: "unat x < length (ss_data (mi_split (inputs ! s)))"
    and live: "\<forall>i<num_pieces (mi_split (inputs ! s)). fst (bounds (mi_split (inputs ! s)) i) \<le> unat x \<and>
      unat x < snd (bounds (mi_split (inputs ! s)) i) \<longrightarrow> live_at live (index_of inputs (s, i))"
  from m obtain ml where ok: "lay_out ht groups inputs live = Ok ml"
    and ms: "ms = into_merged ml (map mi_split inputs) (map mi_group inputs)" by (rule merge_split_sections_parts)
  show ?thesis unfolding ms using live by (intro merged_byte [OF ok len split laws s x]) blast
qed

theorem merge_preserves_bytes_witness:
  "\<exists>ms y. merge_split_sections (list_table un_hash) demo_groups demo_inputs None = Ok ms \<and> merged_output_offset ms 64 (64, 0) 1 2 = Some y"
proof -
  obtain ms where ms: "merge_split_sections (list_table un_hash) demo_groups demo_inputs None = Ok ms" by (rule demo_merged)
  have len: "length demo_groups \<le> usize_max" "1 < length demo_inputs" "unat (2 :: u64) < length (ss_data (mi_split (demo_inputs ! 1)))"
    using demo_split_data [OF demo_terminated(2)] by (simp_all add: demo_groups_def demo_inputs_def)
  show ?thesis
    using merge_preserves_bytes [OF ms len(1) demo_inputs_ok list_table_laws len(2,3), of 64 "(64, 0)"] ms
    by (auto simp: live_at_def)
qed

text \<open>
  C3. From raw sections to the output file: after \<open>merge_sections\<close>, which splits every section and merges
  all pieces, each byte of each section is found in the merged section of its group at the offset
  \<open>output_offset\<close> gives.
\<close>

theorem merge_sections_preserves_bytes:
  "merge_sections hf ht groups sections = Ok ms \<Longrightarrow> length groups \<le> usize_max \<Longrightarrow> hash_table_laws ht un_hash elems \<Longrightarrow>
   s < length sections \<Longrightarrow> unat x < length (sec_data (sections ! s)) \<Longrightarrow>
   \<exists>y. merged_output_offset ms key cache s x = Some y \<and>
     (\<forall>buf out. write_group ms (unat (sec_group (sections ! s))) buf = Ok out \<longrightarrow> length buf \<le> u64_max \<longrightarrow>
        unat y < length out \<and> out ! unat y = sec_data (sections ! s) ! unat x)"
proof -
  assume m: "merge_sections hf ht groups sections = Ok ms" and len: "length groups \<le> usize_max"
    and laws: "hash_table_laws ht un_hash elems" and s: "s < length sections" and x: "unat x < length (sec_data (sections ! s))"
  from m obtain splits ml inputs where n: "length splits = length sections"
    and sp: "\<And>s. s < length sections \<Longrightarrow> \<exists>grp. get_nth groups (unat (sec_group (sections ! s))) = Some grp \<and>
       split_section hf (sec_data (sections ! s)) (mg_kind grp) (mg_alignment grp) = Ok (splits ! s)"
    and ins: "inputs = map (\<lambda>(split, section). \<lparr>mi_group = sec_group section, mi_split = split\<rparr>) (zip splits sections)"
    and ok: "lay_out ht groups inputs None = Ok ml" and ms: "ms = into_merged ml (map mi_split inputs) (map mi_group inputs)"
    by (rule merge_sections_parts) blast
  have at: "length inputs = length sections"
    "\<And>s. s < length sections \<Longrightarrow> inputs ! s = \<lparr>mi_group = sec_group (sections ! s), mi_split = splits ! s\<rparr>"
    using n by (simp_all add: ins)
  have sok: "split_ok hf (splits ! s) \<and> ss_data (splits ! s) = sec_data (sections ! s)" if "s < length sections" for s
    using sp [OF that] split_section_ok by blast
  then have split: "\<forall>inp\<in>set inputs. split_ok hf (mi_split inp)"
    using at by (auto simp: in_set_conv_nth)
  show ?thesis
    using merged_byte [OF ok len split laws, of s x key cache] s x at sok
    unfolding ms by (simp add: live_at_def)
qed

theorem merge_sections_preserves_bytes_witness:
  "\<exists>ms y. merge_sections demo_hash (list_table un_hash) demo_groups demo_sections = Ok ms \<and> merged_output_offset ms 64 (64, 0) 1 2 = Some y"
proof -
  obtain ms where ms: "merge_sections demo_hash (list_table un_hash) demo_groups demo_sections = Ok ms" by (rule demo_sections_merged)
  have len: "length demo_groups \<le> usize_max" "1 < length demo_sections" "unat (2 :: u64) < length (sec_data (demo_sections ! 1))"
    by (simp_all add: demo_groups_def demo_sections_def)
  show ?thesis
    using merge_sections_preserves_bytes [OF ms len(1) list_table_laws len(2,3), of 64 "(64, 0)"] ms by blast
qed

text \<open>
  C12. Merging returns: when the groups are valid, every input has the kind of its group and no larger
  alignment, the counts fit 32 bits, the liveness bitmap has a bit per piece, and the bytes of each group
  with an alignment gap per piece fit 64 bits, \<open>merge_split_sections\<close> gives a result and never an error.
  The result numbers the pieces of all sections consecutively, as the liveness bitmap does.
\<close>

theorem merge_split_sections_succeeds:
  "mergeable groups inputs live \<Longrightarrow> \<forall>inp\<in>set inputs. split_ok hf (mi_split inp) \<Longrightarrow> hash_table_laws ht un_hash elems \<Longrightarrow>
   \<exists>ms. merge_split_sections ht groups inputs live = Ok ms \<and> length (ms_groups ms) = length groups \<and>
     merged_num_sections ms = length inputs \<and> first_piece ms (length inputs) = Some (merged_num_pieces ms) \<and>
     list_all (\<lambda>s. first_piece ms s = Some (\<Sum>inp\<leftarrow>take s inputs. num_pieces (mi_split inp)) \<and>
       section_group ms s = Some (mi_group (inputs ! s)) \<and> merged_split ms s = Some (mi_split (inputs ! s))) [0..<length inputs]"
proof -
  assume ok: "mergeable groups inputs live" and split: "\<forall>inp\<in>set inputs. split_ok hf (mi_split inp)"
    and laws: "hash_table_laws ht un_hash elems"
  obtain ml where ml: "lay_out ht groups inputs live = Ok ml" using lay_out_succeeds [OF ok split laws] by blast
  have "length groups \<le> usize_max" using ok by (simp add: mergeable_def)
  note facts = lay_out_offsets(2,3,4) [OF ml this split laws]
  have "first_piece (into_merged ml (map mi_split inputs) (map mi_group inputs)) s = Some (\<Sum>inp\<leftarrow>take s inputs. num_pieces (mi_split inp))"
    if "s \<le> length inputs" for s
    using facts that by (simp add: first_piece_def into_merged_def get_nth_def numbers_def nth_prefix_sums take_map comp_def)
  then show ?thesis
    using ml facts last_numbers [of inputs]
    by (simp add: merge_split_sections_def list_all_iff merged_num_sections_def merged_num_pieces_def section_group_def
      merged_split_def into_merged_def get_nth_def first_piece_def)
qed

theorem merge_split_sections_succeeds_witness:
  "\<exists>ms. merge_split_sections (list_table un_hash) demo_groups demo_inputs None = Ok ms \<and> length (ms_groups ms) = 1"
  using merge_split_sections_succeeds [OF demo_mergeable demo_inputs_ok list_table_laws] by (auto simp: demo_groups_def)

text \<open>
  C13. The error of a malformed section is deterministic: whatever order the sections are split in, the
  error names the lowest-numbered section that does not split, with that section's own problem.
\<close>

theorem merge_sections_first_malformed:
  "check_groups groups = Ok () \<Longrightarrow> \<forall>sec\<in>set sections. unat (sec_group sec) < length groups \<Longrightarrow> i < length sections \<Longrightarrow>
   \<forall>j<i. \<exists>s. split_section hf (sec_data (sections ! j)) (mg_kind (groups ! unat (sec_group (sections ! j))))
      (mg_alignment (groups ! unat (sec_group (sections ! j)))) = Ok s \<Longrightarrow>
   split_section hf (sec_data (sections ! i)) (mg_kind (groups ! unat (sec_group (sections ! i))))
      (mg_alignment (groups ! unat (sec_group (sections ! i)))) = Err e \<Longrightarrow>
   merge_sections hf ht groups sections = Err (MalformedSection i e)"
proof -
  assume chk: "check_groups groups = Ok ()" and grp: "\<forall>sec\<in>set sections. unat (sec_group sec) < length groups"
    and i: "i < length sections"
    and before: "\<forall>j<i. \<exists>s. split_section hf (sec_data (sections ! j)) (mg_kind (groups ! unat (sec_group (sections ! j))))
      (mg_alignment (groups ! unat (sec_group (sections ! j)))) = Ok s"
    and bad: "split_section hf (sec_data (sections ! i)) (mg_kind (groups ! unat (sec_group (sections ! i))))
      (mg_alignment (groups ! unat (sec_group (sections ! i)))) = Err e"
  have one: "split_one hf groups (sections ! j) = split_section hf (sec_data (sections ! j))
      (mg_kind (groups ! unat (sec_group (sections ! j)))) (mg_alignment (groups ! unat (sec_group (sections ! j))))"
    if "j < length sections" for j
    using grp that by (simp add: split_one_def group_of_def get_nth_def)
  have "map (group_of groups) sections = map Ok (map (\<lambda>sec. groups ! unat (sec_group sec)) sections)"
    using grp by (simp add: group_of_def get_nth_def)
  then have all: "collect_results (map (group_of groups) sections) = Ok (map (\<lambda>sec. groups ! unat (sec_group sec)) sections)"
    by (simp add: collect_results_Ok)
  have "map (result_ok \<circ> split_one hf groups) sections \<noteq> map Some xs" for xs
  proof
    assume "map (result_ok \<circ> split_one hf groups) sections = map Some xs"
    from arg_cong [OF this, of "\<lambda>xs. xs ! i"] arg_cong [OF this, of length] show False
      using i one [OF i] bad by (simp add: result_ok_def)
  qed
  then have none: "collect_options (map (result_ok \<circ> split_one hf groups) sections) = None"
    by (metis collect_options_Some option.exhaust)
  have "find (\<lambda>j. result_ok (split_one hf groups (sections ! j)) = None) [0..<length sections] = Some i"
    unfolding find_Some_iff
    by (rule exI [of _ i]) (use i before bad one in \<open>auto simp: result_ok_def split: result.splits\<close>)
  then show ?thesis
    using bad one [OF i] unfolding merge_sections_def first_malformed_def by (simp add: chk all none lift_input_def)
qed

theorem merge_sections_first_malformed_witness:
  "merge_sections demo_hash (list_table un_hash) demo_groups (demo_sections @ [\<lparr>sec_group = 0, sec_data = [102, 0, 98]\<rparr>]) =
     Err (MalformedSection 2 \<lparr>mm_offset = 2, mm_problem = UnterminatedString\<rparr>)"
proof -
  let ?ss = "demo_sections @ [\<lparr>sec_group = 0, sec_data = [102, 0, 98]\<rparr>]"
  have chk: "check_groups demo_groups = Ok ()" by code_simp
  have bad: "split_section demo_hash (sec_data (?ss ! 2)) (mg_kind (demo_groups ! unat (sec_group (?ss ! 2))))
      (mg_alignment (demo_groups ! unat (sec_group (?ss ! 2)))) = Err \<lparr>mm_offset = 2, mm_problem = UnterminatedString\<rparr>"
    by code_simp
  have good: "\<forall>j<2. \<exists>s. split_section demo_hash (sec_data (?ss ! j)) (mg_kind (demo_groups ! unat (sec_group (?ss ! j))))
      (mg_alignment (demo_groups ! unat (sec_group (?ss ! j)))) = Ok s"
    using demo_split_data [OF demo_terminated(1)] demo_split_data [OF demo_terminated(2)]
    by (auto simp: demo_sections_def demo_groups_def less_2_cases_iff)
  have grp: "\<forall>sec\<in>set ?ss. unat (sec_group sec) < length demo_groups" and len: "2 < length ?ss"
    by (simp_all add: demo_sections_def demo_groups_def)
  show ?thesis by (rule merge_sections_first_malformed [OF chk grp len good bad])
qed

end
