(* ===== verification/SymbolDefs.thy ===== *)
theory SymbolDefs
  imports Ids
begin

text \<open>
  Symbol names, definitions and flags (src/src/symbols/name.rs, definition.rs, elf_reference.rs and
  flags.rs), and the cell of the symbol table that keeps a definition (table.rs). The hasher of names,
  foldhash, is a parameter: a function of the writes made to it.
\<close>

section \<open>Names and positions\<close>

type_synonym input_position = u64

definition position_new :: "u32 \<Rightarrow> u32 \<Rightarrow> input_position" where
  "position_new input member = push_bit 32 (ucast input) OR ucast member"

definition position_from_raw :: "u64 \<Rightarrow> input_position" where
  "position_from_raw raw = raw"

definition position_raw :: "input_position \<Rightarrow> u64" where
  "position_raw p = p"

definition position_input :: "input_position \<Rightarrow> u32" where
  "position_input p = ucast (drop_bit 32 p)"

definition position_member :: "input_position \<Rightarrow> u32" where
  "position_member p = ucast p"

datatype hash_write = Write "u8 list" | WriteU8 u8

record symbol_name =
  sn_bytes :: "u8 list"
  sn_version :: "u8 list option"
  sn_hash :: u64

definition name_with_version :: "(hash_write list \<Rightarrow> u64) \<Rightarrow> u8 list \<Rightarrow> u8 list option \<Rightarrow> symbol_name" where
  "name_with_version hf bytes version =
     \<lparr>sn_bytes = bytes, sn_version = version,
      sn_hash = hf (Write bytes # (case version of None \<Rightarrow> [] | Some v \<Rightarrow> [WriteU8 64, Write v]))\<rparr>"

definition name_new :: "(hash_write list \<Rightarrow> u64) \<Rightarrow> u8 list \<Rightarrow> symbol_name" where
  "name_new hf bytes = name_with_version hf bytes None"

definition cmp_contents :: "symbol_name \<Rightarrow> symbol_name \<Rightarrow> cmp_ordering" where
  "cmp_contents a b = then_ordering (cmp (sn_bytes a) (sn_bytes b)) (cmp (sn_version a) (sn_version b))"

definition name_eq :: "symbol_name \<Rightarrow> symbol_name \<Rightarrow> bool" where
  "name_eq a b \<longleftrightarrow> sn_hash a = sn_hash b \<and> sn_bytes a = sn_bytes b \<and> sn_version a = sn_version b"

lemma name_eq_iff [simp]: "name_eq a b \<longleftrightarrow> a = b"
  by (cases a; cases b) (auto simp: name_eq_def)

section \<open>Definitions and precedence\<close>

datatype definition_kind = Undefined | Lazy | Shared | Weak | Common | Regular

fun kind_as_u8 :: "definition_kind \<Rightarrow> u8" where
  "kind_as_u8 Undefined = 0"
| "kind_as_u8 Lazy = 1"
| "kind_as_u8 Shared = 2"
| "kind_as_u8 Weak = 3"
| "kind_as_u8 Common = 4"
| "kind_as_u8 Regular = 5"

definition kind_from_u8 :: "u8 \<Rightarrow> definition_kind" where
  "kind_from_u8 raw =
     (if raw = 1 then Lazy else if raw = 2 then Shared else if raw = 3 then Weak
      else if raw = 4 then Common else if raw = 5 then Regular else Undefined)"

record symbol_definition =
  df_kind :: definition_kind
  df_file :: file_id
  df_index :: u32
  df_position :: input_position
  df_aux :: u64

definition definition_undefined :: symbol_definition where
  "definition_undefined =
     \<lparr>df_kind = Undefined, df_file = id_from_u32 (- 1), df_index = - 1, df_position = position_from_raw (- 1), df_aux = 0\<rparr>"

definition is_defined :: "symbol_definition \<Rightarrow> bool" where
  "is_defined d \<longleftrightarrow> df_kind d \<noteq> Undefined"

definition tie_key :: "symbol_definition \<Rightarrow> input_position \<times> file_id \<times> u32" where
  "tie_key d = (df_position d, df_file d, df_index d)"

definition same_origin :: "symbol_definition \<Rightarrow> symbol_definition \<Rightarrow> bool" where
  "same_origin a b \<longleftrightarrow> df_file a = df_file b \<and> df_index a = df_index b"

text \<open>A format's rules: the trait \<open>Resolver\<close>.\<close>

record resolver =
  rs_compare :: "symbol_definition \<Rightarrow> symbol_definition \<Rightarrow> cmp_ordering"
  rs_is_duplicate :: "symbol_definition \<Rightarrow> symbol_definition \<Rightarrow> bool"
  rs_extracts :: "symbol_definition \<Rightarrow> bool"

definition default_extracts :: "symbol_definition \<Rightarrow> bool" where
  "default_extracts current \<longleftrightarrow> df_kind current = Lazy"

definition takes_precedence :: "resolver \<Rightarrow> symbol_definition \<Rightarrow> symbol_definition \<Rightarrow> bool" where
  "takes_precedence r candidate current =
     (if \<not> is_defined candidate then False
      else if \<not> is_defined current then True
      else case rs_compare r candidate current of
             Greater \<Rightarrow> True
           | Less \<Rightarrow> False
           | Equal \<Rightarrow> tie_key candidate < tie_key current)"

fun elf_rank :: "definition_kind \<Rightarrow> u8" where
  "elf_rank Undefined = 0"
| "elf_rank Lazy = 1"
| "elf_rank Shared = 2"
| "elf_rank Weak = 3"
| "elf_rank Common = 4"
| "elf_rank Regular = 5"

definition elf_compare :: "symbol_definition \<Rightarrow> symbol_definition \<Rightarrow> cmp_ordering" where
  "elf_compare a b =
     (let by_rank = cmp (elf_rank (df_kind a)) (elf_rank (df_kind b))
      in if by_rank = Equal \<and> df_kind a = Common then cmp (df_aux a) (df_aux b) else by_rank)"

definition elf_is_duplicate :: "symbol_definition \<Rightarrow> symbol_definition \<Rightarrow> bool" where
  "elf_is_duplicate winner other \<longleftrightarrow> df_kind winner = Regular \<and> df_kind other = Regular"

definition elf_rules :: resolver where
  "elf_rules = \<lparr>rs_compare = elf_compare, rs_is_duplicate = elf_is_duplicate, rs_extracts = default_extracts\<rparr>"

section \<open>The cell of a definition\<close>

record def_cell =
  dc_position :: u64
  dc_aux :: u64
  dc_file :: u32
  dc_index :: u32
  dc_kind :: u8

definition cell_undefined :: def_cell where
  "cell_undefined = \<lparr>dc_position = 0, dc_aux = 0, dc_file = 0, dc_index = 0, dc_kind = kind_as_u8 Undefined\<rparr>"

definition cell_load :: "def_cell \<Rightarrow> symbol_definition" where
  "cell_load c =
     (let kind = kind_from_u8 (dc_kind c)
      in if kind = Undefined then definition_undefined
         else \<lparr>df_kind = kind, df_file = id_from_u32 (dc_file c), df_index = dc_index c,
               df_position = position_from_raw (dc_position c), df_aux = dc_aux c\<rparr>)"

definition cell_store :: "symbol_definition \<Rightarrow> def_cell \<Rightarrow> def_cell" where
  "cell_store d c =
     c\<lparr>dc_file := id_as_u32 (df_file d), dc_index := df_index d, dc_position := position_raw (df_position d),
       dc_aux := df_aux d, dc_kind := kind_as_u8 (df_kind d)\<rparr>"

text \<open>
  The operations of the table on its cells: an id the table did not give out is a panic, None. The
  striped lock of the source makes each of them atomic.
\<close>

definition load_definition :: "def_cell list \<Rightarrow> usize \<Rightarrow> symbol_definition option" where
  "load_definition cells index = map_option cell_load (get_nth cells index)"

definition store_definition :: "def_cell list \<Rightarrow> usize \<Rightarrow> symbol_definition \<Rightarrow> def_cell list option" where
  "store_definition cells index d =
     (if index < length cells then Some (cells[index := cell_store d (cells ! index)]) else None)"

definition insert_definition :: "resolver \<Rightarrow> def_cell list \<Rightarrow> symbol_id \<Rightarrow> symbol_definition \<Rightarrow>
    (bool \<times> def_cell list) option" where
  "insert_definition r cells i candidate =
     (case load_definition cells (id_index i) of None \<Rightarrow> None
      | Some current \<Rightarrow>
          if \<not> takes_precedence r candidate current then Some (False, cells)
          else map_option (\<lambda>cells. (True, cells)) (store_definition cells (id_index i) candidate))"

definition replace_definition :: "def_cell list \<Rightarrow> symbol_id \<Rightarrow> symbol_definition \<Rightarrow> def_cell list option" where
  "replace_definition cells i d = store_definition cells (id_index i) d"

definition definition_of :: "def_cell list \<Rightarrow> symbol_id \<Rightarrow> symbol_definition option" where
  "definition_of cells i = load_definition cells (id_index i)"

definition definition_kind_of :: "def_cell list \<Rightarrow> symbol_id \<Rightarrow> definition_kind option" where
  "definition_kind_of cells i = map_option (\<lambda>c. kind_from_u8 (dc_kind c)) (get_nth cells (id_index i))"

definition definition_file_of :: "def_cell list \<Rightarrow> symbol_id \<Rightarrow> file_id option option" where
  "definition_file_of cells i =
     map_option (\<lambda>c. if dc_kind c \<noteq> kind_as_u8 Undefined then Some (id_from_u32 (dc_file c)) else None)
       (get_nth cells (id_index i))"

section \<open>Flags\<close>

definition REFERENCED :: u32 where
  "REFERENCED = push_bit 0 1"

definition WEAK_REFERENCED :: u32 where
  "WEAK_REFERENCED = push_bit 1 1"

definition FIRST_BACKEND_BIT :: u32 where
  "FIRST_BACKEND_BIT = 16"

text \<open>\<open>backend\<close> panics from bit 16 on.\<close>

definition flags_backend :: "u32 \<Rightarrow> u32 option" where
  "flags_backend n = (if n < 16 then Some (push_bit (unat (FIRST_BACKEND_BIT + n)) 1) else None)"

definition flags_contains :: "u32 \<Rightarrow> u32 \<Rightarrow> bool" where
  "flags_contains self other \<longleftrightarrow> self AND other = other"

definition flags_intersects :: "u32 \<Rightarrow> u32 \<Rightarrow> bool" where
  "flags_intersects self other \<longleftrightarrow> self AND other \<noteq> 0"

definition flags_is_empty :: "u32 \<Rightarrow> bool" where
  "flags_is_empty self \<longleftrightarrow> self = 0"

text \<open>The flags before, and the cell after.\<close>

definition flags_set :: "u32 \<Rightarrow> u32 \<Rightarrow> u32 \<times> u32" where
  "flags_set cell flags = (if cell AND flags = flags then (cell, cell) else (cell, cell OR flags))"

definition flags_clear :: "u32 \<Rightarrow> u32 \<Rightarrow> u32 \<times> u32" where
  "flags_clear cell flags = (cell, cell AND NOT flags)"

text \<open>
  Concurrent calls of \<open>set\<close>: a relaxed load, which may give any value the cell has held since bits are
  only set, then an atomic \<open>fetch_or\<close> unless the load had every bit.
\<close>

datatype set_task = Entered u32 | Loaded u32 | Returned u32 u32

inductive set_step :: "u32 \<times> set_task list \<Rightarrow> u32 \<times> set_task list \<Rightarrow> bool" where
  load: "i < length ts \<Longrightarrow> ts ! i = Entered flags \<Longrightarrow> seen AND cell = seen \<Longrightarrow>
     set_step (cell, ts) (cell, ts[i := if seen AND flags = flags then Returned flags seen else Loaded flags])"
| fetch_or: "i < length ts \<Longrightarrow> ts ! i = Loaded flags \<Longrightarrow>
     set_step (cell, ts) (cell OR flags, ts[i := Returned flags cell])"

end
