(* ===== verification/SymbolOrder.thy ===== *)
theory SymbolOrder
  imports SymbolDefs
begin

text \<open>
  Why symbol resolution does not depend on which thread runs first: the definition a symbol ends with
  is the maximum of the candidates offered, in any order, and concurrent flag updates are all kept,
  with exactly one first setter for each bit.
\<close>

section \<open>Keeping the best of a sequence\<close>

definition keep_best :: "('a \<Rightarrow> 'a \<Rightarrow> cmp_ordering) \<Rightarrow> 'a \<Rightarrow> 'a \<Rightarrow> 'a" where
  "keep_best c new cur = (if c new cur = Greater then new else cur)"

context comparison
begin

lemma not_Greater_swap: "compare a b \<noteq> Greater \<Longrightarrow> compare b a \<noteq> Greater \<Longrightarrow> compare a b = Equal"
  using compare_swap [of b a] by (cases "compare a b") auto

lemma fold_keep_best:
  "fold (keep_best compare) xs cur \<in> insert cur (set xs) \<and>
   (\<forall>x\<in>insert cur (set xs). compare x (fold (keep_best compare) xs cur) \<noteq> Greater)"
proof (induction xs arbitrary: cur)
  case (Cons x xs)
  let ?k = "keep_best compare x cur"
  have k: "?k \<in> {x, cur}" "compare x ?k \<noteq> Greater" "compare cur ?k \<noteq> Greater"
    using compare_total [of x cur] by (auto simp: keep_best_def)
  note ih = Cons.IH [of ?k]
  then have "compare ?k (fold (keep_best compare) xs ?k) \<noteq> Greater" by blast
  then have "compare x (fold (keep_best compare) xs ?k) \<noteq> Greater" "compare cur (fold (keep_best compare) xs ?k) \<noteq> Greater"
    using k(2,3) compare_trans by blast+
  with k(1) ih show ?case by auto
qed simp

lemma keep_best_any_order:
  assumes "set xs = set ys" and "\<And>a b. a \<in> insert cur (set xs) \<Longrightarrow> b \<in> insert cur (set xs) \<Longrightarrow> compare a b = Equal \<Longrightarrow> a = b"
  shows "fold (keep_best compare) xs cur = fold (keep_best compare) ys cur"
proof -
  have "compare (fold (keep_best compare) xs cur) (fold (keep_best compare) ys cur) = Equal"
    using fold_keep_best [of xs cur] fold_keep_best [of ys cur] assms(1) by (intro not_Greater_swap) auto
  then show ?thesis using fold_keep_best [of xs cur] fold_keep_best [of ys cur] assms by blast
qed

end

section \<open>Precedence is an order\<close>

text \<open>\<open>takes_precedence\<close> as a three-way comparison.\<close>

definition precedence :: "resolver \<Rightarrow> symbol_definition \<Rightarrow> symbol_definition \<Rightarrow> cmp_ordering" where
  "precedence r a b =
     (if is_defined a \<and> is_defined b then then_ordering (rs_compare r a b) (cmp (tie_key b) (tie_key a))
      else cmp (is_defined a) (is_defined b))"

lemma takes_precedence_iff: "takes_precedence r a b \<longleftrightarrow> precedence r a b = Greater"
  by (auto simp: takes_precedence_def precedence_def cmp_def split: cmp_ordering.splits)

lemma comparison_flip: "comparison c \<Longrightarrow> comparison (\<lambda>a b. c b a)"
  unfolding comparison_def by (metis reverse_ordering.simps)

lemma comparison_precedence:
  assumes "comparison (rs_compare r)"
  shows "comparison (precedence r)"
proof -
  have both: "comparison (\<lambda>a b. then_ordering (rs_compare r a b) (cmp (tie_key b) (tie_key a)))"
    by (rule comparison_then [OF assms comparison_flip [OF comparison_of_key]])
  show ?thesis
  proof
    fix a b c
    show "precedence r b a = reverse_ordering (precedence r a b)"
      using comparison.compare_swap [OF both, of b a] cmp_swap [of "is_defined b" "is_defined a"] by (simp add: precedence_def)
    show "precedence r a b \<noteq> Greater \<Longrightarrow> precedence r b c \<noteq> Greater \<Longrightarrow> precedence r a c \<noteq> Greater"
      using comparison.compare_trans [OF both, of a b c]
      by (cases "is_defined a"; cases "is_defined b"; cases "is_defined c") (auto simp: precedence_def cmp_def)
  qed
qed

lemma precedence_Equal:
  "is_defined a \<Longrightarrow> precedence r a b = Equal \<Longrightarrow> is_defined b \<and> tie_key a = tie_key b"
  by (auto simp: precedence_def cmp_def split: if_splits cmp_ordering.splits elim: then_ordering.elims)

lemma comparison_elf: "comparison elf_compare"
proof -
  let ?key = "\<lambda>d :: symbol_definition. (elf_rank (df_kind d), if df_kind d = Common then df_aux d else 0)"
  have eq: "elf_compare a b = cmp (?key a) (?key b)" for a b
    by (cases "df_kind a"; cases "df_kind b") (auto simp: elf_compare_def cmp_def less_prod_def)
  have "elf_compare = (\<lambda>a b. cmp (?key a) (?key b))" by (intro ext eq)
  then show ?thesis by (rule ssubst) (rule comparison_of_key)
qed

interpretation elf_precedence: comparison "precedence elf_rules"
  by (rule comparison_precedence) (simp add: elf_rules_def comparison_elf)

section \<open>The definitions of the table\<close>

fun insert_all :: "resolver \<Rightarrow> def_cell list \<Rightarrow> (symbol_id \<times> symbol_definition) list \<Rightarrow> def_cell list option" where
  "insert_all r cells [] = Some cells"
| "insert_all r cells ((i, d) # offers) =
     (case insert_definition r cells i d of None \<Rightarrow> None | Some (_, cells) \<Rightarrow> insert_all r cells offers)"

lemma kind_roundtrip [simp]: "kind_from_u8 (kind_as_u8 k) = k"
  by (cases k) (simp_all add: kind_from_u8_def)

lemma kind_as_u8_Undefined: "kind_as_u8 k = kind_as_u8 Undefined \<longleftrightarrow> k = Undefined"
  by (cases k) simp_all

lemma cell_load_store: "is_defined d \<Longrightarrow> cell_load (cell_store d c) = d"
  by (cases d) (simp add: cell_load_def cell_store_def is_defined_def id_from_u32_def id_as_u32_def position_raw_def position_from_raw_def)

lemma cell_load_undefined [simp]: "cell_load cell_undefined = definition_undefined"
  by (simp add: cell_load_def cell_undefined_def kind_from_u8_def)

text \<open>The cell a definition is kept in: an untouched one, or one that was stored.\<close>

definition cell_of :: "symbol_definition \<Rightarrow> def_cell" where
  "cell_of d = (if is_defined d then cell_store d cell_undefined else cell_undefined)"

lemma cell_store_any: "cell_store d c = cell_store d cell_undefined"
  by (simp add: cell_store_def)

lemma undefined_not_defined [simp]: "\<not> is_defined definition_undefined"
  by (simp add: is_defined_def definition_undefined_def)

lemma load_cell_of: "cell_load (cell_of d) = (if is_defined d then d else definition_undefined)"
  by (simp add: cell_of_def cell_load_store)

lemma insert_definition_keep_best:
  assumes "id_index i < length ds" and "\<forall>d\<in>set ds. is_defined d \<or> d = definition_undefined"
  shows "\<exists>b. insert_definition r (map cell_of ds) i d =
    Some (b, map cell_of (ds[id_index i := keep_best (precedence r) d (ds ! id_index i)]))"
proof -
  let ?cur = "ds ! id_index i"
  have cur: "cell_load (cell_of ?cur) = ?cur" using assms by (auto simp: load_cell_of)
  have "takes_precedence r d ?cur \<Longrightarrow> cell_store d c = cell_of d" for c
    by (auto simp: cell_of_def takes_precedence_def cell_store_any [of d c])
  moreover have "(map cell_of ds)[id_index i := cell_of ?cur] = map cell_of ds" by (metis list_update_id map_update)
  ultimately show ?thesis using assms(1)
    by (auto simp: insert_definition_def load_definition_def get_nth_def cur store_definition_def keep_best_def
        takes_precedence_iff [symmetric] map_update)
qed

lemma insert_all_keep_best:
  assumes "\<forall>(i, d)\<in>set offers. id_index i < length ds" and "\<forall>d\<in>set ds. is_defined d \<or> d = definition_undefined"
  shows "insert_all r (map cell_of ds) offers = Some (map cell_of
    (map (\<lambda>n. fold (keep_best (precedence r)) (map snd (filter (\<lambda>(i, d). id_index i = n) offers)) (ds ! n)) [0..<length ds]))"
  using assms
proof (induction offers arbitrary: ds)
  case Nil
  have "map ((!) ds) [0..<length ds] = ds" by (rule map_nth)
  then show ?case by simp
next
  case (Cons offer offers)
  obtain i d where o: "offer = (i, d)" by (cases offer)
  let ?ds = "ds[id_index i := keep_best (precedence r) d (ds ! id_index i)]"
  have i: "id_index i < length ds" using Cons.prems(1) by (simp add: o)
  have und: "\<forall>d\<in>set ?ds. is_defined d \<or> d = definition_undefined"
  proof
    fix x assume "x \<in> set ?ds"
    then have "x \<in> set ds \<or> x = keep_best (precedence r) d (ds ! id_index i)" using set_update_subset_insert by fastforce
    moreover have "takes_precedence r d y \<Longrightarrow> is_defined d" for y by (simp add: takes_precedence_def split: if_splits)
    moreover have "is_defined (ds ! id_index i) \<or> ds ! id_index i = definition_undefined" using Cons.prems(2) i nth_mem by blast
    ultimately show "is_defined x \<or> x = definition_undefined"
      using Cons.prems(2) by (cases "takes_precedence r d (ds ! id_index i)") (auto simp: keep_best_def takes_precedence_iff [symmetric])
  qed
  obtain b where b: "insert_definition r (map cell_of ds) i d = Some (b, map cell_of ?ds)"
    using insert_definition_keep_best [OF i Cons.prems(2)] by blast
  have "fold (keep_best (precedence r)) (map snd (filter (\<lambda>(j, d). id_index j = n) offers)) (?ds ! n) =
      fold (keep_best (precedence r)) (map snd (filter (\<lambda>(j, d). id_index j = n) (offer # offers))) (ds ! n)"
    if "n < length ds" for n using that i by (cases "n = id_index i") (auto simp: o)
  then show ?case using Cons.IH [OF _ und] Cons.prems(1) b by (auto simp: o)
qed

text \<open>A candidate that defines nothing never counts.\<close>

lemma keep_best_undefined: "\<not> is_defined d \<Longrightarrow> keep_best (precedence r) d cur = cur"
  by (simp add: keep_best_def takes_precedence_iff [symmetric] takes_precedence_def)

lemma fold_keep_best_defined:
  "fold (keep_best (precedence r)) ds cur = fold (keep_best (precedence r)) (filter is_defined ds) cur"
  by (induction ds arbitrary: cur) (simp_all add: keep_best_undefined)

lemma best_of_offers:
  assumes cmp: "comparison (rs_compare r)" and "set ds = set es"
    and inj: "\<And>a b. a \<in> set ds \<Longrightarrow> b \<in> set ds \<Longrightarrow> is_defined a \<Longrightarrow> is_defined b \<Longrightarrow> tie_key a = tie_key b \<Longrightarrow> a = b"
  shows "fold (keep_best (precedence r)) ds definition_undefined = fold (keep_best (precedence r)) es definition_undefined"
proof -
  have "fold (keep_best (precedence r)) (filter is_defined ds) definition_undefined =
      fold (keep_best (precedence r)) (filter is_defined es) definition_undefined"
  proof (rule comparison.keep_best_any_order [OF comparison_precedence [OF cmp]])
    fix a b assume "a \<in> insert definition_undefined (set (filter is_defined ds))"
      "b \<in> insert definition_undefined (set (filter is_defined ds))" and eq: "precedence r a b = Equal"
    moreover have "precedence r b a = Equal"
      using eq comparison.compare_equal_sym [OF comparison_precedence [OF cmp]] by blast
    ultimately show "a = b"
      using inj precedence_Equal [of a r b] precedence_Equal [of b r a] by auto
  qed (simp add: assms(2))
  then show ?thesis using fold_keep_best_defined by metis
qed

lemma best_of_offers_winner:
  assumes cmp: "comparison (rs_compare r)"
    and inj: "\<And>a b. a \<in> set ds \<Longrightarrow> b \<in> set ds \<Longrightarrow> is_defined a \<Longrightarrow> is_defined b \<Longrightarrow> tie_key a = tie_key b \<Longrightarrow> a = b"
  defines "best \<equiv> fold (keep_best (precedence r)) ds definition_undefined"
  shows "if \<exists>d\<in>set ds. is_defined d
    then best \<in> set ds \<and> is_defined best \<and> (\<forall>e\<in>set ds. e \<noteq> best \<longrightarrow> takes_precedence r best e)
    else best = definition_undefined"
proof -
  let ?ds = "filter is_defined ds"
  have best: "best = fold (keep_best (precedence r)) ?ds definition_undefined"
    unfolding best_def by (rule fold_keep_best_defined)
  note max = comparison.fold_keep_best [OF comparison_precedence [OF cmp], of ?ds definition_undefined, folded best]
  show ?thesis
  proof (cases "\<exists>d\<in>set ds. is_defined d")
    case True
    then obtain d where d: "d \<in> set ds" "is_defined d" by blast
    have "best \<noteq> definition_undefined"
    proof
      assume "best = definition_undefined"
      moreover have "precedence r d definition_undefined = Greater" using d(2) by (simp add: precedence_def cmp_def)
      ultimately show False using max d by auto
    qed
    then have b: "best \<in> set ds" "is_defined best" using max by auto
    have "takes_precedence r best e" if e: "e \<in> set ds" "e \<noteq> best" for e
    proof (cases "is_defined e")
      case True
      then have le: "precedence r e best \<noteq> Greater" using max e by auto
      have "precedence r e best \<noteq> Equal" using precedence_Equal [OF True, of r best] inj [OF e(1) b(1)] e(2) True by blast
      with le have "precedence r best e = Greater"
        using comparison.compare_swap [OF comparison_precedence [OF cmp], of best e] by (cases "precedence r e best") simp_all
      then show ?thesis by (simp add: takes_precedence_iff)
    qed (use b(2) in \<open>simp add: takes_precedence_def\<close>)
    with b True show ?thesis by simp
  next
    case False
    then have "?ds = []" by (simp add: filter_empty_conv)
    with False best show ?thesis by simp
  qed
qed

definition fresh_cells :: "nat \<Rightarrow> def_cell list" where
  "fresh_cells n = replicate n cell_undefined"

lemma insert_all_fresh:
  assumes "\<forall>(i, d)\<in>set offers. id_index i < n"
  shows "insert_all r (fresh_cells n) offers = Some (map cell_of (map (\<lambda>m. fold (keep_best (precedence r))
    (map snd (filter (\<lambda>(i, d). id_index i = m) offers)) definition_undefined) [0..<n]))"
proof -
  have "fresh_cells n = map cell_of (replicate n definition_undefined)" by (simp add: fresh_cells_def cell_of_def)
  moreover have "\<forall>d\<in>set (replicate n definition_undefined). is_defined d \<or> d = definition_undefined" by auto
  ultimately show ?thesis
    using insert_all_keep_best [of offers "replicate n definition_undefined" r] assms
    by (simp cong: map_cong)
qed

section \<open>Concurrent flags\<close>

fun task_flags :: "set_task \<Rightarrow> u32" where
  "task_flags (Entered f) = f"
| "task_flags (Loaded f) = f"
| "task_flags (Returned f before) = f"

text \<open>
  A call that has returned has its bits in the cell. The bits of the cell that were not there at the
  start each have one call that found them clear, among those that set them.
\<close>

definition set_inv :: "u32 \<Rightarrow> u32 list \<Rightarrow> u32 \<times> set_task list \<Rightarrow> bool" where
  "set_inv cell0 fs st = (case st of (cell, ts) \<Rightarrow>
     map task_flags ts = fs \<and>
     (\<forall>n. bit cell0 n \<longrightarrow> bit cell n) \<and>
     (\<forall>n. bit cell n \<longrightarrow> bit cell0 n \<or> (\<exists>f\<in>set fs. bit f n)) \<and>
     (\<forall>i<length ts. \<forall>f before n. ts ! i = Returned f before \<longrightarrow> (bit f n \<or> bit before n \<longrightarrow> bit cell n)) \<and>
     (\<forall>n. bit cell n \<and> \<not> bit cell0 n \<longrightarrow>
        (\<exists>!i. i < length ts \<and> (\<exists>f before. ts ! i = Returned f before \<and> bit f n \<and> \<not> bit before n))))"

lemma set_inv_start: "set_inv cell fs (cell, map Entered fs)"
  by (simp add: set_inv_def comp_def)

lemma and_eq_iff_bits: "a AND b = a \<longleftrightarrow> (\<forall>n. bit a n \<longrightarrow> bit b n)" for a b :: u32
  by (metis bit_and_iff bit_word_eqI)

definition first_setter :: "set_task list \<Rightarrow> nat \<Rightarrow> nat \<Rightarrow> bool" where
  "first_setter ts n i \<longleftrightarrow> i < length ts \<and> (\<exists>f before. ts ! i = Returned f before \<and> bit f n \<and> \<not> bit before n)"

lemma first_setter_update:
  assumes "i < length ts" and "\<And>f before. ts ! i \<noteq> Returned f before"
  shows "first_setter (ts[i := t]) n j \<longleftrightarrow> (if j = i then first_setter [t] n 0 else first_setter ts n j)"
  using assms by (auto simp: first_setter_def nth_list_update)

lemma set_inv_step:
  assumes inv: "set_inv cell0 fs (cell, ts)" and i: "i < length ts" and t: "task_flags t = task_flags (ts ! i)"
    and new: "\<And>f before. ts ! i \<noteq> Returned f before"
    and cell: "cell' = cell \<or> cell' = cell OR task_flags t"
    and ret: "\<And>f before n. t = Returned f before \<Longrightarrow> bit f n \<or> bit before n \<Longrightarrow> bit cell' n"
    and first: "\<And>n. first_setter [t] n 0 \<longleftrightarrow> bit cell' n \<and> \<not> bit cell n"
  shows "set_inv cell0 fs (cell', ts[i := t])"
proof -
  have flags: "map task_flags ts = fs" and keep: "\<And>n. bit cell0 n \<Longrightarrow> bit cell n"
    and src: "\<And>n. bit cell n \<Longrightarrow> bit cell0 n \<or> (\<exists>f\<in>set fs. bit f n)"
    and old: "\<And>j f before n. j < length ts \<Longrightarrow> ts ! j = Returned f before \<Longrightarrow> bit f n \<or> bit before n \<Longrightarrow> bit cell n"
    and one: "\<And>n. bit cell n \<Longrightarrow> \<not> bit cell0 n \<Longrightarrow> \<exists>!j. first_setter ts n j"
    using inv unfolding set_inv_def first_setter_def by auto
  have grow: "bit cell n \<Longrightarrow> bit cell' n" for n using cell by (auto simp: bit_or_iff)
  have none: "\<not> first_setter ts n i" for n using new by (simp add: first_setter_def)
  have fresh: "\<not> bit cell n \<Longrightarrow> \<not> first_setter ts n j" for n j using old by (auto simp: first_setter_def)
  have "task_flags t \<in> set fs" using flags i t by (metis length_map nth_map nth_mem)
  then have "bit cell' n \<Longrightarrow> bit cell0 n \<or> (\<exists>f\<in>set fs. bit f n)" for n using cell src [of n] by (auto simp: bit_or_iff)
  moreover have "map task_flags (ts[i := t]) = fs" using flags i t by (metis list_update_id map_update)
  moreover have "\<exists>!j. first_setter (ts[i := t]) n j" if "bit cell' n" "\<not> bit cell0 n" for n
  proof (cases "bit cell n")
    case True
    then have "\<not> first_setter [t] n 0" using first by simp
    then have "first_setter (ts[i := t]) n j \<longleftrightarrow> first_setter ts n j" for j
      using none by (auto simp: first_setter_update [OF i new])
    then show ?thesis using one [OF True that(2)] by simp
  next
    case False
    then have "first_setter (ts[i := t]) n j \<longleftrightarrow> j = i" for j
      using fresh first that(1) by (auto simp: first_setter_update [OF i new])
    then show ?thesis by simp
  qed
  moreover have "bit cell' n" if "j < length (ts[i := t])" "ts[i := t] ! j = Returned f before" "bit f n \<or> bit before n" for j f before n
    using that ret old grow i by (cases "j = i") auto
  ultimately show ?thesis using grow keep unfolding set_inv_def first_setter_def [symmetric] by auto
qed

lemma set_inv_steps: "set_step\<^sup>*\<^sup>* s s' \<Longrightarrow> set_inv cell0 fs s \<Longrightarrow> set_inv cell0 fs s'"
proof (induction rule: rtranclp_induct)
  case (step s' s'')
  from step.hyps(2) step.IH [OF step.prems] show ?case
  proof (cases rule: set_step.cases)
    case (load i ts flags seen cell)
    have sub: "bit seen n \<Longrightarrow> bit cell n" for n using load(5) by (auto simp: and_eq_iff_bits)
    have all: "seen AND flags = flags \<Longrightarrow> bit flags n \<Longrightarrow> bit seen n" for n by (metis bit_and_iff)
    show ?thesis
      unfolding load(2)
      by (rule set_inv_step [of _ _ cell ts i]) (use step.IH [OF step.prems] load sub all in \<open>auto simp: first_setter_def split: if_splits\<close>)
  next
    case (fetch_or i ts flags cell)
    show ?thesis
      unfolding fetch_or(2)
      by (rule set_inv_step [of _ _ cell ts i]) (use step.IH [OF step.prems] fetch_or in \<open>auto simp: first_setter_def bit_or_iff\<close>)
  qed
qed

lemma bit_fold_or: "bit (fold (OR) fs cell) n \<longleftrightarrow> bit cell n \<or> (\<exists>f\<in>set fs. bit f n)" for cell :: u32
  by (induction fs arbitrary: cell) (auto simp: bit_or_iff)

definition demo_offers :: "(symbol_id \<times> symbol_definition) list" where
  "demo_offers =
     [(0, \<lparr>df_kind = Weak, df_file = 1, df_index = 0, df_position = 1, df_aux = 0\<rparr>),
      (0, \<lparr>df_kind = Regular, df_file = 2, df_index = 4, df_position = 2, df_aux = 0\<rparr>)]"

section \<open>Properties\<close>

text \<open>
  C25. Definitions are chosen independently of scheduling: for every precedence rule that is a total
  preorder, as the trait demands, inserting a set of definitions in any order leaves the same cells. A
  symbol none of them defines stays undefined; any other has the one definition that takes precedence
  over every other offered for it.
\<close>

theorem insert_definitions_any_order:
  "comparison (rs_compare r) \<Longrightarrow> \<forall>(i, d)\<in>set offers. id_index i < n \<Longrightarrow>
   \<forall>(i, d)\<in>set offers. \<forall>(j, e)\<in>set offers. i = j \<and> is_defined d \<and> is_defined e \<and> tie_key d = tie_key e \<longrightarrow> d = e \<Longrightarrow>
   \<exists>cells. (\<forall>offers'. set offers' = set offers \<longrightarrow> insert_all r (fresh_cells n) offers' = Some cells) \<and>
     (\<forall>i. id_index i < n \<longrightarrow>
        (if \<exists>d. (i, d) \<in> set offers \<and> is_defined d
         then \<exists>d. definition_of cells i = Some d \<and> (i, d) \<in> set offers \<and>
           (\<forall>e. (i, e) \<in> set offers \<and> e \<noteq> d \<longrightarrow> takes_precedence r d e)
         else definition_of cells i = Some definition_undefined))"
proof -
  assume cmp: "comparison (rs_compare r)" and dom: "\<forall>(i, d)\<in>set offers. id_index i < n"
    and inj: "\<forall>(i, d)\<in>set offers. \<forall>(j, e)\<in>set offers. i = j \<and> is_defined d \<and> is_defined e \<and> tie_key d = tie_key e \<longrightarrow> d = e"
  define at where "at = (\<lambda>offers' :: (symbol_id \<times> symbol_definition) list. \<lambda>m. map snd (filter (\<lambda>(i, d). id_index i = m) offers'))"
  define best where "best = (\<lambda>m. fold (keep_best (precedence r)) (at offers m) definition_undefined)"
  define cells where "cells = map cell_of (map best [0..<n])"
  have mem: "d \<in> set (at xs m) \<longleftrightarrow> (\<exists>i. id_index i = m \<and> (i, d) \<in> set xs)" for d xs m by (force simp: at_def)
  have one: "a = b" if "a \<in> set (at offers m)" "b \<in> set (at offers m)" "is_defined a" "is_defined b" "tie_key a = tie_key b" for a b m
    using that inj unfolding mem by fastforce
  have "insert_all r (fresh_cells n) offers' = Some cells" if "set offers' = set offers" for offers'
  proof -
    have "fold (keep_best (precedence r)) (at offers' m) definition_undefined = best m" for m
      unfolding best_def using that one [of _ m]
      by (intro best_of_offers [OF cmp, symmetric]) (auto simp: at_def)
    then show ?thesis using insert_all_fresh [of offers' n r] dom that by (simp add: cells_def at_def)
  qed
  moreover have "if \<exists>d. (i, d) \<in> set offers \<and> is_defined d
         then \<exists>d. definition_of cells i = Some d \<and> (i, d) \<in> set offers \<and>
           (\<forall>e. (i, e) \<in> set offers \<and> e \<noteq> d \<longrightarrow> takes_precedence r d e)
         else definition_of cells i = Some definition_undefined" if i: "id_index i < n" for i
  proof -
    have at: "d \<in> set (at offers (id_index i)) \<longleftrightarrow> (i, d) \<in> set offers" for d by (auto simp: mem)
    let ?b = "best (id_index i)" and ?ds = "at offers (id_index i)"
    have win: "if \<exists>d\<in>set ?ds. is_defined d
      then ?b \<in> set ?ds \<and> is_defined ?b \<and> (\<forall>e\<in>set ?ds. e \<noteq> ?b \<longrightarrow> takes_precedence r ?b e) else ?b = definition_undefined"
      unfolding best_def by (rule best_of_offers_winner [OF cmp]) (rule one)
    have def: "definition_of cells i = Some (if is_defined (best (id_index i)) then best (id_index i) else definition_undefined)"
      using i by (simp add: definition_of_def load_definition_def cells_def get_nth_def load_cell_of)
    show ?thesis
    proof (cases "\<exists>d\<in>set (at offers (id_index i)). is_defined d")
      case True
      note b = win [unfolded if_P [OF True]]
      have res: "definition_of cells i = Some (best (id_index i)) \<and> (i, best (id_index i)) \<in> set offers \<and>
          (\<forall>e. (i, e) \<in> set offers \<and> e \<noteq> best (id_index i) \<longrightarrow> takes_precedence r (best (id_index i)) e)"
        using b def [unfolded if_P [OF b [THEN conjunct2, THEN conjunct1]]] unfolding at Ball_def by blast
      have ex: "\<exists>d. (i, d) \<in> set offers \<and> is_defined d" using True unfolding at Bex_def .
      show ?thesis unfolding if_P [OF ex] by (rule exI) (rule res)
    next
      case False
      have "best (id_index i) = definition_undefined" by (rule win [unfolded if_not_P [OF False]])
      then have res: "definition_of cells i = Some definition_undefined" using def by simp
      have no: "\<not> (\<exists>d. (i, d) \<in> set offers \<and> is_defined d)" using False unfolding at Bex_def .
      show ?thesis unfolding if_not_P [OF no] by (rule res)
    qed
  qed
  ultimately show ?thesis by blast
qed

theorem insert_definitions_any_order_witness:
  "\<exists>cells. (\<forall>offers'. set offers' = set demo_offers \<longrightarrow> insert_all elf_rules (fresh_cells 2) offers' = Some cells) \<and>
     definition_of cells 1 = Some definition_undefined"
proof -
  have cmp: "comparison (rs_compare elf_rules)" by (simp add: elf_rules_def comparison_elf)
  have dom: "\<forall>(i, d)\<in>set demo_offers. id_index i < 2"
    and inj: "\<forall>(i, d)\<in>set demo_offers. \<forall>(j, e)\<in>set demo_offers.
      i = j \<and> is_defined d \<and> is_defined e \<and> tie_key d = tie_key e \<longrightarrow> d = e"
    and none: "\<not> (\<exists>d. (1, d) \<in> set demo_offers \<and> is_defined d)" and one: "id_index 1 < 2"
    by (auto simp: demo_offers_def tie_key_def id_index_def)
  obtain cells where same: "\<forall>offers'. set offers' = set demo_offers \<longrightarrow> insert_all elf_rules (fresh_cells 2) offers' = Some cells"
    and each: "\<forall>i. id_index i < 2 \<longrightarrow>
        (if \<exists>d. (i, d) \<in> set demo_offers \<and> is_defined d
         then \<exists>d. definition_of cells i = Some d \<and> (i, d) \<in> set demo_offers \<and>
           (\<forall>e. (i, e) \<in> set demo_offers \<and> e \<noteq> d \<longrightarrow> takes_precedence elf_rules d e)
         else definition_of cells i = Some definition_undefined)"
    using insert_definitions_any_order [OF cmp dom inj] by (elim exE conjE)
  have "definition_of cells 1 = Some definition_undefined"
    by (rule each [THEN spec, of 1, THEN mp, OF one, unfolded if_not_P [OF none]])
  with same show ?thesis by blast
qed

text \<open>
  C27. Concurrent flag updates lose nothing: when every call of \<open>set\<close> has returned, whatever the
  interleaving of their loads and atomic updates and however stale a load was, the cell has the bits it
  had and all bits that were set, and for each bit that was clear before exactly one of the calls that
  set it found it clear.
\<close>

theorem set_flags_concurrent:
  "set_step\<^sup>*\<^sup>* (cell, map Entered fs) (cell', ts) \<Longrightarrow> \<forall>t\<in>set ts. \<exists>f before. t = Returned f before \<Longrightarrow>
     cell' = fold (OR) fs cell \<and>
     (\<forall>n. \<not> bit cell n \<and> (\<exists>f\<in>set fs. bit f n) \<longrightarrow>
        (\<exists>!i. i < length ts \<and> (\<exists>f before. ts ! i = Returned f before \<and> bit f n \<and> \<not> bit before n)))"
proof -
  assume run: "set_step\<^sup>*\<^sup>* (cell, map Entered fs) (cell', ts)" and ret: "\<forall>t\<in>set ts. \<exists>f before. t = Returned f before"
  have inv: "set_inv cell fs (cell', ts)" using set_inv_steps [OF run] set_inv_start by blast
  have flags: "map task_flags ts = fs" using inv by (simp add: set_inv_def)
  have eff: "\<exists>before. ts ! i = Returned (fs ! i) before" if "i < length ts" for i
    using ret that flags by (metis nth_map nth_mem task_flags.simps(3))
  have bits: "bit cell' n \<longleftrightarrow> bit cell n \<or> (\<exists>f\<in>set fs. bit f n)" for n
  proof
    show "bit cell' n" if "bit cell n \<or> (\<exists>f\<in>set fs. bit f n)"
      using that inv eff flags unfolding set_inv_def by (auto simp: in_set_conv_nth) (metis length_map)
  qed (use inv flags in \<open>auto simp: set_inv_def\<close>)
  have "cell' = fold (OR) fs cell" by (rule bit_word_eqI) (simp add: bits bit_fold_or)
  moreover have "\<exists>!i. i < length ts \<and> (\<exists>f before. ts ! i = Returned f before \<and> bit f n \<and> \<not> bit before n)"
    if "\<not> bit cell n" "\<exists>f\<in>set fs. bit f n" for n
    using inv that bits [of n] unfolding set_inv_def by blast
  ultimately show ?thesis by blast
qed

theorem set_flags_concurrent_witness:
  "set_step\<^sup>*\<^sup>* (0, [Entered 1, Entered 3]) (3, [Returned 1 0, Returned 3 1]) \<and> 3 = fold (OR) [1, 3] (0 :: u32) \<and>
   (\<exists>!i. i < 2 \<and> (\<exists>f before. [Returned 1 0, Returned 3 1] ! i = Returned f before \<and> bit f 0 \<and> \<not> bit before 0)) \<and>
   (\<exists>!i. i < 2 \<and> (\<exists>f before. [Returned 1 0, Returned 3 1] ! i = Returned f before \<and> bit f 1 \<and> \<not> bit before 1))"
proof -
  let ?ts = "[Entered 1, Entered 3]"
  have "set_step (0, ?ts) (0, [Loaded 1, Entered 3])" using set_step.load [of 0 ?ts 1 0 0] by simp
  moreover have "set_step (0, [Loaded 1, Entered 3]) (0, [Loaded 1, Loaded 3])" using set_step.load [of 1 "[Loaded 1, Entered 3]" 3 0 0] by simp
  moreover have "set_step (0, [Loaded 1, Loaded 3]) (1, [Returned 1 0, Loaded 3])" using set_step.fetch_or [of 0 "[Loaded 1, Loaded 3]" 1 0] by simp
  moreover have "set_step (1, [Returned 1 0, Loaded 3]) (3, [Returned 1 0, Returned 3 1])"
    using set_step.fetch_or [of 1 "[Returned 1 0, Loaded 3]" 3 1] by simp
  ultimately have run: "set_step\<^sup>*\<^sup>* (0, map Entered [1, 3]) (3, [Returned 1 0, Returned 3 1])" by simp
  have returned: "\<forall>t\<in>set [Returned 1 0, Returned 3 1]. \<exists>f before. t = Returned f before" by simp
  have bits: "bit (1 :: u32) 0" "bit (3 :: u32) 1" by simp_all
  note all = set_flags_concurrent [OF run returned]
  have first: "\<exists>!i. i < length [Returned 1 0, Returned 3 1] \<and> (\<exists>f before. [Returned 1 0, Returned 3 1] ! i = Returned f before \<and> bit f n \<and> \<not> bit before n)"
    if "\<exists>f\<in>set [1 :: u32, 3]. bit f n" for n
    by (rule all [THEN conjunct2, THEN spec, THEN mp]) (use that in simp)
  have len: "length [Returned 1 0, Returned 3 1] = 2" by simp
  have "\<exists>f\<in>set [1 :: u32, 3]. bit f 0" "\<exists>f\<in>set [1 :: u32, 3]. bit f 1" using bits by auto
  note both = this [THEN first, unfolded len]
  from run have "set_step\<^sup>*\<^sup>* (0, [Entered 1, Entered 3]) (3, [Returned 1 0, Returned 3 1])" by simp
  with all both show ?thesis by blast
qed

end
