(* ===== verification/Claims.thy ===== *)
theory Claims
  imports SymbolDefs HashTable
begin

text \<open>
  Claims on named groups (src/src/symbols/claims.rs): the sharded claim table of a resolution and the
  slots that split the lookup of a key from the offer. A shard's lock makes each operation on it atomic,
  so concurrent offers are a sequence of offers; hashbrown's table is a parameter.
\<close>

section \<open>The claim table\<close>

definition CLAIM_SHARD_BITS :: nat where
  "CLAIM_SHARD_BITS = 8"

record claim =
  cl_key :: symbol_name
  cl_position :: input_position
  cl_owner :: file_id
  cl_round :: u32

definition claim_shard_of :: "u64 \<Rightarrow> usize" where
  "claim_shard_of hash = unat (drop_bit (64 - CLAIM_SHARD_BITS) hash)"

definition claim_table_hash :: "u64 \<Rightarrow> u64" where
  "claim_table_hash hash = word_rotl CLAIM_SHARD_BITS hash"

record 't group_claims =
  gc_shards :: "'t list"
  gc_round :: u32

definition claims_new :: "('t, claim) hash_table \<Rightarrow> 't group_claims" where
  "claims_new ht = \<lparr>gc_shards = map (\<lambda>_. ht_new ht) [0..<2 ^ CLAIM_SHARD_BITS], gc_round = 0\<rparr>"

definition begin_round :: "'t group_claims \<Rightarrow> 't group_claims \<times> u32" where
  "begin_round c =
     (let rnd = (if gc_round c = - 1 then - 1 else gc_round c + 1) in (c\<lparr>gc_round := rnd\<rparr>, rnd))"

definition claims_owner :: "('t, claim) hash_table \<Rightarrow> 't group_claims \<Rightarrow> symbol_name \<Rightarrow> file_id option" where
  "claims_owner ht c key =
     (let shard = gc_shards c ! claim_shard_of (sn_hash key)
      in map_option cl_owner (ht_find ht shard (claim_table_hash (sn_hash key)) (\<lambda>claim. name_eq (cl_key claim) key)))"

definition claims_len :: "('t, claim) hash_table \<Rightarrow> 't group_claims \<Rightarrow> usize" where
  "claims_len ht c = sum_list (map (ht_len ht) (gc_shards c))"

definition claims_is_empty :: "('t, claim) hash_table \<Rightarrow> 't group_claims \<Rightarrow> bool" where
  "claims_is_empty ht c \<longleftrightarrow> claims_len ht c = 0"

text \<open>One offer: whether the file holds the key after it, and the table.\<close>

definition claims_offer :: "('t, claim) hash_table \<Rightarrow> u32 \<Rightarrow> symbol_name \<Rightarrow> input_position \<Rightarrow> file_id \<Rightarrow>
    't group_claims \<Rightarrow> bool \<times> 't group_claims" where
  "claims_offer ht rnd key pos file c =
     (let s = claim_shard_of (sn_hash key); shard = gc_shards c ! s; h = claim_table_hash (sn_hash key);
          same = (\<lambda>claim. name_eq (cl_key claim) key)
      in case ht_find ht shard h same of
           None \<Rightarrow>
             (True, c\<lparr>gc_shards := (gc_shards c)[s := ht_insert ht shard h
                \<lparr>cl_key = key, cl_position = pos, cl_owner = file, cl_round = rnd\<rparr>]\<rparr>)
         | Some claim \<Rightarrow>
             if cl_round claim = rnd \<and> (pos, file) < (cl_position claim, cl_owner claim) then
               (True, c\<lparr>gc_shards := (gc_shards c)[s := ht_update ht shard h same
                  (\<lambda>claim. claim\<lparr>cl_position := pos, cl_owner := file\<rparr>)]\<rparr>)
             else (cl_owner claim = file, c))"

definition claims_is_owner :: "('t, claim) hash_table \<Rightarrow> 't group_claims \<Rightarrow> symbol_name \<Rightarrow> file_id \<Rightarrow> bool" where
  "claims_is_owner ht c key file \<longleftrightarrow> claims_owner ht c key = Some file"

section \<open>Slots\<close>

definition SLOT_BASE :: usize where
  "SLOT_BASE = 1024"

definition SLOT_SEGMENTS :: usize where
  "SLOT_SEGMENTS = 23"

record 't group_slots =
  sl_keys :: "'t list"
  sl_next :: u32
  sl_claims :: "u64 list option list"

definition slots_new :: "('t, symbol_name \<times> u32) hash_table \<Rightarrow> 't group_slots" where
  "slots_new ht = \<lparr>sl_keys = map (\<lambda>_. ht_new ht) [0..<2 ^ CLAIM_SHARD_BITS], sl_next = 0,
     sl_claims = replicate SLOT_SEGMENTS None\<rparr>"

text \<open>
  The slot of a key: the compare-exchange loop ends with the counter at the value it read, so it is
  one atomic increment, which fails at the largest value.
\<close>

definition slots_slot :: "('t, symbol_name \<times> u32) hash_table \<Rightarrow> symbol_name \<Rightarrow> 't group_slots \<Rightarrow>
    u32 option \<times> 't group_slots" where
  "slots_slot ht key g =
     (let s = claim_shard_of (sn_hash key); shard = sl_keys g ! s; h = claim_table_hash (sn_hash key)
      in case ht_find ht shard h (\<lambda>(claimed, _). name_eq claimed key) of
           Some (_, slot) \<Rightarrow> (Some slot, g)
         | None \<Rightarrow>
             let slot = sl_next g in
             if slot = - 1 then (None, g)
             else (Some slot, g\<lparr>sl_next := slot + 1, sl_keys := (sl_keys g)[s := ht_insert ht shard h (key, slot)]\<rparr>))"

definition leading_zeros_usize :: "usize \<Rightarrow> nat" where
  "leading_zeros_usize n = 64 - length (takeWhile (\<lambda>k. 2 ^ k \<le> n) [0..<64])"

text \<open>Where the claim of a slot is: the segment and the index in it.\<close>

definition slot_cell :: "u32 \<Rightarrow> usize \<times> usize" where
  "slot_cell slot =
     (let scaled = unat slot div SLOT_BASE + 1;
          segment = 64 - 1 - leading_zeros_usize scaled;
          start = SLOT_BASE * (2 ^ segment - 1)
      in (segment, unat slot - start))"

text \<open>
  What \<open>cell\<close> asserts in a debug build and asks of its callers in every build: the slot was given out. The
  operations below are those of a build without the assertion.
\<close>

definition slot_given :: "'t group_slots \<Rightarrow> u32 \<Rightarrow> bool" where
  "slot_given g slot \<longleftrightarrow> slot < sl_next g"

definition slot_value :: "'t group_slots \<Rightarrow> u32 \<Rightarrow> u64" where
  "slot_value g slot = (case slot_cell slot of (segment, index) \<Rightarrow>
     case sl_claims g ! segment of None \<Rightarrow> - 1 | Some cells \<Rightarrow> cells ! index)"

definition claim_word :: "u32 \<Rightarrow> u32 \<Rightarrow> u64" where
  "claim_word rnd rank = push_bit 32 (ucast rnd) OR ucast rank"

definition slots_offer :: "u32 \<Rightarrow> u32 \<Rightarrow> u32 \<Rightarrow> 't group_slots \<Rightarrow> 't group_slots" where
  "slots_offer slot rnd rank g = (case slot_cell slot of (segment, index) \<Rightarrow>
     let cells = (case sl_claims g ! segment of
            Some cells \<Rightarrow> cells | None \<Rightarrow> replicate (SLOT_BASE * 2 ^ segment) (- 1))
     in g\<lparr>sl_claims := (sl_claims g)[segment := Some (cells[index := min (cells ! index) (claim_word rnd rank)])]\<rparr>)"

definition slots_holds :: "'t group_slots \<Rightarrow> u32 \<Rightarrow> u32 \<Rightarrow> u32 \<Rightarrow> bool" where
  "slots_holds g slot rnd rank \<longleftrightarrow> slot_value g slot = claim_word rnd rank"

end
