(* ===== verification/ClaimsCorrect.thy ===== *)
theory ClaimsCorrect
  imports Claims
begin

text \<open>
  The claim table refines a map from keys to claims, and the winner of a round is the lowest offer. The
  slots of the two-step form are distinct cells, whose least value wins in the same way.
\<close>

section \<open>The sharded table is a map\<close>

text \<open>What the table holds, whatever hash table the shards are.\<close>

definition shard_claims :: "(symbol_name \<rightharpoonup> claim) \<Rightarrow> nat \<Rightarrow> claim set" where
  "shard_claims m s = {cl \<in> ran m. claim_shard_of (sn_hash (cl_key cl)) = s}"

definition claims_rep :: "('t \<Rightarrow> claim multiset) \<Rightarrow> 't group_claims \<Rightarrow> (symbol_name \<rightharpoonup> claim) \<Rightarrow> bool" where
  "claims_rep elems c m \<longleftrightarrow> length (gc_shards c) = 2 ^ CLAIM_SHARD_BITS \<and> finite (dom m) \<and>
     (\<forall>k cl. m k = Some cl \<longrightarrow> cl_key cl = k) \<and>
     (\<forall>s<2 ^ CLAIM_SHARD_BITS. elems (gc_shards c ! s) = mset_set (shard_claims m s))"

definition claim_hash :: "claim \<Rightarrow> u64" where
  "claim_hash cl = claim_table_hash (sn_hash (cl_key cl))"

text \<open>The offer on the map.\<close>

definition offer_map :: "u32 \<Rightarrow> symbol_name \<Rightarrow> input_position \<Rightarrow> file_id \<Rightarrow> (symbol_name \<rightharpoonup> claim) \<Rightarrow> (symbol_name \<rightharpoonup> claim)" where
  "offer_map rnd key pos owner m =
     (case m key of
        None \<Rightarrow> m(key \<mapsto> \<lparr>cl_key = key, cl_position = pos, cl_owner = owner, cl_round = rnd\<rparr>)
      | Some cl \<Rightarrow> if cl_round cl = rnd \<and> (pos, owner) < (cl_position cl, cl_owner cl)
                   then m(key \<mapsto> cl\<lparr>cl_position := pos, cl_owner := owner\<rparr>) else m)"

lemma claim_shard_less: "claim_shard_of h < 2 ^ CLAIM_SHARD_BITS"
proof -
  have "unat h < 2 ^ LENGTH(64)" by (rule unsigned_less)
  moreover have "unat (drop_bit 56 h) = unat h div 2 ^ 56" by (metis drop_bit_eq_div unat_drop_bit_eq)
  ultimately have "unat (drop_bit 56 h) < 2 ^ 8" by (simp add: div_less_iff_less_mult)
  then show ?thesis by (simp add: claim_shard_of_def CLAIM_SHARD_BITS_def)
qed

lemma finite_shard_claims: "finite (dom m) \<Longrightarrow> finite (shard_claims m s)"
  using finite_ran [of m] by (simp add: shard_claims_def)

lemma claims_rep_new: "hash_table_laws ht claim_hash elems \<Longrightarrow> claims_rep elems (claims_new ht) Map.empty"
  by (simp add: claims_rep_def claims_new_def shard_claims_def hash_tableD(1))

lemma claims_find:
  assumes laws: "hash_table_laws ht claim_hash elems" and rep: "claims_rep elems c m"
  shows "ht_find ht (gc_shards c ! claim_shard_of (sn_hash key)) (claim_table_hash (sn_hash key)) (\<lambda>cl. cl_key cl = key) = m key"
proof -
  have elems: "set_mset (elems (gc_shards c ! claim_shard_of (sn_hash key))) = shard_claims m (claim_shard_of (sn_hash key))"
    using rep claim_shard_less finite_shard_claims by (simp add: claims_rep_def)
  have key: "m (cl_key d) = Some d" if "d \<in> shard_claims m s" for d s
    using that rep by (auto simp: shard_claims_def ran_def claims_rep_def)
  show ?thesis
  proof (cases "m key")
    case None
    have "\<not> (cl_key d = key)" if "d \<in># elems (gc_shards c ! claim_shard_of (sn_hash key))" for d
      using that key None unfolding elems by fastforce
    then show ?thesis using ht_find_none [OF laws] None by simp
  next
    case (Some cl)
    then have cl: "cl_key cl = key" "cl \<in> shard_claims m (claim_shard_of (sn_hash key))"
      using rep by (auto simp: claims_rep_def shard_claims_def ran_def)
    have "ht_find ht (gc_shards c ! claim_shard_of (sn_hash key)) (claim_table_hash (sn_hash key)) (\<lambda>cl. cl_key cl = key) = Some cl"
    proof (rule ht_find_unique [OF laws])
      show "cl \<in># elems (gc_shards c ! claim_shard_of (sn_hash key))" using cl(2) unfolding elems .
      show "d = cl" if "d \<in># elems (gc_shards c ! claim_shard_of (sn_hash key))" "cl_key d = key" for d
        using key [of d] that Some unfolding elems by simp
    qed (simp_all add: cl claim_hash_def)
    with Some show ?thesis by simp
  qed
qed

text \<open>Changing the claim of one key changes one shard.\<close>

lemma shard_claims_update:
  assumes inj: "\<forall>k cl. m k = Some cl \<longrightarrow> cl_key cl = k" and key: "cl_key cl = key"
  shows "shard_claims (m(key \<mapsto> cl)) s =
    (if s = claim_shard_of (sn_hash key) then insert cl (shard_claims m s - set_option (m key)) else shard_claims m s)"
proof -
  have "d \<in> ran (m(key \<mapsto> cl)) \<longleftrightarrow> d = cl \<or> d \<in> ran m \<and> cl_key d \<noteq> key" for d
    using inj by (auto simp: ran_def)
  moreover have "d \<in> set_option (m key) \<longleftrightarrow> d \<in> ran m \<and> cl_key d = key" for d
    using inj by (auto simp: ran_def)
  ultimately show ?thesis using key by (auto simp: shard_claims_def)
qed

lemma claims_rep_update:
  assumes rep: "claims_rep elems c m" and key: "cl_key cl = key"
    and el: "elems t = add_mset cl (mset_set (shard_claims m (claim_shard_of (sn_hash key)) - set_option (m key)))"
  shows "claims_rep elems (c\<lparr>gc_shards := (gc_shards c)[claim_shard_of (sn_hash key) := t]\<rparr>) (m(key \<mapsto> cl))"
proof -
  let ?s = "claim_shard_of (sn_hash key)"
  have inj: "\<forall>k cl. m k = Some cl \<longrightarrow> cl_key cl = k" and fin: "finite (dom m)" using rep by (simp_all add: claims_rep_def)
  have "cl \<notin> shard_claims m ?s - set_option (m key)" using inj key by (auto simp: shard_claims_def ran_def)
  then have "elems t = mset_set (shard_claims (m(key \<mapsto> cl)) ?s)"
    using el finite_shard_claims [OF fin] by (simp add: shard_claims_update [OF inj key])
  moreover have "elems (gc_shards c ! s) = mset_set (shard_claims (m(key \<mapsto> cl)) s)" if "s < 2 ^ CLAIM_SHARD_BITS" "s \<noteq> ?s" for s
    using rep that by (simp add: shard_claims_update [OF inj key] claims_rep_def)
  ultimately show ?thesis
    using rep key claim_shard_less by (auto simp: claims_rep_def nth_list_update)
qed

lemma claims_offer_refines:
  assumes laws: "hash_table_laws ht claim_hash elems" and rep: "claims_rep elems c m"
  shows "claims_rep elems (snd (claims_offer ht rnd key pos owner c)) (offer_map rnd key pos owner m)"
    "fst (claims_offer ht rnd key pos owner c) \<longleftrightarrow> map_option cl_owner (offer_map rnd key pos owner m key) = Some owner"
proof -
  let ?s = "claim_shard_of (sn_hash key)" and ?h = "claim_table_hash (sn_hash key)" and ?p = "\<lambda>cl. cl_key cl = key"
  let ?t = "gc_shards c ! ?s"
  note find = claims_find [OF laws rep, of key]
  have el: "elems ?t = mset_set (shard_claims m ?s)" using rep claim_shard_less by (simp add: claims_rep_def)
  have fin: "finite (shard_claims m ?s)" using rep finite_shard_claims by (simp add: claims_rep_def)
  show "claims_rep elems (snd (claims_offer ht rnd key pos owner c)) (offer_map rnd key pos owner m)"
  proof (cases "m key")
    case None
    let ?cl = "\<lparr>cl_key = key, cl_position = pos, cl_owner = owner, cl_round = rnd\<rparr>"
    have "elems (ht_insert ht ?t ?h ?cl) = add_mset ?cl (mset_set (shard_claims m ?s - set_option (m key)))"
      using hash_tableD(4) [OF laws, of ?cl ?h ?t] el None by (simp add: claim_hash_def)
    from claims_rep_update [OF rep _ this] show ?thesis
      using None by (simp add: claims_offer_def offer_map_def find Let_def)
  next
    case (Some cl)
    let ?f = "\<lambda>cl. cl\<lparr>cl_position := pos, cl_owner := owner\<rparr>"
    have key: "cl_key cl = key" using rep Some by (simp add: claims_rep_def)
    have mem: "cl \<in> shard_claims m ?s" using Some key by (auto simp: shard_claims_def ran_def)
    have "elems (ht_update ht ?t ?h ?p ?f) = add_mset (?f cl) (elems ?t - {#cl#})"
      by (rule hash_tableD(5) [OF laws]) (simp_all add: find Some claim_hash_def)
    also have "elems ?t - {#cl#} = mset_set (shard_claims m ?s - set_option (m key))"
      using mem fin by (simp add: el Some mset_set_Diff)
    finally show ?thesis
      using claims_rep_update [OF rep, of "?f cl" key "ht_update ht ?t ?h ?p ?f"] key Some rep
      by (auto simp: claims_offer_def offer_map_def find Let_def)
  qed
  show "fst (claims_offer ht rnd key pos owner c) \<longleftrightarrow> map_option cl_owner (offer_map rnd key pos owner m key) = Some owner"
    by (auto simp: claims_offer_def offer_map_def find Let_def split: option.splits)
qed

section \<open>Rounds\<close>

text \<open>Everything a resolution does to the table: the offers of each round, in some order.\<close>

type_synonym group_offer = "symbol_name \<times> input_position \<times> file_id"

definition offer_all :: "('t, claim) hash_table \<Rightarrow> u32 \<Rightarrow> group_offer list \<Rightarrow> 't group_claims \<Rightarrow> 't group_claims" where
  "offer_all ht rnd offers c = fold (\<lambda>(key, pos, owner) c. snd (claims_offer ht rnd key pos owner c)) offers c"

definition run_rounds :: "('t, claim) hash_table \<Rightarrow> group_offer list list \<Rightarrow> 't group_claims \<Rightarrow> 't group_claims" where
  "run_rounds ht rounds c = fold (\<lambda>offers c. case begin_round c of (c, rnd) \<Rightarrow> offer_all ht rnd offers c) rounds c"

text \<open>The rule: the lowest position and file of the first round that offers the key.\<close>

definition offers_for :: "symbol_name \<Rightarrow> group_offer list \<Rightarrow> (input_position \<times> file_id) set" where
  "offers_for key offers = {(pos, owner). (key, pos, owner) \<in> set offers}"

definition round_winner :: "symbol_name \<Rightarrow> group_offer list list \<Rightarrow> file_id option" where
  "round_winner key rounds =
     map_option (\<lambda>offers. snd (Min (offers_for key offers))) (find (\<lambda>offers. offers_for key offers \<noteq> {}) rounds)"

abbreviation claim_pair :: "claim \<Rightarrow> input_position \<times> file_id" where
  "claim_pair cl \<equiv> (cl_position cl, cl_owner cl)"

definition offers_map :: "u32 \<Rightarrow> group_offer list \<Rightarrow> (symbol_name \<rightharpoonup> claim) \<Rightarrow> (symbol_name \<rightharpoonup> claim)" where
  "offers_map rnd offers m = fold (\<lambda>(key, pos, owner). offer_map rnd key pos owner) offers m"

lemma offer_all_refines:
  assumes laws: "hash_table_laws ht claim_hash elems"
  shows "claims_rep elems c m \<Longrightarrow> claims_rep elems (offer_all ht rnd offers c) (offers_map rnd offers m)"
  unfolding offer_all_def offers_map_def
  by (induction offers arbitrary: c m) (auto simp: claims_offer_refines(1) [OF laws])

lemma finite_offers_for: "finite (offers_for key offers)"
proof -
  have "offers_for key offers \<subseteq> snd ` set offers" by (force simp: offers_for_def)
  then show ?thesis by (rule finite_subset) simp
qed

lemma offers_for_Cons:
  "offers_for key ((k, pos, owner) # offers) = (if k = key then insert (pos, owner) (offers_for key offers) else offers_for key offers)"
  by (auto simp: offers_for_def)

lemma Min_insert_lower: "finite S \<Longrightarrow> Min (insert a (insert b S)) = Min (insert (if b < a then b else a) S)" for a b :: "'a::linorder"
  by (cases "S = {}") (auto simp: min_def)

lemma offers_map_claimed:
  assumes "m key = Some cl"
  shows "\<exists>cl'. offers_map rnd offers m key = Some cl' \<and> cl_round cl' = cl_round cl \<and>
    claim_pair cl' = (if cl_round cl = rnd then Min (insert (claim_pair cl) (offers_for key offers)) else claim_pair cl)"
  using assms
proof (induction offers arbitrary: m cl)
  case Nil
  then show ?case by (simp add: offers_map_def offers_for_def)
next
  case (Cons offer offers)
  obtain k pos owner where o: "offer = (k, pos, owner)" by (cases offer)
  let ?m = "offer_map rnd k pos owner m"
  define low where "low = ((pos, owner) < claim_pair cl)"
  have m: "?m key = Some (if k = key \<and> cl_round cl = rnd \<and> low then cl\<lparr>cl_position := pos, cl_owner := owner\<rparr> else cl)"
    using Cons.prems by (cases "k = key") (auto simp: offer_map_def low_def split: option.splits)
  have "Min (insert (claim_pair cl) (insert (pos, owner) (offers_for key offers))) =
      Min (insert (if low then (pos, owner) else claim_pair cl) (offers_for key offers))"
    unfolding low_def by (rule Min_insert_lower [OF finite_offers_for])
  moreover have "offers_map rnd (offer # offers) m = offers_map rnd offers ?m" by (simp add: offers_map_def o)
  ultimately show ?case
    using Cons.IH [of ?m, OF m]
    by (cases "k = key"; cases "cl_round cl = rnd"; cases low) (simp_all add: o offers_for_Cons del: Min_insert)
qed

lemma offers_map_new:
  assumes "m key = None"
  shows "if offers_for key offers = {} then offers_map rnd offers m key = None
    else \<exists>cl. offers_map rnd offers m key = Some cl \<and> cl_round cl = rnd \<and> claim_pair cl = Min (offers_for key offers)"
  using assms
proof (induction offers arbitrary: m)
  case Nil
  then show ?case by (simp add: offers_map_def offers_for_def)
next
  case (Cons offer offers)
  obtain k pos owner where o: "offer = (k, pos, owner)" by (cases offer)
  let ?m = "offer_map rnd k pos owner m"
  have step: "offers_map rnd (offer # offers) m = offers_map rnd offers ?m" by (simp add: offers_map_def o)
  show ?case
  proof (cases "k = key")
    case True
    then have "?m key = Some \<lparr>cl_key = key, cl_position = pos, cl_owner = owner, cl_round = rnd\<rparr>"
      using Cons.prems by (simp add: offer_map_def)
    from offers_map_claimed [of ?m, OF this, of rnd offers] show ?thesis
      unfolding step using True by (auto simp: o offers_for_Cons)
  next
    case False
    then have "?m key = None" using Cons.prems by (auto simp: offer_map_def split: option.splits)
    from Cons.IH [of ?m, OF this] show ?thesis unfolding step using False by (simp add: o offers_for_Cons)
  qed
qed

lemma find_append: "find P (xs @ ys) = (case find P xs of None \<Rightarrow> find P ys | Some x \<Rightarrow> Some x)"
  by (induction xs) simp_all

lemma run_rounds_inv:
  assumes laws: "hash_table_laws ht claim_hash elems" and "length rounds \<le> u32_max"
  shows "\<exists>m. claims_rep elems (run_rounds ht rounds (claims_new ht)) m \<and>
    gc_round (run_rounds ht rounds (claims_new ht)) = of_nat (length rounds) \<and>
    (\<forall>k cl. m k = Some cl \<longrightarrow> unat (cl_round cl) \<le> length rounds) \<and>
    (\<forall>k. map_option cl_owner (m k) = round_winner k rounds)"
  using assms(2)
proof (induction rounds rule: rev_induct)
  case Nil
  have "claims_rep elems (claims_new ht) Map.empty" by (rule claims_rep_new [OF laws])
  then show ?case by (intro exI [of _ Map.empty]) (simp add: run_rounds_def round_winner_def claims_new_def)
next
  case (snoc offers rounds)
  let ?c = "run_rounds ht rounds (claims_new ht)" and ?n = "length rounds"
  obtain m where rep: "claims_rep elems ?c m" and rnd: "gc_round ?c = of_nat ?n"
    and old: "\<And>k cl. m k = Some cl \<Longrightarrow> unat (cl_round cl) \<le> ?n"
    and win: "\<And>k. map_option cl_owner (m k) = round_winner k rounds"
    using snoc by auto
  have n: "unat (of_nat ?n :: u32) = ?n" "unat (of_nat (Suc ?n) :: u32) = Suc ?n" using snoc.prems by (simp_all add: unat_of_nat del: of_nat_Suc)
  have "gc_round ?c \<noteq> - 1"
  proof
    assume "gc_round ?c = - 1"
    then have "of_nat (Suc ?n) = (0 :: u32)" using rnd by simp
    with n(2) show False by simp
  qed
  then have adv: "begin_round ?c = (?c\<lparr>gc_round := of_nat (Suc ?n)\<rparr>, of_nat (Suc ?n))"
    using rnd by (simp add: begin_round_def Let_def add.commute)
  let ?m = "offers_map (of_nat (Suc ?n)) offers m"
  have run: "run_rounds ht (rounds @ [offers]) (claims_new ht) = offer_all ht (of_nat (Suc ?n)) offers (?c\<lparr>gc_round := of_nat (Suc ?n)\<rparr>)"
    using adv by (simp add: run_rounds_def)
  have "claims_rep elems (?c\<lparr>gc_round := of_nat (Suc ?n)\<rparr>) m" using rep by (simp add: claims_rep_def)
  then have "claims_rep elems (run_rounds ht (rounds @ [offers]) (claims_new ht)) ?m"
    unfolding run by (rule offer_all_refines [OF laws])
  moreover have "gc_round (offer_all ht r xs c) = gc_round c" for r xs c
    unfolding offer_all_def by (induction xs arbitrary: c) (auto simp: claims_offer_def Let_def split: option.split)
  then have "gc_round (run_rounds ht (rounds @ [offers]) (claims_new ht)) = of_nat (length (rounds @ [offers]))"
    by (simp add: run)
  moreover have "(\<forall>cl. ?m k = Some cl \<longrightarrow> unat (cl_round cl) \<le> Suc ?n) \<and>
      map_option cl_owner (?m k) = round_winner k (rounds @ [offers])" for k
  proof (cases "m k")
    case (Some cl)
    have "cl_round cl \<noteq> of_nat (Suc ?n)" using old [OF Some] n(2) by (metis Suc_n_not_le_n)
    moreover obtain cl' where "?m k = Some cl'" "cl_round cl' = cl_round cl"
      "claim_pair cl' = (if cl_round cl = of_nat (Suc ?n) then Min (insert (claim_pair cl) (offers_for k offers)) else claim_pair cl)"
      using offers_map_claimed [of m k, OF Some] by blast
    ultimately have "?m k = Some cl'" "cl_round cl' = cl_round cl" "cl_owner cl' = cl_owner cl" by simp_all
    moreover have "round_winner k (rounds @ [offers]) = round_winner k rounds"
      using win [of k] Some by (auto simp: round_winner_def find_append split: option.splits)
    ultimately show ?thesis using win [of k] old [OF Some] Some by simp
  next
    case None
    then have no: "find (\<lambda>offers. offers_for k offers \<noteq> {}) rounds = None" using win [of k] by (simp add: round_winner_def)
    show ?thesis
    proof (cases "offers_for k offers = {}")
      case True
      then show ?thesis using offers_map_new [of m k, OF None, of offers "of_nat (Suc ?n)"] no by (simp add: round_winner_def find_append)
    next
      case False
      then obtain cl where "?m k = Some cl" "cl_round cl = of_nat (Suc ?n)" "claim_pair cl = Min (offers_for k offers)"
        using offers_map_new [of m k, OF None, of offers "of_nat (Suc ?n)"] by auto
      moreover from this(3) have "cl_owner cl = snd (Min (offers_for k offers))" by (metis snd_conv)
      ultimately show ?thesis using no False n(2) by (simp add: round_winner_def find_append del: of_nat_Suc)
    qed
  qed
  ultimately show ?case by (intro exI [of _ ?m]) auto
qed

section \<open>Slots\<close>

text \<open>The number of the segment is the logarithm of the scaled slot.\<close>

lemma segment_log:
  assumes "0 < n" and "n < 2 ^ 64"
  shows "2 ^ (64 - 1 - leading_zeros_usize n) \<le> n" "n < 2 ^ Suc (64 - 1 - leading_zeros_usize n)"
proof -
  obtain k where k: "2 ^ k \<le> n" "n < 2 ^ Suc k" using ex_power_ivl1 [of 2 n] assms(1) by auto
  then have lt: "k < 64" using assms(2) by (metis le_less_trans nat_power_less_imp_less zero_less_numeral)
  have mono: "2 ^ j \<le> n \<longleftrightarrow> j \<le> k" for j
  proof
    assume "2 ^ j \<le> n"
    then have "(2 :: nat) ^ j < 2 ^ Suc k" using k(2) by linarith
    then show "j \<le> k" by (simp only: power_strict_increasing_iff less_Suc_eq_le)
  next
    assume "j \<le> k"
    then have "(2 :: nat) ^ j \<le> 2 ^ k" by simp
    with k(1) show "2 ^ j \<le> n" by linarith
  qed
  obtain m where m: "m \<le> 64" "takeWhile (\<lambda>j. 2 ^ j \<le> n) [0..<64] = [0..<m]" "\<forall>j<m. 2 ^ j \<le> n" "m < 64 \<longrightarrow> \<not> 2 ^ m \<le> n"
    using takeWhile_upt [of 64 "\<lambda>j. 2 ^ j \<le> n"] by blast
  have "m = Suc k"
  proof (rule antisym)
    show "m \<le> Suc k" using m(3) [rule_format, of "Suc k"] unfolding mono by linarith
    show "Suc k \<le> m" using m(1,4) lt unfolding mono by linarith
  qed
  with m(2) have "64 - 1 - leading_zeros_usize n = k" using lt by (simp add: leading_zeros_usize_def)
  with k show "2 ^ (64 - 1 - leading_zeros_usize n) \<le> n" "n < 2 ^ Suc (64 - 1 - leading_zeros_usize n)" by simp_all
qed

lemma slot_cell_place:
  assumes "slot_cell slot = (segment, index)"
  shows "segment < SLOT_SEGMENTS" "index < SLOT_BASE * 2 ^ segment" "unat slot = SLOT_BASE * (2 ^ segment - 1) + index"
proof -
  let ?n = "unat slot div 1024 + 1"
  have u: "unat slot < 2 ^ LENGTH(32)" by (rule unsigned_less)
  then have n: "?n \<le> 2 ^ 22" by simp
  have seg: "segment = 64 - 1 - leading_zeros_usize ?n" and idx: "index = unat slot - 1024 * (2 ^ segment - 1)"
    using assms by (auto simp: slot_cell_def SLOT_BASE_def Let_def)
  have lo: "2 ^ segment \<le> ?n" and hi: "?n < 2 ^ Suc segment"
    unfolding seg using segment_log [of ?n] n by simp_all
  have "(2 :: nat) ^ segment \<le> 2 ^ 22" using lo n by linarith
  then have "segment \<le> 22" by (rule power_le_imp_le_exp [rotated]) simp
  then show "segment < SLOT_SEGMENTS" by (simp add: SLOT_SEGMENTS_def)
  have start: "1024 * (2 ^ segment - 1) \<le> unat slot" using lo by linarith
  then show eq: "unat slot = SLOT_BASE * (2 ^ segment - 1) + index" by (simp add: idx SLOT_BASE_def)
  have "n < 1024 * (n div 1024 + 1)" for n :: nat
    using div_mult_mod_eq [of n 1024] mod_less_divisor [of 1024 n] by (simp add: algebra_simps)
  then have "unat slot < 1024 * ?n" .
  then have "unat slot < 1024 * (2 * 2 ^ segment - 1)" using hi by simp
  moreover have "(1 :: nat) \<le> 2 ^ segment" by simp
  ultimately show "index < SLOT_BASE * 2 ^ segment" using eq unfolding SLOT_BASE_def by linarith
qed

lemma slot_cell_inj: "slot_cell a = slot_cell b \<Longrightarrow> a = b"
proof -
  assume eq: "slot_cell a = slot_cell b"
  obtain segment index where a: "slot_cell a = (segment, index)" by (cases "slot_cell a")
  with eq slot_cell_place(3) [OF a] slot_cell_place(3) [of b segment index] show "a = b" by (simp add: word_unat_eq_iff)
qed

lemma unat_pair_word: "unat (push_bit 32 (ucast a) OR ucast b :: u64) = unat a * 2 ^ 32 + unat b" for a b :: u32
proof -
  have "push_bit 32 (ucast a) AND (ucast b :: u64) = 0"
    by (rule bit_eqI) (auto simp: bit_simps dest: bit_imp_le_length)
  then have "push_bit 32 (ucast a) OR (ucast b :: u64) = push_bit 32 (ucast a) + ucast b"
    by (simp add: disjunctive_add_eq_or)
  moreover have "unat a < 2 ^ LENGTH(32)" "unat b < 2 ^ LENGTH(32)" by (rule unsigned_less)+
  ultimately show ?thesis
    by (simp add: push_bit_eq_mult unat_word_ariths unat_ucast_u32)
qed

lemma claim_word_le: "claim_word r k \<le> claim_word r' k' \<longleftrightarrow> (r, k) \<le> (r', k')"
proof -
  have "unat k < 2 ^ LENGTH(32)" "unat k' < 2 ^ LENGTH(32)" by (rule unsigned_less)+
  then show ?thesis
    unfolding word_le_nat_alt claim_word_def unat_pair_word by (auto simp: word_le_nat_alt word_less_nat_alt word_unat_eq_iff)
qed

text \<open>The cells of the segments, all of them made or not.\<close>

definition slots_ok :: "'t group_slots \<Rightarrow> bool" where
  "slots_ok g \<longleftrightarrow> length (sl_claims g) = SLOT_SEGMENTS \<and>
     (\<forall>s<SLOT_SEGMENTS. \<forall>cells. sl_claims g ! s = Some cells \<longrightarrow> length cells = SLOT_BASE * 2 ^ s)"

lemma slots_offer_value:
  assumes ok: "slots_ok g"
  shows "slots_ok (slots_offer slot rnd rank g)"
    "slot_value (slots_offer slot rnd rank g) t = (if t = slot then min (slot_value g slot) (claim_word rnd rank) else slot_value g t)"
proof -
  obtain segment index where c: "slot_cell slot = (segment, index)" by (cases "slot_cell slot")
  note place = slot_cell_place [OF c]
  define cells where "cells = (case sl_claims g ! segment of Some cells \<Rightarrow> cells | None \<Rightarrow> replicate (SLOT_BASE * 2 ^ segment) (- 1))"
  have len: "length cells = SLOT_BASE * 2 ^ segment"
    using ok place(1) by (auto simp: cells_def slots_ok_def split: option.split)
  have new: "slots_offer slot rnd rank g =
      g\<lparr>sl_claims := (sl_claims g)[segment := Some (cells[index := min (cells ! index) (claim_word rnd rank)])]\<rparr>"
    by (simp add: slots_offer_def c cells_def Let_def)
  have segs: "length (sl_claims g) = SLOT_SEGMENTS" using ok by (simp add: slots_ok_def)
  show "slots_ok (slots_offer slot rnd rank g)"
    using ok len segs by (cases "segment < SLOT_SEGMENTS") (auto simp: slots_ok_def new nth_list_update split: if_splits)
  obtain segment' index' where c': "slot_cell t = (segment', index')" by (cases "slot_cell t")
  note place' = slot_cell_place [OF c']
  have old: "slot_value g t = cells ! index'" if "segment' = segment"
    using that place'(2) by (simp add: slot_value_def c' cells_def split: option.split)
  have same: "t = slot \<longleftrightarrow> segment' = segment \<and> index' = index" using slot_cell_inj c c' by auto
  show "slot_value (slots_offer slot rnd rank g) t = (if t = slot then min (slot_value g slot) (claim_word rnd rank) else slot_value g t)"
  proof (cases "segment' = segment")
    case True
    then have "slot_value (slots_offer slot rnd rank g) t = cells[index := min (cells ! index) (claim_word rnd rank)] ! index'"
      using segs place(1) by (simp add: slot_value_def c' new)
    then show ?thesis using old [OF True] True same len place(2) by (auto simp: nth_list_update)
  next
    case False
    then show ?thesis using same by (simp add: slot_value_def c' new)
  qed
qed

text \<open>The keys of the slots are a map from keys to the slots given out, no two to the same.\<close>

definition key_hash :: "symbol_name \<times> u32 \<Rightarrow> u64" where
  "key_hash = (\<lambda>(key, _). claim_table_hash (sn_hash key))"

definition shard_keys :: "(symbol_name \<rightharpoonup> u32) \<Rightarrow> nat \<Rightarrow> (symbol_name \<times> u32) set" where
  "shard_keys m s = {(k, v). m k = Some v \<and> claim_shard_of (sn_hash k) = s}"

definition keys_rep :: "('t \<Rightarrow> (symbol_name \<times> u32) multiset) \<Rightarrow> 't group_slots \<Rightarrow> (symbol_name \<rightharpoonup> u32) \<Rightarrow> bool" where
  "keys_rep elems g m \<longleftrightarrow> length (sl_keys g) = 2 ^ CLAIM_SHARD_BITS \<and> finite (dom m) \<and>
     (\<forall>s<2 ^ CLAIM_SHARD_BITS. elems (sl_keys g ! s) = mset_set (shard_keys m s)) \<and>
     (\<forall>k v. m k = Some v \<longrightarrow> slot_given g v) \<and> (\<forall>a b v. m a = Some v \<and> m b = Some v \<longrightarrow> a = b)"

lemma finite_shard_keys: "finite (dom m) \<Longrightarrow> finite (shard_keys m s)"
proof -
  assume "finite (dom m)"
  then have "finite ((\<lambda>k. (k, the (m k))) ` dom m)" by simp
  moreover have "shard_keys m s \<subseteq> (\<lambda>k. (k, the (m k))) ` dom m" by (force simp: shard_keys_def)
  ultimately show ?thesis by (rule finite_subset [rotated])
qed

lemma keys_rep_new: "hash_table_laws ht key_hash elems \<Longrightarrow> keys_rep elems (slots_new ht) Map.empty"
  by (simp add: keys_rep_def slots_new_def shard_keys_def hash_tableD(1))

lemma keys_find:
  assumes laws: "hash_table_laws ht key_hash elems" and rep: "keys_rep elems g m"
  shows "ht_find ht (sl_keys g ! claim_shard_of (sn_hash key)) (claim_table_hash (sn_hash key)) (\<lambda>(claimed, _). claimed = key) = map_option (Pair key) (m key)"
proof -
  let ?s = "claim_shard_of (sn_hash key)"
  have elems: "set_mset (elems (sl_keys g ! ?s)) = shard_keys m ?s"
    using rep claim_shard_less finite_shard_keys by (simp add: keys_rep_def)
  show ?thesis
  proof (cases "m key")
    case None
    then have "\<not> (\<lambda>(claimed, _). claimed = key) d" if "d \<in># elems (sl_keys g ! ?s)" for d
      using that unfolding elems by (auto simp: shard_keys_def)
    then show ?thesis using None ht_find_none [OF laws] by simp
  next
    case (Some v)
    have "ht_find ht (sl_keys g ! ?s) (claim_table_hash (sn_hash key)) (\<lambda>(claimed, _). claimed = key) = Some (key, v)"
    proof (rule ht_find_unique [OF laws])
      show "(key, v) \<in># elems (sl_keys g ! ?s)" unfolding elems using Some by (simp add: shard_keys_def)
      show "d = (key, v)" if "d \<in># elems (sl_keys g ! ?s)" "(\<lambda>(claimed, _). claimed = key) d" for d
        using that Some unfolding elems by (auto simp: shard_keys_def)
    qed (simp_all add: key_hash_def)
    then show ?thesis using Some by simp
  qed
qed

lemma slots_slot_known:
  assumes "hash_table_laws ht key_hash elems" "keys_rep elems g m" "m key = Some v"
  shows "slots_slot ht key g = (Some v, g)"
  using keys_find [OF assms(1,2), of key] assms(3) by (simp add: slots_slot_def Let_def)

lemma slots_slot_full:
  assumes "hash_table_laws ht key_hash elems" "keys_rep elems g m" "m key = None" "sl_next g = - 1"
  shows "slots_slot ht key g = (None, g)"
  using keys_find [OF assms(1,2), of key] assms(3,4) by (simp add: slots_slot_def Let_def)

lemma slots_slot_new:
  assumes laws: "hash_table_laws ht key_hash elems" and rep: "keys_rep elems g m" and new: "m key = None" "sl_next g \<noteq> - 1"
  obtains g' where "slots_slot ht key g = (Some (sl_next g), g')" "keys_rep elems g' (m(key \<mapsto> sl_next g))"
    "sl_next g' = sl_next g + 1" "sl_claims g' = sl_claims g"
proof -
  let ?s = "claim_shard_of (sn_hash key)" and ?h = "claim_table_hash (sn_hash key)" and ?m = "m(key \<mapsto> sl_next g)"
  let ?t = "ht_insert ht (sl_keys g ! ?s) ?h (key, sl_next g)"
  let ?g = "g\<lparr>sl_next := sl_next g + 1, sl_keys := (sl_keys g)[?s := ?t]\<rparr>"
  have less: "v < sl_next g + 1 \<longleftrightarrow> v < sl_next g \<or> v = sl_next g" for v
  proof -
    have "1 + sl_next g \<noteq> 0" using new(2) by (metis add_eq_0_iff2 minus_equation_iff)
    then have "unat (sl_next g + 1) = Suc (unat (sl_next g))" by (simp add: unatSuc add.commute)
    then show ?thesis by (auto simp: word_less_nat_alt word_unat_eq_iff)
  qed
  have fin: "finite (dom m)" using rep by (simp add: keys_rep_def)
  have shard: "shard_keys ?m s = (if s = ?s then insert (key, sl_next g) (shard_keys m s) else shard_keys m s)" for s
    using new(1) by (auto simp: shard_keys_def split: if_splits)
  have "(key, sl_next g) \<notin> shard_keys m ?s" using new(1) by (simp add: shard_keys_def)
  moreover have "elems ?t = add_mset (key, sl_next g) (elems (sl_keys g ! ?s))" by (rule hash_tableD(4) [OF laws]) (simp add: key_hash_def)
  ultimately have el: "elems ?t = mset_set (shard_keys ?m ?s)"
    using rep claim_shard_less finite_shard_keys [OF fin] by (simp add: shard keys_rep_def)
  have "keys_rep elems ?g ?m"
    using rep el claim_shard_less unfolding keys_rep_def by (auto simp: nth_list_update shard slot_given_def less)
  then show ?thesis using that [of ?g] keys_find [OF laws rep, of key] new by (simp add: slots_slot_def Let_def)
qed

text \<open>
  A history of calls: a key was looked up with this answer, an offer was made on a slot that had been given
  out. Calls of several threads are in the order in which they take the lock or change the cell.
\<close>

datatype slot_call = SlotOf symbol_name "u32 option" | Offer u32 u32 u32

fun slots_run :: "('t, symbol_name \<times> u32) hash_table \<Rightarrow> slot_call list \<Rightarrow> 't group_slots \<Rightarrow> 't group_slots option" where
  "slots_run ht [] g = Some g"
| "slots_run ht (SlotOf key answer # calls) g =
     (case slots_slot ht key g of (given, g') \<Rightarrow> if given = answer then slots_run ht calls g' else None)"
| "slots_run ht (Offer slot rnd rank # calls) g =
     (if slot_given g slot then slots_run ht calls (slots_offer slot rnd rank g) else None)"

lemma slots_offer_keys [simp]: "sl_keys (slots_offer slot rnd rank g) = sl_keys g" "sl_next (slots_offer slot rnd rank g) = sl_next g"
  by (simp_all add: slots_offer_def Let_def case_prod_beta)

lemma slots_offer_rep [simp]: "keys_rep elems (slots_offer slot rnd rank g) m = keys_rep elems g m"
  by (simp add: keys_rep_def slot_given_def)

lemma slots_run_keys:
  "hash_table_laws ht key_hash elems \<Longrightarrow> keys_rep elems g m \<Longrightarrow> slots_run ht calls g = Some g' \<Longrightarrow>
    \<exists>m'. m \<subseteq>\<^sub>m m' \<and> keys_rep elems g' m' \<and> (\<forall>key slot. SlotOf key (Some slot) \<in> set calls \<longrightarrow> m' key = Some slot)"
proof (induction ht calls g arbitrary: m rule: slots_run.induct)
  case (2 ht key answer calls g)
  obtain given g1 where slot: "slots_slot ht key g = (given, g1)" by (cases "slots_slot ht key g")
  with 2 have run: "given = answer" "slots_run ht calls g1 = Some g'" by (simp_all split: if_splits)
  have "\<exists>m1. m \<subseteq>\<^sub>m m1 \<and> keys_rep elems g1 m1 \<and> (\<forall>slot. given = Some slot \<longrightarrow> m1 key = Some slot)"
  proof (cases "m key")
    case (Some v)
    then have "(given, g1) = (Some v, g)" using slots_slot_known [OF 2(2,3) Some] slot by metis
    then show ?thesis using Some 2(3) by (intro exI [of _ m]) simp
  next
    case None
    show ?thesis
    proof (cases "sl_next g = - 1")
      case True
      then show ?thesis using slots_slot_full [OF 2(2,3) None True] slot 2(3) by (intro exI [of _ m]) simp
    next
      case False
      obtain g2 where "slots_slot ht key g = (Some (sl_next g), g2)" "keys_rep elems g2 (m(key \<mapsto> sl_next g))"
        by (rule slots_slot_new [OF 2(2,3) None False])
      then show ?thesis using slot None by (intro exI [of _ "m(key \<mapsto> sl_next g)"]) (auto simp: map_le_def)
    qed
  qed
  then obtain m1 where m1: "m \<subseteq>\<^sub>m m1" "keys_rep elems g1 m1" "\<forall>slot. given = Some slot \<longrightarrow> m1 key = Some slot" by blast
  from 2(1,2) slot run m1(2) obtain m' where "m1 \<subseteq>\<^sub>m m'" "keys_rep elems g' m'" "\<forall>key slot. SlotOf key (Some slot) \<in> set calls \<longrightarrow> m' key = Some slot"
    by fastforce
  moreover have "m' key = Some slot" if "answer = Some slot" for slot
    using that run(1) m1(3) \<open>m1 \<subseteq>\<^sub>m m'\<close> by (auto simp: map_le_def dom_def)
  ultimately show ?case using map_le_trans [OF m1(1)] by (intro exI [of _ m']) auto
next
  case (3 ht slot rnd rank calls g)
  then show ?case by (auto split: if_splits)
next
  case (1 ht g)
  then show ?case by (intro exI [of _ m]) simp
qed

lemma slots_run_value:
  "slots_ok g \<Longrightarrow> slots_run ht calls g = Some g' \<Longrightarrow> slots_ok g' \<and> slot_value g' slot =
     Min (insert (slot_value g slot) {claim_word rnd rank |rnd rank. Offer slot rnd rank \<in> set calls})"
proof (induction ht calls g rule: slots_run.induct)
  case (2 ht key answer calls g)
  obtain given g1 where slot: "slots_slot ht key g = (given, g1)" by (cases "slots_slot ht key g")
  then have "sl_claims g1 = sl_claims g" by (auto simp: slots_slot_def Let_def split: option.splits if_splits)
  then have "slots_ok g1 = slots_ok g" "slot_value g1 slot = slot_value g slot" by (simp_all add: slots_ok_def slot_value_def)
  then show ?case using 2 slot by (auto split: if_splits)
next
  case (3 ht s r k calls g)
  let ?W = "\<lambda>calls. {claim_word rnd rank |rnd rank. Offer slot rnd rank \<in> set calls}"
  have "?W calls \<subseteq> (\<lambda>c. case c of Offer s r k \<Rightarrow> claim_word r k | _ \<Rightarrow> 0) ` set calls" by (force split: slot_call.splits)
  then have fin: "finite (?W calls)" by (rule finite_subset) simp
  note ok = slots_offer_value [OF 3(2), of s r k]
  have "?W (Offer s r k # calls) = (if s = slot then insert (claim_word r k) (?W calls) else ?W calls)" by auto
  moreover have "Min (insert (min a b) S) = Min (insert a (insert b S))" if "finite S" for a b :: u64 and S
    using that by (cases "S = {}") (simp_all add: min.assoc)
  ultimately show ?case using 3 ok(1) ok(2) [of slot] fin by (auto split: if_splits)
qed simp

definition demo_key :: symbol_name where
  "demo_key = \<lparr>sn_bytes = [103], sn_version = None, sn_hash = 0x0102030405060708\<rparr>"

section \<open>Properties\<close>

text \<open>
  C28. The owner of a group is decided by the offers alone: after any number of rounds whose offers came
  in any order, the owner of a key is the file with the lowest position (then the lowest id) among those
  that offered it in the first round that offered it at all, and nothing else is owned.
\<close>

theorem claims_first_round_lowest:
  "hash_table_laws ht claim_hash elems \<Longrightarrow> length rounds \<le> u32_max \<Longrightarrow>
   claims_owner ht (run_rounds ht rounds (claims_new ht)) key = round_winner key rounds"
proof -
  assume laws: "hash_table_laws ht claim_hash elems" and len: "length rounds \<le> u32_max"
  obtain m where rep: "claims_rep elems (run_rounds ht rounds (claims_new ht)) m"
    and win: "\<And>k. map_option cl_owner (m k) = round_winner k rounds"
    using run_rounds_inv [OF laws len] by blast
  show ?thesis using claims_find [OF laws rep, of key] win [of key] by (simp add: claims_owner_def Let_def)
qed

theorem claims_first_round_lowest_witness:
  "claims_owner (list_table claim_hash) (run_rounds (list_table claim_hash)
     [[(demo_key, 5, 8), (demo_key, 5, 7), (demo_key, 6, 1)], [(demo_key, 1, 0)]] (claims_new (list_table claim_hash))) demo_key = Some 7"
proof -
  have "offers_for demo_key [(demo_key, 5, 8), (demo_key, 5, 7), (demo_key, 6, 1)] = {(5, 8), (5, 7), (6, 1)}"
    by (auto simp: offers_for_def)
  then have "round_winner demo_key [[(demo_key, 5, 8), (demo_key, 5, 7), (demo_key, 6, 1)], [(demo_key, 1, 0)]] = Some 7"
    by (simp add: round_winner_def min_def)
  then show ?thesis by (subst claims_first_round_lowest [OF list_table_laws]) simp_all
qed

text \<open>
  C29. The cells of the slots are in bounds and apart: every 32-bit slot lies in one of the segments, at
  an index inside it, and different slots have different cells.
\<close>

theorem slot_cell_in_bounds:
  "fst (slot_cell slot) < SLOT_SEGMENTS \<and> snd (slot_cell slot) < SLOT_BASE * 2 ^ fst (slot_cell slot) \<and> inj slot_cell"
proof (intro conjI injI)
  obtain segment index where c: "slot_cell slot = (segment, index)" by (cases "slot_cell slot")
  show "fst (slot_cell slot) < SLOT_SEGMENTS" "snd (slot_cell slot) < SLOT_BASE * 2 ^ fst (slot_cell slot)"
    using slot_cell_place [OF c] by (simp_all add: c)
qed (rule slot_cell_inj)

text \<open>
  C30. A slot belongs to the lowest offer made for its key: after any history of lookups and offers on slots
  that were given out, from any number of threads, a key has the one slot it was first given, no other key
  has that slot, and an offer of a round and a rank on it holds the slot exactly when no offer on it has a
  lower pair of round and rank.
\<close>

theorem slots_lowest_offer:
  assumes "hash_table_laws ht key_hash elems" "slots_run ht calls (slots_new ht) = Some g" "SlotOf key (Some slot) \<in> set calls"
  shows "slots_slot ht key g = (Some slot, g) \<and>
    (\<forall>key' slot'. SlotOf key' (Some slot') \<in> set calls \<longrightarrow> (key' = key \<longleftrightarrow> slot' = slot)) \<and>
    (\<forall>rnd rank. Offer slot rnd rank \<in> set calls \<longrightarrow>
       (slots_holds g slot rnd rank \<longleftrightarrow> (\<forall>rnd' rank'. Offer slot rnd' rank' \<in> set calls \<longrightarrow> (rnd, rank) \<le> (rnd', rank'))))"
proof -
  from slots_run_keys [OF assms(1) keys_rep_new [OF assms(1)] assms(2)] obtain m where
      rep: "keys_rep elems g m" and m: "\<And>key slot. SlotOf key (Some slot) \<in> set calls \<Longrightarrow> m key = Some slot" by blast
  have keys: "key' = key \<longleftrightarrow> slot' = slot" if "SlotOf key' (Some slot') \<in> set calls" for key' slot'
    using m [OF that] m [OF assms(3)] rep unfolding keys_rep_def by (metis option.inject)
  let ?W = "{claim_word rnd rank |rnd rank. Offer slot rnd rank \<in> set calls}"
  have "?W \<subseteq> (\<lambda>c. case c of Offer s r k \<Rightarrow> claim_word r k | _ \<Rightarrow> 0) ` set calls" by (force split: slot_call.splits)
  then have fin: "finite (insert (- 1) ?W)" using finite_subset by fastforce
  obtain segment index where c: "slot_cell slot = (segment, index)" by (cases "slot_cell slot")
  have "slot_value (slots_new ht) slot = - 1" using slot_cell_place(1) [OF c] by (simp add: slot_value_def c slots_new_def)
  moreover have "slots_ok (slots_new ht)" by (simp add: slots_ok_def slots_new_def)
  ultimately have final: "slot_value g slot = Min (insert (- 1) ?W)" using slots_run_value [OF _ assms(2), of slot] by simp
  have "slots_holds g slot rnd rank \<longleftrightarrow> (\<forall>rnd' rank'. Offer slot rnd' rank' \<in> set calls \<longrightarrow> (rnd, rank) \<le> (rnd', rank'))"
    if mem: "Offer slot rnd rank \<in> set calls" for rnd rank
  proof -
    have "slots_holds g slot rnd rank \<longleftrightarrow> (\<forall>w\<in>insert (- 1) ?W. claim_word rnd rank \<le> w)"
      using mem Min_eq_iff [OF fin, of "claim_word rnd rank"] by (auto simp: slots_holds_def final)
    also have "\<dots> \<longleftrightarrow> (\<forall>rnd' rank'. Offer slot rnd' rank' \<in> set calls \<longrightarrow> claim_word rnd rank \<le> claim_word rnd' rank')"
      by (auto simp: word_order.extremum)
    finally show ?thesis by (simp only: claim_word_le)
  qed
  then show ?thesis using slots_slot_known [OF assms(1) rep m [OF assms(3)]] keys by blast
qed

definition demo_other_key :: symbol_name where
  "demo_other_key = \<lparr>sn_bytes = [104], sn_version = None, sn_hash = 0x0102030405060709\<rparr>"

definition demo_calls :: "slot_call list" where
  "demo_calls = [SlotOf demo_key (Some 0), SlotOf demo_other_key (Some 1), Offer 1 1 9, SlotOf demo_other_key (Some 1), Offer 1 1 5,
     Offer 0 2 3, Offer 1 2 3]"

theorem slots_lowest_offer_witness:
  "\<exists>g. slots_run (list_table key_hash) demo_calls (slots_new (list_table key_hash)) = Some g \<and>
     slots_holds g 1 1 5 \<and> \<not> slots_holds g 1 1 9 \<and> \<not> slots_holds g 1 2 3 \<and> slots_holds g 0 2 3"
proof -
  let ?ht = "list_table key_hash"
  have keys: "demo_key \<noteq> demo_other_key" by (simp add: demo_key_def demo_other_key_def)
  have start: "sl_next (slots_new ?ht) = 0" by (simp add: slots_new_def)
  obtain g1 where g1: "slots_slot ?ht demo_key (slots_new ?ht) = (Some 0, g1)" "keys_rep mset g1 [demo_key \<mapsto> 0]" "sl_next g1 = 1"
    using slots_slot_new [OF list_table_laws keys_rep_new [OF list_table_laws], of demo_key] by (auto simp: start)
  obtain g2 where g2: "slots_slot ?ht demo_other_key g1 = (Some 1, g2)" "keys_rep mset g2 [demo_key \<mapsto> 0, demo_other_key \<mapsto> 1]" "sl_next g2 = 2"
    using slots_slot_new [OF list_table_laws g1(2), of demo_other_key] keys by (auto simp: g1(3))
  have "slots_slot ?ht demo_other_key (slots_offer 1 1 9 g2) = (Some 1, slots_offer 1 1 9 g2)"
    using g2(2) by (intro slots_slot_known [OF list_table_laws, of _ "[demo_key \<mapsto> 0, demo_other_key \<mapsto> 1]"]) simp_all
  then obtain g where g: "slots_run ?ht demo_calls (slots_new ?ht) = Some g"
    by (simp add: demo_calls_def g1 g2 slot_given_def)
  have mem: "SlotOf demo_other_key (Some 1) \<in> set demo_calls" "SlotOf demo_key (Some 0) \<in> set demo_calls" by (simp_all add: demo_calls_def)
  note one = slots_lowest_offer [OF list_table_laws g mem(1), THEN conjunct2, THEN conjunct2, rule_format]
    and zero = slots_lowest_offer [OF list_table_laws g mem(2), THEN conjunct2, THEN conjunct2, rule_format]
  have "slots_holds g 1 1 5" by (subst one) (auto simp: demo_calls_def)
  moreover have "\<not> slots_holds g 1 1 9" by (subst one) (auto simp: demo_calls_def)
  moreover have "\<not> slots_holds g 1 2 3"
  proof -
    have "Offer 1 2 3 \<in> set demo_calls" "Offer 1 1 5 \<in> set demo_calls" "\<not> (2 :: u32, 3 :: u32) \<le> (1, 5)"
      by (simp_all add: demo_calls_def word_le_nat_alt)
    then show ?thesis using one [of 2 3] by blast
  qed
  moreover have "slots_holds g 0 2 3" by (subst zero) (auto simp: demo_calls_def)
  ultimately show ?thesis using g by blast
qed

end
