(* ===== verification/SymbolTable.thy ===== *)
theory SymbolTable
  imports SymbolDefs HashTable
begin

text \<open>
  The sharded symbol table (src/src/symbols/table.rs): names interned to dense ids, with the flags and
  the definition of each symbol beside. hashbrown's table is a parameter. A shard's lock makes each
  lookup of the first pass atomic, so the threads of a batch are a sequence of lookups in some order, the
  \<open>schedule\<close>; the other passes write disjoint cells. The index \<open>names[slot.value]\<close> of the lookups panics
  when a slot holds no id of the table; here the slot does not match, and the invariant of the table says
  that there is no such slot.
\<close>

section \<open>Shards and slots\<close>

definition SHARD_BITS :: nat where
  "SHARD_BITS = 11"

definition SHARD_COUNT :: usize where
  "SHARD_COUNT = 2 ^ SHARD_BITS"

definition PENDING :: u32 where
  "PENDING = push_bit 31 1"

definition MAX_SYMBOLS :: usize where
  "MAX_SYMBOLS = unat PENDING"

definition MIN_PARALLEL_LOOKUP :: usize where
  "MIN_PARALLEL_LOOKUP = 2 ^ 16"

definition MIN_PARALLEL_LOOKUP_KNOWN :: usize where
  "MIN_PARALLEL_LOOKUP_KNOWN = 2 ^ 14"

datatype limit_error = Limit usize

definition overflow :: "usize \<Rightarrow> limit_error" where
  "overflow limit = Limit limit"

type_synonym occurrence = "input_position \<times> u32"

record symbol_slot =
  slt_h32 :: u32
  slt_value :: u32

record pending_name =
  pn_name :: symbol_name
  pn_first :: occurrence

record 't shard =
  sh_table :: 't
  sh_pending :: "pending_name list"
  sh_assigned :: "u32 list"

definition shard_new :: "('t, symbol_slot) hash_table \<Rightarrow> 't shard" where
  "shard_new ht = \<lparr>sh_table = ht_new ht, sh_pending = [], sh_assigned = []\<rparr>"

definition symbol_shard_of :: "u64 \<Rightarrow> usize" where
  "symbol_shard_of hash = unat (drop_bit (64 - SHARD_BITS) hash)"

definition low32 :: "u64 \<Rightarrow> u32" where
  "low32 hash = ucast hash"

definition table_hash :: "u32 \<Rightarrow> u64" where
  "table_hash h32 = ucast h32 * 0x9e3779b97f4a7c15"

record intern_job =
  ij_position :: input_position
  ij_names :: "symbol_name list"
  ij_ids :: "symbol_id list"

record 't symbol_table =
  st_shards :: "'t shard list"
  st_names :: "symbol_name list"
  st_flags :: "u32 list"
  st_defs :: "def_cell list"
  st_limit :: usize

section \<open>The table\<close>

text \<open>The capacity only reserves memory.\<close>

definition table_with_capacity :: "('t, symbol_slot) hash_table \<Rightarrow> usize \<Rightarrow> 't symbol_table" where
  "table_with_capacity ht symbols =
     \<lparr>st_shards = map (\<lambda>_. shard_new ht) [0..<SHARD_COUNT], st_names = [], st_flags = [], st_defs = [], st_limit = MAX_SYMBOLS\<rparr>"

definition table_new :: "('t, symbol_slot) hash_table \<Rightarrow> 't symbol_table" where
  "table_new ht = table_with_capacity ht 0"

definition set_limit :: "usize \<Rightarrow> 't symbol_table \<Rightarrow> 't symbol_table" where
  "set_limit limit st = st\<lparr>st_limit := min limit MAX_SYMBOLS\<rparr>"

definition table_len :: "'t symbol_table \<Rightarrow> usize" where
  "table_len st = length (st_names st)"

definition table_is_empty :: "'t symbol_table \<Rightarrow> bool" where
  "table_is_empty st \<longleftrightarrow> st_names st = []"

text \<open>Every id: \<open>new\<close> panics when an index does not fit.\<close>

definition table_ids :: "'t symbol_table \<Rightarrow> symbol_id list option" where
  "table_ids st = collect_options (map new_id [0..<table_len st])"

definition table_name :: "'t symbol_table \<Rightarrow> symbol_id \<Rightarrow> symbol_name option" where
  "table_name st i = get_nth (st_names st) (id_index i)"

text \<open>\<open>names[value as usize] == name\<close>.\<close>

definition is_named :: "symbol_name list \<Rightarrow> u32 \<Rightarrow> symbol_name \<Rightarrow> bool" where
  "is_named names v name = (case get_nth names (unat v) of None \<Rightarrow> False | Some n \<Rightarrow> name_eq n name)"

definition table_lookup :: "('t, symbol_slot) hash_table \<Rightarrow> 't symbol_table \<Rightarrow> symbol_name \<Rightarrow> symbol_id option" where
  "table_lookup ht st name =
     (let h32 = low32 (sn_hash name); shard = st_shards st ! symbol_shard_of (sn_hash name)
      in map_option (\<lambda>slot. id_from_u32 (slt_value slot))
           (ht_find ht (sh_table shard) (table_hash h32)
              (\<lambda>slot. slt_h32 slot = h32 \<and> slt_value slot AND PENDING = 0 \<and> is_named (st_names st) (slt_value slot) name)))"

text \<open>Default state for new symbols; above a size the vectors grow in parallel, to the same contents.\<close>

definition grow_state :: "usize \<Rightarrow> 't symbol_table \<Rightarrow> 't symbol_table" where
  "grow_state n st =
     st\<lparr>st_flags := st_flags st @ map (\<lambda>_. 0) [0..<n], st_defs := st_defs st @ map (\<lambda>_. cell_undefined) [0..<n]\<rparr>"

text \<open>The id of a name, old or new; None when the name is new and the table is full.\<close>

definition intern_name :: "('t, symbol_slot) hash_table \<Rightarrow> symbol_name \<Rightarrow> 't symbol_table \<Rightarrow> (symbol_id \<times> 't symbol_table) option" where
  "intern_name ht name st =
     (let h32 = low32 (sn_hash name); s = symbol_shard_of (sn_hash name); shard = st_shards st ! s; ix = length (st_names st)
      in case ht_find ht (sh_table shard) (table_hash h32) (\<lambda>slot. slt_h32 slot = h32 \<and> is_named (st_names st) (slt_value slot) name) of
           Some slot \<Rightarrow> Some (id_from_u32 (slt_value slot), st)
         | None \<Rightarrow>
             if st_limit st \<le> ix then None
             else let v = of_nat ix in
               Some (id_from_u32 v,
                 st\<lparr>st_shards := (st_shards st)[s := shard\<lparr>sh_table :=
                       ht_insert ht (sh_table shard) (table_hash h32) \<lparr>slt_h32 = h32, slt_value = v\<rparr>\<rparr>],
                    st_names := st_names st @ [name]\<rparr>))"

definition try_intern :: "('t, symbol_slot) hash_table \<Rightarrow> symbol_name \<Rightarrow> 't symbol_table \<Rightarrow>
    (symbol_id, limit_error) result \<times> 't symbol_table" where
  "try_intern ht name st =
     (case intern_name ht name st of
        None \<Rightarrow> (Err (overflow (st_limit st)), st)
      | Some (i, st1) \<Rightarrow> (Ok i, if length (st_names st) < length (st_names st1) then grow_state 1 st1 else st1))"

text \<open>\<open>intern\<close> panics on the error.\<close>

definition table_intern :: "('t, symbol_slot) hash_table \<Rightarrow> symbol_name \<Rightarrow> 't symbol_table \<Rightarrow> (symbol_id \<times> 't symbol_table) option" where
  "table_intern ht name st = (case try_intern ht name st of (Ok i, st1) \<Rightarrow> Some (i, st1) | (Err _, _) \<Rightarrow> None)"

section \<open>A batch in order\<close>

text \<open>The ids written, whether every name got one, and the table.\<close>

fun intern_each :: "('t, symbol_slot) hash_table \<Rightarrow> symbol_name list \<Rightarrow> 't symbol_table \<Rightarrow> symbol_id list \<times> bool \<times> 't symbol_table" where
  "intern_each ht [] st = ([], True, st)"
| "intern_each ht (name # names) st =
     (case intern_name ht name st of
        None \<Rightarrow> ([], False, st)
      | Some (i, st1) \<Rightarrow> (case intern_each ht names st1 of (ids, complete, st2) \<Rightarrow> (i # ids, complete, st2)))"

definition forget_name :: "('t, symbol_slot) hash_table \<Rightarrow> 't symbol_table \<Rightarrow> nat \<times> symbol_name \<Rightarrow> 't symbol_table" where
  "forget_name ht st = (\<lambda>(index, name).
     let v = of_nat index; s = symbol_shard_of (sn_hash name); shard = st_shards st ! s; h = table_hash (low32 (sn_hash name))
     in case ht_find ht (sh_table shard) h (\<lambda>slot. slt_value slot = v) of
          None \<Rightarrow> st
        | Some _ \<Rightarrow> st\<lparr>st_shards := (st_shards st)[s := shard\<lparr>sh_table := ht_remove ht (sh_table shard) h (\<lambda>slot. slt_value slot = v)\<rparr>]\<rparr>)"

definition forget_names_from :: "('t, symbol_slot) hash_table \<Rightarrow> usize \<Rightarrow> 't symbol_table \<Rightarrow> 't symbol_table" where
  "forget_names_from ht base st =
     (let st1 = foldl (forget_name ht) st (List.enumerate base (drop base (st_names st)))
      in st1\<lparr>st_names := take base (st_names st1)\<rparr>)"

text \<open>What \<open>iter_mut().zip(names)\<close> leaves in the ids after writing \<open>written\<close>.\<close>

definition write_ids :: "symbol_id list \<Rightarrow> intern_job \<Rightarrow> intern_job" where
  "write_ids written job = job\<lparr>ij_ids := written @ drop (length written) (ij_ids job)\<rparr>"

definition job_names :: "intern_job \<Rightarrow> symbol_name list" where
  "job_names job = map snd (zip (ij_ids job) (ij_names job))"

fun intern_jobs :: "('t, symbol_slot) hash_table \<Rightarrow> usize list \<Rightarrow> intern_job list \<Rightarrow> 't symbol_table \<Rightarrow>
    intern_job list \<times> bool \<times> 't symbol_table" where
  "intern_jobs ht [] jobs st = (jobs, True, st)"
| "intern_jobs ht (j # order) jobs st =
     (case intern_each ht (job_names (jobs ! j)) st of
        (written, complete, st1) \<Rightarrow>
          let jobs1 = jobs[j := write_ids written (jobs ! j)]
          in if complete then intern_jobs ht order jobs1 st1 else (jobs1, False, st1))"

type_synonym 't batch_result = "(unit, limit_error) result \<times> 't symbol_table \<times> intern_job list"

definition intern_in_order :: "('t, symbol_slot) hash_table \<Rightarrow> intern_job list \<Rightarrow> usize list \<Rightarrow> 't symbol_table \<Rightarrow> 't batch_result" where
  "intern_in_order ht jobs order st =
     (let base = length (st_names st)
      in case intern_jobs ht order jobs st of
           (jobs1, True, st1) \<Rightarrow> (Ok (), grow_state (length (st_names st1) - base) st1, jobs1)
         | (jobs1, False, st1) \<Rightarrow>
             let st2 = forget_names_from ht base st1 in (Err (overflow (st_limit st2)), st2, jobs1))"

section \<open>A batch in three passes\<close>

text \<open>Pass 1 for one name: an id or a pending handle, whether the pending list overflowed, and the table.\<close>

definition pending_is :: "symbol_name list \<Rightarrow> pending_name list \<Rightarrow> u32 \<Rightarrow> symbol_name \<Rightarrow> bool" where
  "pending_is names pending v name =
     (if v AND PENDING = 0 then is_named names v name else is_named (map pn_name pending) (v AND NOT PENDING) name)"

definition note_occurrence :: "occurrence \<Rightarrow> pending_name \<Rightarrow> pending_name" where
  "note_occurrence occ record = (if occ < pn_first record then record\<lparr>pn_first := occ\<rparr> else record)"

definition lookup_or_pend :: "('t, symbol_slot) hash_table \<Rightarrow> symbol_name \<Rightarrow> occurrence \<Rightarrow> bool \<times> 't symbol_table \<Rightarrow>
    u32 \<times> bool \<times> 't symbol_table" where
  "lookup_or_pend ht name occ = (\<lambda>(overflowed, st).
     let h32 = low32 (sn_hash name); s = symbol_shard_of (sn_hash name); shard = st_shards st ! s; pending = sh_pending shard
     in case ht_find ht (sh_table shard) (table_hash h32)
               (\<lambda>slot. slt_h32 slot = h32 \<and> pending_is (st_names st) pending (slt_value slot) name) of
          Some slot \<Rightarrow>
            let v = slt_value slot; l = unat (v AND NOT PENDING) in
            (v, overflowed,
             if v AND PENDING \<noteq> 0
             then st\<lparr>st_shards := (st_shards st)[s := shard\<lparr>sh_pending := pending[l := note_occurrence occ (pending ! l)]\<rparr>]\<rparr>
             else st)
        | None \<Rightarrow>
            (case u32_try_from (length pending) of
               None \<Rightarrow> (- 1, True, st)
             | Some l \<Rightarrow>
                 if \<not> l < PENDING then (- 1, True, st)
                 else let v = PENDING OR l in
                   (v, overflowed,
                    st\<lparr>st_shards := (st_shards st)[s := shard
                      \<lparr>sh_table := ht_insert ht (sh_table shard) (table_hash h32) \<lparr>slt_h32 = h32, slt_value = v\<rparr>,
                       sh_pending := pending @ [\<lparr>pn_name = name, pn_first = occ\<rparr>]\<rparr>]\<rparr>)))"

text \<open>The lookup of name \<open>i\<close> of job \<open>j\<close>, one step of a schedule.\<close>

definition intern_one :: "('t, symbol_slot) hash_table \<Rightarrow> (bool \<times> 't symbol_table) \<times> intern_job list \<Rightarrow> usize \<times> usize \<Rightarrow>
    (bool \<times> 't symbol_table) \<times> intern_job list" where
  "intern_one ht = (\<lambda>(state, jobs) (j, i).
     let job = jobs ! j; index = (case u32_try_from i of None \<Rightarrow> - 1 | Some index \<Rightarrow> index)
     in case lookup_or_pend ht (ij_names job ! i) (ij_position job, index) state of
          (v, state1) \<Rightarrow> (state1, jobs[j := job\<lparr>ij_ids := (ij_ids job)[i := id_from_u32 v]\<rparr>]))"

text \<open>The order in which one thread makes the lookups.\<close>

definition job_occurrences :: "intern_job list \<Rightarrow> (usize \<times> usize) list" where
  "job_occurrences jobs = concat (map (\<lambda>j. map (Pair j) [0..<length (ij_names (jobs ! j))]) [0..<length jobs])"

definition active_shards :: "'t symbol_table \<Rightarrow> usize list" where
  "active_shards st = filter (\<lambda>s. sh_pending (st_shards st ! s) \<noteq> []) [0..<length (st_shards st)]"

definition discard_pending :: "('t, symbol_slot) hash_table \<Rightarrow> usize list \<Rightarrow> 't symbol_table \<Rightarrow> 't symbol_table" where
  "discard_pending ht active st = foldl (\<lambda>st s. let shard = st_shards st ! s in
     st\<lparr>st_shards := (st_shards st)[s := shard
       \<lparr>sh_table := ht_retain ht (sh_table shard) (\<lambda>slot. slt_value slot AND PENDING = 0), sh_pending := []\<rparr>]\<rparr>) st active"

text \<open>\<open>select_mut\<close> (src/src/symbols/util.rs): the items at increasing indices; it panics on others.\<close>

fun select_from :: "'a list \<Rightarrow> usize \<Rightarrow> usize list \<Rightarrow> 'a list option" where
  "select_from rest offset [] = Some []"
| "select_from rest offset (index # indices) =
     (if index < offset then None
      else case drop (index - offset) rest of
             [] \<Rightarrow> None
           | item # tail \<Rightarrow> map_option ((#) item) (select_from tail (index + 1) indices))"

definition select_mut :: "'a list \<Rightarrow> usize list \<Rightarrow> 'a list option" where
  "select_mut items indices = select_from items 0 indices"

text \<open>Pass 2: (first occurrence, active shard, pending index), sorted by occurrence and then by name.\<close>

type_synonym pending_entry = "occurrence \<times> u32 \<times> u32"

definition pending_entries :: "'t shard list \<Rightarrow> pending_entry list" where
  "pending_entries shards = concat (map (\<lambda>(s, shard).
     map (\<lambda>(l, record). (pn_first record, of_nat s, of_nat l)) (List.enumerate 0 (sh_pending shard))) (List.enumerate 0 shards))"

definition entry_name :: "'t shard list \<Rightarrow> pending_entry \<Rightarrow> symbol_name" where
  "entry_name shards = (\<lambda>(_, s, l). pn_name (sh_pending (shards ! unat s) ! unat l))"

definition compare_entries :: "'t shard list \<Rightarrow> pending_entry \<Rightarrow> pending_entry \<Rightarrow> cmp_ordering" where
  "compare_entries shards a b = then_ordering (cmp (fst a) (fst b)) (cmp_contents (entry_name shards a) (entry_name shards b))"

definition store_assigned :: "usize \<Rightarrow> 't shard list \<Rightarrow> nat \<times> pending_entry \<Rightarrow> 't shard list" where
  "store_assigned base shards = (\<lambda>(rank, _, s, l). let shard = shards ! unat s in
     shards[unat s := shard\<lparr>sh_assigned := (sh_assigned shard)[unat l := of_nat (base + rank)]\<rparr>])"

definition finish_record :: "('t, symbol_slot) hash_table \<Rightarrow> u32 list \<Rightarrow> 't \<Rightarrow> nat \<times> pending_name \<Rightarrow> 't" where
  "finish_record ht assigned t = (\<lambda>(l, record).
     let h = table_hash (low32 (sn_hash (pn_name record))); handle = PENDING OR of_nat l
     in case ht_find ht t h (\<lambda>slot. slt_value slot = handle) of
          None \<Rightarrow> t
        | Some _ \<Rightarrow> ht_update ht t h (\<lambda>slot. slt_value slot = handle) (\<lambda>slot. slot\<lparr>slt_value := assigned ! l\<rparr>))"

definition finish_shard :: "('t, symbol_slot) hash_table \<Rightarrow> 't shard \<Rightarrow> 't shard" where
  "finish_shard ht shard = shard
     \<lparr>sh_table := foldl (finish_record ht (sh_assigned shard)) (sh_table shard) (List.enumerate 0 (sh_pending shard)), sh_pending := []\<rparr>"

definition assign_pending :: "('t, symbol_slot) hash_table \<Rightarrow> usize list \<Rightarrow> usize \<Rightarrow> usize \<Rightarrow> 't symbol_table \<Rightarrow> 't symbol_table option" where
  "assign_pending ht active base new_count st =
     (case select_mut (st_shards st) active of None \<Rightarrow> None
      | Some shards \<Rightarrow>
          let order = sort_by (compare_entries shards) (pending_entries shards);
              names = st_names st @ map (entry_name shards) order;
              cleared = map (\<lambda>shard. shard\<lparr>sh_assigned := replicate (length (sh_pending shard)) (- 1)\<rparr>) shards;
              assigned = foldl (store_assigned base) cleared (List.enumerate 0 order);
              finished = map (finish_shard ht) assigned
          in Some (grow_state new_count (st\<lparr>st_names := names,
               st_shards := foldl (\<lambda>shards (s, shard). shards[s := shard]) (st_shards st) (zip active finished)\<rparr>)))"

text \<open>Pass 3: a provisional handle becomes its final id.\<close>

definition rewrite_id :: "'t shard list \<Rightarrow> symbol_id \<times> symbol_name \<Rightarrow> symbol_id option" where
  "rewrite_id shards = (\<lambda>(i, name). let raw = id_as_u32 i in
     if raw AND PENDING \<noteq> 0
     then map_option id_from_u32 (get_nth (sh_assigned (shards ! symbol_shard_of (sn_hash name))) (unat (raw AND NOT PENDING)))
     else Some i)"

definition rewrite_job :: "'t shard list \<Rightarrow> intern_job \<Rightarrow> intern_job option" where
  "rewrite_job shards job =
     map_option (\<lambda>ids. write_ids ids job) (collect_options (map (rewrite_id shards) (zip (ij_ids job) (ij_names job))))"

definition clear_assigned :: "usize list \<Rightarrow> 't symbol_table \<Rightarrow> 't symbol_table" where
  "clear_assigned active st = foldl (\<lambda>st s. st\<lparr>st_shards := (st_shards st)[s := (st_shards st ! s)\<lparr>sh_assigned := []\<rparr>]\<rparr>) st active"

text \<open>The three passes over a schedule of the lookups; None when an index panics.\<close>

definition intern_passes :: "('t, symbol_slot) hash_table \<Rightarrow> (usize \<times> usize) list \<Rightarrow> intern_job list \<Rightarrow> 't symbol_table \<Rightarrow>
    't batch_result option" where
  "intern_passes ht schedule jobs st =
     (case foldl (intern_one ht) ((False, st), jobs) schedule of
        ((overflowed, st1), jobs1) \<Rightarrow>
          let active = active_shards st1
          in if active = [] then Some (Ok (), st1, jobs1)
             else let new_count = sum_list (map (\<lambda>s. length (sh_pending (st_shards st1 ! s))) active);
                      base = length (st_names st1)
                  in if overflowed \<or> st_limit st1 - base < new_count
                     then Some (Err (overflow (st_limit st1)), discard_pending ht active st1, jobs1)
                     else case assign_pending ht active base new_count st1 of None \<Rightarrow> None
                          | Some st2 \<Rightarrow>
                              map_option (\<lambda>jobs2. (Ok (), clear_assigned active st2, jobs2))
                                (collect_options (map (rewrite_job (st_shards st2)) jobs1)))"

section \<open>Flags by id\<close>

text \<open>An id the table did not give out is a panic, None.\<close>

definition table_flags :: "'t symbol_table \<Rightarrow> symbol_id \<Rightarrow> u32 option" where
  "table_flags st i = get_nth (st_flags st) (id_index i)"

definition table_set_flags :: "symbol_id \<Rightarrow> u32 \<Rightarrow> 't symbol_table \<Rightarrow> (u32 \<times> 't symbol_table) option" where
  "table_set_flags i flags st = map_option
     (\<lambda>cell. case flags_set cell flags of (before, after) \<Rightarrow> (before, st\<lparr>st_flags := (st_flags st)[id_index i := after]\<rparr>))
     (get_nth (st_flags st) (id_index i))"

definition table_clear_flags :: "symbol_id \<Rightarrow> u32 \<Rightarrow> 't symbol_table \<Rightarrow> (u32 \<times> 't symbol_table) option" where
  "table_clear_flags i flags st = map_option
     (\<lambda>cell. case flags_clear cell flags of (before, after) \<Rightarrow> (before, st\<lparr>st_flags := (st_flags st)[id_index i := after]\<rparr>))
     (get_nth (st_flags st) (id_index i))"

end
