(* ===== verification/SymbolPartition.thy ===== *)
theory SymbolPartition
  imports SymbolTable
begin

text \<open>
  Large batches (src/src/symbols/table/partition.rs) and the choice of a path (src/src/symbols/table.rs):
  names partitioned by shard with a counting sort, probed shard by shard and numbered by a bitmap of first
  occurrences. Tasks that run in parallel own disjoint cells, so they run one after another here. The
  number of threads and the way rayon cuts a range into runs are parameters. Counts and cursors are 32
  bits wide in the code and count names of a batch of less than 2^31 names; here they are numbers.
\<close>

section \<open>Sequences of names\<close>

definition MIN_CHUNK :: usize where
  "MIN_CHUNK = 4096"

definition MIN_PARALLEL_MISSES :: usize where
  "MIN_PARALLEL_MISSES = 2 ^ 14"

record name_sequence =
  sq_segments :: "symbol_name list list"
  sq_starts :: "usize list"

fun start_sums :: "usize \<Rightarrow> usize list \<Rightarrow> usize list" where
  "start_sums len [] = [len]"
| "start_sums len (n # ns) = len # start_sums (len + n) ns"

definition sequence_new :: "symbol_name list list \<Rightarrow> name_sequence" where
  "sequence_new segments = \<lparr>sq_segments = segments, sq_starts = start_sums 0 (map length segments)\<rparr>"

definition sequence_len :: "name_sequence \<Rightarrow> usize" where
  "sequence_len seq = sq_starts seq ! length (sq_segments seq)"

text \<open>The subtraction underflows when no segment starts at or before the index.\<close>

definition segment_of :: "name_sequence \<Rightarrow> usize \<Rightarrow> usize option" where
  "segment_of seq g =
     (case partition_point (\<lambda>start. start \<le> g) (take (length (sq_segments seq)) (sq_starts seq)) of 0 \<Rightarrow> None | Suc k \<Rightarrow> Some k)"

definition sequence_name :: "name_sequence \<Rightarrow> usize \<Rightarrow> symbol_name option" where
  "sequence_name seq g =
     (case segment_of seq g of None \<Rightarrow> None | Some k \<Rightarrow> get_nth (sq_segments seq ! k) (g - sq_starts seq ! k))"

text \<open>The names of a range with their indices, in the order in which \<open>for_each\<close> visits them.\<close>

function visit :: "name_sequence \<Rightarrow> usize \<Rightarrow> usize \<Rightarrow> usize \<Rightarrow> (usize \<times> symbol_name) list option" where
  "visit seq k g stop =
     (if stop \<le> g then Some []
      else if length (sq_segments seq) \<le> k then None
      else let segment = sq_segments seq ! k; start = sq_starts seq ! k; upto = min (start + length segment) stop
           in case get_range segment (g - start) (upto - start) of None \<Rightarrow> None
              | Some names \<Rightarrow> map_option (\<lambda>rest. List.enumerate g names @ rest) (visit seq (k + 1) upto stop))"
  by auto
termination by (relation "measure (\<lambda>(seq, k, _). length (sq_segments seq) - k)") auto

declare visit.simps [simp del]

definition for_each :: "name_sequence \<Rightarrow> usize \<times> usize \<Rightarrow> (usize \<times> symbol_name) list option" where
  "for_each seq = (\<lambda>(start, stop).
     if stop \<le> start then Some [] else case segment_of seq start of None \<Rightarrow> None | Some k \<Rightarrow> visit seq k start stop)"

section \<open>Lookups without locks\<close>

definition MISSING :: symbol_id where
  "MISSING = id_from_u32 PENDING"

definition view_lazy_file :: "def_cell list \<Rightarrow> symbol_id \<Rightarrow> file_id option option" where
  "view_lazy_file cells i =
     map_option (\<lambda>c. if dc_kind c = kind_as_u8 Lazy then Some (id_from_u32 (dc_file c)) else None) (get_nth cells (id_index i))"

definition is_found :: "symbol_id \<Rightarrow> bool" where
  "is_found i \<longleftrightarrow> id_as_u32 i AND PENDING = 0"

definition find_raw :: "('t, symbol_slot) hash_table \<Rightarrow> 't symbol_table \<Rightarrow> symbol_name \<Rightarrow> u32" where
  "find_raw ht st name =
     (let h32 = low32 (sn_hash name)
      in case ht_find ht (sh_table (st_shards st ! symbol_shard_of (sn_hash name))) (table_hash h32)
                (\<lambda>slot. slt_h32 slot = h32 \<and> is_named (st_names st) (slt_value slot) name) of
           None \<Rightarrow> PENDING | Some slot \<Rightarrow> slt_value slot)"

text \<open>The ids a job gets from the lookups, and how many names were not found.\<close>

definition find_all :: "('t, symbol_slot) hash_table \<Rightarrow> 't symbol_table \<Rightarrow> intern_job \<Rightarrow> intern_job \<times> usize" where
  "find_all ht st job =
     (let values = map (find_raw ht st) (job_names job)
      in (write_ids (map id_from_u32 values) job, length (filter (\<lambda>v. v = PENDING) values)))"

definition look_up_known :: "('t, symbol_slot) hash_table \<Rightarrow> 't symbol_table \<Rightarrow> intern_job list \<Rightarrow> intern_job list \<times> usize" where
  "look_up_known ht st jobs = (let found = map (find_all ht st) jobs in (map fst found, sum_list (map snd found)))"

section \<open>The partition\<close>

definition div_ceil :: "usize \<Rightarrow> usize \<Rightarrow> usize" where
  "div_ceil a b = (a + b - 1) div b"

definition chunk_size :: "usize \<Rightarrow> usize \<Rightarrow> usize" where
  "chunk_size threads len = div_ceil (max (div_ceil len (max threads 1 * 4)) MIN_CHUNK) 64 * 64"

definition num_chunks :: "usize \<Rightarrow> usize \<Rightarrow> usize" where
  "num_chunks chunk len = max (div_ceil len chunk) 1"

definition chunk_range :: "usize \<Rightarrow> usize \<Rightarrow> usize \<Rightarrow> usize \<times> usize" where
  "chunk_range chunk len c = (c * chunk, min ((c + 1) * chunk) len)"

text \<open>Pass 1: a chunk's names per shard, and the cursors of each chunk into the regions of the shards.\<close>

definition count_row :: "(usize \<times> symbol_name) list \<Rightarrow> usize list" where
  "count_row visited = foldl (\<lambda>row (_, name). let s = symbol_shard_of (sn_hash name) in row[s := row ! s + 1]) (replicate SHARD_COUNT 0) visited"

definition add_rows :: "usize list \<Rightarrow> usize list \<Rightarrow> usize list" where
  "add_rows a b = map (\<lambda>(x, y). x + y) (zip a b)"

fun cursor_rows :: "usize list \<Rightarrow> usize list list \<Rightarrow> usize list list" where
  "cursor_rows running [] = []"
| "cursor_rows running (row # rows) = running # cursor_rows (add_rows running row) rows"

definition shard_regions :: "usize list list \<Rightarrow> usize list" where
  "shard_regions rows = start_sums 0 (foldl add_rows (replicate SHARD_COUNT 0) rows)"

definition entry_word :: "usize \<Rightarrow> symbol_name \<Rightarrow> u64" where
  "entry_word g name = push_bit 32 (of_nat g) OR ucast (low32 (sn_hash name))"

definition scatter_name :: "u64 list \<times> usize list \<Rightarrow> usize \<times> symbol_name \<Rightarrow> u64 list \<times> usize list" where
  "scatter_name = (\<lambda>(entries, cursor) (g, name).
     let s = symbol_shard_of (sn_hash name); slot = cursor ! s
     in (entries[slot := entry_word g name], cursor[s := slot + 1]))"

fun scatter_chunks :: "u64 list \<Rightarrow> (usize \<times> symbol_name) list list \<Rightarrow> usize list list \<Rightarrow> u64 list \<times> usize list list" where
  "scatter_chunks entries (visited # chunks) (cursor # cursors) =
     (case foldl scatter_name (entries, cursor) visited of
        (entries1, cursor1) \<Rightarrow> case scatter_chunks entries1 chunks cursors of
          (entries2, cursors2) \<Rightarrow> (entries2, cursor1 # cursors2))"
| "scatter_chunks entries _ _ = (entries, [])"

definition first_cursors :: "usize list \<Rightarrow> usize list list \<Rightarrow> usize \<Rightarrow> usize list" where
  "first_cursors region cursors c = (if c = 0 then take SHARD_COUNT region else cursors ! (c - 1))"

text \<open>Pass 2: the region of a shard, entry by entry; each entry becomes its result.\<close>

definition probe_is :: "name_sequence \<Rightarrow> symbol_name list \<Rightarrow> u32 \<Rightarrow> usize \<Rightarrow> bool" where
  "probe_is seq names v g =
     (let other = if v AND PENDING = 0 then get_nth names (unat v) else sequence_name seq (unat (v AND NOT PENDING))
      in case (other, sequence_name seq g) of (Some a, Some b) \<Rightarrow> name_eq a b | _ \<Rightarrow> False)"

definition probe_entry :: "('t, symbol_slot) hash_table \<Rightarrow> name_sequence \<Rightarrow> symbol_name list \<Rightarrow> 't \<times> u64 list \<Rightarrow> usize \<Rightarrow> 't \<times> u64 list" where
  "probe_entry ht seq names = (\<lambda>(t, entries) i.
     let word = entries ! i; g = unat (drop_bit 32 word); h32 = ucast word :: u32
     in case ht_find ht t (table_hash h32) (\<lambda>slot. slt_h32 slot = h32 \<and> probe_is seq names (slt_value slot) g) of
          Some slot \<Rightarrow> (t, entries[i := ucast (slt_value slot)])
        | None \<Rightarrow>
            let v = PENDING OR of_nat g
            in (ht_insert ht t (table_hash h32) \<lparr>slt_h32 = h32, slt_value = v\<rparr>, entries[i := ucast v]))"

definition probe_shard :: "('t, symbol_slot) hash_table \<Rightarrow> name_sequence \<Rightarrow> symbol_name list \<Rightarrow> usize list \<Rightarrow>
    't shard list \<times> u64 list \<Rightarrow> usize \<Rightarrow> 't shard list \<times> u64 list" where
  "probe_shard ht seq names region = (\<lambda>(shards, entries) s.
     case foldl (probe_entry ht seq names) (sh_table (shards ! s), entries) [region ! s..<region ! (s + 1)] of
       (t, entries1) \<Rightarrow> (shards[s := (shards ! s)\<lparr>sh_table := t\<rparr>], entries1))"

text \<open>The result of a name, read through a cursor.\<close>

definition read_result :: "u64 list \<Rightarrow> usize list \<Rightarrow> symbol_name \<Rightarrow> u32 \<times> usize list" where
  "read_result entries cursor name =
     (let s = symbol_shard_of (sn_hash name); slot = cursor ! s in (ucast (entries ! slot), cursor[s := slot + 1]))"

text \<open>Pass 3: the bitmap of first occurrences; a chunk owns \<open>chunk / 64\<close> words of it.\<close>

definition mark_name :: "u64 list \<Rightarrow> usize \<Rightarrow> usize \<Rightarrow> u64 list \<times> usize list \<Rightarrow> usize \<times> symbol_name \<Rightarrow> u64 list \<times> usize list" where
  "mark_name entries chunk c = (\<lambda>(words, cursor) (g, name).
     case read_result entries cursor name of (v, cursor1) \<Rightarrow>
       let w = c * (chunk div 64) + (g - c * chunk) div 64
       in (if v = PENDING OR of_nat g then words[w := words ! w OR push_bit (g mod 64) 1] else words, cursor1))"

definition mark_chunk :: "u64 list \<Rightarrow> usize list \<Rightarrow> usize list list \<Rightarrow> usize \<Rightarrow> u64 list \<Rightarrow> usize \<times> (usize \<times> symbol_name) list \<Rightarrow> u64 list" where
  "mark_chunk entries region cursors chunk words = (\<lambda>(c, visited).
     fst (foldl (mark_name entries chunk c) (words, first_cursors region cursors c) visited))"

fun counts_before :: "usize \<Rightarrow> u64 list \<Rightarrow> usize list" where
  "counts_before n [] = []"
| "counts_before n (w # words) = n # counts_before (n + count_ones w) words"

definition id_of :: "u64 list \<Rightarrow> usize list \<Rightarrow> usize \<Rightarrow> u32 \<Rightarrow> symbol_id" where
  "id_of words before base v =
     (if v AND PENDING = 0 then id_from_u32 v
      else let g = unat (v AND NOT PENDING); word = g div 64; bit = g mod 64
           in id_from_u32 (of_nat base + of_nat (before ! word + count_ones (words ! word AND (push_bit bit 1 - 1)))))"

text \<open>The next set bit from a word and its remaining bits on; the scan panics past the last word.\<close>

function scan_bits :: "u64 list \<Rightarrow> usize \<Rightarrow> u64 \<Rightarrow> usize option" where
  "scan_bits words word bits =
     (if bits \<noteq> 0 then Some (word * 64 + trailing_zeros bits)
      else if word + 1 < length words then scan_bits words (word + 1) (words ! (word + 1)) else None)"
  by auto
termination by (relation "measure (\<lambda>(words, word, _). length words - word)") auto

declare scan_bits.simps [simp del]

fun drop_lowest :: "nat \<Rightarrow> u64 \<Rightarrow> u64" where
  "drop_lowest 0 bits = bits"
| "drop_lowest (Suc n) bits = drop_lowest n (bits AND (bits - 1))"

definition nth_new :: "u64 list \<Rightarrow> usize list \<Rightarrow> usize \<Rightarrow> (usize \<times> usize) option \<Rightarrow> usize option" where
  "nth_new words before rank at =
     (case at of
        Some (nxt, g) \<Rightarrow>
          if nxt = rank then scan_bits words (g div 64) (words ! (g div 64) AND push_bit 1 (push_bit (g mod 64) (- 1)))
          else (let word = partition_point (\<lambda>b. b \<le> rank) before - 1
                in Some (word * 64 + trailing_zeros (drop_lowest (rank - before ! word) (words ! word))))
      | None \<Rightarrow> (let word = partition_point (\<lambda>b. b \<le> rank) before - 1
                in Some (word * 64 + trailing_zeros (drop_lowest (rank - before ! word) (words ! word)))))"

text \<open>The new names of a run of ranks, with the cache of the last one.\<close>

fun new_names_run :: "name_sequence \<Rightarrow> u64 list \<Rightarrow> usize list \<Rightarrow> (usize \<times> usize) option \<Rightarrow> usize list \<Rightarrow> symbol_name list option" where
  "new_names_run seq words before at [] = Some []"
| "new_names_run seq words before at (rank # ranks) =
     (case nth_new words before rank at of None \<Rightarrow> None
      | Some g \<Rightarrow> (case sequence_name seq g of None \<Rightarrow> None
          | Some name \<Rightarrow> map_option ((#) name) (new_names_run seq words before (Some (rank + 1, g)) ranks)))"

fun rank_runs :: "usize \<Rightarrow> usize list \<Rightarrow> usize list list" where
  "rank_runs start [] = []"
| "rank_runs start (n # ns) = [start..<start + n] # rank_runs (start + n) ns"

text \<open>
  \<open>split_outputs\<close>: the outputs, laid end to end and cut at multiples of \<open>chunk\<close>; a piece is an output, an
  offset in it and a length.
\<close>

type_synonym output_slice = "usize \<times> usize \<times> usize"

function split_output :: "usize \<Rightarrow> usize \<Rightarrow> usize \<Rightarrow> usize \<Rightarrow> usize \<Rightarrow> output_slice list list \<Rightarrow> output_slice list list \<times> usize" where
  "split_output chunk j offset rest g pieces =
     (if rest = 0 \<or> chunk = 0 then (pieces, g)
      else let c = g div chunk; taken = min ((c + 1) * chunk - g) rest
           in split_output chunk j (offset + taken) (rest - taken) (g + taken) (pieces[c := pieces ! c @ [(j, offset, taken)]]))"
  by auto
termination
proof (relation "measure (\<lambda>(chunk, j, offset, rest, g, pieces). rest)")
  fix chunk j offset rest g :: nat and pieces :: "output_slice list list" and c taken
  assume "\<not> (rest = 0 \<or> chunk = 0)" "c = g div chunk" "taken = min ((c + 1) * chunk - g) rest"
  moreover from this have "g < (c + 1) * chunk" using div_less_iff_less_mult [of chunk g "c + 1"] by auto
  ultimately show "((chunk, j, offset + taken, rest - taken, g + taken, pieces[c := pieces ! c @ [(j, offset, taken)]]), chunk, j, offset, rest, g, pieces)
      \<in> measure (\<lambda>(chunk, j, offset, rest, g, pieces). rest)" by auto
qed simp

declare split_output.simps [simp del]

definition split_outputs :: "usize list \<Rightarrow> usize \<Rightarrow> usize \<Rightarrow> output_slice list list" where
  "split_outputs lens chunk chunks = fst (foldl (\<lambda>(pieces, g) (j, len). split_output chunk j 0 len g pieces)
     (replicate chunks [], 0) (List.enumerate 0 lens))"

definition slice_cells :: "output_slice list \<Rightarrow> (usize \<times> usize) list" where
  "slice_cells piece = concat (map (\<lambda>(j, offset, n). map (\<lambda>i. (j, offset + i)) [0..<n]) piece)"

definition write_cell :: "symbol_id list list \<Rightarrow> (usize \<times> usize) \<times> symbol_id \<Rightarrow> symbol_id list list" where
  "write_cell outputs = (\<lambda>((j, i), v). outputs[j := (outputs ! j)[i := v]])"

definition output_name :: "u64 list \<Rightarrow> (u32 \<Rightarrow> symbol_id) \<Rightarrow> symbol_id list \<times> usize list \<Rightarrow> usize \<times> symbol_name \<Rightarrow> symbol_id list \<times> usize list" where
  "output_name entries to_id = (\<lambda>(ids, cursor) (_, name). case read_result entries cursor name of (v, cursor1) \<Rightarrow> (ids @ [to_id v], cursor1))"

definition output_chunk :: "u64 list \<Rightarrow> usize list \<Rightarrow> usize list list \<Rightarrow> (u32 \<Rightarrow> symbol_id) \<Rightarrow> symbol_id list list \<Rightarrow>
    usize \<times> (usize \<times> symbol_name) list \<times> output_slice list \<Rightarrow> symbol_id list list" where
  "output_chunk entries region cursors to_id outputs = (\<lambda>(c, visited, piece).
     let ids = fst (foldl (output_name entries to_id) ([], first_cursors region cursors c) visited)
     in foldl write_cell outputs (zip (slice_cells piece) ids))"

definition retain_final :: "('t, symbol_slot) hash_table \<Rightarrow> usize list \<Rightarrow> usize \<times> 't shard \<Rightarrow> 't shard" where
  "retain_final ht region = (\<lambda>(s, shard). if region ! s \<noteq> region ! (s + 1)
     then shard\<lparr>sh_table := ht_retain ht (sh_table shard) (\<lambda>slot. slt_value slot AND PENDING = 0)\<rparr> else shard)"

definition number_slots :: "('t, symbol_slot) hash_table \<Rightarrow> usize list \<Rightarrow> (u32 \<Rightarrow> symbol_id) \<Rightarrow> usize \<times> 't shard \<Rightarrow> 't shard" where
  "number_slots ht region to_id = (\<lambda>(s, shard). if region ! s \<noteq> region ! (s + 1)
     then shard\<lparr>sh_table := ht_iter_mut ht (sh_table shard) (\<lambda>slot. slot\<lparr>slt_value := id_as_u32 (to_id (slt_value slot))\<rparr>)\<rparr> else shard)"

text \<open>
  The sequence interned, and the id of every name in the outputs, one per segment. \<open>splits n\<close> are the
  lengths of the runs into which rayon cuts \<open>n\<close> ranks. The assertion of debug builds that \<open>can_partition\<close>
  holds is left to the callers, as in a release build.
\<close>

definition number_sequence :: "('t, symbol_slot) hash_table \<Rightarrow> usize \<Rightarrow> (usize \<Rightarrow> usize list) \<Rightarrow> name_sequence \<Rightarrow> symbol_id list list \<Rightarrow>
    't symbol_table \<Rightarrow> ((unit, limit_error) result \<times> 't symbol_table \<times> symbol_id list list) option" where
  "number_sequence ht threads splits seq outputs st =
     (let len = sequence_len seq; chunk = chunk_size threads len; chunks = num_chunks chunk len
      in case collect_options (map (\<lambda>c. for_each seq (chunk_range chunk len c)) [0..<chunks]) of None \<Rightarrow> None
         | Some visited \<Rightarrow>
             let rows = map count_row visited; region = shard_regions rows;
                 (entries, cursors) = scatter_chunks (replicate len 0) visited (cursor_rows (take SHARD_COUNT region) rows);
                 (shards, results) = foldl (probe_shard ht seq (st_names st) region) (st_shards st, entries) [0..<SHARD_COUNT];
                 words = foldl (mark_chunk results region cursors chunk) (replicate (div_ceil len 64) 0) (List.enumerate 0 visited);
                 before = counts_before 0 words; new_count = sum_list (map count_ones words); base = length (st_names st)
             in if st_limit st - base < new_count
                then Some (Err (overflow (st_limit st)), st\<lparr>st_shards := map (retain_final ht region) (List.enumerate 0 shards)\<rparr>, outputs)
                else let to_id = id_of words before base; pieces = split_outputs (map length outputs) chunk chunks
                     in map_option (\<lambda>new. (Ok (), grow_state new_count (st\<lparr>st_shards := map (number_slots ht region to_id) (List.enumerate 0 shards),
                             st_names := st_names st @ concat new\<rparr>),
                           foldl (output_chunk results region cursors to_id) outputs (List.enumerate 0 (zip visited pieces))))
                          (collect_options (map (new_names_run seq words before None) (rank_runs 0 (splits new_count)))))"

section \<open>The names a lookup did not find\<close>

text \<open>The indices are kept in 32 bits.\<close>

definition missing_indices :: "intern_job \<Rightarrow> usize list" where
  "missing_indices job = map (\<lambda>(index, _). unat (of_nat index :: u32)) (filter (\<lambda>(_, i). id_as_u32 i AND PENDING \<noteq> 0) (List.enumerate 0 (ij_ids job)))"

fun fill_missing :: "intern_job list \<Rightarrow> (usize \<times> usize list) list \<Rightarrow> symbol_id list \<Rightarrow> intern_job list" where
  "fill_missing jobs [] ids = jobs"
| "fill_missing jobs ((j, indices) # missing) ids =
     fill_missing (jobs[j := (jobs ! j)\<lparr>ij_ids := foldl (\<lambda>out (i, v). out[i := v]) (ij_ids (jobs ! j)) (zip indices ids)\<rparr>])
       missing (drop (length indices) ids)"

definition intern_missing :: "('t, symbol_slot) hash_table \<Rightarrow> usize \<Rightarrow> (usize \<Rightarrow> usize list) \<Rightarrow> intern_job list \<Rightarrow> usize list \<Rightarrow> 't symbol_table \<Rightarrow>
    't batch_result option" where
  "intern_missing ht threads splits jobs order st =
     (let missing = map (\<lambda>j. (j, missing_indices (jobs ! j))) order;
          names = concat (map (\<lambda>(j, indices). map (\<lambda>i. ij_names (jobs ! j) ! i) indices) missing);
          base = length (st_names st)
      in if length names < MIN_PARALLEL_MISSES
         then case intern_each ht names st of
                (ids, True, st1) \<Rightarrow> Some (Ok (), grow_state (length (st_names st1) - base) st1, fill_missing jobs missing ids)
              | (ids, False, st1) \<Rightarrow> let st2 = forget_names_from ht base st1 in Some (Err (overflow (st_limit st2)), st2, jobs)
         else case number_sequence ht threads splits (sequence_new [names]) [map (\<lambda>_. id_from_u32 0) names] st of
                None \<Rightarrow> None
              | Some (Err e, st1, _) \<Rightarrow> Some (Err e, st1, jobs)
              | Some (Ok _, st1, outputs) \<Rightarrow> Some (Ok (), st1, fill_missing jobs missing (concat outputs)))"

definition positions_distinct :: "intern_job list \<Rightarrow> usize list \<Rightarrow> bool" where
  "positions_distinct jobs order = windows2_all (\<lambda>a b. ij_position (jobs ! a) \<noteq> ij_position (jobs ! b)) order"

text \<open>The jobs by position: the sort is unstable, and its result is used only when no two positions are equal.\<close>

definition job_order :: "intern_job list \<Rightarrow> usize list" where
  "job_order jobs = sort_by (\<lambda>a b. cmp (ij_position (jobs ! a)) (ij_position (jobs ! b))) [0..<length jobs]"

definition try_intern_missing :: "('t, symbol_slot) hash_table \<Rightarrow> usize \<Rightarrow> (usize \<Rightarrow> usize list) \<Rightarrow> intern_job list \<Rightarrow> 't symbol_table \<Rightarrow>
    't batch_result option" where
  "try_intern_missing ht threads splits jobs st =
     (let order = job_order jobs in if positions_distinct jobs order then intern_missing ht threads splits jobs order st else None)"

section \<open>A batch\<close>

definition can_partition :: "usize \<Rightarrow> bool" where
  "can_partition len \<longleftrightarrow> len < unat PENDING"

definition intern_partitioned :: "('t, symbol_slot) hash_table \<Rightarrow> usize \<Rightarrow> (usize \<Rightarrow> usize list) \<Rightarrow> intern_job list \<Rightarrow> usize list \<Rightarrow> 't symbol_table \<Rightarrow>
    't batch_result option" where
  "intern_partitioned ht threads splits jobs order st =
     (if st_names st = [] then
        map_option (\<lambda>(r, st1, outputs). (r, st1, foldl (\<lambda>jobs (j, ids). jobs[j := (jobs ! j)\<lparr>ij_ids := ids\<rparr>]) jobs (zip order outputs)))
          (number_sequence ht threads splits (sequence_new (map (\<lambda>j. ij_names (jobs ! j)) order)) (map (\<lambda>j. ij_ids (jobs ! j)) order) st)
      else case look_up_known ht st jobs of (jobs1, missing) \<Rightarrow>
        if missing = 0 then Some (Ok (), st, jobs1) else intern_missing ht threads splits jobs1 order st)"

definition try_intern_batch :: "('t, symbol_slot) hash_table \<Rightarrow> usize \<Rightarrow> (usize \<Rightarrow> usize list) \<Rightarrow> (usize \<times> usize) list \<Rightarrow> intern_job list \<Rightarrow>
    't symbol_table \<Rightarrow> 't batch_result option" where
  "try_intern_batch ht threads splits schedule jobs st =
     (if \<not> list_all (\<lambda>job. length (ij_names job) = length (ij_ids job)) jobs then None
      else let len = foldl (\<lambda>n job. saturating_add_usize n (length (ij_names job))) 0 jobs;
               min_parallel = if st_names st = [] then MIN_PARALLEL_LOOKUP else MIN_PARALLEL_LOOKUP_KNOWN;
               order = job_order jobs
           in if positions_distinct jobs order \<and> (len < min_parallel \<or> threads = 1) then Some (intern_in_order ht jobs order st)
              else if positions_distinct jobs order \<and> can_partition len then intern_partitioned ht threads splits jobs order st
              else intern_passes ht (if min_parallel \<le> len then schedule else job_occurrences jobs) jobs st)"

text \<open>\<open>intern_batch\<close> panics on the error.\<close>

definition intern_batch :: "('t, symbol_slot) hash_table \<Rightarrow> usize \<Rightarrow> (usize \<Rightarrow> usize list) \<Rightarrow> (usize \<times> usize) list \<Rightarrow> intern_job list \<Rightarrow>
    't symbol_table \<Rightarrow> ('t symbol_table \<times> intern_job list) option" where
  "intern_batch ht threads splits schedule jobs st =
     (case try_intern_batch ht threads splits schedule jobs st of Some (Ok _, st1, jobs1) \<Rightarrow> Some (st1, jobs1) | _ \<Rightarrow> None)"

end
