(* ===== verification/SymbolTableRep.thy ===== *)
theory SymbolTableRep
  imports SymbolTable
begin

text \<open>
  The shards of the symbol table represent one map from names to slot values, final ids or provisional
  handles: what each operation of the hash tables does to that map, and the interning of names in order,
  which refines the list of distinct names.
\<close>

section \<open>A shard represents a part of a map\<close>

definition slot_of :: "symbol_name \<Rightarrow> u32 \<Rightarrow> symbol_slot" where
  "slot_of n v = \<lparr>slt_h32 = low32 (sn_hash n), slt_value = v\<rparr>"

definition slot_hash :: "symbol_slot \<Rightarrow> u64" where
  "slot_hash slot = table_hash (slt_h32 slot)"

abbreviation name_shard :: "symbol_name \<Rightarrow> usize" where
  "name_shard n \<equiv> symbol_shard_of (sn_hash n)"

abbreviation name_hash :: "symbol_name \<Rightarrow> u64" where
  "name_hash n \<equiv> table_hash (low32 (sn_hash n))"

definition shard_slots :: "(symbol_name \<rightharpoonup> u32) \<Rightarrow> usize \<Rightarrow> symbol_slot set" where
  "shard_slots m s = {slot. \<exists>n v. slot = slot_of n v \<and> m n = Some v \<and> name_shard n = s}"

text \<open>No two names of a shard have one value.\<close>

definition shard_inj :: "(symbol_name \<rightharpoonup> u32) \<Rightarrow> usize \<Rightarrow> bool" where
  "shard_inj m s \<longleftrightarrow> (\<forall>a b v. m a = Some v \<and> m b = Some v \<and> name_shard a = s \<and> name_shard b = s \<longrightarrow> a = b)"

definition shard_rep :: "('t \<Rightarrow> symbol_slot multiset) \<Rightarrow> 't \<Rightarrow> (symbol_name \<rightharpoonup> u32) \<Rightarrow> usize \<Rightarrow> bool" where
  "shard_rep elems t m s \<longleftrightarrow> finite (dom m) \<and> elems t = mset_set (shard_slots m s)"

lemma slot_of_simps [simp]:
  "slt_h32 (slot_of n v) = low32 (sn_hash n)" "slt_value (slot_of n v) = v" "slot_hash (slot_of n v) = name_hash n"
  "(slot_of n v)\<lparr>slt_value := w\<rparr> = slot_of n w"
  by (simp_all add: slot_of_def slot_hash_def)

lemma slot_of_raw: "\<lparr>slt_h32 = low32 (sn_hash n), slt_value = v\<rparr> = slot_of n v"
  by (simp add: slot_of_def)

lemma shard_slotsI: "m n = Some v \<Longrightarrow> name_shard n = s \<Longrightarrow> slot_of n v \<in> shard_slots m s"
  unfolding shard_slots_def by blast

lemma shard_slotsE:
  assumes "slot \<in> shard_slots m s"
  obtains n v where "slot = slot_of n v" "m n = Some v" "name_shard n = s"
  using assms unfolding shard_slots_def by blast

lemma finite_shard_slots:
  assumes "finite (dom m)"
  shows "finite (shard_slots m s)"
proof (rule finite_subset)
  show "shard_slots m s \<subseteq> (\<lambda>n. slot_of n (the (m n))) ` dom m"
  proof
    fix slot assume "slot \<in> shard_slots m s"
    then obtain n v where "slot = slot_of n v" "m n = Some v" by (rule shard_slotsE)
    then show "slot \<in> (\<lambda>n. slot_of n (the (m n))) ` dom m" by (intro image_eqI [of _ _ n]) auto
  qed
qed (use assms in simp)

lemma shard_rep_elems: "shard_rep elems t m s \<Longrightarrow> slot \<in># elems t \<longleftrightarrow> slot \<in> shard_slots m s"
  by (simp add: shard_rep_def finite_shard_slots)

lemma shard_slots_mono: "(\<And>n v. name_shard n = s \<Longrightarrow> m n = Some v \<Longrightarrow> m' n = Some v) \<Longrightarrow> shard_slots m s \<subseteq> shard_slots m' s"
  by (auto elim!: shard_slotsE intro: shard_slotsI)

lemma shard_slots_cong: "(\<And>n. name_shard n = s \<Longrightarrow> m n = m' n) \<Longrightarrow> shard_slots m s = shard_slots m' s"
  using shard_slots_mono [of s m m'] shard_slots_mono [of s m' m] by auto

lemma shard_slots_other: "name_shard n \<noteq> s \<Longrightarrow> shard_slots (m(n := x)) s = shard_slots m s"
  by (rule shard_slots_cong) auto

lemma shard_rep_cong: "shard_rep elems t m s \<Longrightarrow> (\<And>n. name_shard n = s \<Longrightarrow> m n = m' n) \<Longrightarrow> finite (dom m') \<Longrightarrow> shard_rep elems t m' s"
  using shard_slots_cong [of s m m'] by (simp add: shard_rep_def)

lemma shard_find_name:
  assumes laws: "hash_table_laws ht slot_hash elems" and rep: "shard_rep elems t m s" and s: "name_shard name = s"
    and test: "\<And>n v. m n = Some v \<Longrightarrow> name_shard n = s \<Longrightarrow> P v \<longleftrightarrow> n = name"
  shows "ht_find ht t (name_hash name) (\<lambda>slot. slt_h32 slot = low32 (sn_hash name) \<and> P (slt_value slot)) = map_option (slot_of name) (m name)"
proof (cases "m name")
  case None
  have "\<not> P (slt_value d)" if "d \<in># elems t" for d
    using that test None unfolding shard_rep_elems [OF rep] by (auto elim!: shard_slotsE)
  then show ?thesis using ht_find_none [OF laws] None by simp
next
  case (Some v)
  have "ht_find ht t (name_hash name) (\<lambda>slot. slt_h32 slot = low32 (sn_hash name) \<and> P (slt_value slot)) = Some (slot_of name v)"
  proof (rule ht_find_unique [OF laws])
    show "slot_of name v \<in># elems t" using Some s by (simp add: shard_rep_elems [OF rep] shard_slotsI)
    show "d = slot_of name v" if "d \<in># elems t" "slt_h32 d = low32 (sn_hash name) \<and> P (slt_value d)" for d
      using that test Some unfolding shard_rep_elems [OF rep] by (auto elim!: shard_slotsE)
  qed (use test Some s in simp_all)
  with Some show ?thesis by simp
qed

lemma shard_find_value:
  assumes laws: "hash_table_laws ht slot_hash elems" and rep: "shard_rep elems t m s" and inj: "shard_inj m s"
    and n: "m name = Some v" "name_shard name = s"
  shows "ht_find ht t (name_hash name) (\<lambda>slot. slt_value slot = v) = Some (slot_of name v)"
proof (rule ht_find_unique [OF laws])
  show "slot_of name v \<in># elems t" using n by (simp add: shard_rep_elems [OF rep] shard_slotsI)
  show "d = slot_of name v" if "d \<in># elems t" "slt_value d = v" for d
  proof -
    from that(1) obtain a w where a: "d = slot_of a w" "m a = Some w" "name_shard a = s"
      unfolding shard_rep_elems [OF rep] by (rule shard_slotsE)
    with that(2) n inj have "a = name" unfolding shard_inj_def by auto
    with a that(2) show ?thesis by simp
  qed
qed simp_all

lemma shard_slots_upd:
  assumes "m name = None" "name_shard name = s"
  shows "shard_slots (m(name \<mapsto> v)) s = insert (slot_of name v) (shard_slots m s)"
proof
  have "shard_slots m s \<subseteq> shard_slots (m(name \<mapsto> v)) s" by (rule shard_slots_mono) (use assms in auto)
  then show "insert (slot_of name v) (shard_slots m s) \<subseteq> shard_slots (m(name \<mapsto> v)) s"
    using assms shard_slotsI [of "m(name \<mapsto> v)" name v s] by simp
  show "shard_slots (m(name \<mapsto> v)) s \<subseteq> insert (slot_of name v) (shard_slots m s)"
    by (auto elim!: shard_slotsE split: if_splits intro: shard_slotsI)
qed

lemma shard_slots_remove:
  assumes "shard_inj m s" "m name = Some v" "name_shard name = s"
  shows "shard_slots (m(name := None)) s = shard_slots m s - {slot_of name v}"
proof -
  let ?m = "m(name := None)"
  have "slot_of name v \<notin> shard_slots ?m s"
  proof
    assume "slot_of name v \<in> shard_slots ?m s"
    then obtain n w where n: "slot_of name v = slot_of n w" "?m n = Some w" "name_shard n = s" by (rule shard_slotsE)
    then have "w = v" by (simp add: slot_of_def)
    with n assms show False unfolding shard_inj_def by (auto split: if_splits)
  qed
  moreover have "shard_slots m s = insert (slot_of name v) (shard_slots ?m s)"
    using shard_slots_upd [of ?m name s v] assms by (simp add: fun_upd_idem)
  ultimately show ?thesis by simp
qed

lemma fresh_value:
  assumes fresh: "\<And>n. m n = Some v \<Longrightarrow> name_shard n = s \<Longrightarrow> False"
  shows "slot_of name v \<notin> shard_slots m s"
proof
  assume "slot_of name v \<in> shard_slots m s"
  then obtain n w where "slot_of name v = slot_of n w" "m n = Some w" "name_shard n = s" by (rule shard_slotsE)
  then show False using fresh by (simp add: slot_of_def)
qed

lemma shard_rep_insert:
  assumes laws: "hash_table_laws ht slot_hash elems" and rep: "shard_rep elems t m s" and n: "m name = None" "name_shard name = s"
    and fresh: "\<And>n. m n = Some v \<Longrightarrow> name_shard n = s \<Longrightarrow> False"
  shows "shard_rep elems (ht_insert ht t (name_hash name) (slot_of name v)) (m(name \<mapsto> v)) s"
proof -
  have "slot_of name v \<notin> shard_slots m s" using fresh by (rule fresh_value)
  with rep show ?thesis
    by (simp add: shard_rep_def hash_tableD(4) [OF laws] shard_slots_upd [of m, OF n] finite_shard_slots)
qed

lemma shard_rep_remove:
  assumes laws: "hash_table_laws ht slot_hash elems" and rep: "shard_rep elems t m s" and inj: "shard_inj m s"
    and n: "m name = Some v" "name_shard name = s"
  shows "shard_rep elems (ht_remove ht t (name_hash name) (\<lambda>slot. slt_value slot = v)) (m(name := None)) s"
  using rep hash_tableD(6) [OF laws shard_find_value [OF assms]] shard_slotsI [of m, OF n]
  by (simp add: shard_rep_def shard_slots_remove [OF inj n] mset_set_Diff finite_shard_slots)

lemma shard_rep_update:
  assumes laws: "hash_table_laws ht slot_hash elems" and rep: "shard_rep elems t m s" and inj: "shard_inj m s"
    and n: "m name = Some v" "name_shard name = s"
    and fresh: "\<And>n. m n = Some w \<Longrightarrow> name_shard n = s \<Longrightarrow> False"
  shows "shard_rep elems (ht_update ht t (name_hash name) (\<lambda>slot. slt_value slot = v) (\<lambda>slot. slot\<lparr>slt_value := w\<rparr>)) (m(name \<mapsto> w)) s"
proof -
  let ?m = "m(name := None)"
  have "m(name \<mapsto> w) = ?m(name \<mapsto> w)" by simp
  then have slots: "shard_slots (m(name \<mapsto> w)) s = insert (slot_of name w) (shard_slots m s - {slot_of name v})"
    using shard_slots_upd [of ?m name s w] n by (simp add: shard_slots_remove [OF inj n])
  have "slot_of name w \<notin> shard_slots m s" using fresh by (rule fresh_value)
  with rep show ?thesis
    by (simp add: shard_rep_def slots hash_tableD(5) [OF laws shard_find_value [OF laws rep inj n]] finite_shard_slots
        shard_slotsI [of m, OF n] mset_set_Diff)
qed

lemma shard_rep_retain:
  assumes laws: "hash_table_laws ht slot_hash elems" and rep: "shard_rep elems t m s"
    and m': "\<And>n. m' n = (case m n of None \<Rightarrow> None | Some v \<Rightarrow> if P v then Some v else None)"
  shows "shard_rep elems (ht_retain ht t (\<lambda>slot. P (slt_value slot))) m' s"
proof -
  have "dom m' \<subseteq> dom m" by (auto simp: m' split: option.splits)
  moreover have "{slot \<in> shard_slots m s. P (slt_value slot)} = shard_slots m' s"
    by (auto elim!: shard_slotsE simp: m' split: option.splits if_splits intro: shard_slotsI)
  ultimately show ?thesis using rep finite_subset [of "dom m'" "dom m"]
    by (simp add: shard_rep_def hash_tableD(9) [OF laws] finite_shard_slots)
qed

lemma shard_rep_iter_mut:
  assumes laws: "hash_table_laws ht slot_hash elems" and rep: "shard_rep elems t m s" and inj: "shard_inj (\<lambda>n. map_option f (m n)) s"
  shows "shard_rep elems (ht_iter_mut ht t (\<lambda>slot. slot\<lparr>slt_value := f (slt_value slot)\<rparr>)) (\<lambda>n. map_option f (m n)) s"
proof -
  let ?g = "\<lambda>slot. slot\<lparr>slt_value := f (slt_value slot)\<rparr>"
  have fin: "finite (shard_slots m s)" using rep by (simp add: shard_rep_def finite_shard_slots)
  have "?g ` shard_slots m s = shard_slots (\<lambda>n. map_option f (m n)) s"
  proof (intro set_eqI iffI)
    fix slot assume "slot \<in> shard_slots (\<lambda>n. map_option f (m n)) s"
    then obtain n v where "slot = slot_of n (f v)" "m n = Some v" "name_shard n = s" by (auto elim!: shard_slotsE)
    then have "slot = ?g (slot_of n v)" "slot_of n v \<in> shard_slots m s" by (auto intro: shard_slotsI)
    then show "slot \<in> ?g ` shard_slots m s" by (rule image_eqI)
  qed (auto elim!: shard_slotsE intro!: shard_slotsI)
  moreover have "inj_on ?g (shard_slots m s)"
  proof (rule inj_onI)
    fix d e assume "d \<in> shard_slots m s" "e \<in> shard_slots m s" "?g d = ?g e"
    from this(1) obtain a v where d: "d = slot_of a v" "m a = Some v" "name_shard a = s" by (rule shard_slotsE)
    from \<open>e \<in> shard_slots m s\<close> obtain b w where e: "e = slot_of b w" "m b = Some w" "name_shard b = s" by (rule shard_slotsE)
    have "f v = f w" using \<open>?g d = ?g e\<close> d(1) e(1) by (simp add: slot_of_def)
    then have "a = b" using inj d e unfolding shard_inj_def by (metis option.simps(9))
    with d e show "d = e" by simp
  qed
  moreover have "dom (\<lambda>n. map_option f (m n)) = dom m" by (auto simp: dom_def)
  moreover have "elems (ht_iter_mut ht t ?g) = image_mset ?g (elems t)"
    by (rule hash_tableD(10) [OF laws]) (simp add: slot_hash_def)
  ultimately show ?thesis using rep fin by (simp add: shard_rep_def image_mset_mset_set)
qed

section \<open>The shards of a table\<close>

definition tables_rep :: "('t \<Rightarrow> symbol_slot multiset) \<Rightarrow> 't shard list \<Rightarrow> (symbol_name \<rightharpoonup> u32) \<Rightarrow> bool" where
  "tables_rep elems shards m \<longleftrightarrow> length shards = SHARD_COUNT \<and> (\<forall>s<SHARD_COUNT. shard_rep elems (sh_table (shards ! s)) m s)"

lemma name_shard_less [simp]: "symbol_shard_of h < SHARD_COUNT"
proof -
  have "unat h < 2 ^ LENGTH(64)" by (rule unsigned_less)
  moreover have "unat (drop_bit 53 h) = unat h div 2 ^ 53" by (metis drop_bit_eq_div unat_drop_bit_eq)
  ultimately have "unat (drop_bit 53 h) < 2 ^ 11" by (simp add: div_less_iff_less_mult)
  then show ?thesis by (simp add: symbol_shard_of_def SHARD_BITS_def SHARD_COUNT_def)
qed

lemma tables_rep_shard: "tables_rep elems shards m \<Longrightarrow> shard_rep elems (sh_table (shards ! name_shard n)) m (name_shard n)"
  by (simp add: tables_rep_def)

lemma tables_rep_finite: "tables_rep elems shards m \<Longrightarrow> finite (dom m)"
  using tables_rep_shard [of elems shards m undefined] by (simp add: shard_rep_def)

lemma tables_rep_upd:
  assumes rep: "tables_rep elems shards m" and shard: "shard_rep elems (sh_table shard) (m(name := x)) (name_shard name)"
  shows "tables_rep elems (shards[name_shard name := shard]) (m(name := x))"
proof -
  have fin: "finite (dom (m(name := x)))" using shard by (simp add: shard_rep_def)
  have "shard_rep elems (sh_table (shards[name_shard name := shard] ! s)) (m(name := x)) s" if s: "s < SHARD_COUNT" for s
  proof (cases "s = name_shard name")
    case True
    then show ?thesis using rep shard by (simp add: tables_rep_def)
  next
    case False
    have "shard_rep elems (sh_table (shards ! s)) m s" using rep s by (simp add: tables_rep_def)
    then have "shard_rep elems (sh_table (shards ! s)) (m(name := x)) s" by (rule shard_rep_cong) (use False fin in auto)
    then show ?thesis using False by simp
  qed
  then show ?thesis using rep by (simp add: tables_rep_def)
qed

text \<open>Replacing a shard by one with the same table, when only its pending list or its ids change.\<close>

lemma tables_rep_same:
  assumes "tables_rep elems shards m" "sh_table shard = sh_table (shards ! s)"
  shows "tables_rep elems (shards[s := shard]) m"
proof -
  have "sh_table (shards[s := shard] ! i) = sh_table (shards ! i)" for i
    using assms(2) by (cases "i = s"; cases "s < length shards") (simp_all add: list_update_beyond)
  with assms(1) show ?thesis by (simp add: tables_rep_def)
qed

section \<open>Ids of names\<close>

definition name_ids :: "symbol_name list \<Rightarrow> symbol_name \<rightharpoonup> u32" where
  "name_ids names n = map_option of_nat (position (\<lambda>x. x = n) names)"

lemma unat_PENDING: "unat PENDING = 2 ^ 31"
  by (simp add: PENDING_def push_bit_eq_mult)

lemma MAX_SYMBOLS_eq: "MAX_SYMBOLS = 2 ^ 31"
  by (simp add: MAX_SYMBOLS_def unat_PENDING)

lemma unat_of_id: "i < MAX_SYMBOLS \<Longrightarrow> unat (of_nat i :: u32) = i"
  by (simp add: MAX_SYMBOLS_eq unat_of_nat)

lemma bit_PENDING: "bit PENDING k \<longleftrightarrow> k = 31"
  unfolding PENDING_def push_bit_of_1 bit_exp_iff by auto

lemma final_value: "v AND PENDING = 0 \<longleftrightarrow> \<not> bit v 31" for v :: u32
proof
  assume "v AND PENDING = 0"
  then have "\<not> bit (v AND PENDING) 31" by simp
  then show "\<not> bit v 31" by (simp add: bit_simps bit_PENDING)
next
  assume "\<not> bit v 31"
  then show "v AND PENDING = 0" by (intro bit_word_eqI) (auto simp: bit_simps bit_PENDING)
qed

lemma bit_31_iff: "bit v 31 \<longleftrightarrow> 2 ^ 31 \<le> unat v" for v :: u32
proof -
  have "bit v 31 = bit (unat v) 31" by (simp add: bit_unsigned_iff)
  moreover have "unat v < 2 ^ 32" using unsigned_less [of v] by simp
  then have "unat v div 2 ^ 31 < 2" by (simp add: div_less_iff_less_mult)
  ultimately show ?thesis by (auto simp: bit_nat_iff bit_iff_odd elim!: oddE)
qed

lemma final_iff: "v AND PENDING = 0 \<longleftrightarrow> unat v < MAX_SYMBOLS"
  by (simp add: final_value bit_31_iff MAX_SYMBOLS_eq not_le)

lemma final_id: "i < MAX_SYMBOLS \<Longrightarrow> of_nat i AND PENDING = 0"
  by (simp add: final_iff unat_of_id)

lemma name_ids_iff:
  assumes "distinct names" "length names \<le> MAX_SYMBOLS"
  shows "name_ids names n = Some v \<longleftrightarrow> unat v < length names \<and> names ! unat v = n"
proof -
  have "position (\<lambda>x. x = n) names = Some i \<longleftrightarrow> i < length names \<and> names ! i = n" for i
    using assms(1) by (auto simp: position_Some nth_eq_iff_index_eq)
  then have "name_ids names n = Some v \<longleftrightarrow> (\<exists>i<length names. names ! i = n \<and> of_nat i = v)"
    by (auto simp: name_ids_def)
  also have "\<dots> \<longleftrightarrow> unat v < length names \<and> names ! unat v = n"
    using assms(2) by (auto simp: unat_of_id intro!: exI [of _ "unat v"])
  finally show ?thesis .
qed

lemma name_ids_None: "name_ids names n = None \<longleftrightarrow> n \<notin> set names"
  by (auto simp: name_ids_def position_None)

lemma dom_name_ids: "dom (name_ids names) = set names"
  using name_ids_None [of names] by (auto simp: dom_def)

lemma name_ids_inj: "distinct names \<Longrightarrow> length names \<le> MAX_SYMBOLS \<Longrightarrow> shard_inj (name_ids names) s"
  by (auto simp: shard_inj_def name_ids_iff)

lemma position_single: "position (\<lambda>y. y = a) [b] = (if a = b then Some 0 else None)"
  by (auto simp: position_def)

lemma name_ids_snoc: "n \<notin> set names \<Longrightarrow> name_ids (names @ [n]) = (name_ids names)(n \<mapsto> of_nat (length names))"
proof (rule ext)
  fix x assume n: "n \<notin> set names"
  show "name_ids (names @ [n]) x = ((name_ids names)(n \<mapsto> of_nat (length names))) x"
    using n position_None [of "\<lambda>y. y = x" names] by (auto simp: name_ids_def position_append position_single split: option.splits)
qed

lemma name_ids_append: "n \<in> set names \<Longrightarrow> name_ids (names @ rest) n = name_ids names n"
  by (auto simp: name_ids_def position_append position_None split: option.splits)

lemma is_named_iff:
  "distinct names \<Longrightarrow> length names \<le> MAX_SYMBOLS \<Longrightarrow> name_ids names n = Some v \<Longrightarrow> is_named names v name \<longleftrightarrow> n = name"
  by (auto simp: name_ids_iff is_named_def get_nth_def)

section \<open>The invariant of the table\<close>

definition names_inv :: "('t \<Rightarrow> symbol_slot multiset) \<Rightarrow> 't symbol_table \<Rightarrow> bool" where
  "names_inv elems st \<longleftrightarrow> tables_rep elems (st_shards st) (name_ids (st_names st)) \<and> distinct (st_names st) \<and>
     length (st_names st) \<le> st_limit st \<and> st_limit st \<le> MAX_SYMBOLS \<and>
     (\<forall>shard\<in>set (st_shards st). sh_pending shard = [] \<and> sh_assigned shard = [])"

definition table_inv :: "('t \<Rightarrow> symbol_slot multiset) \<Rightarrow> 't symbol_table \<Rightarrow> bool" where
  "table_inv elems st \<longleftrightarrow> names_inv elems st \<and> length (st_flags st) = length (st_names st) \<and> length (st_defs st) = length (st_names st)"

lemma names_invD:
  assumes "names_inv elems st"
  shows "tables_rep elems (st_shards st) (name_ids (st_names st))" "distinct (st_names st)" "length (st_names st) \<le> st_limit st"
    "st_limit st \<le> MAX_SYMBOLS" "length (st_names st) \<le> MAX_SYMBOLS" "length (st_shards st) = SHARD_COUNT"
    "s < SHARD_COUNT \<Longrightarrow> sh_pending (st_shards st ! s) = []" "s < SHARD_COUNT \<Longrightarrow> sh_assigned (st_shards st ! s) = []"
  using assms by (auto simp: names_inv_def tables_rep_def)

lemma table_inv_new: "hash_table_laws ht slot_hash elems \<Longrightarrow> table_inv elems (table_new ht)"
proof -
  assume laws: "hash_table_laws ht slot_hash elems"
  have "name_ids [] = Map.empty" by (rule ext) (simp add: name_ids_None)
  moreover have "shard_slots Map.empty s = {}" for s by (auto elim: shard_slotsE)
  ultimately show ?thesis
    by (auto simp: table_inv_def names_inv_def tables_rep_def shard_rep_def table_new_def table_with_capacity_def shard_new_def
        hash_tableD(1) [OF laws])
qed

lemma lookup_name_ids:
  assumes laws: "hash_table_laws ht slot_hash elems" and inv: "names_inv elems st"
  shows "table_lookup ht st name = name_ids (st_names st) name"
proof -
  note inv = names_invD [OF inv]
  have "ht_find ht (sh_table (st_shards st ! name_shard name)) (name_hash name) (\<lambda>slot. slt_h32 slot = low32 (sn_hash name) \<and>
      slt_value slot AND PENDING = 0 \<and> is_named (st_names st) (slt_value slot) name) = map_option (slot_of name) (name_ids (st_names st) name)"
    by (rule shard_find_name [OF laws tables_rep_shard [OF inv(1)] refl])
      (use inv in \<open>auto simp: is_named_iff [OF inv(2,5)] name_ids_iff final_iff\<close>)
  then show ?thesis by (simp add: table_lookup_def Let_def id_from_u32_def option.map_comp comp_def option.map_ident)
qed

section \<open>Interning in order\<close>

text \<open>The reference: a loop that appends each name it has not seen.\<close>

fun add_names :: "'a list \<Rightarrow> 'a list \<Rightarrow> 'a list" where
  "add_names names [] = names"
| "add_names names (n # ns) = add_names (if n \<in> set names then names else names @ [n]) ns"

lemma add_names_append: "add_names names (xs @ ys) = add_names (add_names names xs) ys"
  by (induction xs arbitrary: names) auto

lemma add_names_prefix: "\<exists>new. add_names names ns = names @ new"
proof (induction ns arbitrary: names)
  case (Cons n ns)
  then show ?case using Cons.IH [of names] Cons.IH [of "names @ [n]"] by auto
qed simp

lemma set_add_names: "set (add_names names ns) = set names \<union> set ns"
  by (induction ns arbitrary: names) auto

lemma distinct_add_names: "distinct names \<Longrightarrow> distinct (add_names names ns)"
  by (induction ns arbitrary: names) auto

lemma length_add_names: "length names \<le> length (add_names names ns)"
  using add_names_prefix [of names ns] by auto

lemma add_names_known: "set ns \<subseteq> set names \<Longrightarrow> add_names names ns = names"
  by (induction ns) auto

text \<open>The ids the reference gives.\<close>

definition id_in :: "symbol_name list \<Rightarrow> symbol_name \<Rightarrow> symbol_id" where
  "id_in names n = the (name_ids names n)"

lemma id_in_append: "n \<in> set names \<Longrightarrow> id_in (names @ rest) n = id_in names n"
  by (simp add: id_in_def name_ids_append)

lemma id_in_add_names: "n \<in> set names \<Longrightarrow> id_in (add_names names ns) n = id_in names n"
  using add_names_prefix [of names ns] by (auto simp: id_in_append)

text \<open>A table that only got names.\<close>

definition grown :: "'t symbol_table \<Rightarrow> symbol_name list \<Rightarrow> 't symbol_table \<Rightarrow> bool" where
  "grown st new st' \<longleftrightarrow> st' = st\<lparr>st_shards := st_shards st', st_names := st_names st @ new\<rparr>"

lemma grownD:
  assumes "grown st new st'"
  shows "st_names st' = st_names st @ new" "st_flags st' = st_flags st" "st_defs st' = st_defs st" "st_limit st' = st_limit st"
  by (subst assms [unfolded grown_def], simp)+

lemma grown_refl: "grown st [] st"
  by (simp add: grown_def)

lemma grownI:
  "st_names st' = st_names st @ new \<Longrightarrow> st_flags st' = st_flags st \<Longrightarrow> st_defs st' = st_defs st \<Longrightarrow> st_limit st' = st_limit st \<Longrightarrow> grown st new st'"
  by (simp add: grown_def)

lemma grown_trans: "grown st new st1 \<Longrightarrow> grown st1 new' st2 \<Longrightarrow> grown st (new @ new') st2"
  by (intro grownI) (simp_all add: grownD)

lemma intern_name_find:
  assumes laws: "hash_table_laws ht slot_hash elems" and inv: "names_inv elems st"
  shows "ht_find ht (sh_table (st_shards st ! name_shard name)) (name_hash name) (\<lambda>slot. slt_h32 slot = low32 (sn_hash name) \<and>
      is_named (st_names st) (slt_value slot) name) = map_option (slot_of name) (name_ids (st_names st) name)"
  using names_invD [OF inv]
  by (intro shard_find_name [OF laws tables_rep_shard [OF names_invD(1) [OF inv]] refl]) (simp add: is_named_iff)

lemma intern_name_known:
  assumes "hash_table_laws ht slot_hash elems" "names_inv elems st" "name \<in> set (st_names st)"
  shows "intern_name ht name st = Some (id_in (st_names st) name, st)"
  using assms(3) name_ids_None [of "st_names st" name] intern_name_find [OF assms(1,2)]
  by (cases "name_ids (st_names st) name") (auto simp: intern_name_def Let_def id_from_u32_def id_in_def)

lemma intern_name_full:
  assumes "hash_table_laws ht slot_hash elems" "names_inv elems st" "name \<notin> set (st_names st)" "st_limit st \<le> length (st_names st)"
  shows "intern_name ht name st = None"
  using assms(3,4) name_ids_None [of "st_names st" name] intern_name_find [OF assms(1,2)]
  by (simp add: intern_name_def Let_def)

lemma intern_name_new:
  assumes laws: "hash_table_laws ht slot_hash elems" and inv: "names_inv elems st"
    and name: "name \<notin> set (st_names st)" and len: "length (st_names st) < st_limit st"
  obtains st' where "intern_name ht name st = Some (of_nat (length (st_names st)), st')" "grown st [name] st'" "names_inv elems st'"
proof -
  note invs = names_invD [OF inv]
  let ?s = "name_shard name" and ?v = "of_nat (length (st_names st))"
  let ?shard = "(st_shards st ! ?s)\<lparr>sh_table := ht_insert ht (sh_table (st_shards st ! ?s)) (name_hash name) (slot_of name ?v)\<rparr>"
  let ?st = "st\<lparr>st_shards := (st_shards st)[?s := ?shard], st_names := st_names st @ [name]\<rparr>"
  have no: "name_ids (st_names st) name = None" using name by (simp add: name_ids_None)
  have "shard_rep elems (sh_table ?shard) ((name_ids (st_names st))(name \<mapsto> ?v)) ?s"
    using invs len
    by (simp, intro shard_rep_insert [OF laws tables_rep_shard [OF invs(1)] no refl]) (simp add: name_ids_iff unat_of_id)
  then have "tables_rep elems ((st_shards st)[?s := ?shard]) (name_ids (st_names st @ [name]))"
    unfolding name_ids_snoc [OF name] by (rule tables_rep_upd [OF invs(1)])
  moreover have "\<forall>shard\<in>set ((st_shards st)[?s := ?shard]). sh_pending shard = [] \<and> sh_assigned shard = []"
    using invs set_update_subset_insert [of "st_shards st" ?s ?shard] inv by (auto simp: names_inv_def)
  ultimately have "names_inv elems ?st" using invs name len by (simp add: names_inv_def)
  moreover have "intern_name ht name st = Some (?v, ?st)"
    using len no intern_name_find [OF laws inv, of name] by (simp add: intern_name_def Let_def id_from_u32_def slot_of_raw)
  ultimately show ?thesis by (intro that [of ?st] grownI) simp_all
qed

lemma intern_each_complete:
  assumes laws: "hash_table_laws ht slot_hash elems" and "names_inv elems st" "length (add_names (st_names st) ns) \<le> st_limit st"
  shows "\<exists>st' new. intern_each ht ns st = (map (id_in (st_names st')) ns, True, st') \<and>
    grown st new st' \<and> names_inv elems st' \<and> st_names st' = add_names (st_names st) ns"
  using assms(2,3)
proof (induction ns arbitrary: st)
  case Nil
  then show ?case using grown_refl [of st] by auto
next
  case (Cons n ns)
  show ?case
  proof (cases "n \<in> set (st_names st)")
    case True
    with Cons.prems Cons.IH [of st] obtain st' new where st': "intern_each ht ns st = (map (id_in (st_names st')) ns, True, st')"
        "grown st new st'" "names_inv elems st'" "st_names st' = add_names (st_names st) ns"
      by auto
    then show ?thesis using True
      by (auto simp: intern_name_known [OF laws Cons.prems(1)] id_in_add_names)
  next
    case False
    have "length (st_names st) < st_limit st"
      using False Cons.prems(2) length_add_names [of "st_names st @ [n]" ns] by simp
    with False obtain st1 where st1: "intern_name ht n st = Some (of_nat (length (st_names st)), st1)" "grown st [n] st1" "names_inv elems st1"
      by (rule intern_name_new [OF laws Cons.prems(1)])
    note st1_names = grownD [OF st1(2)]
    obtain st' new where st': "intern_each ht ns st1 = (map (id_in (st_names st')) ns, True, st')"
        "grown st1 new st'" "names_inv elems st'" "st_names st' = add_names (st_names st1) ns"
      using Cons.prems(2) False Cons.IH [OF st1(3)] by (auto simp: st1_names)
    have "id_in (st_names st') n = of_nat (length (st_names st))"
      using False id_in_add_names [of n "st_names st1" ns] by (simp add: st' st1_names id_in_def name_ids_snoc)
    then show ?thesis
      using False st1 st' grown_trans [OF st1(2) st'(2)] by (intro exI [of _ st'] exI [of _ "n # new"]) (simp add: st1_names)
  qed
qed

lemma intern_each_overflow:
  assumes laws: "hash_table_laws ht slot_hash elems" and "names_inv elems st" "st_limit st < length (add_names (st_names st) ns)"
  shows "\<exists>ids st' new. intern_each ht ns st = (ids, False, st') \<and> grown st new st' \<and> names_inv elems st' \<and> length ids \<le> length ns"
  using assms(2,3)
proof (induction ns arbitrary: st)
  case Nil
  then show ?case using names_invD(3) [of elems st] by simp
next
  case (Cons n ns)
  show ?case
  proof (cases "n \<in> set (st_names st)")
    case True
    with Cons.prems Cons.IH [of st] show ?thesis
      by (auto simp: intern_name_known [OF laws Cons.prems(1)])
  next
    case new: False
    show ?thesis
    proof (cases "length (st_names st) < st_limit st")
      case False
      then show ?thesis using intern_name_full [OF laws Cons.prems(1) new] grown_refl [of st] Cons.prems(1) by auto
    next
      case True
      with new obtain st1 where st1: "intern_name ht n st = Some (of_nat (length (st_names st)), st1)" "grown st [n] st1" "names_inv elems st1"
        by (rule intern_name_new [OF laws Cons.prems(1)])
      obtain ids st' new' where st': "intern_each ht ns st1 = (ids, False, st')" "grown st1 new' st'" "names_inv elems st'" "length ids \<le> length ns"
        using Cons.prems(2) new Cons.IH [OF st1(3)] by (auto simp: grownD [OF st1(2)])
      then show ?thesis using st1 grown_trans [OF st1(2) st'(2)] by auto
    qed
  qed
qed

text \<open>Forgetting the names from an index on.\<close>

lemma forget_one:
  assumes laws: "hash_table_laws ht slot_hash elems" and rep: "tables_rep elems (st_shards st) m" and inj: "shard_inj m (name_shard name)"
    and n: "m name = Some (of_nat i)"
  obtains st' where "forget_name ht st (i, name) = st'" "tables_rep elems (st_shards st') (m(name := None))"
    "st' = st\<lparr>st_shards := st_shards st'\<rparr>"
    "map sh_pending (st_shards st') = map sh_pending (st_shards st)" "map sh_assigned (st_shards st') = map sh_assigned (st_shards st)"
proof -
  let ?s = "name_shard name"
  let ?t = "ht_remove ht (sh_table (st_shards st ! ?s)) (name_hash name) (\<lambda>slot. slt_value slot = of_nat i)"
  let ?st = "st\<lparr>st_shards := (st_shards st)[?s := (st_shards st ! ?s)\<lparr>sh_table := ?t\<rparr>]\<rparr>"
  have rep_s: "shard_rep elems (sh_table (st_shards st ! ?s)) m ?s" using rep by (rule tables_rep_shard)
  have "forget_name ht st (i, name) = ?st"
    using shard_find_value [OF laws rep_s inj n refl] by (simp add: forget_name_def Let_def)
  moreover have "tables_rep elems (st_shards ?st) (m(name := None))"
    using tables_rep_upd [OF rep, of "(st_shards st ! ?s)\<lparr>sh_table := ?t\<rparr>" name None]
      shard_rep_remove [OF laws rep_s inj n refl] by simp
  moreover have "map sh_pending (st_shards ?st) = map sh_pending (st_shards st)" "map sh_assigned (st_shards ?st) = map sh_assigned (st_shards st)"
    by (simp_all add: map_update list_update_same_conv rep [unfolded tables_rep_def])
  ultimately show ?thesis by (intro that [of ?st]) simp_all
qed

lemma forget_loop:
  assumes laws: "hash_table_laws ht slot_hash elems" and dist: "distinct (a @ b)" and len: "length (a @ b) \<le> MAX_SYMBOLS"
  shows "tables_rep elems (st_shards st) (name_ids (a @ b) |` (- set done)) \<Longrightarrow> set done \<inter> set rest = {} \<Longrightarrow> distinct rest \<Longrightarrow>
    \<forall>(i, n)\<in>set (zip is rest). (a @ b) ! i = n \<and> i < length (a @ b) \<Longrightarrow> length is = length rest \<Longrightarrow>
    \<exists>st'. foldl (forget_name ht) st (zip is rest) = st' \<and> tables_rep elems (st_shards st') (name_ids (a @ b) |` (- (set done \<union> set rest))) \<and>
      st' = st\<lparr>st_shards := st_shards st'\<rparr> \<and>
      map sh_pending (st_shards st') = map sh_pending (st_shards st) \<and> map sh_assigned (st_shards st') = map sh_assigned (st_shards st)"
proof (induction rest arbitrary: "is" "done" st)
  case Nil
  then show ?case by simp
next
  case (Cons n rest)
  then obtain i js where i: "is = i # js" "i < length (a @ b)" "(a @ b) ! i = n" by (cases "is") auto
  let ?m = "name_ids (a @ b) |` (- set done)"
  have n: "?m n = Some (of_nat i)" using i Cons.prems(2) len by (simp add: restrict_map_def name_ids_iff [OF dist len] unat_of_id)
  have inj: "shard_inj ?m (name_shard n)"
    using name_ids_inj [OF dist len, of "name_shard n"] by (auto simp: shard_inj_def restrict_map_def split: if_splits)
  obtain st1 where st1: "forget_name ht st (i, n) = st1" "tables_rep elems (st_shards st1) (?m(n := None))" "st1 = st\<lparr>st_shards := st_shards st1\<rparr>"
      "map sh_pending (st_shards st1) = map sh_pending (st_shards st)" "map sh_assigned (st_shards st1) = map sh_assigned (st_shards st)"
    by (rule forget_one [OF laws Cons.prems(1) inj n])
  have "?m(n := None) = name_ids (a @ b) |` (- set (n # done))" by (auto simp: restrict_map_def)
  then obtain st' where st': "foldl (forget_name ht) st1 (zip js rest) = st'"
      "tables_rep elems (st_shards st') (name_ids (a @ b) |` (- (set (n # done) \<union> set rest)))" "st' = st1\<lparr>st_shards := st_shards st'\<rparr>"
      "map sh_pending (st_shards st') = map sh_pending (st_shards st1)" "map sh_assigned (st_shards st') = map sh_assigned (st_shards st1)"
    using Cons.IH [of st1 "n # done" js] Cons.prems st1(2) i(1) by auto
  have "st1\<lparr>st_shards := st_shards st'\<rparr> = st\<lparr>st_shards := st_shards st'\<rparr>" by (subst st1(3)) simp
  then show ?case using st' st1 i(1) by (intro exI [of _ st']) simp
qed

lemma name_ids_take: "distinct (a @ b) \<Longrightarrow> name_ids (a @ b) |` (- set b) = name_ids a"
proof (rule ext)
  fix n assume "distinct (a @ b)"
  then show "(name_ids (a @ b) |` (- set b)) n = name_ids a n"
    using name_ids_append [of n a b] name_ids_None [of "a @ b" n] name_ids_None [of a n]
    by (cases "n \<in> set a") (auto simp: restrict_map_def)
qed

lemma forget_names:
  assumes laws: "hash_table_laws ht slot_hash elems" and grown: "grown st new st1" and inv: "names_inv elems st1"
    and le: "length (st_names st) \<le> st_limit st"
  shows "grown st [] (forget_names_from ht (length (st_names st)) st1) \<and> names_inv elems (forget_names_from ht (length (st_names st)) st1)"
proof -
  note g = grownD [OF grown] and invs = names_invD [OF inv]
  let ?a = "st_names st"
  let ?is = "[length ?a..<length ?a + length new]"
  have all: "\<forall>(i, n)\<in>set (zip ?is new). (?a @ new) ! i = n \<and> i < length (?a @ new)" by (auto simp: in_set_zip)
  have "name_ids (?a @ new) |` (- set []) = name_ids (?a @ new)" by (simp add: restrict_map_def)
  then obtain st2 where st2: "foldl (forget_name ht) st1 (zip ?is new) = st2"
      "tables_rep elems (st_shards st2) (name_ids (?a @ new) |` (- set new))" "st2 = st1\<lparr>st_shards := st_shards st2\<rparr>"
      "map sh_pending (st_shards st2) = map sh_pending (st_shards st1)" "map sh_assigned (st_shards st2) = map sh_assigned (st_shards st1)"
    using forget_loop [OF laws, of ?a new st1 "[]" new ?is] invs all by (auto simp: g)
  have "st_names st2 = st_names st1" "st_limit st2 = st_limit st1" "st_flags st2 = st_flags st1" "st_defs st2 = st_defs st1"
    by (subst st2(3), simp)+
  then have rest: "st_names st2 = ?a @ new" "st_limit st2 = st_limit st" "st_flags st2 = st_flags st" "st_defs st2 = st_defs st"
    by (simp_all add: g)
  have eq: "forget_names_from ht (length ?a) st1 = st2\<lparr>st_names := ?a\<rparr>"
    using st2(1) rest by (simp add: forget_names_from_def enumerate_eq_zip g)
  have pend: "\<forall>shard\<in>set (st_shards st2). sh_pending shard = [] \<and> sh_assigned shard = []"
  proof -
    have "set (map sh_pending (st_shards st2)) \<subseteq> {[]}" "set (map sh_assigned (st_shards st2)) \<subseteq> {[]}"
      unfolding st2(4,5) using inv by (auto simp: names_inv_def)
    then show ?thesis by auto
  qed
  have "tables_rep elems (st_shards st2) (name_ids ?a)"
    using st2(2) invs(2) name_ids_take [of ?a new] by (simp add: g)
  then have "names_inv elems (st2\<lparr>st_names := ?a\<rparr>)"
    using pend invs le by (simp add: names_inv_def rest g)
  moreover have "grown st [] (st2\<lparr>st_names := ?a\<rparr>)" by (rule grownI) (simp_all add: rest)
  ultimately show ?thesis by (simp add: eq)
qed

section \<open>A batch in order\<close>

definition jobs_ok :: "intern_job list \<Rightarrow> bool" where
  "jobs_ok jobs \<longleftrightarrow> (\<forall>job\<in>set jobs. length (ij_names job) = length (ij_ids job))"

definition names_in_order :: "intern_job list \<Rightarrow> usize list \<Rightarrow> symbol_name list" where
  "names_in_order jobs order = concat (map (\<lambda>j. ij_names (jobs ! j)) order)"

definition with_ids :: "symbol_name list \<Rightarrow> intern_job \<Rightarrow> intern_job" where
  "with_ids names job = job\<lparr>ij_ids := map (id_in names) (ij_names job)\<rparr>"

lemma names_in_order_with_ids: "names_in_order (jobs[j := with_ids names (jobs ! j)]) order = names_in_order jobs order"
proof -
  have "ij_names (jobs[j := with_ids names (jobs ! j)] ! k) = ij_names (jobs ! k)" for k
    by (cases "k = j"; cases "j < length jobs") (simp_all add: with_ids_def list_update_beyond)
  then show ?thesis by (simp add: names_in_order_def)
qed

lemma job_names_ok [simp]: "length (ij_names job) = length (ij_ids job) \<Longrightarrow> job_names job = ij_names job"
  by (simp add: job_names_def)

lemma write_ids_ok: "length (ij_names job) = length (ij_ids job) \<Longrightarrow> write_ids (map f (ij_names job)) job = job\<lparr>ij_ids := map f (ij_names job)\<rparr>"
  by (simp add: write_ids_def)

lemma intern_jobs_complete:
  assumes laws: "hash_table_laws ht slot_hash elems" and "names_inv elems st"
    and "length (add_names (st_names st) (names_in_order jobs order)) \<le> st_limit st"
    and "\<forall>j\<in>set order. j < length jobs \<and> length (ij_names (jobs ! j)) = length (ij_ids (jobs ! j))" "distinct order"
  shows "\<exists>jobs' st' new. intern_jobs ht order jobs st = (jobs', True, st') \<and> grown st new st' \<and> names_inv elems st' \<and>
    st_names st' = add_names (st_names st) (names_in_order jobs order) \<and> length jobs' = length jobs \<and>
    (\<forall>j<length jobs. jobs' ! j = (if j \<in> set order then with_ids (st_names st') (jobs ! j) else jobs ! j))"
  using assms(2-5)
proof (induction order arbitrary: st jobs)
  case Nil
  then show ?case using grown_refl [of st] by (auto simp: names_in_order_def)
next
  case (Cons j order)
  let ?ns = "ij_names (jobs ! j)"
  have split: "add_names (st_names st) (names_in_order jobs (j # order)) = add_names (add_names (st_names st) ?ns) (names_in_order jobs order)"
    by (simp add: names_in_order_def add_names_append)
  have "length (add_names (st_names st) ?ns) \<le> st_limit st"
    using Cons.prems(2) length_add_names [of "add_names (st_names st) ?ns" "names_in_order jobs order"] unfolding split by simp
  then obtain st1 new where st1: "intern_each ht ?ns st = (map (id_in (st_names st1)) ?ns, True, st1)"
      "grown st new st1" "names_inv elems st1" "st_names st1 = add_names (st_names st) ?ns"
    using intern_each_complete [OF laws Cons.prems(1)] by blast
  let ?jobs = "jobs[j := with_ids (st_names st1) (jobs ! j)]"
  note seq = names_in_order_with_ids
  have "\<forall>k\<in>set order. k < length ?jobs \<and> length (ij_names (?jobs ! k)) = length (ij_ids (?jobs ! k))"
    using Cons.prems(3,4) by (auto simp: nth_list_update)
  with Cons.IH [OF st1(3), of ?jobs] obtain jobs' st' new' where rest: "intern_jobs ht order ?jobs st1 = (jobs', True, st')"
      "grown st1 new' st'" "names_inv elems st'" "st_names st' = add_names (st_names st1) (names_in_order jobs order)" "length jobs' = length jobs"
      "\<forall>k<length jobs. jobs' ! k = (if k \<in> set order then with_ids (st_names st') (?jobs ! k) else ?jobs ! k)"
    using Cons.prems(2,4) unfolding split by (auto simp: seq st1(4) grownD [OF st1(2)])
  have "with_ids (st_names st1) (jobs ! j) = with_ids (st_names st') (jobs ! j)"
    unfolding with_ids_def rest(4) using set_add_names [of "st_names st" ?ns] by (simp add: id_in_add_names st1(4))
  then have "\<forall>k<length jobs. jobs' ! k = (if k \<in> set (j # order) then with_ids (st_names st') (jobs ! k) else jobs ! k)"
    using rest(6) Cons.prems(3,4) by (auto simp: nth_list_update)
  moreover have "intern_jobs ht (j # order) jobs st = (jobs', True, st')"
    using st1(1) rest(1) Cons.prems(3) by (simp add: Let_def write_ids_ok with_ids_def)
  ultimately show ?case
    using rest grown_trans [OF st1(2) rest(2)] unfolding split by (auto simp: st1(4))
qed

lemma intern_jobs_overflow:
  assumes laws: "hash_table_laws ht slot_hash elems" and "names_inv elems st"
    and "st_limit st < length (add_names (st_names st) (names_in_order jobs order))"
    and "\<forall>j\<in>set order. j < length jobs \<and> length (ij_names (jobs ! j)) = length (ij_ids (jobs ! j))" "distinct order"
  shows "\<exists>jobs' st' new. intern_jobs ht order jobs st = (jobs', False, st') \<and> grown st new st' \<and> names_inv elems st'"
  using assms(2-5)
proof (induction order arbitrary: st jobs)
  case Nil
  then show ?case using names_invD(3) [OF Nil(1)] by (simp add: names_in_order_def)
next
  case (Cons j order)
  let ?ns = "ij_names (jobs ! j)"
  have split: "add_names (st_names st) (names_in_order jobs (j # order)) = add_names (add_names (st_names st) ?ns) (names_in_order jobs order)"
    by (simp add: names_in_order_def add_names_append)
  show ?case
  proof (cases "length (add_names (st_names st) ?ns) \<le> st_limit st")
    case False
    then show ?thesis using intern_each_overflow [OF laws Cons.prems(1), of ?ns] Cons.prems(3) by (auto simp: Let_def)
  next
    case True
    then obtain st1 new where st1: "intern_each ht ?ns st = (map (id_in (st_names st1)) ?ns, True, st1)"
        "grown st new st1" "names_inv elems st1" "st_names st1 = add_names (st_names st) ?ns"
      using intern_each_complete [OF laws Cons.prems(1)] by blast
    let ?jobs = "jobs[j := with_ids (st_names st1) (jobs ! j)]"
    note seq = names_in_order_with_ids
    have "\<forall>k\<in>set order. k < length ?jobs \<and> length (ij_names (?jobs ! k)) = length (ij_ids (?jobs ! k))"
      using Cons.prems(3,4) by (auto simp: nth_list_update)
    with Cons.IH [OF st1(3), of ?jobs] obtain jobs' st' new' where "intern_jobs ht order ?jobs st1 = (jobs', False, st')"
        "grown st1 new' st'" "names_inv elems st'"
      using Cons.prems(2,4) unfolding split by (auto simp: seq st1(4) grownD [OF st1(2)])
    then show ?thesis
      using st1(1) Cons.prems(3) grown_trans [OF st1(2)] by (auto simp: Let_def write_ids_ok with_ids_def)
  qed
qed

text \<open>
  The outcome of a batch whose names, in the order that numbers them, are \<open>ns\<close>: the table with the new
  names and every id written, or the error with the table as it was.
\<close>

definition batch_outcome :: "('t \<Rightarrow> symbol_slot multiset) \<Rightarrow> 't symbol_table \<Rightarrow> intern_job list \<Rightarrow> symbol_name list \<Rightarrow> 't batch_result \<Rightarrow> bool" where
  "batch_outcome elems st jobs ns = (\<lambda>(r, st', jobs').
     let names = add_names (st_names st) ns; new = length names - length (st_names st)
     in table_inv elems st' \<and> st_limit st' = st_limit st \<and>
        (if length names \<le> st_limit st
         then r = Ok () \<and> st_names st' = names \<and> jobs' = map (with_ids names) jobs \<and>
           st_flags st' = st_flags st @ replicate new 0 \<and> st_defs st' = st_defs st @ replicate new cell_undefined
         else r = Err (overflow (st_limit st)) \<and> st_names st' = st_names st \<and> st_flags st' = st_flags st \<and> st_defs st' = st_defs st))"

lemma table_inv_grow:
  assumes "table_inv elems st" "grown st new st1" "names_inv elems st1"
  shows "table_inv elems (grow_state (length (st_names st1) - length (st_names st)) st1)"
  using assms by (auto simp: table_inv_def names_inv_def grow_state_def grownD [OF assms(2)])

lemma table_inv_back: "table_inv elems st \<Longrightarrow> grown st [] st1 \<Longrightarrow> names_inv elems st1 \<Longrightarrow> table_inv elems st1"
  by (simp add: table_inv_def grownD)

lemma intern_in_order_outcome:
  assumes laws: "hash_table_laws ht slot_hash elems" and inv: "table_inv elems st" and ok: "jobs_ok jobs"
    and order: "distinct order" "set order = {..<length jobs}"
  shows "batch_outcome elems st jobs (names_in_order jobs order) (intern_in_order ht jobs order st)"
proof -
  let ?ns = "names_in_order jobs order"
  have ninv: "names_inv elems st" using inv by (simp add: table_inv_def)
  have all: "\<forall>j\<in>set order. j < length jobs \<and> length (ij_names (jobs ! j)) = length (ij_ids (jobs ! j))"
    using ok order(2) by (auto simp: jobs_ok_def)
  show ?thesis
  proof (cases "length (add_names (st_names st) ?ns) \<le> st_limit st")
    case True
    then obtain jobs' st' new where st': "intern_jobs ht order jobs st = (jobs', True, st')" "grown st new st'" "names_inv elems st'"
        "st_names st' = add_names (st_names st) ?ns" "length jobs' = length jobs"
        "\<forall>j<length jobs. jobs' ! j = (if j \<in> set order then with_ids (st_names st') (jobs ! j) else jobs ! j)"
      using intern_jobs_complete [OF laws ninv True all order(1)] by blast
    have "jobs' = map (with_ids (add_names (st_names st) ?ns)) jobs"
      by (rule nth_equalityI) (use st' order(2) in auto)
    with st' True table_inv_grow [OF inv st'(2,3)] show ?thesis
      by (simp add: batch_outcome_def intern_in_order_def Let_def grow_state_def grownD(2-4) [OF st'(2)] map_replicate_const)
  next
    case False
    then obtain jobs' st' new where st': "intern_jobs ht order jobs st = (jobs', False, st')" "grown st new st'" "names_inv elems st'"
      using intern_jobs_overflow [OF laws ninv _ all order(1)] by auto
    from forget_names [OF laws st'(2,3) names_invD(3) [OF ninv]] have undone: "grown st [] (forget_names_from ht (length (st_names st)) st')"
      "names_inv elems (forget_names_from ht (length (st_names st)) st')" by auto
    with False st' table_inv_back [OF inv undone] show ?thesis
      by (simp add: batch_outcome_def intern_in_order_def Let_def grownD [OF undone(1)])
  qed
qed

text \<open>One name.\<close>

lemma try_intern_cases:
  assumes laws: "hash_table_laws ht slot_hash elems" and inv: "table_inv elems st"
  shows "case try_intern ht name st of
      (Ok i, st') \<Rightarrow> table_inv elems st' \<and> table_lookup ht st' name = Some i \<and> st_names st' = add_names (st_names st) [name]
    | (Err e, st') \<Rightarrow> st' = st \<and> e = overflow (st_limit st) \<and> name \<notin> set (st_names st) \<and> length (st_names st) = st_limit st"
proof -
  have ninv: "names_inv elems st" using inv by (simp add: table_inv_def)
  show ?thesis
  proof (cases "name \<in> set (st_names st)")
    case True
    then have "name_ids (st_names st) name = Some (id_in (st_names st) name)"
      using name_ids_None [of "st_names st" name] by (auto simp: id_in_def)
    then show ?thesis using True inv intern_name_known [OF laws ninv True]
      by (simp add: try_intern_def lookup_name_ids [OF laws ninv])
  next
    case new: False
    show ?thesis
    proof (cases "length (st_names st) < st_limit st")
      case False
      then show ?thesis using new intern_name_full [OF laws ninv new] names_invD(3) [OF ninv] by (simp add: try_intern_def)
    next
      case True
      with new obtain st1 where st1: "intern_name ht name st = Some (of_nat (length (st_names st)), st1)" "grown st [name] st1" "names_inv elems st1"
        by (rule intern_name_new [OF laws ninv])
      have inv1: "table_inv elems (grow_state 1 st1)" using table_inv_grow [OF inv st1(2,3)] by (simp add: grownD [OF st1(2)])
      have "st_names (grow_state 1 st1) = st_names st @ [name]" by (simp add: grow_state_def grownD [OF st1(2)])
      then show ?thesis using new st1 inv1
        by (simp add: try_intern_def lookup_name_ids [OF laws] table_inv_def grownD [OF st1(2)] name_ids_snoc)
    qed
  qed
qed

text \<open>
  C26. \<open>lookup\<close> and \<open>name\<close> are inverse: in a table that keeps its invariant, looking a name up gives exactly
  the id whose name it is, and nothing when no id has it.
\<close>

theorem table_lookup_inverse:
  "hash_table_laws ht slot_hash elems \<Longrightarrow> table_inv elems st \<Longrightarrow> table_lookup ht st name = Some i \<longleftrightarrow> table_name st i = Some name"
proof -
  assume laws: "hash_table_laws ht slot_hash elems" and "table_inv elems st"
  then have inv: "names_inv elems st" by (simp add: table_inv_def)
  show ?thesis using names_invD [OF inv]
    by (simp add: lookup_name_ids [OF laws inv] name_ids_iff table_name_def id_index_def)
qed

theorem table_lookup_inverse_witness:
  "table_lookup (list_table slot_hash) (snd (try_intern (list_table slot_hash) \<lparr>sn_bytes = [97], sn_version = None, sn_hash = 5\<rparr>
     (table_new (list_table slot_hash)))) \<lparr>sn_bytes = [97], sn_version = None, sn_hash = 5\<rparr> = Some 0"
proof -
  let ?ht = "list_table slot_hash" and ?n = "\<lparr>sn_bytes = [97], sn_version = None, sn_hash = 5\<rparr> :: symbol_name"
  let ?st = "snd (try_intern ?ht ?n (table_new ?ht))"
  have st0: "st_names (table_new ?ht) = []" "st_limit (table_new ?ht) = MAX_SYMBOLS"
    by (simp_all add: table_new_def table_with_capacity_def)
  have "table_inv mset ?st \<and> st_names ?st = [?n]"
    using try_intern_cases [OF list_table_laws table_inv_new [OF list_table_laws], of ?n] st0
    by (cases "try_intern ?ht ?n (table_new ?ht)"; cases "fst (try_intern ?ht ?n (table_new ?ht))") (simp_all add: MAX_SYMBOLS_eq)
  then show ?thesis by (subst table_lookup_inverse [OF list_table_laws, of ?st]) (simp_all add: table_name_def id_index_def get_nth_def)
qed

end
