(* ===== verification/PartitionSort.thy ===== *)
theory PartitionSort
  imports SymbolPartition SymbolTableRep
begin

text \<open>
  The first pass of a partitioned batch (src/src/symbols/table/partition.rs): a sequence visits the names of
  its segments laid end to end, and the counting sort puts the entry of name \<open>g\<close> at a position of its own,
  in the region of its shard and in the order of the sequence.
\<close>

section \<open>Sequences\<close>

lemma length_start_sums [simp]: "length (start_sums a ns) = Suc (length ns)"
  by (induction ns arbitrary: a) auto

lemma start_sums_nth: "k \<le> length ns \<Longrightarrow> start_sums a ns ! k = a + sum_list (take k ns)"
proof (induction ns arbitrary: a k)
  case (Cons n ns)
  then show ?case by (cases k) simp_all
qed simp

definition seg_start :: "'a list list \<Rightarrow> nat \<Rightarrow> nat" where
  "seg_start segs k = length (concat (take k segs))"

lemma seg_start_Suc: "k < length segs \<Longrightarrow> seg_start segs (Suc k) = seg_start segs k + length (segs ! k)"
  by (simp add: seg_start_def take_Suc_conv_app_nth)

lemma seg_start_le: "seg_start segs k \<le> length (concat segs)"
  unfolding seg_start_def by (metis append_take_drop_id concat_append length_append le_add1)

lemma seg_start_mono: "k \<le> l \<Longrightarrow> seg_start segs k \<le> seg_start segs l"
proof -
  assume "k \<le> l"
  then have "take l segs = take k segs @ take (l - k) (drop k segs)" by (metis le_add_diff_inverse take_add)
  then show ?thesis by (simp add: seg_start_def)
qed

lemma seg_start_all: "length segs \<le> k \<Longrightarrow> seg_start segs k = length (concat segs)"
  by (simp add: seg_start_def)

lemma concat_at: "k < length segs \<Longrightarrow> i < length (segs ! k) \<Longrightarrow> concat segs ! (seg_start segs k + i) = segs ! k ! i"
proof -
  assume k: "k < length segs" and i: "i < length (segs ! k)"
  have "concat segs = concat (take k segs) @ segs ! k @ concat (drop (Suc k) segs)"
    using k by (metis append_take_drop_id concat.simps(2) concat_append id_take_nth_drop)
  then show ?thesis using i by (simp add: seg_start_def nth_append)
qed

lemma sequence_starts: "k \<le> length segs \<Longrightarrow> sq_starts (sequence_new segs) ! k = seg_start segs k"
  by (simp add: sequence_new_def start_sums_nth seg_start_def length_concat take_map)

lemma sequence_segments [simp]: "sq_segments (sequence_new segs) = segs"
  by (simp add: sequence_new_def)

lemma sequence_len_new [simp]: "sequence_len (sequence_new segs) = length (concat segs)"
  by (simp add: sequence_len_def sequence_starts seg_start_all)

text \<open>The segment of an index.\<close>

lemma segment_of_new:
  assumes "g < length (concat segs)"
  obtains k where "segment_of (sequence_new segs) g = Some k" "k < length segs" "seg_start segs k \<le> g" "g < seg_start segs (Suc k)"
proof -
  let ?starts = "take (length segs) (sq_starts (sequence_new segs))"
  have len: "length ?starts = length segs" by (simp add: sequence_new_def)
  have nth: "?starts ! k = seg_start segs k" if "k < length segs" for k using that by (simp add: sequence_starts)
  let ?p = "partition_point (\<lambda>start. start \<le> g) ?starts"
  have "segs \<noteq> []" using assms by auto
  moreover have "seg_start segs 0 = 0" by (simp add: seg_start_def)
  ultimately obtain rest where "?starts = 0 # rest" using len nth [of 0] by (cases ?starts) auto
  then obtain k where k: "?p = Suc k" by (simp add: partition_point_def)
  have p: "?p \<le> length segs" using length_takeWhile_le [of _ ?starts] len by (metis partition_point_def)
  have "takeWhile (\<lambda>start. start \<le> g) ?starts ! k \<in> set (takeWhile (\<lambda>start. start \<le> g) ?starts)" using k by (simp add: partition_point_def)
  then have "takeWhile (\<lambda>start. start \<le> g) ?starts ! k \<le> g" using set_takeWhileD by fast
  moreover have "takeWhile (\<lambda>start. start \<le> g) ?starts ! k = seg_start segs k"
    using k p nth [of k] by (subst takeWhile_nth) (simp_all add: partition_point_def)
  ultimately have low: "seg_start segs k \<le> g" by simp
  have high: "g < seg_start segs (Suc k)"
  proof (cases "Suc k < length segs")
    case True
    then have "\<not> ?starts ! ?p \<le> g" using nth_length_takeWhile [of "\<lambda>start. start \<le> g" ?starts] k len by (metis partition_point_def)
    then show ?thesis using True nth k by simp
  next
    case False
    then show ?thesis using assms by (simp add: seg_start_all)
  qed
  show ?thesis by (rule that [of k]) (use k p low high in \<open>simp_all add: segment_of_def\<close>)
qed

lemma sequence_name_new: "g < length (concat segs) \<Longrightarrow> sequence_name (sequence_new segs) g = Some (concat segs ! g)"
proof -
  assume "g < length (concat segs)"
  then obtain k where k: "segment_of (sequence_new segs) g = Some k" "k < length segs" "seg_start segs k \<le> g" "g < seg_start segs (Suc k)"
    by (rule segment_of_new)
  then show ?thesis using concat_at [of k segs "g - seg_start segs k"]
    by (simp add: sequence_name_def sequence_starts seg_start_Suc get_nth_def)
qed

definition indexed :: "'a list \<Rightarrow> nat \<Rightarrow> nat \<Rightarrow> (nat \<times> 'a) list" where
  "indexed ns a b = map (\<lambda>i. (i, ns ! i)) [a..<b]"

lemma indexed_append: "a \<le> b \<Longrightarrow> b \<le> c \<Longrightarrow> indexed ns a b @ indexed ns b c = indexed ns a c"
proof -
  assume "a \<le> b" "b \<le> c"
  then have "[a..<c] = [a..<b] @ [b..<c]" using upt_add_eq_append [of a b "c - b"] by simp
  then show ?thesis by (simp add: indexed_def)
qed

lemma enumerate_segment:
  assumes k: "k < length segs" and le: "seg_start segs k \<le> a" "a \<le> b" "b \<le> seg_start segs (Suc k)"
  shows "List.enumerate a (sub_slice (segs ! k) (a - seg_start segs k) (b - seg_start segs k)) = indexed (concat segs) a b"
proof (rule nth_equalityI)
  have len: "length (sub_slice (segs ! k) (a - seg_start segs k) (b - seg_start segs k)) = b - a"
    using assms by (simp add: seg_start_Suc)
  then show "length (List.enumerate a (sub_slice (segs ! k) (a - seg_start segs k) (b - seg_start segs k))) = length (indexed (concat segs) a b)"
    by (simp add: indexed_def)
  fix i assume "i < length (List.enumerate a (sub_slice (segs ! k) (a - seg_start segs k) (b - seg_start segs k)))"
  then have i: "i < b - a" unfolding length_enumerate len .
  then have "sub_slice (segs ! k) (a - seg_start segs k) (b - seg_start segs k) ! i = segs ! k ! (a - seg_start segs k + i)"
    using assms by (intro nth_sub_slice) (simp_all add: seg_start_Suc)
  moreover have "concat segs ! (a + i) = segs ! k ! (a - seg_start segs k + i)"
    using concat_at [OF k, of "a - seg_start segs k + i"] i assms by (simp add: seg_start_Suc)
  ultimately show "List.enumerate a (sub_slice (segs ! k) (a - seg_start segs k) (b - seg_start segs k)) ! i = indexed (concat segs) a b ! i"
    using i len by (simp add: nth_enumerate_eq indexed_def)
qed

lemma visit_new:
  assumes "stop \<le> length (concat segs)" "k \<le> length segs" "seg_start segs k \<le> g" "k < length segs \<longrightarrow> g \<le> seg_start segs (Suc k)"
  shows "visit (sequence_new segs) k g stop = Some (indexed (concat segs) g stop)"
  using assms
proof (induction "length segs - k" arbitrary: k g)
  case 0
  then have "stop \<le> g" using seg_start_all [of segs k] by simp
  then show ?case by (subst visit.simps) (simp add: indexed_def)
next
  case (Suc d)
  then have k: "k < length segs" by simp
  show ?case
  proof (cases "stop \<le> g")
    case True
    then show ?thesis by (subst visit.simps) (simp add: indexed_def)
  next
    case False
    let ?upto = "min (seg_start segs k + length (segs ! k)) stop"
    have le: "g \<le> ?upto" "?upto \<le> stop" "?upto \<le> seg_start segs (Suc k)" using Suc.prems k False by (simp_all add: seg_start_Suc)
    have "get_range (segs ! k) (g - seg_start segs k) (?upto - seg_start segs k) =
        Some (sub_slice (segs ! k) (g - seg_start segs k) (?upto - seg_start segs k))"
      using Suc.prems k le unfolding get_range_def by (auto simp: seg_start_Suc)
    moreover have "visit (sequence_new segs) (Suc k) ?upto stop = Some (indexed (concat segs) ?upto stop)"
    proof (cases "?upto = stop")
      case True
      then show ?thesis by (subst visit.simps) (simp add: indexed_def)
    next
      case False
      then have "?upto = seg_start segs (Suc k)" using k by (simp add: seg_start_Suc)
      then show ?thesis using Suc.hyps(2) Suc.prems(1) k seg_start_mono [of "Suc k" "Suc (Suc k)" segs] by (intro Suc.hyps(1)) auto
    qed
    ultimately show ?thesis using False k enumerate_segment [OF k Suc.prems(3) le(1,3)] indexed_append [OF le(1,2), of "concat segs"]
      by (subst visit.simps) (simp add: sequence_starts Let_def)
  qed
qed

lemma for_each_new: "b \<le> length (concat segs) \<Longrightarrow> for_each (sequence_new segs) (a, b) = Some (indexed (concat segs) a b)"
proof (cases "b \<le> a")
  case False
  moreover assume b: "b \<le> length (concat segs)"
  ultimately have "a < length (concat segs)" by simp
  then obtain k where "segment_of (sequence_new segs) a = Some k" "k < length segs" "seg_start segs k \<le> a" "a < seg_start segs (Suc k)"
    by (rule segment_of_new)
  then show ?thesis using False b visit_new [of b segs k a] by (simp add: for_each_def)
qed (simp add: for_each_def indexed_def)

section \<open>Rows of numbers by shard\<close>

definition row_of :: "(usize \<Rightarrow> usize) \<Rightarrow> usize list" where
  "row_of f = map f [0..<SHARD_COUNT]"

lemma row_of_nth [simp]: "s < SHARD_COUNT \<Longrightarrow> row_of f ! s = f s"
  by (simp add: row_of_def)

lemma length_row_of [simp]: "length (row_of f) = SHARD_COUNT"
  by (simp add: row_of_def)

lemma row_of_update: "s < SHARD_COUNT \<Longrightarrow> (row_of f)[s := v] = row_of (f(s := v))"
  by (rule nth_equalityI) (simp_all add: nth_list_update)

lemma add_rows_row_of: "add_rows (row_of f) (row_of g) = row_of (\<lambda>s. f s + g s)"
  by (rule nth_equalityI) (simp_all add: add_rows_def)

lemma replicate_row_of: "replicate SHARD_COUNT x = row_of (\<lambda>_. x)"
  by (simp add: row_of_def map_replicate_const)

definition shard_count :: "symbol_name list \<Rightarrow> usize \<Rightarrow> usize \<Rightarrow> usize \<Rightarrow> usize" where
  "shard_count ns s a b = length (filter (\<lambda>g. name_shard (ns ! g) = s) [a..<b])"

lemma shard_count_empty [simp]: "b \<le> a \<Longrightarrow> shard_count ns s a b = 0"
  by (simp add: shard_count_def)

lemma shard_count_Suc: "a \<le> b \<Longrightarrow> shard_count ns s a (Suc b) = shard_count ns s a b + (if name_shard (ns ! b) = s then 1 else 0)"
  by (simp add: shard_count_def)

lemma shard_count_add: "a \<le> b \<Longrightarrow> b \<le> c \<Longrightarrow> shard_count ns s a b + shard_count ns s b c = shard_count ns s a c"
proof -
  assume "a \<le> b" "b \<le> c"
  then have "[a..<c] = [a..<b] @ [b..<c]" using upt_add_eq_append [of a b "c - b"] by simp
  then show ?thesis by (simp add: shard_count_def)
qed

lemma indexed_Suc: "a \<le> b \<Longrightarrow> indexed ns a (Suc b) = indexed ns a b @ [(b, ns ! b)]"
  by (simp add: indexed_def)

lemma count_row_indexed: "a \<le> b \<Longrightarrow> count_row (indexed ns a b) = row_of (\<lambda>s. shard_count ns s a b)"
proof (induction b rule: dec_induct)
  case base
  then show ?case by (simp add: count_row_def indexed_def replicate_row_of)
next
  case (step b)
  have "(\<lambda>s. shard_count ns s a b)(name_shard (ns ! b) := shard_count ns (name_shard (ns ! b)) a b + 1) = (\<lambda>s. shard_count ns s a (Suc b))"
    by (rule ext) (use step in \<open>simp add: shard_count_Suc\<close>)
  then show ?case using step by (simp add: count_row_def indexed_Suc row_of_update)
qed

section \<open>Regions and positions\<close>

definition region_at :: "symbol_name list \<Rightarrow> usize \<Rightarrow> usize" where
  "region_at ns s = (\<Sum>t\<in>{..<s}. shard_count ns t 0 (length ns))"

definition entry_pos :: "symbol_name list \<Rightarrow> usize \<Rightarrow> usize" where
  "entry_pos ns g = region_at ns (name_shard (ns ! g)) + shard_count ns (name_shard (ns ! g)) 0 g"

lemma region_at_Suc: "region_at ns (Suc s) = region_at ns s + shard_count ns s 0 (length ns)"
  by (simp add: region_at_def)

lemma region_at_mono: "s \<le> t \<Longrightarrow> region_at ns s \<le> region_at ns t"
  unfolding region_at_def by (rule sum_mono2) auto

lemma shard_counts_total: "(\<Sum>s\<in>{..<SHARD_COUNT}. shard_count ns s 0 k) = k"
proof (induction k)
  case (Suc k)
  have "(\<Sum>s\<in>{..<SHARD_COUNT}. if name_shard (ns ! k) = s then 1 else 0) = (1 :: nat)" by (subst sum.delta') simp_all
  then show ?case using Suc by (simp add: shard_count_Suc sum.distrib)
qed simp

lemma region_at_end: "region_at ns SHARD_COUNT = length ns"
  by (simp add: region_at_def shard_counts_total)

lemma shard_entries: "map (entry_pos ns) (filter (\<lambda>g. name_shard (ns ! g) = s) [0..<k]) = [region_at ns s..<region_at ns s + shard_count ns s 0 k]"
  by (induction k) (auto simp: shard_count_Suc entry_pos_def)

lemma entry_pos_region:
  assumes "g < length ns"
  shows "region_at ns (name_shard (ns ! g)) \<le> entry_pos ns g" "entry_pos ns g < region_at ns (Suc (name_shard (ns ! g)))" "entry_pos ns g < length ns"
proof -
  let ?s = "name_shard (ns ! g)"
  show "region_at ns ?s \<le> entry_pos ns g" by (simp add: entry_pos_def)
  have "shard_count ns ?s 0 g < shard_count ns ?s 0 (length ns)"
    using shard_count_add [of 0 "Suc g" "length ns" ns ?s] assms by (simp add: shard_count_Suc)
  then show less: "entry_pos ns g < region_at ns (Suc ?s)" by (simp add: entry_pos_def region_at_Suc)
  have "Suc ?s \<le> SHARD_COUNT" by (simp add: Suc_le_eq)
  from region_at_mono [OF this, of ns] less show "entry_pos ns g < length ns" by (simp add: region_at_end)
qed

lemma entry_pos_inj: "inj_on (entry_pos ns) {..<length ns}"
proof (rule inj_onI)
  fix g h assume g: "g \<in> {..<length ns}" and h: "h \<in> {..<length ns}" and eq: "entry_pos ns g = entry_pos ns h"
  let ?s = "name_shard (ns ! g)" and ?t = "name_shard (ns ! h)"
  have same: "?s = ?t"
  proof (rule ccontr)
    assume "?s \<noteq> ?t"
    then have "Suc ?s \<le> ?t \<or> Suc ?t \<le> ?s" by auto
    then show False using eq entry_pos_region [of g ns] entry_pos_region [of h ns] g h
      region_at_mono [of "Suc ?s" ?t ns] region_at_mono [of "Suc ?t" ?s ns] by auto
  qed
  have less: "shard_count ns ?s 0 a < shard_count ns ?s 0 b" if "a < b" "name_shard (ns ! a) = ?s" for a b
    using shard_count_add [of 0 "Suc a" b ns ?s] that by (simp add: shard_count_Suc)
  have "shard_count ns ?s 0 g = shard_count ns ?s 0 h" using eq same by (simp add: entry_pos_def)
  then show "g = h" using less [of g h] less [of h g] same by (cases g h rule: linorder_cases) auto
qed

section \<open>The counting sort\<close>

definition cursor_at :: "symbol_name list \<Rightarrow> usize \<Rightarrow> usize list" where
  "cursor_at ns g = row_of (\<lambda>s. region_at ns s + shard_count ns s 0 g)"

lemma cursor_at_0: "cursor_at ns 0 = row_of (region_at ns)"
  by (simp add: cursor_at_def)

lemma cursor_step: "(cursor_at ns g)[name_shard (ns ! g) := entry_pos ns g + 1] = cursor_at ns (Suc g)"
  by (rule nth_equalityI) (simp_all add: cursor_at_def row_of_def nth_list_update entry_pos_def shard_count_Suc)

lemma cursor_read: "cursor_at ns g ! name_shard (ns ! g) = entry_pos ns g"
  by (simp add: cursor_at_def entry_pos_def)

definition put_entries :: "symbol_name list \<Rightarrow> u64 list \<Rightarrow> usize list \<Rightarrow> u64 list" where
  "put_entries ns = foldl (\<lambda>entries g. entries[entry_pos ns g := entry_word g (ns ! g)])"

lemma scatter_range: "a \<le> b \<Longrightarrow> foldl scatter_name (entries, cursor_at ns a) (indexed ns a b) = (put_entries ns entries [a..<b], cursor_at ns b)"
proof (induction b rule: dec_induct)
  case base
  then show ?case by (simp add: indexed_def put_entries_def)
next
  case (step b)
  then show ?case by (simp add: indexed_Suc scatter_name_def Let_def cursor_read put_entries_def cursor_step [simplified])
qed

lemma put_entries_nth:
  assumes "length entries = length ns" "set gs \<subseteq> {..<length ns}"
  shows "length (put_entries ns entries gs) = length ns"
    "g < length ns \<Longrightarrow> put_entries ns entries gs ! entry_pos ns g = (if g \<in> set gs then entry_word g (ns ! g) else entries ! entry_pos ns g)"
  using assms
proof (induction gs rule: rev_induct)
  case (snoc h gs)
  {
    case 1
    then show ?case using snoc.IH(1) by (simp add: put_entries_def)
  next
    case 2
    then have h: "h < length ns" and IH: "length (put_entries ns entries gs) = length ns"
        "put_entries ns entries gs ! entry_pos ns g = (if g \<in> set gs then entry_word g (ns ! g) else entries ! entry_pos ns g)"
      using snoc.IH by auto
    have "put_entries ns entries (gs @ [h]) = (put_entries ns entries gs)[entry_pos ns h := entry_word h (ns ! h)]" by (simp add: put_entries_def)
    moreover have "entry_pos ns g = entry_pos ns h \<longleftrightarrow> g = h" using inj_onD [OF entry_pos_inj, of ns g h] 2 h by auto
    ultimately show ?case using IH entry_pos_region(3) [OF h] by (auto simp: nth_list_update)
  }
qed (simp_all add: put_entries_def)

section \<open>Chunks\<close>

definition cut_at :: "usize \<Rightarrow> usize \<Rightarrow> usize \<Rightarrow> usize" where
  "cut_at chunk n c = min (c * chunk) n"

lemma cut_at_mono: "cut_at chunk n c \<le> cut_at chunk n (Suc c)" "cut_at chunk n c \<le> n"
  by (simp_all add: cut_at_def le_diff_conv2 min_le_iff_disj)

lemma cut_at_0 [simp]: "cut_at chunk n 0 = 0"
  by (simp add: cut_at_def)

lemma visit_chunk:
  assumes "n = length (concat segs)"
  shows "for_each (sequence_new segs) (chunk_range chunk n c) = Some (indexed (concat segs) (cut_at chunk n c) (cut_at chunk n (Suc c)))"
proof (cases "c * chunk \<le> n")
  case True
  then show ?thesis using assms for_each_new [of "min (Suc c * chunk) n" segs "c * chunk"] by (simp add: chunk_range_def cut_at_def)
next
  case False
  then show ?thesis using assms for_each_new [of "min (Suc c * chunk) n" segs "c * chunk"]
    by (simp add: chunk_range_def cut_at_def indexed_def min_def)
qed

lemma visit_chunks:
  assumes "n = length (concat segs)"
  shows "collect_options (map (\<lambda>c. for_each (sequence_new segs) (chunk_range chunk n c)) [0..<k]) =
    Some (map (\<lambda>c. indexed (concat segs) (cut_at chunk n c) (cut_at chunk n (Suc c))) [0..<k])"
  unfolding collect_options_Some by (simp add: visit_chunk [OF assms])

definition chunk_row :: "symbol_name list \<Rightarrow> usize \<Rightarrow> usize \<Rightarrow> usize list" where
  "chunk_row ns chunk c = row_of (\<lambda>s. shard_count ns s (cut_at chunk (length ns) c) (cut_at chunk (length ns) (Suc c)))"

lemma count_chunk: "count_row (indexed ns (cut_at chunk (length ns) c) (cut_at chunk (length ns) (Suc c))) = chunk_row ns chunk c"
  by (simp add: count_row_indexed cut_at_mono chunk_row_def)

lemma sum_rows: "foldl add_rows (row_of (\<lambda>_. 0)) (map (chunk_row ns chunk) [0..<k]) = row_of (\<lambda>s. shard_count ns s 0 (cut_at chunk (length ns) k))"
proof (induction k)
  case (Suc k)
  have "shard_count ns s 0 (cut_at chunk (length ns) k) + shard_count ns s (cut_at chunk (length ns) k) (cut_at chunk (length ns) (Suc k)) =
      shard_count ns s 0 (cut_at chunk (length ns) (Suc k))" for s
    by (rule shard_count_add) (simp_all add: cut_at_mono)
  with Suc show ?case by (simp add: chunk_row_def add_rows_row_of)
qed simp

lemma regions_chunks:
  assumes "cut_at chunk (length ns) k = length ns"
  shows "s \<le> SHARD_COUNT \<Longrightarrow> shard_regions (map (chunk_row ns chunk) [0..<k]) ! s = region_at ns s"
    "length (shard_regions (map (chunk_row ns chunk) [0..<k])) = Suc SHARD_COUNT"
proof -
  have eq: "shard_regions (map (chunk_row ns chunk) [0..<k]) = start_sums 0 (row_of (\<lambda>s. shard_count ns s 0 (length ns)))"
    by (simp add: shard_regions_def replicate_row_of sum_rows assms)
  show "length (shard_regions (map (chunk_row ns chunk) [0..<k])) = Suc SHARD_COUNT" by (simp add: eq)
  assume s: "s \<le> SHARD_COUNT"
  have "take s (row_of f) = map f [0..<s]" for f :: "nat \<Rightarrow> nat" using s by (simp add: row_of_def take_map)
  then show "shard_regions (map (chunk_row ns chunk) [0..<k]) ! s = region_at ns s"
    using s by (simp add: eq start_sums_nth region_at_def interv_sum_list_conv_sum_set_nat atLeast0LessThan)
qed

lemma cursor_rows_chunks: "cursor_rows (cursor_at ns (cut_at chunk (length ns) a)) (map (chunk_row ns chunk) [a..<a + k]) =
    map (\<lambda>c. cursor_at ns (cut_at chunk (length ns) c)) [a..<a + k]"
proof (induction k arbitrary: a)
  case (Suc k)
  have "add_rows (cursor_at ns (cut_at chunk (length ns) a)) (chunk_row ns chunk a) = cursor_at ns (cut_at chunk (length ns) (Suc a))"
    using shard_count_add [of 0 "cut_at chunk (length ns) a" "cut_at chunk (length ns) (Suc a)" ns]
    by (simp add: cursor_at_def chunk_row_def add_rows_row_of cut_at_mono add.assoc)
  moreover have "[a..<a + Suc k] = a # [Suc a..<Suc a + k]" by (simp add: upt_conv_Cons)
  ultimately show ?case using Suc [of "Suc a"] by simp
qed simp

lemma scatter_chunks_range:
  "scatter_chunks (put_entries ns entries [0..<cut_at chunk (length ns) a])
      (map (\<lambda>c. indexed ns (cut_at chunk (length ns) c) (cut_at chunk (length ns) (Suc c))) [a..<a + k])
      (map (\<lambda>c. cursor_at ns (cut_at chunk (length ns) c)) [a..<a + k]) =
    (put_entries ns entries [0..<cut_at chunk (length ns) (a + k)], map (\<lambda>c. cursor_at ns (cut_at chunk (length ns) (Suc c))) [a..<a + k])"
proof (induction k arbitrary: a)
  case (Suc k)
  let ?a = "cut_at chunk (length ns) a" and ?b = "cut_at chunk (length ns) (Suc a)"
  have "[0..<?b] = [0..<?a] @ [?a..<?b]" using upt_add_eq_append [of 0 ?a "?b - ?a"] cut_at_mono(1) [of chunk "length ns" a] by simp
  then have "put_entries ns (put_entries ns entries [0..<?a]) [?a..<?b] = put_entries ns entries [0..<?b]" by (simp add: put_entries_def)
  moreover have "[a..<a + Suc k] = a # [Suc a..<Suc a + k]" by (simp add: upt_conv_Cons)
  ultimately show ?case using Suc [of "Suc a"] scatter_range [OF cut_at_mono(1) [of chunk "length ns" a], of "put_entries ns entries [0..<?a]" ns]
    by simp
qed simp

text \<open>What the first pass leaves: the regions, the entries and the cursors after each chunk.\<close>

definition chunk_names :: "symbol_name list \<Rightarrow> usize \<Rightarrow> usize \<Rightarrow> (usize \<times> symbol_name) list list" where
  "chunk_names ns chunk k = map (\<lambda>c. indexed ns (cut_at chunk (length ns) c) (cut_at chunk (length ns) (Suc c))) [0..<k]"

definition chunk_cursors :: "symbol_name list \<Rightarrow> usize \<Rightarrow> usize \<Rightarrow> usize list list" where
  "chunk_cursors ns chunk k = map (\<lambda>c. cursor_at ns (cut_at chunk (length ns) (Suc c))) [0..<k]"

definition sorted_entries :: "symbol_name list \<Rightarrow> u64 list" where
  "sorted_entries ns = put_entries ns (replicate (length ns) 0) [0..<length ns]"

lemma chunk_rows: "map count_row (chunk_names ns chunk k) = map (chunk_row ns chunk) [0..<k]"
  by (simp add: chunk_names_def count_chunk)

lemma regions_take:
  assumes "cut_at chunk (length ns) k = length ns"
  shows "take SHARD_COUNT (shard_regions (map (chunk_row ns chunk) [0..<k])) = cursor_at ns 0"
  by (rule nth_equalityI) (simp_all add: regions_chunks [OF assms] cursor_at_0)

lemma partition_pass:
  assumes "cut_at chunk (length ns) k = length ns"
  shows "scatter_chunks (replicate (length ns) 0) (chunk_names ns chunk k)
      (cursor_rows (take SHARD_COUNT (shard_regions (map (chunk_row ns chunk) [0..<k]))) (map (chunk_row ns chunk) [0..<k])) =
    (sorted_entries ns, chunk_cursors ns chunk k)"
  using cursor_rows_chunks [of ns chunk 0 k] scatter_chunks_range [of ns "replicate (length ns) 0" chunk 0 k] assms
  by (simp add: regions_take chunk_names_def chunk_cursors_def sorted_entries_def put_entries_def)

lemma first_cursors_chunk:
  assumes "cut_at chunk (length ns) k = length ns" "c < k"
  shows "first_cursors (shard_regions (map (chunk_row ns chunk) [0..<k])) (chunk_cursors ns chunk k) c = cursor_at ns (cut_at chunk (length ns) c)"
  using assms by (cases c) (simp_all add: first_cursors_def regions_take chunk_cursors_def)

lemma sorted_entries_nth: "g < length ns \<Longrightarrow> sorted_entries ns ! entry_pos ns g = entry_word g (ns ! g)" "length (sorted_entries ns) = length ns"
  using put_entries_nth [of "replicate (length ns) 0" ns "[0..<length ns]"] by (simp_all add: sorted_entries_def lessThan_atLeast0)

end
