(* ===== verification/SymbolPasses.thy ===== *)
theory SymbolPasses
  imports SymbolTableRep
begin

text \<open>
  The three passes of a batch (src/src/symbols/table.rs): whatever the order in which the threads make
  the lookups of the first pass, the batch ends in the table that a loop over the names by first
  occurrence makes.
\<close>

section \<open>Provisional handles\<close>

definition handle :: "nat \<Rightarrow> u32" where
  "handle l = PENDING OR of_nat l"

lemma unat_handle: "l < MAX_SYMBOLS \<Longrightarrow> unat (handle l) = 2 ^ 31 + l"
proof -
  assume l: "l < MAX_SYMBOLS"
  then have "\<not> bit (of_nat l :: u32) 31" using final_id by (simp add: final_value)
  then have "PENDING AND of_nat l = 0" by (intro bit_word_eqI) (auto simp: bit_simps bit_PENDING)
  then have "handle l = PENDING + of_nat l" using disjunctive_add_eq_or [of PENDING "of_nat l"] by (simp add: handle_def)
  moreover have "unat (PENDING + of_nat l) = unat PENDING + unat (of_nat l :: u32)"
    by (rule unat_add_lem [THEN iffD1]) (use l in \<open>simp add: unat_PENDING unat_of_id MAX_SYMBOLS_eq\<close>)
  ultimately show ?thesis using l by (simp add: unat_PENDING unat_of_id)
qed

lemma handle_pending: "handle l AND PENDING \<noteq> 0"
proof
  assume "handle l AND PENDING = 0"
  then have "\<not> bit (handle l) 31" by (rule final_value [THEN iffD1])
  then show False by (simp add: handle_def bit_or_iff bit_PENDING)
qed

lemma handle_local: "l < MAX_SYMBOLS \<Longrightarrow> handle l AND NOT PENDING = of_nat l"
proof -
  assume "l < MAX_SYMBOLS"
  then have no: "\<not> bit (of_nat l :: u32) 31" using final_id by (simp add: final_value)
  show ?thesis by (rule bit_word_eqI) (use no in \<open>auto simp: handle_def bit_simps bit_PENDING\<close>)
qed

lemma handle_inj: "k < MAX_SYMBOLS \<Longrightarrow> l < MAX_SYMBOLS \<Longrightarrow> handle k = handle l \<longleftrightarrow> k = l"
  by (metis add_left_cancel unat_handle)

section \<open>Pass 1\<close>

text \<open>The names that are pending in a shard, and the map that the tables hold.\<close>

definition pending_in :: "'t symbol_table \<Rightarrow> usize \<Rightarrow> symbol_name list" where
  "pending_in st s = map pn_name (sh_pending (st_shards st ! s))"

definition slot_map :: "symbol_name list \<Rightarrow> (usize \<Rightarrow> symbol_name list) \<Rightarrow> symbol_name \<rightharpoonup> u32" where
  "slot_map names pend n =
     (case name_ids names n of Some v \<Rightarrow> Some v | None \<Rightarrow> map_option handle (position (\<lambda>x. x = n) (pend (name_shard n))))"

definition pend_ok :: "symbol_name list \<Rightarrow> (usize \<Rightarrow> symbol_name list) \<Rightarrow> bool" where
  "pend_ok names pend \<longleftrightarrow> (\<forall>s<SHARD_COUNT. distinct (pend s) \<and> length (pend s) \<le> MAX_SYMBOLS \<and> (\<forall>n\<in>set (pend s). name_shard n = s \<and> n \<notin> set names))"

definition pass_inv :: "('t \<Rightarrow> symbol_slot multiset) \<Rightarrow> 't symbol_table \<Rightarrow> bool" where
  "pass_inv elems st \<longleftrightarrow> tables_rep elems (st_shards st) (slot_map (st_names st) (pending_in st)) \<and>
     distinct (st_names st) \<and> length (st_names st) \<le> MAX_SYMBOLS \<and> pend_ok (st_names st) (pending_in st) \<and>
     (\<forall>shard\<in>set (st_shards st). sh_assigned shard = [])"

lemma pend_okD:
  assumes "pend_ok names pend" "s < SHARD_COUNT"
  shows "distinct (pend s)" "length (pend s) \<le> MAX_SYMBOLS" "n \<in> set (pend s) \<Longrightarrow> name_shard n = s" "n \<in> set (pend s) \<Longrightarrow> n \<notin> set names"
  using assms by (auto simp: pend_ok_def)

lemma position_eq_Some: "distinct xs \<Longrightarrow> position (\<lambda>x. x = n) xs = Some l \<longleftrightarrow> l < length xs \<and> xs ! l = n"
  by (auto simp: position_Some nth_eq_iff_index_eq)

lemma slot_map_cases:
  assumes "pend_ok names pend" "slot_map names pend n = Some v"
  obtains (known) "name_ids names n = Some v" | (pend) l where "n \<notin> set names" "v = handle l" "l < length (pend (name_shard n))"
    "pend (name_shard n) ! l = n" "l < MAX_SYMBOLS"
proof (cases "name_ids names n")
  case None
  with assms(2) obtain l where l: "position (\<lambda>x. x = n) (pend (name_shard n)) = Some l" "v = handle l"
    by (auto simp: slot_map_def)
  then show ?thesis using None pend_okD [OF assms(1) name_shard_less] position_eq_Some [of "pend (name_shard n)"]
    by (intro that(2) [of l]) (auto simp: name_ids_None intro: order_less_le_trans)
qed (use assms that(1) in \<open>simp add: slot_map_def\<close>)

lemma pending_is_iff:
  assumes ok: "pend_ok (st_names st) (pending_in st)" and names: "distinct (st_names st)" "length (st_names st) \<le> MAX_SYMBOLS"
    and n: "slot_map (st_names st) (pending_in st) n = Some v" "name_shard n = s"
  shows "pending_is (st_names st) (sh_pending (st_shards st ! s)) v name \<longleftrightarrow> n = name"
  using ok n(1)
proof (cases rule: slot_map_cases)
  case known
  then have "v AND PENDING = 0" using names by (auto simp: name_ids_iff final_iff)
  then show ?thesis using known names by (simp add: pending_is_def is_named_iff)
next
  case (pend l)
  then show ?thesis
    using n(2) by (simp add: pending_is_def handle_pending handle_local is_named_def unat_of_id pending_in_def get_nth_def)
qed

lemma slot_map_None: "pend_ok names pend \<Longrightarrow> slot_map names pend n = None \<longleftrightarrow> n \<notin> set names \<and> n \<notin> set (pend (name_shard n))"
  by (auto simp: slot_map_def name_ids_None position_None split: option.splits) (metis name_ids_None option.distinct(1))

lemma slot_map_inj:
  assumes ok: "pend_ok names pend" and names: "distinct names" "length names \<le> MAX_SYMBOLS"
  shows "shard_inj (slot_map names pend) s"
  unfolding shard_inj_def
proof (intro allI impI, elim conjE)
  fix a b v
  assume a: "slot_map names pend a = Some v" "name_shard a = s" and b: "slot_map names pend b = Some v" "name_shard b = s"
  from ok a(1) show "a = b"
  proof (cases rule: slot_map_cases)
    case av: known
    from ok b(1) show ?thesis
    proof (cases rule: slot_map_cases)
      case known
      then show ?thesis using av names by (auto simp: name_ids_iff)
    next
      case (pend l)
      then show ?thesis using av names handle_pending [of l] by (auto simp: name_ids_iff final_iff)
    qed
  next
    case av: (pend l)
    from ok b(1) show ?thesis
    proof (cases rule: slot_map_cases)
      case known
      then show ?thesis using av names handle_pending [of l] by (auto simp: name_ids_iff final_iff)
    next
      case (pend k)
      then show ?thesis using av a b by (simp add: handle_inj)
    qed
  qed
qed

lemma slot_map_snoc:
  assumes "name \<notin> set names" "name \<notin> set (pend (name_shard name))"
  shows "slot_map names (pend(name_shard name := pend (name_shard name) @ [name])) = (slot_map names pend)(name \<mapsto> handle (length (pend (name_shard name))))"
proof (rule ext)
  fix n
  have no: "position (\<lambda>x. x = name) (pend (name_shard name)) = None" "name_ids names name = None"
    using assms by (auto simp: position_None name_ids_None)
  show "slot_map names (pend(name_shard name := pend (name_shard name) @ [name])) n =
      ((slot_map names pend)(name \<mapsto> handle (length (pend (name_shard name))))) n"
    using no by (cases "n = name") (simp_all add: slot_map_def position_append position_single split: option.splits)
qed

lemma lookup_find:
  assumes laws: "hash_table_laws ht slot_hash elems" and inv: "pass_inv elems st"
  shows "ht_find ht (sh_table (st_shards st ! name_shard name)) (name_hash name) (\<lambda>slot. slt_h32 slot = low32 (sn_hash name) \<and>
      pending_is (st_names st) (sh_pending (st_shards st ! name_shard name)) (slt_value slot) name) =
    map_option (slot_of name) (slot_map (st_names st) (pending_in st) name)"
  by (rule shard_find_name [OF laws tables_rep_shard refl])
    (use inv in \<open>auto simp: pass_inv_def intro: pending_is_iff [THEN iffD1] pending_is_iff [THEN iffD2]\<close>)

lemma pass_shards: "pass_inv elems st \<Longrightarrow> length (st_shards st) = SHARD_COUNT"
  by (simp add: pass_inv_def tables_rep_def)

lemma lookup_known:
  assumes laws: "hash_table_laws ht slot_hash elems" and inv: "pass_inv elems st" and n: "name \<in> set (st_names st)"
  shows "lookup_or_pend ht name occ (ov, st) = (id_in (st_names st) name, ov, st)"
proof -
  from n obtain v where v: "name_ids (st_names st) name = Some v" using name_ids_None by fastforce
  then have "v AND PENDING = 0" using inv by (auto simp: pass_inv_def name_ids_iff final_iff)
  then show ?thesis using lookup_find [OF laws inv, of name] v
    by (simp add: lookup_or_pend_def Let_def slot_map_def id_in_def)
qed

definition note_in :: "occurrence \<Rightarrow> symbol_name \<Rightarrow> pending_name list \<Rightarrow> pending_name list" where
  "note_in occ name pending = map (\<lambda>record. if pn_name record = name then note_occurrence occ record else record) pending"

lemma note_in_update:
  assumes "distinct (map pn_name pending)" "l < length pending" "pn_name (pending ! l) = name"
  shows "pending[l := note_occurrence occ (pending ! l)] = note_in occ name pending"
proof (rule nth_equalityI)
  fix k assume "k < length (pending[l := note_occurrence occ (pending ! l)])"
  then show "pending[l := note_occurrence occ (pending ! l)] ! k = note_in occ name pending ! k"
    using assms nth_eq_iff_index_eq [OF assms(1), of k l] by (auto simp: note_in_def nth_list_update)
qed (simp add: note_in_def)

lemma note_in_names [simp]: "map pn_name (note_in occ name pending) = map pn_name pending"
  by (simp add: note_in_def note_occurrence_def comp_def if_distrib [of pn_name])

lemma all_set_update: "\<forall>x\<in>set xs. P x \<Longrightarrow> P y \<Longrightarrow> \<forall>x\<in>set (xs[i := y]). P x"
  using set_update_subset_insert [of xs i y] by blast

lemma assigned_update:
  "\<forall>shard\<in>set shards. sh_assigned shard = [] \<Longrightarrow> shards' = shards[s := shard'] \<Longrightarrow> sh_assigned shard' = [] \<Longrightarrow>
    \<forall>shard\<in>set shards'. sh_assigned shard = []"
  by (erule ssubst) (rule all_set_update)

lemma pass_assigned: "pass_inv elems st \<Longrightarrow> sh_assigned (st_shards st ! name_shard n) = []"
  using pass_shards [of elems st] by (simp add: pass_inv_def)

lemma lookup_pending:
  assumes laws: "hash_table_laws ht slot_hash elems" and inv: "pass_inv elems st"
    and n: "name \<in> set (pending_in st (name_shard name))" and s: "s = name_shard name"
    and st': "st' = st\<lparr>st_shards := (st_shards st)[s := (st_shards st ! s)\<lparr>sh_pending := note_in occ name (sh_pending (st_shards st ! s))\<rparr>]\<rparr>"
  shows "lookup_or_pend ht name occ (ov, st) = (the (slot_map (st_names st) (pending_in st) name), ov, st')"
    "pass_inv elems st'" "pending_in st' = pending_in st"
proof -
  have ok: "pend_ok (st_names st) (pending_in st)" using inv by (simp add: pass_inv_def)
  from n slot_map_None [OF ok, of name] obtain v where v: "slot_map (st_names st) (pending_in st) name = Some v" by auto
  from ok v obtain l where l: "v = handle l" "l < length (pending_in st s)" "pending_in st s ! l = name" "l < MAX_SYMBOLS"
    using pend_okD(4) [OF ok name_shard_less n] name_ids_None [of "st_names st" name] by (cases rule: slot_map_cases) (auto simp: s)
  have "distinct (pending_in st s)" using pend_okD(1) [OF ok] by (simp add: s)
  then have "(sh_pending (st_shards st ! s))[l := note_occurrence occ (sh_pending (st_shards st ! s) ! l)] = note_in occ name (sh_pending (st_shards st ! s))"
    using l by (intro note_in_update) (simp_all add: pending_in_def)
  then show "lookup_or_pend ht name occ (ov, st) = (the (slot_map (st_names st) (pending_in st) name), ov, st')"
    using lookup_find [OF laws inv, of name] l
    by (simp add: lookup_or_pend_def Let_def v handle_pending handle_local unat_of_id st' s)
  show same: "pending_in st' = pending_in st"
    by (rule ext) (use pass_shards [OF inv] in \<open>simp add: pending_in_def st' nth_list_update s\<close>)
  have "\<forall>shard\<in>set (st_shards st). sh_assigned shard = []" using inv by (simp add: pass_inv_def)
  then have "\<forall>shard\<in>set (st_shards st'). sh_assigned shard = []"
    by (rule assigned_update [of _ _ s "st_shards st' ! s"]) (simp_all add: st' s pass_shards [OF inv] pass_assigned [OF inv])
  then show "pass_inv elems st'" using inv by (auto simp: pass_inv_def same) (simp_all add: st' tables_rep_same)
qed

lemma lookup_new:
  assumes laws: "hash_table_laws ht slot_hash elems" and inv: "pass_inv elems st" and s: "s = name_shard name"
    and n: "name \<notin> set (st_names st)" "name \<notin> set (pending_in st s)" and room: "length (pending_in st s) < MAX_SYMBOLS"
    and st': "st' = st\<lparr>st_shards := (st_shards st)[s := (st_shards st ! s)
      \<lparr>sh_table := ht_insert ht (sh_table (st_shards st ! s)) (name_hash name) (slot_of name (handle (length (pending_in st s)))),
       sh_pending := sh_pending (st_shards st ! s) @ [\<lparr>pn_name = name, pn_first = occ\<rparr>]\<rparr>]\<rparr>"
  shows "lookup_or_pend ht name occ (ov, st) = (handle (length (pending_in st s)), ov, st')"
    "pass_inv elems st'" "pending_in st' = (pending_in st)(s := pending_in st s @ [name])"
proof -
  let ?pend = "pending_in st"
  have invs: "tables_rep elems (st_shards st) (slot_map (st_names st) ?pend)" "distinct (st_names st)" "length (st_names st) \<le> MAX_SYMBOLS"
    "pend_ok (st_names st) ?pend" using inv by (simp_all add: pass_inv_def)
  have none: "slot_map (st_names st) ?pend name = None" using n by (simp add: slot_map_None [OF invs(4)] s)
  have len: "length (sh_pending (st_shards st ! s)) = length (?pend s)" by (simp add: pending_in_def)
  have "length (?pend s) \<le> u32_max" "(of_nat (length (?pend s)) :: u32) < PENDING"
    using room by (simp_all add: word_less_nat_alt unat_of_id unat_PENDING MAX_SYMBOLS_eq)
  then show "lookup_or_pend ht name occ (ov, st) = (handle (length (?pend s)), ov, st')"
    using lookup_find [OF laws inv, of name] none len
    by (simp add: lookup_or_pend_def Let_def u32_try_from_def st' s slot_of_raw flip: handle_def)
  show pend': "pending_in st' = ?pend(s := ?pend s @ [name])"
    by (rule ext) (use pass_shards [OF inv] in \<open>simp add: pending_in_def st' nth_list_update s\<close>)
  have fresh: False if "slot_map (st_names st) ?pend m = Some (handle (length (?pend s)))" "name_shard m = s" for m
    using invs(4) that(1)
  proof (cases rule: slot_map_cases)
    case known
    then show False using invs handle_pending [of "length (?pend s)"] by (auto simp: name_ids_iff final_iff)
  next
    case (pend l)
    then show False using that(2) room by (simp add: handle_inj)
  qed
  have map: "slot_map (st_names st) (pending_in st') = (slot_map (st_names st) ?pend)(name \<mapsto> handle (length (?pend s)))"
    unfolding pend' using slot_map_snoc [of name "st_names st" ?pend] n s by simp
  have "shard_rep elems (sh_table (st_shards st' ! s)) (slot_map (st_names st) (pending_in st')) s"
    using shard_rep_insert [OF laws tables_rep_shard [OF invs(1)] none refl fresh] pass_shards [OF inv]
    unfolding map by (simp add: st' s)
  then have "tables_rep elems (st_shards st') (slot_map (st_names st) (pending_in st'))"
    using tables_rep_upd [OF invs(1), of "st_shards st' ! s" name] pass_shards [OF inv] unfolding map by (simp add: st' s)
  moreover have "pend_ok (st_names st) (pending_in st')"
    using invs(4) n room pend_okD(4) [OF invs(4), of s] by (auto simp: pend_ok_def pend' s)
  moreover have "\<forall>shard\<in>set (st_shards st). sh_assigned shard = []" using inv by (simp add: pass_inv_def)
  then have "\<forall>shard\<in>set (st_shards st'). sh_assigned shard = []"
    by (rule assigned_update [of _ _ s "st_shards st' ! s"]) (simp_all add: st' s pass_shards [OF inv] pass_assigned [OF inv])
  ultimately show "pass_inv elems st'" using invs by (simp add: pass_inv_def) (simp add: st')
qed

lemma lookup_full:
  assumes laws: "hash_table_laws ht slot_hash elems" and inv: "pass_inv elems st"
    and n: "name \<notin> set (st_names st)" "name \<notin> set (pending_in st (name_shard name))" and full: "\<not> length (pending_in st (name_shard name)) < MAX_SYMBOLS"
  shows "lookup_or_pend ht name occ (ov, st) = (- 1, True, st)"
proof -
  have ok: "pend_ok (st_names st) (pending_in st)" using inv by (simp add: pass_inv_def)
  have none: "slot_map (st_names st) (pending_in st) name = None" using n by (simp add: slot_map_None [OF ok])
  have "length (sh_pending (st_shards st ! name_shard name)) = MAX_SYMBOLS"
    using full pend_okD(2) [OF ok name_shard_less, of "sn_hash name"] by (simp add: pending_in_def)
  moreover have "\<not> (of_nat MAX_SYMBOLS :: u32) < PENDING" by (simp add: MAX_SYMBOLS_def)
  ultimately show ?thesis using lookup_find [OF laws inv, of name] none
    by (simp add: lookup_or_pend_def Let_def u32_try_from_def MAX_SYMBOLS_eq)
qed

section \<open>Pass 1 over a schedule\<close>

definition occ_name :: "intern_job list \<Rightarrow> usize \<times> usize \<Rightarrow> symbol_name" where
  "occ_name jobs = (\<lambda>(j, i). ij_names (jobs ! j) ! i)"

definition occ_key :: "intern_job list \<Rightarrow> usize \<times> usize \<Rightarrow> occurrence" where
  "occ_key jobs = (\<lambda>(j, i). (ij_position (jobs ! j), case u32_try_from i of None \<Rightarrow> - 1 | Some index \<Rightarrow> index))"

definition occ_id :: "intern_job list \<Rightarrow> usize \<times> usize \<Rightarrow> symbol_id" where
  "occ_id jobs = (\<lambda>(j, i). ij_ids (jobs ! j) ! i)"

definition first_occ :: "intern_job list \<Rightarrow> (usize \<times> usize) set \<Rightarrow> symbol_name \<Rightarrow> occurrence" where
  "first_occ jobs seen n = Min (occ_key jobs ` {oc \<in> seen. occ_name jobs oc = n})"

text \<open>Jobs that differ in their ids only.\<close>

definition same_jobs :: "intern_job list \<Rightarrow> intern_job list \<Rightarrow> bool" where
  "same_jobs jobs jobs' \<longleftrightarrow> length jobs' = length jobs \<and> (\<forall>j<length jobs. ij_names (jobs' ! j) = ij_names (jobs ! j) \<and>
     ij_position (jobs' ! j) = ij_position (jobs ! j) \<and> length (ij_ids (jobs' ! j)) = length (ij_ids (jobs ! j)))"

definition seen_inv :: "('t \<Rightarrow> symbol_slot multiset) \<Rightarrow> 't symbol_table \<Rightarrow> intern_job list \<Rightarrow> (usize \<times> usize) set \<Rightarrow>
    bool \<Rightarrow> 't symbol_table \<Rightarrow> bool" where
  "seen_inv elems st0 jobs seen ov st \<longleftrightarrow> pass_inv elems st \<and> grown st0 [] st \<and> finite seen \<and>
     (\<forall>s<SHARD_COUNT. set (pending_in st s) \<subseteq> occ_name jobs ` seen) \<and>
     (if ov then MAX_SYMBOLS < card (occ_name jobs ` seen - set (st_names st0)) \<and> (\<exists>s<SHARD_COUNT. pending_in st s \<noteq> [])
      else (\<forall>n\<in>occ_name jobs ` seen - set (st_names st0). n \<in> set (pending_in st (name_shard n))) \<and>
        (\<forall>s<SHARD_COUNT. \<forall>record\<in>set (sh_pending (st_shards st ! s)). pn_first record = first_occ jobs seen (pn_name record)))"

definition ids_inv :: "'t symbol_table \<Rightarrow> intern_job list \<Rightarrow> (usize \<times> usize) set \<Rightarrow> intern_job list \<Rightarrow> bool" where
  "ids_inv st jobs seen jobs1 \<longleftrightarrow>
     (\<forall>oc\<in>seen. occ_id jobs1 oc = the (slot_map (st_names st) (pending_in st) (occ_name jobs oc)))"

lemma first_occ_other: "occ_name jobs oc \<noteq> n \<Longrightarrow> first_occ jobs (insert oc seen) n = first_occ jobs seen n"
  by (auto simp: first_occ_def intro!: arg_cong [of _ _ Min])

lemma first_occ_again:
  assumes "finite seen" "occ_name jobs oc \<in> occ_name jobs ` seen"
  shows "first_occ jobs (insert oc seen) (occ_name jobs oc) = min (occ_key jobs oc) (first_occ jobs seen (occ_name jobs oc))"
proof -
  let ?S = "occ_key jobs ` {o' \<in> seen. occ_name jobs o' = occ_name jobs oc}"
  have "occ_key jobs ` {o' \<in> insert oc seen. occ_name jobs o' = occ_name jobs oc} = insert (occ_key jobs oc) ?S" by auto
  moreover from assms(2) obtain o' where "o' \<in> seen" "occ_name jobs o' = occ_name jobs oc" by (metis imageE)
  then have "?S \<noteq> {}" by blast
  ultimately show ?thesis using assms(1) by (simp add: first_occ_def)
qed

lemma first_occ_new: "occ_name jobs oc \<notin> occ_name jobs ` seen \<Longrightarrow> first_occ jobs (insert oc seen) (occ_name jobs oc) = occ_key jobs oc"
proof -
  assume "occ_name jobs oc \<notin> occ_name jobs ` seen"
  then have "o' = oc" if "o' \<in> insert oc seen" "occ_name jobs o' = occ_name jobs oc" for o' using that by (metis imageI insertE)
  then have "{o' \<in> insert oc seen. occ_name jobs o' = occ_name jobs oc} = {oc}" by blast
  then show ?thesis by (simp add: first_occ_def)
qed

lemma note_occurrence_min: "note_occurrence occ record = record\<lparr>pn_first := min occ (pn_first record)\<rparr>"
  by (simp add: note_occurrence_def min_def)

lemma seen_known:
  assumes inv: "seen_inv elems st0 jobs seen ov st" and n: "occ_name jobs oc \<in> set (st_names st0)"
  shows "seen_inv elems st0 jobs (insert oc seen) ov st"
proof -
  let ?n = "occ_name jobs oc"
  have eq: "occ_name jobs ` insert oc seen - set (st_names st0) = occ_name jobs ` seen - set (st_names st0)" using n by auto
  have pass: "pass_inv elems st" and names: "st_names st = st_names st0" using inv grownD(1) [of st0 "[]" st] by (simp_all add: seen_inv_def)
  have no: "pn_name rc \<noteq> ?n" if "s < SHARD_COUNT" "rc \<in> set (sh_pending (st_shards st ! s))" for s rc
    using that n pass pend_okD(4) [of "st_names st" "pending_in st" s "pn_name rc"] names by (auto simp: pass_inv_def pending_in_def)
  have "first_occ jobs (insert oc seen) (pn_name rc) = first_occ jobs seen (pn_name rc)"
      if "s < SHARD_COUNT" "rc \<in> set (sh_pending (st_shards st ! s))" for s rc
    using no [OF that] by (intro first_occ_other) auto
  then show ?thesis using inv unfolding seen_inv_def eq by auto
qed

text \<open>After an overflow the shards keep their names, whatever is looked up.\<close>

lemma card_seen_mono: "finite seen \<Longrightarrow> k < card (occ_name jobs ` seen - A) \<Longrightarrow> k < card (occ_name jobs ` insert oc seen - A)"
  by (rule less_le_trans, assumption, rule card_mono) auto

lemma seen_step_pending:
  assumes laws: "hash_table_laws ht slot_hash elems" and inv: "seen_inv elems st0 jobs seen ov st"
    and n: "name = occ_name jobs oc" "name \<in> set (pending_in st (name_shard name))"
  obtains st' where "lookup_or_pend ht name (occ_key jobs oc) (ov, st) = (the (slot_map (st_names st) (pending_in st) name), ov, st')"
    "seen_inv elems st0 jobs (insert oc seen) ov st'" "pending_in st' = pending_in st"
proof -
  let ?s = "name_shard name"
  let ?pend = "sh_pending (st_shards st ! ?s)"
  let ?st = "st\<lparr>st_shards := (st_shards st)[?s := (st_shards st ! ?s)\<lparr>sh_pending := note_in (occ_key jobs oc) name ?pend\<rparr>]\<rparr>"
  have pass: "pass_inv elems st" and grown: "grown st0 [] st" and fin: "finite seen" using inv by (simp_all add: seen_inv_def)
  note step = lookup_pending [OF laws pass n(2) refl refl]
  have "set (pending_in st ?s) \<subseteq> occ_name jobs ` seen" using inv by (simp add: seen_inv_def)
  then have seen: "name \<in> occ_name jobs ` seen" using n(2) by blast
  have same: "occ_name jobs ` insert oc seen = occ_name jobs ` seen" using seen n(1) by auto
  have first: "pn_first rc = first_occ jobs (insert oc seen) (pn_name rc)"
    if old: "\<forall>s<SHARD_COUNT. \<forall>rc\<in>set (sh_pending (st_shards st ! s)). pn_first rc = first_occ jobs seen (pn_name rc)"
      and s: "s < SHARD_COUNT" and rc: "rc \<in> set (sh_pending (st_shards ?st ! s))" for s rc
  proof (cases "s = ?s")
    case True
    then obtain rc0 where rc0: "rc0 \<in> set ?pend" "rc = (if pn_name rc0 = name then note_occurrence (occ_key jobs oc) rc0 else rc0)"
      using rc pass_shards [OF pass] by (auto simp: note_in_def)
    then have old0: "pn_first rc0 = first_occ jobs seen (pn_name rc0)" using old s True by blast
    show ?thesis
    proof (cases "pn_name rc0 = name")
      case True
      then show ?thesis using rc0 old0 first_occ_again [OF fin, of jobs oc] seen n(1) by (simp add: note_occurrence_min)
    next
      case False
      then show ?thesis using rc0 old0 first_occ_other [of jobs oc "pn_name rc0" seen] n(1) by auto
    qed
  next
    case False
    have "pn_name rc \<noteq> name"
      using rc s False pass pend_okD(3) [of "st_names st" "pending_in st" s "pn_name rc"] by (auto simp: pass_inv_def pending_in_def)
    then have "first_occ jobs (insert oc seen) (pn_name rc) = first_occ jobs seen (pn_name rc)" using n(1) by (intro first_occ_other) auto
    then show ?thesis using rc False s old by auto
  qed
  have "grown st0 [] ?st" by (rule grownI) (simp_all add: grownD [OF grown])
  then have "seen_inv elems st0 jobs (insert oc seen) ov ?st"
    using inv step(2,3) fin first unfolding seen_inv_def same by (auto split: if_splits)
  then show ?thesis using step by (intro that [of ?st]) simp_all
qed

lemma seen_step_new:
  assumes laws: "hash_table_laws ht slot_hash elems" and inv: "seen_inv elems st0 jobs seen ov st"
    and n: "name = occ_name jobs oc" "name \<notin> set (st_names st)" "name \<notin> set (pending_in st (name_shard name))"
    and room: "length (pending_in st (name_shard name)) < MAX_SYMBOLS"
  obtains st' where "lookup_or_pend ht name (occ_key jobs oc) (ov, st) = (handle (length (pending_in st (name_shard name))), ov, st')"
    "seen_inv elems st0 jobs (insert oc seen) ov st'"
    "slot_map (st_names st') (pending_in st') = (slot_map (st_names st) (pending_in st))(name \<mapsto> handle (length (pending_in st (name_shard name))))"
proof -
  let ?s = "name_shard name"
  let ?st = "st\<lparr>st_shards := (st_shards st)[?s := (st_shards st ! ?s)
      \<lparr>sh_table := ht_insert ht (sh_table (st_shards st ! ?s)) (name_hash name) (slot_of name (handle (length (pending_in st ?s)))),
       sh_pending := sh_pending (st_shards st ! ?s) @ [\<lparr>pn_name = name, pn_first = occ_key jobs oc\<rparr>]\<rparr>]\<rparr>"
  have pass: "pass_inv elems st" and grown: "grown st0 [] st" and fin: "finite seen" using inv by (simp_all add: seen_inv_def)
  note step = lookup_new [OF laws pass refl n(2,3) room refl]
  have names: "st_names st0 = st_names st" using grownD(1) [OF grown] by simp
  have first: "pn_first rc = first_occ jobs (insert oc seen) (pn_name rc)"
    if old: "\<forall>s<SHARD_COUNT. \<forall>rc\<in>set (sh_pending (st_shards st ! s)). pn_first rc = first_occ jobs seen (pn_name rc)"
      and all: "\<forall>n\<in>occ_name jobs ` seen - set (st_names st0). n \<in> set (pending_in st (name_shard n))"
      and s: "s < SHARD_COUNT" and rc: "rc \<in> set (sh_pending (st_shards ?st ! s))" for s rc
  proof (cases "rc \<in> set (sh_pending (st_shards st ! s))")
    case True
    then have "pn_name rc \<noteq> name" using n(3) s pass pend_okD(3) [of "st_names st" "pending_in st" s "pn_name rc"]
      by (auto simp: pass_inv_def pending_in_def)
    then have "first_occ jobs (insert oc seen) (pn_name rc) = first_occ jobs seen (pn_name rc)" using n(1) by (intro first_occ_other) auto
    then show ?thesis using True old s by auto
  next
    case False
    then have "rc = \<lparr>pn_name = name, pn_first = occ_key jobs oc\<rparr>"
      using rc pass_shards [OF pass] by (cases "s = ?s") auto
    moreover have "name \<notin> occ_name jobs ` seen" using all n by (auto simp: names)
    ultimately show ?thesis using n(1) first_occ_new [of jobs oc seen] by simp
  qed
  have sub0: "\<forall>s<SHARD_COUNT. set (pending_in st s) \<subseteq> occ_name jobs ` seen" using inv by (simp add: seen_inv_def)
  have sub: "\<forall>s<SHARD_COUNT. set (pending_in ?st s) \<subseteq> occ_name jobs ` insert oc seen"
  proof (intro allI impI)
    fix s assume "s < SHARD_COUNT"
    with sub0 have "set (pending_in st s) \<subseteq> occ_name jobs ` seen" by blast
    then show "set (pending_in ?st s) \<subseteq> occ_name jobs ` insert oc seen" unfolding step(3) using n(1) by (cases "s = ?s") auto
  qed
  have all: "\<forall>m\<in>occ_name jobs ` insert oc seen - set (st_names st0). m \<in> set (pending_in ?st (name_shard m))"
    if "\<forall>m\<in>occ_name jobs ` seen - set (st_names st0). m \<in> set (pending_in st (name_shard m))"
  proof
    fix m assume m: "m \<in> occ_name jobs ` insert oc seen - set (st_names st0)"
    show "m \<in> set (pending_in ?st (name_shard m))"
    proof (cases "m = name")
      case False
      with m n(1) have "m \<in> occ_name jobs ` seen - set (st_names st0)" by blast
      with that have "m \<in> set (pending_in st (name_shard m))" by blast
      then show ?thesis unfolding step(3) by (cases "name_shard m = ?s") simp_all
    qed (simp only: step(3), simp)
  qed
  have "\<exists>s<SHARD_COUNT. pending_in ?st s \<noteq> []" by (rule exI [of _ ?s]) (simp only: step(3), simp)
  moreover have "grown st0 [] ?st" by (rule grownI) (simp_all add: grownD [OF grown])
  ultimately have "seen_inv elems st0 jobs (insert oc seen) ov ?st"
    using inv step(2) fin first sub all card_seen_mono [OF fin] unfolding seen_inv_def by (auto split: if_splits)
  moreover have "slot_map (st_names ?st) (pending_in ?st) = (slot_map (st_names st) (pending_in st))(name \<mapsto> handle (length (pending_in st ?s)))"
    unfolding step(3) using slot_map_snoc [of name "st_names st" "pending_in st"] n by simp
  ultimately show ?thesis using step(1) by (intro that [of ?st]) simp_all
qed

lemma seen_step_full:
  assumes laws: "hash_table_laws ht slot_hash elems" and inv: "seen_inv elems st0 jobs seen ov st"
    and n: "name = occ_name jobs oc" "name \<notin> set (st_names st)" "name \<notin> set (pending_in st (name_shard name))"
    and full: "\<not> length (pending_in st (name_shard name)) < MAX_SYMBOLS"
  shows "lookup_or_pend ht name (occ_key jobs oc) (ov, st) = (- 1, True, st)" "seen_inv elems st0 jobs (insert oc seen) True st"
proof -
  let ?P = "pending_in st (name_shard name)"
  have pass: "pass_inv elems st" and grown: "grown st0 [] st" and fin: "finite seen" using inv by (simp_all add: seen_inv_def)
  have names: "st_names st0 = st_names st" using grownD(1) [OF grown] by simp
  have ok: "pend_ok (st_names st) (pending_in st)" using pass by (simp add: pass_inv_def)
  have sub: "set (pending_in st s) \<subseteq> occ_name jobs ` seen" if "s < SHARD_COUNT" for s using inv that by (simp add: seen_inv_def)
  show "lookup_or_pend ht name (occ_key jobs oc) (ov, st) = (- 1, True, st)" using laws pass n(2,3) full by (rule lookup_full)
  have "set ?P \<subseteq> occ_name jobs ` seen - set (st_names st0)"
    using sub [OF name_shard_less] pend_okD(4) [OF ok name_shard_less] by (auto simp: names)
  then have "insert name (set ?P) \<subseteq> occ_name jobs ` insert oc seen - set (st_names st0)" using n(1,2) by (auto simp: names)
  then have "card (insert name (set ?P)) \<le> card (occ_name jobs ` insert oc seen - set (st_names st0))" by (rule card_mono [rotated]) (use fin in simp)
  moreover have "card (insert name (set ?P)) = Suc (length ?P)" using n(3) pend_okD(1) [OF ok name_shard_less] by (simp add: distinct_card)
  ultimately have "MAX_SYMBOLS < card (occ_name jobs ` insert oc seen - set (st_names st0))" using full by simp
  moreover have "\<exists>s<SHARD_COUNT. pending_in st s \<noteq> []"
    by (rule exI [of _ "name_shard name"]) (use full in \<open>auto simp: MAX_SYMBOLS_eq\<close>)
  ultimately show "seen_inv elems st0 jobs (insert oc seen) True st" using pass grown fin sub by (auto simp: seen_inv_def)
qed

text \<open>One step of a schedule, whatever the state.\<close>

definition slots_extend :: "'t symbol_table \<Rightarrow> 't symbol_table \<Rightarrow> bool" where
  "slots_extend st st' \<longleftrightarrow> (\<forall>n v. slot_map (st_names st) (pending_in st) n = Some v \<longrightarrow> slot_map (st_names st') (pending_in st') n = Some v)"

lemma seen_step:
  assumes laws: "hash_table_laws ht slot_hash elems" and inv: "seen_inv elems st0 jobs seen ov st"
  shows "\<exists>v ov' st'. lookup_or_pend ht (occ_name jobs oc) (occ_key jobs oc) (ov, st) = (v, ov', st') \<and>
    seen_inv elems st0 jobs (insert oc seen) ov' st' \<and> slots_extend st st' \<and>
    (ov' \<or> v = the (slot_map (st_names st') (pending_in st') (occ_name jobs oc)))"
proof -
  let ?n = "occ_name jobs oc"
  have pass: "pass_inv elems st" and names: "st_names st = st_names st0"
    using inv grownD(1) [of st0 "[]" st] by (simp_all add: seen_inv_def)
  have ok: "pend_ok (st_names st) (pending_in st)" using pass by (simp add: pass_inv_def)
  consider (known) "?n \<in> set (st_names st)" | (pending) "?n \<in> set (pending_in st (name_shard ?n))"
    | (new) "?n \<notin> set (st_names st)" "?n \<notin> set (pending_in st (name_shard ?n))" "length (pending_in st (name_shard ?n)) < MAX_SYMBOLS"
    | (full) "?n \<notin> set (st_names st)" "?n \<notin> set (pending_in st (name_shard ?n))" "\<not> length (pending_in st (name_shard ?n)) < MAX_SYMBOLS"
    by blast
  then show ?thesis
  proof cases
    case known
    then have "slot_map (st_names st) (pending_in st) ?n = Some (id_in (st_names st) ?n)"
      using name_ids_None [of "st_names st" ?n] by (auto simp: slot_map_def id_in_def split: option.split)
    then show ?thesis using lookup_known [OF laws pass known] seen_known [OF inv] known by (auto simp: slots_extend_def names)
  next
    case pending
    then obtain st' where "lookup_or_pend ht ?n (occ_key jobs oc) (ov, st) = (the (slot_map (st_names st) (pending_in st) ?n), ov, st')"
        and st': "seen_inv elems st0 jobs (insert oc seen) ov st'" "pending_in st' = pending_in st"
      by (rule seen_step_pending [OF laws inv refl])
    moreover have "st_names st' = st_names st" using st'(1) grownD(1) [of st0 "[]" st'] by (simp add: seen_inv_def names)
    ultimately show ?thesis by (auto simp: slots_extend_def)
  next
    case new
    then obtain st' where st': "lookup_or_pend ht ?n (occ_key jobs oc) (ov, st) = (handle (length (pending_in st (name_shard ?n))), ov, st')"
        "seen_inv elems st0 jobs (insert oc seen) ov st'"
        "slot_map (st_names st') (pending_in st') = (slot_map (st_names st) (pending_in st))(?n \<mapsto> handle (length (pending_in st (name_shard ?n))))"
      by (rule seen_step_new [OF laws inv refl])
    moreover have "slot_map (st_names st) (pending_in st) ?n = None" using new by (simp add: slot_map_None [OF ok])
    then have "slots_extend st st'" unfolding slots_extend_def st'(3) by (metis fun_upd_other option.distinct(1))
    ultimately show ?thesis by auto
  next
    case full
    from seen_step_full [OF laws inv refl this] show ?thesis
      by (intro exI [of _ "- 1"] exI [of _ True] exI [of _ st]) (simp add: slots_extend_def)
  qed
qed

definition in_jobs :: "intern_job list \<Rightarrow> usize \<times> usize \<Rightarrow> bool" where
  "in_jobs jobs = (\<lambda>(j, i). j < length jobs \<and> i < length (ij_names (jobs ! j)) \<and> i < length (ij_ids (jobs ! j)))"

lemma same_jobs_occ:
  assumes "same_jobs jobs jobs1" "in_jobs jobs oc"
  shows "occ_name jobs1 oc = occ_name jobs oc" "occ_key jobs1 oc = occ_key jobs oc" "in_jobs jobs1 oc"
  using assms by (auto simp: same_jobs_def in_jobs_def occ_name_def occ_key_def split: prod.splits)

lemma nth_update_same: "f y = f (xs ! j) \<Longrightarrow> f (xs[j := y] ! k) = f (xs ! k)"
  by (cases "k = j"; cases "j < length xs") (simp_all add: list_update_beyond)

lemma same_jobs_update:
  "same_jobs jobs jobs1 \<Longrightarrow> same_jobs jobs (jobs1[j := (jobs1 ! j)\<lparr>ij_ids := (ij_ids (jobs1 ! j))[i := v]\<rparr>])"
  using nth_update_same [of ij_names "(jobs1 ! j)\<lparr>ij_ids := (ij_ids (jobs1 ! j))[i := v]\<rparr>" jobs1 j]
    nth_update_same [of ij_position "(jobs1 ! j)\<lparr>ij_ids := (ij_ids (jobs1 ! j))[i := v]\<rparr>" jobs1 j]
    nth_update_same [of "\<lambda>job. length (ij_ids job)" "(jobs1 ! j)\<lparr>ij_ids := (ij_ids (jobs1 ! j))[i := v]\<rparr>" jobs1 j]
  by (simp add: same_jobs_def)

lemma occ_id_update:
  assumes "in_jobs jobs1 (j, i)"
  shows "occ_id (jobs1[j := (jobs1 ! j)\<lparr>ij_ids := (ij_ids (jobs1 ! j))[i := v]\<rparr>]) oc = (if oc = (j, i) then v else occ_id jobs1 oc)"
proof (cases oc)
  case (Pair k l)
  then show ?thesis using assms by (cases "k = j"; cases "l = i") (auto simp: occ_id_def in_jobs_def)
qed

lemma slot_map_seen:
  assumes inv: "seen_inv elems st0 jobs seen False st" and oc: "oc \<in> seen"
  shows "slot_map (st_names st) (pending_in st) (occ_name jobs oc) \<noteq> None"
proof -
  have ok: "pend_ok (st_names st) (pending_in st)" and names: "st_names st = st_names st0"
    using inv grownD(1) [of st0 "[]" st] by (simp_all add: seen_inv_def pass_inv_def)
  show ?thesis using inv oc unfolding slot_map_None [OF ok] by (auto simp: seen_inv_def names)
qed

lemma seen_overflow_stays:
  "lookup_or_pend ht name occ (True, st) = (v, ov', st') \<Longrightarrow> ov'"
  by (auto simp: lookup_or_pend_def Let_def split: option.splits if_splits)

lemma intern_one_step:
  assumes "in_jobs jobs oc" "same_jobs jobs jobs1" and "lookup_or_pend ht (occ_name jobs oc) (occ_key jobs oc) (ov, st) = (v, ov', st')"
  shows "\<exists>jobs2. intern_one ht ((ov, st), jobs1) oc = ((ov', st'), jobs2) \<and> same_jobs jobs jobs2 \<and>
    (\<forall>oc'. occ_id jobs2 oc' = (if oc' = oc then v else occ_id jobs1 oc'))"
proof -
  obtain j i where oc: "oc = (j, i)" by (cases oc)
  let ?jobs = "jobs1[j := (jobs1 ! j)\<lparr>ij_ids := (ij_ids (jobs1 ! j))[i := v]\<rparr>]"
  note occ = same_jobs_occ [OF assms(2,1)]
  have "intern_one ht ((ov, st), jobs1) oc = ((ov', st'), ?jobs)"
    using assms(3) occ(1,2) by (simp add: intern_one_def oc occ_name_def occ_key_def Let_def id_from_u32_def)
  then show ?thesis using occ(3) assms(2) by (intro exI [of _ ?jobs]) (auto simp: oc occ_id_update same_jobs_update)
qed

lemma pass1_loop:
  assumes laws: "hash_table_laws ht slot_hash elems"
  shows "seen_inv elems st0 jobs seen ov st \<Longrightarrow> same_jobs jobs jobs1 \<Longrightarrow> ov \<or> ids_inv st jobs seen jobs1 \<Longrightarrow>
    \<forall>oc\<in>set rest. in_jobs jobs oc \<and> oc \<notin> seen \<Longrightarrow> distinct rest \<Longrightarrow>
    \<exists>ov' st' jobs2. foldl (intern_one ht) ((ov, st), jobs1) rest = ((ov', st'), jobs2) \<and>
      seen_inv elems st0 jobs (seen \<union> set rest) ov' st' \<and> same_jobs jobs jobs2 \<and> (ov' \<or> ids_inv st' jobs (seen \<union> set rest) jobs2)"
proof (induction rest arbitrary: seen ov st jobs1)
  case Nil
  then show ?case by auto
next
  case (Cons oc rest)
  obtain v ov1 st1 where step: "lookup_or_pend ht (occ_name jobs oc) (occ_key jobs oc) (ov, st) = (v, ov1, st1)"
      "seen_inv elems st0 jobs (insert oc seen) ov1 st1" "slots_extend st st1" "ov1 \<or> v = the (slot_map (st_names st1) (pending_in st1) (occ_name jobs oc))"
    using seen_step [OF laws Cons.prems(1), of oc] by blast
  obtain jobs2 where jobs2: "intern_one ht ((ov, st), jobs1) oc = ((ov1, st1), jobs2)" "same_jobs jobs jobs2"
      "\<forall>oc'. occ_id jobs2 oc' = (if oc' = oc then v else occ_id jobs1 oc')"
    using intern_one_step [OF _ Cons.prems(2) step(1)] Cons.prems(4) by auto
  have "ov1 \<or> ids_inv st1 jobs (insert oc seen) jobs2"
  proof (cases ov1)
    case False
    then have "\<not> ov" using seen_overflow_stays step(1) by (metis (full_types))
    then have ids: "ids_inv st jobs seen jobs1" "seen_inv elems st0 jobs seen False st" using Cons.prems(1,3) by auto
    have "occ_id jobs2 oc' = the (slot_map (st_names st1) (pending_in st1) (occ_name jobs oc'))" if oc': "oc' \<in> insert oc seen" for oc'
    proof (cases "oc' = oc")
      case True
      then show ?thesis using jobs2(3) [rule_format, of oc] step(4) False by simp
    next
      case other: False
      with oc' have "oc' \<in> seen" by simp
      then have "slot_map (st_names st) (pending_in st) (occ_name jobs oc') = Some (occ_id jobs1 oc')"
        using ids slot_map_seen [OF ids(2)] by (fastforce simp: ids_inv_def)
      then show ?thesis using other step(3) jobs2(3) [rule_format, of oc'] by (simp add: slots_extend_def)
    qed
    then show ?thesis by (simp add: ids_inv_def)
  qed simp
  from Cons.IH [OF step(2) jobs2(2) this] Cons.prems(4,5) show ?case by (auto simp: jobs2(1))
qed

lemma pass_inv_start:
  assumes "names_inv elems st"
  shows "pass_inv elems st" "\<forall>s<SHARD_COUNT. pending_in st s = []"
proof -
  show no: "\<forall>s<SHARD_COUNT. pending_in st s = []" using names_invD(7) [OF assms] by (simp add: pending_in_def)
  have "slot_map (st_names st) (pending_in st) = name_ids (st_names st)"
    by (rule ext) (use no in \<open>simp add: slot_map_def position_def split: option.split\<close>)
  then show "pass_inv elems st" using assms names_invD [OF assms] no by (simp add: pass_inv_def pend_ok_def) (auto simp: names_inv_def)
qed

lemma pass1:
  assumes laws: "hash_table_laws ht slot_hash elems" and inv: "names_inv elems st" and all: "\<forall>oc\<in>set schedule. in_jobs jobs oc" "distinct schedule"
  shows "\<exists>ov st' jobs'. foldl (intern_one ht) ((False, st), jobs) schedule = ((ov, st'), jobs') \<and>
    seen_inv elems st jobs (set schedule) ov st' \<and> same_jobs jobs jobs' \<and> (ov \<or> ids_inv st' jobs (set schedule) jobs')"
proof -
  have "seen_inv elems st jobs {} False st"
    using pass_inv_start [OF inv] grown_refl [of st] by (auto simp: seen_inv_def pending_in_def)
  moreover have "same_jobs jobs jobs" by (simp add: same_jobs_def)
  ultimately show ?thesis using pass1_loop [OF laws, of st jobs "{}" False st jobs schedule] all by (simp add: ids_inv_def)
qed

end
