(* ===== verification/PartitionProbe.thy ===== *)
theory PartitionProbe
  imports PartitionSort SymbolPasses
begin

text \<open>
  The second pass of a partitioned batch (src/src/symbols/table/partition.rs): probing the regions leaves in
  the shards, and as the result of every name, its id or the handle of its first occurrence.
\<close>

section \<open>The map of the shards\<close>

text \<open>The values after the first \<open>k\<close> names of a sequence.\<close>

definition seq_map :: "symbol_name list \<Rightarrow> symbol_name list \<Rightarrow> nat \<Rightarrow> symbol_name \<rightharpoonup> u32" where
  "seq_map names ns k n = (case name_ids names n of Some v \<Rightarrow> Some v | None \<Rightarrow> map_option handle (position (\<lambda>x. x = n) (take k ns)))"

lemma seq_map_0: "seq_map names ns 0 = name_ids names"
  by (rule ext) (simp add: seq_map_def position_def split: option.split)

lemma seq_map_None: "seq_map names ns k n = None \<longleftrightarrow> n \<notin> set names \<and> n \<notin> set (take k ns)"
  using name_ids_None [of names n] position_None [of "\<lambda>x. x = n" "take k ns"] by (auto simp: seq_map_def split: option.split)

lemma dom_seq_map: "finite (dom (seq_map names ns k))"
proof -
  have "dom (seq_map names ns k) = set names \<union> set (take k ns)" using seq_map_None [of names ns k] by (auto simp: dom_def)
  then show ?thesis by simp
qed

lemma seq_map_cases:
  assumes "seq_map names ns k n = Some v" "k \<le> length ns" "length ns \<le> MAX_SYMBOLS"
  obtains (known) "name_ids names n = Some v" | (new) l where "n \<notin> set names" "v = handle l" "l < k" "ns ! l = n" "\<forall>j<l. ns ! j \<noteq> n" "l < MAX_SYMBOLS"
proof (cases "name_ids names n")
  case None
  with assms(1) obtain l where "position (\<lambda>x. x = n) (take k ns) = Some l" "v = handle l" by (auto simp: seq_map_def)
  then show ?thesis using None assms(2,3) by (intro that(2) [of l]) (auto simp: position_Some name_ids_None)
qed (use assms that(1) in \<open>simp add: seq_map_def\<close>)

lemma seq_map_mono: "seq_map names ns k n = Some v \<Longrightarrow> k \<le> l \<Longrightarrow> seq_map names ns l n = Some v"
proof -
  assume v: "seq_map names ns k n = Some v" and "k \<le> l"
  then have "take l ns = take k ns @ take (l - k) (drop k ns)" by (metis le_add_diff_inverse take_add)
  then show ?thesis using v by (auto simp: seq_map_def position_append split: option.splits)
qed

lemma seq_map_Suc:
  assumes "k < length ns"
  shows "seq_map names ns (Suc k) = (if seq_map names ns k (ns ! k) = None then (seq_map names ns k)(ns ! k \<mapsto> handle k) else seq_map names ns k)"
proof (rule ext)
  fix n
  have "take (Suc k) ns = take k ns @ [ns ! k]" using assms by (rule take_Suc_conv_app_nth)
  then have "position (\<lambda>x. x = n) (take (Suc k) ns) = (case position (\<lambda>x. x = n) (take k ns) of Some i \<Rightarrow> Some i
      | None \<Rightarrow> if n = ns ! k then Some k else None)"
    using assms by (auto simp: position_append position_single split: option.split)
  then show "seq_map names ns (Suc k) n = (if seq_map names ns k (ns ! k) = None then (seq_map names ns k)(ns ! k \<mapsto> handle k) else seq_map names ns k) n"
    by (auto simp: seq_map_def split: option.splits)
qed

lemma seq_map_inj:
  assumes names: "distinct names" "length names \<le> MAX_SYMBOLS" and ns: "k \<le> length ns" "length ns \<le> MAX_SYMBOLS"
  shows "seq_map names ns k a = Some v \<Longrightarrow> seq_map names ns k b = Some v \<Longrightarrow> a = b"
proof -
  assume a: "seq_map names ns k a = Some v" and b: "seq_map names ns k b = Some v"
  from a ns show ?thesis
  proof (cases rule: seq_map_cases)
    case av: known
    from b ns show ?thesis
    proof (cases rule: seq_map_cases)
      case (new l)
      then show ?thesis using av names handle_pending [of l] by (auto simp: name_ids_iff final_iff)
    qed (use av names in \<open>auto simp: name_ids_iff\<close>)
  next
    case av: (new l)
    from b ns show ?thesis
    proof (cases rule: seq_map_cases)
      case known
      then show ?thesis using av names handle_pending [of l] by (auto simp: name_ids_iff final_iff)
    qed (use av in \<open>auto simp: handle_inj\<close>)
  qed
qed

section \<open>Entries\<close>

lemma entry_word_index: "g < MAX_SYMBOLS \<Longrightarrow> unat (drop_bit 32 (entry_word g n)) = g"
proof -
  assume g: "g < MAX_SYMBOLS"
  have "drop_bit 32 (entry_word g n) = take_bit 32 (of_nat g)"
    by (rule bit_word_eqI) (auto simp: entry_word_def bit_simps dest: bit_imp_le_length)
  also have "\<dots> = of_nat (take_bit 32 g)" by (simp add: of_nat_take_bit)
  also have "take_bit 32 g = g" using g by (simp add: take_bit_nat_eq_self_iff MAX_SYMBOLS_eq)
  finally show ?thesis using g by (simp add: unat_of_nat MAX_SYMBOLS_eq)
qed

lemma entry_word_hash: "(ucast (entry_word g n) :: u32) = low32 (sn_hash n)"
  by (rule bit_word_eqI) (auto simp: entry_word_def bit_simps)

lemma ucast_result: "(ucast (ucast v :: u64) :: u32) = v" for v :: u32
  by (rule bit_word_eqI) (simp add: bit_simps)

definition result_of :: "symbol_name list \<Rightarrow> symbol_name list \<Rightarrow> usize \<Rightarrow> u32" where
  "result_of names ns g = the (seq_map names ns (length ns) (ns ! g))"

lemma seq_map_seen: "g < k \<Longrightarrow> k \<le> length ns \<Longrightarrow> seq_map names ns k (ns ! g) \<noteq> None"
  using nth_mem [of g "take k ns"] by (simp add: seq_map_None)

lemma seq_map_result: "g < length ns \<Longrightarrow> seq_map names ns (Suc g) (ns ! g) = Some (result_of names ns g)"
  using seq_map_seen [of g "Suc g" ns names] seq_map_mono [of names ns "Suc g" "ns ! g" _ "length ns"] by (auto simp: result_of_def)

lemma probe_is_iff:
  assumes names: "distinct names" "length names \<le> MAX_SYMBOLS" and ns: "ns = concat segs" "length ns \<le> MAX_SYMBOLS"
    and m: "seq_map names ns k n = Some v" and k: "k \<le> length ns" and g: "g < length ns"
  shows "probe_is (sequence_new segs) names v g \<longleftrightarrow> n = ns ! g"
  using m k ns(2)
proof (cases rule: seq_map_cases)
  case known
  then have "v AND PENDING = 0" "get_nth names (unat v) = Some n" using names by (auto simp: name_ids_iff final_iff)
  then show ?thesis using g by (simp add: probe_is_def sequence_name_new ns(1) get_nth_def)
next
  case (new l)
  then have "unat (v AND NOT PENDING) = l" "v AND PENDING \<noteq> 0" by (simp_all add: handle_local handle_pending unat_of_id)
  moreover have "sequence_name (sequence_new segs) l = Some n" using new k by (simp add: sequence_name_new ns(1))
  ultimately show ?thesis using g by (simp add: probe_is_def sequence_name_new ns(1))
qed

section \<open>Probing a region\<close>

lemma probe_step:
  assumes laws: "hash_table_laws ht slot_hash elems" and names: "distinct names" "length names \<le> MAX_SYMBOLS"
    and ns: "ns = concat segs" "length ns \<le> MAX_SYMBOLS" and g: "g < length ns" "name_shard (ns ! g) = s"
    and rep: "shard_rep elems t (seq_map names ns g) s" and entry: "entries ! entry_pos ns g = entry_word g (ns ! g)"
  shows "\<exists>t'. probe_entry ht (sequence_new segs) names (t, entries) (entry_pos ns g) =
      (t', entries[entry_pos ns g := ucast (result_of names ns g)]) \<and> shard_rep elems t' (seq_map names ns (Suc g)) s"
proof -
  let ?n = "ns ! g" and ?m = "seq_map names ns g"
  have gmax: "g < MAX_SYMBOLS" using g ns(2) by simp
  have find: "ht_find ht t (name_hash ?n) (\<lambda>slot. slt_h32 slot = low32 (sn_hash ?n) \<and> probe_is (sequence_new segs) names (slt_value slot) g) =
      map_option (slot_of ?n) (?m ?n)"
    using g by (intro shard_find_name [OF laws rep g(2)] probe_is_iff [OF names ns]) auto
  note suc = seq_map_Suc [OF g(1), of names]
  show ?thesis
  proof (cases "?m ?n")
    case (Some v)
    then have "result_of names ns g = v" using seq_map_result [OF g(1), of names] suc by simp
    then show ?thesis using Some find rep suc
      by (auto simp: probe_entry_def Let_def entry entry_word_index [OF gmax] entry_word_hash)
  next
    case None
    then have res: "result_of names ns g = handle g" using seq_map_result [OF g(1), of names] suc by simp
    have fresh: False if "?m a = Some (handle g)" "name_shard a = s" for a
    proof -
      have "a = ?n"
        using seq_map_inj [OF names _ ns(2), of "Suc g" a "handle g" ?n] seq_map_mono [OF that(1), of "Suc g"] seq_map_result [OF g(1), of names] res g
        by simp
      then show False using that None by simp
    qed
    have "shard_rep elems (ht_insert ht t (name_hash ?n) (slot_of ?n (handle g))) (?m(?n \<mapsto> handle g)) s"
      by (rule shard_rep_insert [OF laws rep None g(2) fresh])
    then show ?thesis using None find suc res
      by (simp add: probe_entry_def Let_def entry entry_word_index [OF gmax] entry_word_hash slot_of_raw flip: handle_def)
  qed
qed

definition put_results :: "symbol_name list \<Rightarrow> symbol_name list \<Rightarrow> usize list \<Rightarrow> u64 list \<Rightarrow> u64 list" where
  "put_results names ns gs entries = foldl (\<lambda>entries g. entries[entry_pos ns g := ucast (result_of names ns g)]) entries gs"

lemma put_results_nth:
  assumes "length entries = length ns" "set gs \<subseteq> {..<length ns}"
  shows "length (put_results names ns gs entries) = length ns \<and> (\<forall>g<length ns. put_results names ns gs entries ! entry_pos ns g =
    (if g \<in> set gs then ucast (result_of names ns g) else entries ! entry_pos ns g))"
  using assms
proof (induction gs rule: rev_induct)
  case (snoc h gs)
  have h: "h < length ns" using snoc.prems by simp
  have IH: "length (put_results names ns gs entries) = length ns"
      "\<And>g. g < length ns \<Longrightarrow> put_results names ns gs entries ! entry_pos ns g = (if g \<in> set gs then ucast (result_of names ns g) else entries ! entry_pos ns g)"
    using snoc by auto
  have step: "put_results names ns (gs @ [h]) entries = (put_results names ns gs entries)[entry_pos ns h := ucast (result_of names ns h)]"
    by (simp add: put_results_def)
  have "put_results names ns (gs @ [h]) entries ! entry_pos ns g = (if g \<in> set (gs @ [h]) then ucast (result_of names ns g) else entries ! entry_pos ns g)"
    if "g < length ns" for g
  proof -
    have "entry_pos ns g = entry_pos ns h \<longleftrightarrow> g = h" using inj_onD [OF entry_pos_inj, of ns g h] that h by auto
    then show ?thesis unfolding step using IH that entry_pos_region(3) [OF h] by (auto simp: nth_list_update)
  qed
  then show ?case using IH(1) by (simp add: step)
qed (simp add: put_results_def)

abbreviation shard_names :: "symbol_name list \<Rightarrow> usize \<Rightarrow> usize \<Rightarrow> usize list" where
  "shard_names ns s k \<equiv> filter (\<lambda>g. name_shard (ns ! g) = s) [0..<k]"

lemma probe_region:
  assumes laws: "hash_table_laws ht slot_hash elems" and names: "distinct names" "length names \<le> MAX_SYMBOLS"
    and ns: "ns = concat segs" "length ns \<le> MAX_SYMBOLS" and len: "length entries = length ns"
    and rep: "shard_rep elems t (name_ids names) s"
    and entries: "\<forall>g<length ns. name_shard (ns ! g) = s \<longrightarrow> entries ! entry_pos ns g = entry_word g (ns ! g)"
  shows "k \<le> length ns \<Longrightarrow> \<exists>t'. foldl (probe_entry ht (sequence_new segs) names) (t, entries) (map (entry_pos ns) (shard_names ns s k)) =
    (t', put_results names ns (shard_names ns s k) entries) \<and> shard_rep elems t' (seq_map names ns k) s"
proof (induction k)
  case 0
  then show ?case using rep by (simp add: put_results_def seq_map_0)
next
  case (Suc k)
  then obtain t' where t': "foldl (probe_entry ht (sequence_new segs) names) (t, entries) (map (entry_pos ns) (shard_names ns s k)) =
      (t', put_results names ns (shard_names ns s k) entries)" "shard_rep elems t' (seq_map names ns k) s" by auto
  have k: "k < length ns" using Suc.prems by simp
  show ?case
  proof (cases "name_shard (ns ! k) = s")
    case True
    have "set (shard_names ns s k) \<subseteq> {..<length ns}" "k \<notin> set (shard_names ns s k)" using k by auto
    then have "put_results names ns (shard_names ns s k) entries ! entry_pos ns k = entry_word k (ns ! k)"
      using put_results_nth [OF len, of "shard_names ns s k" names] entries k True by auto
    from probe_step [OF laws names ns k True t'(2) this] show ?thesis using True t'(1) by (auto simp: put_results_def)
  next
    case False
    have "shard_rep elems t' (seq_map names ns (Suc k)) s"
      using t'(2) by (rule shard_rep_cong) (use False seq_map_Suc [OF k, of names] in \<open>auto simp: dom_seq_map\<close>)
    then show ?thesis using False t'(1) by simp
  qed
qed

section \<open>Probing all regions\<close>

definition probed :: "('t \<Rightarrow> symbol_slot multiset) \<Rightarrow> symbol_name list \<Rightarrow> symbol_name list \<Rightarrow> 't shard list \<Rightarrow> usize \<Rightarrow> 't shard list \<times> u64 list \<Rightarrow> bool" where
  "probed elems names ns shards j = (\<lambda>(shards', entries). length shards' = SHARD_COUNT \<and> length entries = length ns \<and>
     (\<forall>s<SHARD_COUNT. shard_rep elems (sh_table (shards' ! s)) (if s < j then seq_map names ns (length ns) else name_ids names) s \<and>
        sh_pending (shards' ! s) = sh_pending (shards ! s) \<and> sh_assigned (shards' ! s) = sh_assigned (shards ! s)) \<and>
     (\<forall>g<length ns. entries ! entry_pos ns g =
        (if name_shard (ns ! g) < j then ucast (result_of names ns g) else entry_word g (ns ! g))))"

lemma probe_shards:
  assumes laws: "hash_table_laws ht slot_hash elems" and names: "distinct names" "length names \<le> MAX_SYMBOLS"
    and ns: "ns = concat segs" "length ns \<le> MAX_SYMBOLS" and rep: "tables_rep elems shards (name_ids names)"
    and region: "\<And>s. s \<le> SHARD_COUNT \<Longrightarrow> region ! s = region_at ns s"
  shows "j \<le> SHARD_COUNT \<Longrightarrow> probed elems names ns shards j
    (foldl (probe_shard ht (sequence_new segs) names region) (shards, sorted_entries ns) [0..<j])"
proof (induction j)
  case 0
  then show ?case using rep by (simp add: probed_def tables_rep_def sorted_entries_nth)
next
  case (Suc j)
  obtain shards1 entries1 where run: "foldl (probe_shard ht (sequence_new segs) names region) (shards, sorted_entries ns) [0..<j] = (shards1, entries1)"
    by (cases "foldl (probe_shard ht (sequence_new segs) names region) (shards, sorted_entries ns) [0..<j]")
  with Suc have p: "probed elems names ns shards j (shards1, entries1)" by simp
  have j: "j < SHARD_COUNT" using Suc.prems by simp
  have len: "length entries1 = length ns" "length shards1 = SHARD_COUNT" using p by (simp_all add: probed_def)
  have rep1: "shard_rep elems (sh_table (shards1 ! j)) (name_ids names) j"
  proof -
    have "shard_rep elems (sh_table (shards1 ! j)) (if j < j then seq_map names ns (length ns) else name_ids names) j"
      using p j unfolding probed_def by blast
    then show ?thesis by simp
  qed
  have entries: "\<forall>g<length ns. name_shard (ns ! g) = j \<longrightarrow> entries1 ! entry_pos ns g = entry_word g (ns ! g)" using p by (simp add: probed_def)
  have "[region ! j..<region ! (j + 1)] = map (entry_pos ns) (shard_names ns j (length ns))"
    using j by (simp add: region region_at_Suc shard_entries)
  moreover obtain t' where "foldl (probe_entry ht (sequence_new segs) names) (sh_table (shards1 ! j), entries1) (map (entry_pos ns) (shard_names ns j (length ns))) =
      (t', put_results names ns (shard_names ns j (length ns)) entries1)" and t': "shard_rep elems t' (seq_map names ns (length ns)) j"
    using probe_region [OF laws names ns len(1) rep1 entries, of "length ns"] by auto
  ultimately have step: "probe_shard ht (sequence_new segs) names region (shards1, entries1) j =
      (shards1[j := (shards1 ! j)\<lparr>sh_table := t'\<rparr>], put_results names ns (shard_names ns j (length ns)) entries1)"
    by (simp add: probe_shard_def)
  have "set (shard_names ns j (length ns)) \<subseteq> {..<length ns}" by auto
  note res = put_results_nth [OF len(1) this, of names]
  have each: "shard_rep elems (sh_table (shards1[j := (shards1 ! j)\<lparr>sh_table := t'\<rparr>] ! s)) (if s < Suc j then seq_map names ns (length ns) else name_ids names) s \<and>
      sh_pending (shards1[j := (shards1 ! j)\<lparr>sh_table := t'\<rparr>] ! s) = sh_pending (shards ! s) \<and>
      sh_assigned (shards1[j := (shards1 ! j)\<lparr>sh_table := t'\<rparr>] ! s) = sh_assigned (shards ! s)" if s: "s < SHARD_COUNT" for s
  proof (cases "s = j")
    case True
    then show ?thesis using p t' j len(2) by (simp add: probed_def)
  next
    case False
    then have "(s < Suc j) = (s < j)" by auto
    then show ?thesis using p s False by (simp add: probed_def)
  qed
  have "put_results names ns (shard_names ns j (length ns)) entries1 ! entry_pos ns g =
      (if name_shard (ns ! g) < Suc j then ucast (result_of names ns g) else entry_word g (ns ! g))" if g: "g < length ns" for g
    using res p g by (auto simp: probed_def less_Suc_eq)
  with each res len(2) show ?case by (simp add: run step probed_def)
qed

end
