(* ===== verification/RankBitmap.thy ===== *)
theory RankBitmap
  imports BitSet SymbolPartition
begin

text \<open>
  The bitmap of first occurrences (src/src/symbols/table/partition.rs): the counts before its words rank its
  bits, \<open>id_of\<close> adds the rank of a bit, and \<open>NewNames\<close> finds the bit of a rank, whether it searches the
  counts or goes on from the last bit it found.
\<close>

section \<open>Ranks\<close>

definition rank :: "(nat \<Rightarrow> bool) \<Rightarrow> nat \<Rightarrow> nat" where
  "rank P k = length (filter P [0..<k])"

lemma rank_0 [simp]: "rank P 0 = 0"
  by (simp add: rank_def)

lemma rank_Suc: "rank P (Suc k) = rank P k + (if P k then 1 else 0)"
  by (simp add: rank_def)

lemma rank_add: "rank P (a + b) = rank P a + rank (\<lambda>j. P (a + j)) b"
  by (induction b) (simp_all add: rank_Suc)

lemma rank_mono: "a \<le> b \<Longrightarrow> rank P a \<le> rank P b"
  using rank_add [of P a "b - a"] by simp

lemma rank_gap: "a \<le> b \<Longrightarrow> (\<And>i. a \<le> i \<Longrightarrow> i < b \<Longrightarrow> \<not> P i) \<Longrightarrow> rank P b = rank P a"
  using rank_add [of P a "b - a"] by (simp add: rank_def filter_empty_conv)

lemma rank_cong: "(\<And>i. i < k \<Longrightarrow> P i = Q i) \<Longrightarrow> rank P k = rank Q k"
  unfolding rank_def by (intro arg_cong [of _ _ length] filter_cong) auto

lemma filter_nth_rank:
  assumes "P g" "g < n"
  shows "filter P [0..<n] ! rank P g = g" "rank P g < rank P n"
proof -
  have "[0..<n] = [0..<g] @ g # [Suc g..<n]" using assms(2) upt_add_eq_append [of 0 g "n - g"] by (simp add: upt_conv_Cons)
  then have "filter P [0..<n] = filter P [0..<g] @ g # filter P [Suc g..<n]" using assms(1) by simp
  then show "filter P [0..<n] ! rank P g = g" "rank P g < rank P n" by (simp_all add: rank_def)
qed

lemma rank_of_nth:
  assumes "d < rank P n"
  shows "P (filter P [0..<n] ! d)" "filter P [0..<n] ! d < n" "rank P (filter P [0..<n] ! d) = d"
proof -
  let ?t = "filter P [0..<n] ! d"
  have "?t \<in> set (filter P [0..<n])" using assms unfolding rank_def by (rule nth_mem)
  then show t: "P ?t" "?t < n" by auto
  from filter_nth_rank [of P, OF t] assms show "rank P ?t = d"
    using nth_eq_iff_index_eq [of "filter P [0..<n]" "rank P ?t" d] by (simp add: rank_def)
qed

section \<open>Bits and counts\<close>

definition bit_in :: "u64 list \<Rightarrow> nat \<Rightarrow> bool" where
  "bit_in words i \<longleftrightarrow> bit (words ! (i div 64)) (i mod 64)"

lemma bit_in_word: "j < 64 \<Longrightarrow> bit_in words (64 * w + j) \<longleftrightarrow> bit (words ! w) j"
  by (simp add: bit_in_def)

lemma rank_in_word: "b \<le> 64 \<Longrightarrow> rank (bit_in words) (64 * w + b) = rank (bit_in words) (64 * w) + rank (bit (words ! w)) b"
  unfolding rank_add by (intro arg_cong2 [of _ _ _ _ "(+)"] rank_cong) (simp_all add: bit_in_word)

lemma count_ones_rank: "count_ones w = rank (bit w) 64"
  by (simp add: count_ones_def rank_def)

lemma rank_words: "k \<le> length words \<Longrightarrow> sum_list (map count_ones (take k words)) = rank (bit_in words) (64 * k)"
proof (induction k)
  case (Suc k)
  then show ?case using rank_in_word [of 64 words k] by (simp add: take_Suc_conv_app_nth count_ones_rank add.commute)
qed simp

lemma counts_before_nth: "w < length words \<Longrightarrow> counts_before n words ! w = n + sum_list (map count_ones (take w words))"
proof (induction words arbitrary: n w)
  case (Cons x words)
  then show ?case by (cases w) simp_all
qed simp

lemma length_counts_before [simp]: "length (counts_before n words) = length words"
  by (induction words arbitrary: n) auto

lemma counts_before_rank: "w < length words \<Longrightarrow> counts_before 0 words ! w = rank (bit_in words) (64 * w)"
  by (simp add: counts_before_nth rank_words)

lemma count_below: "b < 64 \<Longrightarrow> count_ones (x AND (push_bit b 1 - 1)) = rank (bit x) b"
proof -
  assume b: "b < 64"
  have "push_bit b 1 - 1 = (mask b :: u64)" by (simp add: push_bit_of_1 mask_eq_exp_minus_1)
  then have "filter (bit (x AND (push_bit b 1 - 1))) [0..<64] = filter (\<lambda>j. j < b \<and> bit x j) [0..<64]"
    by (intro filter_cong) (auto simp: bit_simps)
  then show ?thesis using b filter_less_upt [of b 64 "bit x"] by (simp only: count_ones_def rank_def)
qed

lemma rank_of_bit: "g < 64 * length words \<Longrightarrow>
    counts_before 0 words ! (g div 64) + count_ones (words ! (g div 64) AND (push_bit (g mod 64) 1 - 1)) = rank (bit_in words) g"
  using rank_in_word [of "g mod 64" words "g div 64"] count_below [of "g mod 64" "words ! (g div 64)"]
  by (simp add: counts_before_rank less_mult_imp_div_less mult.commute [of 64 "length words"])

section \<open>The bit of a rank\<close>

lemma drop_lowest_nth: "d < count_ones bits \<Longrightarrow> trailing_zeros (drop_lowest d bits) = filter (bit bits) [0..<64] ! d"
proof (induction d arbitrary: bits)
  case 0
  then have "bits \<noteq> 0" by (auto simp: count_ones_def)
  from filter_lowest [OF this] show ?case by (metis drop_lowest.simps(1) nth_Cons_0)
next
  case (Suc d)
  then have "bits \<noteq> 0" by (auto simp: count_ones_def)
  note low = filter_lowest [OF this]
  then have "d < count_ones (bits AND (bits - 1))" using Suc.prems unfolding count_ones_def by (metis Suc_less_eq length_Cons)
  then show ?case using Suc.IH by (metis drop_lowest.simps(2) low nth_Cons_Suc)
qed

text \<open>The search through the counts.\<close>

lemma word_of_rank:
  assumes "r < rank (bit_in words) (64 * length words)"
  defines "w \<equiv> partition_point (\<lambda>b. b \<le> r) (counts_before 0 words) - 1"
  shows "w < length words" "rank (bit_in words) (64 * w) \<le> r" "r < rank (bit_in words) (64 * Suc w)"
proof -
  let ?before = "counts_before 0 words" and ?p = "partition_point (\<lambda>b. b \<le> r) (counts_before 0 words)"
  have "words \<noteq> []" using assms(1) by auto
  then obtain x rest where "words = x # rest" by (cases words) auto
  then obtain k where k: "?p = Suc k" by (simp add: partition_point_def)
  have p: "?p \<le> length words" using length_takeWhile_le [of _ ?before] by (metis length_counts_before partition_point_def)
  show w: "w < length words" using p k by (simp add: w_def)
  have "takeWhile (\<lambda>b. b \<le> r) ?before ! w \<in> set (takeWhile (\<lambda>b. b \<le> r) ?before)" using k by (simp add: partition_point_def w_def)
  then have "takeWhile (\<lambda>b. b \<le> r) ?before ! w \<le> r" using set_takeWhileD by fast
  moreover have "takeWhile (\<lambda>b. b \<le> r) ?before ! w = ?before ! w"
    using k by (intro takeWhile_nth) (simp add: partition_point_def w_def)
  ultimately show "rank (bit_in words) (64 * w) \<le> r" using w by (simp add: counts_before_rank)
  show "r < rank (bit_in words) (64 * Suc w)"
  proof (cases "Suc w < length words")
    case True
    then have "\<not> ?before ! ?p \<le> r" using nth_length_takeWhile [of "\<lambda>b. b \<le> r" ?before] k unfolding partition_point_def w_def by simp
    then show ?thesis using True k by (simp add: w_def counts_before_rank)
  next
    case False
    then have "Suc w = length words" using w by simp
    then show ?thesis using assms(1) by simp
  qed
qed

lemma search_rank:
  assumes "r < rank (bit_in words) (64 * length words)"
  defines "w \<equiv> partition_point (\<lambda>b. b \<le> r) (counts_before 0 words) - 1"
  shows "w * 64 + trailing_zeros (drop_lowest (r - counts_before 0 words ! w) (words ! w)) = filter (bit_in words) [0..<64 * length words] ! r"
proof -
  note w = word_of_rank [OF assms(1), folded w_def]
  let ?d = "r - rank (bit_in words) (64 * w)" and ?t = "filter (bit (words ! w)) [0..<64] ! (r - rank (bit_in words) (64 * w))"
  have d: "?d < rank (bit (words ! w)) 64" using w rank_in_word [of 64 words w] by (simp add: add.commute)
  note t = rank_of_nth [OF d]
  have "rank (bit_in words) (64 * w + ?t) = r" using t w rank_in_word [of ?t words w] by simp
  moreover have "bit_in words (64 * w + ?t)" "64 * w + ?t < 64 * length words" using t w(1) by (simp_all add: bit_in_word)
  ultimately have "filter (bit_in words) [0..<64 * length words] ! r = 64 * w + ?t" using filter_nth_rank(1) by metis
  then show ?thesis using d by (simp add: drop_lowest_nth counts_before_rank w(1) count_ones_rank)
qed

text \<open>The scan from the last bit.\<close>

lemma scan_bits_first:
  assumes "w < length words" "64 * w \<le> lo" "lo \<le> 64 * Suc w" "\<And>j. j < 64 \<Longrightarrow> bit bits j \<longleftrightarrow> lo \<le> 64 * w + j \<and> bit_in words (64 * w + j)"
    and "lo \<le> i" "i < 64 * length words" "bit_in words i"
  shows "\<exists>g. scan_bits words w bits = Some g \<and> bit_in words g \<and> lo \<le> g \<and> g < 64 * length words \<and> (\<forall>i. lo \<le> i \<and> i < g \<longrightarrow> \<not> bit_in words i)"
  using assms
proof (induction "length words - w" arbitrary: w bits lo)
  case (Suc d)
  show ?case
  proof (cases "bits = 0")
    case False
    let ?t = "trailing_zeros bits"
    have t: "?t < 64" "bit bits ?t" using trailing_zeros_less [OF False] trailing_zeros_spec(3) by auto
    then have "bit_in words (64 * w + ?t)" "lo \<le> 64 * w + ?t" using Suc.prems(4) by simp_all
    moreover have "\<not> bit_in words i" if "lo \<le> i" "i < 64 * w + ?t" for i
      using Suc.prems(2) Suc.prems(4) [of "i - 64 * w"] trailing_zeros_spec(2) [of "i - 64 * w" bits] that t(1) by auto
    ultimately show ?thesis using False t(1) Suc.prems(1) by (subst scan_bits.simps) (auto simp: mult.commute)
  next
    case True
    have none: "\<not> bit_in words j" if "lo \<le> j" "j < 64 * Suc w" for j
      using Suc.prems(2) Suc.prems(4) [of "j - 64 * w"] that True by auto
    then have i: "64 * Suc w \<le> i" using Suc.prems(5,7) not_le by blast
    then have w: "Suc w < length words" using Suc.prems(6) by (cases "Suc w < length words") auto
    have "\<exists>g. scan_bits words (Suc w) (words ! Suc w) = Some g \<and> bit_in words g \<and> 64 * Suc w \<le> g \<and> g < 64 * length words \<and>
        (\<forall>i. 64 * Suc w \<le> i \<and> i < g \<longrightarrow> \<not> bit_in words i)"
    proof (rule Suc.hyps(1))
      show "bit (words ! Suc w) j \<longleftrightarrow> 64 * Suc w \<le> 64 * Suc w + j \<and> bit_in words (64 * Suc w + j)" if "j < 64" for j
        using bit_in_word [OF that, of words "Suc w"] by linarith
    qed (use Suc.hyps(2) Suc.prems(6,7) w i in auto)
    then obtain g where g: "scan_bits words (Suc w) (words ! Suc w) = Some g" "bit_in words g" "64 * Suc w \<le> g" "g < 64 * length words"
        "\<And>i. 64 * Suc w \<le> i \<Longrightarrow> i < g \<Longrightarrow> \<not> bit_in words i" by auto
    have "scan_bits words w bits = Some g" using True w g(1) by (subst scan_bits.simps) simp
    moreover have "\<not> bit_in words i" if "lo \<le> i" "i < g" for i using g(5) [of i] none [of i] that not_le by blast
    ultimately show ?thesis using g Suc.prems(3) by auto
  qed
qed simp

lemma scan_next:
  assumes g: "g < 64 * length words" and more: "rank (bit_in words) (Suc g) < rank (bit_in words) (64 * length words)"
  shows "scan_bits words (g div 64) (words ! (g div 64) AND push_bit 1 (push_bit (g mod 64) (- 1))) =
    Some (filter (bit_in words) [0..<64 * length words] ! rank (bit_in words) (Suc g))"
proof -
  let ?w = "g div 64" and ?r = "rank (bit_in words) (Suc g)"
  have split: "64 * ?w + g mod 64 = g" "g mod 64 < 64" by simp_all
  note i = rank_of_nth [OF more]
  have "Suc g \<le> filter (bit_in words) [0..<64 * length words] ! ?r"
  proof (rule ccontr)
    assume "\<not> ?thesis"
    then have "filter (bit_in words) [0..<64 * length words] ! ?r < Suc g" by simp
    from filter_nth_rank(2) [of "bit_in words", OF i(1) this] i(3) show False by simp
  qed
  moreover have "bit (words ! ?w AND push_bit 1 (push_bit (g mod 64) (- 1))) j \<longleftrightarrow> Suc g \<le> 64 * ?w + j \<and> bit_in words (64 * ?w + j)" if "j < 64" for j
  proof -
    have "bit (push_bit 1 (push_bit (g mod 64) (- 1)) :: u64) j \<longleftrightarrow> Suc (g mod 64) \<le> j"
      unfolding push_bit_push_bit bit_push_bit_iff using that by (auto simp: bit_minus_1_iff)
    moreover have "Suc g \<le> 64 * ?w + j \<longleftrightarrow> Suc (g mod 64) \<le> j" using split(1) by linarith
    ultimately show ?thesis using bit_in_word [OF that, of words ?w] by (simp only: bit_and_iff) blast
  qed
  moreover have "?w < length words" using g by (simp add: less_mult_imp_div_less mult.commute)
  moreover have "64 * ?w \<le> Suc g" "Suc g \<le> 64 * Suc ?w" unfolding mult_Suc_right using split by linarith+
  ultimately obtain h where h: "scan_bits words ?w (words ! ?w AND push_bit 1 (push_bit (g mod 64) (- 1))) = Some h" "bit_in words h" "Suc g \<le> h"
      "h < 64 * length words" "\<And>i. Suc g \<le> i \<Longrightarrow> i < h \<Longrightarrow> \<not> bit_in words i"
    using scan_bits_first [of ?w words "Suc g" "words ! ?w AND push_bit 1 (push_bit (g mod 64) (- 1))"] i(1,2) by blast
  have "rank (bit_in words) h = ?r" using h(3,5) by (rule rank_gap)
  then show ?thesis using h(1) filter_nth_rank(1) [of "bit_in words", OF h(2,4)] by simp
qed

text \<open>The name of a rank, with any cache that an earlier call left.\<close>

definition cache_ok :: "u64 list \<Rightarrow> (usize \<times> usize) option \<Rightarrow> bool" where
  "cache_ok words at \<longleftrightarrow> (\<forall>nxt g. at = Some (nxt, g) \<longrightarrow> g < 64 * length words \<and> nxt = rank (bit_in words) (Suc g))"

lemma nth_new_rank:
  assumes "r < rank (bit_in words) (64 * length words)" "cache_ok words at"
  shows "nth_new words (counts_before 0 words) r at = Some (filter (bit_in words) [0..<64 * length words] ! r)"
proof (cases "\<exists>g. at = Some (r, g)")
  case True
  then obtain g where at: "at = Some (r, g)" by blast
  then have g: "g < 64 * length words" "r = rank (bit_in words) (Suc g)" using assms(2) by (simp_all add: cache_ok_def)
  then show ?thesis using at scan_next [OF g(1)] assms(1) by (simp add: nth_new_def)
next
  case False
  then show ?thesis using search_rank [OF assms(1)] by (auto simp: nth_new_def Let_def split: option.splits)
qed

lemma new_names_run_eq:
  assumes "\<And>g. bit_in words g \<Longrightarrow> g < 64 * length words \<Longrightarrow> sequence_name seq g = Some (ns ! g)"
  shows "b \<le> rank (bit_in words) (64 * length words) \<Longrightarrow> cache_ok words at \<Longrightarrow>
    new_names_run seq words (counts_before 0 words) at [a..<b] = Some (map (\<lambda>r. ns ! (filter (bit_in words) [0..<64 * length words] ! r)) [a..<b])"
proof (induction "b - a" arbitrary: a at)
  case (Suc d)
  then have a: "a < b" "a < rank (bit_in words) (64 * length words)" by auto
  let ?g = "filter (bit_in words) [0..<64 * length words] ! a"
  note g = rank_of_nth [OF a(2)]
  have "cache_ok words (Some (Suc a, ?g))" using g by (simp add: cache_ok_def rank_Suc)
  then have "new_names_run seq words (counts_before 0 words) (Some (Suc a, ?g)) [Suc a..<b] =
      Some (map (\<lambda>r. ns ! (filter (bit_in words) [0..<64 * length words] ! r)) [Suc a..<b])"
    using Suc by auto
  then show ?case using a nth_new_rank [OF a(2) Suc.prems(2)] assms [OF g(1,2)] by (simp add: upt_conv_Cons)
qed simp

lemma rank_runs_new:
  assumes "\<And>g. bit_in words g \<Longrightarrow> g < 64 * length words \<Longrightarrow> sequence_name seq g = Some (ns ! g)"
  shows "a + sum_list lens \<le> rank (bit_in words) (64 * length words) \<Longrightarrow>
    \<exists>new. collect_options (map (new_names_run seq words (counts_before 0 words) None) (rank_runs a lens)) = Some new \<and>
      concat new = map (\<lambda>r. ns ! (filter (bit_in words) [0..<64 * length words] ! r)) [a..<a + sum_list lens]"
proof (induction lens arbitrary: a)
  case (Cons n lens)
  let ?f = "\<lambda>r. ns ! (filter (bit_in words) [0..<64 * length words] ! r)"
  have "a + n + sum_list lens \<le> rank (bit_in words) (64 * length words)" using Cons.prems by simp
  from Cons.IH [OF this] obtain new where new: "collect_options (map (new_names_run seq words (counts_before 0 words) None) (rank_runs (a + n) lens)) = Some new"
      "concat new = map ?f [a + n..<a + n + sum_list lens]" by blast
  have "new_names_run seq words (counts_before 0 words) None [a..<a + n] = Some (map ?f [a..<a + n])"
    using Cons.prems by (intro new_names_run_eq [OF assms]) (simp_all add: cache_ok_def)
  moreover have "[a..<a + (n + sum_list lens)] = [a..<a + n] @ [a + n..<a + n + sum_list lens]"
    using upt_add_eq_append [of a "a + n" "sum_list lens"] by (simp add: add.assoc)
  ultimately show ?case using new by (intro exI [of _ "map ?f [a..<a + n] # new"]) simp
qed simp

end
