(* ===== verification/SymbolNumber.thy ===== *)
theory SymbolNumber
  imports SymbolPasses SymbolPartition
begin

text \<open>
  The numbering of a batch (src/src/symbols/table.rs): the reference order of the names, by first
  occurrence and then by contents, and the second and third passes, which give every name the id that
  interning in the reference order gives it.
\<close>

section \<open>The reference order\<close>

definition pair_key :: "occurrence \<times> symbol_name \<Rightarrow> occurrence \<times> u8 list \<times> u8 list option" where
  "pair_key = (\<lambda>(k, n). (k, sn_bytes n, sn_version n))"

definition occ_pairs :: "intern_job list \<Rightarrow> (occurrence \<times> symbol_name) list" where
  "occ_pairs jobs = map (\<lambda>oc. (occ_key jobs oc, occ_name jobs oc)) (job_occurrences jobs)"

definition batch_names :: "intern_job list \<Rightarrow> symbol_name list" where
  "batch_names jobs = map snd (sort_by (\<lambda>a b. cmp (pair_key a) (pair_key b)) (occ_pairs jobs))"

text \<open>The hash of a name is a function of its contents, as the constructors make it.\<close>

definition name_hashed :: "(hash_write list \<Rightarrow> u64) \<Rightarrow> symbol_name \<Rightarrow> bool" where
  "name_hashed hf n \<longleftrightarrow> n = name_with_version hf (sn_bytes n) (sn_version n)"

definition jobs_hashed :: "(hash_write list \<Rightarrow> u64) \<Rightarrow> intern_job list \<Rightarrow> bool" where
  "jobs_hashed hf jobs \<longleftrightarrow> (\<forall>job\<in>set jobs. \<forall>n\<in>set (ij_names job). name_hashed hf n)"

lemma name_hashed_eq: "name_hashed hf a \<Longrightarrow> name_hashed hf b \<Longrightarrow> sn_bytes a = sn_bytes b \<Longrightarrow> sn_version a = sn_version b \<Longrightarrow> a = b"
  unfolding name_hashed_def by metis

lemma cmp_prod: "cmp (a, b) (c, d) = then_ordering (cmp a c) (cmp b d)"
  by (auto simp: cmp_def less_prod_def)

lemma sorted_sort_by_key: "sorted (map key (sort_by (\<lambda>a b. cmp (key a) (key b)) xs))"
proof -
  have "sorted_wrt (\<lambda>x y. cmp (key x) (key y) \<noteq> Greater) (sort_by (\<lambda>a b. cmp (key a) (key b)) xs)"
    by (rule comparison.sort_by_sorted [OF comparison_of_key])
  then show ?thesis by (simp add: sorted_wrt_map not_less)
qed

definition first_in :: "(occurrence \<times> symbol_name) set \<Rightarrow> symbol_name \<Rightarrow> occurrence" where
  "first_in P n = Min {k. (k, n) \<in> P}"

definition rank_key :: "(occurrence \<times> symbol_name) set \<Rightarrow> symbol_name \<Rightarrow> occurrence \<times> u8 list \<times> u8 list option" where
  "rank_key P n = pair_key (first_in P n, n)"

lemma first_in_finite: "finite P \<Longrightarrow> finite {k. (k, n) \<in> P}"
  by (rule finite_subset [of _ "fst ` P"]) (auto intro: rev_image_eqI)

lemma first_in_some: "n \<in> snd ` P \<Longrightarrow> {k. (k, n) \<in> P} \<noteq> {}"
proof -
  assume "n \<in> snd ` P"
  then obtain k where "(k, n) \<in> P" by (metis imageE prod.collapse)
  then have "k \<in> {k. (k, n) \<in> P}" by simp
  then show ?thesis by blast
qed

lemma first_in_mem: "finite P \<Longrightarrow> n \<in> snd ` P \<Longrightarrow> (first_in P n, n) \<in> P"
  using Min_in [OF first_in_finite [of P n]] first_in_some [of n P] by (simp add: first_in_def)

lemma first_in_other: "m \<noteq> n \<Longrightarrow> first_in (insert (k, m) P) n = first_in P n"
  by (auto simp: first_in_def)

lemma first_in_new: "n \<notin> snd ` P \<Longrightarrow> first_in (insert (k, n) P) n = k"
proof -
  assume "n \<notin> snd ` P"
  then have "{k'. (k', n) \<in> insert (k, n) P} = {k}" by (auto intro: rev_image_eqI)
  then show ?thesis by (simp add: first_in_def)
qed

lemma first_in_later:
  assumes "finite P" "n \<in> snd ` P" "\<And>k'. (k', n) \<in> P \<Longrightarrow> k' \<le> k"
  shows "first_in (insert (k, n) P) n = first_in P n"
proof -
  let ?K = "{k'. (k', n) \<in> P}"
  have "{k'. (k', n) \<in> insert (k, n) P} = insert k ?K" by auto
  then have "first_in (insert (k, n) P) n = Min (insert k ?K)" by (simp only: first_in_def)
  also have "\<dots> = min k (Min ?K)" using assms(2) by (intro Min_insert first_in_some first_in_finite assms(1))
  also have "\<dots> = first_in P n" unfolding first_in_def [symmetric] by (rule min_absorb2) (rule assms(3) [OF first_in_mem [OF assms(1,2)]])
  finally show ?thesis .
qed

text \<open>The names a loop over sorted occurrences adds are in the order of their first occurrences.\<close>

lemma add_names_sorted:
  assumes "sorted (map pair_key xs)"
  shows "\<exists>new. add_names names (map snd xs) = names @ new \<and> sorted (map (rank_key (set xs)) new) \<and> distinct new \<and>
    set new = snd ` set xs - set names"
  using assms
proof (induction xs rule: rev_induct)
  case Nil
  then show ?case by simp
next
  case (snoc x xs)
  obtain k n where x: "x = (k, n)" by (cases x)
  from snoc.prems have sorted: "sorted (map pair_key xs)" and le: "\<And>y. y \<in> set xs \<Longrightarrow> pair_key y \<le> pair_key (k, n)"
    by (simp_all add: x sorted_append)
  obtain new where new: "add_names names (map snd xs) = names @ new" "sorted (map (rank_key (set xs)) new)" "distinct new"
      "set new = snd ` set xs - set names"
    using snoc.IH [OF sorted] by blast
  have set: "set (xs @ [x]) = insert (k, n) (set xs)" by (simp add: x)
  have le_k: "k' \<le> k" if "(k', n) \<in> set xs" for k' using le [OF that] by (auto simp: pair_key_def)
  show ?case
  proof (cases "n \<in> set (names @ new)")
    case True
    have "first_in (insert (k, n) (set xs)) m = first_in (set xs) m" if "m \<in> set new" for m
      using that new(4) le_k by (cases "m = n") (auto simp: first_in_other intro!: first_in_later)
    then have "map (rank_key (set (xs @ [x]))) new = map (rank_key (set xs)) new" unfolding set by (simp add: rank_key_def)
    then have "sorted (map (rank_key (set (xs @ [x]))) new)" using new(2) by (simp only:)
    moreover have "set new = snd ` set (xs @ [x]) - set names" using True new(4) by (auto simp: x)
    moreover have "add_names names (map snd (xs @ [x])) = names @ new" using True new(1) by (simp add: add_names_append x)
    ultimately show ?thesis using new(3) by blast
  next
    case False
    then have "n \<notin> snd ` set xs" using new(4) by auto
    then have first: "first_in (insert (k, n) (set xs)) n = k" by (rule first_in_new)
    have "first_in (insert (k, n) (set xs)) m = first_in (set xs) m" if "m \<in> set new" for m
      using that False by (intro first_in_other) auto
    then have old: "map (rank_key (set (xs @ [x]))) new = map (rank_key (set xs)) new" unfolding set by (simp add: rank_key_def)
    have "rank_key (set xs) m \<le> rank_key (set (xs @ [x])) n" if "m \<in> set new" for m
      using le [OF first_in_mem [of "set xs" m]] that new(4) first by (simp add: rank_key_def x)
    then have "sorted (map (rank_key (set (xs @ [x]))) (new @ [n]))"
      unfolding map_append old using new(2) by (simp add: sorted_append)
    moreover have "set (new @ [n]) = snd ` set (xs @ [x]) - set names" using False new(4) by (auto simp: x)
    moreover have "add_names names (map snd (xs @ [x])) = names @ new @ [n]" using False new(1) by (simp add: add_names_append x)
    moreover have "distinct (new @ [n])" using False new(3) by simp
    ultimately show ?thesis by blast
  qed
qed

text \<open>Names in the order of distinct keys are determined by their set.\<close>

lemma rank_key_inj: "\<forall>n\<in>N. name_hashed hf n \<Longrightarrow> inj_on (rank_key P) N"
  by (rule inj_onI) (auto simp: rank_key_def pair_key_def intro: name_hashed_eq)

lemma ranked_unique:
  assumes "sorted (map (rank_key P) as)" "sorted (map (rank_key P) bs)" "distinct as" "distinct bs" "set as = set bs"
    "\<forall>n\<in>set as. name_hashed hf n"
  shows "as = bs"
proof -
  have inj: "inj_on (rank_key P) (set as)" using assms(6) by (rule rank_key_inj)
  have "map (rank_key P) as = map (rank_key P) bs"
    by (rule sorted_distinct_set_unique) (use assms inj in \<open>auto simp: distinct_map\<close>)
  with inj assms(5) show ?thesis by (metis inj_on_map_eq_map sup.idem)
qed

section \<open>All the occurrences\<close>

lemma set_job_occurrences: "set (job_occurrences jobs) = {(j, i). j < length jobs \<and> i < length (ij_names (jobs ! j))}"
  by (auto simp: job_occurrences_def)

lemma distinct_job_occurrences: "distinct (job_occurrences jobs)"
proof -
  have "distinct (concat (map (\<lambda>j. map (Pair j) [0..<f j]) [0..<n]))" for f :: "nat \<Rightarrow> nat" and n
    by (induction n) (auto simp: distinct_map inj_on_def)
  then show ?thesis unfolding job_occurrences_def .
qed

lemma in_jobs_occurrence: "jobs_ok jobs \<Longrightarrow> oc \<in> set (job_occurrences jobs) \<longleftrightarrow> in_jobs jobs oc"
  by (auto simp: set_job_occurrences in_jobs_def jobs_ok_def)

lemma first_occ_pairs: "first_occ jobs (set (job_occurrences jobs)) n = first_in (set (occ_pairs jobs)) n"
proof -
  have "occ_key jobs ` {oc \<in> set (job_occurrences jobs). occ_name jobs oc = n} = {k. (k, n) \<in> set (occ_pairs jobs)}"
    unfolding occ_pairs_def set_map by blast
  then show ?thesis by (simp add: first_occ_def first_in_def)
qed

lemma snd_occ_pairs: "snd ` set (occ_pairs jobs) = occ_name jobs ` set (job_occurrences jobs)"
  by (simp add: occ_pairs_def image_image)

lemma set_batch_names: "set (batch_names jobs) = occ_name jobs ` set (job_occurrences jobs)"
  by (simp add: batch_names_def snd_occ_pairs)

lemma occ_name_hashed: "jobs_hashed hf jobs \<Longrightarrow> n \<in> occ_name jobs ` set (job_occurrences jobs) \<Longrightarrow> name_hashed hf n"
  by (auto simp: set_job_occurrences occ_name_def jobs_hashed_def dest!: nth_mem)

text \<open>A list of new names in the order of their first occurrences is what the reference adds.\<close>

lemma batch_names_new:
  assumes hashed: "jobs_hashed hf jobs" and new: "sorted (map (rank_key (set (occ_pairs jobs))) new)" "distinct new"
    "set new = occ_name jobs ` set (job_occurrences jobs) - set names"
  shows "add_names names (batch_names jobs) = names @ new"
proof -
  let ?xs = "sort_by (\<lambda>a b. cmp (pair_key a) (pair_key b)) (occ_pairs jobs)"
  obtain ref where ref: "add_names names (map snd ?xs) = names @ ref" "sorted (map (rank_key (set ?xs)) ref)" "distinct ref"
      "set ref = snd ` set ?xs - set names"
    using add_names_sorted [OF sorted_sort_by_key] by blast
  have "ref = new"
    by (rule ranked_unique [of "set (occ_pairs jobs)" _ _ hf]) (use ref new hashed in \<open>auto simp: snd_occ_pairs intro: occ_name_hashed\<close>)
  then show ?thesis using ref(1) by (simp add: batch_names_def)
qed

section \<open>Pass 2\<close>

lemma select_from_sorted:
  "sorted_wrt (<) indices \<Longrightarrow> \<forall>i\<in>set indices. offset \<le> i \<and> i - offset < length xs \<Longrightarrow>
    select_from xs offset indices = Some (map (\<lambda>i. xs ! (i - offset)) indices)"
proof (induction indices arbitrary: xs offset)
  case (Cons i indices)
  then have i: "offset \<le> i" "i - offset < length xs" by auto
  then obtain y ys where drop: "drop (i - offset) xs = y # ys" by (metis Cons_nth_drop_Suc)
  then have y: "y = xs ! (i - offset)" and ys: "ys = drop (Suc (i - offset)) xs"
    using i(2) by (simp_all add: Cons_nth_drop_Suc [symmetric])
  have later: "i < k" "k - offset < length xs" if "k \<in> set indices" for k using Cons.prems that by auto
  have "k - (i + 1) < length ys" if "k \<in> set indices" for k
    using later [OF that] i unfolding ys length_drop by linarith
  then have "select_from ys (i + 1) indices = Some (map (\<lambda>k. ys ! (k - (i + 1))) indices)"
    using Cons.prems(1) later by (intro Cons.IH) (auto simp: Suc_le_eq)
  moreover have "ys ! (k - (i + 1)) = xs ! (k - offset)" if "k \<in> set indices" for k
    using later [OF that] i unfolding ys by (subst nth_drop) (auto intro!: arg_cong [of _ _ "nth xs"])
  ultimately show ?case using i drop y by (simp add: not_less)
qed simp

lemma select_mut_sorted: "sorted_wrt (<) indices \<Longrightarrow> \<forall>i\<in>set indices. i < length xs \<Longrightarrow> select_mut xs indices = Some (map (nth xs) indices)"
  by (simp add: select_mut_def select_from_sorted)

lemma active_sorted: "sorted_wrt (<) (active_shards st)" "s \<in> set (active_shards st) \<longleftrightarrow> s < length (st_shards st) \<and> sh_pending (st_shards st ! s) \<noteq> []"
  by (auto simp: active_shards_def sorted_wrt_filter)

text \<open>The entries by active shard and pending index.\<close>

definition entry_ix :: "'t shard list \<Rightarrow> (nat \<times> nat) list" where
  "entry_ix shards = concat (map (\<lambda>k. map (Pair k) [0..<length (sh_pending (shards ! k))]) [0..<length shards])"

definition entry_at :: "'t shard list \<Rightarrow> nat \<times> nat \<Rightarrow> pending_entry" where
  "entry_at shards = (\<lambda>(k, l). (pn_first (sh_pending (shards ! k) ! l), of_nat k, of_nat l))"

lemma pending_entries_ix: "pending_entries shards = map (entry_at shards) (entry_ix shards)"
  by (simp add: pending_entries_def entry_ix_def entry_at_def enumerate_upt map_concat comp_def)

lemma set_entry_ix: "set (entry_ix shards) = {(k, l). k < length shards \<and> l < length (sh_pending (shards ! k))}"
  by (auto simp: entry_ix_def)

lemma distinct_entry_ix: "distinct (entry_ix shards)"
proof -
  have "distinct (concat (map (\<lambda>j. map (Pair j) [0..<f j]) [0..<n]))" for f :: "nat \<Rightarrow> nat" and n
    by (induction n) (auto simp: distinct_map inj_on_def)
  then show ?thesis unfolding entry_ix_def .
qed

definition shards_small :: "'t shard list \<Rightarrow> bool" where
  "shards_small shards \<longleftrightarrow> length shards \<le> SHARD_COUNT \<and> (\<forall>shard\<in>set shards. length (sh_pending shard) \<le> MAX_SYMBOLS)"

lemma entry_at_ix:
  assumes "shards_small shards" "(k, l) \<in> set (entry_ix shards)"
  shows "unat (of_nat k :: u32) = k" "unat (of_nat l :: u32) = l" "entry_name shards (entry_at shards (k, l)) = pn_name (sh_pending (shards ! k) ! l)"
proof -
  have kl: "k < length shards" "l < length (sh_pending (shards ! k))" using assms(2) by (simp_all add: set_entry_ix)
  then have "length (sh_pending (shards ! k)) \<le> MAX_SYMBOLS" "length shards \<le> SHARD_COUNT" using assms(1) by (simp_all add: shards_small_def)
  moreover have "SHARD_COUNT \<le> MAX_SYMBOLS" by (simp add: SHARD_COUNT_def SHARD_BITS_def MAX_SYMBOLS_eq)
  ultimately show k: "unat (of_nat k :: u32) = k" "unat (of_nat l :: u32) = l" using kl by (simp_all add: unat_of_id)
  then show "entry_name shards (entry_at shards (k, l)) = pn_name (sh_pending (shards ! k) ! l)"
    by (simp add: entry_name_def entry_at_def)
qed

lemma compare_entries_key:
  "compare_entries shards a b = cmp (pair_key (fst a, entry_name shards a)) (pair_key (fst b, entry_name shards b))"
  by (simp add: compare_entries_def pair_key_def cmp_prod cmp_contents_def)

definition pending_order :: "'t shard list \<Rightarrow> pending_entry list" where
  "pending_order shards = sort_by (compare_entries shards) (pending_entries shards)"

lemma pending_order_sorted: "sorted (map (\<lambda>e. pair_key (fst e, entry_name shards e)) (pending_order shards))"
  unfolding pending_order_def compare_entries_key [abs_def] by (rule sorted_sort_by_key)

lemma set_pending_order: "set (pending_order shards) = entry_at shards ` set (entry_ix shards)"
  by (simp add: pending_order_def pending_entries_ix)

lemma entry_at_inj: "shards_small shards \<Longrightarrow> inj_on (entry_at shards) (set (entry_ix shards))"
proof (rule inj_onI)
  fix x y assume small: "shards_small shards" and xy: "x \<in> set (entry_ix shards)" "y \<in> set (entry_ix shards)" "entry_at shards x = entry_at shards y"
  obtain k l where x: "x = (k, l)" by (cases x)
  obtain k' l' where y: "y = (k', l')" by (cases y)
  have eq: "(of_nat k :: u32) = of_nat k'" "(of_nat l :: u32) = of_nat l'" using xy(3) by (simp_all add: x y entry_at_def)
  note kl = entry_at_ix(1,2) [OF small xy(1) [unfolded x]] and kl' = entry_at_ix(1,2) [OF small xy(2) [unfolded y]]
  have "k = k'" using kl(1) kl'(1) eq(1) by metis
  moreover have "l = l'" using kl(2) kl'(2) eq(2) by metis
  ultimately show "x = y" by (simp add: x y)
qed

lemma distinct_pending_order: "shards_small shards \<Longrightarrow> distinct (pending_order shards)"
  by (simp add: pending_order_def pending_entries_ix distinct_map entry_at_inj distinct_entry_ix)

text \<open>The new names in the order of their ids.\<close>

definition active_view :: "'t symbol_table \<Rightarrow> 't shard list" where
  "active_view st = map (nth (st_shards st)) (active_shards st)"

definition new_names :: "'t symbol_table \<Rightarrow> symbol_name list" where
  "new_names st = map (entry_name (active_view st)) (pending_order (active_view st))"

lemma active_view_nth:
  assumes "pass_inv elems st" "k < length (active_shards st)"
  shows "active_view st ! k = st_shards st ! (active_shards st ! k)" "active_shards st ! k < SHARD_COUNT"
  using assms active_sorted(2) [of "active_shards st ! k" st] by (simp_all add: active_view_def pass_shards)

lemma active_iff: "pass_inv elems st \<Longrightarrow> s \<in> set (active_shards st) \<longleftrightarrow> s < SHARD_COUNT \<and> pending_in st s \<noteq> []"
  using active_sorted(2) [of s st] pass_shards [of elems st] by (simp add: pending_in_def)

lemma active_empty:
  assumes "pass_inv elems st"
  shows "active_shards st = [] \<longleftrightarrow> (\<forall>s<SHARD_COUNT. pending_in st s = [])"
proof -
  have "active_shards st = [] \<longleftrightarrow> (\<forall>s. s \<notin> set (active_shards st))" by (cases "active_shards st") auto
  then show ?thesis unfolding active_iff [OF assms] by blast
qed

lemma active_view_small: "pass_inv elems st \<Longrightarrow> shards_small (active_view st)"
proof -
  assume inv: "pass_inv elems st"
  have "length (active_shards st) \<le> SHARD_COUNT" using length_filter_le [of _ "[0..<length (st_shards st)]"] pass_shards [OF inv]
    by (simp add: active_shards_def)
  moreover have "length (sh_pending shard) \<le> MAX_SYMBOLS" if shard: "shard \<in> set (active_view st)" for shard
  proof -
    obtain s where "s < SHARD_COUNT" "shard = st_shards st ! s"
      using shard active_sorted(2) [of _ st] pass_shards [OF inv] by (auto simp: active_view_def)
    then show ?thesis using inv pend_okD(2) [of "st_names st" "pending_in st" s] by (simp add: pass_inv_def pending_in_def)
  qed
  ultimately show ?thesis by (simp add: shards_small_def active_view_def)
qed

lemma entry_pending:
  assumes inv: "pass_inv elems st" and ix: "(k, l) \<in> set (entry_ix (active_view st))"
  shows "k < length (active_shards st)" "active_shards st ! k < SHARD_COUNT" "l < length (pending_in st (active_shards st ! k))"
    "entry_name (active_view st) (entry_at (active_view st) (k, l)) = pending_in st (active_shards st ! k) ! l"
proof -
  show k: "k < length (active_shards st)" using ix by (simp add: set_entry_ix active_view_def)
  note nth = active_view_nth [OF inv k]
  show "active_shards st ! k < SHARD_COUNT" "l < length (pending_in st (active_shards st ! k))"
    using ix nth by (simp_all add: set_entry_ix pending_in_def)
  then show "entry_name (active_view st) (entry_at (active_view st) (k, l)) = pending_in st (active_shards st ! k) ! l"
    using entry_at_ix(3) [OF active_view_small [OF inv] ix] nth(1) by (simp add: pending_in_def)
qed

lemma distinct_active: "distinct (active_shards st)"
  by (simp add: active_shards_def)

lemma entry_name_inj:
  assumes inv: "pass_inv elems st"
  shows "inj_on (\<lambda>x. entry_name (active_view st) (entry_at (active_view st) x)) (set (entry_ix (active_view st)))"
proof (rule inj_onI)
  fix x y assume x: "x \<in> set (entry_ix (active_view st))" and y: "y \<in> set (entry_ix (active_view st))"
    and eq: "entry_name (active_view st) (entry_at (active_view st) x) = entry_name (active_view st) (entry_at (active_view st) y)"
  obtain k l where xk: "x = (k, l)" by (cases x)
  obtain k' l' where yk: "y = (k', l')" by (cases y)
  note kx = entry_pending [OF inv x [unfolded xk]] and ky = entry_pending [OF inv y [unfolded yk]]
  have ok: "pend_ok (st_names st) (pending_in st)" using inv by (simp add: pass_inv_def)
  let ?n = "pending_in st (active_shards st ! k) ! l"
  have same: "?n = pending_in st (active_shards st ! k') ! l'" using eq kx(4) ky(4) by (simp add: xk yk)
  have "name_shard ?n = active_shards st ! k" using kx by (intro pend_okD(3) [OF ok]) simp_all
  moreover have "name_shard ?n = active_shards st ! k'" unfolding same using ky by (intro pend_okD(3) [OF ok]) simp_all
  ultimately have k: "k = k'" using distinct_active [of st] kx(1) ky(1) by (simp add: nth_eq_iff_index_eq)
  then show "x = y" using same kx ky pend_okD(1) [OF ok kx(2)] by (simp add: xk yk nth_eq_iff_index_eq)
qed

lemma distinct_new_names: "pass_inv elems st \<Longrightarrow> distinct (new_names st)"
proof -
  assume inv: "pass_inv elems st"
  note small = active_view_small [OF inv]
  have "inj_on (entry_name (active_view st)) (entry_at (active_view st) ` set (entry_ix (active_view st)))"
    using entry_name_inj [OF inv] by (rule inj_on_imageI [unfolded comp_def])
  then show ?thesis
    using small by (simp add: new_names_def distinct_map distinct_pending_order set_pending_order)
qed

lemma set_new_names: "pass_inv elems st \<Longrightarrow> set (new_names st) = (\<Union>s<SHARD_COUNT. set (pending_in st s))"
proof (intro set_eqI iffI)
  fix n assume inv: "pass_inv elems st" and "n \<in> set (new_names st)"
  then obtain k l where ix: "(k, l) \<in> set (entry_ix (active_view st))" and n: "n = entry_name (active_view st) (entry_at (active_view st) (k, l))"
    by (auto simp: new_names_def set_pending_order)
  show "n \<in> (\<Union>s<SHARD_COUNT. set (pending_in st s))" using entry_pending [OF inv ix]
    by (auto simp: n intro!: bexI [of _ "active_shards st ! k"])
next
  fix n assume inv: "pass_inv elems st" and "n \<in> (\<Union>s<SHARD_COUNT. set (pending_in st s))"
  then obtain s l where s: "s < SHARD_COUNT" "l < length (pending_in st s)" "n = pending_in st s ! l"
    by (auto simp: in_set_conv_nth)
  then have "s \<in> set (active_shards st)" using pass_shards [OF inv] by (auto simp: active_sorted(2) pending_in_def)
  then obtain k where k: "k < length (active_shards st)" "active_shards st ! k = s" by (auto simp: in_set_conv_nth)
  then have ix: "(k, l) \<in> set (entry_ix (active_view st))" using s by (simp add: set_entry_ix active_view_def pending_in_def)
  have "n = entry_name (active_view st) (entry_at (active_view st) (k, l))" using entry_pending(4) [OF inv ix] k s by simp
  then show "n \<in> set (new_names st)" using ix by (auto simp: new_names_def set_pending_order)
qed

lemma length_entry_ix: "length (entry_ix shards) = sum_list (map (\<lambda>shard. length (sh_pending shard)) shards)"
proof -
  have "length (entry_ix shards) = sum_list (map (\<lambda>k. length (sh_pending (shards ! k))) [0..<length shards])"
    by (simp add: entry_ix_def length_concat comp_def)
  also have "map (\<lambda>k. length (sh_pending (shards ! k))) [0..<length shards] = map (\<lambda>shard. length (sh_pending shard)) shards"
    by (rule nth_equalityI) simp_all
  finally show ?thesis .
qed

lemma length_new_names: "length (new_names st) = sum_list (map (\<lambda>s. length (sh_pending (st_shards st ! s))) (active_shards st))"
  by (simp add: new_names_def pending_order_def pending_entries_ix length_entry_ix active_view_def comp_def)

lemma new_names_sorted:
  assumes inv: "seen_inv elems st0 jobs (set (job_occurrences jobs)) False st"
  shows "sorted (map (rank_key (set (occ_pairs jobs))) (new_names st))"
proof -
  have pass: "pass_inv elems st" using inv by (simp add: seen_inv_def)
  have "pair_key (fst e, entry_name (active_view st) e) = rank_key (set (occ_pairs jobs)) (entry_name (active_view st) e)"
    if e: "e \<in> set (pending_order (active_view st))" for e
  proof -
    obtain k l where ix: "(k, l) \<in> set (entry_ix (active_view st))" and ekl: "e = entry_at (active_view st) (k, l)"
      using e by (auto simp: set_pending_order)
    note kl = entry_pending [OF pass ix]
    let ?rc = "sh_pending (st_shards st ! (active_shards st ! k)) ! l"
    have "?rc \<in> set (sh_pending (st_shards st ! (active_shards st ! k)))" using kl(3) by (simp add: pending_in_def)
    then have "pn_first ?rc = first_occ jobs (set (job_occurrences jobs)) (pn_name ?rc)" using inv kl(2) by (simp add: seen_inv_def)
    moreover have "fst e = pn_first ?rc" using active_view_nth(1) [OF pass kl(1)] by (simp add: ekl entry_at_def)
    moreover have "entry_name (active_view st) e = pn_name ?rc" using kl(3,4) by (simp add: ekl pending_in_def)
    ultimately show ?thesis by (simp add: rank_key_def first_occ_pairs)
  qed
  then have eq: "map (rank_key (set (occ_pairs jobs))) (new_names st) =
      map (\<lambda>e. pair_key (fst e, entry_name (active_view st) e)) (pending_order (active_view st))"
    by (simp add: new_names_def comp_def)
  show ?thesis unfolding eq by (rule pending_order_sorted)
qed

lemma new_names_reference:
  assumes inv: "seen_inv elems st0 jobs (set (job_occurrences jobs)) False st" and hashed: "jobs_hashed hf jobs"
  shows "add_names (st_names st0) (batch_names jobs) = st_names st0 @ new_names st"
proof (rule batch_names_new [OF hashed new_names_sorted [OF inv]])
  have pass: "pass_inv elems st" and names: "st_names st = st_names st0"
    using inv grownD(1) [of st0 "[]" st] by (simp_all add: seen_inv_def)
  have ok: "pend_ok (st_names st) (pending_in st)" using pass by (simp add: pass_inv_def)
  show "distinct (new_names st)" using pass by (rule distinct_new_names)
  show "set (new_names st) = occ_name jobs ` set (job_occurrences jobs) - set (st_names st0)"
    unfolding set_new_names [OF pass]
  proof (intro equalityI subsetI)
    fix n assume "n \<in> (\<Union>s<SHARD_COUNT. set (pending_in st s))"
    then obtain s where s: "s < SHARD_COUNT" "n \<in> set (pending_in st s)" by blast
    then show "n \<in> occ_name jobs ` set (job_occurrences jobs) - set (st_names st0)"
      using inv pend_okD(4) [OF ok s] unfolding seen_inv_def names by blast
  next
    fix n assume "n \<in> occ_name jobs ` set (job_occurrences jobs) - set (st_names st0)"
    then have "n \<in> set (pending_in st (name_shard n))" using inv by (simp add: seen_inv_def)
    then show "n \<in> (\<Union>s<SHARD_COUNT. set (pending_in st s))" using name_shard_less by blast
  qed
qed

section \<open>Distinct positions\<close>

definition short_jobs :: "intern_job list \<Rightarrow> bool" where
  "short_jobs jobs \<longleftrightarrow> (\<forall>job\<in>set jobs. length (ij_names job) \<le> u32_max)"

lemma job_order_perm: "distinct (job_order jobs)" "set (job_order jobs) = {..<length jobs}"
  by (auto simp: job_order_def)

lemma job_order_strict:
  assumes "windows2_all (\<lambda>a b. ij_position (jobs ! a) \<noteq> ij_position (jobs ! b)) (job_order jobs)"
  shows "sorted_wrt (\<lambda>a b. ij_position (jobs ! a) < ij_position (jobs ! b)) (job_order jobs)"
proof -
  have "sorted (map (\<lambda>j. ij_position (jobs ! j)) (job_order jobs))"
    unfolding job_order_def by (rule sorted_sort_by_key)
  then have "sorted_wrt (<) (map (\<lambda>j. ij_position (jobs ! j)) (job_order jobs))"
    using assms by (simp add: sorted_wrt_iff_nth_Suc_transp [of "(<)"] transp_on_less windows2_all_nth sorted_iff_nth_Suc order_le_less)
  then show ?thesis by (simp add: sorted_wrt_map)
qed

text \<open>The pairs of the jobs laid end to end in the order of their positions.\<close>

definition ordered_pairs :: "intern_job list \<Rightarrow> usize list \<Rightarrow> (occurrence \<times> symbol_name) list" where
  "ordered_pairs jobs order = concat (map (\<lambda>j. map (\<lambda>i. (occ_key jobs (j, i), occ_name jobs (j, i))) [0..<length (ij_names (jobs ! j))]) order)"

lemma ordered_pairs_names: "map snd (ordered_pairs jobs order) = names_in_order jobs order"
proof -
  have "map (\<lambda>i. ij_names (jobs ! j) ! i) [0..<length (ij_names (jobs ! j))] = ij_names (jobs ! j)" for j by (simp add: map_nth)
  then show ?thesis by (simp add: ordered_pairs_def names_in_order_def map_concat comp_def occ_name_def)
qed

lemma mset_ordered_pairs: "mset (ordered_pairs jobs (job_order jobs)) = mset (occ_pairs jobs)"
proof -
  let ?f = "\<lambda>j. map (\<lambda>i. (occ_key jobs (j, i), occ_name jobs (j, i))) [0..<length (ij_names (jobs ! j))]"
  have "mset (concat (map ?f xs)) = (\<Sum>j\<in>#mset xs. mset (?f j))" for xs :: "nat list"
    by (induction xs) auto
  moreover have "mset (job_order jobs) = mset [0..<length jobs]" by (simp add: job_order_def)
  moreover have "occ_pairs jobs = concat (map ?f [0..<length jobs])"
    by (simp add: occ_pairs_def job_occurrences_def map_concat comp_def)
  ultimately show ?thesis by (simp add: ordered_pairs_def)
qed

lemma occ_key_short:
  assumes "short_jobs jobs" "j < length jobs" "i < length (ij_names (jobs ! j))"
  shows "occ_key jobs (j, i) = (ij_position (jobs ! j), of_nat i)" "unat (of_nat i :: u32) = i"
proof -
  have "length (ij_names (jobs ! j)) \<le> u32_max" using assms(1,2) by (simp add: short_jobs_def)
  then have "i \<le> u32_max" using assms(3) by simp
  then show "occ_key jobs (j, i) = (ij_position (jobs ! j), of_nat i)" "unat (of_nat i :: u32) = i"
    by (simp_all add: occ_key_def u32_try_from_def unat_of_nat)
qed

lemma sorted_wrt_concat_map:
  assumes "sorted_wrt R js" "\<And>j. j \<in> set js \<Longrightarrow> sorted_wrt S (f j)"
    and "\<And>a b x y. a \<in> set js \<Longrightarrow> b \<in> set js \<Longrightarrow> R a b \<Longrightarrow> x \<in> set (f a) \<Longrightarrow> y \<in> set (f b) \<Longrightarrow> S x y"
  shows "sorted_wrt S (concat (map f js))"
  using assms
proof (induction js)
  case (Cons a js)
  have "sorted_wrt S (concat (map f js))" using Cons.prems(1,2) by (intro Cons.IH Cons.prems(3)) auto
  moreover have "S x y" if "x \<in> set (f a)" "y \<in> set (concat (map f js))" for x y
    using that Cons.prems(1) by (auto intro: Cons.prems(3))
  ultimately show ?case using Cons.prems(2) [of a] by (simp add: sorted_wrt_append)
qed simp

lemma ordered_pairs_sorted:
  assumes strict: "sorted_wrt (\<lambda>a b. ij_position (jobs ! a) < ij_position (jobs ! b)) order"
    and range: "\<forall>j\<in>set order. j < length jobs" and short: "short_jobs jobs"
  shows "sorted_wrt (\<lambda>x y. fst x < fst y) (ordered_pairs jobs order)"
  unfolding ordered_pairs_def
proof (rule sorted_wrt_concat_map [OF strict])
  fix j assume "j \<in> set order"
  then have j: "j < length jobs" using range by blast
  show "sorted_wrt (\<lambda>x y. fst x < fst y) (map (\<lambda>i. (occ_key jobs (j, i), occ_name jobs (j, i))) [0..<length (ij_names (jobs ! j))])"
    unfolding sorted_wrt_map
  proof (rule sorted_wrt_mono_rel [of _ "(<)"])
    fix a b assume "a \<in> set [0..<length (ij_names (jobs ! j))]" "b \<in> set [0..<length (ij_names (jobs ! j))]" "a < b"
    then show "fst (occ_key jobs (j, a), occ_name jobs (j, a)) < fst (occ_key jobs (j, b), occ_name jobs (j, b))"
      using occ_key_short [OF short j, of a] occ_key_short [OF short j, of b] by (simp add: word_less_nat_alt)
  qed (simp add: sorted_wrt_upt)
next
  fix a b x y assume ab: "a \<in> set order" "b \<in> set order" "ij_position (jobs ! a) < ij_position (jobs ! b)"
    and x: "x \<in> set (map (\<lambda>i. (occ_key jobs (a, i), occ_name jobs (a, i))) [0..<length (ij_names (jobs ! a))])"
    and y: "y \<in> set (map (\<lambda>i. (occ_key jobs (b, i), occ_name jobs (b, i))) [0..<length (ij_names (jobs ! b))])"
  then show "fst x < fst y" by (auto simp: occ_key_def less_prod_def)
qed

lemma batch_names_in_order:
  assumes distinct: "windows2_all (\<lambda>a b. ij_position (jobs ! a) \<noteq> ij_position (jobs ! b)) (job_order jobs)" and short: "short_jobs jobs"
  shows "batch_names jobs = names_in_order jobs (job_order jobs)"
proof -
  let ?xs = "ordered_pairs jobs (job_order jobs)" and ?ys = "sort_by (\<lambda>a b. cmp (pair_key a) (pair_key b)) (occ_pairs jobs)"
  have less: "sorted_wrt (\<lambda>x y. fst x < fst y) ?xs"
    by (rule ordered_pairs_sorted [OF job_order_strict [OF distinct] _ short]) (simp add: job_order_perm)
  then have "sorted_wrt (\<lambda>x y. pair_key x < pair_key y) ?xs"
    by (rule sorted_wrt_mono_rel [rotated]) (auto simp: pair_key_def less_prod_def)
  then have key: "sorted_wrt (<) (map pair_key ?xs)" by (simp add: sorted_wrt_map)
  have dist: "distinct (map pair_key ?xs)" "sorted (map pair_key ?xs)" using key by (simp_all add: strict_sorted_iff)
  have mset: "mset ?ys = mset ?xs" by (simp add: mset_ordered_pairs)
  have "sort (map pair_key ?ys) = map pair_key ?xs" by (rule properties_for_sort [OF _ dist(2)]) (simp add: mset del: mset_sort_by)
  then have "map pair_key ?ys = map pair_key ?xs" by (simp only: sorted_sort_id [OF sorted_sort_by_key])
  moreover have "inj_on pair_key (set ?xs \<union> set ?ys)" using dist(1) mset_eq_setD [OF mset] by (simp add: distinct_map)
  ultimately have "?ys = ?xs" using inj_on_map_eq_map [of pair_key ?ys ?xs] by (simp add: Un_commute)
  then show ?thesis by (simp add: batch_names_def ordered_pairs_names)
qed

end
