(* ===== verification/SymbolAssign.thy ===== *)
theory SymbolAssign
  imports SymbolNumber
begin

text \<open>
  The end of a batch (src/src/symbols/table.rs): the final ids go to the pending names of each shard, to
  their slots and to the jobs, and the outcome of the three passes is that of the reference order.
\<close>

section \<open>The ids of the pending names\<close>

definition entry_target :: "pending_entry \<Rightarrow> nat \<times> nat" where
  "entry_target = (\<lambda>(_, s, l). (unat s, unat l))"

definition assigned_at :: "'t shard list \<Rightarrow> nat \<times> nat \<Rightarrow> u32" where
  "assigned_at shards = (\<lambda>(k, l). sh_assigned (shards ! k) ! l)"

definition assigned_in :: "'t shard list \<Rightarrow> nat \<times> nat \<Rightarrow> bool" where
  "assigned_in shards = (\<lambda>(k, l). k < length shards \<and> l < length (sh_assigned (shards ! k)))"

text \<open>Shards that differ in their ids only.\<close>

definition same_shards :: "'t shard list \<Rightarrow> 't shard list \<Rightarrow> bool" where
  "same_shards shards shards' \<longleftrightarrow> length shards' = length shards \<and> (\<forall>k<length shards. sh_table (shards' ! k) = sh_table (shards ! k) \<and>
     sh_pending (shards' ! k) = sh_pending (shards ! k) \<and> length (sh_assigned (shards' ! k)) = length (sh_assigned (shards ! k)))"

lemma same_shards_refl: "same_shards shards shards"
  by (simp add: same_shards_def)

lemma same_shards_trans: "same_shards a b \<Longrightarrow> same_shards b c \<Longrightarrow> same_shards a c"
  by (simp add: same_shards_def)

lemma store_assigned_one:
  assumes "assigned_in shards (entry_target e)"
  shows "same_shards shards (store_assigned base shards (r, e))"
    "assigned_at (store_assigned base shards (r, e)) x = (if x = entry_target e then of_nat (base + r) else assigned_at shards x)"
proof -
  obtain f s l where e: "e = (f, s, l)" by (cases e)
  let ?shard = "(shards ! unat s)\<lparr>sh_assigned := (sh_assigned (shards ! unat s))[unat l := of_nat (base + r)]\<rparr>"
  have st: "store_assigned base shards (r, e) = shards[unat s := ?shard]" by (simp add: store_assigned_def e Let_def)
  show "same_shards shards (store_assigned base shards (r, e))"
    using nth_update_same [of sh_table ?shard shards "unat s"] nth_update_same [of sh_pending ?shard shards "unat s"]
      nth_update_same [of "\<lambda>shard. length (sh_assigned shard)" ?shard shards "unat s"]
    unfolding st by (simp add: same_shards_def)
  obtain k j where x: "x = (k, j)" by (cases x)
  show "assigned_at (store_assigned base shards (r, e)) x = (if x = entry_target e then of_nat (base + r) else assigned_at shards x)"
    using assms unfolding st x by (cases "k = unat s"; cases "j = unat l") (simp_all add: e assigned_at_def assigned_in_def entry_target_def)
qed

lemma store_assigned_loop:
  assumes "distinct (map entry_target es)" "\<forall>e\<in>set es. assigned_in shards (entry_target e)"
  shows "same_shards shards (foldl (store_assigned base) shards (List.enumerate n es)) \<and>
    (\<forall>r<length es. assigned_at (foldl (store_assigned base) shards (List.enumerate n es)) (entry_target (es ! r)) = of_nat (base + (n + r))) \<and>
    (\<forall>x. x \<notin> entry_target ` set es \<longrightarrow> assigned_at (foldl (store_assigned base) shards (List.enumerate n es)) x = assigned_at shards x)"
  using assms
proof (induction es arbitrary: shards n)
  case Nil
  then show ?case by (simp add: same_shards_refl)
next
  case (Cons e es)
  let ?shards = "store_assigned base shards (n, e)"
  have e: "assigned_in shards (entry_target e)" using Cons.prems(2) by simp
  note one = store_assigned_one [OF e, where base = base and r = n]
  have "\<forall>e\<in>set es. assigned_in ?shards (entry_target e)"
    using Cons.prems(2) one(1) by (auto simp: assigned_in_def same_shards_def split: prod.splits)
  from Cons.IH [OF _ this, of "Suc n"] Cons.prems(1)
  have ih: "same_shards ?shards (foldl (store_assigned base) ?shards (List.enumerate (Suc n) es))"
    "\<And>r. r < length es \<Longrightarrow> assigned_at (foldl (store_assigned base) ?shards (List.enumerate (Suc n) es)) (entry_target (es ! r)) = of_nat (base + (Suc n + r))"
    "\<And>x. x \<notin> entry_target ` set es \<Longrightarrow> assigned_at (foldl (store_assigned base) ?shards (List.enumerate (Suc n) es)) x = assigned_at ?shards x"
    by auto
  have "assigned_at (foldl (store_assigned base) ?shards (List.enumerate (Suc n) es)) (entry_target ((e # es) ! r)) = of_nat (base + (n + r))"
    if "r < length (e # es)" for r
  proof (cases r)
    case 0
    then show ?thesis using ih(3) [of "entry_target e"] one(2) [of "entry_target e"] Cons.prems(1) by simp
  next
    case (Suc q)
    then show ?thesis using ih(2) [of q] that by simp
  qed
  moreover have "assigned_at (foldl (store_assigned base) ?shards (List.enumerate (Suc n) es)) x = assigned_at shards x"
    if "x \<notin> entry_target ` set (e # es)" for x
    using ih(3) [of x] one(2) [of x] that by auto
  ultimately show ?case using same_shards_trans [OF one(1) ih(1)] by auto
qed

section \<open>The slots of a shard\<close>

text \<open>A map with final ids and handles of the names of a pending list.\<close>

definition mixed :: "symbol_name list \<Rightarrow> symbol_name list \<Rightarrow> (symbol_name \<rightharpoonup> u32) \<Rightarrow> usize \<Rightarrow> bool" where
  "mixed names p m s \<longleftrightarrow> (\<forall>n v. m n = Some v \<and> name_shard n = s \<longrightarrow>
     name_ids names n = Some v \<or> (\<exists>l<length p. v = handle l \<and> p ! l = n \<and> l < MAX_SYMBOLS))"

lemma mixedE:
  assumes "mixed names p m s" "m n = Some v" "name_shard n = s"
  obtains "name_ids names n = Some v" | l where "l < length p" "v = handle l" "p ! l = n" "l < MAX_SYMBOLS"
  using assms unfolding mixed_def by blast

lemma final_not_handle: "distinct names \<Longrightarrow> length names \<le> MAX_SYMBOLS \<Longrightarrow> name_ids names n = Some v \<Longrightarrow> v \<noteq> handle l"
  using handle_pending [of l] by (auto simp: name_ids_iff final_iff)

lemma mixed_inj:
  assumes names: "distinct names" "length names \<le> MAX_SYMBOLS" and m: "mixed names p m s"
  shows "shard_inj m s"
  unfolding shard_inj_def
proof (intro allI impI, elim conjE)
  fix a b v
  assume a: "m a = Some v" "name_shard a = s" and b: "m b = Some v" "name_shard b = s"
  from m a show "a = b"
  proof (cases rule: mixedE)
    case 1
    from m b show ?thesis by (cases rule: mixedE) (use 1 names final_not_handle [OF names] in \<open>auto simp: name_ids_iff\<close>)
  next
    case (2 l)
    from m b show ?thesis by (cases rule: mixedE) (use 2 final_not_handle [OF names] in \<open>auto simp: handle_inj\<close>)
  qed
qed

lemma finish_record_rep:
  assumes laws: "hash_table_laws ht slot_hash elems" and names: "distinct names" "length names \<le> MAX_SYMBOLS"
    and rep: "shard_rep elems t m s" and m: "mixed names p m s"
    and n: "name_shard n = s" "m n = Some (handle l)" "name_ids names n = Some w" "assigned ! l = w" "pn_name rc = n"
  shows "shard_rep elems (finish_record ht assigned t (l, rc)) (m(n \<mapsto> w)) s"
proof -
  have inj: "shard_inj m s" using names m by (rule mixed_inj)
  have find: "ht_find ht t (name_hash n) (\<lambda>slot. slt_value slot = handle l) = Some (slot_of n (handle l))"
    by (rule shard_find_value [OF laws rep inj n(2,1)])
  have fresh: False if "m a = Some w" "name_shard a = s" for a
    using m that
  proof (cases rule: mixedE)
    case 1
    then have "a = n" using n(3) names by (simp add: name_ids_iff)
    then show False using that n(2) final_not_handle [OF names n(3), of l] by simp
  qed (use final_not_handle [OF names n(3)] in simp)
  have "finish_record ht assigned t (l, rc) = ht_update ht t (name_hash n) (\<lambda>slot. slt_value slot = handle l) (\<lambda>slot. slot\<lparr>slt_value := w\<rparr>)"
    using find n(4,5) by (simp add: finish_record_def Let_def flip: handle_def)
  then show ?thesis using shard_rep_update [OF laws rep inj n(2,1) fresh] by simp
qed

lemma mixed_upd: "mixed names p m s \<Longrightarrow> name_ids names n = Some w \<Longrightarrow> mixed names p (m(n \<mapsto> w)) s"
  by (auto simp: mixed_def)

lemma finish_loop:
  assumes laws: "hash_table_laws ht slot_hash elems" and names: "distinct names" "length names \<le> MAX_SYMBOLS"
    and p: "distinct p" "\<forall>n\<in>set p. name_shard n = s \<and> n \<in> set names" "\<forall>l<length p. assigned ! l = id_in names (p ! l)"
    and pre: "p = pre @ map pn_name suf"
  shows "shard_rep elems t m s \<Longrightarrow> mixed names p m s \<Longrightarrow> \<forall>l. length pre \<le> l \<and> l < length p \<longrightarrow> m (p ! l) = Some (handle l) \<Longrightarrow>
    shard_rep elems (foldl (finish_record ht assigned) t (List.enumerate (length pre) suf))
      (\<lambda>n. if n \<in> pn_name ` set suf then name_ids names n else m n) s"
  using pre
proof (induction suf arbitrary: pre t m)
  case Nil
  then show ?case by simp
next
  case (Cons rc suf)
  let ?n = "pn_name rc" and ?l = "length pre"
  have l: "?l < length p" "p ! ?l = ?n" using Cons.prems(4) by simp_all
  then have n: "?n \<in> set names" "name_shard ?n = s" using p(2) nth_mem [of ?l p] by auto
  then have id: "name_ids names ?n = Some (id_in names ?n)" using name_ids_None [of names ?n] by (auto simp: id_in_def)
  have "m ?n = Some (handle ?l)" using Cons.prems(3) [rule_format, of ?l] l by simp
  then have rep: "shard_rep elems (finish_record ht assigned t (?l, rc)) (m(?n \<mapsto> id_in names ?n)) s"
    using l p(3) by (intro finish_record_rep [OF laws names Cons.prems(1,2) n(2) _ id]) auto
  have rest: "\<forall>l. length (pre @ [?n]) \<le> l \<and> l < length p \<longrightarrow> (m(?n \<mapsto> id_in names ?n)) (p ! l) = Some (handle l)"
  proof (intro allI impI, elim conjE)
    fix k assume k: "length (pre @ [?n]) \<le> k" "k < length p"
    then have "p ! k \<noteq> ?n" using l p(1) nth_eq_iff_index_eq [of p k ?l] by auto
    then show "(m(?n \<mapsto> id_in names ?n)) (p ! k) = Some (handle k)" using Cons.prems(3) k by simp
  qed
  have "(\<lambda>n. if n \<in> pn_name ` set suf then name_ids names n else (m(?n \<mapsto> id_in names ?n)) n) =
      (\<lambda>n. if n \<in> pn_name ` set (rc # suf) then name_ids names n else m n)" by (rule ext) (simp add: id)
  then show ?case
    using Cons.IH [OF rep mixed_upd [OF Cons.prems(2) id] rest] Cons.prems(4) by (simp add: enumerate_simps)
qed

lemma finish_shard_rep:
  assumes laws: "hash_table_laws ht slot_hash elems" and inv: "pass_inv elems st" and s: "s < SHARD_COUNT"
    and N: "N = st_names st @ new" "distinct N" "length N \<le> MAX_SYMBOLS" "\<forall>n\<in>set N. name_shard n = s \<longrightarrow> n \<in> set (st_names st) \<or> n \<in> set (pending_in st s)"
      "set (pending_in st s) \<subseteq> set N"
    and shard: "sh_table shard = sh_table (st_shards st ! s)" "sh_pending shard = sh_pending (st_shards st ! s)"
      "\<forall>l<length (pending_in st s). sh_assigned shard ! l = id_in N (pending_in st s ! l)"
  shows "shard_rep elems (sh_table (finish_shard ht shard)) (name_ids N) s"
proof -
  let ?p = "pending_in st s" and ?m = "slot_map (st_names st) (pending_in st)"
  have ok: "pend_ok (st_names st) (pending_in st)" and names: "distinct (st_names st)" "length (st_names st) \<le> MAX_SYMBOLS"
    using inv by (simp_all add: pass_inv_def)
  note pend = pend_okD [OF ok s]
  have rep: "shard_rep elems (sh_table shard) ?m s" using inv s by (simp add: pass_inv_def tables_rep_def shard(1))
  have known: "name_ids N n = name_ids (st_names st) n" if "n \<in> set (st_names st)" for n using that by (simp add: N(1) name_ids_append)
  have mixed: "mixed N ?p ?m s"
    unfolding mixed_def
  proof (intro allI impI, elim conjE)
    fix n v assume "?m n = Some v" and n: "name_shard n = s"
    with ok show "name_ids N n = Some v \<or> (\<exists>l<length ?p. v = handle l \<and> ?p ! l = n \<and> l < MAX_SYMBOLS)"
    proof (cases rule: slot_map_cases)
      case known': known
      then have "n \<in> set (st_names st)" using name_ids_None [of "st_names st" n] by auto
      then show ?thesis using known known' by simp
    qed (use n in auto)
  qed
  have "?m (?p ! l) = Some (handle l)" if "l < length ?p" for l
  proof -
    have "name_shard (?p ! l) = s" "name_ids (st_names st) (?p ! l) = None"
      using pend(3,4) [OF nth_mem [OF that]] by (simp_all add: name_ids_None)
    moreover have "position (\<lambda>x. x = ?p ! l) ?p = Some l" using that by (simp add: position_eq_Some [OF pend(1)])
    ultimately show ?thesis by (simp add: slot_map_def)
  qed
  moreover have inN: "\<forall>n\<in>set ?p. name_shard n = s \<and> n \<in> set N" using pend(3) N(5) by blast
  moreover have "?p = [] @ map pn_name (sh_pending shard)" by (simp add: pending_in_def shard(2))
  ultimately have "shard_rep elems (sh_table (finish_shard ht shard)) (\<lambda>n. if n \<in> pn_name ` set (sh_pending shard) then name_ids N n else ?m n) s"
    using finish_loop [OF laws N(2,3) pend(1) inN shard(3) _ rep mixed, of "[]" "sh_pending shard"] by (simp add: finish_shard_def)
  then show ?thesis
  proof (rule shard_rep_cong)
    fix n assume n: "name_shard n = s"
    have "?m n = name_ids N n" if no: "n \<notin> set ?p"
    proof (cases "n \<in> set (st_names st)")
      case True
      then show ?thesis using known name_ids_None [of "st_names st" n] by (auto simp: slot_map_def split: option.split)
    next
      case False
      then have "name_ids N n = None" using no N(4) n by (auto simp: name_ids_None)
      moreover have "?m n = None" using False no n by (simp add: slot_map_None [OF ok])
      ultimately show ?thesis by simp
    qed
    then show "(if n \<in> pn_name ` set (sh_pending shard) then name_ids N n else ?m n) = name_ids N n"
      by (simp add: shard(2) pending_in_def)
  qed (simp add: dom_name_ids)
qed

section \<open>The table after pass 2\<close>

text \<open>Writing the active shards back.\<close>

lemma write_back:
  assumes "distinct is" "length ys = length is" "\<forall>i\<in>set is. i < length xs"
  shows "length (foldl (\<lambda>xs (i, y). xs[i := y]) xs (zip is ys)) = length xs \<and>
    (\<forall>k<length is. foldl (\<lambda>xs (i, y). xs[i := y]) xs (zip is ys) ! (is ! k) = ys ! k) \<and>
    (\<forall>j. j \<notin> set is \<longrightarrow> foldl (\<lambda>xs (i, y). xs[i := y]) xs (zip is ys) ! j = xs ! j)"
  using assms
proof (induction "is" arbitrary: xs ys)
  case (Cons i "is")
  then obtain y ys' where ys: "ys = y # ys'" by (cases ys) auto
  from Cons.IH [of ys' "xs[i := y]"] Cons.prems
  have ih: "length (foldl (\<lambda>xs (i, y). xs[i := y]) (xs[i := y]) (zip is ys')) = length xs"
    "\<forall>k<length is. foldl (\<lambda>xs (i, y). xs[i := y]) (xs[i := y]) (zip is ys') ! (is ! k) = ys' ! k"
    "\<And>j. j \<notin> set is \<Longrightarrow> foldl (\<lambda>xs (i, y). xs[i := y]) (xs[i := y]) (zip is ys') ! j = xs[i := y] ! j"
    by (auto simp: ys)
  have "foldl (\<lambda>xs (i, y). xs[i := y]) xs (zip (i # is) ys) ! ((i # is) ! k) = ys ! k" if "k < length (i # is)" for k
    using ih(2) ih(3) [of i] Cons.prems that by (cases k) (simp_all add: ys)
  moreover have "foldl (\<lambda>xs (i, y). xs[i := y]) xs (zip (i # is) ys) ! j = xs ! j" if "j \<notin> set (i # is)" for j
    using ih(3) [of j] that by (simp add: ys)
  ultimately show ?case using ih(1) by (simp add: ys)
qed simp

definition cleared_view :: "'t symbol_table \<Rightarrow> 't shard list" where
  "cleared_view st = map (\<lambda>shard. shard\<lparr>sh_assigned := replicate (length (sh_pending shard)) (- 1)\<rparr>) (active_view st)"

definition assigned_view :: "'t symbol_table \<Rightarrow> 't shard list" where
  "assigned_view st = foldl (store_assigned (length (st_names st))) (cleared_view st) (List.enumerate 0 (pending_order (active_view st)))"

lemma entry_target_at: "shards_small shards \<Longrightarrow> x \<in> set (entry_ix shards) \<Longrightarrow> entry_target (entry_at shards x) = x"
proof -
  assume small: "shards_small shards" and x: "x \<in> set (entry_ix shards)"
  obtain k l where kl: "x = (k, l)" by (cases x)
  show ?thesis using entry_at_ix(1,2) [OF small x [unfolded kl]] by (simp add: kl entry_target_def entry_at_def)
qed

lemma id_in_nth: "distinct names \<Longrightarrow> length names \<le> MAX_SYMBOLS \<Longrightarrow> i < length names \<Longrightarrow> id_in names (names ! i) = of_nat i"
  using name_ids_iff [of names "names ! i" "of_nat i"] by (simp add: id_in_def unat_of_id)

lemma assigned_view_spec:
  assumes inv: "pass_inv elems st" and N: "N = st_names st @ new_names st" "distinct N" "length N \<le> MAX_SYMBOLS"
  shows "length (assigned_view st) = length (active_shards st)"
    "k < length (active_shards st) \<Longrightarrow> sh_table (assigned_view st ! k) = sh_table (st_shards st ! (active_shards st ! k))"
    "k < length (active_shards st) \<Longrightarrow> sh_pending (assigned_view st ! k) = sh_pending (st_shards st ! (active_shards st ! k))"
    "k < length (active_shards st) \<Longrightarrow> length (sh_assigned (assigned_view st ! k)) = length (pending_in st (active_shards st ! k))"
    "k < length (active_shards st) \<Longrightarrow> l < length (pending_in st (active_shards st ! k)) \<Longrightarrow>
      sh_assigned (assigned_view st ! k) ! l = id_in N (pending_in st (active_shards st ! k) ! l)"
proof -
  let ?V = "active_view st" and ?order = "pending_order (active_view st)"
  note small = active_view_small [OF inv]
  have lenV: "length ?V = length (active_shards st)" by (simp add: active_view_def)
  have "map entry_target (map (entry_at ?V) (entry_ix ?V)) = entry_ix ?V"
    unfolding map_map by (rule map_idI) (simp add: entry_target_at [OF small])
  moreover have "mset (map entry_target ?order) = mset (map entry_target (map (entry_at ?V) (entry_ix ?V)))"
    unfolding mset_map pending_order_def mset_sort_by pending_entries_ix ..
  ultimately have mset: "mset (map entry_target ?order) = mset (entry_ix ?V)" by metis
  then have dist: "distinct (map entry_target ?order)" using distinct_entry_ix mset_eq_imp_distinct_iff by blast
  have range: "\<forall>e\<in>set ?order. assigned_in (cleared_view st) (entry_target e)"
  proof
    fix e assume "e \<in> set ?order"
    then have "entry_target e \<in> set (map entry_target ?order)" by simp
    then have "entry_target e \<in> set (entry_ix ?V)" unfolding mset_eq_setD [OF mset] .
    then show "assigned_in (cleared_view st) (entry_target e)"
      by (auto simp: set_entry_ix assigned_in_def cleared_view_def)
  qed
  note loop = store_assigned_loop [OF dist range, of "length (st_names st)" 0, folded assigned_view_def]
  then have same: "same_shards (cleared_view st) (assigned_view st)" by blast
  then show "length (assigned_view st) = length (active_shards st)" by (simp add: same_shards_def cleared_view_def lenV)
  show "sh_table (assigned_view st ! k) = sh_table (st_shards st ! (active_shards st ! k))"
      "sh_pending (assigned_view st ! k) = sh_pending (st_shards st ! (active_shards st ! k))"
      "length (sh_assigned (assigned_view st ! k)) = length (pending_in st (active_shards st ! k))" if k: "k < length (active_shards st)" for k
    using same k active_view_nth(1) [OF inv k] by (simp_all add: same_shards_def cleared_view_def lenV pending_in_def)
  show "sh_assigned (assigned_view st ! k) ! l = id_in N (pending_in st (active_shards st ! k) ! l)"
    if k: "k < length (active_shards st)" and l: "l < length (pending_in st (active_shards st ! k))" for k l
  proof -
    have ix: "(k, l) \<in> set (entry_ix ?V)" using k l active_view_nth(1) [OF inv k] by (simp add: set_entry_ix lenV pending_in_def)
    then obtain r where r: "r < length ?order" "?order ! r = entry_at ?V (k, l)"
      using set_pending_order [of ?V] by (metis imageI in_set_conv_nth)
    have "sh_assigned (assigned_view st ! k) ! l = of_nat (length (st_names st) + r)"
      using loop r entry_target_at [OF small ix] by (auto simp: assigned_at_def)
    moreover have "new_names st ! r = pending_in st (active_shards st ! k) ! l"
      using r entry_pending(4) [OF inv ix] by (simp add: new_names_def)
    then have "N ! (length (st_names st) + r) = pending_in st (active_shards st ! k) ! l" by (simp add: N(1))
    moreover have "length (st_names st) + r < length N" using r(1) by (simp add: N(1) new_names_def)
    ultimately show ?thesis using id_in_nth [OF N(2,3), of "length (st_names st) + r"] by simp
  qed
qed

lemma assign_pending_spec:
  assumes laws: "hash_table_laws ht slot_hash elems" and inv: "pass_inv elems st"
    and N: "N = st_names st @ new_names st" "length N \<le> MAX_SYMBOLS"
  shows "\<exists>shards. assign_pending ht (active_shards st) (length (st_names st)) c st = Some (grow_state c (st\<lparr>st_names := N, st_shards := shards\<rparr>)) \<and>
    tables_rep elems shards (name_ids N) \<and> (\<forall>s<SHARD_COUNT. sh_pending (shards ! s) = [] \<and>
      length (sh_assigned (shards ! s)) = length (pending_in st s) \<and>
      (\<forall>l<length (pending_in st s). sh_assigned (shards ! s) ! l = id_in N (pending_in st s ! l)))"
proof -
  have ok: "pend_ok (st_names st) (pending_in st)" and names: "distinct (st_names st)" using inv by (simp_all add: pass_inv_def)
  have newset: "set (new_names st) = (\<Union>s<SHARD_COUNT. set (pending_in st s))" by (rule set_new_names [OF inv])
  have dist: "distinct N"
    using names distinct_new_names [OF inv] newset pend_okD(4) [OF ok] by (auto simp: N(1))
  note view = assigned_view_spec [OF inv N(1) dist N(2)]
  let ?act = "active_shards st" and ?fin = "map (finish_shard ht) (assigned_view st)"
  let ?shards = "foldl (\<lambda>shards (s, shard). shards[s := shard]) (st_shards st) (zip ?act ?fin)"
  note act = active_iff [OF inv]
  have wb: "length ?shards = length (st_shards st)" "\<And>k. k < length ?act \<Longrightarrow> ?shards ! (?act ! k) = finish_shard ht (assigned_view st ! k)"
      "\<And>j. j \<notin> set ?act \<Longrightarrow> ?shards ! j = st_shards st ! j"
    using write_back [of ?act ?fin "st_shards st"] view(1) act pass_shards [OF inv] distinct_active [of st] by auto
  have "select_mut (st_shards st) ?act = Some (active_view st)"
    unfolding active_view_def by (rule select_mut_sorted [OF active_sorted(1)]) (use act pass_shards [OF inv] in auto)
  then have run: "assign_pending ht ?act (length (st_names st)) c st = Some (grow_state c (st\<lparr>st_names := N, st_shards := ?shards\<rparr>))"
    by (simp add: assign_pending_def Let_def N(1) new_names_def assigned_view_def cleared_view_def pending_order_def)
  have inN: "\<forall>n\<in>set N. name_shard n = s \<longrightarrow> n \<in> set (st_names st) \<or> n \<in> set (pending_in st s)" for s
    using newset pend_okD(3) [OF ok] by (auto simp: N(1))
  have each: "shard_rep elems (sh_table (?shards ! s)) (name_ids N) s \<and> sh_pending (?shards ! s) = [] \<and>
      length (sh_assigned (?shards ! s)) = length (pending_in st s) \<and>
      (\<forall>l<length (pending_in st s). sh_assigned (?shards ! s) ! l = id_in N (pending_in st s ! l))" if s: "s < SHARD_COUNT" for s
  proof (cases "s \<in> set ?act")
    case True
    then obtain k where k: "k < length ?act" "s = ?act ! k" by (auto simp: in_set_conv_nth)
    have sub: "set (pending_in st s) \<subseteq> set N" using newset s by (auto simp: N(1))
    have "shard_rep elems (sh_table (finish_shard ht (assigned_view st ! k))) (name_ids N) s"
      by (rule finish_shard_rep [OF laws inv s N(1) dist N(2) inN sub]) (use view k in auto)
    then show ?thesis using wb(2) [OF k(1)] view k by (simp add: finish_shard_def)
  next
    case False
    then have none: "pending_in st s = []" using act s by blast
    have "shard_rep elems (sh_table (st_shards st ! s)) (slot_map (st_names st) (pending_in st)) s" using inv s by (simp add: pass_inv_def tables_rep_def)
    then have "shard_rep elems (sh_table (st_shards st ! s)) (name_ids N) s"
    proof (rule shard_rep_cong)
      fix n assume n: "name_shard n = s"
      show "slot_map (st_names st) (pending_in st) n = name_ids N n"
      proof (cases "n \<in> set (st_names st)")
        case True
        then show ?thesis using name_ids_None [of "st_names st" n] by (auto simp: slot_map_def N(1) name_ids_append)
      next
        case False
        then have "name_ids N n = None" using inN [of s] n none by (auto simp: name_ids_None)
        then show ?thesis using False n none by (simp add: slot_map_None [OF ok])
      qed
    qed (simp add: dom_name_ids)
    moreover have "sh_assigned (st_shards st ! s) = []" using inv s pass_shards [OF inv] by (simp add: pass_inv_def)
    ultimately show ?thesis using wb(3) [OF False] none by (simp add: pending_in_def)
  qed
  then have "tables_rep elems ?shards (name_ids N)" using wb(1) pass_shards [OF inv] by (simp add: tables_rep_def)
  with run each show ?thesis by blast
qed

section \<open>Updating the active shards\<close>

lemma foldl_shards:
  assumes "distinct is" "\<forall>s\<in>set is. s < length (st_shards st)"
  shows "\<exists>shards. foldl (\<lambda>st s. st\<lparr>st_shards := (st_shards st)[s := f (st_shards st ! s)]\<rparr>) st is = st\<lparr>st_shards := shards\<rparr> \<and>
    length shards = length (st_shards st) \<and> (\<forall>s. shards ! s = (if s \<in> set is then f (st_shards st ! s) else st_shards st ! s))"
  using assms
proof (induction "is" arbitrary: st)
  case Nil
  then show ?case by (intro exI [of _ "st_shards st"]) simp
next
  case (Cons i "is")
  let ?st = "st\<lparr>st_shards := (st_shards st)[i := f (st_shards st ! i)]\<rparr>"
  from Cons.IH [of ?st] Cons.prems obtain shards where shards:
      "foldl (\<lambda>st s. st\<lparr>st_shards := (st_shards st)[s := f (st_shards st ! s)]\<rparr>) ?st is = ?st\<lparr>st_shards := shards\<rparr>"
      "length shards = length (st_shards st)" "\<forall>s. shards ! s = (if s \<in> set is then f (st_shards ?st ! s) else st_shards ?st ! s)"
    by auto
  have "shards ! s = (if s \<in> set (i # is) then f (st_shards st ! s) else st_shards st ! s)" for s
    using shards(3) Cons.prems by (auto simp: nth_list_update)
  then show ?case using shards(1,2) by (intro exI [of _ shards]) simp
qed

lemma discard_pending_spec:
  assumes laws: "hash_table_laws ht slot_hash elems" and inv: "pass_inv elems st" and le: "length (st_names st) \<le> st_limit st" "st_limit st \<le> MAX_SYMBOLS"
  shows "grown st [] (discard_pending ht (active_shards st) st) \<and> names_inv elems (discard_pending ht (active_shards st) st)"
proof -
  let ?f = "\<lambda>shard. shard\<lparr>sh_table := ht_retain ht (sh_table shard) (\<lambda>slot. slt_value slot AND PENDING = 0), sh_pending := []\<rparr>"
  have ok: "pend_ok (st_names st) (pending_in st)" and names: "distinct (st_names st)" "length (st_names st) \<le> MAX_SYMBOLS"
    using inv by (simp_all add: pass_inv_def)
  note act = active_iff [OF inv]
  have "\<forall>s\<in>set (active_shards st). s < length (st_shards st)" using act pass_shards [OF inv] by simp
  from foldl_shards [OF distinct_active this, of ?f] obtain shards where
      run: "discard_pending ht (active_shards st) st = st\<lparr>st_shards := shards\<rparr>" and len: "length shards = length (st_shards st)"
      and nth: "\<forall>s. shards ! s = (if s \<in> set (active_shards st) then ?f (st_shards st ! s) else st_shards st ! s)"
    unfolding discard_pending_def Let_def by blast
  have final: "name_ids (st_names st) n = (case slot_map (st_names st) (pending_in st) n of None \<Rightarrow> None
      | Some v \<Rightarrow> if v AND PENDING = 0 then Some v else None)" for n
  proof (cases "name_ids (st_names st) n")
    case None
    then show ?thesis using handle_pending by (auto simp: slot_map_def split: option.split)
  next
    case (Some v)
    then have "v AND PENDING = 0" using names by (auto simp: name_ids_iff final_iff)
    then show ?thesis using Some by (simp add: slot_map_def)
  qed
  have rep: "shard_rep elems (sh_table (st_shards st ! s)) (slot_map (st_names st) (pending_in st)) s" if "s < SHARD_COUNT" for s
    using inv that by (simp add: pass_inv_def tables_rep_def)
  have each: "shard_rep elems (sh_table (shards ! s)) (name_ids (st_names st)) s" "sh_pending (shards ! s) = []" if s: "s < SHARD_COUNT" for s
  proof -
    have "shard_rep elems (sh_table (st_shards st ! s)) (name_ids (st_names st)) s" if none: "pending_in st s = []"
      using rep [OF s]
    proof (rule shard_rep_cong)
      fix n assume "name_shard n = s"
      then show "slot_map (st_names st) (pending_in st) n = name_ids (st_names st) n"
        using none by (auto simp: slot_map_def position_def split: option.split)
    qed (simp add: dom_name_ids)
    then show "shard_rep elems (sh_table (shards ! s)) (name_ids (st_names st)) s"
      using nth [rule_format, of s] act [of s] s shard_rep_retain [OF laws rep [OF s], of "name_ids (st_names st)" "\<lambda>v. v AND PENDING = 0", OF final]
      by auto
    show "sh_pending (shards ! s) = []" using nth [rule_format, of s] act [of s] s by (auto simp: pending_in_def)
  qed
  have "sh_assigned (st_shards st ! s) = []" if "s < SHARD_COUNT" for s using inv that pass_shards [OF inv] by (simp add: pass_inv_def)
  then have "\<forall>shard\<in>set shards. sh_pending shard = [] \<and> sh_assigned shard = []"
    using each(2) nth len pass_shards [OF inv] by (auto simp: in_set_conv_nth)
  then have "names_inv elems (st\<lparr>st_shards := shards\<rparr>)"
    using each(1) len pass_shards [OF inv] names le by (simp add: names_inv_def tables_rep_def)
  then show ?thesis unfolding run by (auto intro: grownI)
qed

section \<open>Pass 3\<close>

lemma rewrite_spec:
  assumes inv: "seen_inv elems st0 jobs seen False st" and N: "N = st_names st @ new" "distinct N" "length N \<le> MAX_SYMBOLS"
    and assigned: "\<forall>s<SHARD_COUNT. length (sh_assigned (shards ! s)) = length (pending_in st s) \<and>
      (\<forall>l<length (pending_in st s). sh_assigned (shards ! s) ! l = id_in N (pending_in st s ! l))"
    and oc: "oc \<in> seen"
  shows "rewrite_id shards (the (slot_map (st_names st) (pending_in st) (occ_name jobs oc)), occ_name jobs oc) = Some (id_in N (occ_name jobs oc))"
proof -
  let ?n = "occ_name jobs oc"
  have ok: "pend_ok (st_names st) (pending_in st)" and names: "distinct (st_names st)" "length (st_names st) \<le> MAX_SYMBOLS"
    using inv by (simp_all add: seen_inv_def pass_inv_def)
  obtain v where v: "slot_map (st_names st) (pending_in st) ?n = Some v" using slot_map_seen [OF inv oc] by blast
  from ok v show ?thesis
  proof (cases rule: slot_map_cases)
    case known
    then have "v AND PENDING = 0" using names by (auto simp: name_ids_iff final_iff)
    moreover have "?n \<in> set (st_names st)" using known name_ids_None [of "st_names st" ?n] by auto
    then have "id_in N ?n = v" using known by (simp add: N(1) id_in_append) (simp add: id_in_def)
    ultimately show ?thesis by (simp add: rewrite_id_def id_as_u32_def v)
  next
    case (pend l)
    then show ?thesis using assigned
      by (simp add: rewrite_id_def id_as_u32_def id_from_u32_def v handle_pending handle_local unat_of_id get_nth_def)
  qed
qed

lemma rewrite_jobs:
  assumes same: "same_jobs jobs jobs1" and ok: "jobs_ok jobs"
    and each: "\<And>oc. oc \<in> set (job_occurrences jobs) \<Longrightarrow> rewrite_id shards (occ_id jobs1 oc, occ_name jobs oc) = Some (id_in N (occ_name jobs oc))"
  shows "collect_options (map (rewrite_job shards) jobs1) = Some (map (with_ids N) jobs)"
proof -
  have "rewrite_job shards (jobs1 ! j) = Some (with_ids N (jobs ! j))" if j: "j < length jobs" for j
  proof -
    have job: "ij_names (jobs1 ! j) = ij_names (jobs ! j)" "ij_position (jobs1 ! j) = ij_position (jobs ! j)"
        "length (ij_ids (jobs1 ! j)) = length (ij_names (jobs ! j))"
      using same ok j by (auto simp: same_jobs_def jobs_ok_def)
    have "map (rewrite_id shards) (zip (ij_ids (jobs1 ! j)) (ij_names (jobs1 ! j))) = map Some (map (id_in N) (ij_names (jobs ! j)))"
    proof (rule nth_equalityI)
      fix i assume "i < length (map (rewrite_id shards) (zip (ij_ids (jobs1 ! j)) (ij_names (jobs1 ! j))))"
      then have i: "i < length (ij_names (jobs ! j))" using job by simp
      then show "map (rewrite_id shards) (zip (ij_ids (jobs1 ! j)) (ij_names (jobs1 ! j))) ! i = map Some (map (id_in N) (ij_names (jobs ! j))) ! i"
        using each [of "(j, i)"] j job by (simp add: set_job_occurrences occ_id_def occ_name_def)
    qed (simp add: job)
    then have "collect_options (map (rewrite_id shards) (zip (ij_ids (jobs1 ! j)) (ij_names (jobs1 ! j)))) = Some (map (id_in N) (ij_names (jobs ! j)))"
      by (simp add: collect_options_Some)
    then show ?thesis using job by (simp add: rewrite_job_def write_ids_def with_ids_def)
  qed
  then have "map (rewrite_job shards) jobs1 = map Some (map (with_ids N) jobs)"
    using same by (intro nth_equalityI) (simp_all add: same_jobs_def)
  then show ?thesis by (simp add: collect_options_Some)
qed

section \<open>The outcome of the three passes\<close>

lemma add_names_card: "distinct names \<Longrightarrow> length (add_names names ns) = length names + card (set ns - set names)"
proof -
  assume dist: "distinct names"
  obtain new where new: "add_names names ns = names @ new" using add_names_prefix by blast
  have "distinct (names @ new)" using distinct_add_names [OF dist, of ns] new by simp
  moreover have "set (names @ new) = set names \<union> set ns" using set_add_names [of names ns] new by simp
  ultimately have "set new = set ns - set names" "distinct new" by auto
  then show ?thesis using distinct_card [of new] by (simp add: new)
qed

lemma grow_pass:
  assumes inv: "table_inv elems st" and grown: "grown st [] st1" and N: "N = st_names st @ new" "distinct N" "length N \<le> st_limit st"
    and shards: "tables_rep elems shards (name_ids N)" "\<forall>shard\<in>set shards. sh_pending shard = [] \<and> sh_assigned shard = []"
  shows "table_inv elems (grow_state (length new) (st1\<lparr>st_names := N, st_shards := shards\<rparr>))"
  using assms names_invD(4) [of elems st] by (auto simp: table_inv_def names_inv_def grow_state_def grownD [OF grown])

lemma clear_assigned_spec:
  assumes inv: "pass_inv elems st" and len: "length (st_shards st2) = SHARD_COUNT"
    and pend: "\<forall>s<SHARD_COUNT. sh_pending (st_shards st2 ! s) = [] \<and> length (sh_assigned (st_shards st2 ! s)) = length (pending_in st s)"
  obtains shards where "clear_assigned (active_shards st) st2 = st2\<lparr>st_shards := shards\<rparr>" "length shards = SHARD_COUNT"
    "\<forall>shard\<in>set shards. sh_pending shard = [] \<and> sh_assigned shard = []" "\<forall>s<SHARD_COUNT. sh_table (shards ! s) = sh_table (st_shards st2 ! s)"
proof -
  let ?f = "\<lambda>shard. shard\<lparr>sh_assigned := []\<rparr>"
  note act = active_iff [OF inv]
  have "\<forall>s\<in>set (active_shards st). s < length (st_shards st2)" using act len by simp
  from foldl_shards [OF distinct_active this, of ?f] obtain shards where
      run: "clear_assigned (active_shards st) st2 = st2\<lparr>st_shards := shards\<rparr>" and shards: "length shards = length (st_shards st2)"
      "\<forall>s. shards ! s = (if s \<in> set (active_shards st) then ?f (st_shards st2 ! s) else st_shards st2 ! s)"
    unfolding clear_assigned_def by blast
  have "sh_pending (shards ! s) = [] \<and> sh_assigned (shards ! s) = [] \<and> sh_table (shards ! s) = sh_table (st_shards st2 ! s)" if "s < SHARD_COUNT" for s
    using shards(2) [rule_format, of s] act [of s] pend that by auto
  then show ?thesis using run shards(1) len by (intro that [of shards]) (auto simp: in_set_conv_nth)
qed

lemma same_jobs_ids:
  assumes same: "same_jobs jobs jobs1" and ok: "jobs_ok jobs"
    and each: "\<And>oc. oc \<in> set (job_occurrences jobs) \<Longrightarrow> occ_id jobs1 oc = id_in N (occ_name jobs oc)"
  shows "jobs1 = map (with_ids N) jobs"
proof (rule nth_equalityI)
  fix j assume "j < length jobs1"
  then have j: "j < length jobs" using same by (simp add: same_jobs_def)
  have job: "ij_names (jobs1 ! j) = ij_names (jobs ! j)" "ij_position (jobs1 ! j) = ij_position (jobs ! j)"
      "length (ij_ids (jobs1 ! j)) = length (ij_names (jobs ! j))"
    using same ok j by (auto simp: same_jobs_def jobs_ok_def)
  have "ij_ids (jobs1 ! j) = map (id_in N) (ij_names (jobs ! j))"
    by (rule nth_equalityI) (use each [of "(j, _)"] j job in \<open>simp_all add: set_job_occurrences occ_id_def occ_name_def\<close>)
  then show "jobs1 ! j = map (with_ids N) jobs ! j" using j job by (simp add: with_ids_def)
qed (use same in \<open>simp add: same_jobs_def\<close>)

lemma pass_names_inv:
  assumes "pass_inv elems st" "\<forall>s<SHARD_COUNT. pending_in st s = []" "length (st_names st) \<le> st_limit st" "st_limit st \<le> MAX_SYMBOLS"
  shows "names_inv elems st"
proof -
  have "slot_map (st_names st) (pending_in st) = name_ids (st_names st)"
    by (rule ext) (use assms(2) in \<open>simp add: slot_map_def position_def split: option.split\<close>)
  moreover have "\<forall>shard\<in>set (st_shards st). sh_pending shard = []"
    using assms(2) pass_shards [OF assms(1)] by (auto simp: in_set_conv_nth pending_in_def)
  ultimately show ?thesis using assms by (auto simp: names_inv_def pass_inv_def)
qed

lemma passes_overflow:
  assumes laws: "hash_table_laws ht slot_hash elems" and inv: "table_inv elems st" and pass: "pass_inv elems st1" and grown: "grown st [] st1"
    and big: "st_limit st < length (add_names (st_names st) ns)"
  shows "batch_outcome elems st jobs ns (Err (overflow (st_limit st1)), discard_pending ht (active_shards st1) st1, jobs1)"
proof -
  have ninv: "names_inv elems st" using inv by (simp add: table_inv_def)
  note g = grownD [OF grown, simplified]
  have "length (st_names st1) \<le> st_limit st1" "st_limit st1 \<le> MAX_SYMBOLS" using names_invD [OF ninv] by (simp_all add: g)
  note d = discard_pending_spec [OF laws pass this]
  have undone: "grown st [] (discard_pending ht (active_shards st1) st1)"
    using grown_trans [OF grown, of "[]"] d by simp
  show ?thesis using big d table_inv_back [OF inv undone] by (simp add: batch_outcome_def Let_def g grownD [OF undone])
qed

lemma passes_empty:
  assumes inv: "table_inv elems st" and seen: "seen_inv elems st jobs (set (job_occurrences jobs)) False st1" and same: "same_jobs jobs jobs1"
    and ids: "ids_inv st1 jobs (set (job_occurrences jobs)) jobs1" and ok: "jobs_ok jobs" and hashed: "jobs_hashed hf jobs"
    and none: "active_shards st1 = []"
  shows "batch_outcome elems st jobs (batch_names jobs) (Ok (), st1, jobs1)"
proof -
  have ninv: "names_inv elems st" using inv by (simp add: table_inv_def)
  note invs = names_invD [OF ninv]
  have pass: "pass_inv elems st1" and grown: "grown st [] st1" using seen by (simp_all add: seen_inv_def)
  note g = grownD [OF grown, simplified]
  have no: "\<forall>s<SHARD_COUNT. pending_in st1 s = []" using none active_empty [OF pass] by blast
  let ?ref = "add_names (st_names st) (batch_names jobs)"
  have "set (new_names st1) = {}" using no set_new_names [OF pass] by simp
  then have ref: "?ref = st_names st" using new_names_reference [OF seen hashed] by simp
  have "occ_id jobs1 oc = id_in (st_names st) (occ_name jobs oc)" if oc: "oc \<in> set (job_occurrences jobs)" for oc
  proof -
    have "set (batch_names jobs) \<subseteq> set (st_names st)" using set_add_names [of "st_names st" "batch_names jobs"] ref by auto
    then have "occ_name jobs oc \<in> set (st_names st)" using oc set_batch_names [of jobs] by blast
    then obtain v where "name_ids (st_names st) (occ_name jobs oc) = Some v" using name_ids_None by fastforce
    then show ?thesis using ids oc by (simp add: ids_inv_def g slot_map_def id_in_def)
  qed
  then have jobs1: "jobs1 = map (with_ids (st_names st)) jobs" by (rule same_jobs_ids [OF same ok])
  have "names_inv elems st1" using pass no by (rule pass_names_inv) (use invs in \<open>simp_all add: g\<close>)
  then show ?thesis using ref table_inv_back [OF inv grown] invs by (simp add: batch_outcome_def Let_def jobs1 g)
qed

lemma passes_fit:
  assumes laws: "hash_table_laws ht slot_hash elems" and inv: "table_inv elems st"
    and seen: "seen_inv elems st jobs (set (job_occurrences jobs)) False st1" and same: "same_jobs jobs jobs1"
    and ids: "ids_inv st1 jobs (set (job_occurrences jobs)) jobs1" and ok: "jobs_ok jobs" and hashed: "jobs_hashed hf jobs"
    and fits: "length (st_names st) + length (new_names st1) \<le> st_limit st"
  shows "\<exists>st2 jobs2. assign_pending ht (active_shards st1) (length (st_names st1)) (length (new_names st1)) st1 = Some st2 \<and>
    collect_options (map (rewrite_job (st_shards st2)) jobs1) = Some jobs2 \<and>
    batch_outcome elems st jobs (batch_names jobs) (Ok (), clear_assigned (active_shards st1) st2, jobs2)"
proof -
  have ninv: "names_inv elems st" using inv by (simp add: table_inv_def)
  note invs = names_invD [OF ninv]
  have pass: "pass_inv elems st1" and grown: "grown st [] st1" using seen by (simp_all add: seen_inv_def)
  note g = grownD [OF grown, simplified]
  let ?N = "st_names st @ new_names st1"
  have ref: "add_names (st_names st) (batch_names jobs) = ?N" by (rule new_names_reference [OF seen hashed])
  have distN: "distinct ?N" using distinct_add_names [OF invs(2), of "batch_names jobs"] ref by simp
  have lenN: "length ?N \<le> MAX_SYMBOLS" using fits invs(4) by simp
  obtain shards where a: "assign_pending ht (active_shards st1) (length (st_names st1)) (length (new_names st1)) st1 =
        Some (grow_state (length (new_names st1)) (st1\<lparr>st_names := ?N, st_shards := shards\<rparr>))"
      and rep: "tables_rep elems shards (name_ids ?N)" and pend: "\<forall>s<SHARD_COUNT. sh_pending (shards ! s) = [] \<and>
        length (sh_assigned (shards ! s)) = length (pending_in st1 s) \<and>
        (\<forall>l<length (pending_in st1 s). sh_assigned (shards ! s) ! l = id_in ?N (pending_in st1 s ! l))"
    using assign_pending_spec [OF laws pass, of ?N "length (new_names st1)"] lenN by (auto simp: g)
  let ?st2 = "grow_state (length (new_names st1)) (st1\<lparr>st_names := ?N, st_shards := shards\<rparr>)"
  have sh2: "st_shards ?st2 = shards" by (simp add: grow_state_def)
  have assigned: "\<forall>s<SHARD_COUNT. length (sh_assigned (shards ! s)) = length (pending_in st1 s) \<and>
      (\<forall>l<length (pending_in st1 s). sh_assigned (shards ! s) ! l = id_in ?N (pending_in st1 s ! l))" using pend by blast
  have jobs2: "collect_options (map (rewrite_job shards) jobs1) = Some (map (with_ids ?N) jobs)"
  proof (rule rewrite_jobs [OF same ok])
    fix oc assume oc: "oc \<in> set (job_occurrences jobs)"
    have "occ_id jobs1 oc = the (slot_map (st_names st1) (pending_in st1) (occ_name jobs oc))" using ids oc by (simp add: ids_inv_def)
    then show "rewrite_id shards (occ_id jobs1 oc, occ_name jobs oc) = Some (id_in ?N (occ_name jobs oc))"
      using rewrite_spec [OF seen _ distN lenN assigned oc] by (simp add: g)
  qed
  have len: "length shards = SHARD_COUNT" using rep by (simp add: tables_rep_def)
  have "\<forall>s<SHARD_COUNT. sh_pending (shards ! s) = [] \<and> length (sh_assigned (shards ! s)) = length (pending_in st1 s)" using pend by blast
  with len obtain shards3 where c: "clear_assigned (active_shards st1) ?st2 = ?st2\<lparr>st_shards := shards3\<rparr>" "length shards3 = SHARD_COUNT"
      "\<forall>shard\<in>set shards3. sh_pending shard = [] \<and> sh_assigned shard = []" "\<forall>s<SHARD_COUNT. sh_table (shards3 ! s) = sh_table (shards ! s)"
    by (rule clear_assigned_spec [OF pass, of ?st2, unfolded sh2])
  have rep3: "tables_rep elems shards3 (name_ids ?N)" using rep c(2,4) by (simp add: tables_rep_def)
  have st3: "?st2\<lparr>st_shards := shards3\<rparr> = grow_state (length (new_names st1)) (st1\<lparr>st_names := ?N, st_shards := shards3\<rparr>)"
    by (simp add: grow_state_def)
  have "table_inv elems (?st2\<lparr>st_shards := shards3\<rparr>)"
    unfolding st3 by (rule grow_pass [OF inv grown refl distN _ rep3 c(3)]) (use fits in simp)
  then have "batch_outcome elems st jobs (batch_names jobs) (Ok (), clear_assigned (active_shards st1) ?st2, map (with_ids ?N) jobs)"
    using fits by (simp add: batch_outcome_def Let_def ref c(1)) (simp add: grow_state_def g map_replicate_const)
  then show ?thesis using a jobs2 sh2 by (intro exI [of _ ?st2] exI [of _ "map (with_ids ?N) jobs"]) simp
qed

lemma intern_passes_outcome:
  assumes laws: "hash_table_laws ht slot_hash elems" and inv: "table_inv elems st" and ok: "jobs_ok jobs" and hashed: "jobs_hashed hf jobs"
    and schedule: "distinct schedule" "set schedule = set (job_occurrences jobs)"
  shows "\<exists>out. intern_passes ht schedule jobs st = Some out \<and> batch_outcome elems st jobs (batch_names jobs) out"
proof -
  have ninv: "names_inv elems st" using inv by (simp add: table_inv_def)
  note invs = names_invD [OF ninv]
  obtain ov st1 jobs1 where run: "foldl (intern_one ht) ((False, st), jobs) schedule = ((ov, st1), jobs1)"
      and seen: "seen_inv elems st jobs (set (job_occurrences jobs)) ov st1" and same: "same_jobs jobs jobs1"
      and ids: "ov \<or> ids_inv st1 jobs (set (job_occurrences jobs)) jobs1"
    using pass1 [OF laws ninv _ schedule(1), of jobs] in_jobs_occurrence [OF ok] by (auto simp: schedule(2))
  have pass: "pass_inv elems st1" and grown: "grown st [] st1" using seen by (simp_all add: seen_inv_def)
  note g = grownD [OF grown, simplified]
  let ?act = "active_shards st1" and ?ref = "add_names (st_names st) (batch_names jobs)"
  have N: "?ref = st_names st @ new_names st1" if "\<not> ov" using new_names_reference [OF _ hashed] seen that by simp
  show ?thesis
  proof (cases "ov \<or> st_limit st1 - length (st_names st1) < length (new_names st1)")
    case True
    have big: "st_limit st < length ?ref"
    proof (cases ov)
      case True
      then have "MAX_SYMBOLS < card (set (batch_names jobs) - set (st_names st))" using seen by (simp add: seen_inv_def set_batch_names)
      then show ?thesis using invs by (simp add: add_names_card)
    qed (use True N invs in \<open>simp add: g\<close>)
    have "?act \<noteq> []"
    proof (cases ov)
      case True
      then show ?thesis using seen active_empty [OF pass] by (auto simp: seen_inv_def)
    next
      case False
      then have "set (new_names st1) \<noteq> {}" using True by auto
      then show ?thesis using active_empty [OF pass] set_new_names [OF pass] by auto
    qed
    then have "intern_passes ht schedule jobs st = Some (Err (overflow (st_limit st1)), discard_pending ht ?act st1, jobs1)"
      using True by (simp add: intern_passes_def run Let_def flip: length_new_names)
    then show ?thesis using passes_overflow [OF laws inv pass grown big] by blast
  next
    case False
    then have seen': "seen_inv elems st jobs (set (job_occurrences jobs)) False st1" and ids': "ids_inv st1 jobs (set (job_occurrences jobs)) jobs1"
      using seen ids by auto
    show ?thesis
    proof (cases "?act = []")
      case True
      then show ?thesis using passes_empty [OF inv seen' same ids' ok hashed] by (simp add: intern_passes_def run)
    next
      case act: False
      have "length (st_names st) + length (new_names st1) \<le> st_limit st" using False invs(3) by (auto simp: g)
      from passes_fit [OF laws inv seen' same ids' ok hashed this] show ?thesis
        using False act by (auto simp: intern_passes_def run Let_def simp flip: length_new_names)
    qed
  qed
qed

end
