(* ===== verification/PartitionNumber.thy ===== *)
theory PartitionNumber
  imports PartitionProbe RankBitmap SymbolAssign
begin

text \<open>
  The third pass of a partitioned batch (src/src/symbols/table/partition.rs): the bitmap marks the first
  occurrences of new names, a handle becomes the id of its name in the reference order, and the shards hold
  these ids; when the table would overflow, they hold what they held before.
\<close>

section \<open>First occurrences\<close>

definition first_new :: "symbol_name list \<Rightarrow> symbol_name list \<Rightarrow> usize \<Rightarrow> bool" where
  "first_new names ns g \<longleftrightarrow> ns ! g \<notin> set names \<and> ns ! g \<notin> set (take g ns)"

lemma result_first_new:
  assumes "length names \<le> MAX_SYMBOLS" "distinct names" "length ns \<le> MAX_SYMBOLS" "g < length ns"
  shows "result_of names ns g = handle g \<longleftrightarrow> first_new names ns g"
proof -
  have r: "seq_map names ns (Suc g) (ns ! g) = Some (result_of names ns g)" by (rule seq_map_result [OF assms(4)])
  have new: "seq_map names ns g (ns ! g) = None \<longleftrightarrow> first_new names ns g" by (simp add: seq_map_None first_new_def)
  show ?thesis
  proof (cases "seq_map names ns g (ns ! g)")
    case None
    then show ?thesis using r new seq_map_Suc [OF assms(4), of names] by simp
  next
    case (Some v)
    then have v: "v = result_of names ns g" using r seq_map_Suc [OF assms(4), of names] by simp
    have "v \<noteq> handle g"
      using Some less_imp_le [OF assms(4)] assms(3)
    proof (cases rule: seq_map_cases)
      case known
      then have "unat v < length names" using assms(1,2) by (simp add: name_ids_iff)
      then have "unat v < MAX_SYMBOLS" using assms(1) by simp
      then show ?thesis using handle_pending [of g] by (auto simp flip: final_iff)
    qed (use assms in \<open>auto simp: handle_inj\<close>)
    then show ?thesis using v Some new by auto
  qed
qed

lemma add_names_take:
  "k \<le> length ns \<Longrightarrow> add_names names (take k ns) = names @ map (nth ns) (filter (first_new names ns) [0..<k])"
proof (induction k)
  case (Suc k)
  then have k: "k < length ns" by simp
  have "ns ! k \<in> set (add_names names (take k ns)) \<longleftrightarrow> \<not> first_new names ns k" by (simp add: set_add_names first_new_def)
  then show ?case using Suc k by (simp add: take_Suc_conv_app_nth add_names_append)
qed simp

lemma add_names_first_new: "add_names names ns = names @ map (nth ns) (filter (first_new names ns) [0..<length ns])"
  using add_names_take [of "length ns" ns names] by simp

lemma length_add_names_rank: "length (add_names names ns) = length names + rank (first_new names ns) (length ns)"
  by (simp add: add_names_first_new rank_def)

section \<open>The bitmap\<close>

definition results_ok :: "symbol_name list \<Rightarrow> symbol_name list \<Rightarrow> u64 list \<Rightarrow> bool" where
  "results_ok names ns results \<longleftrightarrow> (\<forall>g<length ns. results ! entry_pos ns g = ucast (result_of names ns g))"

lemma read_result_at:
  assumes "results_ok names ns results" "g < length ns"
  shows "read_result results (cursor_at ns g) (ns ! g) = (result_of names ns g, cursor_at ns (Suc g))"
proof -
  have "(cursor_at ns g)[name_shard (ns ! g) := Suc (entry_pos ns g)] = cursor_at ns (Suc g)" using cursor_step [of ns g] by simp
  then show ?thesis using assms by (simp add: read_result_def Let_def cursor_read results_ok_def ucast_result)
qed

definition marked :: "(nat \<Rightarrow> bool) \<Rightarrow> nat \<Rightarrow> u64 list \<Rightarrow> bool" where
  "marked P k words \<longleftrightarrow> (\<forall>i<64 * length words. bit_in words i \<longleftrightarrow> i < k \<and> P i)"

lemma bit_in_set:
  assumes "k div 64 < length words"
  shows "bit_in (words[k div 64 := words ! (k div 64) OR push_bit (k mod 64) 1]) i \<longleftrightarrow> bit_in words i \<or> i = k"
proof (cases "i div 64 = k div 64")
  case True
  have "i mod 64 = k mod 64 \<longleftrightarrow> i = k" using True by (metis mult_div_mod_eq)
  then have "bit (push_bit (k mod 64) (1 :: u64)) (i mod 64) \<longleftrightarrow> i = k" by (auto simp: push_bit_of_1 bit_exp_iff)
  then show ?thesis using True assms by (simp add: bit_in_def bit_or_iff)
next
  case False
  then show ?thesis by (auto simp: bit_in_def)
qed

lemma marked_Suc:
  assumes "marked P k words" "k < 64 * length words"
  shows "marked P (Suc k) (if P k then words[k div 64 := words ! (k div 64) OR push_bit (k mod 64) 1] else words)"
proof -
  have "k div 64 < length words" using assms(2) by (simp add: less_mult_imp_div_less mult.commute)
  note set = bit_in_set [OF this]
  show ?thesis using assms unfolding marked_def by (auto simp: set less_Suc_eq simp del: push_bit_of_1)
qed

lemma chunk_word: "64 dvd chunk \<Longrightarrow> c * chunk \<le> g \<Longrightarrow> c * (chunk div 64) + (g - c * chunk) div 64 = g div 64" for g :: nat
proof -
  assume "64 dvd chunk" and le: "c * chunk \<le> g"
  then obtain m where m: "chunk = 64 * m" by blast
  have "g div 64 = (64 * (c * m) + (g - c * chunk)) div 64" using le by (simp add: m algebra_simps)
  also have "\<dots> = c * m + (g - c * chunk) div 64" by (simp only: div_mult_self4 [of 64 "g - c * chunk" "c * m"])
  finally show ?thesis by (simp add: m)
qed

lemma mark_range:
  assumes names: "length names \<le> MAX_SYMBOLS" "distinct names" "length ns \<le> MAX_SYMBOLS" and res: "results_ok names ns results"
    and chunk: "64 dvd chunk" "c * chunk \<le> a" and words: "length ns \<le> 64 * length words" "marked (first_new names ns) a words"
  shows "a \<le> b \<Longrightarrow> b \<le> length ns \<Longrightarrow> \<exists>words'. foldl (mark_name results chunk c) (words, cursor_at ns a) (indexed ns a b) = (words', cursor_at ns b) \<and>
    length words' = length words \<and> marked (first_new names ns) b words'"
proof (induction b rule: dec_induct)
  case base
  then show ?case using words by (simp add: indexed_def)
next
  case (step b)
  then obtain words1 where run: "foldl (mark_name results chunk c) (words, cursor_at ns a) (indexed ns a b) = (words1, cursor_at ns b)"
      and len: "length words1 = length words" and m: "marked (first_new names ns) b words1" by auto
  have b: "b < length ns" "c * chunk \<le> b" using step chunk(2) by auto
  let ?words = "if first_new names ns b then words1[b div 64 := words1 ! (b div 64) OR push_bit (b mod 64) 1] else words1"
  have "mark_name results chunk c (words1, cursor_at ns b) (b, ns ! b) = (?words, cursor_at ns (Suc b))"
    using result_first_new [OF names b(1)]
    by (simp add: mark_name_def read_result_at [OF res b(1)] chunk_word [OF chunk(1) b(2)] Let_def flip: handle_def del: push_bit_of_1)
  then show ?case using run step.hyps marked_Suc [OF m] b words(1) len by (simp add: indexed_Suc del: push_bit_of_1)
qed

lemma enumerate_map_upt: "List.enumerate 0 (map f [0..<k]) = map (\<lambda>c. (c, f c)) [0..<k]"
  by (induction k) (simp_all add: enumerate_append_eq)

text \<open>A range of chunks is cut at multiples of the size of a chunk, up to the end.\<close>

lemma cut_at_start: "c * chunk \<le> n \<Longrightarrow> cut_at chunk n c = c * chunk"
  by (simp add: cut_at_def)

lemma cut_at_past: "\<not> c * chunk \<le> n \<Longrightarrow> cut_at chunk n (Suc c) = cut_at chunk n c"
  by (simp add: cut_at_def)

lemma mark_chunks:
  assumes names: "length names \<le> MAX_SYMBOLS" "distinct names" "length ns \<le> MAX_SYMBOLS" and res: "results_ok names ns results"
    and chunk: "64 dvd chunk" and K: "cut_at chunk (length ns) K = length ns" and n: "length ns \<le> 64 * n"
    and region: "region = shard_regions (map (chunk_row ns chunk) [0..<K])"
  shows "k \<le> K \<Longrightarrow> \<exists>words. foldl (mark_chunk results region (chunk_cursors ns chunk K) chunk) (replicate n 0) (List.enumerate 0 (chunk_names ns chunk k)) = words \<and>
    length words = n \<and> marked (first_new names ns) (cut_at chunk (length ns) k) words"
proof (induction k)
  case 0
  have "bit_in (replicate n 0) i = False" if "i < 64 * n" for i
    using that by (simp add: bit_in_def less_mult_imp_div_less mult.commute)
  then show ?case by (simp add: chunk_names_def marked_def)
next
  case (Suc k)
  then obtain words where run: "foldl (mark_chunk results region (chunk_cursors ns chunk K) chunk) (replicate n 0) (List.enumerate 0 (chunk_names ns chunk k)) = words"
      and len: "length words = n" and m: "marked (first_new names ns) (cut_at chunk (length ns) k) words" by auto
  let ?names = "indexed ns (cut_at chunk (length ns) k) (cut_at chunk (length ns) (Suc k))"
  have cursors: "first_cursors region (chunk_cursors ns chunk K) k = cursor_at ns (cut_at chunk (length ns) k)"
    unfolding region using Suc.prems by (intro first_cursors_chunk [OF K]) simp
  have "\<exists>words'. mark_chunk results region (chunk_cursors ns chunk K) chunk words (k, ?names) = words' \<and>
      length words' = n \<and> marked (first_new names ns) (cut_at chunk (length ns) (Suc k)) words'"
  proof (cases "k * chunk \<le> length ns")
    case True
    have "k * chunk \<le> cut_at chunk (length ns) k" "length ns \<le> 64 * length words" using n by (simp_all add: cut_at_start [OF True] len)
    from mark_range [OF names res chunk this m cut_at_mono] obtain words' where
        "foldl (mark_name results chunk k) (words, cursor_at ns (cut_at chunk (length ns) k)) ?names = (words', cursor_at ns (cut_at chunk (length ns) (Suc k)))"
        "length words' = length words" "marked (first_new names ns) (cut_at chunk (length ns) (Suc k)) words'" by blast
    then show ?thesis by (simp add: mark_chunk_def len cursors)
  next
    case False
    then show ?thesis using m len cut_at_past [OF False] by (simp add: mark_chunk_def indexed_def)
  qed
  moreover have "List.enumerate 0 (chunk_names ns chunk (Suc k)) = List.enumerate 0 (chunk_names ns chunk k) @ [(k, ?names)]"
    by (simp add: chunk_names_def enumerate_append_eq)
  ultimately show ?case by (simp add: run)
qed

section \<open>Sizes\<close>

lemma div_ceil_covers: "0 < b \<Longrightarrow> a \<le> b * div_ceil a b" for a b :: nat
proof -
  assume b: "0 < b"
  have "a + b - 1 = b * ((a + b - 1) div b) + (a + b - 1) mod b" by simp
  moreover have "(a + b - 1) mod b < b" using b by simp
  ultimately show ?thesis unfolding div_ceil_def by linarith
qed

lemma chunk_size_facts: "64 dvd chunk_size threads len" "0 < chunk_size threads len"
proof -
  show "64 dvd chunk_size threads len" by (simp add: chunk_size_def)
  let ?n = "max (div_ceil len (max threads 1 * 4)) MIN_CHUNK"
  have "?n \<le> 64 * div_ceil ?n 64" by (rule div_ceil_covers) simp
  then show "0 < chunk_size threads len" by (simp add: chunk_size_def MIN_CHUNK_def)
qed

lemma chunks_cover: "0 < chunk \<Longrightarrow> cut_at chunk n (num_chunks chunk n) = n"
proof -
  assume c: "0 < chunk"
  have "n \<le> chunk * div_ceil n chunk" by (rule div_ceil_covers [OF c])
  also have "\<dots> \<le> num_chunks chunk n * chunk" by (simp add: num_chunks_def)
  finally show ?thesis by (simp add: cut_at_def)
qed

section \<open>Ids\<close>

text \<open>The bitmap, its counts and the number of names before the batch give every handle its id.\<close>

definition numbered :: "symbol_name list \<Rightarrow> symbol_name list \<Rightarrow> u64 list \<Rightarrow> bool" where
  "numbered names ns words \<longleftrightarrow> length ns \<le> 64 * length words \<and> marked (first_new names ns) (length ns) words"

lemma numbered_bit: "numbered names ns words \<Longrightarrow> i < 64 * length words \<Longrightarrow> bit_in words i \<longleftrightarrow> i < length ns \<and> first_new names ns i"
  by (simp add: numbered_def marked_def)

lemma numbered_filter:
  assumes "numbered names ns words"
  shows "filter (bit_in words) [0..<64 * length words] = filter (first_new names ns) [0..<length ns]"
proof -
  have "filter (bit_in words) [0..<64 * length words] = filter (\<lambda>i. i < length ns \<and> first_new names ns i) [0..<64 * length words]"
    by (rule filter_cong) (simp_all add: numbered_bit [OF assms])
  also have "\<dots> = filter (first_new names ns) [0..<length ns]" using assms by (intro filter_less_upt) (simp add: numbered_def)
  finally show ?thesis .
qed

lemma numbered_rank:
  assumes "numbered names ns words" "g \<le> length ns"
  shows "rank (bit_in words) g = rank (first_new names ns) g"
  using assms by (intro rank_cong) (simp add: numbered_bit numbered_def)

lemma numbered_total: "numbered names ns words \<Longrightarrow> sum_list (map count_ones words) = rank (first_new names ns) (length ns)"
  using rank_words [of "length words" words] numbered_filter [of names ns words] by (simp add: rank_def)

lemma id_of_final: "unat v < MAX_SYMBOLS \<Longrightarrow> id_of words before base v = v"
  by (simp add: id_of_def final_iff id_from_u32_def)

lemma id_of_handle:
  assumes "numbered names ns words" "g < length ns" "length ns \<le> MAX_SYMBOLS"
  shows "id_of words (counts_before 0 words) base (handle g) = of_nat (base + rank (first_new names ns) g)"
proof -
  have g: "g < MAX_SYMBOLS" "g < 64 * length words" using assms by (simp_all add: numbered_def)
  have "unat (handle g AND NOT PENDING) = g" using g(1) by (simp add: handle_local unat_of_id)
  then show ?thesis using rank_of_bit [OF g(2)] numbered_rank [OF assms(1), of g] assms(2) handle_pending [of g]
    by (simp add: id_of_def Let_def id_from_u32_def flip: of_nat_add)
qed

lemma id_of_seq_map:
  assumes words: "numbered names ns words" and names: "distinct names" "length names \<le> MAX_SYMBOLS" and ns: "length ns \<le> MAX_SYMBOLS"
    and fits: "length (add_names names ns) \<le> MAX_SYMBOLS"
  shows "map_option (id_of words (counts_before 0 words) (length names)) (seq_map names ns (length ns) n) = name_ids (add_names names ns) n"
proof (cases "seq_map names ns (length ns) n")
  case None
  then have "name_ids (add_names names ns) n = None" by (simp add: seq_map_None name_ids_None set_add_names)
  with None show ?thesis by simp
next
  case (Some v)
  let ?N = "add_names names ns"
  have dist: "distinct ?N" by (rule distinct_add_names [OF names(1)])
  from Some order_refl ns have "name_ids ?N n = Some (id_of words (counts_before 0 words) (length names) v)"
  proof (cases rule: seq_map_cases)
    case known
    then have v: "unat v < length names" "names ! unat v = n" using names by (simp_all add: name_ids_iff)
    then have "name_ids ?N n = Some v" using dist fits by (simp add: name_ids_iff) (simp add: add_names_first_new nth_append)
    then show ?thesis using v names(2) by (simp add: id_of_final)
  next
    case (new l)
    have "ns ! l \<notin> set (take l ns)" using new by (auto simp: in_set_conv_nth)
    then have first: "first_new names ns l" using new by (simp add: first_new_def)
    note r = filter_nth_rank [of "first_new names ns", OF first new(3)]
    then have "length names + rank (first_new names ns) l < length ?N" "?N ! (length names + rank (first_new names ns) l) = n"
      using new by (simp_all add: length_add_names_rank) (simp add: add_names_first_new nth_append rank_def)
    then have "name_ids ?N n = Some (of_nat (length names + rank (first_new names ns) l))"
      using dist fits by (simp add: name_ids_iff unat_of_id del: of_nat_add)
    then show ?thesis using new ns by (simp add: id_of_handle [OF words] del: of_nat_add)
  qed
  with Some show ?thesis by simp
qed

lemma id_of_result:
  assumes "numbered names ns words" "distinct names" "length names \<le> MAX_SYMBOLS" "length ns \<le> MAX_SYMBOLS"
    "length (add_names names ns) \<le> MAX_SYMBOLS" "g < length ns"
  shows "id_of words (counts_before 0 words) (length names) (result_of names ns g) = id_in (add_names names ns) (ns ! g)"
proof -
  have "seq_map names ns (length ns) (ns ! g) = Some (result_of names ns g)"
    using seq_map_mono [OF seq_map_result [OF assms(6)], of "length ns"] assms(6) by simp
  then show ?thesis using id_of_seq_map [OF assms(1-5), of "ns ! g"] by (simp add: id_in_def) (metis option.sel)
qed

section \<open>The shards at the end\<close>

lemma empty_region:
  assumes "region_at ns (Suc s) = region_at ns s" "n \<in> set ns"
  shows "name_shard n \<noteq> s"
proof
  assume "name_shard n = s"
  moreover obtain g where "g < length ns" "ns ! g = n" using assms(2) by (auto simp: in_set_conv_nth)
  ultimately have "g \<in> set (filter (\<lambda>g. name_shard (ns ! g) = s) [0..<length ns])" by simp
  moreover have "filter (\<lambda>g. name_shard (ns ! g) = s) [0..<length ns] = []" using assms(1) by (simp add: region_at_Suc shard_count_def)
  ultimately show False by simp
qed

lemma seq_map_outside: "n \<notin> set ns \<Longrightarrow> seq_map names ns (length ns) n = name_ids names n"
  using position_None [of "\<lambda>x. x = n" ns] by (auto simp: seq_map_def split: option.split)

lemma name_ids_outside: "n \<notin> set ns \<Longrightarrow> name_ids (add_names names ns) n = name_ids names n"
proof -
  assume n: "n \<notin> set ns"
  obtain new where new: "add_names names ns = names @ new" using add_names_prefix by blast
  show ?thesis
  proof (cases "n \<in> set names")
    case True
    then show ?thesis by (simp add: new name_ids_append)
  next
    case False
    then have "name_ids names n = None" "name_ids (add_names names ns) n = None" using n by (simp_all add: name_ids_None set_add_names)
    then show ?thesis by simp
  qed
qed

text \<open>Shards with an empty region are left alone: they have what every name outside the batch has.\<close>

lemma number_slots_rep:
  assumes laws: "hash_table_laws ht slot_hash elems" and words: "numbered names ns words" and names: "distinct names" "length names \<le> MAX_SYMBOLS"
    and ns: "length ns \<le> MAX_SYMBOLS" and fits: "length (add_names names ns) \<le> MAX_SYMBOLS"
    and p: "probed elems names ns old SHARD_COUNT (shards, results)" and region: "\<And>s. s \<le> SHARD_COUNT \<Longrightarrow> region ! s = region_at ns s"
  shows "tables_rep elems (map (number_slots ht region (id_of words (counts_before 0 words) (length names))) (List.enumerate 0 shards)) (name_ids (add_names names ns))"
proof -
  let ?to_id = "id_of words (counts_before 0 words) (length names)" and ?N = "add_names names ns"
  have len: "length shards = SHARD_COUNT" using p by (simp add: probed_def)
  have "shard_rep elems (sh_table (number_slots ht region ?to_id (s, shards ! s))) (name_ids ?N) s" if s: "s < SHARD_COUNT" for s
  proof -
    have rep: "shard_rep elems (sh_table (shards ! s)) (seq_map names ns (length ns)) s" using p s by (simp add: probed_def)
    have eq: "(\<lambda>n. map_option ?to_id (seq_map names ns (length ns) n)) = name_ids ?N"
      by (rule ext) (rule id_of_seq_map [OF words names ns fits])
    have "shard_inj (name_ids ?N) s" by (rule name_ids_inj [OF distinct_add_names [OF names(1)] fits])
    note mut = shard_rep_iter_mut [OF laws rep, of ?to_id, unfolded eq, OF this]
    show ?thesis
    proof (cases "region ! s = region ! (s + 1)")
      case True
      have "shard_rep elems (sh_table (shards ! s)) (name_ids ?N) s"
      proof (rule shard_rep_cong [OF rep])
        fix n assume "name_shard n = s"
        then have "n \<notin> set ns" using empty_region [of ns s n] True s by (auto simp: region)
        then show "seq_map names ns (length ns) n = name_ids ?N n" by (simp add: seq_map_outside name_ids_outside)
      qed (simp add: dom_name_ids)
      then show ?thesis using True by (simp add: number_slots_def)
    next
      case False
      then show ?thesis using mut by (simp add: number_slots_def id_as_u32_def)
    qed
  qed
  then show ?thesis using len by (simp add: tables_rep_def nth_enumerate_eq)
qed

lemma retain_final_rep:
  assumes laws: "hash_table_laws ht slot_hash elems" and names: "distinct names" "length names \<le> MAX_SYMBOLS"
    and p: "probed elems names ns old SHARD_COUNT (shards, results)" and region: "\<And>s. s \<le> SHARD_COUNT \<Longrightarrow> region ! s = region_at ns s"
  shows "tables_rep elems (map (retain_final ht region) (List.enumerate 0 shards)) (name_ids names)"
proof -
  have len: "length shards = SHARD_COUNT" using p by (simp add: probed_def)
  have final: "name_ids names n = (case seq_map names ns (length ns) n of None \<Rightarrow> None | Some v \<Rightarrow> if v AND PENDING = 0 then Some v else None)" for n
  proof (cases "name_ids names n")
    case None
    then show ?thesis using handle_pending by (auto simp: seq_map_def split: option.split)
  next
    case (Some v)
    then have "v AND PENDING = 0" using names by (auto simp: name_ids_iff final_iff)
    then show ?thesis using Some by (simp add: seq_map_def)
  qed
  have "shard_rep elems (sh_table (retain_final ht region (s, shards ! s))) (name_ids names) s" if s: "s < SHARD_COUNT" for s
  proof -
    have rep: "shard_rep elems (sh_table (shards ! s)) (seq_map names ns (length ns)) s" using p s by (simp add: probed_def)
    show ?thesis
    proof (cases "region ! s = region ! (s + 1)")
      case True
      have "shard_rep elems (sh_table (shards ! s)) (name_ids names) s"
      proof (rule shard_rep_cong [OF rep])
        fix n assume "name_shard n = s"
        then have "n \<notin> set ns" using empty_region [of ns s n] True s by (auto simp: region)
        then show "seq_map names ns (length ns) n = name_ids names n" by (rule seq_map_outside)
      qed (simp add: dom_name_ids)
      then show ?thesis using True by (simp add: retain_final_def)
    next
      case False
      then show ?thesis using shard_rep_retain [OF laws rep, of "name_ids names" "\<lambda>v. v AND PENDING = 0", OF final] by (simp add: retain_final_def)
    qed
  qed
  then show ?thesis using len by (simp add: tables_rep_def nth_enumerate_eq)
qed

end
