(* ===== verification/PartitionOutput.thy ===== *)
theory PartitionOutput
  imports PartitionNumber
begin

text \<open>
  The outputs of a partitioned batch (src/src/symbols/table/partition.rs): the outputs are cut at the same
  places as the names, every chunk writes the ids of its names, and \<open>number_sequence\<close> as a whole does what
  interning the names one after the other does.
\<close>

section \<open>Cutting the outputs\<close>

definition chunk_of :: "nat \<Rightarrow> nat \<Rightarrow> 'a list \<Rightarrow> 'a list" where
  "chunk_of chunk c xs = take chunk (drop (c * chunk) xs)"

lemma chunk_of_append:
  assumes "c = length xs div chunk" "length xs + length ys \<le> (c + 1) * chunk" "0 < chunk"
  shows "chunk_of chunk d (xs @ ys) = chunk_of chunk d xs @ (if d = c then ys else [])"
proof -
  have c: "c * chunk \<le> length xs" "length xs < (c + 1) * chunk"
    using assms(1,3) by (simp_all add: dividend_less_times_div dividend_less_div_times)
  consider "d = c" | "d < c" | "c < d" by linarith
  then show ?thesis
  proof cases
    case 1
    then show ?thesis using c assms(2) by (simp add: chunk_of_def)
  next
    case 2
    then have "Suc d * chunk \<le> c * chunk" by (intro mult_le_mono1) simp
    then have "(d + 1) * chunk \<le> length xs" using c by simp
    then show ?thesis using 2 by (simp add: chunk_of_def)
  next
    case 3
    then have "Suc c * chunk \<le> d * chunk" by (intro mult_le_mono1) simp
    then have "length xs + length ys \<le> d * chunk" using assms(2) by simp
    then show ?thesis using 3 by (simp add: chunk_of_def)
  qed
qed

abbreviation output_cells :: "nat \<Rightarrow> nat \<Rightarrow> nat \<Rightarrow> (nat \<times> nat) list" where
  "output_cells j a n \<equiv> map (Pair j) [a..<a + n]"

lemma slice_cells_snoc: "slice_cells (piece @ [(j, offset, n)]) = slice_cells piece @ output_cells j offset n"
proof -
  have "map (\<lambda>i. (j, offset + i)) [0..<n] = output_cells j offset n" by (induction n) simp_all
  then show ?thesis by (simp add: slice_cells_def)
qed

definition cut_ok :: "nat \<Rightarrow> nat \<Rightarrow> (nat \<times> nat) list \<Rightarrow> output_slice list list \<Rightarrow> bool" where
  "cut_ok chunk chunks cells pieces \<longleftrightarrow> length pieces = chunks \<and> (\<forall>c<chunks. slice_cells (pieces ! c) = chunk_of chunk c cells)"

lemma split_output_cut:
  assumes "0 < chunk" "cut_ok chunk chunks cells pieces" "length cells + rest \<le> chunks * chunk"
  shows "\<exists>pieces'. split_output chunk j offset rest (length cells) pieces = (pieces', length cells + rest) \<and>
    cut_ok chunk chunks (cells @ output_cells j offset rest) pieces'"
  using assms(2,3)
proof (induction rest arbitrary: offset cells pieces rule: less_induct)
  case (less rest)
  show ?case
  proof (cases "rest = 0")
    case True
    then show ?thesis using less.prems by (subst split_output.simps) simp
  next
    case False
    let ?g = "length cells"
    let ?c = "?g div chunk"
    let ?n = "min ((?c + 1) * chunk - ?g) rest"
    let ?pieces = "pieces[?c := pieces ! ?c @ [(j, offset, ?n)]]"
    have g: "?g < (?c + 1) * chunk" using assms(1) by (simp add: dividend_less_times_div dividend_less_div_times)
    have "?g < chunks * chunk" using False less.prems(2) by simp
    then have c: "?c < chunks" by (simp add: less_mult_imp_div_less)
    have n: "0 < ?n" "?g + ?n \<le> (?c + 1) * chunk" using g False by auto
    have "cut_ok chunk chunks (cells @ output_cells j offset ?n) ?pieces"
      unfolding cut_ok_def
    proof (intro conjI allI impI)
      show "length ?pieces = chunks" using less.prems(1) by (simp add: cut_ok_def)
      fix d assume "d < chunks"
      then show "slice_cells (?pieces ! d) = chunk_of chunk d (cells @ output_cells j offset ?n)"
        using less.prems(1) c n(2) by (subst chunk_of_append [OF refl _ assms(1)]) (auto simp: cut_ok_def slice_cells_snoc nth_list_update)
    qed
    moreover have "rest - ?n < rest" using n(1) False by simp
    moreover have "length (cells @ output_cells j offset ?n) + (rest - ?n) \<le> chunks * chunk" using less.prems(2) by simp
    ultimately obtain pieces' where p:
        "split_output chunk j (offset + ?n) (rest - ?n) (length (cells @ output_cells j offset ?n)) ?pieces = (pieces', length (cells @ output_cells j offset ?n) + (rest - ?n))"
        "cut_ok chunk chunks ((cells @ output_cells j offset ?n) @ output_cells j (offset + ?n) (rest - ?n)) pieces'"
      using less.IH by blast
    have "[offset..<offset + rest] = [offset..<offset + ?n] @ [offset + ?n..<offset + ?n + (rest - ?n)]"
      using upt_add_eq_append [of offset "offset + ?n" "rest - ?n"] by simp
    then have "cells @ output_cells j offset rest = (cells @ output_cells j offset ?n) @ output_cells j (offset + ?n) (rest - ?n)"
      by (metis append_assoc map_append)
    moreover have "split_output chunk j offset rest ?g pieces = split_output chunk j (offset + ?n) (rest - ?n) (?g + ?n) ?pieces"
      using False assms(1) by (subst split_output.simps) (simp add: Let_def)
    ultimately show ?thesis using p by simp
  qed
qed

definition all_cells :: "nat \<Rightarrow> nat list \<Rightarrow> (nat \<times> nat) list" where
  "all_cells j lens = concat (map (\<lambda>(j, n). output_cells j 0 n) (List.enumerate j lens))"

lemma all_cells_Cons: "all_cells j (n # lens) = output_cells j 0 n @ all_cells (Suc j) lens"
  by (simp add: all_cells_def)

lemma length_all_cells: "length (all_cells j lens) = sum_list lens"
  by (induction lens arbitrary: j) (simp_all add: all_cells_Cons, simp add: all_cells_def)

lemma split_outputs_cut:
  assumes chunk: "0 < chunk"
  shows "cut_ok chunk chunks cells pieces \<Longrightarrow> length cells + sum_list lens \<le> chunks * chunk \<Longrightarrow>
    cut_ok chunk chunks (cells @ all_cells j lens)
      (fst (foldl (\<lambda>(pieces, g) (j, len). split_output chunk j 0 len g pieces) (pieces, length cells) (List.enumerate j lens)))"
proof (induction lens arbitrary: cells pieces j)
  case Nil
  then show ?case by (simp add: all_cells_def)
next
  case (Cons n lens)
  obtain pieces' where p: "split_output chunk j 0 n (length cells) pieces = (pieces', length cells + n)"
      "cut_ok chunk chunks (cells @ output_cells j 0 n) pieces'"
    using split_output_cut [OF chunk Cons.prems(1), of n j 0] Cons.prems(2) by auto
  have "length (cells @ output_cells j 0 n) + sum_list lens \<le> chunks * chunk" using Cons.prems(2) by simp
  from Cons.IH [OF p(2) this, of "Suc j"] show ?case by (simp add: p(1) all_cells_Cons)
qed

lemma split_outputs_cells:
  assumes "0 < chunk" "sum_list lens \<le> chunks * chunk" "c < chunks"
  shows "slice_cells (split_outputs lens chunk chunks ! c) = chunk_of chunk c (all_cells 0 lens)" "length (split_outputs lens chunk chunks) = chunks"
proof -
  have "cut_ok chunk chunks [] (replicate chunks [])" by (simp add: cut_ok_def slice_cells_def chunk_of_def)
  from split_outputs_cut [OF assms(1) this, of lens 0] have "cut_ok chunk chunks (all_cells 0 lens) (split_outputs lens chunk chunks)"
    using assms(2) by (simp add: split_outputs_def)
  then show "slice_cells (split_outputs lens chunk chunks ! c) = chunk_of chunk c (all_cells 0 lens)" "length (split_outputs lens chunk chunks) = chunks"
    using assms(3) by (simp_all add: cut_ok_def)
qed

section \<open>Writing the outputs\<close>

lemma write_upt: "length vs = length out \<Longrightarrow> foldl (\<lambda>out (i, v). out[i := v]) out (zip [0..<length out] vs) = vs"
proof -
  assume len: "length vs = length out"
  have "k \<le> length out \<Longrightarrow> foldl (\<lambda>out (i, v). out[i := v]) out (zip [0..<k] (take k vs)) = take k vs @ drop k out" for k
  proof (induction k)
    case (Suc k)
    then have "zip [0..<Suc k] (take (Suc k) vs) = zip [0..<k] (take k vs) @ [(k, vs ! k)]" using len by (simp add: take_Suc_conv_app_nth)
    moreover have "drop k out = out ! k # drop (Suc k) out" using Suc.prems by (simp add: Cons_nth_drop_Suc)
    ultimately show ?case using Suc len by (simp add: list_update_append take_Suc_conv_app_nth)
  qed simp
  from this [of "length out"] len show ?thesis by simp
qed

lemma write_output: "foldl write_cell (pre @ out # outs) (zip (map (Pair (length pre)) is) vs) = pre @ foldl (\<lambda>out (i, v). out[i := v]) out (zip is vs) # outs"
proof (induction "is" arbitrary: out vs)
  case (Cons i "is")
  then show ?case by (cases vs) (simp_all add: write_cell_def list_update_append)
qed simp

lemma write_outputs:
  "map length vss = map length outs \<Longrightarrow> foldl write_cell (pre @ outs) (zip (all_cells (length pre) (map length outs)) (concat vss)) = pre @ vss"
proof (induction outs arbitrary: pre vss)
  case Nil
  then show ?case by (simp add: all_cells_def)
next
  case (Cons out outs)
  then obtain vs rest where vss: "vss = vs # rest" "length vs = length out" "map length rest = map length outs" by (cases vss) auto
  have "foldl write_cell (pre @ out # outs) (zip (all_cells (length pre) (map length (out # outs))) (concat vss)) =
      foldl write_cell (pre @ vs # outs) (zip (all_cells (Suc (length pre)) (map length outs)) (concat rest))"
    using write_upt [OF vss(2)] by (simp add: vss(1) all_cells_Cons zip_append vss(2) write_output)
  then show ?case using Cons.IH [OF vss(3), of "pre @ [vs]"] by (simp add: vss(1))
qed

lemma output_range:
  assumes "results_ok names ns results"
  shows "a \<le> b \<Longrightarrow> b \<le> length ns \<Longrightarrow> foldl (output_name results to_id) (ids, cursor_at ns a) (indexed ns a b) =
    (ids @ map (\<lambda>g. to_id (result_of names ns g)) [a..<b], cursor_at ns b)"
proof (induction b rule: dec_induct)
  case base
  then show ?case by (simp add: indexed_def)
next
  case (step b)
  then show ?case by (simp add: indexed_Suc output_name_def read_result_at [OF assms])
qed

lemma chunk_of_cut: "chunk_of chunk c xs = drop (cut_at chunk (length xs) c) (take (cut_at chunk (length xs) (Suc c)) xs)"
proof -
  have "take (min b (length xs)) xs = take b xs" for b by (cases "b \<le> length xs") simp_all
  moreover have "drop (min a (length xs)) (take b xs) = drop a (take b xs)" for a b by (cases "a \<le> length xs") simp_all
  ultimately have "drop (cut_at chunk (length xs) c) (take (cut_at chunk (length xs) (Suc c)) xs) = drop (c * chunk) (take (Suc c * chunk) xs)"
    unfolding cut_at_def by presburger
  then show ?thesis by (simp add: drop_take chunk_of_def)
qed

lemma output_chunks:
  assumes res: "results_ok names ns results" and K: "cut_at chunk (length ns) K = length ns"
    and region: "region = shard_regions (map (chunk_row ns chunk) [0..<K])" and cells: "length cells = length ns"
    and pieces: "length pieces = K" "\<And>c. c < K \<Longrightarrow> slice_cells (pieces ! c) = chunk_of chunk c cells"
  shows "k \<le> K \<Longrightarrow> foldl (output_chunk results region (chunk_cursors ns chunk K) to_id) outputs
      (map (\<lambda>c. (c, indexed ns (cut_at chunk (length ns) c) (cut_at chunk (length ns) (Suc c)), pieces ! c)) [0..<k]) =
    foldl write_cell outputs (zip (take (cut_at chunk (length ns) k) cells) (map (\<lambda>g. to_id (result_of names ns g)) [0..<cut_at chunk (length ns) k]))"
proof (induction k)
  case (Suc k)
  let ?a = "cut_at chunk (length ns) k" and ?b = "cut_at chunk (length ns) (Suc k)" and ?f = "\<lambda>g. to_id (result_of names ns g)"
  have ab: "?a \<le> ?b" "?b \<le> length ns" by (rule cut_at_mono)+
  have cursors: "first_cursors region (chunk_cursors ns chunk K) k = cursor_at ns ?a"
    unfolding region using Suc.prems by (intro first_cursors_chunk [OF K]) simp
  have step: "output_chunk results region (chunk_cursors ns chunk K) to_id outs (k, indexed ns ?a ?b, pieces ! k) =
      foldl write_cell outs (zip (drop ?a (take ?b cells)) (map ?f [?a..<?b]))" for outs
    using output_range [OF res ab, of to_id "[]"] pieces(2) [of k] Suc.prems cells
    by (simp add: output_chunk_def cursors Let_def chunk_of_cut)
  have "take ?b cells = take ?a cells @ drop ?a (take ?b cells)" using ab(1) by (metis append_take_drop_id min.absorb1 take_take)
  moreover have "[0..<?b] = [0..<?a] @ [?a..<?b]" using ab(1) upt_add_eq_append [of 0 ?a "?b - ?a"] by simp
  moreover have "length (take ?a cells) = length (map ?f [0..<?a])" using ab cells by simp
  ultimately have "zip (take ?b cells) (map ?f [0..<?b]) = zip (take ?a cells) (map ?f [0..<?a]) @ zip (drop ?a (take ?b cells)) (map ?f [?a..<?b])"
    by (metis map_append zip_append)
  then show ?case using Suc step by simp
qed simp

section \<open>The whole sequence\<close>

lemma number_sequence_run:
  assumes laws: "hash_table_laws ht slot_hash elems" and inv: "names_inv elems st" and ns: "ns = concat segs" "length ns \<le> MAX_SYMBOLS"
    and chunk: "chunk = chunk_size threads (length ns)" "K = num_chunks chunk (length ns)"
    and region: "region = shard_regions (map (chunk_row ns chunk) [0..<K])"
  defines "new \<equiv> rank (first_new (st_names st) ns) (length ns)"
  obtains shards results words to_id where "to_id = id_of words (counts_before 0 words) (length (st_names st))"
    "probed elems (st_names st) ns (st_shards st) SHARD_COUNT (shards, results)" "results_ok (st_names st) ns results" "numbered (st_names st) ns words"
    "number_sequence ht threads splits (sequence_new segs) outputs st =
      (if st_limit st - length (st_names st) < new
       then Some (Err (overflow (st_limit st)), st\<lparr>st_shards := map (retain_final ht region) (List.enumerate 0 shards)\<rparr>, outputs)
       else map_option (\<lambda>names. (Ok (), grow_state new (st\<lparr>st_shards := map (number_slots ht region to_id) (List.enumerate 0 shards),
              st_names := st_names st @ concat names\<rparr>),
            foldl (output_chunk results region (chunk_cursors ns chunk K) to_id) outputs
              (List.enumerate 0 (zip (chunk_names ns chunk K) (split_outputs (map length outputs) chunk K)))))
          (collect_options (map (new_names_run (sequence_new segs) words (counts_before 0 words) None) (rank_runs 0 (splits new)))))"
proof -
  note invs = names_invD [OF inv]
  have pos: "64 dvd chunk" "0 < chunk" unfolding chunk by (rule chunk_size_facts)+
  have K: "cut_at chunk (length ns) K = length ns" unfolding chunk(2) by (rule chunks_cover [OF pos(2)])
  obtain shards results where run: "foldl (probe_shard ht (sequence_new segs) (st_names st) region) (st_shards st, sorted_entries ns) [0..<SHARD_COUNT] = (shards, results)"
    by (cases "foldl (probe_shard ht (sequence_new segs) (st_names st) region) (st_shards st, sorted_entries ns) [0..<SHARD_COUNT]")
  have p: "probed elems (st_names st) ns (st_shards st) SHARD_COUNT (shards, results)"
    using probe_shards [OF laws invs(2,5) ns invs(1) regions_chunks(1) [OF K], of SHARD_COUNT] run region by simp
  then have res: "results_ok (st_names st) ns results" by (simp add: probed_def results_ok_def)
  have n: "length ns \<le> 64 * div_ceil (length ns) 64" by (rule div_ceil_covers) simp
  from mark_chunks [OF invs(5,2) ns(2) res pos(1) K n region, of K] K obtain words where
      mark: "foldl (mark_chunk results region (chunk_cursors ns chunk K) chunk) (replicate (div_ceil (length ns) 64) 0) (List.enumerate 0 (chunk_names ns chunk K)) = words"
      and "length words = div_ceil (length ns) 64" "marked (first_new (st_names st) ns) (length ns) words" by auto
  then have words: "numbered (st_names st) ns words" using n by (simp add: numbered_def)
  show ?thesis
    using visit_chunks [of "length ns" segs chunk K] partition_pass [OF K]
    by (intro that [OF refl p res words])
      (simp add: number_sequence_def Let_def numbered_total [OF words] chunk_rows run mark new_def flip: ns(1) chunk region chunk_names_def)
qed

lemma new_names_of_runs:
  assumes words: "numbered names ns words" and ns: "ns = concat segs" and splits: "sum_list lens = rank (first_new names ns) (length ns)"
  shows "\<exists>new. collect_options (map (new_names_run (sequence_new segs) words (counts_before 0 words) None) (rank_runs 0 lens)) = Some new \<and>
    names @ concat new = add_names names ns"
proof -
  have total: "rank (bit_in words) (64 * length words) = sum_list lens"
    by (simp add: rank_def numbered_filter [OF words] splits)
  have name: "sequence_name (sequence_new segs) g = Some (ns ! g)" if "bit_in words g" "g < 64 * length words" for g
    using that numbered_bit [OF words that(2)] by (simp add: sequence_name_new ns)
  have "0 + sum_list lens \<le> rank (bit_in words) (64 * length words)" by (simp add: total)
  from rank_runs_new [of words "sequence_new segs" ns, OF name this] obtain new where
      new: "collect_options (map (new_names_run (sequence_new segs) words (counts_before 0 words) None) (rank_runs 0 lens)) = Some new"
      "concat new = map (\<lambda>r. ns ! (filter (first_new names ns) [0..<length ns] ! r)) [0..<sum_list lens]"
    by (auto simp: numbered_filter [OF words])
  have "map (\<lambda>r. ns ! (filter (first_new names ns) [0..<length ns] ! r)) [0..<sum_list lens] = map (nth ns) (filter (first_new names ns) [0..<length ns])"
    by (rule nth_equalityI) (simp_all add: splits rank_def)
  then show ?thesis using new by (simp add: add_names_first_new)
qed

lemma probed_pending:
  assumes "probed elems names ns old SHARD_COUNT (shards, results)" "\<And>s. s < SHARD_COUNT \<Longrightarrow> sh_pending (old ! s) = [] \<and> sh_assigned (old ! s) = []"
    and f: "\<And>s shard. sh_pending (f (s, shard)) = sh_pending shard \<and> sh_assigned (f (s, shard)) = sh_assigned shard"
  shows "\<forall>shard\<in>set (map f (List.enumerate 0 shards)). sh_pending shard = [] \<and> sh_assigned shard = []"
  using assms by (auto simp: in_set_conv_nth nth_enumerate_eq probed_def)

lemma outputs_written:
  assumes inv: "names_inv elems st" and ns: "ns = concat segs" "length ns \<le> MAX_SYMBOLS"
    and chunk: "chunk = chunk_size threads (length ns)" "K = num_chunks chunk (length ns)"
    and region: "region = shard_regions (map (chunk_row ns chunk) [0..<K])"
    and res: "results_ok (st_names st) ns results" and words: "numbered (st_names st) ns words"
    and fits: "length (add_names (st_names st) ns) \<le> MAX_SYMBOLS" and outputs: "map length outputs = map length segs"
  shows "foldl (output_chunk results region (chunk_cursors ns chunk K) (id_of words (counts_before 0 words) (length (st_names st)))) outputs
      (List.enumerate 0 (zip (chunk_names ns chunk K) (split_outputs (map length outputs) chunk K))) =
    map (map (id_in (add_names (st_names st) ns))) segs"
proof -
  note invs = names_invD [OF inv]
  let ?to_id = "id_of words (counts_before 0 words) (length (st_names st))" and ?pieces = "split_outputs (map length outputs) chunk K"
  let ?cells = "all_cells 0 (map length outputs)" and ?N = "add_names (st_names st) ns"
  have pos: "0 < chunk" unfolding chunk by (rule chunk_size_facts)
  have K: "cut_at chunk (length ns) K = length ns" unfolding chunk(2) by (rule chunks_cover [OF pos])
  have len: "sum_list (map length outputs) = length ns" by (simp add: outputs ns(1) length_concat)
  have le: "sum_list (map length outputs) \<le> K * chunk" using K by (simp add: len cut_at_def min_def split: if_splits)
  have "0 < K" by (simp add: chunk(2) num_chunks_def)
  note pieces = split_outputs_cells [OF pos le]
  have zip: "List.enumerate 0 (zip (chunk_names ns chunk K) ?pieces) =
      map (\<lambda>c. (c, indexed ns (cut_at chunk (length ns) c) (cut_at chunk (length ns) (Suc c)), ?pieces ! c)) [0..<K]"
    using pieces(2) [OF \<open>0 < K\<close>] by (intro nth_equalityI) (simp_all add: nth_enumerate_eq chunk_names_def)
  have "map (\<lambda>g. ?to_id (result_of (st_names st) ns g)) [0..<length ns] = map (\<lambda>g. id_in ?N (ns ! g)) [0..<length ns]"
    using id_of_result [OF words invs(2,5) ns(2) fits] by simp
  also have "\<dots> = map (id_in ?N) ns" by (rule nth_equalityI) simp_all
  also have "\<dots> = concat (map (map (id_in ?N)) segs)" by (simp add: ns(1) map_concat)
  finally have ids: "map (\<lambda>g. ?to_id (result_of (st_names st) ns g)) [0..<length ns] = concat (map (map (id_in ?N)) segs)" .
  have cells: "length ?cells = length ns" by (simp only: length_all_cells len)
  have "foldl write_cell outputs (zip ?cells (concat (map (map (id_in ?N)) segs))) = map (map (id_in ?N)) segs"
    using write_outputs [of "map (map (id_in ?N)) segs" outputs "[]"] by (simp add: outputs o_def)
  then show ?thesis
    using output_chunks [OF res K region cells pieces(2) [OF \<open>0 < K\<close>] pieces(1), of K ?to_id outputs] cells K by (simp add: zip ids)
qed

text \<open>
  \<open>number_sequence\<close> interns the names of the segments as if one after the other, or leaves the table as it
  was; it always returns.
\<close>

lemma number_sequence_eq:
  assumes laws: "hash_table_laws ht slot_hash elems" and inv: "names_inv elems st" and ns: "ns = concat segs" "length ns \<le> MAX_SYMBOLS"
    and splits: "\<And>n. sum_list (splits n) = n" and outputs: "map length outputs = map length segs"
  defines "N \<equiv> add_names (st_names st) ns"
  shows "if length N \<le> st_limit st
    then \<exists>st1 new. number_sequence ht threads splits (sequence_new segs) outputs st =
        Some (Ok (), grow_state (length N - length (st_names st)) st1, map (map (id_in N)) segs) \<and>
        grown st new st1 \<and> names_inv elems st1 \<and> st_names st1 = N
    else \<exists>st1. number_sequence ht threads splits (sequence_new segs) outputs st = Some (Err (overflow (st_limit st)), st1, outputs) \<and>
        grown st [] st1 \<and> names_inv elems st1"
proof -
  note invs = names_invD [OF inv]
  define chunk where "chunk = chunk_size threads (length ns)"
  define K where "K = num_chunks chunk (length ns)"
  define region where "region = shard_regions (map (chunk_row ns chunk) [0..<K])"
  have "0 < chunk" unfolding chunk_def by (rule chunk_size_facts)
  then have K: "cut_at chunk (length ns) K = length ns" unfolding K_def by (rule chunks_cover)
  note regions = regions_chunks(1) [OF K, folded region_def]
  let ?new = "rank (first_new (st_names st) ns) (length ns)"
  obtain shards results words to_id where to_id: "to_id = id_of words (counts_before 0 words) (length (st_names st))"
      and p: "probed elems (st_names st) ns (st_shards st) SHARD_COUNT (shards, results)" and res: "results_ok (st_names st) ns results"
      and words: "numbered (st_names st) ns words"
      and seq: "number_sequence ht threads splits (sequence_new segs) outputs st =
        (if st_limit st - length (st_names st) < ?new
         then Some (Err (overflow (st_limit st)), st\<lparr>st_shards := map (retain_final ht region) (List.enumerate 0 shards)\<rparr>, outputs)
         else map_option (\<lambda>names. (Ok (), grow_state ?new (st\<lparr>st_shards := map (number_slots ht region to_id) (List.enumerate 0 shards),
                st_names := st_names st @ concat names\<rparr>),
              foldl (output_chunk results region (chunk_cursors ns chunk K) to_id) outputs
                (List.enumerate 0 (zip (chunk_names ns chunk K) (split_outputs (map length outputs) chunk K)))))
            (collect_options (map (new_names_run (sequence_new segs) words (counts_before 0 words) None) (rank_runs 0 (splits ?new)))))"
    by (rule number_sequence_run [OF laws inv ns chunk_def K_def region_def])
  have lenN: "length N = length (st_names st) + ?new" by (simp add: N_def length_add_names_rank)
  show ?thesis
  proof (cases "length N \<le> st_limit st")
    case True
    then have fits: "length (add_names (st_names st) ns) \<le> MAX_SYMBOLS" using invs(4) by (simp add: N_def)
    obtain new where new: "collect_options (map (new_names_run (sequence_new segs) words (counts_before 0 words) None) (rank_runs 0 (splits ?new))) = Some new"
        "st_names st @ concat new = N"
      using new_names_of_runs [OF words ns(1), of "splits ?new"] splits by (auto simp: N_def)
    let ?shards = "map (number_slots ht region to_id) (List.enumerate 0 shards)"
    let ?st = "st\<lparr>st_shards := ?shards, st_names := N\<rparr>"
    have "tables_rep elems ?shards (name_ids N)"
      unfolding N_def to_id by (rule number_slots_rep [OF laws words invs(2,5) ns(2) fits p regions])
    moreover have "\<forall>shard\<in>set ?shards. sh_pending shard = [] \<and> sh_assigned shard = []"
      using invs(7,8) by (intro probed_pending [OF p]) (auto simp: number_slots_def)
    ultimately have "names_inv elems ?st" using True invs(2,4) distinct_add_names [of "st_names st" ns] by (simp add: names_inv_def N_def)
    moreover have "grown st (concat new) ?st" by (rule grownI) (simp_all add: new(2))
    moreover have "number_sequence ht threads splits (sequence_new segs) outputs st =
        Some (Ok (), grow_state (length N - length (st_names st)) ?st, map (map (id_in N)) segs)"
      using True lenN outputs_written [OF inv ns chunk_def K_def region_def res words fits outputs] by (simp add: seq new N_def to_id)
    ultimately show ?thesis using True by auto
  next
    case False
    let ?shards = "map (retain_final ht region) (List.enumerate 0 shards)"
    have "tables_rep elems ?shards (name_ids (st_names st))" by (rule retain_final_rep [OF laws invs(2,5) p regions])
    moreover have "\<forall>shard\<in>set ?shards. sh_pending shard = [] \<and> sh_assigned shard = []"
      using invs(7,8) by (intro probed_pending [OF p]) (auto simp: retain_final_def)
    ultimately have "names_inv elems (st\<lparr>st_shards := ?shards\<rparr>)" using invs(2,3,4) by (simp add: names_inv_def)
    moreover have "st_limit st - length (st_names st) < ?new" using False lenN invs(3) by linarith
    ultimately show ?thesis using False by (auto simp: seq intro: grownI)
  qed
qed

end
