(* ===== verification/TableBatch.thy ===== *)
theory TableBatch
  imports PartitionOutput
begin

text \<open>
  Interning a batch (src/src/symbols/table.rs and partition.rs): whatever path \<open>try_intern_batch\<close> takes, on
  however many threads, the outcome is that of interning the names one after the other in the order of their
  first occurrences, and an overflow leaves the table as it was.
\<close>

section \<open>Outcomes\<close>

lemma grown_outcome:
  assumes inv: "table_inv elems st" and st1: "grown st new st1" "names_inv elems st1" "st_names st1 = add_names (st_names st) ns"
    and fits: "length (add_names (st_names st) ns) \<le> st_limit st" and jobs: "jobs' = map (with_ids (add_names (st_names st) ns)) jobs"
  shows "batch_outcome elems st jobs ns (Ok (), grow_state (length (add_names (st_names st) ns) - length (st_names st)) st1, jobs')"
  using table_inv_grow [OF inv st1(1,2)] fits
  by (simp add: batch_outcome_def Let_def st1(3) jobs) (simp add: grow_state_def grownD(2-4) [OF st1(1)] st1(3) map_replicate_const)

lemma undone_outcome:
  assumes inv: "table_inv elems st" and st1: "grown st [] st1" "names_inv elems st1" and big: "st_limit st < length (add_names (st_names st) ns)"
  shows "batch_outcome elems st jobs ns (Err (overflow (st_limit st)), st1, jobs')"
  using table_inv_back [OF inv st1] big by (simp add: batch_outcome_def Let_def grownD [OF st1(1)])

lemma sequence_outcome:
  assumes laws: "hash_table_laws ht slot_hash elems" and inv: "table_inv elems st" and ns: "length (concat segs) \<le> MAX_SYMBOLS"
    and splits: "\<And>n. sum_list (splits n) = n" and outputs: "map length outputs = map length segs"
    and same: "add_names (st_names st) (concat segs) = add_names (st_names st) ns"
    and jobs: "jobs' (map (map (id_in (add_names (st_names st) ns))) segs) = map (with_ids (add_names (st_names st) ns)) jobs"
  shows "\<exists>r st1 outs. number_sequence ht threads splits (sequence_new segs) outputs st = Some (r, st1, outs) \<and>
    (r = Ok () \<longrightarrow> batch_outcome elems st jobs ns (Ok (), st1, jobs' outs)) \<and> (\<forall>e. r = Err e \<longrightarrow> (\<forall>out. batch_outcome elems st jobs ns (Err e, st1, out)))"
proof -
  have ninv: "names_inv elems st" using inv by (simp add: table_inv_def)
  note seq = number_sequence_eq [OF laws ninv refl ns splits outputs, of threads, unfolded same]
  show ?thesis
  proof (cases "length (add_names (st_names st) ns) \<le> st_limit st")
    case True
    with seq obtain st1 new where "number_sequence ht threads splits (sequence_new segs) outputs st =
        Some (Ok (), grow_state (length (add_names (st_names st) ns) - length (st_names st)) st1, map (map (id_in (add_names (st_names st) ns))) segs)"
        "grown st new st1" "names_inv elems st1" "st_names st1 = add_names (st_names st) ns" by auto
    then show ?thesis using grown_outcome [OF inv _ _ _ True jobs] by auto
  next
    case False
    with seq obtain st1 where "number_sequence ht threads splits (sequence_new segs) outputs st = Some (Err (overflow (st_limit st)), st1, outputs)"
        "grown st [] st1" "names_inv elems st1" by auto
    then show ?thesis using undone_outcome [OF inv _ _ ] False by auto
  qed
qed

section \<open>A batch into an empty table\<close>

lemma write_job_ids:
  assumes "distinct order" "set order \<subseteq> {..<length jobs}"
  shows "length (foldl (\<lambda>jobs (j, ids). jobs[j := (jobs ! j)\<lparr>ij_ids := ids\<rparr>]) jobs (zip order (map f order))) = length jobs \<and>
    (\<forall>i<length jobs. foldl (\<lambda>jobs (j, ids). jobs[j := (jobs ! j)\<lparr>ij_ids := ids\<rparr>]) jobs (zip order (map f order)) ! i =
      (if i \<in> set order then (jobs ! i)\<lparr>ij_ids := f i\<rparr> else jobs ! i))"
  using assms
proof (induction order arbitrary: jobs)
  case (Cons j order)
  let ?jobs = "jobs[j := (jobs ! j)\<lparr>ij_ids := f j\<rparr>]"
  have "distinct order" "set order \<subseteq> {..<length ?jobs}" "j \<notin> set order" "j < length jobs" using Cons.prems by auto
  with Cons.IH [of ?jobs] show ?case by (auto simp: nth_list_update)
qed simp

lemma partitioned_empty:
  assumes laws: "hash_table_laws ht slot_hash elems" and inv: "table_inv elems st" and ok: "jobs_ok jobs" and splits: "\<And>n. sum_list (splits n) = n"
    and order: "distinct order" "set order = {..<length jobs}" and ns: "length (names_in_order jobs order) \<le> MAX_SYMBOLS" and empty: "st_names st = []"
  shows "\<exists>out. intern_partitioned ht threads splits jobs order st = Some out \<and> batch_outcome elems st jobs (names_in_order jobs order) out"
proof -
  let ?segs = "map (\<lambda>j. ij_names (jobs ! j)) order" and ?outputs = "map (\<lambda>j. ij_ids (jobs ! j)) order"
  let ?N = "add_names (st_names st) (names_in_order jobs order)"
  let ?put = "\<lambda>outs. foldl (\<lambda>jobs (j, ids). jobs[j := (jobs ! j)\<lparr>ij_ids := ids\<rparr>]) jobs (zip order outs)"
  have concat: "concat ?segs = names_in_order jobs order" by (simp add: names_in_order_def)
  have len: "map length ?outputs = map length ?segs" using ok order(2) by (auto simp: jobs_ok_def)
  have "?put (map (map (id_in ?N)) ?segs) = map (with_ids ?N) jobs"
    using write_job_ids [OF order(1), of jobs "\<lambda>j. map (id_in ?N) (ij_names (jobs ! j))"] order(2)
    by (intro nth_equalityI) (auto simp: with_ids_def o_def)
  from sequence_outcome [where jobs' = ?put, OF laws inv _ splits len _ this, of threads] ns obtain r st1 outs where
      "number_sequence ht threads splits (sequence_new ?segs) ?outputs st = Some (r, st1, outs)"
      "r = Ok () \<longrightarrow> batch_outcome elems st jobs (names_in_order jobs order) (Ok (), st1, ?put outs)"
      "\<forall>e. r = Err e \<longrightarrow> (\<forall>out. batch_outcome elems st jobs (names_in_order jobs order) (Err e, st1, out))"
    unfolding concat by blast
  then show ?thesis using empty by (cases r) (auto simp: intern_partitioned_def)
qed

section \<open>Lookups first\<close>

definition raw_id :: "symbol_name list \<Rightarrow> symbol_name \<Rightarrow> u32" where
  "raw_id names n = (case name_ids names n of None \<Rightarrow> PENDING | Some v \<Rightarrow> v)"

definition looked_up :: "symbol_name list \<Rightarrow> intern_job \<Rightarrow> intern_job" where
  "looked_up names job = job\<lparr>ij_ids := map (raw_id names) (ij_names job)\<rparr>"

lemma raw_id_pending:
  assumes "distinct names" "length names \<le> MAX_SYMBOLS"
  shows "raw_id names n AND PENDING \<noteq> 0 \<longleftrightarrow> n \<notin> set names" "raw_id names n = PENDING \<longleftrightarrow> n \<notin> set names"
    "n \<in> set names \<Longrightarrow> raw_id names n = id_in names n"
proof -
  have p: "PENDING AND PENDING \<noteq> 0" using handle_pending [of 0] by (simp add: handle_def)
  have "raw_id names n = (if n \<in> set names then id_in names n else PENDING)"
    using name_ids_None [of names n] by (auto simp: raw_id_def id_in_def split: option.split)
  moreover have "id_in names n AND PENDING = 0" if n: "n \<in> set names"
  proof -
    from n have "name_ids names n \<noteq> None" by (simp add: name_ids_None)
    then obtain v where v: "name_ids names n = Some v" by blast
    then have "unat v < length names" using assms by (simp add: name_ids_iff)
    then show ?thesis using v assms(2) by (simp add: id_in_def final_iff)
  qed
  ultimately show "raw_id names n AND PENDING \<noteq> 0 \<longleftrightarrow> n \<notin> set names" "raw_id names n = PENDING \<longleftrightarrow> n \<notin> set names"
    "n \<in> set names \<Longrightarrow> raw_id names n = id_in names n" using p by auto
qed

lemma find_raw_eq:
  assumes "hash_table_laws ht slot_hash elems" "names_inv elems st"
  shows "find_raw ht st name = raw_id (st_names st) name"
  using intern_name_find [OF assms, of name] by (auto simp: find_raw_def Let_def raw_id_def split: option.split)

lemma find_all_eq:
  assumes "hash_table_laws ht slot_hash elems" "names_inv elems st" "length (ij_names job) = length (ij_ids job)"
  shows "find_all ht st job = (looked_up (st_names st) job, length (filter (\<lambda>n. n \<notin> set (st_names st)) (ij_names job)))"
proof -
  note invs = names_invD [OF assms(2)]
  have raw: "map (find_raw ht st) (ij_names job) = map (raw_id (st_names st)) (ij_names job)" by (simp add: find_raw_eq [OF assms(1,2)])
  have "write_ids (map id_from_u32 (map (raw_id (st_names st)) (ij_names job))) job = looked_up (st_names st) job"
    using assms(3) by (simp add: write_ids_def looked_up_def id_from_u32_def)
  moreover have "length (filter (\<lambda>v. v = PENDING) (map (raw_id (st_names st)) (ij_names job))) = length (filter (\<lambda>n. n \<notin> set (st_names st)) (ij_names job))"
    by (simp add: filter_map o_def raw_id_pending(2) [OF invs(2,5)])
  ultimately show ?thesis using assms(3) by (simp only: find_all_def Let_def job_names_ok raw)
qed

lemma look_up_known_eq:
  assumes "hash_table_laws ht slot_hash elems" "names_inv elems st" "jobs_ok jobs"
  shows "fst (look_up_known ht st jobs) = map (looked_up (st_names st)) jobs"
    "snd (look_up_known ht st jobs) = 0 \<longleftrightarrow> (\<forall>job\<in>set jobs. set (ij_names job) \<subseteq> set (st_names st))"
proof -
  have "map (find_all ht st) jobs = map (\<lambda>job. (looked_up (st_names st) job, length (filter (\<lambda>n. n \<notin> set (st_names st)) (ij_names job)))) jobs"
    using assms(3) by (auto simp: find_all_eq [OF assms(1,2)] jobs_ok_def)
  then have "look_up_known ht st jobs = (map (looked_up (st_names st)) jobs, sum_list (map (\<lambda>job. length (filter (\<lambda>n. n \<notin> set (st_names st)) (ij_names job))) jobs))"
    unfolding look_up_known_def Let_def by (simp only: map_map o_def fst_conv snd_conv)
  then show "fst (look_up_known ht st jobs) = map (looked_up (st_names st)) jobs"
    "snd (look_up_known ht st jobs) = 0 \<longleftrightarrow> (\<forall>job\<in>set jobs. set (ij_names job) \<subseteq> set (st_names st))"
    by (auto simp: sum_list_eq_0_iff filter_empty_conv)
qed

text \<open>The names that were not found.\<close>

lemma add_names_filter: "set names \<subseteq> set acc \<Longrightarrow> add_names acc (filter (\<lambda>n. n \<notin> set names) ns) = add_names acc ns"
proof (induction ns arbitrary: acc)
  case (Cons a ns)
  have "set names \<subseteq> set (acc @ [a])" using Cons.prems by auto
  then show ?case using Cons.IH [of "acc @ [a]"] Cons.IH [OF Cons.prems] Cons.prems by auto
qed simp

lemma missing_indices_eq:
  assumes "distinct names" "length names \<le> MAX_SYMBOLS" "length (ij_names job) \<le> u32_max"
  shows "missing_indices (looked_up names job) = filter (\<lambda>i. ij_names job ! i \<notin> set names) [0..<length (ij_names job)]"
proof -
  have "List.enumerate 0 (map (raw_id names) (ij_names job)) = map (\<lambda>i. (i, raw_id names (ij_names job ! i))) [0..<length (ij_names job)]"
    by (rule nth_equalityI) (simp_all add: nth_enumerate_eq)
  then have "missing_indices (looked_up names job) = map (\<lambda>i. unat (of_nat i :: u32)) (filter (\<lambda>i. ij_names job ! i \<notin> set names) [0..<length (ij_names job)])"
    by (simp add: missing_indices_def looked_up_def id_as_u32_def filter_map o_def raw_id_pending(1) [OF assms(1,2)])
  also have "\<dots> = filter (\<lambda>i. ij_names job ! i \<notin> set names) [0..<length (ij_names job)]"
    using assms(3) by (intro map_idI) (auto simp: unat_of_nat)
  finally show ?thesis .
qed

lemma map_nth_filter: "map (nth xs) (filter (\<lambda>i. P (xs ! i)) [0..<length xs]) = filter P xs"
proof -
  have "filter P xs = filter P (map (nth xs) [0..<length xs])" by (simp add: map_nth)
  then show ?thesis by (simp add: filter_map o_def)
qed

lemma write_at:
  "length (foldl (\<lambda>out (i, v). out[i := v]) out (zip is (map h is @ rest))) = length out \<and>
   (\<forall>i<length out. foldl (\<lambda>out (i, v). out[i := v]) out (zip is (map h is @ rest)) ! i = (if i \<in> set is then h i else out ! i))"
proof (induction "is" arbitrary: out)
  case (Cons k "is")
  from Cons [of "out[k := h k]"] show ?case by (auto simp: nth_list_update)
qed simp

lemma fill_missing_eq:
  assumes "distinct order" "set order \<subseteq> {..<length jobs}"
  shows "length (fill_missing jobs (map (\<lambda>j. (j, ix j)) order) (concat (map (\<lambda>j. map (h j) (ix j)) order))) = length jobs \<and>
    (\<forall>i<length jobs. fill_missing jobs (map (\<lambda>j. (j, ix j)) order) (concat (map (\<lambda>j. map (h j) (ix j)) order)) ! i =
      (if i \<in> set order then (jobs ! i)\<lparr>ij_ids := map (\<lambda>k. if k \<in> set (ix i) then h i k else ij_ids (jobs ! i) ! k) [0..<length (ij_ids (jobs ! i))]\<rparr> else jobs ! i))"
  using assms
proof (induction order arbitrary: jobs)
  case (Cons j order)
  let ?rest = "concat (map (\<lambda>j. map (h j) (ix j)) order)"
  let ?ids = "\<lambda>i. map (\<lambda>k. if k \<in> set (ix i) then h i k else ij_ids (jobs ! i) ! k) [0..<length (ij_ids (jobs ! i))]"
  have "foldl (\<lambda>out (i, v). out[i := v]) (ij_ids (jobs ! j)) (zip (ix j) (map (h j) (ix j) @ ?rest)) = ?ids j"
    using write_at [of "ij_ids (jobs ! j)" "ix j" "h j" ?rest] by (intro nth_equalityI) auto
  then have step: "fill_missing jobs (map (\<lambda>j. (j, ix j)) (j # order)) (concat (map (\<lambda>j. map (h j) (ix j)) (j # order))) =
      fill_missing (jobs[j := (jobs ! j)\<lparr>ij_ids := ?ids j\<rparr>]) (map (\<lambda>j. (j, ix j)) order) ?rest" by simp
  have "distinct order" "set order \<subseteq> {..<length (jobs[j := (jobs ! j)\<lparr>ij_ids := ?ids j\<rparr>])}" "j \<notin> set order" "j < length jobs" using Cons.prems by auto
  then show ?case unfolding step using Cons.IH [of "jobs[j := (jobs ! j)\<lparr>ij_ids := ?ids j\<rparr>]"] by (auto simp: nth_list_update)
qed simp

text \<open>A job is complete when the ids of the names that were not found are filled in.\<close>

lemma filled_job:
  assumes "distinct names" "length names \<le> MAX_SYMBOLS" "length (ij_names job) \<le> u32_max"
  shows "(looked_up names job)\<lparr>ij_ids := map (\<lambda>k. if k \<in> set (missing_indices (looked_up names job)) then id_in (add_names names ns) (ij_names job ! k)
      else ij_ids (looked_up names job) ! k) [0..<length (ij_ids (looked_up names job))]\<rparr> = with_ids (add_names names ns) job"
proof -
  have "raw_id names n = id_in (add_names names ns) n" if "n \<in> set names" for n
    using that raw_id_pending(3) [OF assms(1,2)] by (simp add: id_in_add_names)
  then have "map (\<lambda>k. if k \<in> set (missing_indices (looked_up names job)) then id_in (add_names names ns) (ij_names job ! k)
      else ij_ids (looked_up names job) ! k) [0..<length (ij_ids (looked_up names job))] = map (id_in (add_names names ns)) (ij_names job)"
    by (intro nth_equalityI) (auto simp: missing_indices_eq [OF assms], auto simp: looked_up_def)
  then show ?thesis by (simp add: with_ids_def) (simp add: looked_up_def)
qed

lemma missing_of_job:
  assumes "distinct names" "length names \<le> MAX_SYMBOLS" "short_jobs jobs" "j < length jobs"
  shows "map (\<lambda>i. ij_names (jobs ! j) ! i) (missing_indices (looked_up names (jobs ! j))) = filter (\<lambda>n. n \<notin> set names) (ij_names (jobs ! j))"
  using assms(3,4) missing_indices_eq [OF assms(1,2), of "jobs ! j"] map_nth_filter [of "ij_names (jobs ! j)" "\<lambda>n. n \<notin> set names"]
  by (simp add: short_jobs_def)

lemma missing_names:
  assumes "distinct names" "length names \<le> MAX_SYMBOLS" "short_jobs jobs" "set order \<subseteq> {..<length jobs}"
  shows "concat (map (\<lambda>j. map (\<lambda>i. ij_names (jobs ! j) ! i) (missing_indices (looked_up names (jobs ! j)))) order) =
    filter (\<lambda>n. n \<notin> set names) (names_in_order jobs order)"
  unfolding names_in_order_def filter_concat map_map o_def
  using assms(4) by (intro arg_cong [of _ _ concat] map_cong [OF refl] missing_of_job [OF assms(1-3)]) auto

lemma fill_missing_jobs:
  assumes names: "distinct names" "length names \<le> MAX_SYMBOLS" and short: "short_jobs jobs" and order: "distinct order" "set order = {..<length jobs}"
  defines "ix \<equiv> \<lambda>j. missing_indices (looked_up names (jobs ! j))"
  shows "fill_missing (map (looked_up names) jobs) (map (\<lambda>j. (j, ix j)) order)
      (map (id_in (add_names names ns)) (filter (\<lambda>n. n \<notin> set names) (names_in_order jobs order))) = map (with_ids (add_names names ns)) jobs"
proof -
  let ?id = "\<lambda>j i. id_in (add_names names ns) (ij_names (jobs ! j) ! i)" and ?jobs = "map (looked_up names) jobs"
  have ids: "map (id_in (add_names names ns)) (filter (\<lambda>n. n \<notin> set names) (names_in_order jobs order)) = concat (map (\<lambda>j. map (?id j) (ix j)) order)"
    unfolding missing_names [OF names short, of order, symmetric, unfolded order(2), OF order_refl] map_concat map_map o_def ix_def ..
  have "set order \<subseteq> {..<length ?jobs}" using order(2) by simp
  note fill = fill_missing_eq [OF order(1) this, of ix ?id]
  show ?thesis
  proof (rule nth_equalityI)
    show "length (fill_missing ?jobs (map (\<lambda>j. (j, ix j)) order) (map (id_in (add_names names ns)) (filter (\<lambda>n. n \<notin> set names) (names_in_order jobs order)))) =
        length (map (with_ids (add_names names ns)) jobs)" unfolding ids using fill by simp
    fix i assume "i < length (fill_missing ?jobs (map (\<lambda>j. (j, ix j)) order) (map (id_in (add_names names ns)) (filter (\<lambda>n. n \<notin> set names) (names_in_order jobs order))))"
    then have i: "i < length jobs" unfolding ids using fill by simp
    then have "length (ij_names (jobs ! i)) \<le> u32_max" using short by (simp add: short_jobs_def)
    note filled = filled_job [OF names this, of ns]
    have nth: "?jobs ! i = looked_up names (jobs ! i)" using i by simp
    show "fill_missing ?jobs (map (\<lambda>j. (j, ix j)) order) (map (id_in (add_names names ns)) (filter (\<lambda>n. n \<notin> set names) (names_in_order jobs order))) ! i =
        map (with_ids (add_names names ns)) jobs ! i"
      using conjunct2 [OF fill, rule_format, of i] filled i order(2) unfolding ids nth by (simp add: ix_def)
  qed
qed

lemma intern_missing_outcome:
  assumes laws: "hash_table_laws ht slot_hash elems" and inv: "table_inv elems st" and splits: "\<And>n. sum_list (splits n) = n"
    and order: "distinct order" "set order = {..<length jobs}" and ns: "length (names_in_order jobs order) \<le> MAX_SYMBOLS" and short: "short_jobs jobs"
  shows "\<exists>out. intern_missing ht threads splits (map (looked_up (st_names st)) jobs) order st = Some out \<and> batch_outcome elems st jobs (names_in_order jobs order) out"
proof -
  have ninv: "names_inv elems st" using inv by (simp add: table_inv_def)
  note invs = names_invD [OF ninv]
  let ?names = "st_names st" and ?ns = "names_in_order jobs order"
  let ?jobs = "map (looked_up ?names) jobs" and ?N = "add_names ?names ?ns"
  let ?miss = "filter (\<lambda>n. n \<notin> set ?names) ?ns" and ?missing = "map (\<lambda>j. (j, missing_indices (looked_up ?names (jobs ! j)))) order"
  have missing: "map (\<lambda>j. (j, missing_indices (?jobs ! j))) order = ?missing" using order(2) by simp
  have parts: "map (\<lambda>(j, indices). map (\<lambda>i. ij_names (?jobs ! j) ! i) indices) ?missing =
      map (\<lambda>j. map (\<lambda>i. ij_names (jobs ! j) ! i) (missing_indices (looked_up ?names (jobs ! j)))) order"
    using order(2) by (simp add: looked_up_def [of _ "jobs ! _"])
  have miss: "concat (map (\<lambda>(j, indices). map (\<lambda>i. ij_names (?jobs ! j) ! i) indices) ?missing) = ?miss"
    unfolding parts using order(2) by (intro missing_names [OF invs(2,5) short]) simp
  have N: "add_names ?names ?miss = ?N" by (rule add_names_filter) simp
  note fill = fill_missing_jobs [OF invs(2,5) short order, of ?ns]
  show ?thesis
  proof (cases "length ?miss < MIN_PARALLEL_MISSES")
    case small: True
    have run: "intern_missing ht threads splits ?jobs order st = (case intern_each ht ?miss st of
        (ids, True, st1) \<Rightarrow> Some (Ok (), grow_state (length (st_names st1) - length ?names) st1, fill_missing ?jobs ?missing ids)
      | (ids, False, st1) \<Rightarrow> let st2 = forget_names_from ht (length ?names) st1 in Some (Err (overflow (st_limit st2)), st2, ?jobs))"
      using small by (simp only: intern_missing_def Let_def missing miss if_True)
    show ?thesis
    proof (cases "length ?N \<le> st_limit st")
      case True
      with intern_each_complete [OF laws ninv, of ?miss] obtain st1 new where st1: "intern_each ht ?miss st = (map (id_in (st_names st1)) ?miss, True, st1)"
          "grown st new st1" "names_inv elems st1" "st_names st1 = ?N" unfolding N by blast
      then show ?thesis using grown_outcome [OF inv st1(2-4) True refl] by (simp add: run fill)
    next
      case False
      with intern_each_overflow [OF laws ninv, of ?miss] obtain ids st1 new where st1: "intern_each ht ?miss st = (ids, False, st1)"
          "grown st new st1" "names_inv elems st1" unfolding N by force
      from forget_names [OF laws st1(2,3) invs(3)] have undone: "grown st [] (forget_names_from ht (length ?names) st1)"
          "names_inv elems (forget_names_from ht (length ?names) st1)" by auto
      then show ?thesis using undone_outcome [OF inv undone, of ?ns jobs ?jobs] False by (simp add: run st1(1) grownD(4) [OF undone(1)])
    qed
  next
    case False
    have len: "length (concat [?miss]) \<le> MAX_SYMBOLS" using order_trans [OF length_filter_le ns] by simp
    have "fill_missing ?jobs ?missing (concat (map (map (id_in ?N)) [?miss])) = map (with_ids ?N) jobs" using fill by simp
    from sequence_outcome [where jobs' = "\<lambda>outs. fill_missing ?jobs ?missing (concat outs)", OF laws inv len splits _ _ this, of "[map (\<lambda>_. id_from_u32 0) ?miss]" threads] N
    obtain r st1 outs where "number_sequence ht threads splits (sequence_new [?miss]) [map (\<lambda>_. id_from_u32 0) ?miss] st = Some (r, st1, outs)"
        "r = Ok () \<longrightarrow> batch_outcome elems st jobs ?ns (Ok (), st1, fill_missing ?jobs ?missing (concat outs))"
        "\<forall>e. r = Err e \<longrightarrow> (\<forall>out. batch_outcome elems st jobs ?ns (Err e, st1, out))" by auto
    then show ?thesis using False by (cases r) (simp_all only: intern_missing_def Let_def missing miss if_False, auto)
  qed
qed

section \<open>Any batch\<close>

lemma partitioned_outcome:
  assumes laws: "hash_table_laws ht slot_hash elems" and inv: "table_inv elems st" and ok: "jobs_ok jobs" and splits: "\<And>n. sum_list (splits n) = n"
    and order: "distinct order" "set order = {..<length jobs}" and ns: "length (names_in_order jobs order) \<le> MAX_SYMBOLS" and short: "short_jobs jobs"
  shows "\<exists>out. intern_partitioned ht threads splits jobs order st = Some out \<and> batch_outcome elems st jobs (names_in_order jobs order) out"
proof (cases "st_names st = []")
  case True
  then show ?thesis by (rule partitioned_empty [OF laws inv ok splits order ns])
next
  case False
  have ninv: "names_inv elems st" using inv by (simp add: table_inv_def)
  note invs = names_invD [OF ninv]
  obtain jobs1 missing where look: "look_up_known ht st jobs = (jobs1, missing)" by (cases "look_up_known ht st jobs")
  then have jobs1: "jobs1 = map (looked_up (st_names st)) jobs" and none: "missing = 0 \<longleftrightarrow> (\<forall>job\<in>set jobs. set (ij_names job) \<subseteq> set (st_names st))"
    using look_up_known_eq [OF laws ninv ok] by simp_all
  show ?thesis
  proof (cases "missing = 0")
    case True
    then have known: "\<forall>job\<in>set jobs. set (ij_names job) \<subseteq> set (st_names st)" using none by simp
    then have "set (names_in_order jobs order) \<subseteq> set (st_names st)" using order(2) by (auto simp: names_in_order_def)
    then have same: "add_names (st_names st) (names_in_order jobs order) = st_names st" by (rule add_names_known)
    have "looked_up (st_names st) job = with_ids (st_names st) job" if "job \<in> set jobs" for job
    proof -
      have "map (raw_id (st_names st)) (ij_names job) = map (id_in (st_names st)) (ij_names job)"
        using known that by (intro map_cong [OF refl] raw_id_pending(3) [OF invs(2,5)]) blast
      then show ?thesis by (simp add: looked_up_def with_ids_def)
    qed
    then have "jobs1 = map (with_ids (st_names st)) jobs" by (simp add: jobs1)
    then have "batch_outcome elems st jobs (names_in_order jobs order) (Ok (), st, jobs1)"
      using inv invs by (simp add: batch_outcome_def Let_def same)
    then show ?thesis using False True by (simp add: intern_partitioned_def look)
  next
    case miss: False
    then show ?thesis using False intern_missing_outcome [OF laws inv splits order ns short, of threads] by (simp add: intern_partitioned_def look jobs1)
  qed
qed

lemma saturated_total:
  fixes jobs :: "intern_job list"
  shows "foldl (\<lambda>n job. saturating_add_usize n (length (ij_names job))) a jobs < usize_max \<Longrightarrow>
   foldl (\<lambda>n job. saturating_add_usize n (length (ij_names job))) a jobs = a + sum_list (map (\<lambda>job. length (ij_names job)) jobs)"
proof (induction jobs arbitrary: a)
  case (Cons job jobs)
  have top: "usize_max \<le> foldl (\<lambda>n job. saturating_add_usize n (length (ij_names job))) usize_max jobs" for jobs :: "intern_job list"
    by (induction jobs) (simp_all add: saturating_add_usize_def min_def)
  have "a + length (ij_names job) < usize_max"
  proof (rule ccontr)
    assume "\<not> ?thesis"
    then have "saturating_add_usize a (length (ij_names job)) = usize_max" by (simp add: saturating_add_usize_def)
    then show False using Cons.prems top [of jobs] by simp
  qed
  then have "saturating_add_usize a (length (ij_names job)) = a + length (ij_names job)" by (simp add: saturating_add_usize_def)
  then show ?case using Cons.IH [of "a + length (ij_names job)"] Cons.prems by (simp only: foldl_Cons list.map sum_list.Cons add.assoc)
qed simp

lemma length_names_in_order:
  assumes "distinct order" "set order = {..<length jobs}"
  shows "length (names_in_order jobs order) = sum_list (map (\<lambda>job. length (ij_names job)) jobs)"
proof -
  have "length (names_in_order jobs order) = sum_list (map (\<lambda>j. length (ij_names (jobs ! j))) order)"
    by (simp add: names_in_order_def length_concat o_def)
  also have "\<dots> = (\<Sum>j\<in>{0..<length jobs}. length (ij_names (jobs ! j)))"
    unfolding sum_list_distinct_conv_sum_set [OF assms(1)] assms(2) lessThan_atLeast0 ..
  also have "\<dots> = sum_list (map (\<lambda>job. length (ij_names job)) jobs)" by (simp add: sum_list_sum_nth)
  finally show ?thesis .
qed

lemma try_intern_batch_outcome:
  assumes laws: "hash_table_laws ht slot_hash elems" and inv: "table_inv elems st" and ok: "jobs_ok jobs" and hashed: "jobs_hashed hf jobs"
    and short: "short_jobs jobs" and splits: "\<forall>n. sum_list (splits n) = n"
    and schedule: "distinct schedule" "set schedule = set (job_occurrences jobs)"
  shows "\<exists>out. try_intern_batch ht threads splits schedule jobs st = Some out \<and> batch_outcome elems st jobs (batch_names jobs) out"
proof -
  define total where "total = foldl (\<lambda>n job. saturating_add_usize n (length (ij_names job))) 0 jobs"
  define least where "least = (if st_names st = [] then MIN_PARALLEL_LOOKUP else MIN_PARALLEL_LOOKUP_KNOWN)"
  note order = job_order_perm [of jobs]
  have "list_all (\<lambda>job. length (ij_names job) = length (ij_ids job)) jobs" using ok by (simp add: jobs_ok_def list_all_iff)
  then have run: "try_intern_batch ht threads splits schedule jobs st =
      (if positions_distinct jobs (job_order jobs) \<and> (total < least \<or> threads = 1) then Some (intern_in_order ht jobs (job_order jobs) st)
       else if positions_distinct jobs (job_order jobs) \<and> can_partition total then intern_partitioned ht threads splits jobs (job_order jobs) st
       else intern_passes ht (if least \<le> total then schedule else job_occurrences jobs) jobs st)"
    unfolding try_intern_batch_def Let_def total_def least_def by (simp only: not_True_eq_False if_False)
  consider (passes) "\<not> (positions_distinct jobs (job_order jobs) \<and> (total < least \<or> threads = 1))"
      "\<not> (positions_distinct jobs (job_order jobs) \<and> can_partition total)"
    | (in_order) "positions_distinct jobs (job_order jobs)" "total < least \<or> threads = 1"
    | (partitioned) "positions_distinct jobs (job_order jobs)" "\<not> (total < least \<or> threads = 1)" "can_partition total" by blast
  then show ?thesis
  proof cases
    case passes
    let ?schedule = "if least \<le> total then schedule else job_occurrences jobs"
    have "distinct ?schedule" "set ?schedule = set (job_occurrences jobs)" using schedule distinct_job_occurrences by simp_all
    from intern_passes_outcome [OF laws inv ok hashed this] show ?thesis by (simp only: run passes if_False)
  next
    case in_order
    have ref: "batch_names jobs = names_in_order jobs (job_order jobs)"
      using in_order(1) short unfolding positions_distinct_def by (rule batch_names_in_order)
    show ?thesis unfolding run ref using in_order intern_in_order_outcome [OF laws inv ok order] by simp
  next
    case partitioned
    have ref: "batch_names jobs = names_in_order jobs (job_order jobs)"
      using partitioned(1) short unfolding positions_distinct_def by (rule batch_names_in_order)
    have small: "total < MAX_SYMBOLS" using partitioned(3) by (simp add: can_partition_def MAX_SYMBOLS_eq unat_PENDING)
    then have "length (names_in_order jobs (job_order jobs)) \<le> MAX_SYMBOLS"
      using saturated_total [of 0 jobs] by (simp add: length_names_in_order [OF order] MAX_SYMBOLS_eq total_def)
    from partitioned_outcome [OF laws inv ok _ order this short, of splits threads] splits partitioned show ?thesis
      unfolding run ref by simp
  qed
qed



lemma job_names_in_batch: "job \<in> set jobs \<Longrightarrow> n \<in> set (ij_names job) \<Longrightarrow> n \<in> set (batch_names jobs)"
  by (auto simp: set_batch_names set_job_occurrences occ_name_def in_set_conv_nth image_iff)


section \<open>Properties\<close>

text \<open>
  C4. A batch whose new names fit is interned: on any number of threads, however rayon cuts its ranges and in
  whatever order the tasks of the first pass look their names up, \<open>try_intern_batch\<close> returns Ok and numbers the
  new names in the order of their first occurrence (position, then index, then contents) after the names of
  the table; every job gets the ids of its names, a lookup finds each of them, and the table keeps its
  invariant.
\<close>

theorem try_intern_batch_numbers:
  assumes "hash_table_laws ht slot_hash elems" "table_inv elems st" "jobs_ok jobs" "jobs_hashed hf jobs" "short_jobs jobs"
    and "\<forall>n. sum_list (splits n) = n" "distinct schedule" "set schedule = set (job_occurrences jobs)"
    and "length (add_names (st_names st) (batch_names jobs)) \<le> st_limit st"
  shows "\<exists>st'. try_intern_batch ht threads splits schedule jobs st =
      Some (Ok (), st', map (\<lambda>job. job\<lparr>ij_ids := map (id_in (add_names (st_names st) (batch_names jobs))) (ij_names job)\<rparr>) jobs) \<and>
    table_inv elems st' \<and> st_names st' = add_names (st_names st) (batch_names jobs) \<and>
    (\<forall>job\<in>set jobs. \<forall>n\<in>set (ij_names job). table_lookup ht st' n = Some (id_in (st_names st') n))"
proof -
  let ?N = "add_names (st_names st) (batch_names jobs)"
  from try_intern_batch_outcome [OF assms(1-8), of threads] obtain r st' jobs' where
      run: "try_intern_batch ht threads splits schedule jobs st = Some (r, st', jobs')" and out: "batch_outcome elems st jobs (batch_names jobs) (r, st', jobs')"
    by auto
  then have st': "r = Ok ()" "table_inv elems st'" "st_names st' = ?N" "jobs' = map (with_ids ?N) jobs"
    using assms(9) by (simp_all add: batch_outcome_def Let_def)
  have "table_lookup ht st' n = Some (id_in ?N n)" if job: "job \<in> set jobs" and n: "n \<in> set (ij_names job)" for job n
  proof -
    have "n \<in> set (batch_names jobs)" using job_names_in_batch [OF job n] .
    then have "name_ids ?N n \<noteq> None" by (simp add: name_ids_None set_add_names)
    then show ?thesis using lookup_name_ids [OF assms(1), of st' n] st'(2,3) by (auto simp: table_inv_def id_in_def)
  qed
  then show ?thesis using run st' by (simp add: with_ids_def)
qed

definition demo_batch :: "intern_job list" where
  "demo_batch = [\<lparr>ij_position = 2, ij_names = [name_new (\<lambda>_. 7) [98], name_new (\<lambda>_. 7) [97]], ij_ids = [0, 0]\<rparr>,
     \<lparr>ij_position = 2, ij_names = [name_new (\<lambda>_. 7) [97]], ij_ids = [0]\<rparr>]"

lemma demo_batch_ok: "jobs_ok demo_batch" "jobs_hashed (\<lambda>_. 7) demo_batch" "short_jobs demo_batch"
  by (simp_all add: jobs_ok_def jobs_hashed_def short_jobs_def demo_batch_def name_hashed_def name_new_def name_with_version_def)

lemma demo_batch_names: "batch_names demo_batch = [name_new (\<lambda>_. 7) [97], name_new (\<lambda>_. 7) [98], name_new (\<lambda>_. 7) [97]]"
  by code_simp

lemma demo_batch_added: "add_names [] (batch_names demo_batch) = [name_new (\<lambda>_. 7) [97], name_new (\<lambda>_. 7) [98]]"
  by (simp add: demo_batch_names name_new_def name_with_version_def)

lemma demo_schedule: "distinct [(1 :: usize, 0 :: usize), (0, 1), (0, 0)]" "set [(1 :: usize, 0 :: usize), (0, 1), (0, 0)] = set (job_occurrences demo_batch)"
  by (auto simp: job_occurrences_def demo_batch_def upt_rec)

theorem try_intern_batch_numbers_witness:
  "\<exists>st'. try_intern_batch (list_table slot_hash) 8 (\<lambda>n. [n]) [(1, 0), (0, 1), (0, 0)] demo_batch (table_new (list_table slot_hash)) =
      Some (Ok (), st', [\<lparr>ij_position = 2, ij_names = [name_new (\<lambda>_. 7) [98], name_new (\<lambda>_. 7) [97]], ij_ids = [1, 0]\<rparr>,
        \<lparr>ij_position = 2, ij_names = [name_new (\<lambda>_. 7) [97]], ij_ids = [0]\<rparr>]) \<and>
    st_names st' = [name_new (\<lambda>_. 7) [97], name_new (\<lambda>_. 7) [98]]"
proof -
  have st0: "st_names (table_new (list_table slot_hash)) = []" "st_limit (table_new (list_table slot_hash)) = MAX_SYMBOLS"
    by (simp_all add: table_new_def table_with_capacity_def)
  have ids: "id_in [name_new (\<lambda>_. 7) [97], name_new (\<lambda>_. 7) [98]] (name_new (\<lambda>_. 7) [97]) = 0"
    "id_in [name_new (\<lambda>_. 7) [97], name_new (\<lambda>_. 7) [98]] (name_new (\<lambda>_. 7) [98]) = 1"
    by (simp_all add: id_in_def name_ids_def position_def name_new_def name_with_version_def)
  show ?thesis
    using try_intern_batch_numbers [OF list_table_laws table_inv_new [OF list_table_laws] demo_batch_ok _ demo_schedule, of "\<lambda>n. [n]" 8]
    by (simp add: st0 demo_batch_added MAX_SYMBOLS_eq) (auto simp: demo_batch_def ids)
qed

text \<open>
  C5. A batch that does not fit is refused: whatever the path and the schedule, \<open>try_intern_batch\<close> returns the
  limit error, and the table has the names, flags and definitions it had, keeps its invariant and finds
  exactly the names it found before.
\<close>

theorem try_intern_batch_overflow:
  assumes "hash_table_laws ht slot_hash elems" "table_inv elems st" "jobs_ok jobs" "jobs_hashed hf jobs" "short_jobs jobs"
    and "\<forall>n. sum_list (splits n) = n" "distinct schedule" "set schedule = set (job_occurrences jobs)"
    and "st_limit st < length (add_names (st_names st) (batch_names jobs))"
  shows "\<exists>st' jobs'. try_intern_batch ht threads splits schedule jobs st = Some (Err (Limit (st_limit st)), st', jobs') \<and>
    table_inv elems st' \<and> st_names st' = st_names st \<and> st_flags st' = st_flags st \<and> st_defs st' = st_defs st \<and>
    (\<forall>n. table_lookup ht st' n = table_lookup ht st n)"
proof -
  from try_intern_batch_outcome [OF assms(1-8), of threads] obtain r st' jobs' where
      run: "try_intern_batch ht threads splits schedule jobs st = Some (r, st', jobs')" and out: "batch_outcome elems st jobs (batch_names jobs) (r, st', jobs')"
    by auto
  then have st': "r = Err (Limit (st_limit st))" "table_inv elems st'" "st_names st' = st_names st" "st_flags st' = st_flags st" "st_defs st' = st_defs st"
    using assms(9) by (simp_all add: batch_outcome_def Let_def overflow_def)
  then have "table_lookup ht st' n = table_lookup ht st n" for n
    using lookup_name_ids [OF assms(1), of st' n] lookup_name_ids [OF assms(1), of st n] assms(2) by (simp add: table_inv_def)
  then show ?thesis using run st' by blast
qed

theorem try_intern_batch_overflow_witness:
  "\<exists>st' jobs'. try_intern_batch (list_table slot_hash) 8 (\<lambda>n. [n]) [(1, 0), (0, 1), (0, 0)] demo_batch (set_limit 1 (table_new (list_table slot_hash))) =
      Some (Err (Limit 1), st', jobs') \<and> st_names st' = [] \<and> table_lookup (list_table slot_hash) st' (name_new (\<lambda>_. 7) [97]) = None"
proof -
  let ?ht = "list_table slot_hash" and ?st = "set_limit 1 (table_new (list_table slot_hash))"
  have st0: "st_names ?st = []" "st_limit ?st = 1" by (simp_all add: set_limit_def table_new_def table_with_capacity_def MAX_SYMBOLS_eq)
  have inv: "table_inv mset ?st"
    using table_inv_new [OF list_table_laws] by (simp add: table_inv_def names_inv_def set_limit_def table_new_def table_with_capacity_def MAX_SYMBOLS_eq)
  have "table_lookup ?ht ?st (name_new (\<lambda>_. 7) [97]) = None"
    using lookup_name_ids [OF list_table_laws, of ?st] inv by (simp add: table_inv_def st0(1) [simplified] name_ids_None)
  then show ?thesis
    using try_intern_batch_overflow [OF list_table_laws inv demo_batch_ok _ demo_schedule, of "\<lambda>n. [n]" 8] by (auto simp: st0 [simplified] demo_batch_added)
qed





end
