(* ===== verification/MachineCode.thy ===== *)
theory MachineCode
  imports Prelude
begin

text \<open>
  What the instruction encoders of src/src/arch share: Rust's shifts and byte conversions, reading and
  writing words in a slice, and the reference description of an instruction field, a layout that says
  which bit of the value each bit of the instruction holds.
\<close>

section \<open>Integers and slices\<close>

type_synonym u16 = "16 word"
type_synonym i64 = "64 word"

text \<open>An \<open>i64\<close> is its two's complement word; \<open>sint\<close> reads it.\<close>

definition checked_shl :: "'a::len word \<Rightarrow> nat \<Rightarrow> 'a word option" where
  "checked_shl w n = (if n < LENGTH('a) then Some (push_bit n w) else None)"

definition checked_shr :: "'a::len word \<Rightarrow> nat \<Rightarrow> 'a word option" where
  "checked_shr w n = (if n < LENGTH('a) then Some (drop_bit n w) else None)"

definition checked_add_i64 :: "i64 \<Rightarrow> i64 \<Rightarrow> i64 option" where
  "checked_add_i64 a b = (if sint a + sint b = sint (a + b) then Some (a + b) else None)"

definition from_le_bytes :: "u8 list \<Rightarrow> 'a::len word" where
  "from_le_bytes bs = foldr (\<lambda>b w. ucast b OR push_bit 8 w) bs 0"

definition to_le_bytes :: "'a::len word \<Rightarrow> u8 list" where
  "to_le_bytes w = map (\<lambda>i. ucast (drop_bit (8 * i) w)) [0..<LENGTH('a) div 8]"

definition from_be_bytes :: "u8 list \<Rightarrow> 'a::len word" where
  "from_be_bytes bs = from_le_bytes (rev bs)"

definition to_be_bytes :: "'a::len word \<Rightarrow> u8 list" where
  "to_be_bytes w = rev (to_le_bytes w)"

text \<open>\<open>get(at..)\<close> followed by \<open>first_chunk::<n>()\<close>, and the assignment through \<open>first_chunk_mut\<close>.\<close>

definition chunk_at :: "u8 list \<Rightarrow> usize \<Rightarrow> nat \<Rightarrow> u8 list option" where
  "chunk_at data at n = (if at \<le> length data \<and> n \<le> length data - at then Some (take n (drop at data)) else None)"

definition put_chunk :: "u8 list \<Rightarrow> usize \<Rightarrow> u8 list \<Rightarrow> u8 list option" where
  "put_chunk data at chunk =
     (if at \<le> length data \<and> length chunk \<le> length data - at
      then Some (take at data @ chunk @ drop (at + length chunk) data) else None)"

text \<open>The error of the encoders, the unit structure \<open>Overflow\<close>.\<close>

datatype overflow_error = FieldOverflow

text \<open>Helpers that aarch64.rs and loongarch.rs define with the same body.\<close>

definition fits_signed :: "i64 \<Rightarrow> nat \<Rightarrow> bool" where
  "fits_signed value bits =
     (if 64 \<le> bits then True
      else case checked_shl (1 :: i64) (if bits = 0 then u32_max else bits - 1) of None \<Rightarrow> True
           | Some limit \<Rightarrow> sint (- limit) \<le> sint value \<and> sint value < sint limit)"

definition fits_unsigned :: "i64 \<Rightarrow> nat \<Rightarrow> bool" where
  "fits_unsigned value bits =
     (if 64 \<le> bits then True
      else case checked_shl (1 :: i64) bits of None \<Rightarrow> True
           | Some limit \<Rightarrow> 0 \<le> sint value \<and> sint value < sint limit)"

definition read_insn :: "u8 list \<Rightarrow> usize \<Rightarrow> u32 option" where
  "read_insn data at = map_option from_le_bytes (chunk_at data at 4)"

definition write_insn :: "u8 list \<Rightarrow> usize \<Rightarrow> u32 \<Rightarrow> u8 list option" where
  "write_insn data at insn = put_chunk data at (to_le_bytes insn)"

definition insert_field :: "u32 \<Rightarrow> u32 \<Rightarrow> nat \<Rightarrow> nat \<Rightarrow> u32" where
  "insert_field insn value lsb bits =
     (let mask = (case checked_shl (1 :: u32) bits of Some b \<Rightarrow> b - 1 | None \<Rightarrow> - 1);
          shifted_mask = (case checked_shl mask lsb of Some m \<Rightarrow> m | None \<Rightarrow> 0)
      in (insn AND NOT shifted_mask) OR (case checked_shl (value AND mask) lsb of Some v \<Rightarrow> v | None \<Rightarrow> 0))"

section \<open>Layouts of instruction fields\<close>

text \<open>
  A layout lists the parts of a field: bits \<open>p..p + w\<close> of the instruction hold bits \<open>l..l + w\<close> of the
  value, for each \<open>(p, l, w)\<close>.
\<close>

type_synonym layout = "(nat \<times> nat \<times> nat) list"

definition layout_pairs :: "layout \<Rightarrow> (nat \<times> nat) list" where
  "layout_pairs fs = concat (map (\<lambda>(p, l, w). map (\<lambda>i. (p + i, l + i)) [0..<w]) fs)"

definition layout_ok :: "layout \<Rightarrow> bool" where
  "layout_ok fs \<longleftrightarrow> distinct (map fst (layout_pairs fs)) \<and> distinct (map snd (layout_pairs fs))"

definition source_bit :: "layout \<Rightarrow> nat \<Rightarrow> nat option" where
  "source_bit fs = map_of (layout_pairs fs)"

definition target_bit :: "layout \<Rightarrow> nat \<Rightarrow> nat option" where
  "target_bit fs = map_of (map prod.swap (layout_pairs fs))"

text \<open>The reference encoder and decoder of a layout.\<close>

definition scatter :: "layout \<Rightarrow> 'i::len word \<Rightarrow> 'v::len word \<Rightarrow> 'i word" where
  "scatter fs insn v =
     horner_sum of_bool 2 (map (\<lambda>n. case source_bit fs n of None \<Rightarrow> bit insn n | Some k \<Rightarrow> bit v k) [0..<LENGTH('i)])"

definition gather :: "layout \<Rightarrow> 'i::len word \<Rightarrow> 'v::len word" where
  "gather fs insn =
     horner_sum of_bool 2 (map (\<lambda>k. case target_bit fs k of None \<Rightarrow> False | Some n \<Rightarrow> bit insn n) [0..<LENGTH('v)])"

text \<open>The number a field of width \<open>w\<close> stands for, sign-extended or not.\<close>

definition decode_signed :: "layout \<Rightarrow> nat \<Rightarrow> 'i::len word \<Rightarrow> int" where
  "decode_signed fs w insn = signed_take_bit (w - 1) (uint (gather fs insn :: u64))"

definition decode_unsigned :: "layout \<Rightarrow> 'i::len word \<Rightarrow> int" where
  "decode_unsigned fs insn = uint (gather fs insn :: u64)"

definition in_signed :: "int \<Rightarrow> nat \<Rightarrow> bool" where
  "in_signed v w \<longleftrightarrow> - (2 ^ (w - 1)) \<le> v \<and> v < 2 ^ (w - 1)"

definition in_unsigned :: "int \<Rightarrow> nat \<Rightarrow> bool" where
  "in_unsigned v w \<longleftrightarrow> 0 \<le> v \<and> v < 2 ^ w"

section \<open>Bits of words\<close>

lemma bit_low_mask [simp]: "bit (push_bit w 1 - 1 :: 'a::len word) n \<longleftrightarrow> n < w \<and> n < LENGTH('a)"
  by (metis push_bit_of_1 mask_eq_exp_minus_1 bit_mask_iff possible_bit_word)

lemma word_eq_upto: "\<forall>n\<in>set [0..<LENGTH('a)]. bit a n = bit b n \<Longrightarrow> a = b" for a b :: "'a::len word"
  by (auto intro: bit_word_eqI)

lemmas bit_blast = bit_or_iff bit_and_iff bit_xor_iff bit_push_bit_iff bit_drop_bit_eq bit_unsigned_iff
  bit_not_iff bit_take_bit_iff

lemma sint_i64: "- (2 ^ 63) \<le> k \<Longrightarrow> k < 2 ^ 63 \<Longrightarrow> sint (word_of_int k :: i64) = k"
  by (simp add: sint_sbintrunc' signed_take_bit_int_eq_self)

lemma sint_pow2_i64:
  assumes "n < 63"
  shows "sint (push_bit n 1 :: i64) = 2 ^ n" and "sint (- push_bit n 1 :: i64) = - (2 ^ n)"
proof -
  have le: "(2 :: int) ^ n < 2 ^ 63" using assms by (intro power_strict_increasing) auto
  have "(0 :: int) < 2 ^ n" by simp
  with le have "- (2 ^ 63) \<le> (2 :: int) ^ n" "- (2 ^ 63) \<le> - ((2 :: int) ^ n)" "- ((2 :: int) ^ n) < 2 ^ 63"
    by linarith+
  note b = this
  show "sint (push_bit n 1 :: i64) = 2 ^ n" using sint_i64 [OF b(1) le] by (simp add: push_bit_of_1)
  show "sint (- push_bit n 1 :: i64) = - (2 ^ n)" using sint_i64 [OF b(2,3)] by (simp add: push_bit_of_1)
qed

lemma take_bit_sint: "w \<le> 64 \<Longrightarrow> take_bit w (sint v) = take_bit w (uint v)" for v :: u64
  by (simp add: sint_uint take_bit_signed_take_bit)

lemma sint_bounds_i64: "- (2 ^ 63) \<le> sint v" "sint v < 2 ^ 63" for v :: i64
  using sint_ge [of v] sint_lt [of v] by simp_all

lemma sint_add_i64: "sint (a + b) = (sint a + sint b + 2 ^ 63) mod 2 ^ 64 - 2 ^ 63" for a b :: i64
  using int_word_sint [of "sint a + sint b", where 'a = 64] by simp

lemma sint_diff_i64: "sint (a - b) = (sint a - sint b + 2 ^ 63) mod 2 ^ 64 - 2 ^ 63" for a b :: i64
  using int_word_sint [of "sint a - sint b", where 'a = 64] by simp

lemma sint_add_in_range: "- (2 ^ 63) \<le> sint a + sint b \<Longrightarrow> sint a + sint b < 2 ^ 63 \<Longrightarrow> sint (a + b) = sint a + sint b"
  for a b :: i64
  by (simp add: sint_add_i64)

lemma sint_diff_in_range: "- (2 ^ 63) \<le> sint a - sint b \<Longrightarrow> sint a - sint b < 2 ^ 63 \<Longrightarrow> sint (a - b) = sint a - sint b"
  for a b :: i64
  by (simp add: sint_diff_i64)

lemma sint_add_mod:
  fixes a b :: i64
  assumes "n \<le> 64"
  shows "sint (a + b) mod 2 ^ n = (sint a + sint b) mod 2 ^ n" and "sint (a - b) mod 2 ^ n = (sint a - sint b) mod 2 ^ n"
proof -
  have "take_bit n (sint (a + b)) = take_bit n (sint a + sint b)" "take_bit n (sint (a - b)) = take_bit n (sint a - sint b)"
    using assms by (simp_all add: sint_word_ariths take_bit_signed_take_bit)
  then show "sint (a + b) mod 2 ^ n = (sint a + sint b) mod 2 ^ n" "sint (a - b) mod 2 ^ n = (sint a - sint b) mod 2 ^ n"
    by (simp_all add: take_bit_eq_mod)
qed

lemma mod_wrap_once: "m \<le> x \<Longrightarrow> x < 2 * m \<Longrightarrow> x mod m = x - m" for x m :: int
  by (metis diff_ge_0_iff_ge diff_less_eq minus_mod_self2 mod_pos_pos_trivial mult_2)

lemma and_not_mask_int: "k AND NOT (mask n) = k - k mod 2 ^ n" for k :: int
proof -
  have "k AND NOT (mask n) = push_bit n (drop_bit n k)"
    by (auto intro!: bit_eqI simp: bit_and_iff bit_not_iff bit_mask_iff bit_push_bit_iff bit_drop_bit_eq)
  then show ?thesis using bits_ident [of n k] by (simp add: take_bit_eq_mod)
qed

lemma sint_clear_low: "sint (v AND NOT (mask n)) = sint v - sint v mod 2 ^ n" if "n < 64" for v :: i64
proof -
  have "sint (v AND NOT (mask n)) = sint v AND NOT (mask n)"
    using that by (intro bit_eqI) (auto simp: bit_sint_iff bit_and_iff bit_not_iff bit_mask_iff dest: bit_imp_le_length)
  then show ?thesis by (simp add: and_not_mask_int)
qed

lemma low_bits_zero:
  fixes v :: i64
  assumes "n \<le> 64"
  shows "v AND mask n = 0 \<longleftrightarrow> 2 ^ n dvd sint v" and "2 ^ n dvd sint v \<longleftrightarrow> (\<forall>k<n. \<not> bit v k)"
proof -
  have t: "v AND mask n = take_bit n v" by (simp add: take_bit_eq_mask)
  have "take_bit n v = 0 \<longleftrightarrow> uint (take_bit n v) = 0" by (simp only: uint_0_iff)
  also have "uint (take_bit n v) = take_bit n (sint v)"
    using take_bit_sint [OF assms, of v] by (simp add: unsigned_take_bit_eq)
  finally have z: "take_bit n v = 0 \<longleftrightarrow> 2 ^ n dvd sint v" by (auto simp: take_bit_eq_mod dvd_eq_mod_eq_0)
  show "v AND mask n = 0 \<longleftrightarrow> 2 ^ n dvd sint v" unfolding t by (rule z)
  have "take_bit n v = 0 \<longleftrightarrow> (\<forall>k<n. \<not> bit v k)"
    using assms by (auto simp: bit_eq_iff bit_take_bit_iff)
  with z show "2 ^ n dvd sint v \<longleftrightarrow> (\<forall>k<n. \<not> bit v k)" by simp
qed

lemma dvd_sint_add:
  fixes a b :: i64
  assumes "n \<le> 64" "2 ^ n dvd sint a" "2 ^ n dvd sint b"
  shows "2 ^ n dvd sint (a + b)" and "2 ^ n dvd sint (a - b)"
proof -
  have "2 ^ n dvd sint a + sint b" "2 ^ n dvd sint a - sint b" using assms by simp_all
  then show "2 ^ n dvd sint (a + b)" "2 ^ n dvd sint (a - b)"
    using sint_add_mod [OF assms(1), of a b] by (simp_all add: dvd_eq_mod_eq_0)
qed

lemma bit_of_sint_mod:
  fixes a b :: i64
  assumes "n \<le> 64" "sint a mod 2 ^ n = sint b mod 2 ^ n" "k < n"
  shows "bit a k = bit b k"
proof -
  have "bit (take_bit n (sint a)) k = bit (take_bit n (sint b)) k" using assms(2) by (simp add: take_bit_eq_mod)
  then show ?thesis using assms(1,3) by (simp add: bit_take_bit_iff bit_sint_iff)
qed

lemma and_mask_cases:
  "v AND 1 = 0 \<longleftrightarrow> 2 dvd sint v" "v AND 3 = 0 \<longleftrightarrow> 4 dvd sint v" "v AND 7 = 0 \<longleftrightarrow> 8 dvd sint v" for v :: i64
  using low_bits_zero(1) [of 1 v] low_bits_zero(1) [of 2 v] low_bits_zero(1) [of 3 v]
  by (simp_all add: mask_eq_exp_minus_1)

lemma sext_word:
  fixes v :: u64
  assumes "n < 64"
  shows "word_of_int (signed_take_bit n (sint v)) = take_bit (Suc n) v - (if bit v n then 2 ^ Suc n else 0)"
proof -
  have "take_bit (Suc n) (sint v) = uint (take_bit (Suc n) v)"
    using assms take_bit_sint [of "Suc n" v] by (simp add: unsigned_take_bit_eq)
  then have "word_of_int (take_bit (Suc n) (sint v)) = take_bit (Suc n) v" by simp
  moreover have "bit (sint v) n = bit v n" using assms by (simp add: bit_sint_iff)
  ultimately show ?thesis by (simp add: signed_take_bit_eq_take_bit_minus)
qed

lemma signed_field_low:
  fixes a v :: u64
  assumes w: "0 < w" "w \<le> 64" and bits: "\<forall>k<w. bit a k = bit v k"
  shows "signed_take_bit (w - 1) (uint a) = signed_take_bit (w - 1) (sint v)"
proof -
  have "take_bit w (uint a) = take_bit w (uint v)"
    using bits w by (auto intro!: bit_eqI simp: bit_take_bit_iff bit_uint_iff)
  also have "\<dots> = take_bit w (sint v)"
    by (rule take_bit_sint [symmetric]) (use w in simp)
  finally show ?thesis using w by (subst signed_take_bit_eq_iff_take_bit_eq) simp
qed

lemma in_signed_take: "in_signed k w \<Longrightarrow> signed_take_bit (w - 1) k = k"
  unfolding in_signed_def by (subst signed_take_bit_int_eq_self_iff) simp

lemma unsigned_field_eq:
  fixes a v :: u64
  assumes fits: "in_unsigned (sint v) w" and w: "w < 64"
    and bits: "\<forall>k<w. bit a k = bit v k" and zero: "\<forall>k\<ge>w. \<not> bit a k"
  shows "uint a = sint v"
proof -
  have "uint a = take_bit w (uint v)"
  proof (rule bit_eqI)
    fix n show "bit (uint a) n = bit (take_bit w (uint v)) n"
      using bits zero by (cases "n < w") (auto simp: bit_take_bit_iff bit_uint_iff)
  qed
  also have "\<dots> = take_bit w (sint v)"
    by (rule take_bit_sint [symmetric]) (use w in simp)
  also have "\<dots> = sint v"
    using fits unfolding in_unsigned_def by (simp add: take_bit_int_eq_self_iff)
  finally show ?thesis .
qed

section \<open>Layouts\<close>

lemma source_bit_Nil [simp]: "source_bit [] n = None"
  by (simp add: source_bit_def layout_pairs_def)

lemma map_of_part: "map_of (map (\<lambda>i. (p + i, l + i)) [0..<w]) n = (if p \<le> n \<and> n < p + w then Some (l + (n - p)) else None)"
proof -
  have "map_of (map (\<lambda>i. (p + i, l + i)) [0..<w]) = map_of (map (\<lambda>m. (m, l + (m - p))) [p..<p + w])"
    by (rule arg_cong [where f = map_of]) (auto intro!: nth_equalityI)
  then show ?thesis by (simp add: map_of_map_restrict restrict_map_def)
qed

lemma source_bit_Cons [simp]:
  "source_bit ((p, l, w) # fs) n = (if p \<le> n \<and> n < p + w then Some (l + (n - p)) else source_bit fs n)"
  using map_of_part [of p l w n] by (auto simp: source_bit_def layout_pairs_def map_add_def split: option.split)

lemma target_bit_Nil [simp]: "target_bit [] n = None"
  by (simp add: target_bit_def layout_pairs_def)

lemma target_bit_Cons [simp]:
  "target_bit ((p, l, w) # fs) k = (if l \<le> k \<and> k < l + w then Some (p + (k - l)) else target_bit fs k)"
  using map_of_part [of l p w k]
  by (auto simp: target_bit_def layout_pairs_def map_add_def comp_def split: option.split)

lemma target_source:
  assumes "layout_ok fs" "target_bit fs k = Some n"
  shows "source_bit fs n = Some k"
proof -
  have "(n, k) \<in> set (layout_pairs fs)" using assms(2) by (auto simp: target_bit_def dest!: map_of_SomeD)
  then show ?thesis using assms(1) by (simp add: source_bit_def layout_ok_def)
qed

lemma bit_scatter:
  "bit (scatter fs insn v :: 'i::len word) n \<longleftrightarrow>
     n < LENGTH('i) \<and> (case source_bit fs n of None \<Rightarrow> bit insn n | Some k \<Rightarrow> bit v k)"
  by (auto simp: scatter_def bit_horner_sum_bit_word_iff split: option.splits)

lemma bit_gather:
  "bit (gather fs insn :: 'v::len word) k \<longleftrightarrow>
     k < LENGTH('v) \<and> (case target_bit fs k of None \<Rightarrow> False | Some n \<Rightarrow> bit insn n)"
  by (auto simp: gather_def bit_horner_sum_bit_word_iff split: option.splits)

lemma gather_scatter:
  assumes "layout_ok fs" "\<forall>(n, k)\<in>set (layout_pairs fs). n < LENGTH('i)"
  shows "bit (gather fs (scatter fs insn v :: 'i::len word) :: u64) k \<longleftrightarrow> k < 64 \<and> target_bit fs k \<noteq> None \<and> bit v k"
proof (cases "target_bit fs k")
  case (Some n)
  then have "(n, k) \<in> set (layout_pairs fs)" by (auto simp: target_bit_def dest!: map_of_SomeD)
  with assms(2) have "n < LENGTH('i)" by auto
  with Some target_source [OF assms(1) Some] show ?thesis by (simp add: bit_gather bit_scatter)
qed (simp add: bit_gather)

lemma scatter_scatter: "scatter fs (scatter fs insn v) w = scatter fs insn w"
  by (auto intro!: bit_word_eqI simp: bit_scatter split: option.split)

text \<open>
  The contract of an encoder of one field: it is the reference encoder of a layout, so what it writes
  decodes to the value and nothing else of the instruction changes.
\<close>

locale insn_field =
  fixes fs :: layout and enc :: "'i::len word \<Rightarrow> u64 \<Rightarrow> 'i word"
  assumes enc_scatter: "enc insn v = scatter fs insn v"
    and fs_ok: "layout_ok fs"
    and fs_range: "\<forall>(n, k)\<in>set (layout_pairs fs). n < LENGTH('i)"
begin

lemma keeps: "source_bit fs n = None \<Longrightarrow> bit (enc insn v) n \<longleftrightarrow> bit insn n"
  using bit_imp_le_length [of insn n] by (auto simp: enc_scatter bit_scatter)

lemma overwrites: "enc (enc insn v) w = enc insn w"
  by (simp add: enc_scatter scatter_scatter)

lemma decodes_bit: "bit (gather fs (enc insn v) :: u64) k \<longleftrightarrow> k < 64 \<and> target_bit fs k \<noteq> None \<and> bit v k"
  unfolding enc_scatter by (rule gather_scatter [OF fs_ok fs_range])

lemma decodes_low:
  assumes "0 < w" "w \<le> 64" "\<forall>k\<in>set [0..<w]. target_bit fs k = None \<longrightarrow> \<not> bit v k"
  shows "decode_signed fs w (enc insn v) = signed_take_bit (w - 1) (sint v)"
  unfolding decode_signed_def using assms by (intro signed_field_low) (auto simp: decodes_bit)

lemma decodes_signed:
  assumes "in_signed (sint v) w" "0 < w" "w \<le> 64" "\<forall>k\<in>set [0..<w]. target_bit fs k = None \<longrightarrow> \<not> bit v k"
  shows "decode_signed fs w (enc insn v) = sint v"
  using decodes_low [OF assms(2-4)] in_signed_take [OF assms(1)] by simp

lemma decodes_unsigned:
  assumes "in_unsigned (sint v) w" "w < 64" "\<forall>k\<in>set [0..<w]. target_bit fs k = None \<longrightarrow> \<not> bit v k"
    "\<forall>k\<in>set [w..<64]. target_bit fs k = None"
  shows "decode_unsigned fs (enc insn v) = sint v"
  unfolding decode_unsigned_def using assms
  by (intro unsigned_field_eq [where w = w]) (auto simp: decodes_bit)

end

lemma insn_field_scatter:
  "layout_ok fs \<Longrightarrow> \<forall>(n, k)\<in>set (layout_pairs fs). n < LENGTH('i) \<Longrightarrow>
     insn_field fs (scatter fs :: 'i::len word \<Rightarrow> u64 \<Rightarrow> 'i word)"
  by unfold_locales auto

section \<open>Bytes\<close>

lemma bit_from_le_bytes:
  "bit (from_le_bytes bs :: 'a::len word) n \<longleftrightarrow> n < LENGTH('a) \<and> n div 8 < length bs \<and> bit (bs ! (n div 8)) (n mod 8)"
proof (induction bs arbitrary: n)
  case (Cons b bs)
  have step: "bit (from_le_bytes (b # bs) :: 'a word) n \<longleftrightarrow>
      n < LENGTH('a) \<and> bit b n \<or> 8 \<le> n \<and> n < LENGTH('a) \<and> bit (from_le_bytes bs :: 'a word) (n - 8)"
    by (auto simp: from_le_bytes_def bit_or_iff bit_push_bit_iff bit_unsigned_iff)
  show ?case
  proof (cases "n < 8")
    case False
    then have "n div 8 = Suc ((n - 8) div 8)" "n mod 8 = (n - 8) mod 8" by (simp_all add: le_div_geq le_mod_geq)
    moreover have "\<not> bit b n" using False bit_imp_le_length [of b n] by auto
    ultimately show ?thesis using False unfolding step Cons.IH by auto
  qed (use step in simp)
qed (simp add: from_le_bytes_def)

lemma length_to_le_bytes [simp]: "length (to_le_bytes w) = LENGTH('a) div 8" for w :: "'a::len word"
  by (simp add: to_le_bytes_def)

lemma length_to_be_bytes [simp]: "length (to_be_bytes w) = LENGTH('a) div 8" for w :: "'a::len word"
  by (simp add: to_be_bytes_def)

lemma from_to_le_bytes: "8 dvd LENGTH('a) \<Longrightarrow> from_le_bytes (to_le_bytes w) = w" for w :: "'a::len word"
proof (rule bit_word_eqI)
  fix n assume "8 dvd LENGTH('a)" "n < LENGTH('a)"
  then have "n div 8 < LENGTH('a) div 8" by (auto elim!: dvdE simp: less_mult_imp_div_less mult.commute)
  moreover have "8 * (n div 8) + n mod 8 = n" by simp
  ultimately show "bit (from_le_bytes (to_le_bytes w) :: 'a word) n = bit w n"
    using \<open>n < LENGTH('a)\<close>
    by (simp add: bit_from_le_bytes to_le_bytes_def bit_unsigned_iff bit_drop_bit_eq)
qed

lemma from_to_be_bytes: "8 dvd LENGTH('a) \<Longrightarrow> from_be_bytes (to_be_bytes w) = w" for w :: "'a::len word"
  by (simp add: from_be_bytes_def to_be_bytes_def from_to_le_bytes)

lemma chunk_at_Some: "chunk_at data at n = Some c \<longleftrightarrow> at + n \<le> length data \<and> c = take n (drop at data)"
  by (auto simp: chunk_at_def)

lemma chunk_at_None: "chunk_at data at n = None \<longleftrightarrow> length data < at + n"
  by (auto simp: chunk_at_def)

lemma put_chunk_Some:
  "put_chunk data at c = Some d \<longleftrightarrow> at + length c \<le> length data \<and> d = take at data @ c @ drop (at + length c) data"
  by (auto simp: put_chunk_def)

lemma put_chunk_None: "put_chunk data at c = None \<longleftrightarrow> length data < at + length c"
  by (auto simp: put_chunk_def)

lemma put_chunk_length: "put_chunk data at c = Some d \<Longrightarrow> length d = length data"
  by (auto simp: put_chunk_Some)

lemma chunk_at_put [simp]: "put_chunk data at c = Some d \<Longrightarrow> chunk_at d at (length c) = Some c"
  by (auto simp: put_chunk_Some chunk_at_def)

lemma put_chunk_other:
  "put_chunk data at c = Some d \<Longrightarrow> i < at \<or> at + length c \<le> i \<Longrightarrow> i < length data \<Longrightarrow> d ! i = data ! i"
  by (auto simp: put_chunk_Some nth_append)

section \<open>The shared helpers\<close>

lemma fits_signed_iff: "0 < bits \<Longrightarrow> bits < 64 \<Longrightarrow> fits_signed v bits \<longleftrightarrow> in_signed (sint v) bits"
  by (auto simp: fits_signed_def checked_shl_def in_signed_def sint_pow2_i64 simp del: push_bit_of_1)

lemma fits_unsigned_iff: "bits < 63 \<Longrightarrow> fits_unsigned v bits \<longleftrightarrow> in_unsigned (sint v) bits"
  by (auto simp: fits_unsigned_def checked_shl_def in_unsigned_def sint_pow2_i64 simp del: push_bit_of_1)

lemma bit_insert_field:
  assumes "bits < 32" "lsb < 32"
  shows "bit (insert_field insn v lsb bits) n \<longleftrightarrow> n < 32 \<and> (if lsb \<le> n \<and> n < lsb + bits then bit v (n - lsb) else bit insn n)"
proof -
  have "insert_field insn v lsb bits =
      (insn AND NOT (push_bit lsb (push_bit bits 1 - 1))) OR push_bit lsb (v AND (push_bit bits 1 - 1))"
    using assms by (simp add: insert_field_def checked_shl_def Let_def del: push_bit_of_1)
  then show ?thesis
    by (auto simp: bit_or_iff bit_and_iff bit_not_iff bit_push_bit_iff dest: bit_imp_le_length simp del: push_bit_of_1
        simp flip: One_nat_def)
qed

lemma bit_sar: "bit (ucast (signed_drop_bit m v) :: u32) n \<longleftrightarrow> n < 32 \<and> bit v (if m + n < 64 then m + n else 63)" for v :: i64
  by (auto simp: bit_unsigned_iff bit_signed_drop_bit_iff)

lemma read_write_insn: "write_insn data at insn = Some data' \<Longrightarrow> read_insn data' at = Some insn"
  using chunk_at_put [of data at "to_le_bytes insn" data'] by (simp add: write_insn_def read_insn_def from_to_le_bytes)

section \<open>ULEB128 digits\<close>

lemma more_bit: "b AND 0x80 \<noteq> 0 \<longleftrightarrow> bit b 7" for b :: u8
proof
  assume "bit b 7"
  then have "bit (b AND 0x80) 7" by (simp add: bit_and_iff)
  then show "b AND 0x80 \<noteq> 0" by auto
next
  assume "b AND 0x80 \<noteq> 0"
  then obtain n where n: "bit (b AND 0x80) n" by (metis bit_eq_iff bit_0_eq bot_apply bot_bool_def)
  then have "n < 8" using bit_imp_le_length by force
  with n show "bit b 7" by (auto simp: bit_and_iff less_Suc_eq numeral_eq_Suc)
qed

lemma uleb_low:
  "ucast ((ucast (v AND 0x7f) OR 0x80 :: u8) AND 0x7f) = (v AND 0x7f :: u64)"
  "ucast ((ucast (v AND 0x7f) :: u8) AND 0x7f) = (v AND 0x7f :: u64)"
  "bit (ucast (v AND 0x7f) OR 0x80 :: u8) 7" "\<not> bit (ucast (v AND 0x7f :: u64) :: u8) 7"
  by ((rule word_eq_upto)?, simp add: upt_conv_Cons bit_blast)+

lemma and_0x7f: "v AND 0x7f = take_bit 7 v" for v :: u64
  by (simp add: take_bit_eq_mask mask_eq_exp_minus_1)

lemma uleb_digit:
  "push_bit s (v AND 0x7f) OR push_bit (s + 7) (take_bit (7 * k) (drop_bit 7 v)) = push_bit s (take_bit (7 * Suc k) v)"
  for v :: u64
proof (rule bit_word_eqI)
  fix n
  have "s + 7 \<le> n \<Longrightarrow> 7 + (n - (s + 7)) = n - s" by simp
  then show "bit (push_bit s (v AND 0x7f) OR push_bit (s + 7) (take_bit (7 * k) (drop_bit 7 v))) n =
      bit (push_bit s (take_bit (7 * Suc k) v)) n"
    unfolding and_0x7f by (cases "s + 7 \<le> n") (auto simp: bit_blast)
qed

end
