(* ===== verification/Riscv.thy ===== *)
theory Riscv
  imports MachineCode
begin

text \<open>
  RISC-V instruction fields (src/src/arch/riscv.rs): packing a relocation's value into data or an
  instruction, as a function of the bytes at the relocated place. An operation that writes returns the
  bytes after it beside its result, since a ULEB128 number is rewritten before its overflow is known.
\<close>

section \<open>Encodings\<close>

definition X0 :: u32 where
  "X0 = 0"

definition GP :: u32 where
  "GP = 3"

definition DTP_OFFSET :: u64 where
  "DTP_OFFSET = 0x800"

definition rv_hi20 :: "u64 \<Rightarrow> u32" where
  "rv_hi20 value = ucast (drop_bit 12 (value + 0x800)) AND 0xfffff"

definition rv_lo12 :: "u64 \<Rightarrow> u32" where
  "rv_lo12 value = ucast value AND 0xfff"

definition rv_fits_signed :: "i64 \<Rightarrow> nat \<Rightarrow> bool" where
  "rv_fits_signed value bits =
     (if 64 \<le> bits then True
      else case checked_shl (1 :: i64) (bits - 1) of None \<Rightarrow> True
           | Some limit \<Rightarrow> sint (- limit) \<le> sint value \<and> sint value < sint limit)"

definition itype :: "u32 \<Rightarrow> u32 \<Rightarrow> u32 \<Rightarrow> u32 \<Rightarrow> u32" where
  "itype op rd rs1 imm = op OR push_bit 7 (rd AND 31) OR push_bit 15 (rs1 AND 31) OR push_bit 20 (imm AND 0xfff)"

definition rtype :: "u32 \<Rightarrow> u32 \<Rightarrow> u32 \<Rightarrow> u32 \<Rightarrow> u32" where
  "rtype op rd rs1 rs2 = op OR push_bit 7 (rd AND 31) OR push_bit 15 (rs1 AND 31) OR push_bit 20 (rs2 AND 31)"

definition utype :: "u32 \<Rightarrow> u32 \<Rightarrow> u32 \<Rightarrow> u32" where
  "utype op rd imm = op OR push_bit 7 (rd AND 31) OR push_bit 12 (imm AND 0xfffff)"

definition rv_rd :: "u32 \<Rightarrow> u32" where
  "rv_rd insn = drop_bit 7 insn AND 31"

definition with_rs1 :: "u32 \<Rightarrow> u32 \<Rightarrow> u32" where
  "with_rs1 insn rs1 = (insn AND NOT (push_bit 15 31)) OR push_bit 15 (rs1 AND 31)"

definition set_lo12_i :: "u32 \<Rightarrow> u32 \<Rightarrow> u32" where
  "set_lo12_i insn imm = (insn AND 0xfffff) OR push_bit 20 (imm AND 0xfff)"

definition set_lo12_s :: "u32 \<Rightarrow> u32 \<Rightarrow> u32" where
  "set_lo12_s insn imm = (insn AND 0x01fff07f) OR push_bit 25 (drop_bit 5 imm AND 0x7f) OR push_bit 7 (imm AND 0x1f)"

definition rv_bits :: "u64 \<Rightarrow> nat \<Rightarrow> nat \<Rightarrow> u32" where
  "rv_bits value high low = ucast (drop_bit low value AND (push_bit (high - low + 1) 1 - 1))"

definition read32 :: "u8 list \<Rightarrow> usize \<Rightarrow> u32 option" where
  "read32 data at = map_option from_le_bytes (chunk_at data at 4)"

definition write32 :: "u8 list \<Rightarrow> usize \<Rightarrow> u32 \<Rightarrow> u8 list option" where
  "write32 data at value = put_chunk data at (to_le_bytes value)"

definition read16 :: "u8 list \<Rightarrow> usize \<Rightarrow> u16 option" where
  "read16 data at = map_option from_le_bytes (chunk_at data at 2)"

definition write16 :: "u8 list \<Rightarrow> usize \<Rightarrow> u16 \<Rightarrow> u8 list option" where
  "write16 data at value = put_chunk data at (to_le_bytes value)"

datatype field_error = Overflow | OutOfBounds

datatype rv_field = Word32 | Word32Signed | Word64 | Hi20 | Lo12I | Lo12S | X0RelI | X0RelS | GpRelI | GpRelS
  | Branch | Jal | RvcBranch | RvcJump | Call | Sub6 | Set6 | Set8 | Set16 | Set32 | SetUleb128 | SubUleb128
  | Dtprel32 | Dtprel64

section \<open>ULEB128 numbers\<close>

fun overwrite_uleb128 :: "u8 list \<Rightarrow> u64 \<Rightarrow> u8 list \<times> (bool, field_error) result" where
  "overwrite_uleb128 [] rest = ([], Err OutOfBounds)"
| "overwrite_uleb128 (byte # data) rest =
     (let more = byte AND 0x80 \<noteq> 0; low = ucast (rest AND 0x7f); rest = drop_bit 7 rest
      in if \<not> more then (low # data, Ok (rest = 0))
         else case overwrite_uleb128 data rest of (data, r) \<Rightarrow> ((low OR 0x80) # data, r))"

text \<open>The loop of \<open>read_uleb128\<close>, with its value and its saturating shift.\<close>

fun read_uleb128_from :: "u64 \<Rightarrow> nat \<Rightarrow> u8 list \<Rightarrow> (u64, field_error) result" where
  "read_uleb128_from value shift [] = Err OutOfBounds"
| "read_uleb128_from value shift (byte # data) =
     (let value = (if shift < 64 then value OR (case checked_shl (ucast (byte AND 0x7f)) shift of None \<Rightarrow> 0 | Some v \<Rightarrow> v)
                   else value)
      in if byte AND 0x80 = 0 then Ok value else read_uleb128_from value (min (shift + 7) u32_max) data)"

definition rv_read_uleb128 :: "u8 list \<Rightarrow> (u64, field_error) result" where
  "rv_read_uleb128 data = read_uleb128_from 0 0 data"

definition rv_write_uleb128 :: "u8 list \<Rightarrow> u64 \<Rightarrow> u8 list \<times> (unit, field_error) result" where
  "rv_write_uleb128 data value =
     (case overwrite_uleb128 data value of
        (data, Err e) \<Rightarrow> (data, Err e)
      | (data, Ok fit) \<Rightarrow> (data, if fit then Ok () else Err Overflow))"

section \<open>Writing a field\<close>

definition rv_bytes :: "rv_field \<Rightarrow> usize" where
  "rv_bytes f =
     (if f \<in> {Sub6, Set6, Set8} then 1
      else if f \<in> {RvcBranch, RvcJump, Set16} then 2
      else if f \<in> {Word64, Dtprel64, Call, SetUleb128, SubUleb128} then 8
      else 4)"

definition rv_is_data :: "rv_field \<Rightarrow> bool" where
  "rv_is_data f \<longleftrightarrow> f \<in> {Word32, Word64}"

definition is_label_math :: "rv_field \<Rightarrow> bool" where
  "is_label_math f \<longleftrightarrow> f \<in> {Sub6, Set6, Set8, Set16, Set32, SetUleb128, SubUleb128}"

definition wrap32_hi :: "u64 \<Rightarrow> u64" where
  "wrap32_hi value = scast (ucast (value + 0x800) :: u32) - 0x800"

definition check_hi :: "u64 \<Rightarrow> (unit, field_error) result" where
  "check_hi value = (if rv_fits_signed (signed_drop_bit 12 (value + 0x800)) 20 then Ok () else Err Overflow)"

text \<open>The closures of \<open>apply\<close>; \<open>ensure\<close> is the \<open>?\<close> after a check.\<close>

definition ensure :: "(unit, field_error) result \<Rightarrow> u8 list \<Rightarrow> u8 list \<times> (unit, field_error) result \<Rightarrow>
    u8 list \<times> (unit, field_error) result" where
  "ensure r data k = (case r of Err e \<Rightarrow> (data, Err e) | Ok _ \<Rightarrow> k)"

definition rv_check :: "u64 \<Rightarrow> nat \<Rightarrow> (unit, field_error) result" where
  "rv_check value bits = (if rv_fits_signed value bits then Ok () else Err Overflow)"

definition rv_aligned :: "u64 \<Rightarrow> (unit, field_error) result" where
  "rv_aligned value = (if value AND 1 = 0 then Ok () else Err Overflow)"

definition put_bytes :: "u8 list \<Rightarrow> usize \<Rightarrow> u8 list \<Rightarrow> u8 list \<times> (unit, field_error) result" where
  "put_bytes data at bytes =
     (case put_chunk data at bytes of None \<Rightarrow> (data, Err OutOfBounds) | Some data \<Rightarrow> (data, Ok ()))"

definition put32 :: "u8 list \<Rightarrow> u32 \<Rightarrow> u8 list \<times> (unit, field_error) result" where
  "put32 data v = (case write32 data 0 v of None \<Rightarrow> (data, Err OutOfBounds) | Some data \<Rightarrow> (data, Ok ()))"

definition put16 :: "u8 list \<Rightarrow> u16 \<Rightarrow> u8 list \<times> (unit, field_error) result" where
  "put16 data v = (case write16 data 0 v of None \<Rightarrow> (data, Err OutOfBounds) | Some data \<Rightarrow> (data, Ok ()))"

definition put8 :: "u8 list \<Rightarrow> u8 \<Rightarrow> u8 list \<times> (unit, field_error) result" where
  "put8 data v = (case data of [] \<Rightarrow> (data, Err OutOfBounds) | _ # rest \<Rightarrow> (v # rest, Ok ()))"

definition put64 :: "u8 list \<Rightarrow> u64 \<Rightarrow> u8 list \<times> (unit, field_error) result" where
  "put64 data v = put_bytes data 0 (to_le_bytes v)"

definition get32 :: "u8 list \<Rightarrow> (u32 \<Rightarrow> u8 list \<times> (unit, field_error) result) \<Rightarrow> u8 list \<times> (unit, field_error) result" where
  "get32 data k = (case read32 data 0 of None \<Rightarrow> (data, Err OutOfBounds) | Some insn \<Rightarrow> k insn)"

definition get16 :: "u8 list \<Rightarrow> (u16 \<Rightarrow> u8 list \<times> (unit, field_error) result) \<Rightarrow> u8 list \<times> (unit, field_error) result" where
  "get16 data k = (case read16 data 0 of None \<Rightarrow> (data, Err OutOfBounds) | Some insn \<Rightarrow> k insn)"

definition get8 :: "u8 list \<Rightarrow> (u8 \<Rightarrow> u8 list \<times> (unit, field_error) result) \<Rightarrow> u8 list \<times> (unit, field_error) result" where
  "get8 data k = (case data of [] \<Rightarrow> (data, Err OutOfBounds) | old # _ \<Rightarrow> k old)"

text \<open>The instruction each field writes over the instruction it finds.\<close>

definition enc_hi20 :: "u32 \<Rightarrow> u64 \<Rightarrow> u32" where
  "enc_hi20 insn value = (insn AND 0xfff) OR push_bit 12 (rv_hi20 value)"

definition enc_branch :: "u32 \<Rightarrow> u64 \<Rightarrow> u32" where
  "enc_branch insn value =
     (insn AND 0x01fff07f) OR push_bit 31 (rv_bits value 12 12) OR push_bit 25 (rv_bits value 10 5)
       OR push_bit 8 (rv_bits value 4 1) OR push_bit 7 (rv_bits value 11 11)"

definition enc_jal :: "u32 \<Rightarrow> u64 \<Rightarrow> u32" where
  "enc_jal insn value =
     (insn AND 0xfff) OR push_bit 31 (rv_bits value 20 20) OR push_bit 21 (rv_bits value 10 1)
       OR push_bit 20 (rv_bits value 11 11) OR push_bit 12 (rv_bits value 19 12)"

definition enc_rvc_branch :: "u16 \<Rightarrow> u64 \<Rightarrow> u16" where
  "enc_rvc_branch insn value =
     ucast (ucast (insn AND 0xe383) OR push_bit 12 (rv_bits value 8 8) OR push_bit 10 (rv_bits value 4 3)
       OR push_bit 5 (rv_bits value 7 6) OR push_bit 3 (rv_bits value 2 1) OR push_bit 2 (rv_bits value 5 5))"

definition enc_rvc_jump :: "u16 \<Rightarrow> u64 \<Rightarrow> u16" where
  "enc_rvc_jump insn value =
     ucast (ucast (insn AND 0xe003) OR push_bit 12 (rv_bits value 11 11) OR push_bit 11 (rv_bits value 4 4)
       OR push_bit 9 (rv_bits value 9 8) OR push_bit 8 (rv_bits value 10 10) OR push_bit 7 (rv_bits value 6 6)
       OR push_bit 6 (rv_bits value 7 7) OR push_bit 3 (rv_bits value 3 1) OR push_bit 2 (rv_bits value 5 5))"

definition enc_based :: "rv_field \<Rightarrow> u32 \<Rightarrow> u64 \<Rightarrow> u32" where
  "enc_based f insn value =
     (let insn = with_rs1 insn (if f \<in> {X0RelI, X0RelS} then X0 else GP)
      in if f \<in> {X0RelI, GpRelI} then set_lo12_i insn (ucast value) else set_lo12_s insn (ucast value))"

text \<open>The arm of \<open>Call\<close>: both words are read before the first is written.\<close>

definition apply_call :: "u8 list \<Rightarrow> u64 \<Rightarrow> u8 list \<times> (unit, field_error) result" where
  "apply_call data value =
     get32 data (\<lambda>auipc.
       case read32 data 4 of None \<Rightarrow> (data, Err OutOfBounds)
       | Some jalr \<Rightarrow>
           (case put32 data (enc_hi20 auipc value) of
              (data, Err e) \<Rightarrow> (data, Err e)
            | (data, Ok _) \<Rightarrow>
                (case write32 data 4 (set_lo12_i jalr (rv_lo12 value)) of
                   None \<Rightarrow> (data, Err OutOfBounds) | Some data \<Rightarrow> (data, Ok ()))))"

definition rv_apply :: "rv_field \<Rightarrow> u8 list \<Rightarrow> u64 \<Rightarrow> u8 list \<times> (unit, field_error) result" where
  "rv_apply f data value =
     (case f of
        Word32 \<Rightarrow> put32 data (ucast value)
      | Word32Signed \<Rightarrow> ensure (rv_check value 32) data (put32 data (ucast value))
      | Set32 \<Rightarrow> ensure (rv_check value 32) data (put32 data (ucast value))
      | Word64 \<Rightarrow> put64 data value
      | Hi20 \<Rightarrow> ensure (check_hi value) data (get32 data (\<lambda>insn. put32 data (enc_hi20 insn value)))
      | Lo12I \<Rightarrow> get32 data (\<lambda>insn. put32 data (set_lo12_i insn (rv_lo12 value)))
      | Lo12S \<Rightarrow> get32 data (\<lambda>insn. put32 data (set_lo12_s insn (rv_lo12 value)))
      | X0RelI \<Rightarrow> ensure (rv_check value 12) data (get32 data (\<lambda>insn. put32 data (enc_based f insn value)))
      | X0RelS \<Rightarrow> ensure (rv_check value 12) data (get32 data (\<lambda>insn. put32 data (enc_based f insn value)))
      | GpRelI \<Rightarrow> ensure (rv_check value 12) data (get32 data (\<lambda>insn. put32 data (enc_based f insn value)))
      | GpRelS \<Rightarrow> ensure (rv_check value 12) data (get32 data (\<lambda>insn. put32 data (enc_based f insn value)))
      | Branch \<Rightarrow> ensure (rv_check value 13) data (ensure (rv_aligned value) data
          (get32 data (\<lambda>insn. put32 data (enc_branch insn value))))
      | Jal \<Rightarrow> ensure (rv_check value 21) data (ensure (rv_aligned value) data
          (get32 data (\<lambda>insn. put32 data (enc_jal insn value))))
      | RvcBranch \<Rightarrow> ensure (rv_check value 9) data (ensure (rv_aligned value) data
          (get16 data (\<lambda>insn. put16 data (enc_rvc_branch insn value))))
      | RvcJump \<Rightarrow> ensure (rv_check value 12) data (ensure (rv_aligned value) data
          (get16 data (\<lambda>insn. put16 data (enc_rvc_jump insn value))))
      | Call \<Rightarrow> ensure (check_hi value) data (apply_call data value)
      | Sub6 \<Rightarrow> get8 data (\<lambda>old. put8 data ((old AND 0xc0) OR (((old AND 0x3f) - ucast value) AND 0x3f)))
      | Set6 \<Rightarrow> get8 data (\<lambda>old. put8 data ((old AND 0xc0) OR (ucast value AND 0x3f)))
      | Set8 \<Rightarrow> put8 data (ucast value)
      | Set16 \<Rightarrow> put16 data (ucast value)
      | SetUleb128 \<Rightarrow> rv_write_uleb128 data value
      | SubUleb128 \<Rightarrow>
          (case rv_read_uleb128 data of Err e \<Rightarrow> (data, Err e) | Ok old \<Rightarrow> rv_write_uleb128 data (old - value))
      | Dtprel32 \<Rightarrow> put32 data (ucast (value - DTP_OFFSET))
      | Dtprel64 \<Rightarrow> put64 data (value - DTP_OFFSET))"

end
