(* ===== verification/RiscvCorrect.thy ===== *)
theory RiscvCorrect
  imports Riscv
begin

text \<open>
  The RISC-V fields against the instruction formats of the instruction set manual: what is written
  decodes to the value, a high and a low part add up to it, and ULEB128 numbers keep their length.
\<close>

section \<open>Formats\<close>

definition i_layout :: layout where
  "i_layout = [(20, 0, 12)]"

definition s_layout :: layout where
  "s_layout = [(25, 5, 7), (7, 0, 5)]"

definition u_layout :: layout where
  "u_layout = [(12, 12, 20)]"

definition b_layout :: layout where
  "b_layout = [(31, 12, 1), (25, 5, 6), (8, 1, 4), (7, 11, 1)]"

definition j_layout :: layout where
  "j_layout = [(31, 20, 1), (21, 1, 10), (20, 11, 1), (12, 12, 8)]"

definition cb_layout :: layout where
  "cb_layout = [(12, 8, 1), (10, 3, 2), (5, 6, 2), (3, 1, 2), (2, 5, 1)]"

definition cj_layout :: layout where
  "cj_layout = [(12, 11, 1), (11, 4, 1), (9, 8, 2), (8, 10, 1), (7, 6, 1), (6, 7, 1), (3, 1, 3), (2, 5, 1)]"

definition rs1_layout :: layout where
  "rs1_layout = [(15, 0, 5)]"

lemmas rv_layouts = i_layout_def s_layout_def u_layout_def b_layout_def j_layout_def cb_layout_def cj_layout_def
  rs1_layout_def

lemma bit_rv_bits [simp]: "bit (rv_bits v h l) n \<longleftrightarrow> n < h - l + 1 \<and> n < 32 \<and> bit v (l + n)"
proof -
  have "bit (rv_bits v h l) n \<longleftrightarrow> n < 32 \<and> bit v (l + n) \<and> bit (push_bit (h - l + 1) 1 - 1 :: u64) n"
    by (auto simp: rv_bits_def bit_unsigned_iff bit_and_iff bit_drop_bit_eq)
  then show ?thesis unfolding bit_low_mask by auto
qed

interpretation i_field: insn_field i_layout "\<lambda>insn v. set_lo12_i insn (ucast v)"
proof
  fix insn v show "set_lo12_i insn (ucast v) = scatter i_layout insn v"
    by (rule word_eq_upto) (simp add: upt_conv_Cons set_lo12_i_def i_layout_def bit_scatter bit_blast)
qed (simp_all add: i_layout_def layout_ok_def layout_pairs_def upt_conv_Cons)

interpretation s_field: insn_field s_layout "\<lambda>insn v. set_lo12_s insn (ucast v)"
proof
  fix insn v show "set_lo12_s insn (ucast v) = scatter s_layout insn v"
    by (rule word_eq_upto) (simp add: upt_conv_Cons set_lo12_s_def s_layout_def bit_scatter bit_blast)
qed (simp_all add: s_layout_def layout_ok_def layout_pairs_def upt_conv_Cons)

interpretation u_field: insn_field u_layout "\<lambda>insn v. enc_hi20 insn (v - 0x800)"
proof
  fix insn v show "enc_hi20 insn (v - 0x800) = scatter u_layout insn v"
    by (rule word_eq_upto) (simp add: upt_conv_Cons enc_hi20_def rv_hi20_def u_layout_def bit_scatter bit_blast)
qed (simp_all add: u_layout_def layout_ok_def layout_pairs_def upt_conv_Cons)

interpretation b_field: insn_field b_layout enc_branch
proof
  fix insn v show "enc_branch insn v = scatter b_layout insn v"
    by (rule word_eq_upto) (simp add: upt_conv_Cons enc_branch_def b_layout_def bit_scatter bit_blast)
qed (simp_all add: b_layout_def layout_ok_def layout_pairs_def upt_conv_Cons)

interpretation j_field: insn_field j_layout enc_jal
proof
  fix insn v show "enc_jal insn v = scatter j_layout insn v"
    by (rule word_eq_upto) (simp add: upt_conv_Cons enc_jal_def j_layout_def bit_scatter bit_blast)
qed (simp_all add: j_layout_def layout_ok_def layout_pairs_def upt_conv_Cons)

interpretation cb_field: insn_field cb_layout enc_rvc_branch
proof
  fix insn v show "enc_rvc_branch insn v = scatter cb_layout insn v"
    by (rule word_eq_upto) (simp add: upt_conv_Cons enc_rvc_branch_def cb_layout_def bit_scatter bit_blast)
qed (simp_all add: cb_layout_def layout_ok_def layout_pairs_def upt_conv_Cons)

interpretation cj_field: insn_field cj_layout enc_rvc_jump
proof
  fix insn v show "enc_rvc_jump insn v = scatter cj_layout insn v"
    by (rule word_eq_upto) (simp add: upt_conv_Cons enc_rvc_jump_def cj_layout_def bit_scatter bit_blast)
qed (simp_all add: cj_layout_def layout_ok_def layout_pairs_def upt_conv_Cons)

interpretation rs1_field: insn_field rs1_layout "\<lambda>insn v. with_rs1 insn (ucast v)"
proof
  fix insn v show "with_rs1 insn (ucast v) = scatter rs1_layout insn v"
    by (rule word_eq_upto) (simp add: upt_conv_Cons with_rs1_def rs1_layout_def bit_scatter bit_blast)
qed (simp_all add: rs1_layout_def layout_ok_def layout_pairs_def upt_conv_Cons)

lemma rv_fits_signed_iff: "0 < bits \<Longrightarrow> bits < 64 \<Longrightarrow> rv_fits_signed v bits \<longleftrightarrow> in_signed (sint v) bits"
  by (auto simp: rv_fits_signed_def checked_shl_def in_signed_def sint_pow2_i64 simp del: push_bit_of_1)

section \<open>Fields that hold the whole value\<close>

text \<open>The format of a field that holds its whole value: its layout, its width and whether the value is even.\<close>

fun rv_shape :: "rv_field \<Rightarrow> (layout \<times> nat \<times> bool) option" where
  "rv_shape X0RelI = Some (i_layout, 12, False)"
| "rv_shape X0RelS = Some (s_layout, 12, False)"
| "rv_shape GpRelI = Some (i_layout, 12, False)"
| "rv_shape GpRelS = Some (s_layout, 12, False)"
| "rv_shape Branch = Some (b_layout, 13, True)"
| "rv_shape Jal = Some (j_layout, 21, True)"
| "rv_shape RvcBranch = Some (cb_layout, 9, True)"
| "rv_shape RvcJump = Some (cj_layout, 12, True)"
| "rv_shape f = None"

text \<open>The base register a field sets.\<close>

fun rv_base :: "rv_field \<Rightarrow> u32 option" where
  "rv_base X0RelI = Some 0"
| "rv_base X0RelS = Some 0"
| "rv_base GpRelI = Some 3"
| "rv_base GpRelS = Some 3"
| "rv_base f = None"

text \<open>The instruction of a field, as a word of 32 bits.\<close>

definition insn_of :: "nat \<Rightarrow> u8 list \<Rightarrow> u32" where
  "insn_of n data = from_le_bytes (take n data)"

definition rv_enc :: "rv_field \<Rightarrow> u32 \<Rightarrow> u64 \<Rightarrow> u32" where
  "rv_enc f insn v =
     (case f of Branch \<Rightarrow> enc_branch insn v | Jal \<Rightarrow> enc_jal insn v
      | RvcBranch \<Rightarrow> ucast (enc_rvc_branch (ucast insn) v) | RvcJump \<Rightarrow> ucast (enc_rvc_jump (ucast insn) v)
      | _ \<Rightarrow> enc_based f insn v)"

lemma even_sint: "even (sint v) \<longleftrightarrow> \<not> bit v 0" for v :: u64
  using bit_sint_iff [of v 0] by (simp add: bit_0)

lemma rv_aligned_iff: "rv_aligned value = (if even (sint value) then Ok () else Err Overflow)"
  by (simp add: rv_aligned_def even_sint and_one_eq odd_iff_mod_2_eq_one bit_0)

text \<open>Every arm of \<open>apply\<close> for such a field, in one form.\<close>

lemma insn_of_16: "2 \<le> length data \<Longrightarrow> ucast (from_le_bytes (take 2 data) :: u16) = insn_of 2 data"
  by (rule bit_word_eqI) (auto simp: insn_of_def bit_unsigned_iff bit_from_le_bytes)

lemma ucast_insn_of_16: "ucast (insn_of 2 data) = (from_le_bytes (take 2 data) :: u16)"
  by (rule bit_word_eqI) (auto simp: insn_of_def bit_unsigned_iff bit_from_le_bytes)

lemma put_insn:
  "4 \<le> length data \<Longrightarrow> get32 data (\<lambda>insn. put32 data (f insn)) = (to_le_bytes (f (insn_of 4 data)) @ drop 4 data, Ok ())"
  by (simp add: get32_def read32_def put32_def write32_def chunk_at_def put_chunk_def insn_of_def)

lemma put_insn_16:
  "2 \<le> length data \<Longrightarrow> get16 data (\<lambda>insn. put16 data (f insn)) =
     (to_le_bytes (f (ucast (insn_of 2 data))) @ drop 2 data, Ok ())"
  by (simp add: get16_def read16_def put16_def write16_def chunk_at_def put_chunk_def ucast_insn_of_16)
    (simp add: numeral_2_eq_2)

lemma put_insn_short:
  "length data < 4 \<Longrightarrow> get32 data k = (data, Err OutOfBounds)" "length data < 2 \<Longrightarrow> get16 data k' = (data, Err OutOfBounds)"
  by (simp_all add: get32_def read32_def get16_def read16_def chunk_at_def)

lemma insn_of_put: "insn_of 4 (to_le_bytes w @ data) = w"
  by (simp add: insn_of_def from_to_le_bytes)

lemma insn_of_put_16: "insn_of 2 (to_le_bytes w @ data) = ucast w" for w :: u16
proof -
  have "ucast (from_le_bytes (take 2 (to_le_bytes w @ data)) :: u16) = insn_of 2 (to_le_bytes w @ data)"
    by (rule insn_of_16) simp
  then show ?thesis by (simp add: from_to_le_bytes)
qed

lemma rv_apply_shape:
  assumes "rv_shape f = Some (fs, w, ev)"
  shows "\<not> (in_signed (sint v) w \<and> (ev \<longrightarrow> even (sint v))) \<Longrightarrow> rv_apply f data v = (data, Err Overflow)"
    and "in_signed (sint v) w \<Longrightarrow> ev \<longrightarrow> even (sint v) \<Longrightarrow> length data < rv_bytes f \<Longrightarrow> rv_apply f data v = (data, Err OutOfBounds)"
    and "in_signed (sint v) w \<Longrightarrow> ev \<longrightarrow> even (sint v) \<Longrightarrow> rv_bytes f \<le> length data \<Longrightarrow>
      \<exists>bytes. rv_apply f data v = (bytes @ drop (rv_bytes f) data, Ok ()) \<and> length bytes = rv_bytes f \<and>
        insn_of (rv_bytes f) (bytes @ drop (rv_bytes f) data) = rv_enc f (insn_of (rv_bytes f) data) v"
  using assms
  by (cases f; force simp: rv_apply_def rv_check_def rv_fits_signed_iff rv_aligned_iff ensure_def put_insn put_insn_16
      put_insn_short rv_bytes_def rv_enc_def insn_of_put insn_of_put_16)+

lemma low_aligned: "target_bit fs 0 = None \<longrightarrow> ev \<Longrightarrow> \<forall>k\<in>set [1..<w]. target_bit fs k \<noteq> None \<Longrightarrow> ev \<longrightarrow> even (sint v) \<Longrightarrow>
  \<forall>k\<in>set [0..<w]. target_bit fs k = None \<longrightarrow> \<not> bit v k" for v :: u64
  by (metis One_nat_def atLeastLessThan_iff even_sint less_one not_less set_upt)

lemma scatter_ucast:
  fixes insn :: u32
  assumes "\<forall>(n, k)\<in>set (layout_pairs fs). n < 16" "take_bit 16 insn = insn"
  shows "ucast (scatter fs (ucast insn :: u16) v) = scatter fs insn v"
proof (rule bit_word_eqI)
  fix n assume "n < LENGTH(32)"
  moreover have "source_bit fs n = Some k \<Longrightarrow> n < 16" for k
    using assms(1) by (fastforce simp: source_bit_def dest!: map_of_SomeD)
  moreover have "bit insn n \<Longrightarrow> n < 16" using assms(2) by (metis bit_take_bit_iff)
  ultimately show "bit (ucast (scatter fs (ucast insn :: u16) v) :: u32) n = bit (scatter fs insn v) n"
    by (auto simp: bit_unsigned_iff bit_scatter split: option.split)
qed

lemma rv_enc_scatter:
  assumes "rv_shape f = Some (fs, w, ev)" "rv_bytes f = 2 \<longrightarrow> take_bit 16 insn = insn"
  shows "rv_enc f insn v = scatter fs (case rv_base f of None \<Rightarrow> insn | Some b \<Rightarrow> with_rs1 insn b) v"
  using assms
  by (cases f; force simp: rv_enc_def enc_based_def b_field.enc_scatter j_field.enc_scatter i_field.enc_scatter
      s_field.enc_scatter cb_field.enc_scatter cj_field.enc_scatter scatter_ucast [OF cb_field.fs_range [simplified]]
      scatter_ucast [OF cj_field.fs_range [simplified]] rv_bytes_def X0_def GP_def)

lemma rv_shape_layout:
  fixes v :: u64
  assumes "rv_shape f = Some (fs, w, ev)"
  shows "insn_field fs (scatter fs :: u32 \<Rightarrow> u64 \<Rightarrow> u32)" and "0 < w" and "w \<le> 64"
    and "ev \<longrightarrow> even (sint v) \<Longrightarrow> \<forall>k\<in>set [0..<w]. target_bit fs k = None \<longrightarrow> \<not> bit v k"
proof -
  show "insn_field fs (scatter fs :: u32 \<Rightarrow> u64 \<Rightarrow> u32)"
    using assms by (intro insn_field_scatter; cases f; force simp: rv_layouts layout_ok_def layout_pairs_def upt_conv_Cons)
  show "0 < w" "w \<le> 64" using assms by (cases f; force)+
  show "\<forall>k\<in>set [0..<w]. target_bit fs k = None \<longrightarrow> \<not> bit v k" if "ev \<longrightarrow> even (sint v)"
    using assms that by (intro low_aligned [where ev = ev]; cases f; force simp: rv_layouts upt_conv_Cons)
qed

lemma with_rs1_scatter: "with_rs1 insn b = scatter rs1_layout insn b"
  by (rule word_eq_upto) (simp add: upt_conv_Cons with_rs1_def rs1_layout_def bit_scatter bit_blast)

lemma rv_base_kept:
  assumes "rv_shape f = Some (fs, w, ev)" "rv_base f = Some b"
  shows "drop_bit 15 (scatter fs (with_rs1 insn b) v) AND 31 = b"
proof (rule word_eq_upto)
  show "\<forall>n\<in>set [0..<LENGTH(32)]. bit (drop_bit 15 (scatter fs (with_rs1 insn b) v) AND 31) n = bit b n"
    using assms by (cases f; force simp: upt_conv_Cons with_rs1_scatter bit_scatter rv_layouts bit_blast)
qed

text \<open>
  C31. Every RISC-V field that holds its whole value: a value out of range or odd is an overflow and leaves the
  bytes alone, a short section is reported, and otherwise the instruction written decodes, by the format of the
  instruction set manual, to exactly the value; the base register is the field's, and every other bit and every
  byte after the instruction is unchanged.
\<close>

theorem rv_apply_decodes:
  "rv_shape f = Some (fs, w, ev) \<Longrightarrow> rv_apply f data value = (data', r) \<Longrightarrow>
   (if \<not> (in_signed (sint value) w \<and> (ev \<longrightarrow> even (sint value))) then r = Err Overflow \<and> data' = data
    else if length data < rv_bytes f then r = Err OutOfBounds \<and> data' = data
    else r = Ok () \<and> length data' = length data \<and> drop (rv_bytes f) data' = drop (rv_bytes f) data \<and>
      decode_signed fs w (insn_of (rv_bytes f) data') = sint value \<and>
      (\<forall>n. source_bit fs n = None \<and> (rv_base f = None \<or> source_bit rs1_layout n = None) \<longrightarrow>
         bit (insn_of (rv_bytes f) data') n = bit (insn_of (rv_bytes f) data) n) \<and>
      (\<forall>b. rv_base f = Some b \<longrightarrow> drop_bit 15 (insn_of (rv_bytes f) data') AND 31 = b))"
proof -
  assume shape: "rv_shape f = Some (fs, w, ev)" and ap: "rv_apply f data value = (data', r)"
  let ?ok = "in_signed (sint value) w \<and> (ev \<longrightarrow> even (sint value))"
  let ?old = "insn_of (rv_bytes f) data" and ?new = "insn_of (rv_bytes f) data'"
  note field = rv_shape_layout(1) [OF shape]
  note cases = rv_apply_shape [OF shape, of "value" data]
  have written: "r = Ok () \<and> length data' = length data \<and> drop (rv_bytes f) data' = drop (rv_bytes f) data \<and>
      decode_signed fs w ?new = sint value \<and>
      (\<forall>n. source_bit fs n = None \<and> (rv_base f = None \<or> source_bit rs1_layout n = None) \<longrightarrow> bit ?new n = bit ?old n) \<and>
      (\<forall>b. rv_base f = Some b \<longrightarrow> drop_bit 15 ?new AND 31 = b)"
    if ok: ?ok and len: "rv_bytes f \<le> length data"
  proof -
    obtain bytes where b: "data' = bytes @ drop (rv_bytes f) data" "r = Ok ()" "length bytes = rv_bytes f"
      and new: "?new = rv_enc f ?old value"
      using cases(3) ok len ap by auto
    have "rv_bytes f = 2 \<longrightarrow> take_bit 16 ?old = ?old"
      by (auto intro!: bit_word_eqI simp: bit_take_bit_iff insn_of_def bit_from_le_bytes)
    from rv_enc_scatter [OF shape this] have sc: "?new = scatter fs (case rv_base f of None \<Rightarrow> ?old | Some b \<Rightarrow> with_rs1 ?old b) value"
      by (simp add: new)
    have dec: "decode_signed fs w ?new = sint value"
      unfolding sc using ok by (intro insn_field.decodes_signed [OF field] rv_shape_layout [OF shape]) auto
    have keep: "bit ?new n = bit ?old n"
      if "source_bit fs n = None \<and> (rv_base f = None \<or> source_bit rs1_layout n = None)" for n
      unfolding sc using that insn_field.keeps [OF field]
      by (auto simp: with_rs1_scatter bit_scatter split: option.split dest: bit_imp_le_length)
    have "drop_bit 15 ?new AND 31 = b" if "rv_base f = Some b" for b
      unfolding sc using that rv_base_kept [OF shape that] by simp
    with b dec keep len show ?thesis by auto
  qed
  show ?thesis using cases(1,2) written ap by auto
qed

theorem rv_apply_decodes_witness:
  "\<exists>data'. rv_apply Branch [0x63, 0, 0, 0, 7] (- 4096) = (data', Ok ()) \<and> decode_signed b_layout 13 (insn_of 4 data') = - 4096"
proof -
  obtain data' r where ap: "rv_apply Branch [0x63, 0, 0, 0, 7] (- 4096) = (data', r)" by fastforce
  have "sint (- 4096 :: u64) = - 4096" by simp
  with rv_apply_decodes [of Branch b_layout 13 True, OF _ ap] ap show ?thesis
    by (simp add: in_signed_def rv_bytes_def)
qed

section \<open>High and low parts\<close>

lemma sint_add_0x800:
  "- (2 ^ 31) \<le> sint (v + 0x800) \<and> sint (v + 0x800) < 2 ^ 31 \<longleftrightarrow> - (2 ^ 31) - 2 ^ 11 \<le> sint v \<and> sint v < 2 ^ 31 - 2 ^ 11"
  "- (2 ^ 31) - 2 ^ 11 \<le> sint v \<Longrightarrow> sint v < 2 ^ 31 - 2 ^ 11 \<Longrightarrow> sint (v + 0x800) = sint v + 0x800" for v :: u64
proof -
  have s: "sint (v + 0x800) = (sint v + 0x800 + 2 ^ 63) mod 2 ^ 64 - 2 ^ 63"
    using sint_add_i64 [of v "0x800"] by simp
  note b = sint_bounds_i64 [of v]
  show "- (2 ^ 31) \<le> sint (v + 0x800) \<and> sint (v + 0x800) < 2 ^ 31 \<longleftrightarrow> - (2 ^ 31) - 2 ^ 11 \<le> sint v \<and> sint v < 2 ^ 31 - 2 ^ 11"
    using b unfolding s by (cases "sint v + 0x800 < 2 ^ 63") (simp_all add: mod_pos_pos_trivial mod_wrap_once, auto)
  show "sint (v + 0x800) = sint v + 0x800" if "- (2 ^ 31) - 2 ^ 11 \<le> sint v" "sint v < 2 ^ 31 - 2 ^ 11"
    using that unfolding s by (simp add: mod_pos_pos_trivial)
qed

lemma check_hi_iff:
  "check_hi v = (if - (2 ^ 31) - 2 ^ 11 \<le> sint v \<and> sint v < 2 ^ 31 - 2 ^ 11 then Ok () else Err Overflow)"
proof -
  have "sint (signed_drop_bit 12 (v + 0x800)) = sint (v + 0x800) div 2 ^ 12"
    by (simp add: sint_signed_drop_bit_eq drop_bit_eq_div)
  then have "rv_fits_signed (signed_drop_bit 12 (v + 0x800)) 20 \<longleftrightarrow> - (2 ^ 31) \<le> sint (v + 0x800) \<and> sint (v + 0x800) < 2 ^ 31"
    by (auto simp: rv_fits_signed_iff in_signed_def)
  then show ?thesis unfolding check_hi_def sint_add_0x800(1) [symmetric] by simp
qed

lemma hi_decodes:
  assumes "- (2 ^ 31) \<le> sint (v + 0x800)" "sint (v + 0x800) < 2 ^ 31"
  shows "decode_signed u_layout 32 (enc_hi20 insn v) = sint (v + 0x800) - sint (v + 0x800) mod 2 ^ 12"
proof -
  let ?w = "v + 0x800" and ?m = "(v + 0x800) AND NOT (mask 12)"
  have "enc_hi20 insn v = enc_hi20 insn (?m - 0x800)"
    unfolding u_field.enc_scatter
    by (rule word_eq_upto) (simp add: upt_conv_Cons enc_hi20_def rv_hi20_def u_layout_def bit_scatter bit_blast bit_mask_iff)
  moreover have "\<forall>k\<in>set [0..<32]. target_bit u_layout k = None \<longrightarrow> \<not> bit ?m k"
    by (simp add: upt_conv_Cons u_layout_def bit_blast bit_mask_iff)
  moreover have m: "sint ?m = sint ?w - sint ?w mod 2 ^ 12" by (rule sint_clear_low) simp
  moreover have "in_signed (sint ?m) 32"
  proof -
    have "- (2 ^ 19) \<le> sint ?w div 2 ^ 12" "sint ?w div 2 ^ 12 < 2 ^ 19" using assms by simp_all
    then show ?thesis unfolding m minus_mod_eq_mult_div in_signed_def by simp
  qed
  ultimately show ?thesis using u_field.decodes_signed [of ?m 32 insn] by simp
qed

lemma lo_decodes:
  "decode_signed i_layout 12 (set_lo12_i insn (rv_lo12 v)) = sint (v + 0x800) mod 2 ^ 12 - 0x800"
  "decode_signed s_layout 12 (set_lo12_s insn (rv_lo12 v)) = sint (v + 0x800) mod 2 ^ 12 - 0x800"
proof -
  have i: "set_lo12_i insn (rv_lo12 v) = set_lo12_i insn (ucast v)"
    by (rule word_eq_upto) (simp add: upt_conv_Cons set_lo12_i_def rv_lo12_def bit_blast)
  have s: "set_lo12_s insn (rv_lo12 v) = set_lo12_s insn (ucast v)"
    by (rule word_eq_upto) (simp add: upt_conv_Cons set_lo12_s_def rv_lo12_def bit_blast)
  have "signed_take_bit 11 (sint v) = (sint v + 0x800) mod 2 ^ 12 - 0x800"
    by (simp add: signed_take_bit_eq_take_bit_shift take_bit_eq_mod)
  also have "(sint v + 0x800) mod 2 ^ 12 = sint (v + 0x800) mod 2 ^ 12"
    using sint_add_mod(1) [of 12 v "0x800"] by simp
  finally have low: "signed_take_bit 11 (sint v) = sint (v + 0x800) mod 2 ^ 12 - 0x800" .
  show "decode_signed i_layout 12 (set_lo12_i insn (rv_lo12 v)) = sint (v + 0x800) mod 2 ^ 12 - 0x800"
    unfolding i using i_field.decodes_low [of 12 v insn] low by (simp add: i_layout_def upt_conv_Cons)
  show "decode_signed s_layout 12 (set_lo12_s insn (rv_lo12 v)) = sint (v + 0x800) mod 2 ^ 12 - 0x800"
    unfolding s using s_field.decodes_low [of 12 v insn] low by (simp add: s_layout_def upt_conv_Cons)
qed

lemma rv_apply_hi:
  "rv_apply Hi20 data v = (data', Ok ()) \<longleftrightarrow>
     check_hi v = Ok () \<and> 4 \<le> length data \<and> data' = to_le_bytes (enc_hi20 (insn_of 4 data) v) @ drop 4 data"
  by (cases "4 \<le> length data") (auto simp: rv_apply_def ensure_def put_insn put_insn_short split: result.split)

lemma rv_apply_lo:
  "rv_apply Lo12I data v = (data', Ok ()) \<longleftrightarrow>
     4 \<le> length data \<and> data' = to_le_bytes (set_lo12_i (insn_of 4 data) (rv_lo12 v)) @ drop 4 data"
  "rv_apply Lo12S data v = (data', Ok ()) \<longleftrightarrow>
     4 \<le> length data \<and> data' = to_le_bytes (set_lo12_s (insn_of 4 data) (rv_lo12 v)) @ drop 4 data"
  by (cases "4 \<le> length data"; auto simp: rv_apply_def put_insn put_insn_short)+

lemma rv_apply_call:
  assumes "rv_apply Call data v = (data', Ok ())"
  shows "check_hi v = Ok ()" and "insn_of 4 data' = enc_hi20 (insn_of 4 data) v"
    and "insn_of 4 (drop 4 data') = set_lo12_i (insn_of 4 (drop 4 data)) (rv_lo12 v)"
proof -
  have hi: "check_hi v = Ok ()" and ap: "apply_call data v = (data', Ok ())"
    using assms by (auto simp: rv_apply_def ensure_def split: result.splits)
  have len: "8 \<le> length data"
  proof (rule ccontr)
    assume "\<not> 8 \<le> length data"
    then show False
      using ap by (auto simp: apply_call_def get32_def read32_def chunk_at_def split: if_splits)
  qed
  then have "4 \<le> length data" "4 \<le> length data - 4" by simp_all
  then have "data' = to_le_bytes (enc_hi20 (insn_of 4 data) v) @
      to_le_bytes (set_lo12_i (insn_of 4 (drop 4 data)) (rv_lo12 v)) @ drop 8 data"
    using ap by (simp add: apply_call_def get32_def read32_def chunk_at_def put32_def write32_def put_chunk_def insn_of_def
        from_to_le_bytes)
  then show "check_hi v = Ok ()" "insn_of 4 data' = enc_hi20 (insn_of 4 data) v"
    "insn_of 4 (drop 4 data') = set_lo12_i (insn_of 4 (drop 4 data)) (rv_lo12 v)"
    using hi by (simp_all add: insn_of_put)
qed

lemma hi_lo_sum:
  assumes "check_hi v = Ok ()"
  shows "decode_signed u_layout 32 (enc_hi20 insn v) + decode_signed i_layout 12 (set_lo12_i insn' (rv_lo12 v)) = sint v"
    and "decode_signed u_layout 32 (enc_hi20 insn v) + decode_signed s_layout 12 (set_lo12_s insn' (rv_lo12 v)) = sint v"
proof -
  have b: "- (2 ^ 31) - 2 ^ 11 \<le> sint v" "sint v < 2 ^ 31 - 2 ^ 11"
    using assms by (auto simp: check_hi_iff split: if_splits)
  have hi: "decode_signed u_layout 32 (enc_hi20 insn v) = sint (v + 0x800) - sint (v + 0x800) mod 2 ^ 12"
    by (rule hi_decodes) (use b sint_add_0x800(1) [of v] in auto)
  show "decode_signed u_layout 32 (enc_hi20 insn v) + decode_signed i_layout 12 (set_lo12_i insn' (rv_lo12 v)) = sint v"
    "decode_signed u_layout 32 (enc_hi20 insn v) + decode_signed s_layout 12 (set_lo12_s insn' (rv_lo12 v)) = sint v"
    unfolding hi lo_decodes sint_add_0x800(2) [OF b] by simp_all
qed

text \<open>
  C32. A high and a low part reach the value: the immediate of a \<open>lui\<close> or \<open>auipc\<close> written by \<open>Hi20\<close> and the
  sign-extended immediate of a load, an \<open>addi\<close> or a store written by \<open>Lo12I\<close> or \<open>Lo12S\<close> for the same value
  add up to it, and so do the two halves of a \<open>Call\<close>.
\<close>

theorem rv_hi_lo_reaches:
  "(rv_apply Hi20 d v = (d', Ok ()) \<and> rv_apply Lo12I e v = (e', Ok ()) \<longrightarrow>
      decode_signed u_layout 32 (insn_of 4 d') + decode_signed i_layout 12 (insn_of 4 e') = sint v) \<and>
   (rv_apply Hi20 d v = (d', Ok ()) \<and> rv_apply Lo12S e v = (e', Ok ()) \<longrightarrow>
      decode_signed u_layout 32 (insn_of 4 d') + decode_signed s_layout 12 (insn_of 4 e') = sint v) \<and>
   (rv_apply Call d v = (d', Ok ()) \<longrightarrow>
      decode_signed u_layout 32 (insn_of 4 d') + decode_signed i_layout 12 (insn_of 4 (drop 4 d')) = sint v)"
  using hi_lo_sum [of v] rv_apply_call [of d v d']
  by (auto simp: rv_apply_hi rv_apply_lo insn_of_put)

theorem rv_hi_lo_reaches_witness:
  "\<exists>d' e'. rv_apply Hi20 [0x17, 5, 0, 0] 0x12345fff = (d', Ok ()) \<and> rv_apply Lo12I [0x13, 5, 5, 0] 0x12345fff = (e', Ok ()) \<and>
     decode_signed u_layout 32 (insn_of 4 d') + decode_signed i_layout 12 (insn_of 4 e') = 0x12345fff"
proof -
  have s: "sint (0x12345fff :: u64) = 0x12345fff" by simp
  obtain d' where d: "rv_apply Hi20 [0x17, 5, 0, 0] 0x12345fff = (d', Ok ())"
    unfolding rv_apply_hi check_hi_iff s by simp
  obtain e' where e: "rv_apply Lo12I [0x13, 5, 5, 0] 0x12345fff = (e', Ok ())"
    unfolding rv_apply_lo by simp
  show ?thesis using rv_hi_lo_reaches [of _ "0x12345fff" d' _ e'] d e s by auto
qed

section \<open>ULEB128 numbers\<close>

lemma push_bit_saturated: "push_bit (min (s + 7) u32_max) w = push_bit (s + 7) w" for w :: u64
  by (rule bit_word_eqI) (auto simp: bit_push_bit_iff min_def)

lemma position_Cons: "position p (x # xs) = (if p x then Some 0 else map_option Suc (position p xs))"
proof -
  have "(+) (Suc 0) = Suc" by auto
  then show ?thesis using position_append [of p "[x]" xs] by (simp add: position_def [of p "[x]"])
qed

text \<open>The encoded number ends at the first byte without the continuation bit.\<close>

abbreviation last_byte :: "u8 list \<Rightarrow> nat option" where
  "last_byte data \<equiv> position (\<lambda>b. \<not> bit b 7) data"

lemma read_step:
  "read_uleb128_from acc s (b # data) =
     (let acc = acc OR push_bit s (ucast (b AND 0x7f)) in
      if bit b 7 then read_uleb128_from acc (min (s + 7) u32_max) data else Ok acc)"
proof -
  have "push_bit s (ucast (b AND 0x7f) :: u64) = 0" if "64 \<le> s"
    using that by (intro bit_word_eqI) (auto simp: bit_push_bit_iff)
  then show ?thesis using more_bit [of b] by (auto simp: Let_def checked_shl_def)
qed

lemma overwrite_uleb128_spec:
  "overwrite_uleb128 data v = (data', r) \<Longrightarrow> length data' = length data \<and>
     (case last_byte data of None \<Rightarrow> r = Err OutOfBounds
      | Some i \<Rightarrow> r = Ok (drop_bit (7 * Suc i) v = 0) \<and> last_byte data' = Some i \<and> drop (Suc i) data' = drop (Suc i) data \<and>
          (\<forall>acc s. read_uleb128_from acc s data' = Ok (acc OR push_bit s (take_bit (7 * Suc i) v))))"
proof (induction data arbitrary: v data' r)
  case Nil
  then show ?case by (simp add: position_def)
next
  case (Cons b data)
  show ?case
  proof (cases "bit b 7")
    case False
    then have "data' = ucast (v AND 0x7f) # data" "r = Ok (drop_bit 7 v = 0)"
      using Cons.prems more_bit [of b] by (auto simp: Let_def)
    with False show ?thesis
      using uleb_low(2,4) [of v] by (simp add: position_Cons read_step and_0x7f del: read_uleb128_from.simps)
  next
    case True
    obtain d r' where rec: "overwrite_uleb128 data (drop_bit 7 v) = (d, r')" by fastforce
    have eqs: "data' = (ucast (v AND 0x7f) OR 0x80) # d" "r = r'"
      using Cons.prems True more_bit [of b] rec by (auto simp: Let_def)
    show ?thesis
    proof (cases "last_byte data")
      case None
      with Cons.IH [OF rec] True eqs show ?thesis by (simp add: position_Cons)
    next
      case (Some i)
      have "drop_bit (7 * Suc i) (drop_bit 7 v) = drop_bit (7 * Suc (Suc i)) v" by simp
      then show ?thesis
        using Cons.IH [OF rec] True eqs Some uleb_low(1,3) [of v] uleb_digit [of _ v "Suc i"]
        by (simp add: position_Cons read_step or.assoc push_bit_saturated [simplified] del: push_bit_take_bit read_uleb128_from.simps)
    qed
  qed
qed

lemma drop_bit_zero_iff: "drop_bit n v = 0 \<longleftrightarrow> uint v < 2 ^ n" for v :: u64
proof -
  have "drop_bit n v = 0 \<longleftrightarrow> uint (drop_bit n v) = 0" by (simp only: uint_0_iff)
  moreover have "uint (drop_bit n v) = uint v div 2 ^ n" by (simp add: unsigned_drop_bit_eq bintr_uint flip: drop_bit_eq_div)
  moreover have "(0 :: int) < 2 ^ n" by simp
  ultimately show ?thesis using uint_ge_0 [of v] by (auto simp: zdiv_eq_0_iff)
qed

text \<open>
  C33. Overwriting a ULEB128 number: without a last byte in the section it is out of bounds; a value of more than
  seven bits a byte is an overflow; otherwise reading the number back gives the value, and the number keeps its
  length and the bytes after it.
\<close>

theorem rv_uleb128_roundtrip:
  "rv_write_uleb128 data v = (data', r) \<Longrightarrow>
     length data' = length data \<and>
     (case last_byte data of None \<Rightarrow> r = Err OutOfBounds
      | Some i \<Rightarrow> last_byte data' = Some i \<and> drop (Suc i) data' = drop (Suc i) data \<and>
          (if uint v < 2 ^ (7 * Suc i) then r = Ok () \<and> rv_read_uleb128 data' = Ok v else r = Err Overflow))"
proof -
  assume w: "rv_write_uleb128 data v = (data', r)"
  obtain d r' where o: "overwrite_uleb128 data v = (d, r')" by fastforce
  then have d: "d = data'" and r: "r = (case r' of Err e \<Rightarrow> Err e | Ok fit \<Rightarrow> if fit then Ok () else Err Overflow)"
    using w by (auto simp: rv_write_uleb128_def split: result.splits)
  note spec = overwrite_uleb128_spec [OF o, unfolded d]
  show ?thesis
  proof (cases "last_byte data")
    case (Some i)
    have "take_bit (7 * Suc i) v = v" if "drop_bit (7 * Suc i) v = 0"
      using bits_ident [of "7 * Suc i" v] that by simp
    with spec Some r show ?thesis
      by (auto simp: rv_read_uleb128_def drop_bit_zero_iff simp del: mult_Suc_right)
  qed (use spec r in simp)
qed

theorem rv_uleb128_roundtrip_witness:
  "\<exists>data'. rv_write_uleb128 [0x80, 0x80, 0x00, 9] 300 = (data', Ok ()) \<and> rv_read_uleb128 data' = Ok 300"
proof -
  obtain data' r where w: "rv_write_uleb128 [0x80, 0x80, 0x00, 9] 300 = (data', r)" by fastforce
  have "last_byte [0x80, 0x80, 0x00, 9 :: u8] = Some 2" by (simp add: position_Cons)
  with rv_uleb128_roundtrip [OF w] w show ?thesis by simp
qed

end
