(* ===== verification/LoongArch.thy ===== *)
theory LoongArch
  imports MachineCode
begin

text \<open>
  LoongArch instruction fields (src/src/arch/loongarch.rs). The helpers with the same body as in
  aarch64.rs (reading and writing a word, the range checks, inserting a field) are those of MachineCode.
\<close>

section \<open>Instructions\<close>

definition la_PCALAU12I :: u32 where
  "la_PCALAU12I = 0x1a000000"

definition la_ADDI_W :: u32 where
  "la_ADDI_W = 0x02800000"

definition la_ADDI_D :: u32 where
  "la_ADDI_D = 0x02c00000"

definition la_LD_W :: u32 where
  "la_LD_W = 0x28800000"

definition la_LD_D :: u32 where
  "la_LD_D = 0x28c00000"

definition la_JIRL :: u32 where
  "la_JIRL = 0x4c000000"

definition la_page :: "u64 \<Rightarrow> u64" where
  "la_page address = address AND NOT 0xfff"

definition page_delta :: "u64 \<Rightarrow> u64 \<Rightarrow> u64" where
  "page_delta dest pc =
     (let result = la_page dest - la_page pc;
          result = (if dest AND 0x800 \<noteq> 0 then result + 0x1000 - 0x100000000 else result)
      in if result AND 0x80000000 \<noteq> 0 then result + 0x100000000 else result)"

definition pcrel_hi20 :: "u32 \<Rightarrow> u32" where
  "pcrel_hi20 offset = drop_bit 12 (offset + 0x800)"

datatype la_field = La_Hi20 | La_Hi20Round | La_Lo20 | La_Lo12 | La_Hi12 | La_B16 | La_B21 | La_B26 | La_Pcrel20S2
  | La_JirlLo12 | La_Call36 | La_Call36Relax | La_TpHi20Relax | La_TpAddRelax | La_TpLo12Relax | La_Data6 | La_Uleb128

definition bits_of :: "u64 \<Rightarrow> nat \<Rightarrow> nat \<Rightarrow> u32" where
  "bits_of value lsb bits =
     (let mask = (case checked_shl (1 :: u64) bits of None \<Rightarrow> - 1 | Some b \<Rightarrow> b - 1)
      in ucast ((case checked_shr value lsb of None \<Rightarrow> 0 | Some v \<Rightarrow> v) AND mask))"

definition la_rd :: "u32 \<Rightarrow> u32" where
  "la_rd insn = insn AND 0x1f"

definition la_rj :: "u32 \<Rightarrow> u32" where
  "la_rj insn = drop_bit 5 insn AND 0x1f"

definition with_rj :: "u32 \<Rightarrow> u32 \<Rightarrow> u32" where
  "with_rj insn rj = (insn AND NOT (push_bit 5 0x1f)) OR push_bit 5 (rj AND 0x1f)"

definition is_pcalau12i :: "u32 \<Rightarrow> bool" where
  "is_pcalau12i insn \<longleftrightarrow> insn AND 0xfe000000 = la_PCALAU12I"

definition is_jirl :: "u32 \<Rightarrow> bool" where
  "is_jirl insn \<longleftrightarrow> insn AND 0xfc000000 = la_JIRL"

definition is_ld_word :: "u32 \<Rightarrow> bool" where
  "is_ld_word insn = (let op = insn AND 0xffc00000 in op = la_LD_D \<or> op = la_LD_W)"

definition is_addi :: "u32 \<Rightarrow> bool" where
  "is_addi insn = (let op = insn AND 0xffc00000 in op = la_ADDI_D \<or> op = la_ADDI_W)"

definition ri20 :: "u32 \<Rightarrow> u32 \<Rightarrow> u32 \<Rightarrow> u32" where
  "ri20 op rd si20 = op OR (rd AND 0x1f) OR push_bit 5 (si20 AND 0xfffff)"

definition rri12 :: "u32 \<Rightarrow> u32 \<Rightarrow> u32 \<Rightarrow> u32 \<Rightarrow> u32" where
  "rri12 op rd rj imm12 = op OR (rd AND 0x1f) OR push_bit 5 (rj AND 0x1f) OR push_bit 10 (imm12 AND 0xfff)"

definition rrr :: "u32 \<Rightarrow> u32 \<Rightarrow> u32 \<Rightarrow> u32 \<Rightarrow> u32" where
  "rrr op rd rj rk = op OR (rd AND 0x1f) OR push_bit 5 (rj AND 0x1f) OR push_bit 10 (rk AND 0x1f)"

definition jirl :: "u32 \<Rightarrow> u32 \<Rightarrow> u32" where
  "jirl rd rj = la_JIRL OR (rd AND 0x1f) OR push_bit 5 (rj AND 0x1f)"

section \<open>Packing a value\<close>

definition la_bytes :: "la_field \<Rightarrow> usize" where
  "la_bytes f = (if f \<in> {La_Call36, La_Call36Relax} then 8 else if f \<in> {La_Data6, La_Uleb128} then 1 else 4)"

definition la_is_data :: "la_field \<Rightarrow> bool" where
  "la_is_data f \<longleftrightarrow> f \<in> {La_Data6, La_Uleb128}"

definition la_branch :: "i64 \<Rightarrow> nat \<Rightarrow> (u32, overflow_error) result" where
  "la_branch value bits =
     (if value AND 3 \<noteq> 0 \<or> \<not> fits_signed value bits then Err FieldOverflow else Ok (ucast (signed_drop_bit 2 value)))"

definition la_encode :: "la_field \<Rightarrow> u32 \<Rightarrow> i64 \<Rightarrow> (u32, overflow_error) result" where
  "la_encode f insn value =
     (case f of
        La_Hi20 \<Rightarrow> Ok (insert_field insn (bits_of value 12 20) 5 20)
      | La_Hi20Round \<Rightarrow> Ok (insert_field insn (bits_of (value + 0x800) 12 20) 5 20)
      | La_Lo20 \<Rightarrow> Ok (insert_field insn (bits_of value 32 20) 5 20)
      | La_Lo12 \<Rightarrow> Ok (insert_field insn (bits_of value 0 12) 10 12)
      | La_Hi12 \<Rightarrow> Ok (insert_field insn (bits_of value 52 12) 10 12)
      | La_B16 \<Rightarrow> bind_result (la_branch value 18) (\<lambda>offs. Ok (insert_field insn offs 10 16))
      | La_B21 \<Rightarrow> bind_result (la_branch value 23) (\<lambda>offs.
          Ok (insert_field (insert_field insn offs 10 16) (drop_bit 16 offs) 0 5))
      | La_B26 \<Rightarrow> bind_result (la_branch value 28) (\<lambda>offs.
          Ok (insert_field (insert_field insn offs 10 16) (drop_bit 16 offs) 0 10))
      | La_Pcrel20S2 \<Rightarrow> bind_result (la_branch value 22) (\<lambda>offs. Ok (insert_field insn offs 5 20))
      | La_JirlLo12 \<Rightarrow>
          if value AND 3 \<noteq> 0 then Err FieldOverflow
          else Ok (insert_field insn (ucast (signed_drop_bit 2 (signed_drop_bit 52 (push_bit 52 value)))) 10 16)
      | La_Call36 \<Rightarrow> Err FieldOverflow
      | La_Call36Relax \<Rightarrow> Err FieldOverflow
      | La_TpHi20Relax \<Rightarrow> Err FieldOverflow
      | La_TpAddRelax \<Rightarrow> Err FieldOverflow
      | La_TpLo12Relax \<Rightarrow> Err FieldOverflow
      | La_Data6 \<Rightarrow> Err FieldOverflow
      | La_Uleb128 \<Rightarrow> Err FieldOverflow)"

definition call36 :: "u32 \<Rightarrow> u32 \<Rightarrow> i64 \<Rightarrow> (u32 \<times> u32, overflow_error) result" where
  "call36 pcaddu18i jirl_insn value =
     (case checked_add_i64 value 0x20000 of None \<Rightarrow> Err FieldOverflow
      | Some adjusted \<Rightarrow>
          if value AND 3 \<noteq> 0 \<or> \<not> fits_signed adjusted 38 then Err FieldOverflow
          else Ok (insert_field pcaddu18i (bits_of adjusted 18 20) 5 20, insert_field jirl_insn (bits_of value 2 16) 10 16))"

section \<open>ULEB128 numbers\<close>

text \<open>The loop of \<open>read_uleb128\<close> from byte \<open>index\<close> on, over the first ten bytes.\<close>

fun la_read_uleb128_from :: "u64 \<Rightarrow> usize \<Rightarrow> u8 list \<Rightarrow> (u64 \<times> usize) option" where
  "la_read_uleb128_from value index [] = None"
| "la_read_uleb128_from value index (byte # data) =
     (let shift = index * 7;
          value = value OR (case checked_shl (ucast (byte AND 0x7f)) shift of None \<Rightarrow> 0 | Some v \<Rightarrow> v)
      in if byte AND 0x80 = 0 then Some (value, index + 1) else la_read_uleb128_from value (index + 1) data)"

definition la_read_uleb128 :: "u8 list \<Rightarrow> (u64 \<times> usize) option" where
  "la_read_uleb128 data = la_read_uleb128_from 0 0 (take 10 data)"

text \<open>Every byte but the last has the continuation bit.\<close>

fun la_write_uleb128 :: "u8 list \<Rightarrow> u64 \<Rightarrow> u8 list" where
  "la_write_uleb128 [] rest = []"
| "la_write_uleb128 (byte # data) rest =
     (let more = (if data = [] then 0 else 0x80)
      in (ucast (rest AND 0x7f) OR more) # la_write_uleb128 data (drop_bit 7 rest))"

end
