(* ===== verification/LoongArchCorrect.thy ===== *)
theory LoongArchCorrect
  imports LoongArch
begin

text \<open>
  The LoongArch fields against the instruction formats of the architecture manual, and the addresses the
  instruction sequences compute from what the linker writes.
\<close>

section \<open>Formats\<close>

fun la_layout :: "la_field \<Rightarrow> layout" where
  "la_layout La_Hi20 = [(5, 12, 20)]"
| "la_layout La_Hi20Round = [(5, 12, 20)]"
| "la_layout La_Lo20 = [(5, 32, 20)]"
| "la_layout La_Lo12 = [(10, 0, 12)]"
| "la_layout La_Hi12 = [(10, 52, 12)]"
| "la_layout La_B16 = [(10, 2, 16)]"
| "la_layout La_B21 = [(10, 2, 16), (0, 18, 5)]"
| "la_layout La_B26 = [(10, 2, 16), (0, 18, 10)]"
| "la_layout La_Pcrel20S2 = [(5, 2, 20)]"
| "la_layout La_JirlLo12 = [(10, 2, 16)]"
| "la_layout f = []"

text \<open>The byte offset a branch field holds, in bits.\<close>

fun la_branch_bits :: "la_field \<Rightarrow> nat option" where
  "la_branch_bits La_B16 = Some 18"
| "la_branch_bits La_B21 = Some 23"
| "la_branch_bits La_B26 = Some 28"
| "la_branch_bits La_Pcrel20S2 = Some 22"
| "la_branch_bits f = None"

lemma bit_bits_of:
  assumes "bits < 64" "lsb < 64"
  shows "bit (bits_of v lsb bits) n \<longleftrightarrow> n < 32 \<and> n < bits \<and> bit v (lsb + n)"
proof -
  have "bits_of v lsb bits = ucast (drop_bit lsb v AND (push_bit bits 1 - 1))"
    using assms by (simp add: bits_of_def checked_shl_def checked_shr_def del: push_bit_of_1)
  then have "bit (bits_of v lsb bits) n \<longleftrightarrow> n < 32 \<and> bit v (lsb + n) \<and> bit (push_bit bits 1 - 1 :: u64) n"
    by (auto simp: bit_unsigned_iff bit_and_iff bit_drop_bit_eq)
  then show ?thesis unfolding bit_low_mask by auto
qed

lemma la_layout_field: "insn_field (la_layout f) (scatter (la_layout f) :: u32 \<Rightarrow> u64 \<Rightarrow> u32)"
  by (rule insn_field_scatter; cases f; simp add: layout_ok_def layout_pairs_def upt_conv_Cons)

lemmas la_bits = bit_insert_field bit_bits_of bit_sar bit_scatter bit_drop_bit_eq

lemma la_branch_insert:
  "insert_field insn (ucast (signed_drop_bit 2 v)) 10 16 = scatter (la_layout La_B16) insn v"
  "insert_field (insert_field insn (ucast (signed_drop_bit 2 v)) 10 16) (drop_bit 16 (ucast (signed_drop_bit 2 v))) 0 5 =
     scatter (la_layout La_B21) insn v"
  "insert_field (insert_field insn (ucast (signed_drop_bit 2 v)) 10 16) (drop_bit 16 (ucast (signed_drop_bit 2 v))) 0 10 =
     scatter (la_layout La_B26) insn v"
  "insert_field insn (ucast (signed_drop_bit 2 v)) 5 20 = scatter (la_layout La_Pcrel20S2) insn v"
  for v :: i64
  by (rule word_eq_upto; simp add: upt_conv_Cons la_bits)+

lemma la_part_insert:
  "insert_field insn (bits_of v 12 20) 5 20 = scatter (la_layout La_Hi20) insn v"
  "insert_field insn (bits_of v 32 20) 5 20 = scatter (la_layout La_Lo20) insn v"
  "insert_field insn (bits_of v 0 12) 10 12 = scatter (la_layout La_Lo12) insn v"
  "insert_field insn (bits_of v 52 12) 10 12 = scatter (la_layout La_Hi12) insn v"
  by (rule word_eq_upto; simp add: upt_conv_Cons la_bits)+

lemma la_branch_encode:
  assumes "la_branch_bits f = Some w"
  shows "la_encode f insn v = (if in_signed (sint v) w \<and> 4 dvd sint v then Ok (scatter (la_layout f) insn v) else Err FieldOverflow)"
  using assms by (cases f) (auto simp: la_encode_def la_branch_def and_mask_cases fits_signed_iff la_branch_insert(1,4)
      la_branch_insert(2,3) [unfolded la_branch_insert(1) la_layout.simps])

text \<open>
  C35. A LoongArch branch field (\<open>B16\<close>, \<open>B21\<close>, \<open>B26\<close>, \<open>Pcrel20S2\<close>) is an overflow exactly when the offset is
  misaligned or out of its reach; otherwise the instruction decodes, by the format of the manual, to the offset
  and keeps every bit outside the immediate.
\<close>

theorem la_encode_decodes:
  "la_branch_bits f = Some w \<Longrightarrow>
   (case la_encode f insn value of
      Err e \<Rightarrow> \<not> (in_signed (sint value) w \<and> 4 dvd sint value)
    | Ok insn' \<Rightarrow> in_signed (sint value) w \<and> 4 dvd sint value \<and> decode_signed (la_layout f) w insn' = sint value \<and>
        (\<forall>n. source_bit (la_layout f) n = None \<longrightarrow> bit insn' n = bit insn n))"
proof -
  assume f: "la_branch_bits f = Some w"
  have "decode_signed (la_layout f) w (scatter (la_layout f) insn value) = sint value"
    if "in_signed (sint value) w" "4 dvd sint value"
  proof (rule insn_field.decodes_signed [OF la_layout_field that(1)])
    have low: "\<not> bit value 0" "\<not> bit value 1" using that(2) low_bits_zero(2) [of 2 "value"] by auto
    show "0 < w" "w \<le> 64" using f by (cases f; auto)+
    show "\<forall>k\<in>set [0..<w]. target_bit (la_layout f) k = None \<longrightarrow> \<not> bit value k"
      using f low by (cases f) (auto simp: upt_conv_Cons)
  qed
  then show ?thesis
    unfolding la_branch_encode [OF f] using insn_field.keeps [OF la_layout_field] by simp
qed

theorem la_encode_decodes_witness:
  "\<exists>insn'. la_encode La_B26 0x54000000 (- 8) = Ok insn' \<and> decode_signed (la_layout La_B26) 28 insn' = - 8"
proof -
  have s: "sint (- 8 :: i64) = - 8" by simp
  have "la_encode La_B26 0x54000000 (- 8) = Ok (scatter (la_layout La_B26) 0x54000000 (- 8 :: i64))"
    by (subst la_branch_encode [of _ 28]) (simp_all add: in_signed_def)
  with la_encode_decodes [of La_B26 28 "- 8" "0x54000000"] s show ?thesis by simp
qed

section \<open>Addresses\<close>

text \<open>What the instructions compute, on the immediate they hold: \<open>pcalau12i\<close> at \<open>pc\<close>, \<open>addi.d\<close> from zero,
  \<open>lu32i.d\<close> and \<open>lu52i.d\<close>.\<close>

definition pcalau12i_result :: "u64 \<Rightarrow> u32 \<Rightarrow> u64" where
  "pcalau12i_result pc insn = la_page pc + word_of_int (decode_signed [(5, 12, 20)] 32 insn)"

definition addi_zero_result :: "u32 \<Rightarrow> u64" where
  "addi_zero_result insn = word_of_int (decode_signed [(10, 0, 12)] 12 insn)"

definition lu32i_result :: "u64 \<Rightarrow> u32 \<Rightarrow> u64" where
  "lu32i_result rd insn = take_bit 32 rd OR word_of_int (decode_signed [(5, 32, 20)] 52 insn)"

definition lu52i_result :: "u64 \<Rightarrow> u32 \<Rightarrow> u64" where
  "lu52i_result rj insn = take_bit 52 rj OR gather [(10, 52, 12)] insn"

lemma la_page_mask: "la_page a = a AND NOT (mask 12)"
  by (simp add: la_page_def mask_eq_exp_minus_1)

lemma la_page_split: "la_page a + take_bit 12 a = a"
proof -
  have "la_page a = push_bit 12 (drop_bit 12 a)"
    by (rule bit_word_eqI) (auto simp: la_page_mask bit_and_iff bit_not_iff bit_mask_iff bit_push_bit_iff bit_drop_bit_eq)
  then show ?thesis by (simp add: bits_ident)
qed

lemma la_page_aligned: "2 ^ 12 dvd sint (la_page a)"
  by (subst low_bits_zero(2)) (auto simp: la_page_mask bit_and_iff bit_not_iff bit_mask_iff)

text \<open>The delta before bits 32 to 63 are adjusted.\<close>

definition page_diff :: "u64 \<Rightarrow> u64 \<Rightarrow> u64" where
  "page_diff dest pc = la_page dest - la_page pc + (if bit dest 11 then 0x1000 - 0x100000000 else 0)"

lemma page_delta_eq: "page_delta dest pc = page_diff dest pc + (if bit (page_diff dest pc) 31 then 2 ^ 32 else 0)"
proof -
  have "dest AND 0x800 \<noteq> 0 \<longleftrightarrow> bit dest 11" using and_exp_eq_0_iff_not_bit [of dest 11] by simp
  moreover have "r AND 0x80000000 \<noteq> 0 \<longleftrightarrow> bit r 31" for r :: u64 using and_exp_eq_0_iff_not_bit [of r 31] by simp
  ultimately show ?thesis by (simp add: page_delta_def page_diff_def Let_def diff_diff_eq algebra_simps)
qed

lemma page_delta_aligned: "2 ^ 12 dvd sint (page_delta dest pc)"
proof -
  have "2 ^ 12 dvd sint (0x1000 - 0x100000000 :: u64)" "2 ^ 12 dvd sint (2 ^ 32 :: u64)" "2 ^ 12 dvd sint (0 :: u64)" by simp_all
  then have "2 ^ 12 dvd sint (page_diff dest pc)"
    unfolding page_diff_def by (intro dvd_sint_add la_page_aligned) auto
  then show ?thesis
    unfolding page_delta_eq using \<open>2 ^ 12 dvd sint (2 ^ 32 :: u64)\<close> by (intro dvd_sint_add) auto
qed

lemma page_delta_bit31: "bit (page_delta dest pc) 31 = bit (page_diff dest pc) 31"
proof (cases "bit (page_diff dest pc) 31")
  case True
  have "sint (page_diff dest pc + 2 ^ 32) mod 2 ^ 32 = sint (page_diff dest pc) mod 2 ^ 32"
    using sint_add_mod(1) [of 32 "page_diff dest pc" "2 ^ 32"] by simp
  then have "bit (page_diff dest pc + 2 ^ 32) 31 = bit (page_diff dest pc) 31"
    by (rule bit_of_sint_mod [rotated]) simp_all
  with True show ?thesis by (simp add: page_delta_eq)
qed (simp add: page_delta_eq)

lemma high_part: "word_of_int (signed_take_bit 31 (sint (page_delta dest pc))) + (page_delta dest pc - take_bit 32 (page_delta dest pc))
    = page_diff dest pc"
  using sext_word [of 31 "page_delta dest pc"] page_delta_bit31 [of dest pc] page_delta_eq [of dest pc]
  by (auto simp: algebra_simps split: if_splits)

lemma low_part: "take_bit 32 (word_of_int (signed_take_bit 11 (sint dest)) :: u64) =
    take_bit 12 dest + (if bit dest 11 then 0x100000000 - 0x1000 else 0)"
proof (cases "bit dest 11")
  case True
  let ?t = "take_bit 12 dest"
  have t: "0 \<le> uint ?t" "uint ?t < 4096" using take_bit_int_less_exp [of 12 "uint dest"] by (simp_all add: unsigned_take_bit_eq)
  have u: "uint (take_bit 32 x) = uint x mod 2 ^ 32" for x :: u64
    by (subst unsigned_take_bit_eq) (rule take_bit_eq_mod)
  have "uint (?t - 0x1000) = (uint ?t - 0x1000) mod 2 ^ 64" by (simp add: uint_word_ariths)
  then have "uint (take_bit 32 (?t - 0x1000)) = (uint ?t - 0x1000) mod 2 ^ 64 mod 2 ^ 32" by (simp only: u)
  also have "\<dots> = (uint ?t - 0x1000) mod 2 ^ 32" by (rule mod_mod_cancel) simp
  also have "\<dots> = (uint ?t - 0x1000 + 2 ^ 32) mod 2 ^ 32" by (rule mod_add_self2 [symmetric])
  also have "\<dots> = uint ?t - 0x1000 + 2 ^ 32" using t by (intro mod_pos_pos_trivial) auto
  also have "\<dots> = uint (?t + (0x100000000 - 0x1000))" using t by (simp add: uint_word_ariths)
  finally have "take_bit 32 (?t - 0x1000) = ?t + (0x100000000 - 0x1000)" by (simp only: word_uint_eq_iff)
  then show ?thesis using True sext_word [of 11 dest] by simp
next
  case False
  then show ?thesis using sext_word [of 11 dest] by simp
qed

lemma upper_words:
  fixes a d :: u64 and w3 w4 :: u32
  assumes w3: "w3 = scatter [(5, 32, 20)] i3 d" and w4: "w4 = scatter [(10, 52, 12)] i4 d"
  shows "lu52i_result (lu32i_result a w3) w4 = take_bit 32 a + (d - take_bit 32 d)"
proof -
  have 3: "bit (gather [(5, 32, 20)] w3 :: u64) k \<longleftrightarrow> 32 \<le> k \<and> k < 52 \<and> bit d k" for k
    unfolding w3 using insn_field.decodes_bit [OF la_layout_field [of La_Lo20, simplified], of i3 d k] by auto
  have 4: "bit (gather [(10, 52, 12)] w4 :: u64) k \<longleftrightarrow> 52 \<le> k \<and> bit d k" for k
    unfolding w4 using insn_field.decodes_bit [OF la_layout_field [of La_Hi12, simplified], of i4 d k]
    by (auto dest: bit_imp_le_length)
  have s: "bit (word_of_int (signed_take_bit 51 (uint g)) :: u64) k \<longleftrightarrow> k < 64 \<and> bit g (min k 51)" for g :: u64 and k
    by (auto simp: bit_word_of_int_iff bit_signed_take_bit_iff bit_uint_iff min.commute)
  have "lu52i_result (lu32i_result a w3) w4 = take_bit 32 a OR (d AND NOT (mask 32))"
    unfolding lu52i_result_def lu32i_result_def decode_signed_def
    by (rule bit_word_eqI) (auto simp: bit_or_iff bit_and_iff bit_not_iff bit_mask_iff bit_take_bit_iff 3 4 s)
  also have "\<dots> = take_bit 32 a + (d AND NOT (mask 32))"
    by (rule disjunctive_add [symmetric]) (auto simp: bit_and_iff bit_not_iff bit_mask_iff bit_take_bit_iff)
  also have "d AND NOT (mask 32) = push_bit 32 (drop_bit 32 d)"
    by (rule bit_word_eqI) (auto simp: bit_and_iff bit_not_iff bit_mask_iff bit_push_bit_iff bit_drop_bit_eq)
  also have "push_bit 32 (drop_bit 32 d) = d - take_bit 32 d" using bits_ident [of 32 d] by (simp add: algebra_simps)
  finally show ?thesis .
qed

text \<open>
  C34. The address a LoongArch sequence computes: \<open>pcalau12i\<close>, \<open>addi.d\<close>, \<open>lu32i.d\<close> and \<open>lu52i.d\<close> patched with the
  page delta from \<open>pc\<close> and the low bits of \<open>dest\<close> add up to \<open>dest\<close>, for every pair of 64-bit addresses.
\<close>

theorem la_sequence_reaches:
  "la_encode La_Hi20 i1 (page_delta dest pc) = Ok w1 \<Longrightarrow> la_encode La_Lo12 i2 dest = Ok w2 \<Longrightarrow>
   la_encode La_Lo20 i3 (page_delta dest pc) = Ok w3 \<Longrightarrow> la_encode La_Hi12 i4 (page_delta dest pc) = Ok w4 \<Longrightarrow>
   pcalau12i_result pc w1 + lu52i_result (lu32i_result (addi_zero_result w2) w3) w4 = dest"
proof -
  let ?d = "page_delta dest pc"
  assume "la_encode La_Hi20 i1 ?d = Ok w1" "la_encode La_Lo12 i2 dest = Ok w2"
    "la_encode La_Lo20 i3 ?d = Ok w3" "la_encode La_Hi12 i4 ?d = Ok w4"
  then have w: "w1 = scatter (la_layout La_Hi20) i1 ?d" "w2 = scatter (la_layout La_Lo12) i2 dest"
    "w3 = scatter [(5, 32, 20)] i3 ?d" "w4 = scatter [(10, 52, 12)] i4 ?d"
    by (simp_all add: la_encode_def la_part_insert del: la_layout.simps) simp_all
  have low: "\<not> bit ?d k" if "k < 12" for k
    using low_bits_zero(2) [of 12 ?d] page_delta_aligned that by auto
  have "decode_signed (la_layout La_Hi20) 32 w1 = signed_take_bit 31 (sint ?d)"
    unfolding w(1) using low by (subst insn_field.decodes_low [OF la_layout_field]) (simp_all add: upt_conv_Cons)
  then have 1: "pcalau12i_result pc w1 = la_page pc + word_of_int (signed_take_bit 31 (sint ?d))"
    by (simp add: pcalau12i_result_def)
  have "decode_signed (la_layout La_Lo12) 12 w2 = signed_take_bit 11 (sint dest)"
    unfolding w(2) by (subst insn_field.decodes_low [OF la_layout_field]) (simp_all add: upt_conv_Cons)
  then have 2: "addi_zero_result w2 = word_of_int (signed_take_bit 11 (sint dest))"
    by (simp add: addi_zero_result_def)
  have "pcalau12i_result pc w1 + lu52i_result (lu32i_result (addi_zero_result w2) w3) w4 =
      la_page pc + page_diff dest pc + take_bit 12 dest + (if bit dest 11 then 0x100000000 - 0x1000 else 0)"
    unfolding upper_words [OF w(3,4)] 1 2 low_part using high_part [of dest pc] by (simp add: algebra_simps)
  also have "\<dots> = la_page dest + take_bit 12 dest" by (simp add: page_diff_def)
  finally show ?thesis by (simp add: la_page_split)
qed

theorem la_sequence_reaches_witness:
  "\<exists>w1 w2 w3 w4. la_encode La_Hi20 0x1a00000c (page_delta 0x7fff12345987 0x400123) = Ok w1 \<and>
     la_encode La_Lo12 0x02c0000d 0x7fff12345987 = Ok w2 \<and>
     pcalau12i_result 0x400123 w1 + lu52i_result (lu32i_result (addi_zero_result w2) w3) w4 = 0x7fff12345987"
proof -
  let ?d = "page_delta 0x7fff12345987 0x400123"
  obtain w1 w2 w3 w4 where w: "la_encode La_Hi20 0x1a00000c ?d = Ok w1" "la_encode La_Lo12 0x02c0000d 0x7fff12345987 = Ok w2"
    "la_encode La_Lo20 0x1600000d ?d = Ok w3" "la_encode La_Hi12 0x030001ad ?d = Ok w4"
    by (simp add: la_encode_def)
  from la_sequence_reaches [OF w] w show ?thesis by blast
qed

lemma call36_parts:
  "insert_field insn (bits_of v 18 20) 5 20 = scatter [(5, 18, 20)] insn v"
  "insert_field insn (bits_of v 2 16) 10 16 = scatter [(10, 2, 16)] insn v"
  by (rule word_eq_upto; simp add: upt_conv_Cons la_bits)+

lemma call36_field: "insn_field [(5, 18, 20)] (scatter [(5, 18, 20)] :: u32 \<Rightarrow> u64 \<Rightarrow> u32)"
  by (rule insn_field_scatter) (simp_all add: layout_ok_def layout_pairs_def upt_conv_Cons)

lemma call36_sum:
  fixes v :: i64
  assumes "4 dvd sint v" "in_signed (sint v + 0x20000) 38"
  shows "decode_signed [(5, 18, 20)] 38 (scatter [(5, 18, 20)] i1 (v + 0x20000) :: u32) +
    decode_signed [(10, 2, 16)] 18 (scatter [(10, 2, 16)] i2 v :: u32) = sint v"
proof -
  have a: "sint (v + 0x20000) = sint v + 0x20000"
    using sint_add_in_range [of v "0x20000"] assms(2) by (simp add: in_signed_def)
  let ?m = "(v + 0x20000) AND NOT (mask 18)"
  have m: "sint ?m = sint v + 0x20000 - (sint v + 0x20000) mod 2 ^ 18" using sint_clear_low [of 18 "v + 0x20000"] a by simp
  have eq: "scatter [(5, 18, 20)] i1 (v + 0x20000) = (scatter [(5, 18, 20)] i1 ?m :: u32)"
    by (rule word_eq_upto) (simp add: upt_conv_Cons bit_scatter bit_and_iff bit_not_iff bit_mask_iff)
  have div: "- (2 ^ 19) \<le> y div 2 ^ 18 \<and> y div 2 ^ 18 < 2 ^ 19" if "in_signed y 38" for y
    using that by (simp add: in_signed_def) linarith
  have "in_signed (sint ?m) 38"
    unfolding m minus_mod_eq_mult_div in_signed_def using div [OF assms(2)] by simp
  then have hi: "decode_signed [(5, 18, 20)] 38 (scatter [(5, 18, 20)] i1 (v + 0x20000) :: u32) = sint ?m"
    unfolding eq
    by (intro insn_field.decodes_signed [OF call36_field]) (simp_all add: upt_conv_Cons bit_and_iff bit_not_iff bit_mask_iff)
  have low: "\<not> bit v 0" "\<not> bit v 1" using assms(1) low_bits_zero(2) [of 2 v] by auto
  have "decode_signed [(10, 2, 16)] 18 (scatter [(10, 2, 16)] i2 v :: u32) = signed_take_bit 17 (sint v)"
    using low by (subst insn_field.decodes_low [OF la_layout_field [of La_B16, simplified]]) (simp_all add: upt_conv_Cons)
  also have "\<dots> = (sint v + 0x20000) mod 2 ^ 18 - 0x20000"
    by (simp add: signed_take_bit_eq_take_bit_shift take_bit_eq_mod)
  finally show ?thesis unfolding hi m by simp
qed

text \<open>
  \<open>call36\<close> is an overflow exactly when the offset is misaligned or out of the pair's reach; otherwise the
  immediates of the \<open>pcaddu18i\<close> and the \<open>jirl\<close> add up to the offset and nothing else of the instructions changes.
\<close>

theorem la_call36_reaches:
  "(case call36 i1 i2 value of
      Err e \<Rightarrow> \<not> (4 dvd sint value \<and> in_signed (sint value + 0x20000) 38)
    | Ok (w1, w2) \<Rightarrow> 4 dvd sint value \<and> in_signed (sint value + 0x20000) 38 \<and>
        decode_signed [(5, 18, 20)] 38 w1 + decode_signed [(10, 2, 16)] 18 w2 = sint value \<and>
        (\<forall>n. n < 5 \<or> 25 \<le> n \<longrightarrow> bit w1 n = bit i1 n) \<and> (\<forall>n. n < 10 \<or> 26 \<le> n \<longrightarrow> bit w2 n = bit i2 n))"
proof (cases "4 dvd sint value \<and> in_signed (sint value + 0x20000) 38")
  case True
  have a: "sint (value + 0x20000) = sint value + 0x20000"
    using sint_add_in_range [of "value" "0x20000"] True by (simp add: in_signed_def)
  have "call36 i1 i2 value = Ok (scatter [(5, 18, 20)] i1 (value + 0x20000), scatter [(10, 2, 16)] i2 value)"
    using True by (simp add: call36_def checked_add_i64_def a and_mask_cases fits_signed_iff call36_parts)
  moreover have "bit (scatter [(5, 18, 20)] i1 (value + 0x20000)) n = bit i1 n" if "n < 5 \<or> 25 \<le> n" for n
    using that insn_field.keeps [OF call36_field, of n] by auto
  moreover have "bit (scatter [(10, 2, 16)] i2 value) n = bit i2 n" if "n < 10 \<or> 26 \<le> n" for n
    using that insn_field.keeps [OF la_layout_field [of La_B16, simplified], of n] by auto
  ultimately show ?thesis using True call36_sum [of "value" i1 i2] by simp
next
  case False
  then have "call36 i1 i2 value = Err FieldOverflow"
    by (auto simp: call36_def checked_add_i64_def and_mask_cases fits_signed_iff)
  with False show ?thesis by simp
qed

theorem la_call36_reaches_witness:
  "\<exists>w1 w2. call36 0x1e00000c 0x4c000181 0x12345678 = Ok (w1, w2) \<and>
     decode_signed [(5, 18, 20)] 38 w1 + decode_signed [(10, 2, 16)] 18 w2 = 0x12345678"
proof -
  have s: "sint (0x12345678 :: i64) = 0x12345678" by simp
  then show ?thesis
    using la_call36_reaches [of "0x12345678" "0x1e00000c" "0x4c000181"]
    by (cases "call36 0x1e00000c 0x4c000181 0x12345678") (force simp: in_signed_def)+
qed

section \<open>ULEB128 numbers\<close>

lemma la_write_length [simp]: "length (la_write_uleb128 data v) = length data"
  by (induction data arbitrary: v) (simp_all add: Let_def)

lemma la_read_step:
  "la_read_uleb128_from acc i (b # data) =
     (let acc = acc OR push_bit (7 * i) (ucast (b AND 0x7f)) in
      if bit b 7 then la_read_uleb128_from acc (i + 1) data else Some (acc, i + 1))"
proof -
  have "push_bit (7 * i) (ucast (b AND 0x7f) :: u64) = 0" if "64 \<le> 7 * i"
    using that by (intro bit_word_eqI) (auto simp: bit_push_bit_iff)
  then show ?thesis using more_bit [of b] by (auto simp: Let_def checked_shl_def mult.commute)
qed

lemma la_read_write:
  "data \<noteq> [] \<Longrightarrow> la_read_uleb128_from acc i (la_write_uleb128 data v @ rest) =
     Some (acc OR push_bit (7 * i) (take_bit (7 * length data) v), i + length data)"
proof (induction data arbitrary: acc i v)
  case (Cons b data)
  show ?case
  proof (cases "data = []")
    case True
    then show ?thesis using uleb_low(2,4) [of v] by (simp add: la_read_step and_0x7f Let_def del: la_read_uleb128_from.simps)
  next
    case False
    have "push_bit (7 * i) (v AND 0x7f) OR push_bit (7 * Suc i) (take_bit (7 * length data) (drop_bit 7 v)) =
        push_bit (7 * i) (take_bit (7 * Suc (length data)) v)"
      using uleb_digit [of "7 * i" v "length data"] by (simp only: mult_Suc_right add.commute)
    with False Cons.IH [OF False, of _ "Suc i" "drop_bit 7 v"] uleb_low(1,3) [of v] show ?thesis
      by (simp add: la_read_step Let_def or.assoc del: la_read_uleb128_from.simps push_bit_take_bit mult_Suc_right)
  qed
qed simp

text \<open>
  Rewriting a LoongArch ULEB128 number of at most ten bytes in place keeps its length, and reading it back
  gives the value modulo 128 to its number of bytes, whatever follows it.
\<close>

theorem la_uleb128_roundtrip:
  "data \<noteq> [] \<Longrightarrow> length data \<le> 10 \<Longrightarrow>
     length (la_write_uleb128 data v) = length data \<and>
     la_read_uleb128 (la_write_uleb128 data v @ rest) = Some (take_bit (7 * length data) v, length data)"
proof -
  assume "data \<noteq> []" "length data \<le> 10"
  then have "take 10 (la_write_uleb128 data v @ rest) = la_write_uleb128 data v @ take (10 - length data) rest" by simp
  then show ?thesis
    using la_read_write [OF \<open>data \<noteq> []\<close>, of 0 0 v "take (10 - length data) rest"] by (simp add: la_read_uleb128_def)
qed

theorem la_uleb128_roundtrip_witness:
  "la_read_uleb128 (la_write_uleb128 [0, 0, 0] 300 @ [5]) = Some (300, 3)"
  using la_uleb128_roundtrip [of "[0, 0, 0]" 300 "[5]"] by simp

end
