(* ===== verification/Aarch64.thy ===== *)
theory Aarch64
  imports MachineCode
begin

text \<open>
  AArch64 instruction fields, thunks and the Cortex-A53 errata (src/src/arch/aarch64.rs). Reading and writing
  a word, the range checks and \<open>insert\<close> are in MachineCode.
\<close>

section \<open>Fields\<close>

definition a64_PAGE :: u64 where
  "a64_PAGE = 0x1000"

definition a64_page :: "u64 \<Rightarrow> u64" where
  "a64_page address = address AND NOT (a64_PAGE - 1)"

definition PAGE_MASK :: i64 where
  "PAGE_MASK = a64_PAGE - 1"

definition BR_X16 :: u32 where
  "BR_X16 = 0xd61f0200"

definition BRANCH26_REACH :: i64 where
  "BRANCH26_REACH = push_bit 27 1"

definition branch_in_range :: "u64 \<Rightarrow> u64 \<Rightarrow> bool" where
  "branch_in_range start dest =
     (let delta = dest - start in sint (- BRANCH26_REACH) \<le> sint delta \<and> sint delta < sint BRANCH26_REACH)"

definition fits_either :: "i64 \<Rightarrow> nat \<Rightarrow> bool" where
  "fits_either value bits \<longleftrightarrow> fits_signed value bits \<or> fits_unsigned value bits"

datatype movw_check = MovwNone | MovwUnsigned | MovwSigned

datatype a64_field = Branch26 | Branch19 | Branch14 | Adr21 | Adrp21 | Adrp21Nc | Add12 | Add12Checked | AddHi12
  | LdSt u8 bool | LdSt15 | Movw u8 movw_check | Data32 | Data32Signed | Data16

definition destination_register :: "u32 \<Rightarrow> u32" where
  "destination_register insn = insn AND 0x1f"

definition a64_bytes :: "a64_field \<Rightarrow> usize" where
  "a64_bytes f = (if f = Data16 then 2 else 4)"

definition a64_is_data :: "a64_field \<Rightarrow> bool" where
  "a64_is_data f \<longleftrightarrow> f \<in> {Data32, Data32Signed, Data16}"

definition encode_ldst :: "nat \<Rightarrow> bool \<Rightarrow> u32 \<Rightarrow> i64 \<Rightarrow> (u32, overflow_error) result" where
  "encode_ldst scale checked insn value =
     (let alignment = (case checked_shl (1 :: i64) scale of None \<Rightarrow> 1 | Some a \<Rightarrow> a) - 1
      in if value AND alignment \<noteq> 0 then Err FieldOverflow
         else if checked \<and> \<not> fits_unsigned value (scale + 12) then Err FieldOverflow
         else Ok (insert_field insn (ucast (drop_bit scale (value AND 0xfff))) 10 12))"

definition movw_half :: "i64 \<Rightarrow> nat \<Rightarrow> u64" where
  "movw_half value shift = (case checked_shr value shift of None \<Rightarrow> 0 | Some v \<Rightarrow> v) AND 0xffff"

definition encode_movw :: "nat \<Rightarrow> movw_check \<Rightarrow> u32 \<Rightarrow> i64 \<Rightarrow> (u32, overflow_error) result" where
  "encode_movw shift check insn value =
     (let bits = shift + 16; put = (\<lambda>insn value. Ok (insert_field insn (ucast (movw_half value shift)) 5 16))
      in case check of
           MovwNone \<Rightarrow> put insn value
         | MovwUnsigned \<Rightarrow> if \<not> fits_unsigned value bits then Err FieldOverflow else put insn value
         | MovwSigned \<Rightarrow>
             if \<not> fits_signed value bits then Err FieldOverflow
             else if sint value < 0 then put (insn AND NOT (push_bit 30 1)) (NOT value)
             else put insn value)"

definition a64_encode :: "a64_field \<Rightarrow> u32 \<Rightarrow> i64 \<Rightarrow> (u32, overflow_error) result" where
  "a64_encode f insn value =
     (case f of
        Branch26 \<Rightarrow>
          if value AND 3 \<noteq> 0 \<or> \<not> fits_signed value 28 then Err FieldOverflow
          else Ok (insert_field insn (ucast (signed_drop_bit 2 value)) 0 26)
      | Branch19 \<Rightarrow>
          if value AND 3 \<noteq> 0 \<or> \<not> fits_signed value 21 then Err FieldOverflow
          else Ok (insert_field insn (ucast (signed_drop_bit 2 value)) 5 19)
      | Branch14 \<Rightarrow>
          if value AND 3 \<noteq> 0 \<or> \<not> fits_signed value 16 then Err FieldOverflow
          else Ok (insert_field insn (ucast (signed_drop_bit 2 value)) 5 14)
      | Adr21 \<Rightarrow>
          if \<not> fits_signed value 21 then Err FieldOverflow
          else let low = ucast value AND 3; high = ucast (signed_drop_bit 2 value)
               in Ok (insert_field (insert_field insn high 5 19) low 29 2)
      | Adrp21 \<Rightarrow>
          if value AND PAGE_MASK \<noteq> 0 then Err FieldOverflow
          else if \<not> fits_signed value 33 then Err FieldOverflow
          else let pages = signed_drop_bit 12 value; low = ucast pages AND 3; high = ucast (signed_drop_bit 2 pages)
               in Ok (insert_field (insert_field insn high 5 19) low 29 2)
      | Adrp21Nc \<Rightarrow>
          if value AND PAGE_MASK \<noteq> 0 then Err FieldOverflow
          else let pages = signed_drop_bit 12 value; low = ucast pages AND 3; high = ucast (signed_drop_bit 2 pages)
               in Ok (insert_field (insert_field insn high 5 19) low 29 2)
      | Add12 \<Rightarrow> Ok (insert_field insn (ucast value AND 0xfff) 10 12)
      | Add12Checked \<Rightarrow>
          if \<not> fits_unsigned value 12 then Err FieldOverflow else Ok (insert_field insn (ucast value) 10 12)
      | AddHi12 \<Rightarrow>
          if \<not> fits_unsigned value 24 then Err FieldOverflow
          else Ok (insert_field insn (ucast (signed_drop_bit 12 value)) 10 12)
      | LdSt scale checked \<Rightarrow> encode_ldst (min (unat scale) 4) checked insn value
      | LdSt15 \<Rightarrow>
          if value AND 7 \<noteq> 0 \<or> \<not> fits_unsigned value 15 then Err FieldOverflow
          else Ok (insert_field insn (ucast (signed_drop_bit 3 value)) 10 12)
      | Movw shift check \<Rightarrow> encode_movw (min (unat shift) 48) check insn value
      | Data32 \<Rightarrow> if \<not> fits_either value 32 then Err FieldOverflow else Ok (ucast value)
      | Data32Signed \<Rightarrow> if \<not> fits_signed value 32 then Err FieldOverflow else Ok (ucast value)
      | Data16 \<Rightarrow> if \<not> fits_either value 16 then Err FieldOverflow else Ok (ucast value AND 0xffff))"

section \<open>Instructions\<close>

definition movz :: "u32 \<Rightarrow> u32 \<Rightarrow> u32 \<Rightarrow> u32" where
  "movz rd imm16 shift = 0xd2800000 OR (rd AND 0x1f) OR push_bit 5 (imm16 AND 0xffff) OR push_bit 21 ((shift div 16) AND 3)"

definition movk :: "u32 \<Rightarrow> u32 \<Rightarrow> u32 \<Rightarrow> u32" where
  "movk rd imm16 shift = 0xf2800000 OR (rd AND 0x1f) OR push_bit 5 (imm16 AND 0xffff) OR push_bit 21 ((shift div 16) AND 3)"

definition adrp :: "u32 \<Rightarrow> u32" where
  "adrp rd = 0x90000000 OR (rd AND 0x1f)"

definition add_imm :: "u32 \<Rightarrow> u32 \<Rightarrow> u32" where
  "add_imm rd rn = 0x91000000 OR (rd AND 0x1f) OR push_bit 5 (rn AND 0x1f)"

definition ldr_offset :: "u32 \<Rightarrow> u32 \<Rightarrow> u32" where
  "ldr_offset rt rn = 0xf9400000 OR (rt AND 0x1f) OR push_bit 5 (rn AND 0x1f)"

definition a64_br :: "u32 \<Rightarrow> u32" where
  "a64_br rn = 0xd61f0000 OR push_bit 5 (rn AND 0x1f)"

definition adr :: "u32 \<Rightarrow> u32" where
  "adr rd = 0x10000000 OR (rd AND 0x1f)"

definition a64_B :: u32 where
  "a64_B = 0x14000000"

definition is_adrp :: "u32 \<Rightarrow> bool" where
  "is_adrp insn \<longleftrightarrow> insn AND 0x9f000000 = 0x90000000"

definition is_add_imm64 :: "u32 \<Rightarrow> bool" where
  "is_add_imm64 insn \<longleftrightarrow> insn AND 0xffc00000 = 0x91000000"

definition is_load_store_unsigned :: "u32 \<Rightarrow> bool" where
  "is_load_store_unsigned insn \<longleftrightarrow> insn AND 0x3b000000 = 0x39000000"

definition base_register :: "u32 \<Rightarrow> u32" where
  "base_register insn = drop_bit 5 insn AND 0x1f"

definition adrp_offset :: "u32 \<Rightarrow> i64" where
  "adrp_offset insn =
     (let low = ucast (drop_bit 29 insn AND 3); high = ucast (drop_bit 5 insn AND 0x7ffff);
          pages = signed_drop_bit 43 (push_bit 43 (push_bit 2 high OR low))
      in push_bit 12 pages)"

definition add_immediate :: "u32 \<Rightarrow> u64" where
  "add_immediate insn = ucast (drop_bit 10 insn AND 0xfff)"

section \<open>Load and store classes\<close>

definition is_load_store_class :: "u32 \<Rightarrow> bool" where
  "is_load_store_class insn \<longleftrightarrow> insn AND 0x0a000000 = 0x08000000"

definition is_st1_multiple_opcode :: "u32 \<Rightarrow> bool" where
  "is_st1_multiple_opcode insn \<longleftrightarrow> insn AND 0xf000 \<in> {0x2000, 0x6000, 0x7000, 0xa000}"

definition is_st1_single_opcode :: "u32 \<Rightarrow> bool" where
  "is_st1_single_opcode insn \<longleftrightarrow> insn AND 0x0040e000 \<in> {0, 0x4000, 0x8000}"

definition is_st1_multiple :: "u32 \<Rightarrow> bool" where
  "is_st1_multiple insn \<longleftrightarrow> insn AND 0xbfff0000 = 0x0c000000 \<and> is_st1_multiple_opcode insn"

definition is_st1_multiple_post :: "u32 \<Rightarrow> bool" where
  "is_st1_multiple_post insn \<longleftrightarrow> insn AND 0xbfe00000 = 0x0c800000 \<and> is_st1_multiple_opcode insn"

definition is_st1_single :: "u32 \<Rightarrow> bool" where
  "is_st1_single insn \<longleftrightarrow> insn AND 0xbfff0000 = 0x0d000000 \<and> is_st1_single_opcode insn"

definition is_st1_single_post :: "u32 \<Rightarrow> bool" where
  "is_st1_single_post insn \<longleftrightarrow> insn AND 0xbfe00000 = 0x0d800000 \<and> is_st1_single_opcode insn"

definition is_st1 :: "u32 \<Rightarrow> bool" where
  "is_st1 insn \<longleftrightarrow> is_st1_multiple insn \<or> is_st1_multiple_post insn \<or> is_st1_single insn \<or> is_st1_single_post insn"

definition is_load_store_exclusive :: "u32 \<Rightarrow> bool" where
  "is_load_store_exclusive insn \<longleftrightarrow> insn AND 0x3f000000 = 0x08000000"

definition is_load_exclusive :: "u32 \<Rightarrow> bool" where
  "is_load_exclusive insn \<longleftrightarrow> insn AND 0x3f400000 = 0x08400000"

definition is_load_literal :: "u32 \<Rightarrow> bool" where
  "is_load_literal insn \<longleftrightarrow> insn AND 0x3b000000 = 0x18000000"

definition is_stnp :: "u32 \<Rightarrow> bool" where
  "is_stnp insn \<longleftrightarrow> insn AND 0x3bc00000 = 0x28000000"

definition is_stp_post :: "u32 \<Rightarrow> bool" where
  "is_stp_post insn \<longleftrightarrow> insn AND 0x3bc00000 = 0x28800000"

definition is_stp_offset :: "u32 \<Rightarrow> bool" where
  "is_stp_offset insn \<longleftrightarrow> insn AND 0x3bc00000 = 0x29000000"

definition is_stp_pre :: "u32 \<Rightarrow> bool" where
  "is_stp_pre insn \<longleftrightarrow> insn AND 0x3bc00000 = 0x29800000"

definition is_stp :: "u32 \<Rightarrow> bool" where
  "is_stp insn \<longleftrightarrow> is_stp_post insn \<or> is_stp_offset insn \<or> is_stp_pre insn"

definition is_load_store_unscaled :: "u32 \<Rightarrow> bool" where
  "is_load_store_unscaled insn \<longleftrightarrow> insn AND 0x3b000c00 = 0x38000000"

definition is_load_store_post :: "u32 \<Rightarrow> bool" where
  "is_load_store_post insn \<longleftrightarrow> insn AND 0x3b200c00 = 0x38000400"

definition is_load_store_unprivileged :: "u32 \<Rightarrow> bool" where
  "is_load_store_unprivileged insn \<longleftrightarrow> insn AND 0x3b200c00 = 0x38000800"

definition is_load_store_pre :: "u32 \<Rightarrow> bool" where
  "is_load_store_pre insn \<longleftrightarrow> insn AND 0x3b200c00 = 0x38000c00"

definition is_load_store_register_offset :: "u32 \<Rightarrow> bool" where
  "is_load_store_register_offset insn \<longleftrightarrow> insn AND 0x3b200c00 = 0x38200800"

definition is_single_register_load_store :: "u32 \<Rightarrow> bool" where
  "is_single_register_load_store insn \<longleftrightarrow>
     is_load_store_unscaled insn \<or> is_load_store_post insn \<or> is_load_store_unprivileged insn \<or> is_load_store_pre insn
     \<or> is_load_store_register_offset insn \<or> is_load_store_unsigned insn"

definition is_non_structure_load :: "u32 \<Rightarrow> bool" where
  "is_non_structure_load insn =
     (if is_load_exclusive insn \<or> is_load_literal insn then True
      else if \<not> is_single_register_load_store insn then False
      else let size = drop_bit 30 insn AND 3; vector = drop_bit 26 insn AND 1; opc = drop_bit 22 insn AND 3
           in opc \<noteq> 0 \<and> \<not> (size = 0 \<and> vector = 1 \<and> opc = 2) \<and> \<not> (size = 3 \<and> vector = 0 \<and> opc = 2))"

definition has_writeback :: "u32 \<Rightarrow> bool" where
  "has_writeback insn \<longleftrightarrow>
     is_load_store_pre insn \<or> is_load_store_post insn \<or> is_stp_pre insn \<or> is_stp_post insn
     \<or> is_st1_single_post insn \<or> is_st1_multiple_post insn"

definition load_store_writes :: "u32 \<Rightarrow> u32 \<Rightarrow> bool" where
  "load_store_writes insn register \<longleftrightarrow>
     is_non_structure_load insn \<and> destination_register insn = register
     \<or> has_writeback insn \<and> base_register insn = register"

definition is_branch :: "u32 \<Rightarrow> bool" where
  "is_branch insn \<longleftrightarrow>
     insn AND 0xfe000000 = 0xd6000000 \<or> insn AND 0xfe000000 = 0x54000000
     \<or> insn AND 0x7c000000 = 0x14000000 \<or> insn AND 0x7c000000 = 0x34000000"

section \<open>Erratum 843419\<close>

definition is_843419_sequence :: "u32 \<Rightarrow> u32 \<Rightarrow> u32 \<Rightarrow> bool" where
  "is_843419_sequence first second final =
     (if \<not> is_adrp first then False
      else let register = destination_register first
           in is_load_store_class second
              \<and> (is_load_store_exclusive second \<or> is_load_literal second \<or> is_single_register_load_store second
                 \<or> is_stp second \<or> is_stnp second \<or> is_st1 second)
              \<and> \<not> load_store_writes second register \<and> is_load_store_unsigned final \<and> base_register final = register)"

definition saturating_add_u64 :: "u64 \<Rightarrow> u64 \<Rightarrow> u64" where
  "saturating_add_u64 a b = (if unat a + unat b \<le> u64_max then a + b else - 1)"

text \<open>The sites one candidate gives, and the loop of the scan.\<close>

definition sites_843419 :: "u8 list \<Rightarrow> u64 \<Rightarrow> u64 \<Rightarrow> u32 \<Rightarrow> u32 \<Rightarrow> u32 \<Rightarrow> u64 list" where
  "sites_843419 code left offset first second third =
     (if is_843419_sequence first second third then [saturating_add_u64 offset 8]
      else if 12 < left \<and> \<not> is_branch third then
        (case read_insn code (unat (saturating_add_u64 offset 12)) of None \<Rightarrow> []
         | Some fourth \<Rightarrow> if is_843419_sequence first second fourth then [saturating_add_u64 offset 12] else [])
      else [])"

definition skip_to_page_end :: "u64 \<Rightarrow> u64 \<Rightarrow> u64" where
  "skip_to_page_end address offset =
     (let page_offset = (address + offset) AND 0xfff
      in if page_offset < 0xff8 then saturating_add_u64 offset (0xff8 - page_offset) else offset)"

definition next_candidate :: "u64 \<Rightarrow> u64 \<Rightarrow> u64" where
  "next_candidate address offset =
     (if (address + offset) AND 0xfff = 0xff8 then saturating_add_u64 offset 4 else saturating_add_u64 offset 0xffc)"

lemma unat_u64_le: "unat w \<le> u64_max" for w :: u64
proof -
  have "unat w < 2 ^ LENGTH(64)" by (rule unsigned_less)
  then show ?thesis by simp
qed

lemma unat_saturating_add_u64: "unat (saturating_add_u64 a b) = min (unat a + unat b) u64_max"
proof (cases "unat a + unat b \<le> u64_max")
  case True
  then have "unat (a + b) = unat a + unat b" by (subst unat_add_lem [symmetric]) simp
  with True show ?thesis by (simp add: saturating_add_u64_def)
qed (simp add: saturating_add_u64_def unsigned_minus_1_eq_mask mask_eq_exp_minus_1)

lemma skip_to_page_end_le: "unat offset \<le> unat (skip_to_page_end address offset)"
  using unat_u64_le [of offset] by (auto simp: skip_to_page_end_def Let_def unat_saturating_add_u64)

lemma next_candidate_less: "unat offset < u64_max \<Longrightarrow> unat offset < unat (next_candidate address offset)"
  by (auto simp: next_candidate_def unat_saturating_add_u64)

function scan_843419_from :: "u8 list \<Rightarrow> u64 \<Rightarrow> u64 \<Rightarrow> u64 \<Rightarrow> u64 list" where
  "scan_843419_from code address stop offset =
     (if \<not> offset < stop then []
      else let offset = skip_to_page_end address offset
           in if stop < offset \<or> stop - offset < 12 then []
              else case (read_insn code (unat offset), read_insn code (unat (saturating_add_u64 offset 4)),
                         read_insn code (unat (saturating_add_u64 offset 8))) of
                     (Some first, Some second, Some third) \<Rightarrow>
                       sites_843419 code (stop - offset) offset first second third
                       @ scan_843419_from code address stop (next_candidate address offset)
                   | _ \<Rightarrow> [])"
  by pat_completeness auto
termination
proof (relation "measure (\<lambda>(code, address, stop, offset). unat stop - unat offset)", goal_cases)
  case (2 code address stop offset off)
  let ?o = "skip_to_page_end address offset"
  have "?o \<noteq> stop" "?o \<le> stop" using 2 by (auto simp: not_less)
  then have "unat ?o < unat stop" by (metis le_neq_implies_less word_le_nat_alt word_unat_eq_iff)
  moreover from this have "unat ?o < u64_max" using unat_u64_le [of stop] by linarith
  ultimately show ?case
    using skip_to_page_end_le [of offset address] next_candidate_less [of ?o address] 2 by simp
qed simp

definition scan_843419 :: "u8 list \<Rightarrow> u64 \<Rightarrow> u64 \<Rightarrow> u64 \<Rightarrow> u64 list" where
  "scan_843419 code address start stop = scan_843419_from code address (min stop (of_nat (min (length code) u64_max))) start"

section \<open>Erratum 835769\<close>

definition is_multiply_accumulate :: "u32 \<Rightarrow> bool" where
  "is_multiply_accumulate insn =
     (let op31 = drop_bit 21 insn AND 7
      in insn AND 0xff000000 = 0x9b000000 \<and> op31 \<in> {0, 1, 5} \<and> drop_bit 10 insn AND 0x1f \<noteq> 0x1f)"

record memory_access =
  ma_rt :: u32
  ma_rt2 :: u32
  ma_pair :: bool
  ma_load :: bool

definition memory_access_of :: "u32 \<Rightarrow> memory_access option" where
  "memory_access_of insn =
     (if insn AND 0x0a000000 \<noteq> 0x08000000 then None
      else
        let rt = insn AND 0x1f; rt2_field = drop_bit 10 insn AND 0x1f; load_bit = (drop_bit 22 insn AND 1 = 1) in
        if insn AND 0x3f000000 = 0x08000000 then
          (let pair = (drop_bit 21 insn AND 1 = 1); rt2 = (if pair then rt2_field else rt)
           in Some \<lparr>ma_rt = rt, ma_rt2 = rt2, ma_pair = pair, ma_load = load_bit\<rparr>)
        else if insn AND 0x3b800000 \<in> {0x28000000, 0x28800000, 0x29000000, 0x29800000} then
          Some \<lparr>ma_rt = rt, ma_rt2 = rt2_field, ma_pair = True, ma_load = load_bit\<rparr>
        else if insn AND 0x3b000000 = 0x18000000
            \<or> insn AND 0x3b200c00 \<in> {0x38000000, 0x38000400, 0x38000800, 0x38000c00, 0x38200800}
            \<or> insn AND 0x3b000000 = 0x39000000 then
          (let opc = drop_bit 22 insn AND 3; vector = drop_bit 26 insn AND 1; opc_v = opc OR push_bit 2 vector
           in Some \<lparr>ma_rt = rt, ma_rt2 = rt, ma_pair = False, ma_load = opc_v \<in> {1, 2, 3, 5, 7}\<rparr>)
        else if insn AND 0xbfbf0000 = 0x0c000000 \<or> insn AND 0xbfa00000 = 0x0c800000 then
          (let op = drop_bit 12 insn AND 0xf;
               access = (\<lambda>n. \<lparr>ma_rt = rt, ma_rt2 = rt + n, ma_pair = False, ma_load = load_bit\<rparr>)
           in if op \<in> {0, 2} then Some (access 3) else if op \<in> {4, 6} then Some (access 2)
              else if op = 7 then Some (access 0) else if op \<in> {8, 10} then Some (access 1) else None)
        else if insn AND 0xbf9f0000 = 0x0d000000 \<or> insn AND 0xbf800000 = 0x0d800000 then
          (let r = drop_bit 21 insn AND 1;
               n = (if drop_bit 13 insn AND 7 \<in> {0, 2, 4, 6} then r else if r = 0 then 2 else 3)
           in Some \<lparr>ma_rt = rt, ma_rt2 = rt + n, ma_pair = False, ma_load = load_bit\<rparr>)
        else None)"

definition is_835769_sequence :: "u32 \<Rightarrow> u32 \<Rightarrow> bool" where
  "is_835769_sequence first second =
     (if \<not> is_multiply_accumulate second then False
      else case memory_access_of first of None \<Rightarrow> False
           | Some access \<Rightarrow>
               if drop_bit 26 first AND 1 = 1 then True
               else let rn = drop_bit 5 second AND 0x1f; ra = drop_bit 10 second AND 0x1f; rm = drop_bit 16 second AND 0x1f;
                        uses = (\<lambda>r. r = rn \<or> r = rm \<or> r = ra)
                    in \<not> (ma_load access \<and> (uses (ma_rt access) \<or> ma_pair access \<and> uses (ma_rt2 access))))"

function scan_835769_from :: "u8 list \<Rightarrow> u64 \<Rightarrow> u64 \<Rightarrow> u64 list" where
  "scan_835769_from code stop offset =
     (if \<not> saturating_add_u64 offset 4 < stop then []
      else let following = saturating_add_u64 offset 4
           in (case (read_insn code (unat offset), read_insn code (unat following)) of
                 (Some first, Some second) \<Rightarrow> if is_835769_sequence first second then [following] else []
               | _ \<Rightarrow> [])
              @ scan_835769_from code stop following)"
  by pat_completeness auto
termination
proof (relation "measure (\<lambda>(code, stop, offset). unat stop - unat offset)", goal_cases)
  case (2 code stop offset following)
  then have "min (unat offset + 4) u64_max < unat stop"
    by (simp add: word_less_nat_alt unat_saturating_add_u64)
  then show ?case
    using 2 unat_u64_le [of stop] by (simp add: unat_saturating_add_u64)
qed simp

definition scan_835769 :: "u8 list \<Rightarrow> u64 \<Rightarrow> u64 \<Rightarrow> u64 list" where
  "scan_835769 code start stop = scan_835769_from code (min stop (of_nat (min (length code) u64_max))) start"

section \<open>Patches and thunks\<close>

definition erratum_patch :: "u64 \<Rightarrow> u64 \<Rightarrow> u32 \<Rightarrow> (u32 list, overflow_error) result" where
  "erratum_patch patch site moved =
     bind_result (a64_encode Branch26 a64_B ((site + 4) - (patch + 4))) (\<lambda>back. Ok [moved, back])"

definition erratum_branch :: "u64 \<Rightarrow> u64 \<Rightarrow> (u32, overflow_error) result" where
  "erratum_branch site patch = a64_encode Branch26 a64_B (patch - site)"

definition thunk :: "u64 \<Rightarrow> u64 \<Rightarrow> (u32 list, overflow_error) result" where
  "thunk at target =
     bind_result (a64_encode Adrp21 (adrp 16) (a64_page target - a64_page at)) (\<lambda>first.
       bind_result (a64_encode Add12 (add_imm 16 16) target) (\<lambda>second. Ok [first, second, BR_X16]))"

text \<open>The loop of \<open>write_thunk\<close>, from word \<open>index\<close> on; the words before a failure stay written.\<close>

fun write_words :: "u8 list \<Rightarrow> usize \<Rightarrow> usize \<Rightarrow> u32 list \<Rightarrow> u8 list \<times> (unit, overflow_error) result" where
  "write_words out at index [] = (out, Ok ())"
| "write_words out at index (w # ws) =
     (case checked_add_usize (index * 4) at of None \<Rightarrow> (out, Err FieldOverflow)
      | Some offset \<Rightarrow>
          (case write_insn out offset w of None \<Rightarrow> (out, Err FieldOverflow)
           | Some out \<Rightarrow> write_words out at (index + 1) ws))"

definition write_thunk :: "u8 list \<Rightarrow> u64 \<Rightarrow> u64 \<Rightarrow> u64 \<Rightarrow> u8 list \<times> (unit, overflow_error) result" where
  "write_thunk out at address target =
     (case thunk address target of Err e \<Rightarrow> (out, Err e) | Ok words \<Rightarrow> write_words out (unat at) 0 words)"

end
