(* ===== verification/Aarch64Correct.thy ===== *)
theory Aarch64Correct
  imports Aarch64
begin

text \<open>
  The AArch64 fields against the instruction formats, the target a thunk and an erratum patch reach, and the
  sites the erratum scans find.
\<close>

section \<open>Formats\<close>

text \<open>Layout, width in bits of the value, log2 of its alignment, and whether it is signed.\<close>

fun a64_shape :: "a64_field \<Rightarrow> (layout \<times> nat \<times> nat \<times> bool) option" where
  "a64_shape Branch26 = Some ([(0, 2, 26)], 28, 2, True)"
| "a64_shape Branch19 = Some ([(5, 2, 19)], 21, 2, True)"
| "a64_shape Branch14 = Some ([(5, 2, 14)], 16, 2, True)"
| "a64_shape Adr21 = Some ([(5, 2, 19), (29, 0, 2)], 21, 0, True)"
| "a64_shape Adrp21 = Some ([(5, 14, 19), (29, 12, 2)], 33, 12, True)"
| "a64_shape Add12Checked = Some ([(10, 0, 12)], 12, 0, False)"
| "a64_shape LdSt15 = Some ([(10, 3, 12)], 15, 3, False)"
| "a64_shape f = None"

definition in_range :: "bool \<Rightarrow> int \<Rightarrow> nat \<Rightarrow> bool" where
  "in_range sg v w = (if sg then in_signed v w else in_unsigned v w)"

definition decode_imm :: "bool \<Rightarrow> layout \<Rightarrow> nat \<Rightarrow> u32 \<Rightarrow> int" where
  "decode_imm sg fs w insn = (if sg then decode_signed fs w insn else decode_unsigned fs insn)"

lemmas a64_bits = bit_insert_field bit_sar bit_scatter bit_signed_drop_bit_iff bit_unsigned_iff bit_and_iff

lemma a64_insert:
  "insert_field insn (ucast (signed_drop_bit 2 v)) 0 26 = scatter [(0, 2, 26)] insn v"
  "insert_field insn (ucast (signed_drop_bit 2 v)) 5 19 = scatter [(5, 2, 19)] insn v"
  "insert_field insn (ucast (signed_drop_bit 2 v)) 5 14 = scatter [(5, 2, 14)] insn v"
  "insert_field insn (ucast v) 10 12 = scatter [(10, 0, 12)] insn v"
  "insert_field insn (ucast v AND 0xfff) 10 12 = scatter [(10, 0, 12)] insn v"
  "insert_field insn (ucast (signed_drop_bit 3 v)) 10 12 = scatter [(10, 3, 12)] insn v"
  for v :: i64
  by (rule word_eq_upto; simp add: upt_conv_Cons a64_bits)+

lemma a64_insert_adr:
  "insert_field (insert_field insn (ucast (signed_drop_bit 2 v)) 5 19) (ucast v AND 3) 29 2 =
     scatter [(5, 2, 19), (29, 0, 2)] insn v"
  "insert_field (insert_field insn (ucast (signed_drop_bit 2 (signed_drop_bit 12 v))) 5 19)
       (ucast (signed_drop_bit 12 v) AND 3) 29 2 = scatter [(5, 14, 19), (29, 12, 2)] insn v"
  for v :: i64
  by (rule word_eq_upto; simp add: upt_conv_Cons a64_bits)+

lemma a64_rescale:
  "scatter [(5, 2, 19), (29, 0, 2)] insn (signed_drop_bit 12 v) = (scatter [(5, 14, 19), (29, 12, 2)] insn v :: u32)"
  "scatter [(10, 0, 12)] insn (signed_drop_bit 3 v) = (scatter [(10, 3, 12)] insn v :: u32)"
  for v :: i64
  by (rule word_eq_upto; simp add: upt_conv_Cons a64_bits)+

lemma page_mask: "v AND PAGE_MASK = 0 \<longleftrightarrow> 2 ^ 12 dvd sint v"
  using low_bits_zero(1) [of 12 v] by (simp add: PAGE_MASK_def a64_PAGE_def mask_eq_exp_minus_1)

lemma a64_encode_scatter:
  assumes "a64_shape f = Some (fs, w, a, sg)"
  shows "a64_encode f insn v = (if in_range sg (sint v) w \<and> 2 ^ a dvd sint v then Ok (scatter fs insn v) else Err FieldOverflow)"
  using assms
  by (cases f) (auto simp: a64_encode_def in_range_def and_mask_cases fits_signed_iff fits_unsigned_iff page_mask Let_def
      a64_insert a64_insert_adr [unfolded a64_insert] a64_rescale)

lemma a64_shape_field:
  assumes "a64_shape f = Some (fs, w, a, sg)"
  shows "insn_field fs (scatter fs :: u32 \<Rightarrow> u64 \<Rightarrow> u32)" "0 < w" "w < 64" "a \<le> 64"
    "\<forall>k\<in>set [0..<w]. target_bit fs k = None \<longrightarrow> k < a" "\<not> sg \<Longrightarrow> \<forall>k\<in>set [w..<64]. target_bit fs k = None"
proof -
  show "insn_field fs (scatter fs :: u32 \<Rightarrow> u64 \<Rightarrow> u32)"
    using assms by (intro insn_field_scatter; cases f; force simp: layout_ok_def layout_pairs_def upt_conv_Cons)
  show "0 < w" "w < 64" "a \<le> 64" using assms by (cases f; force)+
  show "\<forall>k\<in>set [0..<w]. target_bit fs k = None \<longrightarrow> k < a" using assms by (cases f) (auto simp: upt_conv_Cons)
  show "\<forall>k\<in>set [w..<64]. target_bit fs k = None" if "\<not> sg" using assms that by (cases f) (auto simp: upt_conv_Cons)
qed

lemma a64_scatter_decodes:
  fixes v :: i64
  assumes f: "a64_shape f = Some (fs, w, a, sg)" and r: "in_range sg (sint v) w" and al: "2 ^ a dvd sint v"
  shows "decode_imm sg fs w (scatter fs insn v) = sint v"
proof -
  note shape = a64_shape_field [OF f]
  have "\<forall>k<a. \<not> bit v k" using al low_bits_zero(2) [OF shape(4), of v] by simp
  with shape(5) have low: "\<forall>k\<in>set [0..<w]. target_bit fs k = None \<longrightarrow> \<not> bit v k" by blast
  show ?thesis
    using r insn_field.decodes_signed [OF shape(1) _ shape(2) _ low] insn_field.decodes_unsigned [OF shape(1) _ shape(3) low shape(6)]
      shape(3) by (auto simp: decode_imm_def in_range_def)
qed

text \<open>
  C38. An AArch64 branch, \<open>adr\<close>, \<open>adrp\<close>, checked \<open>add\<close> or GOT load field is an overflow exactly when the value is
  out of range or misaligned; otherwise the instruction decodes, by the format of the manual, to the value and
  keeps every bit outside the immediate.
\<close>

theorem a64_encode_decodes:
  "a64_shape f = Some (fs, w, a, sg) \<Longrightarrow>
   (case a64_encode f insn value of
      Err e \<Rightarrow> \<not> (in_range sg (sint value) w \<and> 2 ^ a dvd sint value)
    | Ok insn' \<Rightarrow> in_range sg (sint value) w \<and> 2 ^ a dvd sint value \<and> decode_imm sg fs w insn' = sint value \<and>
        (\<forall>n. source_bit fs n = None \<longrightarrow> bit insn' n = bit insn n))"
  unfolding a64_encode_scatter using a64_scatter_decodes insn_field.keeps [OF a64_shape_field(1)] by simp

theorem a64_encode_decodes_witness:
  "\<exists>insn'. a64_encode Branch26 0x94000000 (- 4) = Ok insn' \<and> decode_imm True [(0, 2, 26)] 28 insn' = - 4"
proof -
  have s: "sint (- 4 :: i64) = - 4" by simp
  have "a64_encode Branch26 0x94000000 (- 4) = Ok (scatter [(0, 2, 26)] 0x94000000 (- 4 :: i64))"
    by (subst a64_encode_scatter [of Branch26 "[(0, 2, 26)]" 28 2 True]) (simp_all add: in_range_def in_signed_def)
  with a64_encode_decodes [of Branch26 "[(0, 2, 26)]" 28 2 True "- 4" "0x94000000"] s show ?thesis by simp
qed

lemma ldst_insert:
  "n \<le> 4 \<Longrightarrow> insert_field insn (ucast (drop_bit n (v AND 0xfff))) 10 12 = scatter [(10, n, 12)] insn (take_bit 12 v)"
  for v :: i64
proof -
  have m: "v AND 0xfff = take_bit 12 v" by (simp add: take_bit_eq_mask mask_eq_exp_minus_1)
  show "n \<le> 4 \<Longrightarrow> insert_field insn (ucast (drop_bit n (v AND 0xfff))) 10 12 = scatter [(10, n, 12)] insn (take_bit 12 v)"
    unfolding m by (rule bit_word_eqI) (auto simp: bit_insert_field bit_scatter bit_unsigned_iff bit_drop_bit_eq)
qed

lemma ldst_decodes:
  fixes v :: i64
  assumes n: "n \<le> 4" and al: "2 ^ n dvd sint v"
  shows "decode_unsigned [(10, n, 12)] (scatter [(10, n, 12)] insn (take_bit 12 v) :: u32) = sint v mod 2 ^ 12"
proof -
  have "n \<in> {0, 1, 2, 3, 4}" using n by auto
  then have field: "insn_field [(10, n, 12)] (scatter [(10, n, 12)] :: u32 \<Rightarrow> u64 \<Rightarrow> u32)"
    by (intro insn_field_scatter) (auto simp: layout_ok_def layout_pairs_def upt_conv_Cons)
  have low: "\<forall>k<n. \<not> bit v k" using al low_bits_zero(2) [of n v] n by simp
  have "gather [(10, n, 12)] (scatter [(10, n, 12)] insn (take_bit 12 v) :: u32) = take_bit 12 v"
    using low n by (intro bit_word_eqI) (auto simp: insn_field.decodes_bit [OF field] bit_take_bit_iff not_less)
  then have "decode_unsigned [(10, n, 12)] (scatter [(10, n, 12)] insn (take_bit 12 v) :: u32) = take_bit 12 (sint v)"
    using take_bit_sint [of 12 v] by (simp add: decode_unsigned_def unsigned_take_bit_eq)
  then show ?thesis by (simp only: take_bit_eq_mod)
qed

text \<open>
  C40. A scaled load or store field is an overflow exactly when the value is misaligned or, when checked, does not
  fit 12 bits plus the scale; what it writes decodes to the low 12 bits of the value, also where the check accepted
  more of it.
\<close>

theorem a64_ldst_low_bits:
  "unat s \<le> 4 \<Longrightarrow>
   (case a64_encode (LdSt s checked) insn value of
      Err e \<Rightarrow> \<not> (2 ^ unat s dvd sint value \<and> (checked \<longrightarrow> in_unsigned (sint value) (unat s + 12)))
    | Ok insn' \<Rightarrow> 2 ^ unat s dvd sint value \<and> (checked \<longrightarrow> in_unsigned (sint value) (unat s + 12)) \<and>
        decode_unsigned [(10, unat s, 12)] insn' = sint value mod 2 ^ 12)"
proof -
  assume s: "unat s \<le> 4"
  have "value AND ((case checked_shl (1 :: i64) (unat s) of None \<Rightarrow> 1 | Some a \<Rightarrow> a) - 1) = value AND mask (unat s)"
    using s by (simp add: checked_shl_def mask_eq_exp_minus_1)
  then show ?thesis
    using s low_bits_zero(1) [of "unat s" "value"] ldst_decodes [OF s, of "value" insn]
    by (simp add: a64_encode_def encode_ldst_def Let_def ldst_insert fits_unsigned_iff del: drop_bit_and)
qed

theorem a64_ldst_low_bits_witness:
  "\<exists>insn'. a64_encode (LdSt 3 True) 0xf9400000 0x1008 = Ok insn' \<and> decode_unsigned [(10, 3, 12)] insn' = 8"
proof -
  have s: "sint (0x1008 :: i64) = 0x1008" "unat (3 :: u8) = 3" by simp_all
  show ?thesis
    using a64_ldst_low_bits [of 3 "0x1008" True "0xf9400000"] s
    by (cases "a64_encode (LdSt 3 True) 0xf9400000 0x1008") (simp_all add: in_unsigned_def)
qed

section \<open>Thunks and erratum patches\<close>

lemma sign_bits: "in_signed (sint v) (Suc n) \<Longrightarrow> n \<le> k \<Longrightarrow> k < 64 \<Longrightarrow> bit v k = bit v n" for v :: i64
proof -
  assume r: "in_signed (sint v) (Suc n)" and k: "n \<le> k" "k < 64"
  have "sint v = signed_take_bit n (sint v)" using in_signed_take [OF r] by simp
  then have "bit (sint v) k = bit (signed_take_bit n (sint v)) k" by (rule arg_cong)
  also have "\<dots> = bit (sint v) n" using k by (simp add: bit_signed_take_bit_iff min_def)
  finally show ?thesis using k by (simp add: bit_sint_iff)
qed

lemma and_low_masks:
  "x AND 3 = take_bit 2 x" "x AND 0x7ffff = take_bit 19 x" "x AND 0xfff = take_bit 12 x" for x :: u32
  by (simp_all add: take_bit_eq_mask mask_eq_exp_minus_1)

lemma bit_adrp_offset:
  "bit (adrp_offset insn) n \<longleftrightarrow> 12 \<le> n \<and> n < 64 \<and>
     (let j = min (n - 12) 20 in if j < 2 then bit insn (29 + j) else bit insn (3 + j))"
proof -
  define x :: i64 where "x = push_bit 2 (ucast (take_bit 19 (drop_bit 5 insn))) OR ucast (take_bit 2 (drop_bit 29 insn))"
  have x: "bit x j \<longleftrightarrow> (if j < 2 then bit insn (29 + j) else bit insn (3 + j))" if "j < 21" for j
    using that by (auto simp: x_def bit_blast)
  have "bit (signed_drop_bit 43 (push_bit 43 x)) j \<longleftrightarrow> bit x (min j 20)" if "j < 52" for j
    using that by (auto simp: bit_signed_drop_bit_iff bit_push_bit_iff min_def)
  moreover have "adrp_offset insn = push_bit 12 (signed_drop_bit 43 (push_bit 43 x))"
    by (simp add: adrp_offset_def Let_def and_low_masks x_def del: push_bit_or)
  ultimately have off: "bit (adrp_offset insn) n \<longleftrightarrow> 12 \<le> n \<and> n < 64 \<and> bit x (min (n - 12) 20)"
    by (auto simp: bit_push_bit_iff)
  have "bit x (min (n - 12) 20) = (let j = min (n - 12) 20 in if j < 2 then bit insn (29 + j) else bit insn (3 + j))"
    unfolding Let_def by (rule x) simp
  with off show ?thesis by (simp only:)
qed

lemma adrp_offset_decodes:
  assumes r: "in_signed (sint v) 33" and al: "2 ^ 12 dvd sint v"
  shows "adrp_offset (scatter [(5, 14, 19), (29, 12, 2)] insn v) = v"
proof (rule bit_word_eqI)
  fix n assume n: "n < LENGTH(64)"
  have low: "n < 12 \<Longrightarrow> \<not> bit v n" using al low_bits_zero(2) [of 12 v] by simp
  have sign: "32 \<le> n \<Longrightarrow> bit v n = bit v 32" using sign_bits [of v 32 n] r n by simp
  show "bit (adrp_offset (scatter [(5, 14, 19), (29, 12, 2)] insn v)) n = bit v n"
    using low sign n by (cases "n < 12"; cases "n < 14"; cases "n < 32") (auto simp: bit_adrp_offset bit_scatter Let_def)
qed

lemma add_immediate_decodes: "add_immediate (scatter [(10, 0, 12)] insn v) = take_bit 12 v" for v :: i64
  by (rule bit_word_eqI) (auto simp: add_immediate_def and_low_masks bit_blast bit_scatter)

lemma a64_page_mask: "a64_page a = a AND NOT (mask 12)"
  by (simp add: a64_page_def a64_PAGE_def mask_eq_exp_minus_1)

lemma a64_page_split: "a64_page a + take_bit 12 a = a"
proof -
  have "a64_page a = push_bit 12 (drop_bit 12 a)"
    by (rule bit_word_eqI) (auto simp: a64_page_mask bit_and_iff bit_not_iff bit_mask_iff bit_push_bit_iff bit_drop_bit_eq)
  then show ?thesis by (simp add: bits_ident)
qed

lemma a64_page_aligned: "2 ^ 12 dvd sint (a64_page a)"
  by (subst low_bits_zero(2)) (auto simp: a64_page_mask bit_and_iff bit_not_iff bit_mask_iff)

lemma thunk_eq:
  "thunk at target =
     (let d = a64_page target - a64_page at
      in if in_signed (sint d) 33
         then Ok [scatter [(5, 14, 19), (29, 12, 2)] (adrp 16) d, scatter [(10, 0, 12)] (add_imm 16 16) target, BR_X16]
         else Err FieldOverflow)"
proof -
  have "2 ^ 12 dvd sint (a64_page target - a64_page at)" by (intro dvd_sint_add a64_page_aligned) simp
  then have "a64_encode Adrp21 i (a64_page target - a64_page at) =
      (if in_signed (sint (a64_page target - a64_page at)) 33
       then Ok (scatter [(5, 14, 19), (29, 12, 2)] i (a64_page target - a64_page at)) else Err FieldOverflow)" for i
    by (subst a64_encode_scatter [of Adrp21 "[(5, 14, 19), (29, 12, 2)]" 33 12 True]) (simp_all add: in_range_def)
  moreover have "a64_encode Add12 i target = Ok (scatter [(10, 0, 12)] i target)" for i
    by (simp add: a64_encode_def a64_insert)
  ultimately show ?thesis by (simp add: thunk_def Let_def)
qed

text \<open>
  C36. A range-extension thunk reaches its target: it is refused exactly when the pages are more than 4 GiB apart,
  and otherwise it is \<open>adrp x16\<close>, \<open>add x16, x16\<close>, \<open>br x16\<close>, where the page offset of the first and the immediate of
  the second, as the linker's own decoders read them, add up to the target.
\<close>

theorem thunk_reaches:
  "case thunk at target of
     Err e \<Rightarrow> \<not> in_signed (sint (a64_page target - a64_page at)) 33
   | Ok ws \<Rightarrow> in_signed (sint (a64_page target - a64_page at)) 33 \<and>
       (\<exists>w1 w2. ws = [w1, w2, a64_br 16] \<and> is_adrp w1 \<and> destination_register w1 = 16 \<and>
          is_add_imm64 w2 \<and> destination_register w2 = 16 \<and> base_register w2 = 16 \<and>
          a64_page at + adrp_offset w1 + add_immediate w2 = target)"
proof -
  let ?d = "a64_page target - a64_page at"
  let ?w1 = "scatter [(5, 14, 19), (29, 12, 2)] (adrp 16) ?d" and ?w2 = "scatter [(10, 0, 12)] (add_imm 16 16) target :: u32"
  have "is_adrp ?w1" "destination_register ?w1 = 16"
    unfolding is_adrp_def destination_register_def adrp_def
    by (rule word_eq_upto; simp add: upt_conv_Cons bit_blast bit_scatter)+
  moreover have "is_add_imm64 ?w2" "destination_register ?w2 = 16" "base_register ?w2 = 16"
    unfolding is_add_imm64_def destination_register_def base_register_def add_imm_def
    by (rule word_eq_upto; simp add: upt_conv_Cons bit_blast bit_scatter)+
  moreover have "BR_X16 = a64_br 16" by (simp add: BR_X16_def a64_br_def)
  moreover have "2 ^ 12 dvd sint ?d" by (intro dvd_sint_add a64_page_aligned) simp
  then have "in_signed (sint ?d) 33 \<Longrightarrow> a64_page at + adrp_offset ?w1 + add_immediate ?w2 = target"
    using adrp_offset_decodes [of ?d "adrp 16"] a64_page_split [of target] by (simp add: add_immediate_decodes)
  ultimately show ?thesis unfolding thunk_eq Let_def by auto
qed

text \<open>
  C39. An erratum patch breaks the sequence and comes back: the branch that replaces the affected instruction
  leads to the patch and is neither the last instruction of an 843419 sequence nor a multiply-accumulate of an
  835769 sequence, and the patch is the moved instruction and a branch to the instruction after the site.
\<close>

theorem erratum_patch_returns:
  "erratum_branch site patch = Ok b \<Longrightarrow> erratum_patch patch site moved = Ok ws \<Longrightarrow>
   site + word_of_int (decode_signed [(0, 2, 26)] 28 b) = patch \<and>
   \<not> is_843419_sequence first second b \<and> \<not> is_835769_sequence first b \<and>
   (\<exists>back. ws = [moved, back] \<and> patch + 4 + word_of_int (decode_signed [(0, 2, 26)] 28 back) = site + 4)"
proof -
  assume b: "erratum_branch site patch = Ok b" and p: "erratum_patch patch site moved = Ok ws"
  let ?fs = "[(0, 2, 26)] :: layout"
  have enc: "a64_encode Branch26 a64_B v = Ok i \<Longrightarrow> i = scatter ?fs a64_B v \<and> word_of_int (decode_signed ?fs 28 i) = v" for v i
    using a64_encode_scatter [of Branch26 ?fs 28 2 True a64_B v] a64_scatter_decodes [of Branch26 ?fs 28 2 True v a64_B]
    by (auto simp: decode_imm_def split: if_splits)
  have eq: "b = scatter ?fs a64_B (patch - site)" and reach: "word_of_int (decode_signed ?fs 28 b) = patch - site"
    using enc b by (auto simp: erratum_branch_def)
  have "\<not> bit b 27" unfolding eq by (simp add: bit_scatter a64_B_def)
  moreover have "bit (0x39000000 :: u32) 27" "bit (0x9b000000 :: u32) 27" by simp_all
  ultimately have "b AND 0x3b000000 \<noteq> 0x39000000" "b AND 0xff000000 \<noteq> 0x9b000000" by (metis bit_and_iff)+
  then have "\<not> is_843419_sequence first second b" "\<not> is_835769_sequence first b"
    by (auto simp: is_843419_sequence_def is_load_store_unsigned_def is_835769_sequence_def is_multiply_accumulate_def Let_def)
  moreover obtain ret where "ws = [moved, ret]" "a64_encode Branch26 a64_B (site + 4 - (patch + 4)) = Ok ret"
    using p by (auto simp: erratum_patch_def)
  ultimately show ?thesis using reach enc by (auto simp: algebra_simps)
qed

theorem erratum_patch_returns_witness:
  "\<exists>b ws. erratum_branch 0x1000 0x2000 = Ok b \<and> erratum_patch 0x2000 0x1000 0xf9400000 = Ok ws \<and>
     0x1000 + word_of_int (decode_signed [(0, 2, 26)] 28 b) = (0x2000 :: u64)"
proof -
  have s: "sint (0x1000 :: i64) = 0x1000" "sint (- 0x1000 :: i64) = - 0x1000" by simp_all
  have b: "erratum_branch 0x1000 0x2000 = Ok (scatter [(0, 2, 26)] a64_B (0x1000 :: i64))"
    using a64_encode_scatter [of Branch26 "[(0, 2, 26)]" 28 2 True a64_B "0x1000"] s
    by (simp add: erratum_branch_def in_range_def in_signed_def)
  have w: "erratum_patch 0x2000 0x1000 0xf9400000 = Ok [0xf9400000, scatter [(0, 2, 26)] a64_B (- 0x1000 :: i64)]"
    using a64_encode_scatter [of Branch26 "[(0, 2, 26)]" 28 2 True a64_B "- 0x1000"] s
    by (simp add: erratum_patch_def in_range_def in_signed_def)
  show ?thesis using erratum_patch_returns [OF b w] b w by auto
qed

section \<open>The sites of erratum 843419\<close>

text \<open>The candidates: an instruction at page offset \<open>0xff8\<close> or \<open>0xffc\<close> with the affected instruction two or three
  words after it, all of it before \<open>stop\<close>.\<close>

definition affected_843419 :: "u8 list \<Rightarrow> u64 \<Rightarrow> nat \<Rightarrow> nat \<Rightarrow> nat \<Rightarrow> bool" where
  "affected_843419 code address stop p site \<longleftrightarrow>
     (unat address + p) mod 4096 \<in> {0xff8, 0xffc} \<and> p + 12 \<le> stop \<and>
     (\<exists>first second third. read_insn code p = Some first \<and> read_insn code (p + 4) = Some second \<and>
        read_insn code (p + 8) = Some third \<and>
        (site = p + 8 \<and> is_843419_sequence first second third \<or>
         site = p + 12 \<and> \<not> is_843419_sequence first second third \<and> p + 12 < stop \<and> \<not> is_branch third \<and>
         (\<exists>fourth. read_insn code (p + 12) = Some fourth \<and> is_843419_sequence first second fourth)))"

lemma read_insn_Some: "(\<exists>w. read_insn code p = Some w) \<longleftrightarrow> p + 4 \<le> length code"
  by (auto simp: read_insn_def chunk_at_def)

lemma mod_shift:
  fixes a d m :: nat
  shows "a mod m + d < m \<Longrightarrow> (a + d) mod m = a mod m + d"
    and "m \<le> a mod m + d \<Longrightarrow> a mod m + d < 2 * m \<Longrightarrow> (a + d) mod m = a mod m + d - m"
proof -
  have eq: "(a + d) mod m = (a mod m + d) mod m" by (simp add: mod_add_left_eq)
  show "a mod m + d < m \<Longrightarrow> (a + d) mod m = a mod m + d" unfolding eq by simp
  show "m \<le> a mod m + d \<Longrightarrow> a mod m + d < 2 * m \<Longrightarrow> (a + d) mod m = a mod m + d - m"
    unfolding eq by (simp add: le_mod_geq)
qed

lemma page_offset_nat:
  fixes address offset :: u64
  assumes "unat address + unat offset \<le> u64_max"
  shows "unat ((address + offset) AND 0xfff) = (unat address + unat offset) mod 4096"
proof -
  have "(address + offset) AND 0xfff = take_bit 12 (address + offset)" by (simp add: take_bit_eq_mask mask_eq_exp_minus_1)
  moreover have "unat (address + offset) = unat address + unat offset"
    using assms by (subst unat_add_lem [symmetric]) simp
  ultimately show ?thesis by (simp add: unat_mod take_bit_eq_mod)
qed

lemma skip_nat:
  assumes "unat address + unat offset + 4096 \<le> u64_max"
  shows "unat (skip_to_page_end address offset) =
    (let r = (unat address + unat offset) mod 4096 in if r < 0xff8 then unat offset + (0xff8 - r) else unat offset)"
proof -
  let ?po = "(address + offset) AND 0xfff"
  have po: "unat ?po = (unat address + unat offset) mod 4096" by (rule page_offset_nat) (use assms in simp)
  have lt: "?po < 0xff8 \<longleftrightarrow> unat ?po < 0xff8" by (simp add: word_less_nat_alt)
  have "?po < 0xff8 \<Longrightarrow> unat (0xff8 - ?po) = 0xff8 - unat ?po"
    by (subst unat_sub) (simp_all add: word_le_nat_alt word_less_nat_alt)
  then show ?thesis
    using assms unfolding skip_to_page_end_def Let_def lt po [symmetric] by (auto simp: unat_saturating_add_u64 lt)
qed

lemma next_nat:
  assumes "unat address + unat offset + 4096 \<le> u64_max"
  shows "unat (next_candidate address offset) =
    (if (unat address + unat offset) mod 4096 = 0xff8 then unat offset + 4 else unat offset + 0xffc)"
proof -
  let ?po = "(address + offset) AND 0xfff"
  have po: "unat ?po = (unat address + unat offset) mod 4096" by (rule page_offset_nat) (use assms in simp)
  have "?po = 0xff8 \<longleftrightarrow> unat ?po = 0xff8" by (simp add: word_unat_eq_iff)
  then show ?thesis using assms unfolding next_candidate_def po [symmetric] by (simp add: unat_saturating_add_u64)
qed

lemma no_candidate_skipped:
  assumes "A mod 4096 < 0xff8" "d < 0xff8 - A mod 4096"
  shows "(A + d) mod 4096 \<notin> {0xff8, 0xffc :: nat}"
  using assms mod_shift(1) [of A 4096 d] by auto

lemma no_candidate_after:
  assumes "A mod 4096 \<in> {0xff8, 0xffc :: nat}" "0 < d" "d < (if A mod 4096 = 0xff8 then 4 else 0xffc)"
  shows "(A + d) mod 4096 \<notin> {0xff8, 0xffc}"
proof (cases "A mod 4096 + d < 4096")
  case True
  with assms mod_shift(1) [of A 4096 d] show ?thesis by (auto split: if_splits)
next
  case False
  with assms mod_shift(2) [of 4096 A d] show ?thesis by (auto split: if_splits)
qed

lemma candidate_at_skip:
  assumes "4 dvd A" and r: "r = A mod 4096"
  shows "(A + (if r < 0xff8 then 0xff8 - r else 0)) mod 4096 \<in> {0xff8, 0xffc :: nat}"
proof -
  have "4 dvd r" using assms by (simp add: dvd_mod)
  moreover have "r < 4096" using r by simp
  ultimately have "r < 0xff8 \<or> r = 0xff8 \<or> r = 0xffc" by presburger
  then show ?thesis using mod_shift(1) [of A 4096 "0xff8 - r"] r by auto
qed

lemma room_left: "\<not> (stop < q \<or> stop - q < 12) \<longleftrightarrow> unat q + 12 \<le> unat stop" for stop q :: u64
proof (cases "stop < q")
  case False
  then have "q \<le> stop" by simp
  then have "unat (stop - q) = unat stop - unat q" "unat q \<le> unat stop" by (simp_all add: unat_sub word_le_nat_alt)
  with False show ?thesis by (auto simp: word_less_nat_alt)
qed (auto simp: word_less_nat_alt)

lemma sites_affected:
  assumes "unat q + 12 \<le> unat stop" "unat q + 4096 \<le> u64_max"
    and r: "read_insn code (unat q) = Some first" "read_insn code (unat q + 4) = Some second" "read_insn code (unat q + 8) = Some third"
    and page: "(unat address + unat q) mod 4096 \<in> {0xff8, 0xffc}"
  shows "unat ` set (sites_843419 code (stop - q) q first second third) = {site. affected_843419 code address (unat stop) (unat q) site}"
proof -
  have "unat (stop - q) = unat stop - unat q" using assms(1) by (intro unat_sub) (simp add: word_le_nat_alt)
  then have left: "12 < stop - q \<longleftrightarrow> unat q + 12 < unat stop" by (auto simp: word_less_nat_alt)
  have add: "unat (saturating_add_u64 q 8) = unat q + 8" "unat (saturating_add_u64 q 12) = unat q + 12"
    using assms(2) by (simp_all add: unat_saturating_add_u64)
  have aff: "affected_843419 code address (unat stop) (unat q) site \<longleftrightarrow>
      (if is_843419_sequence first second third then site = unat q + 8
       else site = unat q + 12 \<and> unat q + 12 < unat stop \<and> \<not> is_branch third \<and>
         (\<exists>fourth. read_insn code (unat q + 12) = Some fourth \<and> is_843419_sequence first second fourth))" for site
    unfolding affected_843419_def using page assms(1) r by simp
  have "{site. affected_843419 code address (unat stop) (unat q) site} =
      (if is_843419_sequence first second third then {unat q + 8}
       else if unat q + 12 < unat stop \<and> \<not> is_branch third \<and>
         (\<exists>fourth. read_insn code (unat q + 12) = Some fourth \<and> is_843419_sequence first second fourth)
       then {unat q + 12} else {})"
    unfolding aff by (simp only: if_split_mem1 Collect_conv_if split: if_split) blast
  also have "\<dots> = unat ` set (sites_843419 code (stop - q) q first second third)"
    unfolding sites_843419_def left add
    by (cases "is_843419_sequence first second third"; cases "unat q + 12 < unat stop \<and> \<not> is_branch third";
        cases "read_insn code (unat q + 12)"; cases "is_843419_sequence first second (the (read_insn code (unat q + 12)))";
        simp only: add if_True if_False simp_thms option.simps option.sel list.set image_insert image_empty ex_simps)
  finally show ?thesis ..
qed

lemma scan_843419_step:
  assumes "offset < stop" "unat (skip_to_page_end address offset) + 12 \<le> unat stop" "unat stop \<le> length code"
    "unat (skip_to_page_end address offset) + 4096 \<le> u64_max"
  defines "q \<equiv> skip_to_page_end address offset"
  shows "\<exists>first second third. read_insn code (unat q) = Some first \<and> read_insn code (unat q + 4) = Some second \<and>
    read_insn code (unat q + 8) = Some third \<and>
    scan_843419_from code address stop offset = sites_843419 code (stop - q) q first second third
      @ scan_843419_from code address stop (next_candidate address q)"
proof -
  have "unat q + 12 \<le> length code" using assms by simp
  then obtain first second third where r: "read_insn code (unat q) = Some first" "read_insn code (unat q + 4) = Some second"
    "read_insn code (unat q + 8) = Some third"
    using read_insn_Some [of code "unat q"] read_insn_Some [of code "unat q + 4"] read_insn_Some [of code "unat q + 8"] by auto
  have add: "unat (saturating_add_u64 q 4) = unat q + 4" "unat (saturating_add_u64 q 8) = unat q + 8"
    using assms(4) by (simp_all add: unat_saturating_add_u64 q_def)
  have "\<not> (stop < q \<or> stop - q < 12)" using assms(2) by (simp only: room_left q_def)
  then have "scan_843419_from code address stop offset = sites_843419 code (stop - q) q first second third
      @ scan_843419_from code address stop (next_candidate address q)"
    using assms(1) r add by (subst scan_843419_from.simps) (simp add: q_def Let_def)
  with r show ?thesis by blast
qed

lemma scan_843419_from_sites:
  assumes room: "unat address + length code + 4096 \<le> u64_max" "unat stop \<le> length code"
  shows "4 dvd unat address + unat offset \<Longrightarrow> unat ` set (scan_843419_from code address stop offset) =
     {site. \<exists>p\<ge>unat offset. affected_843419 code address (unat stop) p site}"
proof (induction "unat stop - unat offset" arbitrary: offset rule: less_induct)
  case less
  let ?aff = "affected_843419 code address (unat stop)"
  show ?case
  proof (cases "offset < stop")
    case False
    then have "unat stop \<le> unat offset" by (simp add: word_less_nat_alt)
    then have "\<not> ?aff p site" if "unat offset \<le> p" for p site
      using that by (auto simp: affected_843419_def)
    with False show ?thesis by (subst scan_843419_from.simps) auto
  next
    case True
    let ?A = "unat address + unat offset" and ?q = "skip_to_page_end address offset"
    have lt: "unat offset < unat stop" using True by (simp add: word_less_nat_alt)
    have q: "unat ?q = unat offset + (if ?A mod 4096 < 0xff8 then 0xff8 - ?A mod 4096 else 0)"
      using skip_nat [of address offset] lt room by (simp add: Let_def)
    have none: "\<not> ?aff p site" if "unat offset \<le> p" "p < unat ?q" for p site
    proof -
      have "(?A + (p - unat offset)) mod 4096 \<notin> {0xff8, 0xffc}"
        by (rule no_candidate_skipped) (use that q in \<open>auto split: if_splits\<close>)
      then show ?thesis using that by (auto simp: affected_843419_def)
    qed
    show ?thesis
    proof (cases "unat ?q + 12 \<le> unat stop")
      case False
      then have "\<not> ?aff p site" if "unat offset \<le> p" for p site
        using none [OF that, of site] by (cases "p < unat ?q") (auto simp: affected_843419_def)
      moreover have "stop < ?q \<or> stop - ?q < 12" using False room_left [of stop ?q] by blast
      ultimately show ?thesis by (subst scan_843419_from.simps) (auto simp: Let_def)
    next
      case fits: True
      let ?n = "next_candidate address ?q" and ?B = "unat address + unat ?q"
      have small: "unat ?q + 4096 \<le> u64_max" "?B + 4096 \<le> u64_max" using fits room by linarith+
      obtain first second third where r: "read_insn code (unat ?q) = Some first" "read_insn code (unat ?q + 4) = Some second"
        "read_insn code (unat ?q + 8) = Some third"
        and step: "scan_843419_from code address stop offset = sites_843419 code (stop - ?q) ?q first second third
          @ scan_843419_from code address stop ?n"
        using scan_843419_step [OF True fits room(2) small(1)] by blast
      have page: "?B mod 4096 \<in> {0xff8, 0xffc}" using candidate_at_skip [OF less.prems refl] by (simp add: q add.assoc)
      have n: "unat ?n = unat ?q + (if ?B mod 4096 = 0xff8 then 4 else 0xffc)" using next_nat [OF small(2)] by simp
      have "4 dvd ?B mod 4096" using page by auto
      moreover have "(4 :: nat) dvd 4096" by simp
      ultimately have "4 dvd ?B" using dvd_mod_iff by blast
      then have "4 dvd unat address + unat ?n" by (auto simp: n simp flip: add.assoc)
      then have rest: "unat ` set (scan_843419_from code address stop ?n) = {site. \<exists>p\<ge>unat ?n. ?aff p site}"
      proof (rule less.hyps [rotated])
        have "unat offset \<le> unat ?q" "unat ?q < unat ?n" by (simp add: q, simp add: n)
        then show "unat stop - unat ?n < unat stop - unat offset" using lt by linarith
      qed
      have skip: "\<not> ?aff p site" if "unat ?q < p" "p < unat ?n" for p site
      proof -
        have "(?B + (p - unat ?q)) mod 4096 \<notin> {0xff8, 0xffc}"
          by (rule no_candidate_after) (use that page n in auto)
        then show ?thesis using that by (auto simp: affected_843419_def)
      qed
      have "(\<exists>p\<ge>unat offset. ?aff p site) \<longleftrightarrow> ?aff (unat ?q) site \<or> (\<exists>p\<ge>unat ?n. ?aff p site)" for site
      proof
        assume "\<exists>p\<ge>unat offset. ?aff p site"
        then obtain p where "unat offset \<le> p" "?aff p site" by blast
        then show "?aff (unat ?q) site \<or> (\<exists>p\<ge>unat ?n. ?aff p site)"
          using none [of p site] skip [of p site] by (metis linorder_neqE_nat not_le_imp_less)
      next
        assume "?aff (unat ?q) site \<or> (\<exists>p\<ge>unat ?n. ?aff p site)"
        moreover have "unat offset \<le> unat ?q" "unat ?q \<le> unat ?n" using q n by simp_all
        ultimately show "\<exists>p\<ge>unat offset. ?aff p site" by (meson order_trans)
      qed
      with sites_affected [OF fits small(1) r page] rest show ?thesis
        unfolding step set_append image_Un by auto
    qed
  qed
qed

text \<open>
  C37. The scan for erratum 843419 misses nothing and reports nothing else: on code that is aligned and ends below
  the last page of the address space, the offsets it returns are exactly the last instructions of a sequence whose
  \<open>adrp\<close> lies at page offset \<open>0xff8\<close> or \<open>0xffc\<close> at or after \<open>start\<close>.
\<close>

theorem scan_843419_complete:
  "unat address + length code + 4096 \<le> u64_max \<Longrightarrow> 4 dvd unat address + unat start \<Longrightarrow>
   unat ` set (scan_843419 code address start stop) =
     {site. \<exists>p\<ge>unat start. affected_843419 code address (min (unat stop) (length code)) p site}"
proof -
  assume room: "unat address + length code + 4096 \<le> u64_max" and al: "4 dvd unat address + unat start"
  let ?stop = "min stop (of_nat (min (length code) u64_max)) :: u64"
  have "unat (of_nat (min (length code) u64_max) :: u64) = length code"
    using room by (simp add: unat_of_nat min_def)
  then have "unat ?stop = min (unat stop) (length code)" by (simp add: min_def word_le_nat_alt)
  then show ?thesis using scan_843419_from_sites [OF room _ al, of ?stop] by (simp add: scan_843419_def)
qed

theorem scan_843419_complete_witness:
  "8 \<in> unat ` set (scan_843419 [0, 0, 0, 0x90, 0x41, 0, 0x40, 0xf9, 3, 0, 0x40, 0xf9] 0xff8 0 12)"
proof -
  let ?code = "[0, 0, 0, 0x90, 0x41, 0, 0x40, 0xf9, 3, 0, 0x40, 0xf9] :: u8 list"
  have r: "read_insn ?code 0 = Some 0x90000000" "read_insn ?code 4 = Some 0xf9400041" "read_insn ?code 8 = Some 0xf9400003"
    by code_simp+
  have "is_843419_sequence 0x90000000 0xf9400041 0xf9400003" by code_simp
  then have aff: "affected_843419 ?code 0xff8 12 0 8" unfolding affected_843419_def using r by auto
  have "unat ` set (scan_843419 ?code 0xff8 0 12) =
      {site. \<exists>p\<ge>unat (0 :: u64). affected_843419 ?code 0xff8 (min (unat (12 :: u64)) (length ?code)) p site}"
    by (rule scan_843419_complete) simp_all
  moreover have "min (unat (12 :: u64)) (length ?code) = 12" by simp
  ultimately have eq: "unat ` set (scan_843419 ?code 0xff8 0 12) = {site. \<exists>p\<ge>unat (0 :: u64). affected_843419 ?code 0xff8 12 p site}"
    by (simp only:)
  show ?thesis unfolding eq by (rule CollectI, rule exI [of _ 0], rule conjI [OF _ aff]) simp
qed

end
