(* ===== verification/Spec2Isabelle.thy ===== *)
theory Spec2Isabelle
  imports GcParallel GcWhyLive IcfCorrect MergeTotal SymbolOrder ClaimsCorrect TableBatch
    RiscvCorrect LoongArchCorrect Aarch64Correct
begin

text \<open>
  qld, a linker: its format-independent passes over sections, its symbol table and its instruction
  encoders, modelled and proved.

  The linker reads objects, resolves symbols, runs passes over the sections it read, lays the
  output out and writes it.  The passes of \<open>src/src/passes/\<close> see sections as dense numbers
  (\<open>src/src/ids.rs\<close>) and share two containers, a bitset and a compressed-sparse-row table.

  Theories and the code they translate:

  \<^item> \<open>Prelude\<close>: Rust's results, checked integers, slices and orderings; the contract \<open>comparison\<close> of a
    total preorder given by a three-way comparison, as \<open>sort_by\<close> needs it.
  \<^item> \<open>Ids\<close> (\<open>ids.rs\<close>): the ids \<open>define_id!\<close> generates, 32-bit words.
  \<^item> \<open>BitSet\<close> (\<open>passes/bitset.rs\<close>): both bitsets over 64-bit words; the contract \<open>mark_set\<close> of a set
    that tells the first setter, which the atomic set provides.
  \<^item> \<open>Csr\<close> (\<open>passes/csr.rs\<close>): the table of rows with its checked constructors, the sequential
    builder and the two-pass parallel build; the contract \<open>row_table\<close>.
  \<^item> \<open>SectionGraph\<close> (\<open>passes/graph.rs\<close>): the graph of references between sections and its builders.
  \<^item> \<open>Gc\<close>, \<open>GcParallel\<close>, \<open>GcWhyLive\<close> (\<open>passes/gc.rs\<close>): the sequential marking, the parallel marking as
    a step relation over the running tasks, where a task may see a stale word before its atomic
    update, and the breadth-first search that explains why a section is live.
  \<^item> \<open>Icf\<close>, \<open>IcfSplit\<close>, \<open>IcfCorrect\<close> (\<open>passes/icf.rs\<close>): identical code folding by partition refinement;
    splitting one class, then the refinement rounds to the coarsest stable partition.
  \<^item> \<open>Strtab\<close> (\<open>elf/read/strtab.rs\<close>): string tables and the search for a byte a word at a time.
  \<^item> \<open>HashTable\<close>: hashbrown's table as a record of operations with the laws it documents
    (\<open>hash_table_laws\<close>), which a list meets; the passes, the claims and the symbol table take it as a parameter.
  \<^item> \<open>MergeSplit\<close> (\<open>passes/merge/split.rs\<close>) and \<open>Merge\<close> (\<open>passes/merge.rs\<close>): cutting a mergeable section
    into pieces; the deduplication, layout, tail merging, queries and writing of all of them.
  \<^item> \<open>MergeDedup\<close>, \<open>MergeLayout\<close>, \<open>MergeTail\<close>, \<open>MergeCorrect\<close>, \<open>MergeOutput\<close>, \<open>MergeTotal\<close>: what these
    definitions do, from the leader of a piece (\<open>MergeDedup\<close>), the offsets of a group laid out in runs
    or with tail merging (\<open>MergeLayout\<close>, \<open>MergeTail\<close>, with the contract \<open>group_layout\<close> that both
    layouts meet), all groups (\<open>MergeCorrect\<close>), the bytes a caller finds (\<open>MergeOutput\<close>) to success and
    errors (\<open>MergeTotal\<close>).
  \<^item> \<open>SymbolDefs\<close> (\<open>symbols/name.rs\<close>, \<open>definition.rs\<close>, \<open>elf_reference.rs\<close>, \<open>flags.rs\<close> and the definition cells
    of \<open>table.rs\<close>): names, definitions, the precedence rule over a format's \<open>Resolver\<close> (a record of its
    methods) and the atomic flags; \<open>SymbolOrder\<close> shows that the definition a symbol ends with does not
    depend on the order of insertion and that concurrent flag updates lose nothing.
  \<^item> \<open>Claims\<close> (\<open>symbols/claims.rs\<close>): the claims on named groups and their slots; \<open>ClaimsCorrect\<close> refines
    them to a map from keys to the lowest offer of the first round.  A lock makes an operation atomic.
  \<^item> \<open>SymbolTable\<close> (\<open>symbols/table.rs\<close>, \<open>util.rs\<close>) and \<open>SymbolPartition\<close> (\<open>symbols/table/partition.rs\<close> and the choice of
    a path in \<open>try_intern_batch\<close>): the sharded symbol table, interning one name, a batch in order, a batch in
    three passes with locked shards, and a large batch by a counting sort over the shards; lookups, flags and
    growth.  The number of threads, the runs into which rayon cuts a range and the order in which the tasks of
    the first of the three passes take the locks are parameters (\<open>threads\<close>, \<open>splits\<close>, \<open>schedule\<close>).
  \<^item> \<open>SymbolTableRep\<close> relates the shards to the map from names to ids, states the invariant \<open>table_inv\<close> and the
    reference \<open>add_names\<close> (names added one after the other), and proves the in-order path.
  \<^item> \<open>SymbolPasses\<close>, \<open>SymbolNumber\<close>, \<open>SymbolAssign\<close> prove the three passes: provisional handles and first
    occurrences under every schedule, the order of the new names, and the final ids in shards and jobs.
  \<^item> \<open>PartitionSort\<close>, \<open>PartitionProbe\<close>, \<open>RankBitmap\<close>, \<open>PartitionNumber\<close>, \<open>PartitionOutput\<close> prove the partition: every
    name has an entry of its own in the region of its shard, probing finds its first occurrence, the bitmap
    ranks first occurrences (rank and select over 64-bit words), the ranks are the ids of the reference, and
    the outputs, cut at the same places, get them.
  \<^item> \<open>TableBatch\<close> joins the paths: every batch has the outcome of the reference, or is undone.
  \<^item> \<open>MachineCode\<close>: byte order, slices and shifts, the helpers the encoders of \<open>arch/\<close> share, and the
    reference description of an instruction field: a layout, with the encoder \<open>scatter\<close> and the decoder
    \<open>gather\<close>; the contract \<open>insn_field\<close> of an encoder that is one.
  \<^item> \<open>Riscv\<close> (\<open>arch/riscv.rs\<close>), \<open>LoongArch\<close> (\<open>arch/loongarch.rs\<close>), \<open>Aarch64\<close> (\<open>arch/aarch64.rs\<close>): the fields
    relocations patch, ULEB128 numbers, thunks and the Cortex-A53 errata.  \<open>RiscvCorrect\<close>, \<open>LoongArchCorrect\<close>
    and \<open>Aarch64Correct\<close> show that what is written decodes, by the formats of the manuals, to the value or is
    an overflow exactly when it cannot, that the sequences reach their targets, and that the scan for erratum
    843419 is exact.  The one exception is the checked load or store field of AArch64, which accepts more than
    the 12 bits it writes; the theorem about it says what is written.

  Loops that may not end are \<open>partial_function (option)\<close>, with the theorems that they return; no
  definition has a fuel bound.  The panics of the code (an index out of range, an id out of its
  width) are values of the model.  What a debug assertion asks of the callers is not a panic of the
  model, which is that of a build without them: where it matters, the theorem is about callers that keep
  it (offers on slots that were given out, a partitioned sequence of at most 2^31 names).  Hash functions are parameters without hypotheses; hashbrown's table
  is a parameter with the laws it documents.  Rayon's
  parallel iterators over disjoint data are list maps; where threads share atomic words, the
  interleavings are a step relation; where they share locked shards, every order of the operations.

  Not modelled: the driver of symbol resolution (\<open>symbols/resolve.rs\<close>), linker scripts (\<open>script/\<close>), the fields
  of s390x, ARM and PowerPC and the mapping of relocation types to fields (\<open>elf/arch/\<close>), which are code of the
  same kind as what is here; the format back ends (\<open>elf/\<close>, \<open>coff/\<close>, \<open>macho/\<close>), the command line and the input and
  output files, which are layout, option tables and I/O; plug-ins, LTO and demangling, which are foreign
  interfaces.
\<close>

section \<open>Properties that span components\<close>

lemma built_edges:
  assumes "graph_build b = Ok g"
  shows "{(u, v). builder_edge b u v} \<subseteq> section_step (num_sections g) (graph_edges g)"
proof
  let ?n = "cb_rows (gb_edges b)"
  fix e assume "e \<in> {(u, v). builder_edge b u v}"
  then obtain u v where e: "e = (u, v)" and uv: "(id_index u, v) \<in> set (cb_pairs (gb_edges b))"
    by (auto simp: builder_edge_def)
  have rows: "\<forall>p\<in>set (cb_pairs (gb_edges b)). fst p < ?n"
    using assms by (auto simp: graph_build_def csr_build_eq find_None_iff not_le split: if_splits option.splits)
  then have g: "graph_of_rows (map (pushed_row (cb_pairs (gb_edges b))) [0..<?n]) (gb_roots b) = Ok g"
    using assms graph_build_eq by metis
  have "id_index u < ?n" using rows uv by force
  then have "v \<in> set (graph_edges g u)"
    using graph_of_rows_edges(3) [OF g, of u] uv by (force simp: pushed_row_def)
  with graph_edges_in_range [OF graph_of_rows_wf [OF g]] show "e \<in> section_step (num_sections g) (graph_edges g)"
    by (auto simp: e section_step_def)
qed

text \<open>
  C20. Sections kept together live and die together: in a graph built with \<open>keep_together\<close>, every
  outcome of garbage collection keeps all members of the group or none.
\<close>

theorem keep_together_all_or_none:
  "graph_build (keep_together b ms) = Ok g \<Longrightarrow> collect_garbage g l \<Longrightarrow> x \<in> set ms \<Longrightarrow> y \<in> set ms \<Longrightarrow>
     is_live l x \<longleftrightarrow> is_live l y"
proof -
  assume g: "graph_build (keep_together b ms) = Ok g" and l: "collect_garbage g l"
    and x: "x \<in> set ms" and y: "y \<in> set ms"
  have live: "is_live l z \<longleftrightarrow> z \<in> reachable (num_sections g) (graph_edges g) (sg_roots g)" for z
    using collect_garbage_spec [OF l] by auto
  obtain i j where "i < length ms" "ms ! i = x" "j < length ms" "ms ! j = y"
    using x y by (auto simp: in_set_conv_nth)
  then have "(x, y) \<in> (section_step (num_sections g) (graph_edges g))\<^sup>*"
    "(y, x) \<in> (section_step (num_sections g) (graph_edges g))\<^sup>*"
    using rtrancl_mono [OF built_edges [OF g]] keep_together_reach [of _ ms _ b] by blast+
  then show ?thesis
    unfolding live by (meson closed_under_reach closed_under_reachable)
qed

theorem keep_together_all_or_none_witness:
  "\<exists>g. graph_build (keep_together (add_root (graph_builder_new 3) 1) [0, 1, 2]) = Ok g \<and>
     (is_live (collect_garbage_sequential g) 0 \<longleftrightarrow> is_live (collect_garbage_sequential g) 2)"
proof -
  let ?b = "keep_together (add_root (graph_builder_new 3) 1) [0, 1, 2]"
  have "case graph_build ?b of Ok g \<Rightarrow> True | Err e \<Rightarrow> False" by code_simp
  then obtain g where g: "graph_build ?b = Ok g" by (cases "graph_build ?b") auto
  have "collect_garbage g (collect_garbage_sequential g)"
    unfolding collect_garbage_sequential_def by (intro collect_garbage.intros mark_from.one_thread)
  with g keep_together_all_or_none [OF g this, of 0 2] show ?thesis by simp
qed

end
